(* ===== verification/CF_Prelude.thy ===== *)
theory CF_Prelude
  imports Main "HOL-Library.Word" "HOL-Library.Multiset" "HOL-Library.Monad_Syntax"
begin

text \<open>
  What the component theories share: checked memory accesses, the base types of CFBase.h,
  the bit-field macros of CFInternal.h, and generic lemmas on lists and words.

  A C function whose execution can leave the defined behaviour of the language (an access
  outside the allocated buffer) or that can end in HALT is a function into \<open>'a option\<close>, composed
  with the \<open>do\<close> notation of Monad_Syntax: \<open>None\<close> says that the call has no defined result.  A theorem
  that such a function returns \<open>Some\<close> is thus also a memory-safety theorem.
\<close>

unbundle bit_operations_syntax

named_theorems cf_mem "evaluation of checked memory accesses that are in range"

subsection \<open>Checked access to a buffer\<close>

definition rd :: "'a list \<Rightarrow> nat \<Rightarrow> 'a option" where
  "rd xs i = (if i < length xs then Some (xs ! i) else None)"

definition wr :: "'a list \<Rightarrow> nat \<Rightarrow> 'a \<Rightarrow> 'a list option" where
  "wr xs i v = (if i < length xs then Some (xs[i := v]) else None)"

text \<open>\<open>memmove(dst + d, src + s, n)\<close>: both blocks must lie inside their buffers.\<close>

definition mem_read :: "'a list \<Rightarrow> nat \<Rightarrow> nat \<Rightarrow> 'a list option" where
  "mem_read xs s n = (if s + n \<le> length xs then Some (take n (drop s xs)) else None)"

definition mem_write :: "'a list \<Rightarrow> nat \<Rightarrow> 'a list \<Rightarrow> 'a list option" where
  "mem_write xs d ys =
     (if d + length ys \<le> length xs then Some (take d xs @ ys @ drop (d + length ys) xs) else None)"

definition memmove :: "'a list \<Rightarrow> nat \<Rightarrow> 'a list \<Rightarrow> nat \<Rightarrow> nat \<Rightarrow> 'a list option" where
  "memmove dst d src s n = do { block \<leftarrow> mem_read src s n; mem_write dst d block }"

lemma rd_Some [cf_mem]: "i < length xs \<Longrightarrow> rd xs i = Some (xs ! i)"
  by (simp add: rd_def)

lemma rd_eq_Some_iff: "rd xs i = Some v \<longleftrightarrow> i < length xs \<and> v = xs ! i"
  by (auto simp: rd_def)

lemma wr_Some [cf_mem]: "i < length xs \<Longrightarrow> wr xs i v = Some (xs[i := v])"
  by (simp add: wr_def)

lemma wr_eq_Some_iff: "wr xs i v = Some ys \<longleftrightarrow> i < length xs \<and> ys = xs[i := v]"
  by (auto simp: wr_def)

lemma mem_read_Some [cf_mem]: "s + n \<le> length xs \<Longrightarrow> mem_read xs s n = Some (take n (drop s xs))"
  by (simp add: mem_read_def)

lemma mem_write_Some [cf_mem]:
  "d + length ys \<le> length xs \<Longrightarrow>
    mem_write xs d ys = Some (take d xs @ ys @ drop (d + length ys) xs)"
  by (simp add: mem_write_def)

lemma memmove_Some [cf_mem]:
  "s + n \<le> length src \<Longrightarrow> d + n \<le> length dst \<Longrightarrow>
    memmove dst d src s n = Some (take d dst @ take n (drop s src) @ drop (d + n) dst)"
  by (simp add: memmove_def mem_read_def mem_write_def)

text \<open>A list with a block stored at an offset.\<close>

definition overwritten :: "'a list \<Rightarrow> nat \<Rightarrow> 'a list \<Rightarrow> 'a list" where
  "overwritten xs i ys = take i xs @ ys @ drop (i + length ys) xs"

lemma length_overwritten [simp]: "i + length ys \<le> length xs \<Longrightarrow> length (overwritten xs i ys) = length xs"
  by (simp add: overwritten_def)

lemma overwritten_snoc:
  "i + length ys < length xs \<Longrightarrow> overwritten (xs[i + length ys := z]) i ys = overwritten xs i (ys @ [z])"
  by (simp add: overwritten_def drop_update_swap flip: Cons_nth_drop_Suc)

lemma overwritten_Cons:
  "i + length ys < length xs \<Longrightarrow> (overwritten xs (Suc i) ys)[i := x] = overwritten xs i (x # ys)"
  by (simp add: overwritten_def list_update_append take_Suc_conv_app_nth)

lemma overwritten_append:
  "i + length ys + length zs \<le> length xs \<Longrightarrow>
    overwritten (overwritten xs i ys) (i + length ys) zs = overwritten xs i (ys @ zs)"
  by (simp add: overwritten_def add.commute add.left_commute)

lemma overwritten_Nil [simp]: "overwritten xs i [] = xs"
  by (simp add: overwritten_def)

lemma update_overwritten: "i < length xs \<Longrightarrow> xs[i := x] = overwritten xs i [x]"
  by (simp add: overwritten_def upd_conv_take_nth_drop)

subsection \<open>Array accesses with signed indices, and for loops\<close>

definition rdi :: "'a list \<Rightarrow> int \<Rightarrow> 'a option" where
  "rdi xs i = (if i < 0 then None else rd xs (nat i))"

definition wri :: "'a list \<Rightarrow> int \<Rightarrow> 'a \<Rightarrow> 'a list option" where
  "wri xs i v = (if i < 0 then None else wr xs (nat i) v)"

text \<open>A \<open>for\<close> loop over the given indices.\<close>

fun for_each :: "nat list \<Rightarrow> (nat \<Rightarrow> 's \<Rightarrow> 's option) \<Rightarrow> 's \<Rightarrow> 's option" where
  "for_each [] body s = Some s"
| "for_each (i # is) body s = do { s \<leftarrow> body i s; for_each is body s }"

lemma for_each_inv:
  assumes "P 0 s" "\<And>k s. k < length is \<Longrightarrow> P k s \<Longrightarrow> \<exists>s'. body (is ! k) s = Some s' \<and> P (Suc k) s'"
  shows "\<exists>s'. for_each is body s = Some s' \<and> P (length is) s'"
  using assms
proof (induction "is" arbitrary: s P)
  case Nil
  then show ?case by simp
next
  case (Cons i "is")
  obtain s' where s': "body i s = Some s'" "P (Suc 0) s'" using Cons.prems(2) [of 0 s] Cons.prems(1) by auto
  have "\<exists>s''. for_each is body s' = Some s'' \<and> P (Suc (length is)) s''"
    by (rule Cons.IH [where P = "\<lambda>k. P (Suc k)"]) (use s' Cons.prems(2) [of "Suc _"] in auto)
  then show ?case using s' by simp
qed

lemma rdi_Some [cf_mem]: "0 \<le> i \<Longrightarrow> i < int (length xs) \<Longrightarrow> rdi xs i = Some (xs ! nat i)"
  by (simp add: rdi_def rd_Some nat_less_iff)

lemma wri_Some [cf_mem]: "0 \<le> i \<Longrightarrow> i < int (length xs) \<Longrightarrow> wri xs i v = Some (xs[nat i := v])"
  by (simp add: wri_def wr_Some nat_less_iff)

lemma rdi_int [cf_mem]: "i < length xs \<Longrightarrow> rdi xs (int i) = Some (xs ! i)"
  by (simp add: rdi_Some)

subsection \<open>Signed integers of 32 bits\<close>

definition INT_MAX :: int where "INT_MAX = 2 ^ 31 - 1"
definition INT_MIN :: int where "INT_MIN = - (2 ^ 31)"

text \<open>
  The result of a computation in \<open>int\<close>: \<open>None\<close> on overflow.  \<open>SInt32_of\<close> is the conversion of a wider
  integer, which keeps the low 32 bits.
\<close>

definition c_int :: "int \<Rightarrow> int option" where
  "c_int x = (if INT_MIN \<le> x \<and> x \<le> INT_MAX then Some x else None)"

definition SInt32_of :: "int \<Rightarrow> int" where
  "SInt32_of n = sint (word_of_int n :: 32 word)"

lemma c_int_Some [cf_mem]: "INT_MIN \<le> x \<Longrightarrow> x \<le> INT_MAX \<Longrightarrow> c_int x = Some x"
  by (simp add: c_int_def)

lemma c_int_nonneg [cf_mem]: "0 \<le> x \<Longrightarrow> x \<le> INT_MAX \<Longrightarrow> c_int x = Some x"
  by (simp add: c_int_def INT_MIN_def)

lemma c_int_eq_Some_iff: "c_int x = Some y \<longleftrightarrow> INT_MIN \<le> x \<and> x \<le> INT_MAX \<and> y = x"
  by (auto simp: c_int_def)

lemma SInt32_of_id: "- (2 ^ 31) \<le> n \<Longrightarrow> n < 2 ^ 31 \<Longrightarrow> SInt32_of n = n"
  by (simp add: SInt32_of_def signed_of_int signed_take_bit_int_eq_self)

lemma SInt32_of_nonneg: "0 \<le> n \<Longrightarrow> n \<le> INT_MAX \<Longrightarrow> SInt32_of n = n"
  by (rule SInt32_of_id) (simp_all add: INT_MAX_def)

subsection \<open>CFBase.h: comparison results and ranges\<close>

text \<open>\<open>CFComparisonResult\<close> is a \<open>CFIndex\<close>, so a comparator may return any integer.\<close>

type_synonym CFComparisonResult = int

definition kCFCompareLessThan :: CFComparisonResult where
  "kCFCompareLessThan = - 1"

definition kCFCompareEqualTo :: CFComparisonResult where
  "kCFCompareEqualTo = 0"

definition kCFCompareGreaterThan :: CFComparisonResult where
  "kCFCompareGreaterThan = 1"

definition kCFNotFound :: int where
  "kCFNotFound = - 1"

lemmas compare_defs [simp] =
  kCFCompareLessThan_def kCFCompareEqualTo_def kCFCompareGreaterThan_def

record CFRange =
  location :: nat
  range_length :: nat

definition CFRangeMake :: "nat \<Rightarrow> nat \<Rightarrow> CFRange" where
  "CFRangeMake loc len = \<lparr>location = loc, range_length = len\<rparr>"

lemma CFRangeMake_sel [simp]:
  "location (CFRangeMake loc len) = loc" "range_length (CFRangeMake loc len) = len"
  by (simp_all add: CFRangeMake_def)

definition in_range :: "CFRange \<Rightarrow> nat \<Rightarrow> bool" where
  "in_range r i \<longleftrightarrow> location r \<le> i \<and> i < location r + range_length r"

subsection \<open>CFInternal.h: bit fields of the object header\<close>

text \<open>
  \<open>__CFBitfieldMask\<close> and its two users work on \<open>UInt32\<close>; the header byte
  \<open>_cfinfo[CF_INFO_BITS]\<close> is widened for the computation and truncated by the store.
\<close>

definition CFBitfieldMask :: "nat \<Rightarrow> nat \<Rightarrow> 32 word" where
  "CFBitfieldMask n1 n2 = drop_bit (31 - n1) (push_bit (31 - n1 + n2) (NOT 0))"

definition CFBitfieldGetValue :: "8 word \<Rightarrow> nat \<Rightarrow> nat \<Rightarrow> 32 word" where
  "CFBitfieldGetValue v n1 n2 = drop_bit n2 (ucast v AND CFBitfieldMask n1 n2)"

definition CFBitfieldSetValue :: "8 word \<Rightarrow> nat \<Rightarrow> nat \<Rightarrow> 32 word \<Rightarrow> 8 word" where
  "CFBitfieldSetValue v n1 n2 x =
     ucast ((ucast v AND NOT (CFBitfieldMask n1 n2)) OR (push_bit n2 x AND CFBitfieldMask n1 n2))"

lemma bit_CFBitfieldMask:
  "n1 \<le> 31 \<Longrightarrow> n2 \<le> n1 \<Longrightarrow> bit (CFBitfieldMask n1 n2) i \<longleftrightarrow> n2 \<le> i \<and> i \<le> n1"
  by (auto simp: CFBitfieldMask_def bit_simps)

lemma CFBitfield_get_set:
  assumes "n2 \<le> n1" "n1 \<le> 7" "take_bit (n1 - n2 + 1) x = x"
  shows "CFBitfieldGetValue (CFBitfieldSetValue v n1 n2 x) n1 n2 = x"
proof -
  have high: "bit x i \<Longrightarrow> i \<le> n1 - n2" for i
    using arg_cong [OF assms(3), of "\<lambda>w. bit w i"] by (auto simp: bit_simps)
  show ?thesis
    by (rule bit_word_eqI)
      (use assms(1,2) high in
        \<open>fastforce simp: CFBitfieldGetValue_def CFBitfieldSetValue_def bit_simps bit_CFBitfieldMask\<close>)
qed

lemma CFBitfield_get_set_other:
  assumes "n2 \<le> n1" "n1 \<le> 7" "m2 \<le> m1" "m1 \<le> 7" "m1 < n2 \<or> n1 < m2"
  shows "CFBitfieldGetValue (CFBitfieldSetValue v n1 n2 x) m1 m2 = CFBitfieldGetValue v m1 m2"
  by (rule bit_word_eqI)
    (use assms in \<open>auto simp: CFBitfieldGetValue_def CFBitfieldSetValue_def bit_simps bit_CFBitfieldMask\<close>)

subsection \<open>Callbacks\<close>

text \<open>A function pointer: its address, for comparisons between pointers, and what it computes.\<close>

record 'f callback =
  cb_addr :: nat
  cb_fun :: 'f

text \<open>The calls of a collection's \<open>retain\<close> and \<open>release\<close>, as recorded in ghost traces.\<close>

datatype 'a cb_event = Retained 'a | Released 'a

subsection \<open>CoreFoundation_Prefix.h: flsl\<close>

text \<open>\<open>flsl(n)\<close>: the position of the highest set bit, counted from 1; 0 for 0.\<close>

fun flsl :: "nat \<Rightarrow> nat" where
  "flsl n = (if n = 0 then 0 else 1 + flsl (n div 2))"

declare flsl.simps [simp del]

lemma flsl_upper: "n < 2 ^ flsl n"
proof (induction n rule: flsl.induct)
  case (1 n)
  then show ?case
    by (cases "n = 0") (auto simp: flsl.simps [of n] flsl.simps [of 0])
qed

lemma flsl_le: "n < 2 ^ k \<Longrightarrow> flsl n \<le> k"
proof (induction k arbitrary: n)
  case 0
  then show ?case by (simp add: flsl.simps [of 0])
next
  case (Suc k)
  then have "n div 2 < 2 ^ k" by simp
  then have "flsl (n div 2) \<le> k" by (rule Suc.IH)
  then show ?case by (simp add: flsl.simps [of n])
qed

lemma flsl_lower: "0 < n \<Longrightarrow> 2 ^ (flsl n - 1) \<le> n"
proof (induction n rule: flsl.induct)
  case (1 n)
  then show ?case
  proof (cases "n div 2 = 0")
    case True
    then show ?thesis using 1(2) by (simp add: flsl.simps [of n] flsl.simps [of 0])
  next
    case False
    have "0 < flsl (n div 2)" using False by (simp add: flsl.simps [of "n div 2"])
    then have "(2 :: nat) ^ (flsl n - 1) = 2 * 2 ^ (flsl (n div 2) - 1)"
      using 1(2) by (simp add: flsl.simps [of n] flip: power_Suc)
    also have "\<dots> \<le> 2 * (n div 2)" using 1 False by simp
    also have "\<dots> \<le> n" by simp
    finally show ?thesis .
  qed
qed

lemma sint_shifted_one: "k \<le> 30 \<Longrightarrow> sint (push_bit k (1 :: 32 word)) = 2 ^ k"
proof -
  assume "k \<le> 30"
  then have "k \<in> set [0..<31]" by simp
  moreover have "\<forall>k \<in> set [0..<31]. sint (push_bit k (1 :: 32 word)) = 2 ^ k" by code_simp
  ultimately show ?thesis by blast
qed

subsection \<open>Generic lemmas\<close>

lemma nat_and_7 [simp]: "(n::nat) AND 7 = n mod 8"
proof -
  have "n AND 7 = n AND mask 3" by (simp add: mask_eq_exp_minus_1)
  then show ?thesis by (simp add: take_bit_eq_mask [symmetric] take_bit_eq_mod)
qed

lemma nat_and_15 [simp]: "(n::nat) AND 15 = n mod 16"
proof -
  have "n AND 15 = n AND mask 4" by (simp add: mask_eq_exp_minus_1)
  then show ?thesis by (simp add: take_bit_eq_mask [symmetric] take_bit_eq_mod)
qed

lemma word_and_1_eq [simp]: "(x :: 'a::len word) AND 1 = of_bool (bit x 0)"
  by (simp add: and_one_eq mod_2_eq_odd bit_0)

lemma bit_of_bucket_inj:
  assumes "(p::nat) div 8 = q div 8"
  shows "7 - p mod 8 = 7 - q mod 8 \<longleftrightarrow> p = q"
proof -
  have "p mod 8 \<le> 7" "q mod 8 \<le> 7" using less_Suc_eq_le by fastforce+
  then have "7 - p mod 8 = 7 - q mod 8 \<longleftrightarrow> p mod 8 = q mod 8" by linarith
  also have "\<dots> \<longleftrightarrow> p = q"
    using assms div_mult_mod_eq [of p 8] div_mult_mod_eq [of q 8] by auto
  finally show ?thesis .
qed

lemma div_mult_less_iff: "(n::nat) div d * d < n \<longleftrightarrow> 0 < n mod d"
  using div_mult_mod_eq [of n d] by linarith

lemma seven_diff_less_8 [simp]: "7 - (n::nat) < 8"
  by simp

lemma mset_take_update:
  assumes "i < n" "n \<le> length xs"
  shows "mset (take n (xs[i := v])) = mset (take n xs) - {#xs ! i#} + {#v#}"
  using assms by (simp add: take_update_swap mset_update)

lemma take_Suc_drop:
  "i + Suc n \<le> length xs \<Longrightarrow> take (Suc n) (drop i xs) = xs ! i # take n (drop (Suc i) xs)"
  by (subst Cons_nth_drop_Suc [symmetric]) simp_all

lemma option_bind_eq_Some:
  "(m \<bind> f) = Some y \<longleftrightarrow> (\<exists>x. m = Some x \<and> f x = Some y)"
  by (cases m) auto

end
