(* ===== verification/CF_Compare.thy ===== *)
theory CF_Compare
  imports CF_Prelude
begin

text \<open>
  The contract of the comparator callbacks that CFBinaryHeap, the sort functions and CFBSearch take
  from their callers, as locales.  The lemmas proved here are used through interpretations on the
  comparisons of the model, or with the locale predicate of a caller's comparator as a hypothesis.
\<close>

subsection \<open>Orders given by a greater-than test\<close>

text \<open>A strict weak order: all the binary heap needs of its test \<open>item > value\<close>.\<close>

locale heap_order =
  fixes gt :: "'a \<Rightarrow> 'a \<Rightarrow> bool"
  assumes gt_asym: "gt a b \<Longrightarrow> \<not> gt b a"
    and le_trans: "\<not> gt a b \<Longrightarrow> \<not> gt b c \<Longrightarrow> \<not> gt a c"
begin

lemma le_refl: "\<not> gt a a"
  using gt_asym by blast

lemma gt_le_trans: "gt a b \<Longrightarrow> \<not> gt a c \<Longrightarrow> \<not> gt b c"
  using gt_asym le_trans by blast

lemma le_gt_trans: "\<not> gt a b \<Longrightarrow> gt c b \<Longrightarrow> \<not> gt a c"
  using gt_asym le_trans by blast

end

subsection \<open>Comparators\<close>

text \<open>
  A comparator returns a negative, zero or positive number, consistently with its arguments
  swapped, and its \<open>\<le>\<close> is transitive.
\<close>

locale comparator =
  fixes cmp :: "'a \<Rightarrow> 'a \<Rightarrow> CFComparisonResult"
  assumes cmp_swap: "0 < cmp a b \<longleftrightarrow> cmp b a < 0"
    and cmp_trans: "cmp a b \<le> 0 \<Longrightarrow> cmp b c \<le> 0 \<Longrightarrow> cmp a c \<le> 0"
begin

lemma cmp_refl: "cmp a a = 0"
  using cmp_swap [of a a] by linarith

lemma cmp_total: "cmp a b \<le> 0 \<or> cmp b a \<le> 0"
  using cmp_swap [of a b] by linarith

lemma cmp_zero_sym: "cmp a b = 0 \<longleftrightarrow> cmp b a = 0"
  using cmp_swap [of a b] cmp_swap [of b a] by linarith

lemma cmp_equalI: "cmp a b \<le> 0 \<Longrightarrow> cmp b a \<le> 0 \<Longrightarrow> cmp a b = 0"
  using cmp_swap [of b a] by linarith

lemma cmp_equal_trans:
  assumes "cmp a b = 0" "cmp b c = 0"
  shows "cmp a c = 0"
proof (rule cmp_equalI)
  show "cmp a c \<le> 0" using assms by (intro cmp_trans [of a b c]) simp_all
  show "cmp c a \<le> 0" using assms cmp_zero_sym by (intro cmp_trans [of c b a]) (metis order_refl)+
qed

lemma cmp_equal_left: "cmp a b = 0 \<Longrightarrow> cmp a c = 0 \<longleftrightarrow> cmp b c = 0"
  using cmp_equal_trans cmp_zero_sym by metis

lemma cmp_less_trans: "cmp a b < 0 \<Longrightarrow> cmp b c \<le> 0 \<Longrightarrow> cmp a c < 0"
  using cmp_trans [of b c a] cmp_swap [of a b] cmp_swap [of c a] cmp_swap [of a c] cmp_swap [of b a]
  by linarith

end

sublocale comparator \<subseteq> heap_order "\<lambda>a b. 0 < cmp a b"
proof unfold_locales
  show "\<And>a b. 0 < cmp a b \<Longrightarrow> \<not> 0 < cmp b a" using cmp_swap by force
  show "\<And>a b c. \<not> 0 < cmp a b \<Longrightarrow> \<not> 0 < cmp b c \<Longrightarrow> \<not> 0 < cmp a c"
    using cmp_trans by (meson not_less)
qed

text \<open>
  CFBinaryHeap tests \<open>compare(...) == kCFCompareGreaterThan\<close>, so it also needs the results to be
  the three enumerators.
\<close>

locale strict_comparator = comparator cmp
  for cmp :: "'a \<Rightarrow> 'a \<Rightarrow> CFComparisonResult" +
  assumes cmp_enum: "cmp a b \<in> {kCFCompareLessThan, kCFCompareEqualTo, kCFCompareGreaterThan}"
begin

lemma cmp_greater_iff: "cmp a b = kCFCompareGreaterThan \<longleftrightarrow> 0 < cmp a b"
  using cmp_enum [of a b] by auto

lemma heap_order_enum: "heap_order (\<lambda>a b. kCFCompareGreaterThan = cmp a b)"
proof -
  have "(\<lambda>a b. kCFCompareGreaterThan = cmp a b) = (\<lambda>a b. 0 < cmp a b)"
    using cmp_greater_iff by (auto simp: fun_eq_iff)
  then show ?thesis using heap_order_axioms by simp
qed

end

subsection \<open>Queues that give their least element first\<close>

text \<open>
  What the loop that empties a heap relies on: the operations it calls, and the laws they keep
  under an invariant.  The loop itself enters by its two unfolding equations.
\<close>

locale min_queue =
  fixes gt :: "'a \<Rightarrow> 'a \<Rightarrow> bool"
    and inv :: "'h \<Rightarrow> bool"
    and contents :: "'h \<Rightarrow> 'a multiset"
    and get_min :: "'h \<Rightarrow> 'a option option"
    and remove_min :: "'h \<Rightarrow> 'h option"
    and emptied :: "'h \<Rightarrow> 'a list option"
  assumes min_law: "inv h \<Longrightarrow> contents h \<noteq> {#} \<Longrightarrow>
      \<exists>v. get_min h = Some (Some v) \<and> (\<forall>x \<in># contents h. \<not> gt v x)"
    and remove_law: "inv h \<Longrightarrow> contents h \<noteq> {#} \<Longrightarrow> get_min h = Some (Some v) \<Longrightarrow>
      \<exists>h'. remove_min h = Some h' \<and> inv h' \<and> contents h = add_mset v (contents h')"
    and emptied_empty: "inv h \<Longrightarrow> contents h = {#} \<Longrightarrow> emptied h = Some []"
    and emptied_step: "inv h \<Longrightarrow> contents h \<noteq> {#} \<Longrightarrow> get_min h = Some (Some v) \<Longrightarrow>
      remove_min h = Some h' \<Longrightarrow> emptied h = map_option (Cons v) (emptied h')"
begin

lemma emptied_sorted:
  "inv h \<Longrightarrow> \<exists>vs. emptied h = Some vs \<and> mset vs = contents h \<and> sorted_wrt (\<lambda>a b. \<not> gt a b) vs"
proof (induction "size (contents h)" arbitrary: h rule: less_induct)
  case less
  show ?case
  proof (cases "contents h = {#}")
    case True
    then show ?thesis using emptied_empty [OF less.prems] by simp
  next
    case False
    obtain v where v: "get_min h = Some (Some v)" "\<forall>x \<in># contents h. \<not> gt v x"
      using min_law [OF less.prems False] by blast
    obtain h' where h': "remove_min h = Some h'" "inv h'" "contents h = add_mset v (contents h')"
      using remove_law [OF less.prems False v(1)] by blast
    obtain vs where vs: "emptied h' = Some vs" "mset vs = contents h'"
      "sorted_wrt (\<lambda>a b. \<not> gt a b) vs"
      using less.hyps [OF _ h'(2)] h'(3) by auto
    have "\<forall>x \<in> set vs. \<not> gt v x"
      using v(2) h'(3) vs(2) by (metis insert_iff set_mset_add_mset_insert set_mset_mset)
    then show ?thesis
      using emptied_step [OF less.prems False v(1) h'(1)] vs h'(3) by simp
  qed
qed

end

end
