(* ===== verification/CF_BitVector.thy ===== *)
theory CF_BitVector
  imports CF_Prelude
begin

text \<open>
  CFBitVector.c.  A bit vector is a count, a capacity and a byte buffer of \<open>capacity / 8 + 1\<close>
  buckets; bit 0 is the most significant bit of bucket 0.  Every range operation is one call of
  \<open>__CFBitVectorInternalMap\<close> with a mapper, which sees a bucket, a mask of the bits of that bucket
  that belong to the range, and a context.
\<close>

subsection \<open>State\<close>

type_synonym bucket = "8 word"

type_synonym CFBit = "32 word"

record CFBitVector =
  bv_cfinfo :: "8 word"
  bv_count :: nat
  bv_capacity :: nat
  bv_buckets :: "bucket list"

definition CFBitVectorRoundUpCapacity :: "nat \<Rightarrow> nat" where
  "CFBitVectorRoundUpCapacity capacity =
     (let capacity = (if 0 = capacity then 1 else capacity) in ((capacity + 63) div 64) * 64)"

definition CFBitVectorNumBuckets :: "CFBitVector \<Rightarrow> nat" where
  "CFBitVectorNumBuckets bv = bv_capacity bv div 8 + 1"

definition CFBitVectorMutableVariety :: "CFBitVector \<Rightarrow> 32 word" where
  "CFBitVectorMutableVariety bv = CFBitfieldGetValue (bv_cfinfo bv) 3 2"

definition CFBitVectorSetMutableVariety :: "CFBitVector \<Rightarrow> 32 word \<Rightarrow> CFBitVector" where
  "CFBitVectorSetMutableVariety bv v = bv\<lparr>bv_cfinfo := CFBitfieldSetValue (bv_cfinfo bv) 3 2 v\<rparr>"

definition CFBitVectorMutableVarietyFromFlags :: "32 word \<Rightarrow> 32 word" where
  "CFBitVectorMutableVarietyFromFlags flags = flags AND CFBitfieldMask 1 0"

definition kCFBitVectorImmutable :: "32 word" where
  "kCFBitVectorImmutable = 0"

definition kCFBitVectorMutable :: "32 word" where
  "kCFBitVectorMutable = 1"

subsection \<open>Single bits\<close>

definition CFBitBucketMask :: "nat \<Rightarrow> nat \<Rightarrow> bucket" where
  "CFBitBucketMask bottomBit topBit =
     (let shiftL = 8 + bottomBit - topBit - 1;
          result = NOT 0;
          result = push_bit shiftL result
      in drop_bit bottomBit result)"

definition CFBitVectorBit :: "bucket list \<Rightarrow> nat \<Rightarrow> CFBit option" where
  "CFBitVectorBit buckets idx =
     (let bucketIdx = idx div 8; bitOfBucket = idx AND 7 in
      do { b \<leftarrow> rd buckets bucketIdx;
           Some (ucast (drop_bit (8 - 1 - bitOfBucket) b) AND 1) })"

definition CFSetBitVectorBit :: "bucket list \<Rightarrow> nat \<Rightarrow> CFBit \<Rightarrow> bucket list option" where
  "CFSetBitVectorBit buckets idx value =
     (let bucketIdx = idx div 8; bitOfBucket = idx AND 7 in
      do { b \<leftarrow> rd buckets bucketIdx;
           if value \<noteq> 0
           then wr buckets bucketIdx (b OR push_bit (8 - 1 - bitOfBucket) 1)
           else wr buckets bucketIdx (b AND NOT (push_bit (8 - 1 - bitOfBucket) 1)) })"

definition CFFlipBitVectorBit :: "bucket list \<Rightarrow> nat \<Rightarrow> bucket list option" where
  "CFFlipBitVectorBit buckets idx =
     (let bucketIdx = idx div 8; bitOfBucket = idx AND 7 in
      do { b \<leftarrow> rd buckets bucketIdx;
           wr buckets bucketIdx (b XOR push_bit (8 - 1 - bitOfBucket) 1) })"

subsection \<open>Equality and creation\<close>

fun equal_buckets :: "nat \<Rightarrow> nat \<Rightarrow> bucket list \<Rightarrow> bucket list \<Rightarrow> bool option" where
  "equal_buckets 0 idx bs1 bs2 = Some True"
| "equal_buckets (Suc n) idx bs1 bs2 =
     do { val1 \<leftarrow> rd bs1 idx; val2 \<leftarrow> rd bs2 idx;
          if val1 \<noteq> val2 then Some False else equal_buckets n (Suc idx) bs1 bs2 }"

definition CFBitVectorEqual :: "CFBitVector \<Rightarrow> CFBitVector \<Rightarrow> bool option" where
  "CFBitVectorEqual bv1 bv2 =
     (let cnt = bv_count bv1 in
      if cnt \<noteq> bv_count bv2 then Some False
      else if 0 = cnt then Some True
      else equal_buckets (cnt div 8 + 1) 0 (bv_buckets bv1) (bv_buckets bv2))"

definition CFBitVectorHash :: "CFBitVector \<Rightarrow> nat" where
  "CFBitVectorHash bv = bv_count bv"

text \<open>
  \<open>__CFBitVectorInit\<close>: the capacity argument is only asserted about; the storage is sized from
  \<open>numBits\<close>.  \<open>bytes = None\<close> is the NULL pointer.  The instance starts zeroed
  (\<open>_CFRuntimeCreateInstance\<close>), and allocations succeed.
\<close>

definition CFBitVectorInit :: "32 word \<Rightarrow> bucket list option \<Rightarrow> nat \<Rightarrow> CFBitVector option" where
  "CFBitVectorInit flags bytes numBits =
     (let capacity = CFBitVectorRoundUpCapacity numBits;
          memory = \<lparr>bv_cfinfo = 0, bv_count = 0, bv_capacity = capacity, bv_buckets = []\<rparr>;
          memory = memory\<lparr>bv_buckets := replicate (CFBitVectorNumBuckets memory) 0\<rparr>;
          memory = memory\<lparr>bv_count := numBits\<rparr>
      in do { buckets \<leftarrow> (case bytes of None \<Rightarrow> Some (bv_buckets memory)
                 | Some bs \<Rightarrow> memmove (bv_buckets memory) 0 bs 0
                                (numBits div 8 + (if numBits AND 7 \<noteq> 0 then 1 else 0)));
              Some (CFBitVectorSetMutableVariety (memory\<lparr>bv_buckets := buckets\<rparr>)
                     (CFBitVectorMutableVarietyFromFlags flags)) })"

definition CFBitVectorCreate :: "bucket list option \<Rightarrow> nat \<Rightarrow> CFBitVector option" where
  "CFBitVectorCreate bytes numBits = CFBitVectorInit kCFBitVectorImmutable bytes numBits"

definition CFBitVectorCreateMutable :: "nat \<Rightarrow> CFBitVector option" where
  "CFBitVectorCreateMutable capacity = CFBitVectorInit kCFBitVectorMutable None 0"

definition CFBitVectorCreateCopy :: "CFBitVector \<Rightarrow> CFBitVector option" where
  "CFBitVectorCreateCopy bv =
     CFBitVectorInit kCFBitVectorImmutable (Some (bv_buckets bv)) (bv_count bv)"

definition CFBitVectorCreateMutableCopy :: "nat \<Rightarrow> CFBitVector \<Rightarrow> CFBitVector option" where
  "CFBitVectorCreateMutableCopy capacity bv =
     CFBitVectorInit kCFBitVectorMutable (Some (bv_buckets bv)) (bv_count bv)"

definition CFBitVectorGetCount :: "CFBitVector \<Rightarrow> nat" where
  "CFBitVectorGetCount bv = bv_count bv"

subsection \<open>The range loop and its mappers\<close>

type_synonym 's mapper = "bucket \<Rightarrow> bucket \<Rightarrow> 's \<Rightarrow> (bucket \<times> 's) option"

text \<open>One fragmentary bucket: only the bits under the mask are stored back.\<close>

definition map_fragment ::
  "'s mapper \<Rightarrow> nat \<Rightarrow> bucket \<Rightarrow> bucket list \<Rightarrow> 's \<Rightarrow> (bucket list \<times> 's) option" where
  "map_fragment mapper bucketIdx bucketValMask buckets ctx =
     do { b \<leftarrow> rd buckets bucketIdx;
          (newBucketVal, ctx) \<leftarrow> mapper b bucketValMask ctx;
          buckets \<leftarrow> wr buckets bucketIdx
                      ((b AND NOT bucketValMask) OR (newBucketVal AND bucketValMask));
          Some (buckets, ctx) }"

text \<open>\<open>while (nBuckets--)\<close>: whole buckets.\<close>

fun map_whole ::
  "'s mapper \<Rightarrow> nat \<Rightarrow> nat \<Rightarrow> bucket list \<Rightarrow> 's \<Rightarrow> (nat \<times> bucket list \<times> 's) option" where
  "map_whole mapper 0 bucketIdx buckets ctx = Some (bucketIdx, buckets, ctx)"
| "map_whole mapper (Suc nBuckets) bucketIdx buckets ctx =
     do { b \<leftarrow> rd buckets bucketIdx;
          (newBucketVal, ctx) \<leftarrow> mapper b (NOT 0) ctx;
          buckets \<leftarrow> wr buckets bucketIdx newBucketVal;
          map_whole mapper nBuckets (bucketIdx + 1) buckets ctx }"

definition CFBitVectorInternalMap ::
  "CFBitVector \<Rightarrow> CFRange \<Rightarrow> 's mapper \<Rightarrow> 's \<Rightarrow> (CFBitVector \<times> 's) option" where
  "CFBitVectorInternalMap bv rng mapper ctx =
     (if 0 = range_length rng then Some (bv, ctx)
      else
        (let bucketIdx = location rng div 8;
             bitOfBucket = location rng AND 7;
             (bucketValMask, len) =
               (if bitOfBucket + range_length rng < 8
                then (CFBitBucketMask bitOfBucket (bitOfBucket + range_length rng - 1), 0)
                else (CFBitBucketMask bitOfBucket (8 - 1),
                      range_length rng - (8 - bitOfBucket)))
         in do { (buckets, ctx) \<leftarrow> map_fragment mapper bucketIdx bucketValMask (bv_buckets bv) ctx;
                 let nBuckets = len div 8;
                 let len = len - nBuckets * 8;
                 (bucketIdx, buckets, ctx) \<leftarrow> map_whole mapper nBuckets (bucketIdx + 1) buckets ctx;
                 (buckets, ctx) \<leftarrow>
                   (if 0 \<noteq> len
                    then map_fragment mapper bucketIdx (CFBitBucketMask 0 (len - 1)) buckets ctx
                    else Some (buckets, ctx));
                 Some (bv\<lparr>bv_buckets := buckets\<rparr>, ctx) }))"

record occursContext =
  oc_value :: CFBit
  oc_count :: nat

definition CFNibbleBitCount :: "nat list" where
  "CFNibbleBitCount = [0, 1, 1, 2, 1, 2, 2, 3, 1, 2, 2, 3, 2, 3, 3, 4]"

fun count_nibbles :: "nat \<Rightarrow> bucket \<Rightarrow> nat \<Rightarrow> nat option" where
  "count_nibbles 0 val acc = Some acc"
| "count_nibbles (Suc n) val acc =
     do { c \<leftarrow> rd CFNibbleBitCount (unat (val AND 0xF));
          count_nibbles n (drop_bit 4 val) (acc + c) }"

definition CFBitVectorCountBits :: "occursContext mapper" where
  "CFBitVectorCountBits bucketValue bucketValueMask context =
     (let val = (if oc_value context \<noteq> 0 then bucketValue AND bucketValueMask
                 else NOT bucketValue AND bucketValueMask)
      in do { acc \<leftarrow> count_nibbles (1 * 2) val (oc_count context);
              Some (bucketValue, context\<lparr>oc_count := acc\<rparr>) })"

definition CFBitVectorGetCountOfBit :: "CFBitVector \<Rightarrow> CFRange \<Rightarrow> CFBit \<Rightarrow> nat option" where
  "CFBitVectorGetCountOfBit bv rng value =
     (if 0 = range_length rng then Some 0
      else do { (_, context) \<leftarrow> CFBitVectorInternalMap bv rng CFBitVectorCountBits
                                  \<lparr>oc_value = value, oc_count = 0\<rparr>;
                Some (oc_count context) })"

definition CFBitVectorContainsBit :: "CFBitVector \<Rightarrow> CFRange \<Rightarrow> CFBit \<Rightarrow> bool option" where
  "CFBitVectorContainsBit bv rng value =
     do { n \<leftarrow> CFBitVectorGetCountOfBit bv rng value; Some (if n \<noteq> 0 then True else False) }"

definition CFBitVectorGetBitAtIndex :: "CFBitVector \<Rightarrow> nat \<Rightarrow> CFBit option" where
  "CFBitVectorGetBitAtIndex bv idx = CFBitVectorBit (bv_buckets bv) idx"


subsection \<open>Copying bits out\<close>

text \<open>
  The destination \<open>bytes\<close> is a buffer of the caller and \<open>curByte\<close> an index into it;
  the bit counts are signed, as in the code.
\<close>

record getBitsContext =
  gb_bytes :: "8 word list"
  gb_curByte :: nat
  gb_initBits :: int
  gb_totalBits :: int
  gb_ignoreFirstInitBits :: bool

text \<open>\<open>while (__CF_BITS_PER_BYTE <= nBits)\<close>: the bucket type has one byte, so \<open>nBits\<close> is at most 8.\<close>

function get_bits_loop ::
  "int \<Rightarrow> bucket \<Rightarrow> getBitsContext \<Rightarrow> (int \<times> bucket \<times> getBitsContext) option" where
  "get_bits_loop nBits val context =
     (if 8 \<le> nBits
      then do { bytes \<leftarrow> wr (gb_bytes context) (gb_curByte context) (drop_bit (8 - 8) val);
                let context = context\<lparr>gb_bytes := bytes\<rparr>;
                let context = context\<lparr>gb_curByte := gb_curByte context + 1\<rparr>;
                let context = context\<lparr>gb_totalBits := gb_totalBits context - gb_initBits context\<rparr>;
                get_bits_loop (nBits - 8) (push_bit 8 val) context }
      else Some (nBits, val, context))"
  by pat_completeness auto
termination
  by (relation "measure (\<lambda>(nBits, _, _). nat nBits)") auto

definition CFBitVectorGetBitsMapper :: "getBitsContext mapper" where
  "CFBitVectorGetBitsMapper bucketValue bucketValueMask context =
     (let val = bucketValue AND bucketValueMask;
          nBits = min (8 - gb_initBits context) (gb_totalBits context)
      in do {
        (val, context) \<leftarrow>
          (if 0 < gb_initBits context
           then do {
             context \<leftarrow>
               (if \<not> gb_ignoreFirstInitBits context
                then do {
                  old \<leftarrow> rd (gb_bytes context) (gb_curByte context);
                  bytes \<leftarrow> wr (gb_bytes context) (gb_curByte context)
                             (old OR drop_bit (nat (8 - gb_initBits context)) val);
                  Some (context\<lparr>gb_bytes := bytes, gb_curByte := gb_curByte context + 1,
                          gb_totalBits := gb_totalBits context - gb_initBits context,
                          gb_ignoreFirstInitBits := False\<rparr>) }
                else Some context);
             Some (push_bit (nat (gb_initBits context)) val, context) }
           else Some (val, context));
        (nBits, val, context) \<leftarrow> get_bits_loop nBits val context;
        context \<leftarrow>
          (if 0 < nBits
           then do {
             bytes \<leftarrow> wr (gb_bytes context) (gb_curByte context) (drop_bit (8 - 8) val);
             Some (context\<lparr>gb_bytes := bytes, gb_totalBits := gb_totalBits context - nBits\<rparr>) }
           else Some context);
        Some (bucketValue, context) })"

definition CFBitVectorGetBits ::
  "CFBitVector \<Rightarrow> CFRange \<Rightarrow> 8 word list \<Rightarrow> 8 word list option" where
  "CFBitVectorGetBits bv rng bytes =
     (if 0 = range_length rng then Some bytes
      else do { (_, context) \<leftarrow> CFBitVectorInternalMap bv rng CFBitVectorGetBitsMapper
                  \<lparr>gb_bytes = bytes, gb_curByte = 0, gb_initBits = int (location rng AND 7),
                   gb_totalBits = int (range_length rng), gb_ignoreFirstInitBits = True\<rparr>;
                Some (gb_bytes context) })"

subsection \<open>Searching\<close>

fun first_index_loop :: "CFBitVector \<Rightarrow> nat \<Rightarrow> nat \<Rightarrow> nat \<Rightarrow> CFBit \<Rightarrow> int option" where
  "first_index_loop bv loc idx 0 value = Some kCFNotFound"
| "first_index_loop bv loc idx (Suc n) value =
     do { b \<leftarrow> CFBitVectorGetBitAtIndex bv (loc + idx);
          if value = b then Some (int (loc + idx)) else first_index_loop bv loc (idx + 1) n value }"

definition CFBitVectorGetFirstIndexOfBit :: "CFBitVector \<Rightarrow> CFRange \<Rightarrow> CFBit \<Rightarrow> int option" where
  "CFBitVectorGetFirstIndexOfBit bv rng value =
     first_index_loop bv (location rng) 0 (range_length rng) value"

fun last_index_loop :: "CFBitVector \<Rightarrow> nat \<Rightarrow> nat \<Rightarrow> CFBit \<Rightarrow> int option" where
  "last_index_loop bv loc 0 value = Some kCFNotFound"
| "last_index_loop bv loc (Suc idx) value =
     do { b \<leftarrow> CFBitVectorGetBitAtIndex bv (loc + idx);
          if value = b then Some (int (loc + idx)) else last_index_loop bv loc idx value }"

definition CFBitVectorGetLastIndexOfBit :: "CFBitVector \<Rightarrow> CFRange \<Rightarrow> CFBit \<Rightarrow> int option" where
  "CFBitVectorGetLastIndexOfBit bv rng value =
     last_index_loop bv (location rng) (range_length rng) value"

subsection \<open>Mutation\<close>

text \<open>
  \<open>__CFBitVectorGrow\<close> reallocates to the rounded capacity, which may also be a smaller one: the
  contents are cut or extended, and what the allocator puts into new bytes is the argument
  \<open>fresh\<close>.
\<close>

definition CFBitVectorGrow :: "(nat \<Rightarrow> bucket) \<Rightarrow> CFBitVector \<Rightarrow> nat \<Rightarrow> CFBitVector" where
  "CFBitVectorGrow fresh bv numNewValues =
     (let oldCount = bv_count bv;
          capacity = CFBitVectorRoundUpCapacity (oldCount + numNewValues);
          bv = bv\<lparr>bv_capacity := capacity\<rparr>;
          n = CFBitVectorNumBuckets bv;
          old = bv_buckets bv
      in bv\<lparr>bv_buckets := take n old @ map fresh [length old..<n]\<rparr>)"

definition CFBitVectorZeroBits :: "unit mapper" where
  "CFBitVectorZeroBits bucketValue bucketValueMask context = Some (0, context)"

definition CFBitVectorOneBits :: "unit mapper" where
  "CFBitVectorOneBits bucketValue bucketValueMask context = Some (NOT 0, context)"

definition CFBitVectorFlipBitsMapper :: "unit mapper" where
  "CFBitVectorFlipBitsMapper bucketValue bucketValueMask context =
     Some (NOT 0 XOR bucketValue, context)"

definition internal_map_unit :: "CFBitVector \<Rightarrow> CFRange \<Rightarrow> unit mapper \<Rightarrow> CFBitVector option" where
  "internal_map_unit bv rng mapper = map_option fst (CFBitVectorInternalMap bv rng mapper ())"

definition CFBitVectorSetCount ::
  "(nat \<Rightarrow> bucket) \<Rightarrow> CFBitVector \<Rightarrow> nat \<Rightarrow> CFBitVector option" where
  "CFBitVectorSetCount fresh bv newCount =
     (let cnt = bv_count bv;
          bv = (if CFBitVectorMutableVariety bv = kCFBitVectorMutable \<and> cnt < newCount
                then CFBitVectorGrow fresh bv (newCount - cnt) else bv)
      in do { bv \<leftarrow> (if cnt < newCount
                     then internal_map_unit bv (CFRangeMake cnt (newCount - cnt)) CFBitVectorZeroBits
                     else Some bv);
              Some (bv\<lparr>bv_count := newCount\<rparr>) })"

definition CFBitVectorFlipBitAtIndex :: "CFBitVector \<Rightarrow> nat \<Rightarrow> CFBitVector option" where
  "CFBitVectorFlipBitAtIndex bv idx =
     do { buckets \<leftarrow> CFFlipBitVectorBit (bv_buckets bv) idx; Some (bv\<lparr>bv_buckets := buckets\<rparr>) }"

definition CFBitVectorFlipBits :: "CFBitVector \<Rightarrow> CFRange \<Rightarrow> CFBitVector option" where
  "CFBitVectorFlipBits bv rng =
     (if 0 = range_length rng then Some bv
      else internal_map_unit bv rng CFBitVectorFlipBitsMapper)"

definition CFBitVectorSetBitAtIndex :: "CFBitVector \<Rightarrow> nat \<Rightarrow> CFBit \<Rightarrow> CFBitVector option" where
  "CFBitVectorSetBitAtIndex bv idx value =
     do { buckets \<leftarrow> CFSetBitVectorBit (bv_buckets bv) idx value;
          Some (bv\<lparr>bv_buckets := buckets\<rparr>) }"

definition CFBitVectorSetBits :: "CFBitVector \<Rightarrow> CFRange \<Rightarrow> CFBit \<Rightarrow> CFBitVector option" where
  "CFBitVectorSetBits bv rng value =
     (if 0 = range_length rng then Some bv
      else if value \<noteq> 0 then internal_map_unit bv rng CFBitVectorOneBits
      else internal_map_unit bv rng CFBitVectorZeroBits)"

definition CFBitVectorSetAllBits :: "CFBitVector \<Rightarrow> CFBit \<Rightarrow> CFBitVector option" where
  "CFBitVectorSetAllBits bv value =
     (let nBuckets = bv_count bv div 8;
          leftover = bv_count bv - nBuckets * 8
      in do { bv \<leftarrow> (if 0 < leftover
                     then (let rng = CFRangeMake (nBuckets * 8) leftover in
                           if value \<noteq> 0 then internal_map_unit bv rng CFBitVectorOneBits
                           else internal_map_unit bv rng CFBitVectorZeroBits)
                     else Some bv);
              buckets \<leftarrow> mem_write (bv_buckets bv) 0
                           (replicate nBuckets (if value \<noteq> 0 then NOT 0 else 0));
              Some (bv\<lparr>bv_buckets := buckets\<rparr>) })"


declare get_bits_loop.simps [simp del]

subsection \<open>The buffer as a sequence of bits\<close>

definition bit_at :: "bucket list \<Rightarrow> nat \<Rightarrow> bool" where
  "bit_at bs p = bit (bs ! (p div 8)) (7 - p mod 8)"

lemma bit_CFBitBucketMask:
  assumes "bo \<le> to" "to \<le> 7"
  shows "bit (CFBitBucketMask bo to) k \<longleftrightarrow> k < 8 \<and> bo \<le> 7 - k \<and> 7 - k \<le> to"
  using assms by (auto simp: CFBitBucketMask_def Let_def bit_simps)

lemma CFBitVectorBit_eq [cf_mem]:
  "idx < 8 * length bs \<Longrightarrow> CFBitVectorBit bs idx = Some (of_bool (bit_at bs idx))"
  by (auto simp: CFBitVectorBit_def bit_at_def rd_def Let_def less_mult_imp_div_less mult.commute
      bit_simps)

lemma nth_set_bit_at:
  assumes "p < 8 * length bs" "idx < 8 * length bs"
    and "\<And>k. k < 8 \<Longrightarrow> bit b' k = (if k = 7 - idx mod 8 then v else bit (bs ! (idx div 8)) k)"
  shows "bit_at (bs[idx div 8 := b']) p = (if p = idx then v else bit_at bs p)"
proof (cases "p div 8 = idx div 8")
  case True
  moreover have "7 - p mod 8 = 7 - idx mod 8 \<longleftrightarrow> p = idx"
    using True by (rule bit_of_bucket_inj)
  ultimately show ?thesis
    using assms by (auto simp: bit_at_def less_mult_imp_div_less mult.commute)
next
  case False
  then show ?thesis by (auto simp: bit_at_def)
qed


lemma bit_at_CFSetBitVectorBit:
  assumes "idx < 8 * length bs"
  obtains bs' where "CFSetBitVectorBit bs idx v = Some bs'" "length bs' = length bs"
    "\<And>p. p < 8 * length bs \<Longrightarrow> bit_at bs' p = (if p = idx then v \<noteq> 0 else bit_at bs p)"
proof -
  let ?b = "bs ! (idx div 8)"
  let ?b' = "if v \<noteq> 0 then ?b OR push_bit (7 - idx mod 8) 1 else ?b AND NOT (push_bit (7 - idx mod 8) 1)"
  have "CFSetBitVectorBit bs idx v = Some (bs[idx div 8 := ?b'])"
    using assms
    by (simp add: CFSetBitVectorBit_def Let_def cf_mem less_mult_imp_div_less mult.commute)
  moreover have "bit_at (bs[idx div 8 := ?b']) p = (if p = idx then v \<noteq> 0 else bit_at bs p)"
    if "p < 8 * length bs" for p
    using that assms by (intro nth_set_bit_at) (auto simp: bit_simps)
  ultimately show ?thesis using that by simp
qed

lemma bit_at_CFFlipBitVectorBit:
  assumes "idx < 8 * length bs"
  obtains bs' where "CFFlipBitVectorBit bs idx = Some bs'" "length bs' = length bs"
    "\<And>p. p < 8 * length bs \<Longrightarrow>
      bit_at bs' p = (if p = idx then \<not> bit_at bs p else bit_at bs p)"
proof -
  let ?b' = "bs ! (idx div 8) XOR push_bit (7 - idx mod 8) 1"
  have "CFFlipBitVectorBit bs idx = Some (bs[idx div 8 := ?b'])"
    using assms
    by (simp add: CFFlipBitVectorBit_def Let_def cf_mem less_mult_imp_div_less mult.commute)
  moreover have "bit_at (bs[idx div 8 := ?b']) p =
      (if p = idx then \<not> bit_at bs idx else bit_at bs p)" if "p < 8 * length bs" for p
    using that assms by (intro nth_set_bit_at) (auto simp: bit_simps bit_at_def)
  ultimately show ?thesis using that by simp
qed

subsection \<open>The range loop as a list of masked buckets\<close>

fun map_segments ::
  "'s mapper \<Rightarrow> (nat \<times> bucket) list \<Rightarrow> bucket list \<Rightarrow> 's \<Rightarrow> (bucket list \<times> 's) option" where
  "map_segments mapper [] bs ctx = Some (bs, ctx)"
| "map_segments mapper ((i, m) # ss) bs ctx =
     do { (bs, ctx) \<leftarrow> map_fragment mapper i m bs ctx; map_segments mapper ss bs ctx }"

fun whole_segments :: "nat \<Rightarrow> nat \<Rightarrow> (nat \<times> bucket) list" where
  "whole_segments 0 i = []"
| "whole_segments (Suc n) i = (i, NOT 0) # whole_segments n (i + 1)"

definition segments :: "nat \<Rightarrow> nat \<Rightarrow> (nat \<times> bucket) list" where
  "segments loc len =
     (if len = 0 then []
      else if loc mod 8 + len < 8 then [(loc div 8, CFBitBucketMask (loc mod 8) (loc mod 8 + len - 1))]
      else (let rest = len - (8 - loc mod 8); n = rest div 8 in
        (loc div 8, CFBitBucketMask (loc mod 8) 7) # whole_segments n (loc div 8 + 1) @
        (if rest mod 8 \<noteq> 0 then [(loc div 8 + 1 + n, CFBitBucketMask 0 (rest mod 8 - 1))] else [])))"

lemma map_segments_append:
  "map_segments mapper (xs @ ys) bs ctx =
     do { (bs, ctx) \<leftarrow> map_segments mapper xs bs ctx; map_segments mapper ys bs ctx }"
  by (induction mapper xs bs ctx rule: map_segments.induct) (auto split: prod.splits Option.bind_splits)

lemma map_whole_segments:
  "map_whole mapper n i bs ctx =
     do { (bs, ctx) \<leftarrow> map_segments mapper (whole_segments n i) bs ctx; Some (i + n, bs, ctx) }"
  by (induction n arbitrary: i bs ctx)
    (auto simp: map_fragment_def split: prod.splits Option.bind_splits)

lemma CFBitVectorInternalMap_segments:
  "CFBitVectorInternalMap bv rng mapper ctx =
     do { (bs, ctx) \<leftarrow> map_segments mapper (segments (location rng) (range_length rng)) (bv_buckets bv) ctx;
          Some (bv\<lparr>bv_buckets := bs\<rparr>, ctx) }"
proof -
  consider "range_length rng = 0"
    | "range_length rng \<noteq> 0" "location rng mod 8 + range_length rng < 8"
    | "range_length rng \<noteq> 0" "\<not> location rng mod 8 + range_length rng < 8"
    by blast
  then show ?thesis
  proof cases
    case 1
    then show ?thesis by (simp add: CFBitVectorInternalMap_def segments_def)
  next
    case 2
    then show ?thesis
      by (simp add: CFBitVectorInternalMap_def segments_def Let_def case_prod_unfold Option.bind_assoc)
  next
    case 3
    then show ?thesis
      by (simp add: CFBitVectorInternalMap_def segments_def Let_def map_whole_segments
          map_segments_append case_prod_unfold Option.bind_assoc minus_div_mult_eq_mod div_mult_less_iff)
  qed
qed


definition covered :: "(nat \<times> bucket) list \<Rightarrow> nat \<Rightarrow> bool" where
  "covered ss p \<longleftrightarrow> (\<exists>m. (p div 8, m) \<in> set ss \<and> bit m (7 - p mod 8))"

lemma covered_simps [simp]:
  "\<not> covered [] p"
  "covered ((i, m) # ss) p \<longleftrightarrow> p div 8 = i \<and> bit m (7 - p mod 8) \<or> covered ss p"
  "covered (xs @ ys) p \<longleftrightarrow> covered xs p \<or> covered ys p"
  unfolding covered_def set_append set_simps Un_iff insert_iff prod.inject by blast+

lemma map_fst_whole_segments [simp]: "map fst (whole_segments n i) = [i..<i + n]"
  by (induction n arbitrary: i) (simp_all add: upt_conv_Cons)

lemma length_whole_segments [simp]: "length (whole_segments n i) = n"
  by (induction n arbitrary: i) simp_all

lemma set_whole_segments: "(q, m) \<in> set (whole_segments n i) \<longleftrightarrow> i \<le> q \<and> q < i + n \<and> m = NOT 0"
proof (induction n arbitrary: i)
  case (Suc n)
  show ?case
    unfolding whole_segments.simps set_simps insert_iff prod.inject Suc.IH by (cases "q = i") auto
qed simp

lemma covered_whole_segments [simp]:
  "covered (whole_segments n i) p \<longleftrightarrow> i \<le> p div 8 \<and> p div 8 < i + n"
  unfolding covered_def set_whole_segments by (simp add: bit_simps less_Suc_eq_le)

lemma distinct_segments: "distinct (map fst (segments loc len))"
  by (auto simp: segments_def Let_def)

lemma interval_by_buckets:
  assumes "b \<le> (7::nat)" "r \<le> 7" "t \<le> 7"
  shows "q = a \<and> b \<le> r \<or> a + 1 \<le> q \<and> q < a + 1 + n \<or> t \<noteq> 0 \<and> q = a + 1 + n \<and> r \<le> t - 1
    \<longleftrightarrow> 8 * a + b \<le> 8 * q + r \<and> 8 * q + r < 8 * a + 8 * n + t + 8"
proof -
  consider "q < a" | "q = a" | "a + 1 \<le> q" "q < a + 1 + n" | "q = a + 1 + n" | "a + 1 + n < q"
    by linarith
  then show ?thesis
  proof cases
    case 4
    with assms show ?thesis by (cases t) auto
  qed (use assms in simp_all)
qed

lemma covered_segments: "covered (segments loc len) p \<longleftrightarrow> loc \<le> p \<and> p < loc + len"
proof -
  define a b q r where "a = loc div 8" "b = loc mod 8" "q = p div 8" "r = p mod 8"
  note abqr = this
  have loc: "loc = 8 * a + b" and p: "p = 8 * q + r" and b: "b \<le> 7" and r: "r \<le> 7"
    by (simp_all add: abqr less_Suc_eq_le [symmetric])
  consider "len = 0" | "len \<noteq> 0" "b + len < 8" | "\<not> b + len < 8" by blast
  then show ?thesis
  proof cases
    case 1
    then show ?thesis by (simp add: segments_def)
  next
    case 2
    then obtain l where l: "len = Suc l" by (cases len) auto
    have "covered (segments loc len) p \<longleftrightarrow> q = a \<and> b \<le> r \<and> r < b + len"
      using 2 r unfolding l by (auto simp: segments_def abqr [symmetric] bit_CFBitBucketMask)
    also have "\<dots> \<longleftrightarrow> loc \<le> p \<and> p < loc + len"
      unfolding loc p using 2 b r by (cases q a rule: linorder_cases) auto
    finally show ?thesis .
  next
    case 3
    define n t where "n = (len - (8 - b)) div 8" "t = (len - (8 - b)) mod 8"
    note nt = this
    have "len - (8 - b) = 8 * n + t" by (simp add: nt)
    then have len: "len = 8 * n + t + 8 - b" using 3 b by linarith
    have t: "t \<le> 7" by (simp add: nt less_Suc_eq_le [symmetric])
    have "covered (segments loc len) p \<longleftrightarrow>
        q = a \<and> b \<le> r \<or> a + 1 \<le> q \<and> q < a + 1 + n \<or> t \<noteq> 0 \<and> q = a + 1 + n \<and> r \<le> t - 1"
    proof -
      have "segments loc len = (a, CFBitBucketMask b 7) # whole_segments n (a + 1) @
          (if t \<noteq> 0 then [(a + 1 + n, CFBitBucketMask 0 (t - 1))] else [])"
        using 3 b unfolding segments_def Let_def abqr [symmetric] nt [symmetric] by simp
      moreover have "bit (CFBitBucketMask b 7) (7 - r) \<longleftrightarrow> b \<le> r"
        using b r by (simp add: bit_CFBitBucketMask)
      moreover have "bit (CFBitBucketMask 0 (t - 1)) (7 - r) \<longleftrightarrow> r \<le> t - 1"
        using t r by (simp add: bit_CFBitBucketMask)
      ultimately show ?thesis by (simp add: abqr [symmetric])
    qed
    also have "\<dots> \<longleftrightarrow> loc \<le> p \<and> p < loc + len"
      unfolding interval_by_buckets [OF b r t] using loc p len b by linarith
    finally show ?thesis .
  qed
qed


text \<open>Every bucket of a segment list holds a bit of the range, so it lies in the buffer.\<close>

lemma segments_in_buffer:
  assumes "loc + len \<le> 8 * n"
  shows "\<forall>i \<in> fst ` set (segments loc len). i < n"
proof
  fix i assume "i \<in> fst ` set (segments loc len)"
  then obtain m where im: "(i, m) \<in> set (segments loc len)" by auto
  have "\<exists>r \<le> 7. bit m (7 - r)"
  proof -
    consider "m = CFBitBucketMask (loc mod 8) (loc mod 8 + len - 1)" "len \<noteq> 0" "loc mod 8 + len < 8"
      | "m = CFBitBucketMask (loc mod 8) 7" | "m = NOT 0"
      | "m = CFBitBucketMask 0 ((len - (8 - loc mod 8)) mod 8 - 1)"
      using im by (auto simp: segments_def Let_def set_whole_segments split: if_splits)
    then show ?thesis
    proof cases
      case 1
      then show ?thesis by (intro exI [of _ "loc mod 8"]) (auto simp: bit_CFBitBucketMask)
    next
      case 2
      then show ?thesis
        by (intro exI [of _ "7::nat"]) (auto simp: bit_CFBitBucketMask less_Suc_eq_le [symmetric])
    next
      case 3
      then show ?thesis by (intro exI [of _ "7::nat"]) (auto simp: bit_simps)
    next
      case 4
      have "(len - (8 - loc mod 8)) mod 8 - 1 \<le> 7"
        using mod_less_divisor [of 8 "len - (8 - loc mod 8)"] by linarith
      then show ?thesis by (intro exI [of _ "0::nat"]) (auto simp: 4 bit_CFBitBucketMask)
    qed
  qed
  then obtain r where r: "r \<le> 7" "bit m (7 - r)" by blast
  then have "covered (segments loc len) (8 * i + r)"
    using im by (force simp: covered_def)
  then have "8 * i + r < 8 * n" using assms by (simp add: covered_segments)
  then show "i < n" by linarith
qed

lemma bucket_index_inverse [simp]:
  assumes "k < (8::nat)"
  shows "(8 * i + 7 - k) div 8 = i" "(8 * i + 7 - k) mod 8 = 7 - k"
proof -
  have eq: "8 * i + 7 - k = (7 - k) + 8 * i" using assms by simp
  show "(8 * i + 7 - k) div 8 = i" unfolding eq by (subst div_mult_self2) simp_all
  show "(8 * i + 7 - k) mod 8 = 7 - k" unfolding eq by (subst mod_mult_self2) simp
qed

lemma bit_index_inverse [simp]: "8 * (p div 8) + 7 - (7 - p mod 8) = (p::nat)"
proof -
  have "p mod 8 \<le> 7" by (simp add: less_Suc_eq_le [symmetric])
  then show ?thesis using div_mult_mod_eq [of p 8] by linarith
qed

subsection \<open>What a mapper must provide\<close>

text \<open>
  The interface between the range loop and its callers: on every bit under the mask the mapper
  returns \<open>f\<close> of the bit it was given, whatever the context.  From this the loop changes exactly the
  bits of the range.
\<close>

locale bit_mapper =
  fixes mapper :: "'s mapper" and f :: "bool \<Rightarrow> bool"
  assumes mapper_bits:
    "\<exists>v' s'. mapper v m s = Some (v', s') \<and> (\<forall>k. bit m k \<longrightarrow> bit v' k = f (bit v k))"
begin

lemma fragment_bits:
  assumes "i < length bs"
  obtains bs' s' where "map_fragment mapper i m bs s = Some (bs', s')" "length bs' = length bs"
    "\<And>p. p < 8 * length bs \<Longrightarrow>
      bit_at bs' p = (if p div 8 = i \<and> bit m (7 - p mod 8) then f (bit_at bs p) else bit_at bs p)"
proof -
  obtain v' s' where v': "mapper (bs ! i) m s = Some (v', s')"
    "\<And>k. bit m k \<Longrightarrow> bit v' k = f (bit (bs ! i) k)"
    using mapper_bits by metis
  show ?thesis
    by (rule that [of "bs[i := (bs ! i AND NOT m) OR (v' AND m)]" s'])
      (use assms v' in \<open>auto simp: map_fragment_def cf_mem bit_at_def bit_simps nth_list_update
         less_mult_imp_div_less mult.commute\<close>)
qed

lemma segments_bits:
  "distinct (map fst ss) \<Longrightarrow> \<forall>i \<in> fst ` set ss. i < length bs \<Longrightarrow>
    \<exists>bs' s'. map_segments mapper ss bs s = Some (bs', s') \<and> length bs' = length bs \<and>
      (\<forall>p < 8 * length bs. bit_at bs' p = (if covered ss p then f (bit_at bs p) else bit_at bs p))"
proof (induction ss arbitrary: bs s)
  case (Cons im ss)
  obtain i m where im: "im = (i, m)" by (cases im)
  obtain bs1 s1 where 1: "map_fragment mapper i m bs s = Some (bs1, s1)" "length bs1 = length bs"
    "\<And>p. p < 8 * length bs \<Longrightarrow>
      bit_at bs1 p = (if p div 8 = i \<and> bit m (7 - p mod 8) then f (bit_at bs p) else bit_at bs p)"
    using fragment_bits [of i bs m s] Cons.prems im by auto
  obtain bs2 s2 where 2: "map_segments mapper ss bs1 s1 = Some (bs2, s2)" "length bs2 = length bs1"
    "\<And>p. p < 8 * length bs \<Longrightarrow>
      bit_at bs2 p = (if covered ss p then f (bit_at bs1 p) else bit_at bs1 p)"
    using Cons.IH [of bs1 s1] Cons.prems 1(2) by auto
  have once: "\<not> covered ss p" if "p div 8 = i" for p
    using that Cons.prems(1) im by (force simp: covered_def)
  show ?case
    using 1 2 once by (auto simp: im)
qed simp

lemma internal_map_bits:
  assumes "location rng + range_length rng \<le> 8 * length (bv_buckets bv)"
  obtains bs s' where "CFBitVectorInternalMap bv rng mapper s = Some (bv\<lparr>bv_buckets := bs\<rparr>, s')"
    "length bs = length (bv_buckets bv)"
    "\<And>p. p < 8 * length bs \<Longrightarrow>
      bit_at bs p = (if in_range rng p then f (bit_at (bv_buckets bv) p)
                     else bit_at (bv_buckets bv) p)"
proof -
  let ?ss = "segments (location rng) (range_length rng)"
  have "\<forall>i \<in> fst ` set ?ss. i < length (bv_buckets bv)"
    using assms by (rule segments_in_buffer)
  from segments_bits [OF distinct_segments this, of s] obtain bs s' where
    bs: "map_segments mapper ?ss (bv_buckets bv) s = Some (bs, s')"
    "length bs = length (bv_buckets bv)"
    "\<And>p. p < 8 * length bs \<Longrightarrow>
      bit_at bs p = (if covered ?ss p then f (bit_at (bv_buckets bv) p)
                     else bit_at (bv_buckets bv) p)"
    by metis
  show ?thesis
    by (rule that [of bs s'])
      (use bs in \<open>auto simp: CFBitVectorInternalMap_segments covered_segments in_range_def\<close>)
qed

end

subsection \<open>The abstract bit vector\<close>

text \<open>
  A well-formed vector has a buffer of the size its capacity promises and no more bits than
  capacity; its meaning is the list of its first \<open>count\<close> bits.
\<close>

definition bv_wf :: "CFBitVector \<Rightarrow> bool" where
  "bv_wf bv \<longleftrightarrow> length (bv_buckets bv) = CFBitVectorNumBuckets bv \<and> bv_count bv \<le> bv_capacity bv"

definition bv_bits :: "CFBitVector \<Rightarrow> bool list" where
  "bv_bits bv = map (bit_at (bv_buckets bv)) [0..<bv_count bv]"

definition update_range :: "(bool \<Rightarrow> bool) \<Rightarrow> CFRange \<Rightarrow> bool list \<Rightarrow> bool list" where
  "update_range f rng xs = map (\<lambda>i. if in_range rng i then f (xs ! i) else xs ! i) [0..<length xs]"

lemma length_bv_bits [simp]: "length (bv_bits bv) = bv_count bv"
  by (simp add: bv_bits_def)

lemma nth_bv_bits [simp]: "i < bv_count bv \<Longrightarrow> bv_bits bv ! i = bit_at (bv_buckets bv) i"
  by (simp add: bv_bits_def)

lemma bv_wf_capacity:
  assumes "bv_wf bv"
  shows "bv_count bv \<le> bv_capacity bv" "bv_capacity bv < 8 * length (bv_buckets bv)"
proof -
  show "bv_count bv \<le> bv_capacity bv" using assms by (simp add: bv_wf_def)
  have "bv_capacity bv = 8 * (bv_capacity bv div 8) + bv_capacity bv mod 8" by simp
  also have "\<dots> < 8 * (bv_capacity bv div 8) + 8" by (intro add_strict_left_mono) simp
  finally show "bv_capacity bv < 8 * length (bv_buckets bv)"
    using assms by (simp add: bv_wf_def CFBitVectorNumBuckets_def)
qed

lemma bv_wf_in_buffer: "bv_wf bv \<Longrightarrow> n \<le> bv_count bv \<Longrightarrow> n \<le> 8 * length (bv_buckets bv)"
  using bv_wf_capacity [of bv] by linarith

locale bit_writer = bit_mapper mapper f
  for mapper :: "unit mapper" and f
begin

lemma write_bits:
  assumes "bv_wf bv" "location rng + range_length rng \<le> 8 * length (bv_buckets bv)"
  obtains bs where "internal_map_unit bv rng mapper = Some (bv\<lparr>bv_buckets := bs\<rparr>)"
    "bv_wf (bv\<lparr>bv_buckets := bs\<rparr>)" "length bs = length (bv_buckets bv)"
    "\<And>p. p < 8 * length bs \<Longrightarrow>
      bit_at bs p = (if in_range rng p then f (bit_at (bv_buckets bv) p)
                     else bit_at (bv_buckets bv) p)"
proof -
  obtain bs s' where "CFBitVectorInternalMap bv rng mapper () = Some (bv\<lparr>bv_buckets := bs\<rparr>, s')"
    "length bs = length (bv_buckets bv)"
    "\<And>p. p < 8 * length bs \<Longrightarrow>
      bit_at bs p = (if in_range rng p then f (bit_at (bv_buckets bv) p)
                     else bit_at (bv_buckets bv) p)"
    using internal_map_bits [OF assms(2)] by blast
  note bs = this
  have "internal_map_unit bv rng mapper = Some (bv\<lparr>bv_buckets := bs\<rparr>)"
    by (simp add: internal_map_unit_def bs(1))
  moreover have "bv_wf (bv\<lparr>bv_buckets := bs\<rparr>)"
    using assms(1) bs(2) by (simp add: bv_wf_def CFBitVectorNumBuckets_def)
  ultimately show ?thesis using bs(2,3) by (rule that)
qed

lemma write_refines:
  assumes "bv_wf bv" "location rng + range_length rng \<le> bv_count bv"
  shows "\<exists>bv'. internal_map_unit bv rng mapper = Some bv' \<and> bv_wf bv' \<and>
    bv_bits bv' = update_range f rng (bv_bits bv)"
proof -
  have inb: "location rng + range_length rng \<le> 8 * length (bv_buckets bv)"
    using assms by (rule bv_wf_in_buffer)
  from write_bits [OF assms(1) inb] obtain bs where bs:
    "internal_map_unit bv rng mapper = Some (bv\<lparr>bv_buckets := bs\<rparr>)"
    "bv_wf (bv\<lparr>bv_buckets := bs\<rparr>)" "length bs = length (bv_buckets bv)"
    "\<And>p. p < 8 * length bs \<Longrightarrow>
      bit_at bs p = (if in_range rng p then f (bit_at (bv_buckets bv) p)
                     else bit_at (bv_buckets bv) p)"
    by blast
  have "p < 8 * length bs" if "p < bv_count bv" for p
    using that bv_wf_capacity [OF assms(1)] bs(3) by linarith
  with bs show ?thesis
    by (intro exI [of _ "bv\<lparr>bv_buckets := bs\<rparr>"]) (auto simp: update_range_def bv_bits_def)
qed

end

interpretation zero_bits: bit_writer CFBitVectorZeroBits "\<lambda>_. False"
  by unfold_locales (simp add: CFBitVectorZeroBits_def)

interpretation one_bits: bit_writer CFBitVectorOneBits "\<lambda>_. True"
  by unfold_locales (auto simp: CFBitVectorOneBits_def bit_simps dest: bit_imp_le_length)

interpretation flip_bits: bit_writer CFBitVectorFlipBitsMapper Not
  by unfold_locales (auto simp: CFBitVectorFlipBitsMapper_def bit_simps dest: bit_imp_le_length)

text \<open>
  A counting mapper leaves the buffer alone and adds to its context the number of bits under the
  mask that satisfy \<open>P\<close>, a test fixed by the context.
\<close>

definition mask_count :: "(bool \<Rightarrow> bool) \<Rightarrow> bucket \<Rightarrow> bucket \<Rightarrow> nat" where
  "mask_count P v m = card {k. k < 8 \<and> bit m k \<and> P (bit v k)}"

locale bit_counter = bit_mapper mapper "\<lambda>b. b"
  for mapper :: "'s mapper" +
  fixes acc :: "'s \<Rightarrow> nat" and P :: "'s \<Rightarrow> bool \<Rightarrow> bool"
  assumes mapper_counts:
    "mapper v m s = Some (v', s') \<Longrightarrow> acc s' = acc s + mask_count (P s) v m \<and> P s' = P s"
begin

lemma covered_count_Cons:
  assumes "i < length bs" "i \<notin> fst ` set ss"
  shows "card {p. p < 8 * length bs \<and> covered ((i, m) # ss) p \<and> Q (bit_at bs p)} =
    mask_count Q (bs ! i) m + card {p. p < 8 * length bs \<and> covered ss p \<and> Q (bit_at bs p)}"
proof -
  let ?here = "{p. p < 8 * length bs \<and> p div 8 = i \<and> bit m (7 - p mod 8) \<and> Q (bit_at bs p)}"
  let ?rest = "{p. p < 8 * length bs \<and> covered ss p \<and> Q (bit_at bs p)}"
  have "bij_betw (\<lambda>p. 7 - p mod 8) ?here {k. k < 8 \<and> bit m k \<and> Q (bit (bs ! i) k)}"
    by (rule bij_betw_byWitness [where f' = "\<lambda>k. 8 * i + 7 - k"])
      (use assms(1) in \<open>auto simp: bit_at_def\<close>)
  then have "card ?here = mask_count Q (bs ! i) m"
    unfolding mask_count_def by (rule bij_betw_same_card)
  moreover have "{p. p < 8 * length bs \<and> covered ((i, m) # ss) p \<and> Q (bit_at bs p)} = ?here \<union> ?rest"
    by auto
  moreover have "?here \<inter> ?rest = {}" using assms(2) by (force simp: covered_def)
  ultimately show ?thesis by (simp add: card_Un_disjoint)
qed

lemma fragment_counts:
  assumes "map_fragment mapper i m bs s = Some (bs', s')"
  shows "acc s' = acc s + mask_count (P s) (bs ! i) m \<and> P s' = P s"
proof -
  obtain v' where "mapper (bs ! i) m s = Some (v', s')"
    using assms by (auto simp: map_fragment_def option_bind_eq_Some rd_eq_Some_iff split: prod.splits)
  then show ?thesis by (rule mapper_counts)
qed

lemma segments_count:
  "distinct (map fst ss) \<Longrightarrow> \<forall>i \<in> fst ` set ss. i < length bs \<Longrightarrow>
    map_segments mapper ss bs s = Some (bs', s') \<Longrightarrow>
    acc s' = acc s + card {p. p < 8 * length bs \<and> covered ss p \<and> P s (bit_at bs p)}"
proof (induction ss arbitrary: bs s)
  case (Cons im ss)
  obtain i m where im: "im = (i, m)" by (cases im)
  obtain bs1 s1 where 1: "map_fragment mapper i m bs s = Some (bs1, s1)" "length bs1 = length bs"
    "\<And>p. p < 8 * length bs \<Longrightarrow> bit_at bs1 p = bit_at bs p"
    using fragment_bits [of i bs m s] Cons.prems im by auto
  have "acc s' = acc s1 + card {p. p < 8 * length bs \<and> covered ss p \<and> P s1 (bit_at bs1 p)}"
    using Cons.IH [of bs1 s1] Cons.prems 1(1,2) im by auto
  also have "\<dots> = acc s + mask_count (P s) (bs ! i) m
      + card {p. p < 8 * length bs \<and> covered ss p \<and> P s (bit_at bs p)}"
    using fragment_counts [OF 1(1)] 1(3) by (simp add: conj_commute cong: conj_cong)
  also have "\<dots> = acc s + card {p. p < 8 * length bs \<and> covered (im # ss) p \<and> P s (bit_at bs p)}"
    using Cons.prems im by (subst im, subst covered_count_Cons) auto
  finally show ?case .
qed simp

lemma internal_map_counts:
  assumes "location rng + range_length rng \<le> 8 * length (bv_buckets bv)"
  shows "\<exists>bv' s'. CFBitVectorInternalMap bv rng mapper s = Some (bv', s') \<and>
    acc s' = acc s + card {p. in_range rng p \<and> P s (bit_at (bv_buckets bv) p)}"
proof -
  let ?ss = "segments (location rng) (range_length rng)"
  have inb: "\<forall>i \<in> fst ` set ?ss. i < length (bv_buckets bv)"
    using assms by (rule segments_in_buffer)
  obtain bs s' where bs: "map_segments mapper ?ss (bv_buckets bv) s = Some (bs, s')"
    using segments_bits [OF distinct_segments inb, of s] by metis
  have "{p. p < 8 * length (bv_buckets bv) \<and> covered ?ss p \<and> P s (bit_at (bv_buckets bv) p)} =
      {p. in_range rng p \<and> P s (bit_at (bv_buckets bv) p)}"
    using assms by (auto simp: covered_segments in_range_def)
  with segments_count [OF distinct_segments inb bs] bs show ?thesis
    by (simp add: CFBitVectorInternalMap_segments)
qed

end


text \<open>The nibble table counts the set bits of a byte.\<close>

lemma CFNibbleBitCount_nth:
  assumes "n < 16"
  shows "rd CFNibbleBitCount n = Some (\<Sum>j\<leftarrow>[0,1,2,3]. of_bool (bit n j))"
proof -
  have "\<forall>n \<in> set [0..<16]. rd CFNibbleBitCount n = Some (\<Sum>j\<leftarrow>[0,1,2,3]. of_bool (bit n j))"
    by code_simp
  with assms show ?thesis by simp
qed

lemma low_nibble:
  fixes w :: bucket
  shows "unat (w AND 0xF) < 16" and "bit (unat (w AND 0xF)) j \<longleftrightarrow> j < 4 \<and> bit w j"
proof -
  have m: "w AND 0xF = take_bit 4 w"
    by (simp add: take_bit_eq_mask mask_eq_exp_minus_1)
  have "take_bit 4 (unat w) < 2 ^ 4" by (rule take_bit_nat_less_exp)
  then show "unat (w AND 0xF) < 16" by (simp add: m unsigned_take_bit_eq)
  show "bit (unat (w AND 0xF)) j \<longleftrightarrow> j < 4 \<and> bit w j" by (auto simp: m bit_simps)
qed

lemma length_filter_sum: "length (filter Q xs) = (\<Sum>x\<leftarrow>xs. of_bool (Q x))"
  by (induction xs) auto

lemma card_bits_of_bucket:
  "card {k. k < 8 \<and> Q k} = (\<Sum>j\<leftarrow>[0,1,2,3,4,5,6,7::nat]. of_bool (Q j))"
proof -
  have "[0..<8] = [0,1,2,3,4,5,6,7::nat]" by code_simp
  moreover have "{k. k < 8 \<and> Q k} = set (filter Q [0..<8])" by auto
  ultimately show ?thesis
    by (metis distinct_card distinct_filter distinct_upt length_filter_sum)
qed

lemma count_nibbles_eq:
  "count_nibbles 2 val acc = Some (acc + card {k. k < 8 \<and> bit (val :: bucket) k})"
  by (simp add: numeral_2_eq_2 CFNibbleBitCount_nth low_nibble card_bits_of_bucket bit_simps)

interpretation count_bits: bit_counter CFBitVectorCountBits oc_count
  "\<lambda>ctx b. b = (oc_value ctx \<noteq> 0)"
proof unfold_locales
  fix v m :: bucket and s s' :: occursContext and v'
  show "\<exists>v' s'. CFBitVectorCountBits v m s = Some (v', s') \<and> (\<forall>k. bit m k \<longrightarrow> bit v' k = bit v k)"
    by (simp add: CFBitVectorCountBits_def Let_def count_nibbles_eq)
  assume "CFBitVectorCountBits v m s = Some (v', s')"
  then show "oc_count s' = oc_count s + mask_count (\<lambda>b. b = (oc_value s \<noteq> 0)) v m \<and>
      (\<lambda>b. b = (oc_value s' \<noteq> 0)) = (\<lambda>b. b = (oc_value s \<noteq> 0))"
    by (auto simp: CFBitVectorCountBits_def Let_def count_nibbles_eq mask_count_def bit_simps
        intro!: arg_cong [where f = card])
qed


subsection \<open>Refinement of the operations\<close>

lemma update_range_empty: "range_length rng = 0 \<Longrightarrow> update_range f rng xs = xs"
proof -
  assume "range_length rng = 0"
  then have "\<not> in_range rng i" for i by (auto simp: in_range_def)
  then show ?thesis by (simp add: update_range_def map_nth)
qed

lemma bit_at_replicate_prefix:
  assumes "n \<le> length bs"
  shows "bit_at (replicate n b @ drop n bs) p = (if p div 8 < n then bit b (7 - p mod 8) else bit_at bs p)"
  using assms by (auto simp: bit_at_def nth_append)

lemma SetBits_refines:
  assumes "bv_wf bv" "location rng + range_length rng \<le> bv_count bv"
  shows "\<exists>bv'. CFBitVectorSetBits bv rng v = Some bv' \<and> bv_wf bv' \<and>
           bv_bits bv' = update_range (\<lambda>_. v \<noteq> 0) rng (bv_bits bv)"
proof (cases "range_length rng = 0")
  case True
  then show ?thesis
    using assms(1) by (simp add: CFBitVectorSetBits_def update_range_empty)
next
  case False
  then show ?thesis
    using zero_bits.write_refines [OF assms] one_bits.write_refines [OF assms]
    by (cases "v = 0") (simp_all add: CFBitVectorSetBits_def)
qed

lemma FlipBits_refines:
  assumes "bv_wf bv" "location rng + range_length rng \<le> bv_count bv"
  shows "\<exists>bv'. CFBitVectorFlipBits bv rng = Some bv' \<and> bv_wf bv' \<and>
           bv_bits bv' = update_range Not rng (bv_bits bv)"
proof (cases "range_length rng = 0")
  case True
  then show ?thesis
    using assms(1) by (simp add: CFBitVectorFlipBits_def update_range_empty)
next
  case False
  then show ?thesis
    using flip_bits.write_refines [OF assms] by (simp add: CFBitVectorFlipBits_def)
qed

text \<open>\<open>CFBitVectorSetAllBits\<close> is a range write of the last fragment and a memset of the rest.\<close>

definition leftover_range :: "CFBitVector \<Rightarrow> CFRange" where
  "leftover_range bv = CFRangeMake (bv_count bv div 8 * 8) (bv_count bv mod 8)"

lemma SetAllBits_unfold:
  "CFBitVectorSetAllBits bv v =
     do { bv' \<leftarrow> CFBitVectorSetBits bv (leftover_range bv) v;
          buckets \<leftarrow> mem_write (bv_buckets bv') 0
                       (replicate (bv_count bv div 8) (if v \<noteq> 0 then NOT 0 else 0));
          Some (bv'\<lparr>bv_buckets := buckets\<rparr>) }"
  by (simp add: CFBitVectorSetAllBits_def CFBitVectorSetBits_def leftover_range_def Let_def
      minus_div_mult_eq_mod div_mult_less_iff)

lemma SetAllBits_refines:
  assumes "bv_wf bv"
  shows "\<exists>bv'. CFBitVectorSetAllBits bv v = Some bv' \<and> bv_wf bv' \<and>
           bv_bits bv' = replicate (bv_count bv) (v \<noteq> 0)"
proof -
  let ?n = "bv_count bv div 8" and ?b = "if v \<noteq> 0 then NOT 0 else (0 :: bucket)"
  have "location (leftover_range bv) + range_length (leftover_range bv) \<le> bv_count bv"
    by (simp add: leftover_range_def)
  from SetBits_refines [OF assms this, of v] obtain bv1 where bv1:
    "CFBitVectorSetBits bv (leftover_range bv) v = Some bv1" "bv_wf bv1"
    "bv_bits bv1 = update_range (\<lambda>_. v \<noteq> 0) (leftover_range bv) (bv_bits bv)"
    by blast
  have cnt: "bv_count bv1 = bv_count bv"
    using arg_cong [OF bv1(3), of length] by (simp add: update_range_def)
  have n: "?n \<le> length (bv_buckets bv1)"
    using bv_wf_capacity [OF bv1(2)] cnt by linarith
  let ?bs = "replicate ?n ?b @ drop ?n (bv_buckets bv1)"
  have "CFBitVectorSetAllBits bv v = Some (bv1\<lparr>bv_buckets := ?bs\<rparr>)"
    using n by (simp add: SetAllBits_unfold bv1(1) mem_write_def)
  moreover have "bv_wf (bv1\<lparr>bv_buckets := ?bs\<rparr>)"
    using n bv1(2) by (simp add: bv_wf_def CFBitVectorNumBuckets_def)
  moreover have "bit_at ?bs i = (v \<noteq> 0)" if i: "i < bv_count bv" for i
  proof (cases "i div 8 < ?n")
    case True
    with n show ?thesis by (simp add: bit_at_replicate_prefix bit_simps)
  next
    case False
    then have "in_range (leftover_range bv) i"
      using i by (simp add: in_range_def leftover_range_def not_less less_eq_div_iff_mult_less_eq)
    moreover have "bit_at (bv_buckets bv1) i = bv_bits bv1 ! i" using i cnt by simp
    ultimately have "bit_at (bv_buckets bv1) i = (v \<noteq> 0)"
      using i by (simp add: bv1(3) update_range_def)
    with False n show ?thesis by (simp add: bit_at_replicate_prefix)
  qed
  ultimately show ?thesis
    by (intro exI [of _ "bv1\<lparr>bv_buckets := ?bs\<rparr>"]) (auto simp: bv_bits_def cnt intro!: nth_equalityI)
qed


lemma GetCountOfBit_card:
  assumes "bv_wf bv" "location rng + range_length rng \<le> bv_count bv"
  shows "CFBitVectorGetCountOfBit bv rng v =
    Some (card {p. in_range rng p \<and> bv_bits bv ! p = (v \<noteq> 0)})"
proof (cases "range_length rng = 0")
  case True
  then have none: "\<not> in_range rng p" for p by (auto simp: in_range_def)
  from True show ?thesis by (simp add: CFBitVectorGetCountOfBit_def none)
next
  case False
  obtain bv' s' where "CFBitVectorInternalMap bv rng CFBitVectorCountBits
        \<lparr>oc_value = v, oc_count = 0\<rparr> = Some (bv', s')"
    "oc_count s' = card {p. in_range rng p \<and> bit_at (bv_buckets bv) p = (v \<noteq> 0)}"
    using count_bits.internal_map_counts [OF bv_wf_in_buffer [OF assms],
        of "\<lparr>oc_value = v, oc_count = 0\<rparr>"] by auto
  moreover have "{p. in_range rng p \<and> bit_at (bv_buckets bv) p = (v \<noteq> 0)} =
      {p. in_range rng p \<and> bv_bits bv ! p = (v \<noteq> 0)}"
    using assms(2) by (auto simp: in_range_def)
  ultimately show ?thesis using False by (simp add: CFBitVectorGetCountOfBit_def)
qed

lemma GetBitAtIndex_eq [cf_mem]:
  "bv_wf bv \<Longrightarrow> i < bv_count bv \<Longrightarrow> CFBitVectorGetBitAtIndex bv i = Some (of_bool (bv_bits bv ! i))"
  using bv_wf_capacity [of bv] by (simp add: CFBitVectorGetBitAtIndex_def CFBitVectorBit_eq)

text \<open>The first hit of an upward search, and the last of a downward one.\<close>

lemma first_index_loop_spec:
  "bv_wf bv \<Longrightarrow> loc + idx + n \<le> bv_count bv \<Longrightarrow>
    first_index_loop bv loc idx n v =
      Some (case find (\<lambda>i. v = of_bool (bv_bits bv ! i)) [loc + idx..<loc + idx + n] of
              None \<Rightarrow> kCFNotFound | Some i \<Rightarrow> int i)"
  by (induction n arbitrary: idx) (simp_all add: cf_mem upt_conv_Cons del: upt_Suc)

lemma last_index_loop_spec:
  "bv_wf bv \<Longrightarrow> loc + n \<le> bv_count bv \<Longrightarrow>
    last_index_loop bv loc n v =
      Some (case find (\<lambda>i. v = of_bool (bv_bits bv ! i)) (rev [loc..<loc + n]) of
              None \<Rightarrow> kCFNotFound | Some i \<Rightarrow> int i)"
  by (induction n) (auto simp: cf_mem)

subsection \<open>Changing the count\<close>

lemma CFBitVectorRoundUpCapacity_ge: "n \<le> CFBitVectorRoundUpCapacity n"
  by (auto simp: CFBitVectorRoundUpCapacity_def Let_def)

lemma Grow_wf:
  assumes "bv_wf bv"
  shows "length (bv_buckets (CFBitVectorGrow fresh bv n)) =
           CFBitVectorRoundUpCapacity (bv_count bv + n) div 8 + 1"
    and "bv_capacity (CFBitVectorGrow fresh bv n) = CFBitVectorRoundUpCapacity (bv_count bv + n)"
    and "p < bv_count bv \<Longrightarrow> bit_at (bv_buckets (CFBitVectorGrow fresh bv n)) p = bit_at (bv_buckets bv) p"
proof -
  let ?n = "CFBitVectorRoundUpCapacity (bv_count bv + n) div 8 + 1"
  show "length (bv_buckets (CFBitVectorGrow fresh bv n)) = ?n"
    by (simp add: CFBitVectorGrow_def Let_def CFBitVectorNumBuckets_def)
  show "bv_capacity (CFBitVectorGrow fresh bv n) = CFBitVectorRoundUpCapacity (bv_count bv + n)"
    by (simp add: CFBitVectorGrow_def Let_def)
  assume p: "p < bv_count bv"
  have "p div 8 \<le> CFBitVectorRoundUpCapacity (bv_count bv + n) div 8"
    using p CFBitVectorRoundUpCapacity_ge [of "bv_count bv + n"] by (intro div_le_mono) linarith
  then have "p div 8 < ?n" by simp
  moreover have "p div 8 < length (bv_buckets bv)"
    using p bv_wf_capacity [OF assms] by (simp add: less_mult_imp_div_less)
  ultimately show "bit_at (bv_buckets (CFBitVectorGrow fresh bv n)) p = bit_at (bv_buckets bv) p"
    by (simp add: bit_at_def CFBitVectorGrow_def Let_def CFBitVectorNumBuckets_def nth_append)
qed

lemma SetCount_shrinks:
  assumes "bv_wf bv" "n \<le> bv_count bv"
  shows "CFBitVectorSetCount fresh bv n = Some (bv\<lparr>bv_count := n\<rparr>)"
    and "bv_wf (bv\<lparr>bv_count := n\<rparr>)" and "bv_bits (bv\<lparr>bv_count := n\<rparr>) = take n (bv_bits bv)"
  using assms
  by (auto simp: CFBitVectorSetCount_def bv_wf_def bv_bits_def CFBitVectorNumBuckets_def take_map)

lemma SetCount_grows:
  assumes "bv_wf bv" "bv_count bv < n" "CFBitVectorMutableVariety bv = kCFBitVectorMutable"
  shows "\<exists>bv'. CFBitVectorSetCount fresh bv n = Some bv' \<and> bv_wf bv' \<and>
           bv_bits bv' = bv_bits bv @ replicate (n - bv_count bv) False"
proof -
  let ?g = "CFBitVectorGrow fresh bv (n - bv_count bv)"
  let ?rng = "CFRangeMake (bv_count bv) (n - bv_count bv)"
  have n: "bv_count bv + (n - bv_count bv) = n" using assms(2) by simp
  note grow = Grow_wf [OF assms(1), where fresh = fresh and n = "n - bv_count bv", unfolded n]
  have cnt: "bv_count ?g = bv_count bv" by (simp add: CFBitVectorGrow_def Let_def)
  have wf: "bv_wf (?g\<lparr>bv_count := n\<rparr>)"
    using grow CFBitVectorRoundUpCapacity_ge [of n] by (simp add: bv_wf_def CFBitVectorNumBuckets_def)
  then have wf': "bv_wf ?g" using cnt assms(2) by (simp add: bv_wf_def CFBitVectorNumBuckets_def)
  have inb: "location ?rng + range_length ?rng \<le> 8 * length (bv_buckets ?g)"
    using bv_wf_capacity [OF wf] n by simp
  from zero_bits.write_bits [OF wf' inb] obtain bs where bs:
    "internal_map_unit ?g ?rng CFBitVectorZeroBits = Some (?g\<lparr>bv_buckets := bs\<rparr>)"
    "bv_wf (?g\<lparr>bv_buckets := bs\<rparr>)" "length bs = length (bv_buckets ?g)"
    "\<And>p. p < 8 * length bs \<Longrightarrow>
       bit_at bs p = (if in_range ?rng p then False else bit_at (bv_buckets ?g) p)"
    by blast
  have inl: "p < 8 * length bs" if "p < n" for p
    using that bv_wf_capacity [OF wf] bs(3) by simp
  let ?bv = "?g\<lparr>bv_buckets := bs, bv_count := n\<rparr>"
  have "CFBitVectorSetCount fresh bv n = Some ?bv"
    using assms bs(1) by (simp add: CFBitVectorSetCount_def)
  moreover have "bv_wf ?bv"
    using wf bs(3) by (simp add: bv_wf_def CFBitVectorNumBuckets_def)
  moreover have "bv_bits ?bv = bv_bits bv @ replicate (n - bv_count bv) False"
    using assms(2) inl grow(3)
    by (intro nth_equalityI) (auto simp: bs(4) in_range_def nth_append)
  ultimately show ?thesis by blast
qed


subsection \<open>Copying bits out\<close>

text \<open>
  On a byte-aligned range (\<open>initBits = 0\<close>) every call of the mapper stores one masked bucket and,
  unless it is the only and fragmentary one, moves on.
\<close>

lemma get_bits_aligned_step:
  assumes "gb_initBits ctx = 0" "gb_totalBits ctx > 0" "gb_curByte ctx < length (gb_bytes ctx)"
  shows "CFBitVectorGetBitsMapper v m ctx = Some (v, ctx\<lparr>
           gb_bytes := (gb_bytes ctx)[gb_curByte ctx := v AND m],
           gb_curByte := gb_curByte ctx + (if gb_totalBits ctx \<ge> 8 then 1 else 0),
           gb_totalBits := (if gb_totalBits ctx \<ge> 8 then gb_totalBits ctx else 0)\<rparr>)"
proof (cases "gb_totalBits ctx \<ge> 8")
  case True
  with assms show ?thesis
    by (simp add: CFBitVectorGetBitsMapper_def get_bits_loop.simps cf_mem min_def)
next
  case False
  with assms show ?thesis
    by (simp add: CFBitVectorGetBitsMapper_def get_bits_loop.simps cf_mem min_def)
qed

lemma map_fragment_readonly:
  assumes "mapper (bs ! i) m s = Some (bs ! i, s')" "i < length bs"
  shows "map_fragment mapper i m bs s = Some (bs, s')"
proof -
  have "bs ! i AND NOT m OR bs ! i AND m = bs ! i" by (rule bit_word_eqI) (auto simp: bit_simps)
  with assms show ?thesis by (simp add: map_fragment_def cf_mem)
qed

lemma get_bits_aligned_loop:
  "\<forall>i \<in> fst ` set ss. i < length bs \<Longrightarrow> gb_initBits ctx = 0 \<Longrightarrow> gb_totalBits ctx \<ge> 8 \<Longrightarrow>
    gb_curByte ctx + length ss \<le> length (gb_bytes ctx) \<Longrightarrow>
    \<exists>ctx'. map_segments CFBitVectorGetBitsMapper ss bs ctx = Some (bs, ctx') \<and>
      gb_bytes ctx' = take (gb_curByte ctx) (gb_bytes ctx) @ map (\<lambda>(i, m). bs ! i AND m) ss @
        drop (gb_curByte ctx + length ss) (gb_bytes ctx)"
proof (induction ss arbitrary: ctx)
  case (Cons im ss)
  obtain i m where im: "im = (i, m)" by (cases im)
  let ?ctx = "ctx\<lparr>gb_bytes := (gb_bytes ctx)[gb_curByte ctx := bs ! i AND m],
      gb_curByte := gb_curByte ctx + 1\<rparr>"
  have "CFBitVectorGetBitsMapper (bs ! i) m ctx = Some (bs ! i, ?ctx)"
    using Cons.prems by (subst get_bits_aligned_step) auto
  then have step: "map_fragment CFBitVectorGetBitsMapper i m bs ctx = Some (bs, ?ctx)"
    using Cons.prems im by (intro map_fragment_readonly) auto
  from Cons.IH [of ?ctx] Cons.prems obtain ctx' where
    "map_segments CFBitVectorGetBitsMapper ss bs ?ctx = Some (bs, ctx')"
    "gb_bytes ctx' = take (gb_curByte ctx + 1) (gb_bytes ?ctx) @ map (\<lambda>(i, m). bs ! i AND m) ss @
        drop (gb_curByte ctx + 1 + length ss) (gb_bytes ?ctx)"
    by auto
  moreover have "take (gb_curByte ctx + 1) (gb_bytes ?ctx) =
      take (gb_curByte ctx) (gb_bytes ctx) @ [bs ! i AND m]"
    using Cons.prems by (simp add: take_Suc_conv_app_nth)
  ultimately show ?case
    using step by (simp add: im)
qed simp

lemma ceil_div_8: "(n + 7) div 8 = n div 8 + (if n mod 8 \<noteq> 0 then 1 else (0::nat))"
proof -
  have eq: "n + 7 = (n mod 8 + 7) + 8 * (n div 8)" by simp
  have "n mod 8 < 8" by simp
  then have "(n mod 8 + 7) div 8 = (if n mod 8 \<noteq> 0 then 1 else 0)" by (cases "n mod 8") auto
  then show ?thesis by (subst eq, subst div_mult_self2) simp_all
qed

lemma ceil_bytes:
  assumes "8 \<le> (len::nat)"
  shows "(len + 7) div 8 = 1 + (len - 8) div 8 + (if (len - 8) mod 8 \<noteq> 0 then 1 else 0)"
  using assms unfolding ceil_div_8 by (auto simp: le_div_geq le_mod_geq)

lemma aligned_segments:
  assumes "loc mod 8 = 0" "8 \<le> len"
  shows "length (segments loc len) = (len + 7) div 8"
    and "j < (len + 7) div 8 \<Longrightarrow> fst (segments loc len ! j) = loc div 8 + j"
proof -
  let ?r = "len - 8"
  have "(len + 7) div 8 = 1 + ?r div 8 + (if ?r mod 8 \<noteq> 0 then 1 else 0)"
    using assms(2) by (rule ceil_bytes)
  moreover have segs: "segments loc len = (loc div 8, CFBitBucketMask 0 7) # whole_segments (?r div 8) (loc div 8 + 1) @
      (if ?r mod 8 \<noteq> 0 then [(loc div 8 + 1 + ?r div 8, CFBitBucketMask 0 (?r mod 8 - 1))] else [])"
    using assms by (simp add: segments_def Let_def)
  ultimately show "length (segments loc len) = (len + 7) div 8" by simp
  have tail: "[a + 1..<a + 1 + q] @ (if P then [a + 1 + q] else []) = [a + 1..<a + (1 + q + (if P then 1 else 0))]"
    for a q :: nat and P by simp
  have cons: "a # [a + 1..<a + (1 + q + x)] = [a..<a + (1 + q + x)]" for a q x :: nat
    unfolding Suc_eq_plus1 [symmetric] by (rule upt_conv_Cons [symmetric]) simp
  have "map fst (segments loc len) = loc div 8 # ([loc div 8 + 1..<loc div 8 + 1 + ?r div 8] @
      (if ?r mod 8 \<noteq> 0 then [loc div 8 + 1 + ?r div 8] else []))"
    by (simp add: segs)
  also have "\<dots> = [loc div 8..<loc div 8 + (len + 7) div 8]"
    unfolding tail cons \<open>(len + 7) div 8 = _\<close> ..
  finally have "map fst (segments loc len) = [loc div 8..<loc div 8 + (len + 7) div 8]" .
  then show "j < (len + 7) div 8 \<Longrightarrow> fst (segments loc len ! j) = loc div 8 + j"
    by (metis add_diff_cancel_left' length_map length_upt nth_map nth_upt add_less_cancel_left)
qed


lemma aligned_small_segments:
  assumes "loc mod 8 = 0" "0 < len" "len < 8"
  shows "segments loc len = [(loc div 8, CFBitBucketMask 0 (len - 1))]" and "(len + 7) div 8 = 1"
proof -
  show "segments loc len = [(loc div 8, CFBitBucketMask 0 (len - 1))]"
    using assms by (simp add: segments_def)
  show "(len + 7) div 8 = 1" using assms(2,3) by (cases len) auto
qed

lemma get_bits_aligned_bytes:
  assumes "location rng mod 8 = 0" "0 < range_length rng"
    and "location rng + range_length rng \<le> 8 * length (bv_buckets bv)"
    and "(range_length rng + 7) div 8 \<le> length bytes"
  shows "CFBitVectorGetBits bv rng bytes = Some
    (map (\<lambda>(i, m). bv_buckets bv ! i AND m) (segments (location rng) (range_length rng)) @
     drop ((range_length rng + 7) div 8) bytes)"
proof -
  let ?len = "range_length rng" and ?bs = "bv_buckets bv"
  let ?ss = "segments (location rng) ?len"
  let ?ctx = "\<lparr>gb_bytes = bytes, gb_curByte = 0, gb_initBits = 0, gb_totalBits = int ?len,
    gb_ignoreFirstInitBits = True\<rparr>"
  have inb: "\<forall>i \<in> fst ` set ?ss. i < length ?bs"
    using assms(3) by (rule segments_in_buffer)
  have "\<exists>ctx'. map_segments CFBitVectorGetBitsMapper ?ss ?bs ?ctx = Some (?bs, ctx') \<and>
      gb_bytes ctx' = map (\<lambda>(i, m). ?bs ! i AND m) ?ss @ drop ((?len + 7) div 8) bytes"
  proof (cases "8 \<le> ?len")
    case True
    show ?thesis
      using get_bits_aligned_loop [OF inb, of ?ctx] True assms(4)
      by (simp add: aligned_segments [OF assms(1) True])
  next
    case False
    then have len8: "?len < 8" by simp
    note seg = aligned_small_segments [OF assms(1,2) len8]
    let ?i = "location rng div 8" and ?m = "CFBitBucketMask 0 (?len - 1)"
    have "0 < length bytes" using assms(4) seg(2) by linarith
    then have "\<exists>ctx'. CFBitVectorGetBitsMapper (?bs ! ?i) ?m ?ctx = Some (?bs ! ?i, ctx') \<and>
        gb_bytes ctx' = bytes[0 := ?bs ! ?i AND ?m]"
      using assms(2) len8 by (subst get_bits_aligned_step) auto
    moreover have "bytes[0 := x] = x # drop 1 bytes" for x
      using \<open>0 < length bytes\<close> by (cases bytes) auto
    ultimately show ?thesis
      using inb map_fragment_readonly [of CFBitVectorGetBitsMapper ?bs ?i ?m ?ctx] seg
      by fastforce
  qed
  then show ?thesis
    using assms(1,2) by (auto simp: CFBitVectorGetBits_def CFBitVectorInternalMap_segments)
qed

lemma aligned_segment_bits:
  assumes "loc mod 8 = 0" "0 < len" "p < 8 * ((len + 7) div 8)"
  shows "length (segments loc len) = (len + 7) div 8"
    and "bit_at (map (\<lambda>(i, m). bs ! i AND m) (segments loc len) @ ys) p \<longleftrightarrow>
         p < len \<and> bit_at bs (loc + p)"
proof -
  let ?ss = "segments loc len" and ?j = "p div 8"
  have j: "?j < (len + 7) div 8" using assms(3) by (simp add: less_mult_imp_div_less mult.commute)
  have len: "length ?ss = (len + 7) div 8" and fst: "fst (?ss ! ?j) = loc div 8 + ?j"
    using aligned_segments [OF assms(1)] aligned_small_segments [OF assms(1,2)] j
    by (cases "8 \<le> len"; simp)+
  show "length ?ss = (len + 7) div 8" by (rule len)
  have pos: "(loc + p) div 8 = loc div 8 + ?j" "(loc + p) mod 8 = p mod 8"
    using assms(1) by (simp add: div_add1_eq, metis add_0 mod_add_left_eq)
  obtain m where m: "?ss ! ?j = (loc div 8 + ?j, m)" using fst by (metis prod.collapse)
  have mem: "(loc div 8 + ?j, m) \<in> set ?ss" using m j len by (metis nth_mem)
  then have "covered ?ss (loc + p) \<longleftrightarrow> bit m (7 - p mod 8)"
    unfolding covered_def pos using eq_key_imp_eq_value [OF distinct_segments mem] by blast
  then have "bit m (7 - p mod 8) \<longleftrightarrow> p < len" by (simp add: covered_segments)
  then show "bit_at (map (\<lambda>(i, m). bs ! i AND m) ?ss @ ys) p \<longleftrightarrow> p < len \<and> bit_at bs (loc + p)"
    using j len m by (auto simp: bit_at_def nth_append bit_simps pos)
qed

lemma GetBits_aligned:
  assumes "bv_wf bv" "location rng + range_length rng \<le> bv_count bv"
    and "location rng mod 8 = 0" "(range_length rng + 7) div 8 \<le> length bytes"
  shows "\<exists>out. CFBitVectorGetBits bv rng bytes = Some out \<and> length out = length bytes \<and>
    (\<forall>p < 8 * length bytes. bit_at out p =
      (if p < range_length rng then bv_bits bv ! (location rng + p)
       else if p < 8 * ((range_length rng + 7) div 8) then False else bit_at bytes p))"
proof (cases "range_length rng = 0")
  case True
  then show ?thesis by (simp add: CFBitVectorGetBits_def)
next
  case False
  let ?len = "range_length rng"
  let ?out = "map (\<lambda>(i, m). bv_buckets bv ! i AND m) (segments (location rng) ?len) @
     drop ((?len + 7) div 8) bytes"
  have out: "CFBitVectorGetBits bv rng bytes = Some ?out"
    using False assms bv_wf_in_buffer [OF assms(1,2)] by (intro get_bits_aligned_bytes) auto
  have nseg: "length (segments (location rng) ?len) = (?len + 7) div 8"
    using aligned_segment_bits(1) [OF assms(3), of ?len 0] False by simp
  have "bit_at ?out p =
      (if p < ?len then bv_bits bv ! (location rng + p)
       else if p < 8 * ((?len + 7) div 8) then False else bit_at bytes p)" for p
  proof (cases "p < 8 * ((?len + 7) div 8)")
    case True
    then show ?thesis
      using aligned_segment_bits(2) [OF assms(3) _ True, of "bv_buckets bv"] False assms(2) by auto
  next
    case out: False
    then have "\<not> p div 8 < (?len + 7) div 8" by (metis mult.commute less_mult_imp_div_less not_less_iff_gr_or_eq div_less_iff_less_mult zero_less_numeral)
    moreover have "\<not> p < ?len" using out by linarith
    ultimately show ?thesis using out assms(4) nseg by (simp add: bit_at_def nth_append)
  qed
  with out nseg assms(4) show ?thesis by (intro exI [of _ ?out]) auto
qed


text \<open>
  On any other range the context starts with \<open>ignoreFirstInitBits\<close> set, and the only place that
  would clear it is guarded by its being clear: \<open>curByte\<close> never moves.
\<close>

definition stuck :: "8 word list \<Rightarrow> getBitsContext \<Rightarrow> bool" where
  "stuck bytes ctx \<longleftrightarrow> 0 < gb_initBits ctx \<and> gb_initBits ctx < 8 \<and> gb_ignoreFirstInitBits ctx \<and>
     gb_curByte ctx = 0 \<and> length (gb_bytes ctx) = length bytes \<and>
     tl (gb_bytes ctx) = tl bytes"

lemma get_bits_stuck_step:
  assumes "stuck bytes ctx" "bytes \<noteq> []"
  shows "\<exists>ctx'. CFBitVectorGetBitsMapper v m ctx = Some (v, ctx') \<and> stuck bytes ctx'"
proof -
  have upd: "tl (xs[0 := x]) = tl xs" for xs :: "8 word list" and x by (cases xs) auto
  have "\<not> 8 \<le> min (8 - gb_initBits ctx) (gb_totalBits ctx)" "0 < length (gb_bytes ctx)"
    using assms by (auto simp: stuck_def)
  with assms show ?thesis
    by (auto simp: CFBitVectorGetBitsMapper_def get_bits_loop.simps stuck_def cf_mem Let_def upd)
qed

lemma get_bits_stuck_loop:
  "stuck bytes ctx \<Longrightarrow> bytes \<noteq> [] \<Longrightarrow> \<forall>i \<in> fst ` set ss. i < length bs \<Longrightarrow>
    \<exists>ctx'. map_segments CFBitVectorGetBitsMapper ss bs ctx = Some (bs, ctx') \<and> stuck bytes ctx'"
proof (induction ss arbitrary: ctx)
  case (Cons im ss)
  obtain i m where im: "im = (i, m)" by (cases im)
  obtain ctx1 where 1: "CFBitVectorGetBitsMapper (bs ! i) m ctx = Some (bs ! i, ctx1)" "stuck bytes ctx1"
    using get_bits_stuck_step [OF Cons.prems(1,2)] by blast
  have "map_fragment CFBitVectorGetBitsMapper i m bs ctx = Some (bs, ctx1)"
    using 1(1) Cons.prems(3) im by (intro map_fragment_readonly) auto
  with Cons.IH [OF 1(2)] Cons.prems im show ?case by auto
qed auto

subsection \<open>Properties\<close>

text \<open>C29: 
  C1. Setting a range of a well-formed bit vector, flipping a range, and setting all bits never
  leaves the buffer, keeps the vector well-formed, and changes exactly the addressed bits.
\<close>

theorem bit_range_writes_refine:
  assumes "bv_wf bv" "location rng + range_length rng \<le> bv_count bv"
  shows "(\<exists>bv'. CFBitVectorSetBits bv rng v = Some bv' \<and> bv_wf bv' \<and>
             bv_bits bv' = update_range (\<lambda>_. v \<noteq> 0) rng (bv_bits bv)) \<and>
         (\<exists>bv'. CFBitVectorFlipBits bv rng = Some bv' \<and> bv_wf bv' \<and>
             bv_bits bv' = update_range Not rng (bv_bits bv)) \<and>
         (\<exists>bv'. CFBitVectorSetAllBits bv v = Some bv' \<and> bv_wf bv' \<and>
             bv_bits bv' = replicate (bv_count bv) (v \<noteq> 0))"
  using SetBits_refines [OF assms] FlipBits_refines [OF assms] SetAllBits_refines [OF assms(1)]
  by blast

definition sample_bv :: CFBitVector where
  "sample_bv = \<lparr>bv_cfinfo = 4, bv_count = 20, bv_capacity = 64,
     bv_buckets = [0x0F, 0xF0, 0xA5, 0, 0, 0, 0, 0, 0]\<rparr>"

lemma sample_bv_wf: "bv_wf sample_bv"
  by (simp add: sample_bv_def bv_wf_def CFBitVectorNumBuckets_def)

theorem bit_range_writes_refine_witness:
  "bv_wf sample_bv \<and> location (CFRangeMake 3 10) + range_length (CFRangeMake 3 10) \<le> bv_count sample_bv \<and>
   (\<exists>bv'. CFBitVectorFlipBits sample_bv (CFRangeMake 3 10) = Some bv' \<and> bv_wf bv' \<and>
      bv_bits bv' = update_range Not (CFRangeMake 3 10) (bv_bits sample_bv))"
proof -
  have r: "location (CFRangeMake 3 10) + range_length (CFRangeMake 3 10) \<le> bv_count sample_bv"
    by (simp add: sample_bv_def)
  show ?thesis using bit_range_writes_refine [OF sample_bv_wf r] sample_bv_wf r by blast
qed

text \<open>
  C2. \<open>CFBitVectorGetCountOfBit\<close> counts the bits of the range that equal the given bit, and
  \<open>CFBitVectorContainsBit\<close> says whether there is one; neither leaves the buffer.
\<close>

theorem bit_count_correct:
  assumes "bv_wf bv" "location rng + range_length rng \<le> bv_count bv"
  shows "CFBitVectorGetCountOfBit bv rng v =
           Some (card {p. in_range rng p \<and> bv_bits bv ! p = (v \<noteq> 0)}) \<and>
         CFBitVectorContainsBit bv rng v =
           Some (\<exists>p. in_range rng p \<and> bv_bits bv ! p = (v \<noteq> 0))"
proof -
  have "finite {p. in_range rng p \<and> bv_bits bv ! p = (v \<noteq> 0)}"
    by (rule finite_subset [of _ "{..<location rng + range_length rng}"]) (auto simp: in_range_def)
  then show ?thesis
    using GetCountOfBit_card [OF assms, of v]
    by (auto simp: CFBitVectorContainsBit_def card_gt_0_iff)
qed

theorem bit_count_correct_witness:
  "CFBitVectorGetCountOfBit sample_bv (CFRangeMake 2 12) 1 =
     Some (card {p. in_range (CFRangeMake 2 12) p \<and> bv_bits sample_bv ! p = ((1 :: CFBit) \<noteq> 0)})"
  using bit_count_correct [OF sample_bv_wf, of "CFRangeMake 2 12" 1] by (simp add: sample_bv_def)

text \<open>C35: 
  C3. The searches return the first, respectively the last, index of the range whose bit equals
  the value, or \<open>kCFNotFound\<close> when there is none (a value other than 0 and 1 is never found).
\<close>

theorem bit_search_correct:
  assumes "bv_wf bv" "location rng + range_length rng \<le> bv_count bv"
  shows "CFBitVectorGetFirstIndexOfBit bv rng v =
      Some (case find (\<lambda>i. v = of_bool (bv_bits bv ! i))
                   [location rng..<location rng + range_length rng] of
              None \<Rightarrow> kCFNotFound | Some i \<Rightarrow> int i) \<and>
    CFBitVectorGetLastIndexOfBit bv rng v =
      Some (case find (\<lambda>i. v = of_bool (bv_bits bv ! i))
                   (rev [location rng..<location rng + range_length rng]) of
              None \<Rightarrow> kCFNotFound | Some i \<Rightarrow> int i)"
  using assms first_index_loop_spec [OF assms(1), of "location rng" 0 "range_length rng" v]
    last_index_loop_spec [OF assms(1), of "location rng" "range_length rng" v]
  by (simp add: CFBitVectorGetFirstIndexOfBit_def CFBitVectorGetLastIndexOfBit_def)

theorem bit_search_correct_witness:
  "CFBitVectorGetFirstIndexOfBit sample_bv (CFRangeMake 0 20) 1 = Some 4 \<and>
   CFBitVectorGetLastIndexOfBit sample_bv (CFRangeMake 0 16) 1 = Some 11"
proof -
  have "bv_bits sample_bv = [False, False, False, False, True, True, True, True,
      True, True, True, True, False, False, False, False, True, False, True, False]"
    by code_simp
  then show ?thesis
    using bit_search_correct [OF sample_bv_wf, of "CFRangeMake 0 20" 1]
      bit_search_correct [OF sample_bv_wf, of "CFRangeMake 0 16" 1]
    by (simp add: sample_bv_def upt_conv_Cons)
qed

text \<open>
  C4. Changing the count of a mutable vector truncates it or extends it with zero bits, whatever
  the reallocated buffer contained, and keeps it well-formed.
\<close>

theorem bit_set_count_refines:
  assumes "bv_wf bv" "CFBitVectorMutableVariety bv = kCFBitVectorMutable"
  shows "\<exists>bv'. CFBitVectorSetCount fresh bv n = Some bv' \<and> bv_wf bv' \<and>
           bv_bits bv' = take n (bv_bits bv) @ replicate (n - bv_count bv) False"
proof (cases "n \<le> bv_count bv")
  case True
  then show ?thesis using SetCount_shrinks [OF assms(1)] by (intro exI) auto
next
  case False
  then show ?thesis using SetCount_grows [OF assms(1) _ assms(2), of n fresh] by auto
qed

theorem bit_set_count_refines_witness:
  "CFBitVectorMutableVariety sample_bv = kCFBitVectorMutable \<and>
   (\<exists>bv'. CFBitVectorSetCount (\<lambda>_. 0xFF) sample_bv 100 = Some bv' \<and> bv_wf bv' \<and>
      bv_bits bv' = take 100 (bv_bits sample_bv) @ replicate (100 - bv_count sample_bv) False)"
proof -
  have m: "CFBitVectorMutableVariety sample_bv = kCFBitVectorMutable"
    by code_simp
  show ?thesis using bit_set_count_refines [OF sample_bv_wf m] m by blast
qed

text \<open>
  C5. \<open>CFBitVectorGetBits\<close> on a byte-aligned range stores the bits of the range in order, clears
  the rest of the last byte it touches and leaves the other bytes of the destination alone.
\<close>

theorem get_bits_aligned:
  assumes "bv_wf bv" "location rng + range_length rng \<le> bv_count bv"
    and "location rng mod 8 = 0" "(range_length rng + 7) div 8 \<le> length bytes"
  shows "\<exists>out. CFBitVectorGetBits bv rng bytes = Some out \<and> length out = length bytes \<and>
    (\<forall>p < 8 * length bytes. bit_at out p =
      (if p < range_length rng then bv_bits bv ! (location rng + p)
       else if p < 8 * ((range_length rng + 7) div 8) then False else bit_at bytes p))"
  using assms by (rule GetBits_aligned)

theorem get_bits_aligned_witness:
  "\<exists>out. CFBitVectorGetBits sample_bv (CFRangeMake 8 12) [1, 2, 3] = Some out \<and> length out = 3"
proof -
  have "location (CFRangeMake 8 12) + range_length (CFRangeMake 8 12) \<le> bv_count sample_bv"
    by (simp add: sample_bv_def)
  from get_bits_aligned [OF sample_bv_wf this, of "[1, 2, 3]"] show ?thesis by auto
qed

text \<open>
  C6. On a range that does not start on a byte boundary \<open>CFBitVectorGetBits\<close> stores into the first
  byte of the destination only, however many bits the range has: the copied bits are lost.
\<close>

theorem get_bits_unaligned_first_byte_only:
  assumes "bv_wf bv" "location rng + range_length rng \<le> bv_count bv"
    and "location rng mod 8 \<noteq> 0" "bytes \<noteq> []"
  shows "\<exists>out. CFBitVectorGetBits bv rng bytes = Some out \<and> length out = length bytes \<and>
    tl out = tl bytes"
proof (cases "range_length rng = 0")
  case False
  let ?ss = "segments (location rng) (range_length rng)"
  let ?ctx = "\<lparr>gb_bytes = bytes, gb_curByte = 0, gb_initBits = int (location rng mod 8),
    gb_totalBits = int (range_length rng), gb_ignoreFirstInitBits = True\<rparr>"
  have "stuck bytes ?ctx" using assms(3) by (simp add: stuck_def)
  from get_bits_stuck_loop [OF this assms(4) segments_in_buffer [OF bv_wf_in_buffer [OF assms(1,2)]]]
  obtain ctx' where "map_segments CFBitVectorGetBitsMapper ?ss (bv_buckets bv) ?ctx =
      Some (bv_buckets bv, ctx')" "stuck bytes ctx'"
    by blast
  with False show ?thesis
    by (simp add: CFBitVectorGetBits_def CFBitVectorInternalMap_segments stuck_def)
qed (simp add: CFBitVectorGetBits_def)

text \<open>The witness: the eight set bits 4 to 11 come out as a zero byte.\<close>

theorem get_bits_unaligned_first_byte_only_witness:
  "CFBitVectorGetBits sample_bv (CFRangeMake 4 8) [0xFF, 0xFF] = Some [0, 0xFF]"
proof -
  have "location (CFRangeMake 4 8) + range_length (CFRangeMake 4 8) \<le> bv_count sample_bv"
    by (simp add: sample_bv_def)
  from get_bits_unaligned_first_byte_only [OF sample_bv_wf this, of "[0xFF, 0xFF]"]
  obtain out where "CFBitVectorGetBits sample_bv (CFRangeMake 4 8) [0xFF, 0xFF] = Some out"
    by auto
  moreover have "CFBitVectorGetBits sample_bv (CFRangeMake 4 8) [0xFF, 0xFF] = Some [0, 0xFF]"
    by code_simp
  ultimately show ?thesis by simp
qed


lemma equal_buckets_eq:
  "idx + n \<le> length bs1 \<Longrightarrow> idx + n \<le> length bs2 \<Longrightarrow>
    equal_buckets n idx bs1 bs2 = Some (\<forall>j < n. bs1 ! (idx + j) = bs2 ! (idx + j))"
proof (induction n arbitrary: idx)
  case (Suc n)
  then have "equal_buckets n (Suc idx) bs1 bs2 = Some (\<forall>j < n. bs1 ! (Suc idx + j) = bs2 ! (Suc idx + j))"
    by simp
  with Suc.prems show ?case by (auto simp: cf_mem All_less_Suc2)
qed simp

lemma Equal_eq:
  assumes "bv_wf bv1" "bv_wf bv2"
  shows "CFBitVectorEqual bv1 bv2 = Some (bv_count bv1 = bv_count bv2 \<and>
    (bv_count bv1 = 0 \<or> (\<forall>j < bv_count bv1 div 8 + 1. bv_buckets bv1 ! j = bv_buckets bv2 ! j)))"
proof -
  have "bv_count bv div 8 + 1 \<le> length (bv_buckets bv)" if "bv_wf bv" for bv
    using that by (auto simp: bv_wf_def CFBitVectorNumBuckets_def div_le_mono)
  from this [OF assms(1)] this [OF assms(2)] show ?thesis
    using equal_buckets_eq [of 0 "bv_count bv1 div 8 + 1" "bv_buckets bv1" "bv_buckets bv2"]
    by (auto simp: CFBitVectorEqual_def Let_def simp del: equal_buckets.simps)
qed

lemma Init_refines:
  assumes "n div 8 + (if n mod 8 \<noteq> 0 then 1 else 0) \<le> length bytes"
  shows "\<exists>bv. CFBitVectorInit flags (Some bytes) n = Some bv \<and> bv_wf bv \<and> bv_count bv = n \<and>
    bv_bits bv = map (bit_at bytes) [0..<n]"
proof -
  let ?cap = "CFBitVectorRoundUpCapacity n" and ?k = "n div 8 + (if n mod 8 \<noteq> 0 then 1 else 0)"
  let ?bs = "take ?k bytes @ replicate (?cap div 8 + 1 - ?k) 0"
  have cap: "n \<le> ?cap" by (rule CFBitVectorRoundUpCapacity_ge)
  then have k: "?k \<le> ?cap div 8 + 1" using div_le_mono [OF cap, of 8] by auto
  let ?bv = "CFBitVectorSetMutableVariety \<lparr>bv_cfinfo = 0, bv_count = n, bv_capacity = ?cap, bv_buckets = ?bs\<rparr>
    (CFBitVectorMutableVarietyFromFlags flags)"
  have "CFBitVectorInit flags (Some bytes) n = Some ?bv"
    using assms k memmove_Some [of 0 ?k bytes 0 "replicate (?cap div 8 + 1) 0"]
    by (simp add: CFBitVectorInit_def Let_def CFBitVectorNumBuckets_def drop_replicate
        del: replicate.simps)
  moreover have "bv_wf ?bv"
    using cap k assms
    by (simp add: bv_wf_def CFBitVectorSetMutableVariety_def CFBitVectorNumBuckets_def)
  moreover have "bit_at ?bs i = bit_at bytes i" if "i < n" for i
  proof -
    have "i div 8 < ?k"
    proof (cases "n mod 8 = 0")
      case True
      then have "i < n div 8 * 8" using that by (simp add: mod_0_imp_dvd)
      then show ?thesis using True by (simp add: less_mult_imp_div_less)
    next
      case False
      then show ?thesis using that by (simp add: div_le_mono less_Suc_eq_le)
    qed
    then show ?thesis using assms by (simp add: bit_at_def nth_append)
  qed
  ultimately show ?thesis
    by (intro exI [of _ ?bv]) (auto simp: bv_bits_def CFBitVectorSetMutableVariety_def)
qed

text \<open>
  C7. Two well-formed vectors that \<open>CFEqual\<close> reports equal have the same bits, and the comparison
  stays inside both buffers.
\<close>

theorem bit_equal_sound:
  assumes "bv_wf bv1" "bv_wf bv2"
  shows "\<exists>b. CFBitVectorEqual bv1 bv2 = Some b \<and> (b \<longrightarrow> bv_bits bv1 = bv_bits bv2)"
  using Equal_eq [OF assms]
  by (auto simp: bv_bits_def bit_at_def less_Suc_eq_le div_le_mono)

theorem bit_equal_sound_witness:
  "\<exists>b. CFBitVectorEqual sample_bv sample_bv = Some b \<and> b \<and> bv_bits sample_bv = bv_bits sample_bv"
proof -
  from bit_equal_sound [OF sample_bv_wf sample_bv_wf]
  obtain b where "CFBitVectorEqual sample_bv sample_bv = Some b" by blast
  moreover have "CFBitVectorEqual sample_bv sample_bv = Some True" by code_simp
  ultimately show ?thesis by (intro exI [of _ True]) simp
qed

text \<open>
  C8. The comparison also sees the bits behind the last one: for every vector whose count is not a
  multiple of 8 there is a vector with the same bits, and the same count and capacity, that
  \<open>CFEqual\<close> reports different.
\<close>

theorem bit_equal_not_complete:
  assumes "bv_wf bv" "bv_count bv mod 8 \<noteq> 0"
  shows "\<exists>bv'. bv_wf bv' \<and> bv_bits bv' = bv_bits bv \<and> bv_capacity bv' = bv_capacity bv \<and>
    CFBitVectorEqual bv bv' = Some False"
proof -
  let ?n = "bv_count bv"
  have n: "?n < 8 * length (bv_buckets bv)" using bv_wf_capacity [OF assms(1)] by linarith
  obtain bs where bs: "CFFlipBitVectorBit (bv_buckets bv) ?n = Some bs"
    "length bs = length (bv_buckets bv)"
    "\<And>p. p < 8 * length (bv_buckets bv) \<Longrightarrow>
      bit_at bs p = (if p = ?n then \<not> bit_at (bv_buckets bv) p else bit_at (bv_buckets bv) p)"
    using bit_at_CFFlipBitVectorBit [OF n] by blast
  let ?bv = "bv\<lparr>bv_buckets := bs\<rparr>"
  have wf: "bv_wf ?bv" using assms(1) bs(2) by (simp add: bv_wf_def CFBitVectorNumBuckets_def)
  have "bv_buckets bv ! (?n div 8) \<noteq> bs ! (?n div 8)" using bs(3) [OF n] by (auto simp: bit_at_def)
  moreover have "?n \<noteq> 0" using assms(2) by auto
  ultimately have "CFBitVectorEqual bv ?bv = Some False"
    using Equal_eq [OF assms(1) wf] by auto
  moreover have "bv_bits ?bv = bv_bits bv" using bs(3) n by (auto simp: bv_bits_def)
  ultimately show ?thesis using wf by (intro exI [of _ ?bv]) simp
qed

text \<open>The witness builds the pair with \<open>CFBitVectorCreate\<close>, from two bytes that agree on four bits.\<close>

theorem bit_equal_not_complete_witness:
  "\<exists>bv1 bv2. CFBitVectorCreate (Some [0xF0]) 4 = Some bv1 \<and> CFBitVectorCreate (Some [0xFF]) 4 = Some bv2 \<and>
     bv_bits bv1 = bv_bits bv2 \<and> CFBitVectorEqual bv1 bv2 = Some False \<and>
     (\<exists>bv'. bv_bits bv' = bv_bits bv1 \<and> CFBitVectorEqual bv1 bv' = Some False)"
proof -
  let ?bv = "\<lambda>b. \<lparr>bv_cfinfo = 0, bv_count = 4, bv_capacity = 64, bv_buckets = [b, 0, 0, 0, 0, 0, 0, 0, 0]\<rparr>"
  have "CFBitVectorCreate (Some [0xF0]) 4 = Some (?bv 0xF0)"
    "CFBitVectorCreate (Some [0xFF]) 4 = Some (?bv 0xFF)" by code_simp+
  moreover have "bv_bits (?bv 0xF0) = bv_bits (?bv 0xFF)" by code_simp
  moreover have "CFBitVectorEqual (?bv 0xF0) (?bv 0xFF) = Some False" by code_simp
  moreover have "bv_wf (?bv 0xF0)" by (simp add: bv_wf_def CFBitVectorNumBuckets_def)
  ultimately show ?thesis using bit_equal_not_complete [of "?bv 0xF0"] by auto
qed

text \<open>
  C9. Creating a vector from bytes and copying a vector, mutable or not, give a well-formed vector
  with the bits of the original; the buffer read never leaves the source.
\<close>

theorem bit_create_and_copy:
  assumes "bv_wf bv" "(n + 7) div 8 \<le> length bytes"
  shows "(\<exists>bv'. CFBitVectorCreate (Some bytes) n = Some bv' \<and> bv_wf bv' \<and>
            bv_bits bv' = map (bit_at bytes) [0..<n]) \<and>
         (\<exists>bv'. CFBitVectorCreateCopy bv = Some bv' \<and> bv_wf bv' \<and> bv_bits bv' = bv_bits bv) \<and>
         (\<exists>bv'. CFBitVectorCreateMutableCopy cap bv = Some bv' \<and> bv_wf bv' \<and> bv_bits bv' = bv_bits bv)"
proof -
  have n: "n div 8 + (if n mod 8 \<noteq> 0 then 1 else 0) \<le> length bytes"
    using assms(2) unfolding ceil_div_8 .
  have c: "bv_count bv div 8 + (if bv_count bv mod 8 \<noteq> 0 then 1 else 0) \<le> length (bv_buckets bv)"
    using assms(1) by (auto simp: bv_wf_def CFBitVectorNumBuckets_def div_le_mono le_SucI)
  note copy = Init_refines [OF c, folded bv_bits_def]
  show ?thesis
    unfolding CFBitVectorCreate_def CFBitVectorCreateCopy_def CFBitVectorCreateMutableCopy_def
    using Init_refines [OF n, of kCFBitVectorImmutable] copy [of kCFBitVectorImmutable]
      copy [of kCFBitVectorMutable] by blast
qed

theorem bit_create_and_copy_witness:
  "\<exists>bv'. CFBitVectorCreateMutableCopy 0 sample_bv = Some bv' \<and> bv_wf bv' \<and>
     bv_bits bv' = bv_bits sample_bv"
  using bit_create_and_copy [OF sample_bv_wf, of 12 "[1, 2]" 0] by simp

end
