(* ===== verification/CF_BinaryHeap.thy ===== *)
theory CF_BinaryHeap
  imports CF_Compare
begin

text \<open>
  CFBinaryHeap.c.  The heap is an array of object pointers with the usual shape: the children of
  bucket \<open>i\<close> are buckets \<open>2i+1\<close> and \<open>2i+2\<close>.  Objects are compared with the \<open>compare\<close> callback, or by
  address when there is none; \<open>retain\<close> supplies the pointer that is stored.  The calls made to the
  callbacks are recorded in the ghost field \<open>hp_trace\<close>.
\<close>

subsection \<open>State\<close>

record ('a, 'c) CFBinaryHeap =
  hp_cfinfo :: "8 word"
  hp_count :: nat
  hp_capacity :: nat
  hp_retain :: "('a \<Rightarrow> 'a) callback option"
  hp_release :: "unit callback option"
  hp_compare :: "('a \<Rightarrow> 'a \<Rightarrow> 'c \<Rightarrow> CFComparisonResult) callback option"
  hp_info :: 'c
  hp_buckets :: "'a list"
  hp_trace :: "'a cb_event list"

definition kCFBinaryHeapMutable :: "32 word" where
  "kCFBinaryHeapMutable = 1"

definition CFBinaryHeapMutableVariety :: "('a, 'c) CFBinaryHeap \<Rightarrow> 32 word" where
  "CFBinaryHeapMutableVariety h = CFBitfieldGetValue (hp_cfinfo h) 3 2"

definition CFBinaryHeapSetMutableVariety :: "('a, 'c) CFBinaryHeap \<Rightarrow> 32 word \<Rightarrow> ('a, 'c) CFBinaryHeap" where
  "CFBinaryHeapSetMutableVariety h v = h\<lparr>hp_cfinfo := CFBitfieldSetValue (hp_cfinfo h) 3 2 v\<rparr>"

text \<open>
  \<open>1 << flsl(capacity)\<close> is computed in \<open>int\<close>: from \<open>2^30\<close> on the shift reaches the sign bit and the
  result is negative (or zero).
\<close>

definition CFBinaryHeapRoundUpCapacity :: "nat \<Rightarrow> int" where
  "CFBinaryHeapRoundUpCapacity capacity =
     (if capacity < 4 then 4 else sint (push_bit (flsl capacity) (1 :: 32 word)))"

text \<open>The comparison both loops use.\<close>

definition heap_gt :: "('a::linorder, 'c) CFBinaryHeap \<Rightarrow> 'a \<Rightarrow> 'a \<Rightarrow> bool" where
  "heap_gt h item item2 = (case hp_compare h of
       None \<Rightarrow> item > item2
     | Some compare \<Rightarrow> kCFCompareGreaterThan = cb_fun compare item item2 (hp_info h))"

definition heap_equal_to :: "('a, 'c) CFBinaryHeap \<Rightarrow> 'a \<Rightarrow> 'a \<Rightarrow> bool" where
  "heap_equal_to h v item = (case hp_compare h of
       None \<Rightarrow> False
     | Some compare \<Rightarrow> kCFCompareEqualTo = cb_fun compare v item (hp_info h))"

subsection \<open>Queries\<close>

definition CFBinaryHeapGetCount :: "('a, 'c) CFBinaryHeap \<Rightarrow> nat" where
  "CFBinaryHeapGetCount h = hp_count h"

fun count_value_loop :: "('a, 'c) CFBinaryHeap \<Rightarrow> 'a \<Rightarrow> nat \<Rightarrow> nat \<Rightarrow> nat \<Rightarrow> nat option" where
  "count_value_loop h v idx 0 cnt = Some cnt"
| "count_value_loop h v idx (Suc n) cnt =
     do { item \<leftarrow> rd (hp_buckets h) idx;
          count_value_loop h v (idx + 1) n (if v = item \<or> heap_equal_to h v item then cnt + 1 else cnt) }"

definition CFBinaryHeapGetCountOfValue :: "('a, 'c) CFBinaryHeap \<Rightarrow> 'a \<Rightarrow> nat option" where
  "CFBinaryHeapGetCountOfValue h v = count_value_loop h v 0 (hp_count h) 0"

fun contains_value_loop :: "('a, 'c) CFBinaryHeap \<Rightarrow> 'a \<Rightarrow> nat \<Rightarrow> nat \<Rightarrow> bool option" where
  "contains_value_loop h v idx 0 = Some False"
| "contains_value_loop h v idx (Suc n) =
     do { item \<leftarrow> rd (hp_buckets h) idx;
          if v = item \<or> heap_equal_to h v item then Some True
          else contains_value_loop h v (idx + 1) n }"

definition CFBinaryHeapContainsValue :: "('a, 'c) CFBinaryHeap \<Rightarrow> 'a \<Rightarrow> bool option" where
  "CFBinaryHeapContainsValue h v = contains_value_loop h v 0 (hp_count h)"

text \<open>The inner \<open>None\<close> is the NULL the function returns for an empty heap.\<close>

definition CFBinaryHeapGetMinimum :: "('a, 'c) CFBinaryHeap \<Rightarrow> 'a option option" where
  "CFBinaryHeapGetMinimum h =
     (if 0 < hp_count h then do { item \<leftarrow> rd (hp_buckets h) 0; Some (Some item) } else Some None)"

definition CFBinaryHeapGetMinimumIfPresent :: "('a, 'c) CFBinaryHeap \<Rightarrow> (bool \<times> 'a option) option" where
  "CFBinaryHeapGetMinimumIfPresent h =
     (if 0 = hp_count h then Some (False, None)
      else do { item \<leftarrow> rd (hp_buckets h) 0; Some (True, Some item) })"

subsection \<open>Growing and adding\<close>

text \<open>
  \<open>__CFBinaryHeapGrow\<close>: a reallocation to a capacity that is not positive is a request the
  allocator refuses, and the code halts.  \<open>fresh\<close> is what the new buckets contain.
\<close>

definition CFBinaryHeapGrow ::
  "(nat \<Rightarrow> 'a) \<Rightarrow> ('a, 'c) CFBinaryHeap \<Rightarrow> nat \<Rightarrow> ('a, 'c) CFBinaryHeap option" where
  "CFBinaryHeapGrow fresh h numNewValues =
     (let oldCount = hp_count h;
          capacity = CFBinaryHeapRoundUpCapacity (oldCount + numNewValues)
      in if capacity \<le> 0 then None
         else (let n = nat capacity; old = hp_buckets h
               in Some (h\<lparr>hp_capacity := n,
                          hp_buckets := take n old @ map fresh [length old..<n]\<rparr>)))"

function sift_up :: "('a \<Rightarrow> 'a \<Rightarrow> bool) \<Rightarrow> 'a list \<Rightarrow> 'a \<Rightarrow> nat \<Rightarrow> ('a list \<times> nat) option" where
  "sift_up gt buckets v idx =
     (if 0 < idx
      then (let pidx = (idx - 1) div 2 in
        do { item \<leftarrow> rd buckets pidx;
             if \<not> gt item v then Some (buckets, idx)
             else do { buckets \<leftarrow> wr buckets idx item; sift_up gt buckets v pidx } })
      else Some (buckets, idx))"
  by pat_completeness auto
termination
  by (relation "measure (\<lambda>(_, _, _, idx). idx)") auto

definition CFBinaryHeapAddValue ::
  "(nat \<Rightarrow> 'a) \<Rightarrow> ('a::linorder, 'c) CFBinaryHeap \<Rightarrow> 'a \<Rightarrow> ('a, 'c) CFBinaryHeap option" where
  "CFBinaryHeapAddValue fresh h v =
     do { h \<leftarrow> (if CFBinaryHeapMutableVariety h = kCFBinaryHeapMutable \<and> hp_count h = hp_capacity h
                then CFBinaryHeapGrow fresh h 1 else Some h);
          let cnt = hp_count h;
          let h = h\<lparr>hp_count := cnt + 1\<rparr>;
          (buckets, idx) \<leftarrow> sift_up (heap_gt h) (hp_buckets h) v cnt;
          (case hp_retain h of
             Some retain \<Rightarrow>
               do { buckets \<leftarrow> wr buckets idx (cb_fun retain v);
                    Some (h\<lparr>hp_buckets := buckets, hp_trace := hp_trace h @ [Retained v]\<rparr>) }
           | None \<Rightarrow>
               do { buckets \<leftarrow> wr buckets idx v; Some (h\<lparr>hp_buckets := buckets\<rparr>) }) }"

subsection \<open>Removing\<close>

function sift_down ::
  "('a \<Rightarrow> 'a \<Rightarrow> bool) \<Rightarrow> nat \<Rightarrow> 'a list \<Rightarrow> 'a \<Rightarrow> nat \<Rightarrow> ('a list \<times> nat) option" where
  "sift_down gt cnt buckets val idx =
     (let cidx = idx * 2 + 1 in
      if cidx < cnt
      then do {
        item \<leftarrow> rd buckets cidx;
        (cidx, item) \<leftarrow>
          (if cidx + 1 < cnt
           then do { item2 \<leftarrow> rd buckets (cidx + 1);
                     Some (if gt item item2 then (cidx + 1, item2) else (cidx, item)) }
           else Some (cidx, item));
        if gt item val then Some (buckets, idx)
        else do { buckets \<leftarrow> wr buckets idx item; sift_down gt cnt buckets val cidx } }
      else Some (buckets, idx))"
  by pat_completeness auto
termination
  by (relation "measure (\<lambda>(_, cnt, _, _, idx). cnt - idx)")
     (auto simp: Option.bind_eq_Some_conv split: if_splits)


declare sift_up.simps [simp del] sift_down.simps [simp del]

definition CFBinaryHeapRemoveMinimumValue ::
  "('a::linorder, 'c) CFBinaryHeap \<Rightarrow> ('a, 'c) CFBinaryHeap option" where
  "CFBinaryHeapRemoveMinimumValue h =
     (let cnt = hp_count h in
      if 0 = cnt then Some h
      else do {
        let h = h\<lparr>hp_count := cnt - 1\<rparr>;
        h \<leftarrow> (case hp_release h of
                Some _ \<Rightarrow> do { item \<leftarrow> rd (hp_buckets h) 0;
                               Some (h\<lparr>hp_trace := hp_trace h @ [Released item]\<rparr>) }
              | None \<Rightarrow> Some h);
        val \<leftarrow> rd (hp_buckets h) (cnt - 1);
        (buckets, idx) \<leftarrow> sift_down (heap_gt h) (hp_count h) (hp_buckets h) val 0;
        buckets \<leftarrow> wr buckets idx val;
        Some (h\<lparr>hp_buckets := buckets\<rparr>) })"

fun release_loop :: "'a list \<Rightarrow> nat \<Rightarrow> nat \<Rightarrow> 'a cb_event list option" where
  "release_loop buckets idx 0 = Some []"
| "release_loop buckets idx (Suc n) =
     do { item \<leftarrow> rd buckets idx; es \<leftarrow> release_loop buckets (idx + 1) n; Some (Released item # es) }"

definition CFBinaryHeapRemoveAllValues :: "('a, 'c) CFBinaryHeap \<Rightarrow> ('a, 'c) CFBinaryHeap option" where
  "CFBinaryHeapRemoveAllValues h =
     (let cnt = hp_count h in
      do { es \<leftarrow> (case hp_release h of Some _ \<Rightarrow> release_loop (hp_buckets h) 0 cnt | None \<Rightarrow> Some []);
           Some (h\<lparr>hp_trace := hp_trace h @ es, hp_count := 0\<rparr>) })"

subsection \<open>Creation and copies\<close>

fun add_values ::
  "(nat \<Rightarrow> 'a) \<Rightarrow> ('a::linorder, 'c) CFBinaryHeap \<Rightarrow> 'a list \<Rightarrow> nat \<Rightarrow> nat \<Rightarrow>
     ('a, 'c) CFBinaryHeap option" where
  "add_values fresh h values idx 0 = Some h"
| "add_values fresh h values idx (Suc n) =
     do { v \<leftarrow> rd values idx;
          h \<leftarrow> CFBinaryHeapAddValue fresh h v;
          add_values fresh h values (idx + 1) n }"

text \<open>
  \<open>__CFBinaryHeapInit\<close>.  The capacity argument is not used; a fresh heap has room for
  \<open>RoundUpCapacity(1) = 4\<close> objects.  The callbacks are copied, a NULL callback structure giving a
  heap without callbacks.
\<close>

definition CFBinaryHeapInit ::
  "(nat \<Rightarrow> 'a) \<Rightarrow> 'a list \<Rightarrow> nat \<Rightarrow> ('a \<Rightarrow> 'a) callback option \<Rightarrow> unit callback option \<Rightarrow>
     ('a \<Rightarrow> 'a \<Rightarrow> 'c \<Rightarrow> CFComparisonResult) callback option \<Rightarrow> 'c \<Rightarrow> ('a::linorder, 'c) CFBinaryHeap option" where
  "CFBinaryHeapInit fresh values numValues retain release compare info =
     (let capacity = nat (CFBinaryHeapRoundUpCapacity 1);
          memory = \<lparr>hp_cfinfo = 0, hp_count = 0, hp_capacity = capacity, hp_retain = retain,
                    hp_release = release, hp_compare = compare, hp_info = info,
                    hp_buckets = map fresh [0..<capacity], hp_trace = []\<rparr>;
          memory = CFBinaryHeapSetMutableVariety memory kCFBinaryHeapMutable
      in do { memory \<leftarrow> add_values fresh memory values 0 numValues;
              Some (CFBinaryHeapSetMutableVariety memory kCFBinaryHeapMutable) })"

definition CFBinaryHeapCreateCopy ::
  "(nat \<Rightarrow> 'a) \<Rightarrow> ('a::linorder, 'c) CFBinaryHeap \<Rightarrow> ('a, 'c) CFBinaryHeap option" where
  "CFBinaryHeapCreateCopy fresh h =
     CFBinaryHeapInit fresh (hp_buckets h) (hp_count h) (hp_retain h) (hp_release h)
       (hp_compare h) (hp_info h)"

lemma RemoveMinimumValue_count:
  "CFBinaryHeapRemoveMinimumValue h = Some h' \<Longrightarrow> hp_count h' = hp_count h - 1"
  by (auto simp: CFBinaryHeapRemoveMinimumValue_def Let_def option_bind_eq_Some
      split: if_splits option.splits)

text \<open>The loop of \<open>CFBinaryHeapGetValues\<close> and of \<open>CFBinaryHeapApplyFunction\<close>: empty the copy.\<close>

function drain :: "('a::linorder, 'c) CFBinaryHeap \<Rightarrow> 'a list option" where
  "drain heapCopy =
     (if 0 < hp_count heapCopy
      then do { v \<leftarrow> CFBinaryHeapGetMinimum heapCopy;
                v \<leftarrow> v;
                heapCopy' \<leftarrow> CFBinaryHeapRemoveMinimumValue heapCopy;
                rest \<leftarrow> drain heapCopy';
                Some (v # rest) }
      else Some [])"
  by pat_completeness auto
termination
  by (relation "measure hp_count") (auto dest!: RemoveMinimumValue_count)

declare drain.simps [simp del]

text \<open>
  \<open>CFBinaryHeapGetValues\<close> returns what it stores into \<open>values\<close>, \<open>CFBinaryHeapApplyFunction\<close> the
  arguments it applies the function to, in order.
\<close>

definition CFBinaryHeapGetValues ::
  "(nat \<Rightarrow> 'a) \<Rightarrow> ('a::linorder, 'c) CFBinaryHeap \<Rightarrow> 'a list option" where
  "CFBinaryHeapGetValues fresh h =
     (if 0 = hp_count h then Some []
      else do { heapCopy \<leftarrow> CFBinaryHeapCreateCopy fresh h; drain heapCopy })"

definition CFBinaryHeapApplyFunction ::
  "(nat \<Rightarrow> 'a) \<Rightarrow> ('a::linorder, 'c) CFBinaryHeap \<Rightarrow> 'a list option" where
  "CFBinaryHeapApplyFunction fresh h =
     (if 0 = hp_count h then Some []
      else do { heapCopy \<leftarrow> CFBinaryHeapCreateCopy fresh h; drain heapCopy })"

fun heap_equal_loop ::
  "('a \<Rightarrow> 'a \<Rightarrow> 'c \<Rightarrow> CFComparisonResult) callback option \<Rightarrow> 'c \<Rightarrow> 'a list \<Rightarrow> 'a list \<Rightarrow> bool" where
  "heap_equal_loop compare info (val1 # list1) (val2 # list2) =
     (if val1 \<noteq> val2 then
        (case compare of
           None \<Rightarrow> False
         | Some compare \<Rightarrow>
             if cb_fun compare val1 val2 info = 0 then False
             else heap_equal_loop (Some compare) info list1 list2)
      else heap_equal_loop compare info list1 list2)"
| "heap_equal_loop compare info _ _ = True"

definition CFBinaryHeapEqual ::
  "(nat \<Rightarrow> 'a) \<Rightarrow> ('a::linorder, 'c) CFBinaryHeap \<Rightarrow> ('a, 'c) CFBinaryHeap \<Rightarrow> bool option" where
  "CFBinaryHeapEqual fresh heap1 heap2 =
     (let cnt = hp_count heap1 in
      if cnt \<noteq> hp_count heap2 then Some False
      else if map_option cb_addr (hp_compare heap1) \<noteq> map_option cb_addr (hp_compare heap2) then Some False
      else if 0 = cnt then Some True
      else do { list1 \<leftarrow> CFBinaryHeapGetValues fresh heap1;
                list2 \<leftarrow> CFBinaryHeapGetValues fresh heap2;
                Some (heap_equal_loop (hp_compare heap1) (hp_info heap1) list1 list2) })"

definition CFBinaryHeapHash :: "('a, 'c) CFBinaryHeap \<Rightarrow> nat" where
  "CFBinaryHeapHash h = hp_count h"


subsection \<open>The heap order\<close>

definition parent :: "nat \<Rightarrow> nat" where
  "parent i = (i - 1) div 2"

lemma parent_fold [simp]: "(i - 1) div 2 = parent i" "(i - Suc 0) div 2 = parent i"
  by (simp_all add: parent_def)

lemma parent_less: "0 < i \<Longrightarrow> parent i < i"
  unfolding parent_def by linarith

lemma parent_iff: "0 < j \<Longrightarrow> parent j = i \<longleftrightarrow> j = 2 * i + 1 \<or> j = 2 * i + 2"
  unfolding parent_def by presburger

definition heap_upto :: "('a \<Rightarrow> 'a \<Rightarrow> bool) \<Rightarrow> 'a list \<Rightarrow> nat \<Rightarrow> bool" where
  "heap_upto gt xs n \<longleftrightarrow> (\<forall>i < n. 0 < i \<longrightarrow> \<not> gt (xs ! (parent i)) (xs ! i))"

lemma heap_upto_cong:
  assumes "\<And>i. i < n \<Longrightarrow> xs ! i = ys ! i"
  shows "heap_upto gt xs n = heap_upto gt ys n"
  using assms parent_less unfolding heap_upto_def by (metis (no_types, lifting) less_trans)

text \<open>
  Both loops move a hole at \<open>i\<close>: away from the hole the heap order holds, the children of the hole
  are not below the parent of the hole, and \<open>v\<close> may be put in the hole as far as its children
  (upwards) or its parent (downwards) are concerned.
\<close>

definition hole :: "('a \<Rightarrow> 'a \<Rightarrow> bool) \<Rightarrow> 'a list \<Rightarrow> nat \<Rightarrow> nat \<Rightarrow> bool" where
  "hole gt xs n i \<longleftrightarrow> n \<le> length xs \<and>
     (\<forall>j < n. 0 < j \<longrightarrow> j \<noteq> i \<longrightarrow> parent j \<noteq> i \<longrightarrow> \<not> gt (xs ! (parent j)) (xs ! j)) \<and>
     (\<forall>j < n. 0 < j \<longrightarrow> 0 < i \<longrightarrow> parent j = i \<longrightarrow> \<not> gt (xs ! (parent i)) (xs ! j))"

definition above_children :: "('a \<Rightarrow> 'a \<Rightarrow> bool) \<Rightarrow> 'a list \<Rightarrow> nat \<Rightarrow> 'a \<Rightarrow> nat \<Rightarrow> bool" where
  "above_children gt xs n v i \<longleftrightarrow> (\<forall>j < n. 0 < j \<longrightarrow> parent j = i \<longrightarrow> \<not> gt v (xs ! j))"

definition below_parent :: "('a \<Rightarrow> 'a \<Rightarrow> bool) \<Rightarrow> 'a list \<Rightarrow> 'a \<Rightarrow> nat \<Rightarrow> bool" where
  "below_parent gt xs v i \<longleftrightarrow> (0 < i \<longrightarrow> \<not> gt (xs ! (parent i)) v)"

lemma fill_hole:
  assumes "hole gt xs n i" "above_children gt xs n v i" "below_parent gt xs v i"
  shows "heap_upto gt (xs[i := v]) n"
  unfolding heap_upto_def
proof (intro allI impI)
  fix j assume j: "j < n" "0 < j"
  have len: "j < length xs" "parent j < j" using assms(1) j parent_less by (auto simp: hole_def)
  consider "j = i" | "parent j = i" "j \<noteq> i" | "j \<noteq> i" "parent j \<noteq> i" by blast
  then show "\<not> gt (xs[i := v] ! (parent j)) (xs[i := v] ! j)"
  proof cases
    case 1
    then show ?thesis using assms(3) len j by (auto simp: below_parent_def)
  next
    case 2
    then show ?thesis using assms(2) len j by (auto simp: above_children_def)
  next
    case 3
    then show ?thesis using assms(1) j by (auto simp: hole_def)
  qed
qed

lemma mset_move_hole:
  assumes "i < n" "p < n" "i \<noteq> p" "n \<le> length xs"
  shows "mset (take n (xs[i := xs ! p, p := v])) = mset (take n (xs[i := v]))"
proof -
  have "xs ! p \<in># mset (take n xs)" using assms by (metis in_set_conv_nth length_take min.absorb2 nth_take set_mset_mset)
  then show ?thesis
    using assms by (simp add: mset_take_update)
qed

text \<open>What both loops achieve: \<open>v\<close> may be stored at \<open>k\<close>, and the buckets are the same multiset.\<close>

definition sifted ::
  "('a \<Rightarrow> 'a \<Rightarrow> bool) \<Rightarrow> nat \<Rightarrow> 'a \<Rightarrow> 'a list \<Rightarrow> nat \<Rightarrow> 'a list \<Rightarrow> nat \<Rightarrow> bool" where
  "sifted gt n v xs i ys k \<longleftrightarrow> k < n \<and> length ys = length xs \<and>
     hole gt ys n k \<and> above_children gt ys n v k \<and> below_parent gt ys v k \<and>
     (\<forall>w. mset (take n (ys[k := w])) = mset (take n (xs[i := w])))"

lemma sifted_move:
  assumes "sifted gt n v (xs[i := xs ! p]) p ys k" "i < n" "p < n" "i \<noteq> p" "n \<le> length xs"
  shows "sifted gt n v xs i ys k"
  using assms mset_move_hole [OF assms(2-5)] by (simp add: sifted_def)

context heap_order begin

lemma hole_up:
  assumes "hole gt xs n i" "above_children gt xs n v i" "0 < i" "i < n"
    and "gt (xs ! (parent i)) v"
  shows "hole gt (xs[i := xs ! (parent i)]) n (parent i)"
    and "above_children gt (xs[i := xs ! (parent i)]) n v (parent i)"
proof -
  let ?p = "parent i" and ?xs = "xs[i := xs ! (parent i)]"
  have p: "?p < i" using assms(3) by (rule parent_less)
  have len: "n \<le> length xs" using assms(1) by (simp add: hole_def)
  have ord: "\<not> gt (xs ! (parent j)) (xs ! j)"
    if "j < n" "0 < j" "j \<noteq> i" "parent j \<noteq> i" for j
    using assms(1) that by (auto simp: hole_def)
  have child: "\<not> gt (xs ! ?p) (xs ! j)" if "j < n" "0 < j" "parent j = i" for j
    using assms(1,3) that by (auto simp: hole_def)
  have sib: "\<not> gt (xs ! ?p) (?xs ! j)" if "j < n" "0 < j" "parent j = ?p" for j
    using that ord [of j] p le_refl assms(4) len by (cases "j = i") auto
  have "\<not> gt (?xs ! (parent j)) (?xs ! j)"
    if "j < n" "0 < j" "j \<noteq> ?p" "parent j \<noteq> ?p" for j
  proof (cases "parent j = i")
    case True
    moreover have "j \<noteq> i" using True parent_less [OF that(2)] by auto
    ultimately show ?thesis using child that assms(4) len by auto
  next
    case False
    then have "j \<noteq> i" using that by auto
    then show ?thesis using False ord that by simp
  qed
  moreover have "\<not> gt (?xs ! (parent ?p)) (?xs ! j)"
    if "j < n" "0 < j" "0 < ?p" "parent j = ?p" for j
  proof -
    have q: "parent ?p < ?p" using that(3) by (rule parent_less)
    then have "\<not> gt (xs ! (parent ?p)) (xs ! ?p)" using ord [of ?p] that p assms(4) by auto
    moreover have "?xs ! (parent ?p) = xs ! (parent ?p)" using p q by auto
    ultimately show ?thesis using sib [OF that(1,2,4)] le_trans by metis
  qed
  ultimately show "hole gt ?xs n ?p" using len by (auto simp: hole_def)
  show "above_children gt ?xs n v ?p"
    unfolding above_children_def using sib assms(5) gt_le_trans by blast
qed

lemma sift_up_correct:
  "hole gt xs n i \<Longrightarrow> above_children gt xs n v i \<Longrightarrow> i < n \<Longrightarrow>
    \<exists>ys k. sift_up gt xs v i = Some (ys, k) \<and> sifted gt n v xs i ys k"
proof (induction i arbitrary: xs rule: less_induct)
  case (less i)
  show ?case
  proof (cases "0 < i \<and> gt (xs ! parent i) v")
    case False
    then have "sift_up gt xs v i = Some (xs, i)"
      using less.prems parent_less [of i]
      by (auto simp: sift_up.simps [of gt xs v i] hole_def cf_mem Let_def)
    with False less.prems show ?thesis by (auto simp: below_parent_def sifted_def)
  next
    case True
    let ?xs = "xs[i := xs ! parent i]"
    have p: "parent i < i" and len: "n \<le> length xs"
      using True less.prems parent_less by (auto simp: hole_def)
    have step: "sift_up gt xs v i = sift_up gt ?xs v (parent i)"
      using True less.prems p len
      by (simp add: sift_up.simps [of gt xs v i] cf_mem Let_def)
    have "\<exists>ys k. sift_up gt ?xs v (parent i) = Some (ys, k) \<and> sifted gt n v ?xs (parent i) ys k"
      using hole_up [OF less.prems(1,2)] True less.prems(3) p by (intro less.IH) simp_all
    then show ?thesis unfolding step using sifted_move p less.prems(3) len
      by (metis less_trans nat_neq_iff)
  qed
qed

lemma hole_down:
  assumes "hole gt xs n i" "c < n" "0 < c" "parent c = i"
    and least: "\<And>j. j < n \<Longrightarrow> 0 < j \<Longrightarrow> parent j = i \<Longrightarrow> \<not> gt (xs ! c) (xs ! j)"
  shows "hole gt (xs[i := xs ! c]) n c"
proof -
  let ?xs = "xs[i := xs ! c]"
  have i: "i < c" using parent_less [OF assms(3)] assms(4) by simp
  have len: "n \<le> length xs" using assms(1) by (simp add: hole_def)
  have ord: "\<not> gt (xs ! (parent j)) (xs ! j)"
    if "j < n" "0 < j" "j \<noteq> i" "parent j \<noteq> i" for j
    using assms(1) that by (auto simp: hole_def)
  have "\<not> gt (?xs ! (parent j)) (?xs ! j)"
    if "j < n" "0 < j" "j \<noteq> c" "parent j \<noteq> c" for j
  proof -
    have pj: "parent j < j" using that(2) by (rule parent_less)
    consider "j = i" | "j \<noteq> i" "parent j = i" | "j \<noteq> i" "parent j \<noteq> i" by blast
    then show ?thesis
    proof cases
      case 1
      then have "\<not> gt (xs ! (parent i)) (xs ! c)" using assms(1-4) that by (auto simp: hole_def)
      then show ?thesis using 1 pj that len by auto
    next
      case 2
      moreover have "j < length xs" "parent j < length xs" using that len pj by auto
      ultimately show ?thesis using least [of j] that by simp
    next
      case 3
      then show ?thesis using ord [of j] that by auto
    qed
  qed
  moreover have "\<not> gt (?xs ! i) (?xs ! j)" if "j < n" "0 < j" "parent j = c" for j
  proof -
    have "j \<noteq> i" using parent_less [OF that(2)] that(3) i by auto
    then show ?thesis using ord [of j] that i len assms(2) by auto
  qed
  ultimately show ?thesis using len assms(4) by (auto simp: hole_def)
qed

text \<open>The child the loop goes down to.\<close>

lemma least_child:
  assumes "2 * i + 1 < n" "c = (if 2 * i + 2 < n \<and> gt (xs ! (2 * i + 1)) (xs ! (2 * i + 2)) then 2 * i + 2 else 2 * i + 1)"
  shows "c < n" "0 < c" "parent c = i"
    and "\<And>j. j < n \<Longrightarrow> 0 < j \<Longrightarrow> parent j = i \<Longrightarrow> \<not> gt (xs ! c) (xs ! j)"
  using assms gt_asym le_refl by (auto simp: parent_iff)

lemma sift_down_step:
  assumes "n \<le> length xs" "2 * i + 1 < n"
    and "c = (if 2 * i + 2 < n \<and> gt (xs ! (2 * i + 1)) (xs ! (2 * i + 2)) then 2 * i + 2 else 2 * i + 1)"
  shows "sift_down gt n xs v i =
    (if gt (xs ! c) v then Some (xs, i) else sift_down gt n (xs[i := xs ! c]) v c)"
  using assms by (auto simp: sift_down.simps [of gt n xs v i] Let_def cf_mem mult.commute)

lemma sift_down_stop: "\<not> 2 * i + 1 < n \<Longrightarrow> sift_down gt n xs v i = Some (xs, i)"
  by (simp add: sift_down.simps [of gt n xs v i] mult.commute)

lemma sift_down_correct:
  "hole gt xs n i \<Longrightarrow> below_parent gt xs v i \<Longrightarrow> i < n \<Longrightarrow>
    \<exists>ys k. sift_down gt n xs v i = Some (ys, k) \<and> sifted gt n v xs i ys k"
proof (induction "n - i" arbitrary: i xs rule: less_induct)
  case less
  have len: "n \<le> length xs" using less.prems by (simp add: hole_def)
  show ?case
  proof (cases "2 * i + 1 < n")
    case False
    then have "above_children gt xs n v i" by (auto simp: above_children_def parent_iff)
    with False less.prems show ?thesis by (auto simp: sift_down_stop sifted_def)
  next
    case True
    define c where "c = (if 2 * i + 2 < n \<and> gt (xs ! (2 * i + 1)) (xs ! (2 * i + 2))
      then 2 * i + 2 else 2 * i + 1)"
    note c = least_child [OF True c_def]
    note step = sift_down_step [OF len True c_def]
    show ?thesis
    proof (cases "gt (xs ! c) v")
      case True
      then have "above_children gt xs n v i"
        using c(4) gt_asym le_trans unfolding above_children_def by blast
      with True less.prems step show ?thesis by (auto simp: sifted_def)
    next
      case False
      let ?xs = "xs[i := xs ! c]"
      have ic: "i < c" using parent_less [OF c(2)] c(3) by simp
      have "below_parent gt ?xs v c"
        unfolding below_parent_def c(3) using False len less.prems(3) by simp
      moreover have "n - c < n - i" using ic c(1) by simp
      ultimately have "\<exists>ys k. sift_down gt n ?xs v c = Some (ys, k) \<and> sifted gt n v ?xs c ys k"
        using hole_down [OF less.prems(1) c] c(1) less.hyps [of c ?xs] by blast
      then show ?thesis using step False sifted_move [of gt n v xs i c] c(1) ic len less.prems(3)
        by (metis nat_neq_iff)
    qed
  qed
qed

end

subsection \<open>The heap as a whole\<close>

text \<open>
  The invariant: the storage fits the counters, the heap order holds on the used buckets, the
  comparison is a strict weak order, and what \<open>retain\<close> returns compares like its argument.
\<close>

definition retain_compatible :: "('a::linorder, 'c) CFBinaryHeap \<Rightarrow> bool" where
  "retain_compatible h \<longleftrightarrow> (case hp_retain h of None \<Rightarrow> True
     | Some retain \<Rightarrow> \<forall>x y. heap_gt h (cb_fun retain x) y = heap_gt h x y \<and>
                            heap_gt h y (cb_fun retain x) = heap_gt h y x)"

definition heap_storage :: "('a::linorder, 'c) CFBinaryHeap \<Rightarrow> bool" where
  "heap_storage h \<longleftrightarrow> CFBinaryHeapMutableVariety h = kCFBinaryHeapMutable \<and>
     length (hp_buckets h) = hp_capacity h \<and> hp_count h \<le> hp_capacity h \<and>
     heap_upto (heap_gt h) (hp_buckets h) (hp_count h)"

definition heap_inv :: "('a::linorder, 'c) CFBinaryHeap \<Rightarrow> bool" where
  "heap_inv h \<longleftrightarrow> heap_order (heap_gt h) \<and> retain_compatible h \<and> heap_storage h"

definition heap_values :: "('a, 'c) CFBinaryHeap \<Rightarrow> 'a list" where
  "heap_values h = take (hp_count h) (hp_buckets h)"

definition heap_mset :: "('a, 'c) CFBinaryHeap \<Rightarrow> 'a multiset" where
  "heap_mset h = mset (heap_values h)"

definition stored_value :: "('a, 'c) CFBinaryHeap \<Rightarrow> 'a \<Rightarrow> 'a" where
  "stored_value h v = (case hp_retain h of None \<Rightarrow> v | Some retain \<Rightarrow> cb_fun retain v)"

definition same_callbacks :: "('a, 'c) CFBinaryHeap \<Rightarrow> ('a, 'c) CFBinaryHeap \<Rightarrow> bool" where
  "same_callbacks h h' \<longleftrightarrow> hp_retain h' = hp_retain h \<and> hp_release h' = hp_release h \<and>
     hp_compare h' = hp_compare h \<and> hp_info h' = hp_info h"

lemma same_callbacks_refl [simp]: "same_callbacks h h"
  by (simp add: same_callbacks_def)

lemma same_callbacks_trans: "same_callbacks h h' \<Longrightarrow> same_callbacks h' h'' \<Longrightarrow> same_callbacks h h''"
  by (simp add: same_callbacks_def)

lemma heap_gt_cong: "same_callbacks h h' \<Longrightarrow> heap_gt h' = heap_gt h"
  by (auto simp: same_callbacks_def heap_gt_def fun_eq_iff split: option.split)

lemma heap_inv_cong:
  "same_callbacks h h' \<Longrightarrow> heap_inv h \<Longrightarrow> heap_inv h' \<longleftrightarrow> heap_storage h'"
  using heap_gt_cong [of h h']
  by (auto simp: heap_inv_def retain_compatible_def same_callbacks_def split: option.splits)

lemma stored_value_cong: "same_callbacks h h' \<Longrightarrow> stored_value h' = stored_value h"
  by (simp add: same_callbacks_def stored_value_def fun_eq_iff)

lemma stored_value_gt:
  "retain_compatible h \<Longrightarrow> heap_gt h (stored_value h x) y = heap_gt h x y"
  "retain_compatible h \<Longrightarrow> heap_gt h y (stored_value h x) = heap_gt h y x"
  by (auto simp: retain_compatible_def stored_value_def split: option.splits)

lemma heap_upto_hole:
  "heap_upto gt xs n \<Longrightarrow> n \<le> length xs \<Longrightarrow> m \<le> n \<Longrightarrow> i = 0 \<or> m \<le> i \<Longrightarrow> hole gt xs m i"
  by (auto simp: heap_upto_def hole_def) (metis parent_less not_less_iff_gr_or_eq order.strict_trans2 less_trans)+

subsubsection \<open>Growth\<close>

lemma RoundUpCapacity_eq:
  "n < 2 ^ 30 \<Longrightarrow> CFBinaryHeapRoundUpCapacity n = (if n < 4 then 4 else 2 ^ flsl n)"
  by (simp only: CFBinaryHeapRoundUpCapacity_def sint_shifted_one flsl_le)

lemma RoundUpCapacity_greater: "n < 2 ^ 30 \<Longrightarrow> int n < CFBinaryHeapRoundUpCapacity n"
  using flsl_upper [of n] by (simp add: RoundUpCapacity_eq)

lemma Grow_correct:
  assumes "heap_inv h" "hp_count h = hp_capacity h" "hp_count h + 1 < 2 ^ 30"
  shows "\<exists>h'. CFBinaryHeapGrow fresh h 1 = Some h' \<and> heap_inv h' \<and> same_callbacks h h' \<and>
    hp_trace h' = hp_trace h \<and> hp_count h' = hp_count h \<and> heap_values h' = heap_values h \<and>
    hp_count h' < hp_capacity h'"
proof -
  define c where "c = nat (CFBinaryHeapRoundUpCapacity (hp_count h + 1))"
  have c: "hp_count h + 1 < c" "\<not> CFBinaryHeapRoundUpCapacity (hp_count h + 1) \<le> 0"
    using RoundUpCapacity_greater [OF assms(3)] by (simp_all add: c_def)
  let ?h = "h\<lparr>hp_capacity := c, hp_buckets := take c (hp_buckets h) @ map fresh [length (hp_buckets h)..<c]\<rparr>"
  have grow: "CFBinaryHeapGrow fresh h 1 = Some ?h"
    using c by (simp add: CFBinaryHeapGrow_def Let_def c_def)
  have cb: "same_callbacks h ?h" by (simp add: same_callbacks_def)
  have len: "length (hp_buckets h) = hp_count h" using assms by (simp add: heap_inv_def heap_storage_def)
  have old: "hp_buckets ?h ! i = hp_buckets h ! i" if "i < hp_count h" for i
    using that c len by (simp add: nth_append)
  have "heap_upto (heap_gt ?h) (hp_buckets ?h) (hp_count ?h)"
    using assms(1) heap_upto_cong [of "hp_count h" "hp_buckets ?h" "hp_buckets h"] old
      heap_gt_cong [OF cb]
    by (simp add: heap_inv_def heap_storage_def)
  then have "heap_storage ?h"
    using assms(1) c len by (simp add: heap_inv_def heap_storage_def CFBinaryHeapMutableVariety_def)
  then show ?thesis
    using grow cb heap_inv_cong [OF cb] assms(1) c len by (auto simp: heap_values_def)
qed

subsubsection \<open>The operations keep the invariant\<close>

lemma AddValue_room:
  assumes "heap_inv h" "hp_count h < hp_capacity h"
  shows "\<exists>h'. CFBinaryHeapAddValue fresh h v = Some h' \<and> heap_inv h' \<and> same_callbacks h h' \<and>
    hp_count h' = hp_count h + 1 \<and>
    heap_mset h' = add_mset (stored_value h v) (heap_mset h) \<and>
    hp_trace h' = hp_trace h @ (if hp_retain h = None then [] else [Retained v])"
proof -
  let ?n = "hp_count h" and ?xs = "hp_buckets h" and ?gt = "heap_gt h" and ?sv = "stored_value h v"
  have ord: "heap_order ?gt" and ret: "retain_compatible h" and st: "heap_storage h"
    using assms(1) by (simp_all add: heap_inv_def)
  have len: "?n + 1 \<le> length ?xs" using st assms(2) by (simp add: heap_storage_def)
  have "hole ?gt ?xs (?n + 1) ?n"
    using st len parent_less unfolding heap_storage_def heap_upto_def hole_def
    by (auto simp: less_Suc_eq) (metis not_less_iff_gr_or_eq)+
  moreover have "above_children ?gt ?xs (?n + 1) v ?n"
  proof -
    have "False" if "j < ?n + 1" "0 < j" "parent j = ?n" for j
      using parent_less [OF that(2)] that by simp
    then show ?thesis by (auto simp: above_children_def)
  qed
  ultimately obtain ys k where ys: "sift_up ?gt ?xs v ?n = Some (ys, k)"
    and sifted: "sifted ?gt (?n + 1) v ?xs ?n ys k"
    using heap_order.sift_up_correct [OF ord, of ?xs "?n + 1" ?n v] by auto
  have k: "k < length ys" using sifted len by (simp add: sifted_def)
  let ?h = "h\<lparr>hp_count := ?n + 1, hp_buckets := ys[k := ?sv],
    hp_trace := hp_trace h @ (if hp_retain h = None then [] else [Retained v])\<rparr>"
  have gt': "heap_gt (h\<lparr>hp_count := ?n + 1\<rparr>) = ?gt"
    by (rule heap_gt_cong) (simp add: same_callbacks_def)
  have add: "CFBinaryHeapAddValue fresh h v = Some ?h"
    using assms(2) ys k gt'
    by (simp add: CFBinaryHeapAddValue_def Let_def cf_mem stored_value_def split: option.split)
  have cb: "same_callbacks h ?h" by (simp add: same_callbacks_def)
  have "heap_upto ?gt (ys[k := ?sv]) (?n + 1)"
    using sifted by (intro fill_hole)
      (auto simp: sifted_def above_children_def below_parent_def stored_value_gt [OF ret])
  then have "heap_storage ?h"
    using st sifted assms(2) heap_gt_cong [OF cb]
    by (simp add: heap_storage_def sifted_def CFBinaryHeapMutableVariety_def)
  then have "heap_inv ?h" using heap_inv_cong [OF cb assms(1)] by simp
  moreover have "mset (take (?n + 1) (?xs[?n := ?sv])) = add_mset ?sv (mset (take ?n ?xs))"
    using len by (simp add: take_Suc_conv_app_nth)
  ultimately show ?thesis
    using add cb sifted by (auto simp: heap_mset_def heap_values_def sifted_def)
qed

definition values_fit :: "('a, 'c) CFBinaryHeap \<Rightarrow> nat \<Rightarrow> bool" where
  "values_fit h n \<longleftrightarrow> hp_count h + n < 2 ^ 30"

lemma AddValue_inv:
  assumes "heap_inv h" "values_fit h 1"
  shows "\<exists>h'. CFBinaryHeapAddValue fresh h v = Some h' \<and> heap_inv h' \<and> same_callbacks h h' \<and>
    hp_count h' = hp_count h + 1 \<and>
    heap_mset h' = add_mset (stored_value h v) (heap_mset h) \<and>
    hp_trace h' = hp_trace h @ (if hp_retain h = None then [] else [Retained v])"
proof (cases "hp_count h = hp_capacity h")
  case False
  then show ?thesis using assms AddValue_room [of h fresh v]
    by (simp add: heap_inv_def heap_storage_def)
next
  case True
  obtain g where g: "CFBinaryHeapGrow fresh h 1 = Some g" "heap_inv g" "same_callbacks h g"
    "hp_trace g = hp_trace h" "hp_count g = hp_count h" "heap_values g = heap_values h"
    "hp_count g < hp_capacity g"
    using Grow_correct [OF assms(1) True, of fresh] assms(2) by (auto simp: values_fit_def)
  have "CFBinaryHeapAddValue fresh h v = CFBinaryHeapAddValue fresh g v"
    using g True assms(1)
    by (simp add: CFBinaryHeapAddValue_def heap_inv_def heap_storage_def)
  then show ?thesis
    using AddValue_room [OF g(2,7), of fresh v] g same_callbacks_trans [OF g(3)]
      stored_value_cong [OF g(3)]
    by (auto simp: heap_mset_def same_callbacks_def)
qed

lemma RemoveMinimumValue_inv:
  assumes "heap_inv h" "0 < hp_count h"
  shows "\<exists>h'. CFBinaryHeapRemoveMinimumValue h = Some h' \<and> heap_inv h' \<and> same_callbacks h h' \<and>
    hp_count h' = hp_count h - 1 \<and>
    heap_mset h = add_mset (hp_buckets h ! 0) (heap_mset h') \<and>
    hp_trace h' = hp_trace h @ (if hp_release h = None then [] else [Released (hp_buckets h ! 0)])"
proof -
  let ?xs = "hp_buckets h" and ?gt = "heap_gt h"
  obtain n where n: "hp_count h = Suc n" using assms(2) by (cases "hp_count h") auto
  let ?v = "?xs ! n"
  have ord: "heap_order ?gt" and st: "heap_storage h"
    using assms(1) by (simp_all add: heap_inv_def)
  have len: "Suc n \<le> length ?xs" using st n by (simp add: heap_storage_def)
  have upto: "heap_upto ?gt ?xs (Suc n)" using st n by (simp add: heap_storage_def)
  have "\<exists>ys k. sift_down ?gt n ?xs ?v 0 = Some (ys, k) \<and> k < Suc n \<and> length ys = length ?xs \<and>
    heap_upto ?gt (ys[k := ?v]) n \<and>
    add_mset (?xs ! 0) (mset (take n (ys[k := ?v]))) = mset (take (Suc n) ?xs)"
  proof (cases "n = 0")
    case True
    with len have "take (Suc n) ?xs = [?xs ! 0]" by (cases ?xs) auto
    with True len show ?thesis
      by (auto simp: sift_down.simps [of ?gt 0] heap_upto_def)
  next
    case False
    have "hole ?gt ?xs n 0" using upto len by (intro heap_upto_hole) auto
    then obtain ys k where ys: "sift_down ?gt n ?xs ?v 0 = Some (ys, k)"
      and sifted: "sifted ?gt n ?v ?xs 0 ys k"
      using heap_order.sift_down_correct [OF ord, of ?xs n 0 ?v] False
      by (auto simp: below_parent_def)
    have "heap_upto ?gt (ys[k := ?v]) n" using sifted by (intro fill_hole) (auto simp: sifted_def)
    moreover have "mset (take n (?xs[0 := ?v])) = mset (take n ?xs) - {# ?xs ! 0 #} + {# ?v #}"
      using False len by (intro mset_take_update) auto
    moreover have "?xs ! 0 \<in># mset (take n ?xs)"
      using False len by (metis in_set_conv_nth length_take min.absorb2 nth_take set_mset_mset gr0I Suc_leD)
    ultimately show ?thesis
      using ys sifted len by (auto simp: sifted_def take_Suc_conv_app_nth)
  qed
  then obtain ys k where ys: "sift_down ?gt n ?xs ?v 0 = Some (ys, k)" "k < Suc n"
    "length ys = length ?xs" "heap_upto ?gt (ys[k := ?v]) n"
    "add_mset (?xs ! 0) (mset (take n (ys[k := ?v]))) = mset (take (Suc n) ?xs)" by blast
  let ?h = "h\<lparr>hp_count := n, hp_buckets := ys[k := ?v],
    hp_trace := hp_trace h @ (if hp_release h = None then [] else [Released (?xs ! 0)])\<rparr>"
  have cb: "same_callbacks h ?h" by (simp add: same_callbacks_def)
  have gt': "heap_gt (h\<lparr>hp_count := n\<rparr>) = ?gt" "heap_gt (h\<lparr>hp_count := n, hp_trace := t\<rparr>) = ?gt" for t
    by (rule heap_gt_cong, simp add: same_callbacks_def)+
  have "0 < length ?xs" "n < length ?xs" "k < length ys" using len ys(2,3) by auto
  then have rem: "CFBinaryHeapRemoveMinimumValue h = Some ?h"
    using n gt' ys(1)
    by (simp add: CFBinaryHeapRemoveMinimumValue_def Let_def cf_mem split: option.split)
  have "heap_storage ?h"
    using st n ys(3,4) heap_gt_cong [OF cb]
    by (simp add: heap_storage_def CFBinaryHeapMutableVariety_def)
  then have "heap_inv ?h" using heap_inv_cong [OF cb assms(1)] by simp
  then show ?thesis using rem cb ys(5) n by (auto simp: heap_mset_def heap_values_def)
qed

subsection \<open>Queries\<close>

lemma heap_root_least:
  assumes "heap_order gt" "heap_upto gt xs n"
  shows "i < n \<Longrightarrow> \<not> gt (xs ! 0) (xs ! i)"
proof (induction i rule: less_induct)
  case (less i)
  show ?case
  proof (cases "i = 0")
    case True
    then show ?thesis using heap_order.le_refl [OF assms(1)] by simp
  next
    case False
    then have "parent i < i" by (simp add: parent_less)
    then have "\<not> gt (xs ! 0) (xs ! parent i)" using less by simp
    moreover have "\<not> gt (xs ! parent i) (xs ! i)" using assms(2) less.prems False by (simp add: heap_upto_def)
    ultimately show ?thesis using heap_order.le_trans [OF assms(1)] by blast
  qed
qed

lemma heap_values_nth: "i < hp_count h \<Longrightarrow> heap_values h ! i = hp_buckets h ! i"
  by (simp add: heap_values_def)

lemma length_heap_values [simp]: "heap_storage h \<Longrightarrow> length (heap_values h) = hp_count h"
  by (simp add: heap_values_def heap_storage_def)

lemma heap_mset_empty_iff: "heap_inv h \<Longrightarrow> heap_mset h = {#} \<longleftrightarrow> hp_count h = 0"
  by (auto simp: heap_mset_def heap_values_def heap_inv_def heap_storage_def)

lemma GetMinimum_least:
  assumes "heap_inv h" "0 < hp_count h"
  shows "CFBinaryHeapGetMinimum h = Some (Some (hp_buckets h ! 0))"
    and "x \<in># heap_mset h \<Longrightarrow> \<not> heap_gt h (hp_buckets h ! 0) x"
    and "hp_buckets h ! 0 \<in># heap_mset h"
proof -
  have st: "heap_storage h" "heap_order (heap_gt h)" using assms(1) by (simp_all add: heap_inv_def)
  then have len: "hp_count h \<le> length (hp_buckets h)" by (simp add: heap_storage_def)
  then show "CFBinaryHeapGetMinimum h = Some (Some (hp_buckets h ! 0))"
    using assms(2) by (auto simp: CFBinaryHeapGetMinimum_def rd_def)
  show "\<not> heap_gt h (hp_buckets h ! 0) x" if mem: "x \<in># heap_mset h"
  proof -
    obtain i where "i < hp_count h" "x = hp_buckets h ! i"
      using mem in_set_conv_nth [of x "heap_values h"] length_heap_values [OF st(1)]
      by (auto simp: heap_mset_def heap_values_nth)
    then show ?thesis using heap_root_least [OF st(2)] st(1) by (auto simp: heap_storage_def)
  qed
  show "hp_buckets h ! 0 \<in># heap_mset h"
    using nth_mem [of 0 "heap_values h"] assms(2) length_heap_values [OF st(1)]
    by (simp add: heap_mset_def heap_values_nth)
qed

text \<open>A heap that shares the callbacks of \<open>h0\<close> is a queue for the order of \<open>h0\<close>.\<close>

definition heap_like :: "('a::linorder, 'c) CFBinaryHeap \<Rightarrow> ('a, 'c) CFBinaryHeap \<Rightarrow> bool" where
  "heap_like h0 h \<longleftrightarrow> heap_inv h \<and> same_callbacks h0 h"

interpretation heap_queue:
  min_queue "heap_gt h0" "heap_like h0" heap_mset CFBinaryHeapGetMinimum
    CFBinaryHeapRemoveMinimumValue drain
  for h0 :: "('a::linorder, 'c) CFBinaryHeap"
proof unfold_locales
  fix h assume h: "heap_like h0 h" "heap_mset h \<noteq> {#}"
  then have n: "0 < hp_count h" "heap_inv h" "heap_gt h = heap_gt h0"
    using heap_gt_cong by (auto simp: heap_like_def heap_mset_empty_iff)
  show "\<exists>v. CFBinaryHeapGetMinimum h = Some (Some v) \<and> (\<forall>x\<in>#heap_mset h. \<not> heap_gt h0 v x)"
    using GetMinimum_least [OF n(2,1)] n(3) by auto
next
  fix h v assume h: "heap_like h0 h" "heap_mset h \<noteq> {#}" "CFBinaryHeapGetMinimum h = Some (Some v)"
  then have n: "0 < hp_count h" "heap_inv h" "same_callbacks h0 h"
    by (auto simp: heap_like_def heap_mset_empty_iff)
  show "\<exists>h'. CFBinaryHeapRemoveMinimumValue h = Some h' \<and> heap_like h0 h' \<and>
      heap_mset h = add_mset v (heap_mset h')"
    using RemoveMinimumValue_inv [OF n(2,1)] GetMinimum_least(1) [OF n(2,1)] h(3)
      same_callbacks_trans [OF n(3)] by (auto simp: heap_like_def)
next
  fix h assume "heap_like h0 h" "heap_mset h = {#}"
  then show "drain h = Some []"
    by (simp add: heap_like_def heap_mset_empty_iff drain.simps [of h])
next
  fix h v h' assume h: "heap_like h0 h" "heap_mset h \<noteq> {#}"
    "CFBinaryHeapGetMinimum h = Some (Some v)" "CFBinaryHeapRemoveMinimumValue h = Some h'"
  then have "0 < hp_count h" by (auto simp: heap_like_def heap_mset_empty_iff)
  then show "drain h = map_option (Cons v) (drain h')"
    using h(3,4) by (cases "drain h'") (simp_all add: drain.simps [of h])
qed

lemma count_value_loop_correct:
  "idx + n \<le> length (hp_buckets h) \<Longrightarrow>
   count_value_loop h v idx n c =
     Some (c + length (filter (\<lambda>item. v = item \<or> heap_equal_to h v item) (take n (drop idx (hp_buckets h)))))"
proof (induction n arbitrary: idx c)
  case (Suc n)
  then show ?case by (simp add: rd_def take_Suc_drop del: take_Suc_Cons)
qed simp

lemma contains_value_loop_correct:
  "idx + n \<le> length (hp_buckets h) \<Longrightarrow>
   contains_value_loop h v idx n =
     Some (\<exists>item \<in> set (take n (drop idx (hp_buckets h))). v = item \<or> heap_equal_to h v item)"
proof (induction n arbitrary: idx)
  case (Suc n)
  then show ?case by (simp add: rd_def take_Suc_drop del: take_Suc_Cons)
qed simp

subsection \<open>Creation and the values in order\<close>

lemma add_values_inv:
  "heap_inv h \<Longrightarrow> values_fit h n \<Longrightarrow> idx + n \<le> length values \<Longrightarrow>
   \<exists>h'. add_values fresh h values idx n = Some h' \<and> heap_inv h' \<and> same_callbacks h h' \<and>
     heap_mset h' = heap_mset h + image_mset (stored_value h) (mset (take n (drop idx values)))"
proof (induction n arbitrary: h idx)
  case (Suc n)
  obtain g where g: "CFBinaryHeapAddValue fresh h (values ! idx) = Some g" "heap_inv g"
    "same_callbacks h g" "hp_count g = hp_count h + 1"
    "heap_mset g = add_mset (stored_value h (values ! idx)) (heap_mset h)"
    using AddValue_inv [OF Suc.prems(1), of fresh "values ! idx"] Suc.prems(2)
    by (auto simp: values_fit_def)
  obtain h' where h': "add_values fresh g values (idx + 1) n = Some h'" "heap_inv h'"
    "same_callbacks g h'"
    "heap_mset h' = heap_mset g + image_mset (stored_value g) (mset (take n (drop (idx + 1) values)))"
    using Suc.IH [OF g(2), of "idx + 1"] Suc.prems(2,3) g(4) by (auto simp: values_fit_def)
  show ?case
    using g h' Suc.prems(3) same_callbacks_trans [OF g(3) h'(3)] stored_value_cong [OF g(3)]
    by (simp add: rd_def take_Suc_drop del: take_Suc_Cons)
qed simp

text \<open>The callbacks of a heap that does not exist yet, as a heap of capacity 4 without objects.\<close>

definition empty_heap ::
  "(nat \<Rightarrow> 'a) \<Rightarrow> ('a \<Rightarrow> 'a) callback option \<Rightarrow> unit callback option \<Rightarrow>
     ('a \<Rightarrow> 'a \<Rightarrow> 'c \<Rightarrow> CFComparisonResult) callback option \<Rightarrow> 'c \<Rightarrow> ('a, 'c) CFBinaryHeap" where
  "empty_heap fresh retain release compare info =
     \<lparr>hp_cfinfo = CFBitfieldSetValue 0 3 2 kCFBinaryHeapMutable, hp_count = 0, hp_capacity = 4, hp_retain = retain, hp_release = release,
      hp_compare = compare, hp_info = info, hp_buckets = map fresh [0..<4], hp_trace = []\<rparr>"

lemma SetMutableVariety_get [simp]:
  "CFBinaryHeapMutableVariety (CFBinaryHeapSetMutableVariety h kCFBinaryHeapMutable) = kCFBinaryHeapMutable"
proof -
  have "take_bit (3 - 2 + 1) kCFBinaryHeapMutable = kCFBinaryHeapMutable"
    by (simp add: kCFBinaryHeapMutable_def)
  then show ?thesis
    by (simp add: CFBinaryHeapMutableVariety_def CFBinaryHeapSetMutableVariety_def CFBitfield_get_set)
qed

lemma SetMutableVariety_inv:
  assumes "heap_inv h"
  shows "heap_inv (CFBinaryHeapSetMutableVariety h kCFBinaryHeapMutable)"
    and "same_callbacks h (CFBinaryHeapSetMutableVariety h kCFBinaryHeapMutable)"
    and "heap_mset (CFBinaryHeapSetMutableVariety h kCFBinaryHeapMutable) = heap_mset h"
proof -
  let ?h = "CFBinaryHeapSetMutableVariety h kCFBinaryHeapMutable"
  show cb: "same_callbacks h ?h" by (simp add: same_callbacks_def CFBinaryHeapSetMutableVariety_def)
  have "heap_storage ?h"
    using assms heap_gt_cong [OF cb] SetMutableVariety_get [of h]
    unfolding heap_inv_def heap_storage_def
    by (simp add: CFBinaryHeapSetMutableVariety_def)
  then show "heap_inv ?h" using heap_inv_cong [OF cb assms] by simp
  show "heap_mset ?h = heap_mset h"
    by (simp add: heap_mset_def heap_values_def CFBinaryHeapSetMutableVariety_def)
qed

lemma empty_heap_inv:
  assumes "heap_order (heap_gt (empty_heap fresh retain release compare info))"
    and "retain_compatible (empty_heap fresh retain release compare info)"
  shows "heap_inv (empty_heap fresh retain release compare info)"
  using assms SetMutableVariety_get [of "empty_heap fresh retain release compare info"]
  by (simp add: heap_inv_def heap_storage_def heap_upto_def empty_heap_def
      CFBinaryHeapMutableVariety_def CFBitfield_get_set kCFBinaryHeapMutable_def)

lemma Init_inv:
  fixes fresh :: "nat \<Rightarrow> 'a::linorder"
  defines "h0 \<equiv> \<lambda>retain release compare info. empty_heap fresh retain release compare info"
  assumes "heap_order (heap_gt (h0 retain release compare info))"
    and "retain_compatible (h0 retain release compare info)"
    and "n \<le> length values" "n < 2 ^ 30"
  shows "\<exists>h. CFBinaryHeapInit fresh values n retain release compare info = Some h \<and> heap_inv h \<and>
    same_callbacks (h0 retain release compare info) h \<and>
    heap_mset h = image_mset (stored_value h) (mset (take n values))"
proof -
  let ?e = "h0 retain release compare info"
  have inv: "heap_inv ?e" using assms(2,3) by (simp only: empty_heap_inv h0_def)
  have "values_fit ?e n" using assms by (simp add: values_fit_def empty_heap_def)
  then obtain g where g: "add_values fresh ?e values 0 n = Some g" "heap_inv g"
    "same_callbacks ?e g"
    "heap_mset g = heap_mset ?e + image_mset (stored_value ?e) (mset (take n values))"
    using add_values_inv [OF inv, of n 0 "values" fresh] assms(4) by auto
  let ?h = "CFBinaryHeapSetMutableVariety g kCFBinaryHeapMutable"
  have "CFBinaryHeapInit fresh values n retain release compare info = Some ?h"
    using g(1) by (simp add: CFBinaryHeapInit_def CFBinaryHeapRoundUpCapacity_def Let_def
        CFBinaryHeapSetMutableVariety_def h0_def empty_heap_def)
  moreover have "heap_mset ?e = {#}"
    by (simp add: h0_def empty_heap_def heap_mset_def heap_values_def)
  ultimately show ?thesis
    using SetMutableVariety_inv [OF g(2)] g(3,4) same_callbacks_trans [OF g(3)]
      stored_value_cong [of ?e ?h] by auto
qed

lemma CreateCopy_inv:
  assumes "heap_inv h" "hp_count h < 2 ^ 30"
  shows "\<exists>g. CFBinaryHeapCreateCopy fresh h = Some g \<and> heap_inv g \<and> same_callbacks h g \<and>
    heap_mset g = image_mset (stored_value h) (heap_mset h)"
proof -
  let ?e = "empty_heap fresh (hp_retain h) (hp_release h) (hp_compare h) (hp_info h)"
  have cb: "same_callbacks h ?e" by (simp add: same_callbacks_def empty_heap_def)
  have gt: "heap_gt ?e = heap_gt h" using cb by (rule heap_gt_cong)
  have pre: "heap_order (heap_gt ?e)" "retain_compatible ?e"
    using assms(1) cb gt by (auto simp: heap_inv_def retain_compatible_def same_callbacks_def split: option.splits)
  have "hp_count h \<le> length (hp_buckets h)" using assms(1) by (simp add: heap_inv_def heap_storage_def)
  then obtain g where g: "CFBinaryHeapCreateCopy fresh h = Some g" "heap_inv g"
    "same_callbacks ?e g" "heap_mset g = image_mset (stored_value g) (heap_mset h)"
    using Init_inv [OF pre _ assms(2), of "hp_buckets h"]
    by (auto simp: CFBinaryHeapCreateCopy_def heap_mset_def heap_values_def)
  then show ?thesis
    using same_callbacks_trans [OF cb g(3)] stored_value_cong [OF same_callbacks_trans [OF cb g(3)]]
    by auto
qed

lemma GetValues_drain:
  assumes "heap_inv h" "hp_count h < 2 ^ 30"
  shows "\<exists>vs. CFBinaryHeapGetValues fresh h = Some vs \<and>
    mset vs = image_mset (stored_value h) (heap_mset h) \<and>
    sorted_wrt (\<lambda>a b. \<not> heap_gt h a b) vs"
proof (cases "hp_count h = 0")
  case True
  then show ?thesis by (simp add: CFBinaryHeapGetValues_def heap_mset_def heap_values_def)
next
  case False
  obtain g where g: "CFBinaryHeapCreateCopy fresh h = Some g" "heap_inv g"
    "same_callbacks h g" "heap_mset g = image_mset (stored_value h) (heap_mset h)"
    using CreateCopy_inv [OF assms, of fresh] by auto
  have "heap_like h g" using g(2,3) by (simp add: heap_like_def)
  then obtain vs where "drain g = Some vs" "mset vs = heap_mset g"
    "sorted_wrt (\<lambda>a b. \<not> heap_gt h a b) vs"
    using heap_queue.emptied_sorted [of h g] by auto
  then show ?thesis using False g by (simp add: CFBinaryHeapGetValues_def)
qed

lemma heap_equal_loop_iff:
  "length list1 = length list2 \<Longrightarrow>
   heap_equal_loop compare info list1 list2 \<longleftrightarrow>
     list_all2 (\<lambda>a b. a = b \<or> (\<exists>f. compare = Some f \<and> cb_fun f a b info \<noteq> 0)) list1 list2"
  by (induction compare info list1 list2 rule: heap_equal_loop.induct)
    (auto split: option.splits)

subsection \<open>Comparisons of the model and concrete heaps\<close>

text \<open>Without a \<open>compare\<close> callback pointers are ordered by address.\<close>

interpretation pointer_order: heap_order "\<lambda>a b :: 'a::linorder. b < a"
  by unfold_locales auto

lemma heap_gt_pointers: "hp_compare h = None \<Longrightarrow> heap_gt h = (\<lambda>a b. b < a)"
  by (simp add: heap_gt_def fun_eq_iff)

lemma stored_value_none: "hp_retain h = None \<Longrightarrow> stored_value h = (\<lambda>v. v)"
  by (simp add: stored_value_def fun_eq_iff)

definition number_heap :: "nat list \<Rightarrow> (nat, unit) CFBinaryHeap" where
  "number_heap values = the (CFBinaryHeapInit (\<lambda>_. 0) values (length values) None
     (Some \<lparr>cb_addr = 1, cb_fun = ()\<rparr>) None ())"

lemma number_heap_inv: "length values < 2 ^ 30 \<Longrightarrow>
  CFBinaryHeapInit (\<lambda>_. 0) values (length values) None (Some \<lparr>cb_addr = 1, cb_fun = ()\<rparr>) None ()
    = Some (number_heap values) \<and>
  heap_inv (number_heap values) \<and> heap_mset (number_heap values) = mset values"
proof -
  assume n: "length values < 2 ^ 30"
  let ?e = "empty_heap (\<lambda>_. 0) None (Some \<lparr>cb_addr = 1, cb_fun = ()\<rparr>) None ()
    :: (nat, unit) CFBinaryHeap"
  have "heap_order (heap_gt ?e)"
    using pointer_order.heap_order_axioms by (simp add: heap_gt_pointers empty_heap_def)
  moreover have "retain_compatible ?e" by (simp add: retain_compatible_def empty_heap_def)
  ultimately obtain h where h: "heap_inv h" "same_callbacks ?e h"
    "CFBinaryHeapInit (\<lambda>_. 0) values (length values) None (Some \<lparr>cb_addr = 1, cb_fun = ()\<rparr>) None () = Some h"
    "heap_mset h = image_mset (stored_value h) (mset (take (length values) values))"
    using Init_inv [of "\<lambda>_. 0" None "Some \<lparr>cb_addr = 1, cb_fun = ()\<rparr>" None "()" "length values" "values"] n
    by auto
  then have "stored_value h = (\<lambda>v. v)"
    by (intro stored_value_none) (simp add: same_callbacks_def empty_heap_def)
  with h show ?thesis by (simp add: number_heap_def)
qed

text \<open>A comparator that orders numbers by their tens.\<close>

definition compare_tens :: "nat \<Rightarrow> nat \<Rightarrow> unit \<Rightarrow> CFComparisonResult" where
  "compare_tens a b info =
     (if a div 10 < b div 10 then kCFCompareLessThan
      else if b div 10 < a div 10 then kCFCompareGreaterThan else kCFCompareEqualTo)"

interpretation tens: strict_comparator "\<lambda>a b. compare_tens a b ()"
  by unfold_locales (auto simp: compare_tens_def split: if_splits)

definition tens_heap :: "nat list \<Rightarrow> (nat, unit) CFBinaryHeap" where
  "tens_heap values = the (CFBinaryHeapInit (\<lambda>_. 0) values (length values) None None
     (Some \<lparr>cb_addr = 2, cb_fun = compare_tens\<rparr>) ())"

lemma tens_heap_inv: "length values < 2 ^ 30 \<Longrightarrow>
  heap_inv (tens_heap values) \<and> heap_mset (tens_heap values) = mset values \<and>
  hp_compare (tens_heap values) = Some \<lparr>cb_addr = 2, cb_fun = compare_tens\<rparr>"
proof -
  assume n: "length values < 2 ^ 30"
  let ?e = "empty_heap (\<lambda>_. 0) None None (Some \<lparr>cb_addr = 2, cb_fun = compare_tens\<rparr>) ()"
  have "heap_gt ?e = (\<lambda>a b. kCFCompareGreaterThan = compare_tens a b ())"
    by (simp add: heap_gt_def empty_heap_def fun_eq_iff)
  then have "heap_order (heap_gt ?e)" using tens.heap_order_enum by simp
  moreover have "retain_compatible ?e" by (simp add: retain_compatible_def empty_heap_def)
  ultimately obtain h where h: "heap_inv h" "same_callbacks ?e h"
    "CFBinaryHeapInit (\<lambda>_. 0) values (length values) None None
      (Some \<lparr>cb_addr = 2, cb_fun = compare_tens\<rparr>) () = Some h"
    "heap_mset h = image_mset (stored_value h) (mset (take (length values) values))"
    using Init_inv [of "\<lambda>_. 0" None None "Some \<lparr>cb_addr = 2, cb_fun = compare_tens\<rparr>" "()"
        "length values" "values"] n
    by auto
  then have "stored_value h = (\<lambda>v. v)"
    by (intro stored_value_none) (simp add: same_callbacks_def empty_heap_def)
  with h show ?thesis by (simp add: tens_heap_def same_callbacks_def empty_heap_def)
qed

lemma heap_inv_count: "heap_inv h \<Longrightarrow> hp_count h = size (heap_mset h)"
  by (simp add: heap_mset_def heap_inv_def)

subsection \<open>Properties\<close>

text \<open>C14: CFBinaryHeapAddValue on a heap in order, of at most \<open>2^30 - 2\<close> objects, stays inside
  its buckets (growing them when they are full), keeps the heap in order, adds exactly the retained
  value to the multiset of objects, and calls \<open>retain\<close> exactly once, on the value, when there is one.\<close>

theorem heap_add_value:
  assumes "heap_inv h" "values_fit h 1"
  shows "\<exists>h'. CFBinaryHeapAddValue fresh h v = Some h' \<and> heap_inv h' \<and> same_callbacks h h' \<and>
    CFBinaryHeapGetCount h' = CFBinaryHeapGetCount h + 1 \<and>
    heap_mset h' = add_mset (stored_value h v) (heap_mset h) \<and>
    hp_trace h' = hp_trace h @ (if hp_retain h = None then [] else [Retained v])"
  using AddValue_inv [OF assms] by (simp add: CFBinaryHeapGetCount_def)

lemma heap_add_value_witness:
  "\<exists>h'. CFBinaryHeapAddValue (\<lambda>_. 0) (number_heap [5, 3, 8, 1]) 2 = Some h' \<and>
     heap_mset h' = {#5, 3, 8, 1, 2#}"
proof -
  have inv: "heap_inv (number_heap [5, 3, 8, 1])"
    "heap_mset (number_heap [5, 3, 8, 1]) = {#5, 3, 8, 1#}"
    using number_heap_inv [of "[5, 3, 8, 1]"] by simp_all
  then have "values_fit (number_heap [5, 3, 8, 1]) 1" by (simp add: values_fit_def heap_inv_count)
  moreover have "stored_value (number_heap [5, 3, 8, 1]) 2 = 2"
    by (simp add: stored_value_def) code_simp
  ultimately show ?thesis
    using heap_add_value [OF inv(1), of "\<lambda>_. 0" 2] inv(2) by (auto simp: add_mset_commute)
qed

text \<open>C13: CFBinaryHeapGetMinimum returns an object of the heap that no object is below, and
  CFBinaryHeapRemoveMinimumValue removes exactly that object, releases exactly that object (when
  there is a \<open>release\<close>), and leaves a heap in order.\<close>

theorem heap_remove_minimum:
  assumes "heap_inv h" "0 < CFBinaryHeapGetCount h"
  shows "\<exists>m h'. CFBinaryHeapGetMinimum h = Some (Some m) \<and>
    CFBinaryHeapGetMinimumIfPresent h = Some (True, Some m) \<and>
    (\<forall>x \<in># heap_mset h. \<not> heap_gt h m x) \<and>
    CFBinaryHeapRemoveMinimumValue h = Some h' \<and> heap_inv h' \<and> same_callbacks h h' \<and>
    heap_mset h = add_mset m (heap_mset h') \<and>
    hp_trace h' = hp_trace h @ (if hp_release h = None then [] else [Released m])"
proof -
  have n: "0 < hp_count h" using assms(2) by (simp add: CFBinaryHeapGetCount_def)
  then have "CFBinaryHeapGetMinimumIfPresent h = Some (True, Some (hp_buckets h ! 0))"
    using GetMinimum_least(1) [OF assms(1) n]
    by (simp add: CFBinaryHeapGetMinimumIfPresent_def CFBinaryHeapGetMinimum_def option_bind_eq_Some)
  then show ?thesis
    using GetMinimum_least [OF assms(1) n] RemoveMinimumValue_inv [OF assms(1) n] by blast
qed

lemma heap_remove_minimum_witness:
  "\<exists>h'. CFBinaryHeapRemoveMinimumValue (number_heap [5, 3]) = Some h' \<and> heap_mset h' = {#5#}"
proof -
  have inv: "heap_inv (number_heap [5, 3])" "heap_mset (number_heap [5, 3]) = {#5, 3#}"
    using number_heap_inv [of "[5, 3]"] by simp_all
  then have "0 < CFBinaryHeapGetCount (number_heap [5, 3])"
    by (simp add: CFBinaryHeapGetCount_def heap_inv_count)
  moreover have "CFBinaryHeapGetMinimum (number_heap [5, 3]) = Some (Some 3)" by code_simp
  ultimately show ?thesis
    using heap_remove_minimum [OF inv(1)] inv(2) by (auto simp: add_eq_conv_diff)
qed

text \<open>copying a heap in order (CFBinaryHeapCreateCopy, through __CFBinaryHeapInit) succeeds
  and gives a heap in order, with the same callbacks, that holds exactly the retained values.\<close>

theorem heap_create_copy:
  assumes "heap_inv h" "values_fit h 0"
  shows "\<exists>g. CFBinaryHeapCreateCopy fresh h = Some g \<and> heap_inv g \<and> same_callbacks h g \<and>
    heap_mset g = image_mset (stored_value h) (heap_mset h)"
  using CreateCopy_inv [OF assms(1), of fresh] assms(2) by (simp add: values_fit_def)

lemma heap_create_copy_witness:
  "\<exists>g. CFBinaryHeapCreateCopy (\<lambda>_. 0) (tens_heap [31, 7, 35]) = Some g \<and> heap_inv g \<and>
     size (heap_mset g) = 3"
proof -
  have inv: "heap_inv (tens_heap [31, 7, 35])" "size (heap_mset (tens_heap [31, 7, 35])) = 3"
    using tens_heap_inv [of "[31, 7, 35]"] by simp_all
  then have "values_fit (tens_heap [31, 7, 35]) 0" by (simp add: values_fit_def heap_inv_count)
  then show ?thesis using heap_create_copy [OF inv(1), of "\<lambda>_. 0"] inv(2) by force
qed

text \<open>CFBinaryHeapGetValues (and CFBinaryHeapApplyFunction) deliver all the objects in
  ascending order: the result is sorted for the heap's comparison and a permutation of the
  (retained) objects of the heap.\<close>

theorem heap_get_values_sorted:
  assumes "heap_inv h" "values_fit h 0"
  shows "\<exists>vs. CFBinaryHeapGetValues fresh h = Some vs \<and> CFBinaryHeapApplyFunction fresh h = Some vs \<and>
    mset vs = image_mset (stored_value h) (heap_mset h) \<and>
    sorted_wrt (\<lambda>a b. \<not> heap_gt h a b) vs"
  using GetValues_drain [OF assms(1), of fresh] assms(2)
  by (auto simp: CFBinaryHeapApplyFunction_def CFBinaryHeapGetValues_def values_fit_def)

lemma heap_get_values_sorted_witness:
  "\<exists>vs. CFBinaryHeapGetValues (\<lambda>_. 0) (tens_heap [31, 7, 35]) = Some vs \<and> length vs = 3"
proof -
  have inv: "heap_inv (tens_heap [31, 7, 35])" "size (heap_mset (tens_heap [31, 7, 35])) = 3"
    using tens_heap_inv [of "[31, 7, 35]"] by simp_all
  then have "values_fit (tens_heap [31, 7, 35]) 0" by (simp add: values_fit_def heap_inv_count)
  then show ?thesis
    using heap_get_values_sorted [OF inv(1), of "\<lambda>_. 0"] inv(2)
    by (metis size_image_mset size_mset)
qed

text \<open>CFBinaryHeapGetCountOfValue counts, and CFBinaryHeapContainsValue finds, the objects
  that are the value itself or that the \<open>compare\<close> callback finds equal to it.\<close>

theorem heap_value_queries:
  assumes "heap_inv h"
  shows "CFBinaryHeapGetCountOfValue h v =
      Some (size (filter_mset (\<lambda>item. v = item \<or> heap_equal_to h v item) (heap_mset h))) \<and>
    CFBinaryHeapContainsValue h v = Some (\<exists>item \<in># heap_mset h. v = item \<or> heap_equal_to h v item)"
proof -
  have "hp_count h \<le> length (hp_buckets h)" using assms by (simp add: heap_inv_def heap_storage_def)
  then show ?thesis
    by (simp add: CFBinaryHeapGetCountOfValue_def CFBinaryHeapContainsValue_def heap_mset_def
        heap_values_def count_value_loop_correct contains_value_loop_correct
        flip: mset_filter)
qed

lemma heap_value_queries_witness:
  "CFBinaryHeapGetCountOfValue (tens_heap [31, 7, 35, 12]) 32 = Some 2"
proof -
  have "heap_inv (tens_heap [31, 7, 35, 12])" "heap_mset (tens_heap [31, 7, 35, 12]) = {#31, 7, 35, 12#}"
    and cmp: "hp_compare (tens_heap [31, 7, 35, 12]) = Some \<lparr>cb_addr = 2, cb_fun = compare_tens\<rparr>"
    using tens_heap_inv [of "[31, 7, 35, 12]"] by simp_all
  then show ?thesis
    using heap_value_queries [of "tens_heap [31, 7, 35, 12]" 32]
    by (simp add: heap_equal_to_def compare_tens_def)
qed

text \<open>CFBinaryHeapEqual (the class's equality callback) on two heaps of the same length with
  the same \<open>compare\<close> walks both in ascending order and accepts a pair of objects when they are the
  same pointer or when \<open>compare\<close> returns a value other than \<open>kCFCompareEqualTo\<close>: the test of the
  comparison result is inverted.\<close>

theorem heap_equal_inverted:
  assumes "heap_inv h1" "heap_inv h2" "values_fit h1 0" "hp_count h2 = hp_count h1"
    and "hp_compare h1 = Some f" "hp_compare h2 = Some f"
  shows "\<exists>vs1 vs2. CFBinaryHeapGetValues fresh h1 = Some vs1 \<and> CFBinaryHeapGetValues fresh h2 = Some vs2 \<and>
    CFBinaryHeapEqual fresh h1 h2 =
      Some (list_all2 (\<lambda>a b. a = b \<or> cb_fun f a b (hp_info h1) \<noteq> kCFCompareEqualTo) vs1 vs2)"
proof -
  obtain vs1 where vs1: "CFBinaryHeapGetValues fresh h1 = Some vs1"
    "mset vs1 = image_mset (stored_value h1) (heap_mset h1)"
    using GetValues_drain [OF assms(1), of fresh] assms(3) by (auto simp: values_fit_def)
  obtain vs2 where vs2: "CFBinaryHeapGetValues fresh h2 = Some vs2"
    "mset vs2 = image_mset (stored_value h2) (heap_mset h2)"
    using GetValues_drain [OF assms(2), of fresh] assms(3,4) by (auto simp: values_fit_def)
  have len: "length vs1 = hp_count h1" "length vs2 = hp_count h1"
    using vs1(2) vs2(2) heap_inv_count assms(1,2,4) by (metis size_image_mset size_mset)+
  then show ?thesis
    using vs1 vs2 assms(4-6)
    by (cases "hp_count h1 = 0") (simp_all add: CFBinaryHeapEqual_def heap_equal_loop_iff)
qed

lemma heap_equal_inverted_witness:
  "CFBinaryHeapEqual (\<lambda>_. 0) (tens_heap [31]) (tens_heap [32]) = Some False \<and>
   CFBinaryHeapEqual (\<lambda>_. 0) (tens_heap [31]) (tens_heap [77]) = Some True"
proof -
  have h: "heap_inv (tens_heap [x])" "values_fit (tens_heap [x]) 0" "hp_count (tens_heap [x]) = 1"
    "hp_compare (tens_heap [x]) = Some \<lparr>cb_addr = 2, cb_fun = compare_tens\<rparr>" for x
    using tens_heap_inv [of "[x]"] heap_inv_count [of "tens_heap [x]"] by (simp_all add: values_fit_def)
  have "CFBinaryHeapGetValues (\<lambda>_. 0) (tens_heap [x]) = Some [x]" if "x \<in> {31, 32, 77}" for x
    using that by (elim insertE emptyE; hypsubst; code_simp)
  then show ?thesis
    using heap_equal_inverted [OF h(1) h(1) h(2) _ h(4) h(4), of 32 31 "\<lambda>_. 0"]
      heap_equal_inverted [OF h(1) h(1) h(2) _ h(4) h(4), of 77 31 "\<lambda>_. 0"] h(3)
    by (simp add: compare_tens_def)
qed

end
