(* ===== verification/CF_Sort.thy ===== *)
theory CF_Sort
  imports CF_Compare
begin

text \<open>
  CFSortFunctions.c: the merge sort behind CFSortIndexes, CFQSortArray and CFMergeSortArray; and
  CFBSearch of CFUtilities.c, the binary search on what they sort.  A C pointer into an array
  (\<open>listp + half_cnt\<close>) is an offset into the one list that models the array.  The comparator is an
  argument: a block over two values in one variant of the source, \<open>__CFNaturallyStableComparison\<close>
  on the two elements the indexes designate in the other.
\<close>

subsection \<open>The source\<close>

text \<open>\<open>while (idx--) listp[idx] = tmp[idx]\<close>.\<close>

fun copy_back :: "'v list \<Rightarrow> nat \<Rightarrow> 'v list \<Rightarrow> nat \<Rightarrow> 'v list option" where
  "copy_back listp off tmp 0 = Some listp"
| "copy_back listp off tmp (Suc idx) =
     do { v \<leftarrow> rd tmp idx; listp \<leftarrow> wr listp (off + idx) v; copy_back listp off tmp idx }"

text \<open>\<open>for (t = cnt1 + cnt2 - 1; idx <= t; t--) listp[t] = listp[t - cnt2]\<close>; the last argument is
  \<open>t + 1\<close>.\<close>

fun shift_tail :: "'v list \<Rightarrow> nat \<Rightarrow> nat \<Rightarrow> nat \<Rightarrow> nat \<Rightarrow> 'v list option" where
  "shift_tail listp off cnt2 idx 0 = Some listp"
| "shift_tail listp off cnt2 idx (Suc t) =
     (if idx \<le> t
      then if off + t < cnt2 then None
      else do { v \<leftarrow> rd listp (off + t - cnt2); listp \<leftarrow> wr listp (off + t) v;
                shift_tail listp off cnt2 idx t }
      else Some listp)"

function merge_loop ::
  "('v \<Rightarrow> 'v \<Rightarrow> CFComparisonResult) \<Rightarrow> 'v list \<Rightarrow> nat \<Rightarrow> nat \<Rightarrow> nat \<Rightarrow> 'v list \<Rightarrow>
     nat \<Rightarrow> nat \<Rightarrow> nat \<Rightarrow> ('v list \<times> 'v list) option" where
  "merge_loop cmp listp off cnt1 cnt2 tmp idx idx1 idx2 =
     (if cnt1 \<le> idx1 then
        do { listp \<leftarrow> copy_back listp off tmp idx; Some (listp, tmp) }
      else if cnt1 + cnt2 \<le> idx2 then
        do { listp \<leftarrow> shift_tail listp off cnt2 idx (cnt1 + cnt2);
             listp \<leftarrow> copy_back listp off tmp idx;
             Some (listp, tmp) }
      else
        do { v1 \<leftarrow> rd listp (off + idx1);
             v2 \<leftarrow> rd listp (off + idx2);
             if cmp v1 v2 \<le> 0
             then do { tmp \<leftarrow> wr tmp idx v1;
                       merge_loop cmp listp off cnt1 cnt2 tmp (idx + 1) (idx1 + 1) idx2 }
             else do { tmp \<leftarrow> wr tmp idx v2;
                       merge_loop cmp listp off cnt1 cnt2 tmp (idx + 1) idx1 (idx2 + 1) } })"
  by pat_completeness auto
termination
  by (relation "measure (\<lambda>(_, _, _, cnt1, cnt2, _, _, idx1, idx2). (cnt1 - idx1) + (cnt1 + cnt2 - idx2))")
     auto

declare merge_loop.simps [simp del]

definition CFSimpleMerge ::
  "('v \<Rightarrow> 'v \<Rightarrow> CFComparisonResult) \<Rightarrow> 'v list \<Rightarrow> nat \<Rightarrow> nat \<Rightarrow> nat \<Rightarrow> 'v list \<Rightarrow>
     ('v list \<times> 'v list) option" where
  "CFSimpleMerge cmp listp off cnt1 cnt2 tmp =
     (if cnt1 \<le> 0 \<or> cnt2 \<le> 0 then Some (listp, tmp)
      else do {
        ordered \<leftarrow> (if 16 < cnt1 + cnt2
                   then do { v1 \<leftarrow> rd listp (off + (cnt1 - 1)); v2 \<leftarrow> rd listp (off + cnt1);
                             Some (cmp v1 v2 \<le> 0) }
                   else Some False);
        if ordered then Some (listp, tmp)
        else merge_loop cmp listp off cnt1 cnt2 tmp 0 0 cnt1 })"

definition sort3 :: "('v \<Rightarrow> 'v \<Rightarrow> CFComparisonResult) \<Rightarrow> 'v \<Rightarrow> 'v \<Rightarrow> 'v \<Rightarrow> 'v \<times> 'v \<times> 'v" where
  "sort3 cmp v0 v1 v2 =
     (let (v0, v1) = (if 0 < cmp v0 v1 then (v1, v0) else (v0, v1))
      in if 0 < cmp v1 v2
         then let (v1, v2) = (v2, v1);
                  (v0, v1) = (if 0 < cmp v0 v1 then (v1, v0) else (v0, v1))
              in (v0, v1, v2)
         else (v0, v1, v2))"

function CFSimpleMergeSort ::
  "('v \<Rightarrow> 'v \<Rightarrow> CFComparisonResult) \<Rightarrow> 'v list \<Rightarrow> nat \<Rightarrow> nat \<Rightarrow> 'v list \<Rightarrow>
     ('v list \<times> 'v list) option" where
  "CFSimpleMergeSort cmp listp off cnt tmp =
     (if cnt < 2 then Some (listp, tmp)
      else if cnt = 2 then
        do { v0 \<leftarrow> rd listp off; v1 \<leftarrow> rd listp (off + 1);
             if 0 < cmp v0 v1
             then do { listp \<leftarrow> wr listp off v1; listp \<leftarrow> wr listp (off + 1) v0; Some (listp, tmp) }
             else Some (listp, tmp) }
      else if cnt = 3 then
        do { v0 \<leftarrow> rd listp off; v1 \<leftarrow> rd listp (off + 1); v2 \<leftarrow> rd listp (off + 2);
             let (v0, v1, v2) = sort3 cmp v0 v1 v2;
             listp \<leftarrow> wr listp off v0; listp \<leftarrow> wr listp (off + 1) v1; listp \<leftarrow> wr listp (off + 2) v2;
             Some (listp, tmp) }
      else
        (let half_cnt = cnt div 2 in
         do { (listp, tmp) \<leftarrow> CFSimpleMergeSort cmp listp off half_cnt tmp;
              (listp, tmp) \<leftarrow> CFSimpleMergeSort cmp listp (off + half_cnt) (cnt - half_cnt) tmp;
              CFSimpleMerge cmp listp off half_cnt (cnt - half_cnt) tmp }))"
  by pat_completeness auto
termination
  by (relation "measure (\<lambda>(_, _, _, cnt, _). cnt)") auto

declare CFSimpleMergeSort.simps [simp del]

text \<open>
  \<open>CFSortIndexes\<close>, the sequential path: \<open>None\<close> as its inner result says that it returns before
  writing the index buffer.  \<open>fresh\<close> is the initial content of the temporary buffer.
\<close>

definition INTPTR_MAX :: nat where
  "INTPTR_MAX = 2 ^ 63 - 1"

definition CFSortIndexes ::
  "(nat \<Rightarrow> nat) \<Rightarrow> nat list \<Rightarrow> nat \<Rightarrow> (nat \<Rightarrow> nat \<Rightarrow> CFComparisonResult) \<Rightarrow> nat list option" where
  "CFSortIndexes fresh indexBuffer cnt cmp =
     (if cnt < 1 then Some indexBuffer
      else if INTPTR_MAX div 8 < cnt then Some indexBuffer
      else do { indexBuffer \<leftarrow> mem_write indexBuffer 0 [0..<cnt];
                (indexBuffer, tmp) \<leftarrow> CFSimpleMergeSort cmp indexBuffer 0 cnt (map fresh [0..<cnt]);
                Some indexBuffer })"

text \<open>
  The permutation of the elements, of \<open>elementSize\<close> bytes each, into \<open>store\<close>.  Both branches of the
  source copy the element's bytes: as one machine word when the element is as large as a pointer.
\<close>

definition element :: "8 word list \<Rightarrow> nat \<Rightarrow> nat \<Rightarrow> 8 word list" where
  "element list elementSize i = take elementSize (drop (i * elementSize) list)"

fun permute_loop ::
  "8 word list \<Rightarrow> nat \<Rightarrow> nat list \<Rightarrow> 8 word list \<Rightarrow> nat \<Rightarrow> nat \<Rightarrow> 8 word list option" where
  "permute_loop list elementSize indexes store idx 0 = Some store"
| "permute_loop list elementSize indexes store idx (Suc n) =
     do { i \<leftarrow> rd indexes idx;
          store \<leftarrow> memmove store (idx * elementSize) list (i * elementSize) elementSize;
          permute_loop list elementSize indexes store (idx + 1) n }"

definition CFMergeSortArray ::
  "(nat \<Rightarrow> nat) \<Rightarrow> (nat \<Rightarrow> 8 word) \<Rightarrow> 8 word list \<Rightarrow> nat \<Rightarrow> nat \<Rightarrow>
     (8 word list \<Rightarrow> 8 word list \<Rightarrow> CFComparisonResult) \<Rightarrow> 8 word list option" where
  "CFMergeSortArray fresh fresh8 list cnt elementSize compare =
     (if cnt < 2 \<or> elementSize < 1 then Some list
      else do {
        indexes \<leftarrow> CFSortIndexes fresh (map fresh [0..<cnt]) cnt
          (\<lambda>a b. compare (element list elementSize a) (element list elementSize b));
        store \<leftarrow> permute_loop list elementSize indexes (map fresh8 [0..<cnt * elementSize]) 0 cnt;
        memmove list 0 store 0 (cnt * elementSize) })"

definition CFQSortArray ::
  "(nat \<Rightarrow> nat) \<Rightarrow> (nat \<Rightarrow> 8 word) \<Rightarrow> 8 word list \<Rightarrow> nat \<Rightarrow> nat \<Rightarrow>
     (8 word list \<Rightarrow> 8 word list \<Rightarrow> CFComparisonResult) \<Rightarrow> 8 word list option" where
  "CFQSortArray fresh fresh8 list cnt elementSize compare =
     (if cnt < 2 \<or> elementSize < 1 then Some list
      else do {
        indexes \<leftarrow> CFSortIndexes fresh (map fresh [0..<cnt]) cnt
          (\<lambda>a b. compare (element list elementSize a) (element list elementSize b));
        store \<leftarrow> permute_loop list elementSize indexes (map fresh8 [0..<cnt * elementSize]) 0 cnt;
        memmove list 0 store 0 (cnt * elementSize) })"

text \<open>
  The same sort where the elements are pointers: the branch \<open>sizeof(uintptr_t) == elementSize\<close>, in
  which whole words are moved.
\<close>

fun permute_words :: "'p list \<Rightarrow> nat list \<Rightarrow> 'p list \<Rightarrow> nat \<Rightarrow> nat \<Rightarrow> 'p list option" where
  "permute_words list indexes store idx 0 = Some store"
| "permute_words list indexes store idx (Suc n) =
     do { i \<leftarrow> rd indexes idx; a \<leftarrow> rd list i; store \<leftarrow> wr store idx a;
          permute_words list indexes store (idx + 1) n }"

definition CFQSortPointers ::
  "(nat \<Rightarrow> nat) \<Rightarrow> (nat \<Rightarrow> 'p) \<Rightarrow> 'p list \<Rightarrow> nat \<Rightarrow> ('p \<Rightarrow> 'p \<Rightarrow> CFComparisonResult) \<Rightarrow> 'p list option" where
  "CFQSortPointers fresh freshp list cnt compare =
     (if cnt < 2 then Some list
      else do {
        indexes \<leftarrow> CFSortIndexes fresh (map fresh [0..<cnt]) cnt (\<lambda>a b. compare (list ! a) (list ! b));
        store \<leftarrow> permute_words list indexes (map freshp [0..<cnt]) 0 cnt;
        memmove list 0 store 0 cnt })"

text \<open>
  \<open>CFBSearch\<close>: \<open>ptr\<close> is the index of an element; the result is the index of an equal element or
  the insertion point.
\<close>

function bsearch_loop :: "('e \<Rightarrow> 'v \<Rightarrow> CFComparisonResult) \<Rightarrow> 'e \<Rightarrow> 'v list \<Rightarrow> nat \<Rightarrow> nat \<Rightarrow> nat option" where
  "bsearch_loop compare elem list ptr cnt =
     (if 0 < cnt
      then (let half = cnt div 2; probe = ptr + half in
        do { v \<leftarrow> rd list probe;
             let cr = compare elem v;
             if 0 = cr then Some probe
             else bsearch_loop compare elem list (if cr < 0 then ptr else probe + 1)
                    (if cr < 0 then half else half + (cnt AND 1) - 1) })
      else Some ptr)"
  by pat_completeness auto
termination
  by (relation "measure (\<lambda>(_, _, _, _, cnt). cnt)") (auto simp: and_one_eq)

declare bsearch_loop.simps [simp del]

definition CFBSearch :: "('e \<Rightarrow> 'v \<Rightarrow> CFComparisonResult) \<Rightarrow> 'e \<Rightarrow> 'v list \<Rightarrow> nat \<Rightarrow> nat option" where
  "CFBSearch compare elem list cnt = bsearch_loop compare elem list 0 cnt"

subsection \<open>Segments of an array\<close>

definition segment :: "'v list \<Rightarrow> nat \<Rightarrow> nat \<Rightarrow> 'v list" where
  "segment xs off n = take n (drop off xs)"

definition put_segment :: "'v list \<Rightarrow> nat \<Rightarrow> 'v list \<Rightarrow> 'v list" where
  "put_segment xs off ys = take off xs @ ys @ drop (off + length ys) xs"

lemma length_segment [simp]: "off + n \<le> length xs \<Longrightarrow> length (segment xs off n) = n"
  by (simp add: segment_def)

lemma nth_segment [simp]: "off + n \<le> length xs \<Longrightarrow> i < n \<Longrightarrow> segment xs off n ! i = xs ! (off + i)"
  by (simp add: segment_def)

lemma length_put_segment [simp]: "off + length ys \<le> length xs \<Longrightarrow> length (put_segment xs off ys) = length xs"
  by (simp add: put_segment_def)

lemma nth_put_segment:
  "off + length ys \<le> length xs \<Longrightarrow> i < length xs \<Longrightarrow>
    put_segment xs off ys ! i = (if off \<le> i \<and> i < off + length ys then ys ! (i - off) else xs ! i)"
  by (auto simp: put_segment_def nth_append min_def)

lemma put_segmentI:
  assumes "off + length ys \<le> length xs" "length zs = length xs"
    and "\<And>i. i < length xs \<Longrightarrow> zs ! i = (if off \<le> i \<and> i < off + length ys then ys ! (i - off) else xs ! i)"
  shows "zs = put_segment xs off ys"
  using assms by (intro nth_equalityI) (simp_all add: nth_put_segment)

lemma segment_put_same [simp]:
  "off + length ys \<le> length xs \<Longrightarrow> n = length ys \<Longrightarrow> segment (put_segment xs off ys) off n = ys"
  by (simp add: segment_def put_segment_def)

lemma segment_put_other:
  "off + length ys \<le> length xs \<Longrightarrow> o' + n \<le> length xs \<Longrightarrow> o' + n \<le> off \<or> off + length ys \<le> o' \<Longrightarrow>
    segment (put_segment xs off ys) o' n = segment xs o' n"
  by (intro nth_equalityI) (auto simp: nth_put_segment)

lemma put_segment_self: "off + n \<le> length xs \<Longrightarrow> put_segment xs off (segment xs off n) = xs"
  by (intro nth_equalityI) (auto simp: nth_put_segment)

lemma put_put_adjacent:
  "off + length ys + length zs \<le> length xs \<Longrightarrow> o' = off + length ys \<Longrightarrow>
    put_segment (put_segment xs off ys) o' zs = put_segment xs off (ys @ zs)"
  by (intro put_segmentI) (auto simp: nth_put_segment nth_append)

lemma put_put_same:
  "off + length ys \<le> length xs \<Longrightarrow> length zs = length ys \<Longrightarrow>
    put_segment (put_segment xs off ys) off zs = put_segment xs off zs"
  by (intro put_segmentI) (auto simp: nth_put_segment)

lemma segment_append:
  "off + (m + n) \<le> length xs \<Longrightarrow> segment xs off (m + n) = segment xs off m @ segment xs (off + m) n"
  by (intro nth_equalityI) (auto simp: nth_append add.assoc)

lemma drop_segment: "k \<le> n \<Longrightarrow> drop k (segment xs off n) = segment xs (off + k) (n - k)"
  by (simp add: segment_def drop_take add.commute)

lemma segment_Cons:
  "off + Suc n \<le> length xs \<Longrightarrow> segment xs off (Suc n) = xs ! off # segment xs (Suc off) n"
  by (simp add: segment_def take_Suc_drop del: take_Suc_Cons)

subsection \<open>Merging\<close>

lemma copy_back_correct:
  "off + idx \<le> length listp \<Longrightarrow> idx \<le> length tmp \<Longrightarrow>
    copy_back listp off tmp idx = Some (put_segment listp off (take idx tmp))"
proof (induction idx arbitrary: listp)
  case 0
  then show ?case by (simp add: put_segment_def)
next
  case (Suc idx)
  let ?l = "listp[off + idx := tmp ! idx]"
  have "put_segment ?l off (take idx tmp) = put_segment listp off (take (Suc idx) tmp)"
    using Suc.prems by (intro put_segmentI) (auto simp: nth_put_segment nth_list_update)
  then show ?case using Suc by (simp add: cf_mem)
qed

lemma shift_tail_correct:
  "off + t \<le> length listp \<Longrightarrow> 0 < cnt2 \<Longrightarrow> cnt2 \<le> idx \<Longrightarrow> idx \<le> t \<Longrightarrow>
    shift_tail listp off cnt2 idx t =
      Some (put_segment listp (off + idx) (segment listp (off + idx - cnt2) (t - idx)))"
proof (induction t arbitrary: listp)
  case 0
  then show ?case by simp
next
  case (Suc t)
  show ?case
  proof (cases "idx \<le> t")
    case False
    with Suc.prems have "idx = Suc t" by simp
    then show ?thesis by (simp add: put_segment_def segment_def)
  next
    case True
    let ?l = "listp[off + t := listp ! (off + t - cnt2)]"
    have "put_segment ?l (off + idx) (segment ?l (off + idx - cnt2) (t - idx)) =
        put_segment listp (off + idx) (segment listp (off + idx - cnt2) (Suc t - idx))"
      using Suc.prems True
      by (intro put_segmentI) (auto simp: nth_put_segment nth_list_update intro!: arg_cong [of _ _ "nth listp"])
    then show ?thesis using Suc True by (simp add: cf_mem)
  qed
qed

fun merge_lists :: "('v \<Rightarrow> 'v \<Rightarrow> CFComparisonResult) \<Rightarrow> 'v list \<Rightarrow> 'v list \<Rightarrow> 'v list" where
  "merge_lists cmp [] ys = ys"
| "merge_lists cmp xs [] = xs"
| "merge_lists cmp (x # xs) (y # ys) =
     (if cmp x y \<le> 0 then x # merge_lists cmp xs (y # ys) else y # merge_lists cmp (x # xs) ys)"

lemma length_merge_lists [simp]: "length (merge_lists cmp xs ys) = length xs + length ys"
  by (induction cmp xs ys rule: merge_lists.induct) auto

lemma merge_lists_Nil2 [simp]: "merge_lists cmp xs [] = xs"
  by (cases xs) auto

lemma mset_merge_lists [simp]: "mset (merge_lists cmp xs ys) = mset xs + mset ys"
  by (induction cmp xs ys rule: merge_lists.induct) auto

lemma put_segment_keep:
  "off + n \<le> length xs \<Longrightarrow> length ys \<le> n \<Longrightarrow>
    put_segment xs off (ys @ segment xs (off + length ys) (n - length ys)) = put_segment xs off ys"
  by (intro put_segmentI) (auto simp: nth_put_segment nth_append)

lemma put_put_before:
  "off + length ys + length zs \<le> length xs \<Longrightarrow> o' = off + length ys \<Longrightarrow>
    put_segment (put_segment xs o' zs) off ys = put_segment xs off (ys @ zs)"
  by (intro put_segmentI) (auto simp: nth_put_segment nth_append)

lemma drop_segment_Cons:
  "k < n \<Longrightarrow> off + n \<le> length xs \<Longrightarrow>
    drop k (segment xs off n) = xs ! (off + k) # drop (Suc k) (segment xs off n)"
  by (subst Cons_nth_drop_Suc [symmetric]) simp_all

lemma take_Suc_update: "k < length xs \<Longrightarrow> take (Suc k) (xs[k := v]) = take k xs @ [v]"
  by (simp add: take_Suc_conv_app_nth)

lemma merge_loop_correct:
  assumes "off + (cnt1 + cnt2) \<le> length listp" "0 < cnt2"
  shows "cnt1 + cnt2 \<le> length tmp \<Longrightarrow> idx1 \<le> cnt1 \<Longrightarrow> cnt1 + j \<le> cnt1 + cnt2 \<Longrightarrow>
    \<exists>tmp'. merge_loop cmp listp off cnt1 cnt2 tmp (idx1 + j) idx1 (cnt1 + j) =
      Some (put_segment listp off (take (idx1 + j) tmp @
        merge_lists cmp (drop idx1 (segment listp off cnt1)) (drop j (segment listp (off + cnt1) cnt2))), tmp')
      \<and> length tmp' = length tmp"
proof (induction "(cnt1 - idx1) + (cnt2 - j)" arbitrary: tmp idx1 j rule: less_induct)
  case less
  note ml = merge_loop.simps [of cmp listp off cnt1 cnt2 tmp "idx1 + j" idx1 "cnt1 + j"]
  consider "idx1 = cnt1" | "idx1 < cnt1" "j = cnt2" | "idx1 < cnt1" "j < cnt2"
    using less.prems by linarith
  then show ?case
  proof cases
    case 1
    have "put_segment listp off (take (cnt1 + j) tmp @ drop j (segment listp (off + cnt1) cnt2)) =
        put_segment listp off (take (cnt1 + j) tmp)"
      using put_segment_keep [of off "cnt1 + cnt2" listp "take (cnt1 + j) tmp"] assms less.prems
      by (simp add: drop_segment add.assoc)
    then show ?thesis using 1 assms less.prems ml by (simp add: copy_back_correct)
  next
    case 2
    have "put_segment (put_segment listp (off + (idx1 + cnt2)) (segment listp (off + idx1) (cnt1 - idx1)))
          off (take (idx1 + cnt2) tmp) =
        put_segment listp off (take (idx1 + cnt2) tmp @ drop idx1 (segment listp off cnt1))"
      using assms less.prems 2 by (subst put_put_before) (simp_all add: drop_segment)
    then show ?thesis
      using 2 assms less.prems ml
      by (simp add: shift_tail_correct copy_back_correct drop_segment add.assoc [symmetric])
  next
    case 3
    let ?v1 = "listp ! (off + idx1)" and ?v2 = "listp ! (off + (cnt1 + j))"
    note heads = drop_segment_Cons [OF 3(1), of off listp] drop_segment_Cons [OF 3(2), of "off + cnt1" listp]
    show ?thesis
    proof (cases "cmp ?v1 ?v2 \<le> 0")
      case True
      have "merge_loop cmp listp off cnt1 cnt2 tmp (idx1 + j) idx1 (cnt1 + j) =
          merge_loop cmp listp off cnt1 cnt2 (tmp[idx1 + j := ?v1]) (Suc idx1 + j) (Suc idx1) (cnt1 + j)"
        using 3 True assms less.prems ml by (simp add: cf_mem)
      moreover have "take (Suc idx1 + j) (tmp[idx1 + j := ?v1]) = take (idx1 + j) tmp @ [?v1]"
        using 3 less.prems by (simp add: take_Suc_update)
      ultimately show ?thesis
        using less.hyps [of "Suc idx1" j "tmp[idx1 + j := ?v1]"] 3 True assms less.prems heads
        by (simp add: add.assoc)
    next
      case False
      have "merge_loop cmp listp off cnt1 cnt2 tmp (idx1 + j) idx1 (cnt1 + j) =
          merge_loop cmp listp off cnt1 cnt2 (tmp[idx1 + j := ?v2]) (idx1 + Suc j) idx1 (cnt1 + Suc j)"
        using 3 False assms less.prems ml by (simp add: cf_mem)
      moreover have "take (idx1 + Suc j) (tmp[idx1 + j := ?v2]) = take (idx1 + j) tmp @ [?v2]"
        using 3 less.prems by (simp add: take_Suc_update)
      ultimately show ?thesis
        using less.hyps [of idx1 "Suc j" "tmp[idx1 + j := ?v2]"] 3 False assms less.prems heads
        by (simp add: add.assoc)
    qed
  qed
qed

lemma sorted_wrt_filter_nth:
  "sorted_wrt R (filter P xs) \<Longrightarrow> j < length xs \<Longrightarrow> i < j \<Longrightarrow> P (xs ! i) \<Longrightarrow> P (xs ! j) \<Longrightarrow>
    R (xs ! i) (xs ! j)"
proof (induction xs arbitrary: i j)
  case (Cons x xs)
  obtain j' where j: "j = Suc j'" using Cons.prems(3) by (cases j) auto
  show ?case
  proof (cases i)
    case 0
    then show ?thesis using Cons.prems j by auto
  next
    case (Suc i')
    then show ?thesis using Cons j by (auto split: if_splits)
  qed
qed simp

subsection \<open>Stable sorting\<close>

text \<open>
  The contract of a stable sort: a permutation, in ascending order, in which the elements that
  compare equal to any given one stand in the order they had.
\<close>

definition stable_sort_of :: "('v \<Rightarrow> 'v \<Rightarrow> CFComparisonResult) \<Rightarrow> 'v list \<Rightarrow> 'v list \<Rightarrow> bool" where
  "stable_sort_of cmp xs ys \<longleftrightarrow> mset ys = mset xs \<and> sorted_wrt (\<lambda>a b. cmp a b \<le> 0) ys \<and>
     (\<forall>k. filter (\<lambda>x. cmp k x = 0) ys = filter (\<lambda>x. cmp k x = 0) xs)"

lemma stable_sort_of_length: "stable_sort_of cmp xs ys \<Longrightarrow> length ys = length xs"
  by (metis stable_sort_of_def size_mset)

context comparator begin

lemma sorted_merge_lists:
  "sorted_wrt (\<lambda>a b. cmp a b \<le> 0) xs \<Longrightarrow> sorted_wrt (\<lambda>a b. cmp a b \<le> 0) ys \<Longrightarrow>
    sorted_wrt (\<lambda>a b. cmp a b \<le> 0) (merge_lists cmp xs ys)"
proof (induction c \<equiv> cmp xs ys rule: merge_lists.induct)
  case (3 x xs y ys)
  have set: "set (merge_lists cmp as bs) = set as \<union> set bs" for as bs
    by (metis mset_merge_lists set_mset_mset set_mset_union)
  show ?case
  proof (cases "cmp x y \<le> 0")
    case True
    with 3 show ?thesis by (auto simp: set intro: cmp_trans)
  next
    case False
    then have "cmp y x \<le> 0" using cmp_total by blast
    with False 3 show ?thesis by (auto simp: set intro: cmp_trans)
  qed
qed simp_all

lemma equal_below_none:
  assumes "sorted_wrt (\<lambda>a b. cmp a b \<le> 0) (x # xs)" "0 < cmp x y" "cmp k y = 0"
  shows "filter (\<lambda>x. cmp k x = 0) (x # xs) = []"
proof -
  have "cmp k z \<noteq> 0" if "z \<in> set (x # xs)" for z
  proof
    assume "cmp k z = 0"
    have "cmp x z \<le> 0" using assms(1) that cmp_refl by auto
    moreover have "cmp z k \<le> 0" using \<open>cmp k z = 0\<close> cmp_zero_sym [of k z] by simp
    ultimately have "cmp x k \<le> 0" by (rule cmp_trans)
    then have "cmp x y \<le> 0" using assms(3) cmp_trans by simp
    with assms(2) show False by simp
  qed
  then show ?thesis by (simp add: filter_empty_conv)
qed

lemma filter_merge_lists:
  "sorted_wrt (\<lambda>a b. cmp a b \<le> 0) xs \<Longrightarrow>
    filter (\<lambda>x. cmp k x = 0) (merge_lists cmp xs ys) =
      filter (\<lambda>x. cmp k x = 0) xs @ filter (\<lambda>x. cmp k x = 0) ys"
proof (induction c \<equiv> cmp xs ys rule: merge_lists.induct)
  case (3 x xs y ys)
  show ?case
  proof (cases "cmp x y \<le> 0")
    case True
    with 3 show ?thesis by auto
  next
    case False
    show ?thesis
    proof (cases "cmp k y = 0")
      case True
      then have "filter (\<lambda>x. cmp k x = 0) (x # xs) = []"
        using False by (intro equal_below_none [OF 3(3) _ True]) simp
      then show ?thesis using 3(2) [OF _ 3(3)] False True by (simp split: if_splits)
    next
      case not: False
      then show ?thesis using 3(2) [OF _ 3(3)] False by simp
    qed
  qed
qed simp_all

lemma merge_lists_stable:
  assumes "stable_sort_of cmp xs xs'" "stable_sort_of cmp ys ys'"
  shows "stable_sort_of cmp (xs @ ys) (merge_lists cmp xs' ys')"
  using assms sorted_merge_lists filter_merge_lists by (simp add: stable_sort_of_def)

lemma merge_lists_ordered:
  "sorted_wrt (\<lambda>a b. cmp a b \<le> 0) xs \<Longrightarrow> sorted_wrt (\<lambda>a b. cmp a b \<le> 0) ys \<Longrightarrow>
    xs \<noteq> [] \<Longrightarrow> ys \<noteq> [] \<Longrightarrow> cmp (last xs) (hd ys) \<le> 0 \<Longrightarrow> merge_lists cmp xs ys = xs @ ys"
proof (induction c \<equiv> cmp xs ys rule: merge_lists.induct)
  case (3 x xs y ys)
  have "cmp x y \<le> 0"
  proof (cases "xs = []")
    case True
    with 3 show ?thesis by simp
  next
    case False
    then have "cmp x (last xs) \<le> 0" using 3(3) last_in_set by auto
    then show ?thesis using 3(7) False cmp_trans by auto
  qed
  then show ?case using 3 by (cases "xs = []") (auto split: if_splits)
qed simp_all

lemma sort2_stable: "stable_sort_of cmp [v0, v1] (if 0 < cmp v0 v1 then [v1, v0] else [v0, v1])"
proof -
  have "\<not> (cmp k v0 = 0 \<and> cmp k v1 = 0)" if "0 < cmp v0 v1" for k
    using that cmp_zero_sym [of k v0] cmp_trans [of v0 k v1] by auto
  then show ?thesis using cmp_total [of v0 v1] by (auto simp: stable_sort_of_def)
qed

text \<open>The three comparisons of the case \<open>cnt = 3\<close> are two insertions.\<close>

lemma merge_lists_insert:
  "cmp p q \<le> 0 \<Longrightarrow> merge_lists cmp [p, q] [v2] =
    (if 0 < cmp q v2 then if 0 < cmp p v2 then [v2, p, q] else [p, v2, q] else [p, q, v2])"
  using cmp_trans [of p q v2] by auto

lemma sort3_merge:
  "sort3 cmp v0 v1 v2 = (a, b, c) \<Longrightarrow>
    [a, b, c] = merge_lists cmp (if 0 < cmp v0 v1 then [v1, v0] else [v0, v1]) [v2]"
  using merge_lists_insert [of v0 v1 v2] merge_lists_insert [of v1 v0 v2] cmp_total [of v0 v1]
  by (cases "0 < cmp v0 v1"; simp add: sort3_def split: if_split_asm del: merge_lists.simps)

lemma sort3_stable:
  "sort3 cmp v0 v1 v2 = (a, b, c) \<Longrightarrow> stable_sort_of cmp [v0, v1, v2] [a, b, c]"
  using merge_lists_stable [OF sort2_stable [of v0 v1], of "[v2]" "[v2]"] sort3_merge [of v0 v1 v2 a b c]
  by (simp add: stable_sort_of_def)

lemma SimpleMerge_correct:
  assumes "off + (cnt1 + cnt2) \<le> length listp" "cnt1 + cnt2 \<le> length tmp"
    and "sorted_wrt (\<lambda>a b. cmp a b \<le> 0) (segment listp off cnt1)"
    and "sorted_wrt (\<lambda>a b. cmp a b \<le> 0) (segment listp (off + cnt1) cnt2)"
  shows "\<exists>tmp'. CFSimpleMerge cmp listp off cnt1 cnt2 tmp =
      Some (put_segment listp off
        (merge_lists cmp (segment listp off cnt1) (segment listp (off + cnt1) cnt2)), tmp') \<and>
      length tmp' = length tmp"
proof -
  let ?A = "segment listp off cnt1" and ?B = "segment listp (off + cnt1) cnt2"
  have whole: "put_segment listp off (?A @ ?B) = listp"
    using put_segment_self [OF assms(1)] segment_append [OF assms(1)] by simp
  consider "cnt1 = 0 \<or> cnt2 = 0"
    | "0 < cnt1" "0 < cnt2" "16 < cnt1 + cnt2" "cmp (listp ! (off + (cnt1 - 1))) (listp ! (off + cnt1)) \<le> 0"
    | "0 < cnt1" "0 < cnt2" "\<not> (16 < cnt1 + cnt2 \<and> cmp (listp ! (off + (cnt1 - 1))) (listp ! (off + cnt1)) \<le> 0)"
    by blast
  then show ?thesis
  proof cases
    case 1
    then have "merge_lists cmp ?A ?B = ?A @ ?B" by (auto simp: segment_def)
    then show ?thesis using 1 whole by (auto simp: CFSimpleMerge_def)
  next
    case 2
    have len: "length ?A = cnt1" "length ?B = cnt2" using assms(1) by simp_all
    then have ne: "?A \<noteq> []" "?B \<noteq> []" using 2 by auto
    moreover have "last ?A = listp ! (off + (cnt1 - 1))"
      using ne len 2 assms(1) by (simp add: last_conv_nth)
    moreover have "hd ?B = listp ! (off + cnt1)"
      using ne len 2 assms(1) by (simp add: hd_conv_nth)
    ultimately have "merge_lists cmp ?A ?B = ?A @ ?B"
      using 2 assms(3,4) by (intro merge_lists_ordered) simp_all
    then show ?thesis using 2 whole assms(1) by (simp add: CFSimpleMerge_def cf_mem)
  next
    case 3
    then show ?thesis
      using merge_loop_correct [OF assms(1), of tmp 0 0 cmp] assms(1,2)
      by (auto simp: CFSimpleMerge_def cf_mem)
  qed
qed

lemma SimpleMergeSort_correct:
  "off + cnt \<le> length listp \<Longrightarrow> cnt \<le> length tmp \<Longrightarrow>
    \<exists>ys tmp'. CFSimpleMergeSort cmp listp off cnt tmp = Some (put_segment listp off ys, tmp') \<and>
      length tmp' = length tmp \<and> stable_sort_of cmp (segment listp off cnt) ys"
proof (induction cnt arbitrary: off listp tmp rule: less_induct)
  case (less cnt)
  note ms = CFSimpleMergeSort.simps [of cmp listp off cnt tmp]
  consider "cnt < 2" | "cnt = 2" | "cnt = 3" | "3 < cnt" by linarith
  then show ?case
  proof cases
    case 1
    then have "stable_sort_of cmp (segment listp off cnt) (segment listp off cnt)"
      using sorted_wrt01 [of "segment listp off cnt"] less.prems by (simp add: stable_sort_of_def)
    then show ?thesis using 1 ms put_segment_self [OF less.prems(1)]
      by - (rule exI [of _ "segment listp off cnt"], rule exI [of _ tmp], simp)
  next
    case 2
    let ?a = "listp ! off" and ?b = "listp ! (off + 1)"
    have seg: "segment listp off cnt = [?a, ?b]"
      using 2 less.prems by (simp add: numeral_eq_Suc segment_Cons) (simp add: segment_def)
    have "put_segment listp off [?b, ?a] = listp[off := ?b, off + 1 := ?a]"
      using 2 less.prems by (intro put_segmentI [symmetric]) (auto simp: nth_list_update less_Suc_eq nth_Cons')
    moreover have "put_segment listp off [?a, ?b] = listp"
      using put_segment_self [OF less.prems(1)] seg by simp
    ultimately show ?thesis
      using 2 less.prems ms sort2_stable [of ?a ?b] seg
      by - (rule exI [of _ "if 0 < cmp ?a ?b then [?b, ?a] else [?a, ?b]"], rule exI [of _ tmp],
        simp add: cf_mem)
  next
    case 3
    let ?a = "listp ! off" and ?b = "listp ! (off + 1)" and ?c = "listp ! (off + 2)"
    have seg: "segment listp off cnt = [?a, ?b, ?c]"
      using 3 less.prems by (simp add: numeral_eq_Suc segment_Cons) (simp add: segment_def)
    obtain x y z where xyz: "sort3 cmp ?a ?b ?c = (x, y, z)" by (metis prod_cases3)
    have "put_segment listp off [x, y, z] = listp[off := x, off + 1 := y, off + 2 := z]"
      using 3 less.prems by (intro put_segmentI [symmetric]) (auto simp: nth_list_update less_Suc_eq nth_Cons')
    then show ?thesis
      using 3 less.prems ms sort3_stable [OF xyz] seg xyz
      by - (rule exI [of _ "[x, y, z]"], rule exI [of _ tmp], simp add: cf_mem)
  next
    case 4
    obtain h m where hm: "h = cnt div 2" "m = cnt - h" "h + m = cnt" "h < cnt" "m < cnt"
      using that [of "cnt div 2" "cnt - cnt div 2"] 4 by auto
    obtain ys1 tmp1 where one: "CFSimpleMergeSort cmp listp off h tmp = Some (put_segment listp off ys1, tmp1)"
      "length tmp1 = length tmp" "stable_sort_of cmp (segment listp off h) ys1"
      using less.IH [OF hm(4), of off listp tmp] less.prems hm by auto
    let ?l1 = "put_segment listp off ys1"
    have len1: "length ys1 = h" "length ?l1 = length listp"
      using stable_sort_of_length [OF one(3)] less.prems hm by auto
    obtain ys2 tmp2 where two: "CFSimpleMergeSort cmp ?l1 (off + h) m tmp1 =
        Some (put_segment ?l1 (off + h) ys2, tmp2)"
      "length tmp2 = length tmp1" "stable_sort_of cmp (segment ?l1 (off + h) m) ys2"
      using less.IH [OF hm(5), of "off + h" ?l1 tmp1] less.prems hm len1 one(2) by auto
    have seg: "segment ?l1 (off + h) m = segment listp (off + h) m"
      using less.prems hm len1 by (intro segment_put_other) auto
    have len2: "length ys2 = m"
      using stable_sort_of_length [OF two(3)] seg less.prems hm by simp
    let ?l2 = "put_segment listp off (ys1 @ ys2)"
    have l2: "put_segment ?l1 (off + h) ys2 = ?l2"
      using less.prems hm len1 len2 by (intro put_put_adjacent) auto
    have len: "length ?l2 = length listp" "length (merge_lists cmp ys1 ys2) = cnt"
      using less.prems hm len1 len2 by auto
    have "segment ?l2 off (h + m) = ys1 @ ys2"
      using less.prems hm len1 len2 by (intro segment_put_same) auto
    then have segs: "segment ?l2 off h = ys1" "segment ?l2 (off + h) m = ys2"
      using segment_append [of off h m ?l2] len len1 less.prems hm by auto
    obtain tmp3 where three: "CFSimpleMerge cmp ?l2 off h m tmp2 =
        Some (put_segment ?l2 off (merge_lists cmp ys1 ys2), tmp3)" "length tmp3 = length tmp2"
      using SimpleMerge_correct [of off h m ?l2 tmp2] segs len one two less.prems hm
      by (auto simp: stable_sort_of_def)
    have "put_segment ?l2 off (merge_lists cmp ys1 ys2) = put_segment listp off (merge_lists cmp ys1 ys2)"
      using less.prems hm len1 len2 by (intro put_put_same) auto
    moreover have "stable_sort_of cmp (segment listp off cnt) (merge_lists cmp ys1 ys2)"
      using merge_lists_stable [OF one(3) two(3)] seg segment_append [of off h m listp] less.prems hm
      by simp
    ultimately show ?thesis
      using ms 4 hm one two three l2 by (auto simp: Let_def)
  qed
qed

end


subsection \<open>Indexes and elements\<close>

lemma comparator_pullback: "comparator cmp \<Longrightarrow> comparator (\<lambda>a b. cmp (f a) (f b))"
  unfolding comparator_def by blast

lemma stable_sort_of_map:
  assumes "comparator cmp" "stable_sort_of (\<lambda>a b. cmp (f a) (f b)) xs ys"
  shows "stable_sort_of cmp (map f xs) (map f ys)"
proof -
  have m: "mset ys = mset xs" using assms(2) by (simp add: stable_sort_of_def)
  have "filter (\<lambda>x. cmp k x = 0) (map f ys) = filter (\<lambda>x. cmp k x = 0) (map f xs)" for k
  proof (cases "\<exists>i \<in> set xs. cmp k (f i) = 0")
    case False
    then have "filter (\<lambda>x. cmp k x = 0) (map f xs) = []" by (auto simp: filter_empty_conv)
    moreover have "filter (\<lambda>x. cmp k x = 0) (map f ys) = []"
      using False mset_eq_setD [OF m] by (auto simp: filter_empty_conv)
    ultimately show ?thesis by simp
  next
    case True
    then obtain i where i: "cmp k (f i) = 0" by blast
    have "cmp k x = 0 \<longleftrightarrow> cmp (f i) x = 0" for x
      using comparator.cmp_equal_left [OF assms(1) i] by blast
    then show ?thesis using assms(2) by (simp add: stable_sort_of_def filter_map comp_def)
  qed
  then show ?thesis
    using assms(2) m by (simp add: stable_sort_of_def sorted_wrt_map)
qed

lemma SortIndexes_correct:
  assumes "comparator cmp" "cnt \<le> length buf" "0 < cnt" "cnt \<le> INTPTR_MAX div 8"
  shows "\<exists>ys. CFSortIndexes fresh buf cnt cmp = Some (ys @ drop cnt buf) \<and>
    stable_sort_of cmp [0..<cnt] ys"
proof -
  let ?b = "[0..<cnt] @ drop cnt buf"
  have seg: "segment ?b 0 cnt = [0..<cnt]" by (simp add: segment_def)
  obtain ys tmp where ys: "CFSimpleMergeSort cmp ?b 0 cnt (map fresh [0..<cnt]) = Some (put_segment ?b 0 ys, tmp)"
    "stable_sort_of cmp [0..<cnt] ys"
    using comparator.SimpleMergeSort_correct [OF assms(1), of 0 cnt ?b "map fresh [0..<cnt]"] assms(2) seg
    by auto
  then have "put_segment ?b 0 ys = ys @ drop cnt buf"
    using stable_sort_of_length [OF ys(2)] by (simp add: put_segment_def)
  then show ?thesis using ys assms by (simp add: CFSortIndexes_def cf_mem)
qed

lemma permute_loop_correct:
  "\<forall>i \<in> set indexes. Suc i * es \<le> length list \<Longrightarrow> idx + n \<le> length indexes \<Longrightarrow>
    (idx + n) * es \<le> length store \<Longrightarrow>
    permute_loop list es indexes store idx n =
      Some (put_segment store (idx * es) (concat (map (element list es) (take n (drop idx indexes)))))"
proof (induction n arbitrary: idx store)
  case 0
  then show ?case by (simp add: put_segment_def)
next
  case (Suc n)
  let ?i = "indexes ! idx" and ?rest = "concat (map (element list es) (take n (drop (Suc idx) indexes)))"
  have i: "?i * es + es \<le> length list" using Suc.prems by (auto simp: add.commute)
  have len: "idx * es + es \<le> length store" "length (element list es ?i) = es"
    using Suc.prems(3) i by (simp_all add: element_def algebra_simps)
  have el: "length (element list es j) = es" if "j \<in> set indexes" for j
    using Suc.prems(1) that by (auto simp: element_def add.commute)
  have lr: "length ?rest = n * es"
  proof -
    have "length ?rest = sum_list (map (\<lambda>_. es) (take n (drop (Suc idx) indexes)))"
      unfolding length_concat map_map
      by (intro arg_cong [of _ _ sum_list] map_cong) (auto simp: el dest!: in_set_takeD in_set_dropD)
    then show ?thesis using Suc.prems(2) by (simp add: sum_list_triv)
  qed
  have step: "memmove store (idx * es) list (?i * es) es = Some (put_segment store (idx * es) (element list es ?i))"
    using i len by (simp add: cf_mem put_segment_def element_def)
  let ?s = "put_segment store (idx * es) (element list es ?i)"
  have "permute_loop list es indexes ?s (Suc idx) n = Some (put_segment ?s (Suc idx * es) ?rest)"
    using Suc.IH [of "Suc idx" ?s] Suc.prems len by (simp add: algebra_simps)
  also have "put_segment ?s (Suc idx * es) ?rest = put_segment store (idx * es) (element list es ?i @ ?rest)"
    using len lr Suc.prems(3) by (intro put_put_adjacent) (simp_all add: algebra_simps)
  finally show ?case
    using Suc.prems(2) step by (simp add: cf_mem take_Suc_drop del: take_Suc_Cons)
qed

definition elements :: "8 word list \<Rightarrow> nat \<Rightarrow> nat \<Rightarrow> 8 word list list" where
  "elements list elementSize cnt = map (element list elementSize) [0..<cnt]"

lemma elements_concat:
  "\<forall>b \<in> set bs. length b = es \<Longrightarrow> elements (concat bs @ rest) es (length bs) = bs"
proof (induction bs)
  case (Cons b bs)
  have "element (concat (b # bs) @ rest) es (Suc i) = element (concat bs @ rest) es i" for i
    using Cons.prems by (simp add: element_def)
  then have "elements (concat (b # bs) @ rest) es (Suc (length bs)) = b # elements (concat bs @ rest) es (length bs)"
    using Cons.prems by (simp add: elements_def map_upt_Suc element_def del: upt_Suc)
  then show ?case using Cons by simp
qed (simp add: elements_def)

lemma MergeSortArray_correct:
  assumes "comparator compare" "2 \<le> cnt" "1 \<le> es" "cnt \<le> INTPTR_MAX div 8" "cnt * es \<le> length list"
  shows "\<exists>list'. CFMergeSortArray fresh fresh8 list cnt es compare = Some list' \<and>
    length list' = length list \<and> drop (cnt * es) list' = drop (cnt * es) list \<and>
    stable_sort_of compare (elements list es cnt) (elements list' es cnt)"
proof -
  let ?cmp = "\<lambda>a b. compare (element list es a) (element list es b)"
  obtain ys where ys: "CFSortIndexes fresh (map fresh [0..<cnt]) cnt ?cmp = Some ys"
    "stable_sort_of ?cmp [0..<cnt] ys"
    using SortIndexes_correct [OF comparator_pullback [OF assms(1), of "element list es"], of cnt "map fresh [0..<cnt]" fresh]
      assms by auto
  have set: "set ys = {0..<cnt}" using ys(2) mset_eq_setD [of ys "[0..<cnt]"] by (simp add: stable_sort_of_def)
  have len: "length ys = cnt" using stable_sort_of_length [OF ys(2)] by simp
  have in_list: "\<forall>i \<in> set ys. Suc i * es \<le> length list"
    using set assms(5) by (metis Suc_leI atLeastLessThan_iff le_trans mult_le_mono1)
  let ?els = "map (element list es) ys"
  have el: "\<forall>b \<in> set ?els. length b = es"
    using in_list by (auto simp: element_def add.commute)
  have lc: "length (concat ?els) = cnt * es"
    using el len by (simp add: length_concat comp_def sum_list_triv cong: map_cong)
  let ?store = "put_segment (map fresh8 [0..<cnt * es]) 0 (concat ?els)"
  have store: "permute_loop list es ys (map fresh8 [0..<cnt * es]) 0 cnt = Some ?store"
    using permute_loop_correct [OF in_list, of 0 cnt] len by simp
  have "?store = concat ?els" using lc by (simp add: put_segment_def)
  then have res: "CFMergeSortArray fresh fresh8 list cnt es compare =
      Some (concat ?els @ drop (cnt * es) list)"
    using assms ys(1) store lc by (simp add: CFMergeSortArray_def cf_mem)
  have "elements (concat ?els @ drop (cnt * es) list) es cnt = ?els"
    using elements_concat [OF el] len by simp
  moreover have "stable_sort_of compare (elements list es cnt) ?els"
    unfolding elements_def by (rule stable_sort_of_map [OF assms(1) ys(2)])
  ultimately show ?thesis using res lc assms(5) by simp
qed

lemma QSortArray_MergeSortArray: "CFQSortArray = CFMergeSortArray"
  by (simp add: CFQSortArray_def CFMergeSortArray_def fun_eq_iff)

lemma permute_words_correct:
  "\<forall>i \<in> set indexes. i < length list \<Longrightarrow> idx + n \<le> length indexes \<Longrightarrow> idx + n \<le> length store \<Longrightarrow>
    permute_words list indexes store idx n =
      Some (put_segment store idx (map (nth list) (take n (drop idx indexes))))"
proof (induction n arbitrary: idx store)
  case 0
  then show ?case by (simp add: put_segment_def)
next
  case (Suc n)
  let ?v = "list ! (indexes ! idx)"
  have v: "rd list (indexes ! idx) = Some ?v" using Suc.prems by (simp add: cf_mem)
  obtain r where r: "r = map (nth list) (take n (drop (Suc idx) indexes))" "length r = n"
    using Suc.prems by simp
  have "put_segment (store[idx := ?v]) (Suc idx) r = put_segment store idx (?v # r)"
    using Suc.prems r(2)
    by (intro put_segmentI) (auto simp: nth_put_segment nth_list_update nth_Cons')
  then show ?case
    using Suc v r(1) by (simp add: cf_mem take_Suc_drop del: take_Suc_Cons)
qed

lemma QSortPointers_correct:
  assumes "comparator cmp" "2 \<le> length list" "length list \<le> INTPTR_MAX div 8"
  shows "\<exists>list'. CFQSortPointers fresh freshp list (length list) cmp = Some list' \<and>
    stable_sort_of cmp list list'"
proof -
  let ?cnt = "length list"
  have ne: "list \<noteq> []" using assms(2) by auto
  obtain ys where ys: "CFSortIndexes fresh (map fresh [0..<?cnt]) ?cnt (\<lambda>a b. cmp (list ! a) (list ! b)) = Some ys"
    "stable_sort_of (\<lambda>a b. cmp (list ! a) (list ! b)) [0..<?cnt] ys"
    using SortIndexes_correct [OF comparator_pullback [OF assms(1), of "nth list"], of ?cnt "map fresh [0..<?cnt]" fresh]
      assms ne by auto
  have set: "set ys = {0..<?cnt}" using ys(2) mset_eq_setD [of ys "[0..<?cnt]"] by (simp add: stable_sort_of_def)
  have len: "length ys = ?cnt" using stable_sort_of_length [OF ys(2)] by simp
  have "permute_words list ys (map freshp [0..<?cnt]) 0 ?cnt = Some (map (nth list) ys)"
    using permute_words_correct [of ys list 0 ?cnt "map freshp [0..<?cnt]"] set len
    by (simp add: put_segment_def)
  then have "CFQSortPointers fresh freshp list ?cnt cmp = Some (map (nth list) ys)"
    using ys(1) assms(2) len by (simp add: CFQSortPointers_def cf_mem)
  moreover have "stable_sort_of cmp list (map (nth list) ys)"
    using stable_sort_of_map [OF assms(1) ys(2)] by (simp add: map_nth)
  ultimately show ?thesis by blast
qed

subsection \<open>Binary search\<close>

text \<open>What the search relies on: the results of the probes are positive, then zero, then negative.\<close>

definition ordered_for :: "('e \<Rightarrow> 'v \<Rightarrow> CFComparisonResult) \<Rightarrow> 'e \<Rightarrow> 'v list \<Rightarrow> nat \<Rightarrow> bool" where
  "ordered_for compare elem list cnt \<longleftrightarrow> (\<forall>j < cnt. \<forall>i < j.
     (0 \<le> compare elem (list ! j) \<longrightarrow> 0 \<le> compare elem (list ! i)) \<and>
     (0 < compare elem (list ! j) \<longrightarrow> 0 < compare elem (list ! i)))"

definition search_result :: "('e \<Rightarrow> 'v \<Rightarrow> CFComparisonResult) \<Rightarrow> 'e \<Rightarrow> 'v list \<Rightarrow> nat \<Rightarrow> nat \<Rightarrow> bool" where
  "search_result compare elem list cnt p \<longleftrightarrow>
     (p < cnt \<and> compare elem (list ! p) = 0) \<or>
     (p \<le> cnt \<and> (\<forall>i < p. 0 < compare elem (list ! i)) \<and>
      (\<forall>i < cnt. p \<le> i \<longrightarrow> compare elem (list ! i) < 0))"

lemma sorted_ordered_for:
  assumes "comparator cmp" "sorted_wrt (\<lambda>a b. cmp a b \<le> 0) (take cnt list)" "cnt \<le> length list"
  shows "ordered_for cmp elem list cnt"
proof -
  have "cmp (list ! i) (list ! j) \<le> 0" if "i < j" "j < cnt" for i j
    using sorted_wrt_nth_less [OF assms(2) that(1)] that assms(3) by simp
  then show ?thesis
    using comparator.cmp_trans [OF assms(1)] comparator.cmp_swap [OF assms(1)]
    unfolding ordered_for_def by (metis not_less)
qed

lemma bsearch_loop_correct:
  assumes "ordered_for compare elem list cnt" "cnt \<le> length list"
  shows "ptr + n \<le> cnt \<Longrightarrow> \<forall>i < ptr. 0 < compare elem (list ! i) \<Longrightarrow>
    \<forall>i < cnt. ptr + n \<le> i \<longrightarrow> compare elem (list ! i) < 0 \<Longrightarrow>
    \<exists>p. bsearch_loop compare elem list ptr n = Some p \<and> search_result compare elem list cnt p"
proof (induction n arbitrary: ptr rule: less_induct)
  case (less n)
  note bs = bsearch_loop.simps [of compare elem list ptr n]
  show ?case
  proof (cases "n = 0")
    case True
    then show ?thesis using bs less.prems by (simp add: search_result_def)
  next
    case False
    obtain h where h: "h = n div 2" "h < n" using False by simp
    have odd: "h + (n AND 1) - 1 = n - h - 1"
      unfolding h(1) and_one_eq by presburger
    let ?c = "compare elem (list ! (ptr + h))"
    have probe: "rd list (ptr + h) = Some (list ! (ptr + h))"
      using h less.prems assms(2) by (simp add: cf_mem)
    consider "?c = 0" | "?c < 0" | "0 < ?c" by linarith
    then show ?thesis
    proof cases
      case 1
      then show ?thesis using bs False h less.prems probe by (simp add: search_result_def Let_def)
    next
      case 2
      have "compare elem (list ! i) < 0" if "i < cnt" "ptr + h \<le> i" for i
        using that 2 assms(1) unfolding ordered_for_def by (metis le_neq_implies_less not_less)
      then have "\<exists>p. bsearch_loop compare elem list ptr h = Some p \<and> search_result compare elem list cnt p"
        using less.prems h by (intro less.IH) auto
      then show ?thesis using bs False h 2 probe by (simp add: Let_def)
    next
      case 3
      have "0 < compare elem (list ! i)" if "i < ptr + h + 1" for i
      proof (cases "i = ptr + h")
        case False
        then have "i < ptr + h" "ptr + h < cnt" using that h(2) less.prems(1) by auto
        then show ?thesis using 3 assms(1) unfolding ordered_for_def by blast
      qed (use 3 in simp)
      then have "\<exists>p. bsearch_loop compare elem list (ptr + h + 1) (n - h - 1) = Some p \<and>
          search_result compare elem list cnt p"
        using less.prems h by (intro less.IH) auto
      then show ?thesis using bs False h 3 probe odd by (simp add: Let_def)
    qed
  qed
qed

subsection \<open>Comparators of the concrete examples\<close>

definition compare_byte_blocks :: "8 word list \<Rightarrow> 8 word list \<Rightarrow> CFComparisonResult" where
  "compare_byte_blocks a b = (if a ! 0 < b ! 0 then - 1 else if b ! 0 < a ! 0 then 1 else 0)"

interpretation byte_blocks: comparator compare_byte_blocks
  by unfold_locales (auto simp: compare_byte_blocks_def split: if_splits)

definition compare_numbers :: "nat \<Rightarrow> nat \<Rightarrow> CFComparisonResult" where
  "compare_numbers a b = int a - int b"

interpretation numbers: comparator compare_numbers
  by unfold_locales (auto simp: compare_numbers_def)

subsection \<open>Properties\<close>

text \<open>C15: __CFSimpleMergeSort of any \<open>cnt\<close> elements from any offset, with a temporary buffer of at
  least \<open>cnt\<close> elements, terminates inside both buffers and leaves in that segment a stable sort of
  what it held, and everything else as it was.\<close>

theorem merge_sort_stable:
  assumes "comparator cmp" "off + cnt \<le> length listp" "cnt \<le> length tmp"
  shows "\<exists>listp' tmp'. CFSimpleMergeSort cmp listp off cnt tmp = Some (listp', tmp') \<and>
    length listp' = length listp \<and>
    take off listp' = take off listp \<and> drop (off + cnt) listp' = drop (off + cnt) listp \<and>
    stable_sort_of cmp (segment listp off cnt) (segment listp' off cnt)"
proof -
  obtain ys tmp' where ys: "CFSimpleMergeSort cmp listp off cnt tmp = Some (put_segment listp off ys, tmp')"
    "stable_sort_of cmp (segment listp off cnt) ys"
    using comparator.SimpleMergeSort_correct [OF assms] by blast
  moreover have "length ys = cnt" using stable_sort_of_length [OF ys(2)] assms(2) by simp
  ultimately show ?thesis using assms(2) by (auto simp: put_segment_def segment_def)
qed

lemma merge_sort_stable_witness:
  "\<exists>listp' tmp'. CFSimpleMergeSort compare_numbers [9, 7, 5, 6, 8, 1, 0] 1 5 [0, 0, 0, 0, 0] = Some (listp', tmp') \<and>
     length listp' = 7"
  using merge_sort_stable [OF numbers.comparator_axioms, of 1 5 "[9, 7, 5, 6, 8, 1, 0]" "[0, 0, 0, 0, 0]"]
  by auto

text \<open>CFSortIndexes fills the index buffer with a stable sort of \<open>0, ..., cnt - 1\<close>: a permutation
  of the indexes, ascending for the comparator, and in ascending order among equal ones.\<close>

theorem sort_indexes_stable:
  assumes "comparator cmp" "cnt \<le> length buf" "0 < cnt" "cnt \<le> INTPTR_MAX div 8"
  shows "\<exists>buf'. CFSortIndexes fresh buf cnt cmp = Some buf' \<and> length buf' = length buf \<and>
    drop cnt buf' = drop cnt buf \<and> stable_sort_of cmp [0..<cnt] (take cnt buf') \<and>
    (\<forall>j < cnt. \<forall>i < j. cmp (buf' ! i) (buf' ! j) = 0 \<longrightarrow> buf' ! i < buf' ! j)"
proof -
  obtain ys where ys: "CFSortIndexes fresh buf cnt cmp = Some (ys @ drop cnt buf)"
    "stable_sort_of cmp [0..<cnt] ys"
    using SortIndexes_correct [OF assms, of fresh] by blast
  have len: "length ys = cnt" using stable_sort_of_length [OF ys(2)] by simp
  have "ys ! i < ys ! j" if "j < cnt" "i < j" "cmp (ys ! i) (ys ! j) = 0" for i j
  proof -
    let ?P = "\<lambda>x. cmp (ys ! i) x = 0"
    have "sorted_wrt (<) (filter ?P ys)"
      using ys(2) sorted_wrt_filter [of "(<)" "[0..<cnt]" ?P] by (simp add: stable_sort_of_def)
    then show ?thesis
      using sorted_wrt_filter_nth [of "(<)" ?P ys j i] that len comparator.cmp_refl [OF assms(1)] by simp
  qed
  then show ?thesis using ys len assms(2) by (auto simp: nth_append)
qed

lemma sort_indexes_stable_witness:
  "\<exists>buf'. CFSortIndexes (\<lambda>_. 0) [0, 0, 0, 0] 4 (\<lambda>a b. compare_numbers (a mod 2) (b mod 2)) = Some buf' \<and>
     mset buf' = {#0, 1, 2, 3#}"
proof -
  have "comparator (\<lambda>a b. compare_numbers (a mod 2) (b mod 2))"
    using comparator_pullback [OF numbers.comparator_axioms, of "\<lambda>a. a mod 2"] by simp
  from sort_indexes_stable [OF this, of 4 "[0, 0, 0, 0]" "\<lambda>_. 0"]
  obtain buf' where "CFSortIndexes (\<lambda>_. 0) [0, 0, 0, 0] 4 (\<lambda>a b. compare_numbers (a mod 2) (b mod 2)) = Some buf'"
    "length buf' = 4" "stable_sort_of (\<lambda>a b. compare_numbers (a mod 2) (b mod 2)) [0..<4] (take 4 buf')"
    by (auto simp: INTPTR_MAX_def)
  then show ?thesis by (auto simp: stable_sort_of_def upt_rec numeral_eq_Suc)
qed

text \<open>C32: CFMergeSortArray and CFQSortArray permute the elements of the array into a stable sort of
  what they were (CFQSortArray too is stable), never split an element, and touch no byte beyond the
  \<open>cnt\<close> elements.\<close>

theorem sort_array_stable:
  assumes "comparator compare" "2 \<le> cnt" "1 \<le> elementSize" "cnt \<le> INTPTR_MAX div 8"
    and "cnt * elementSize \<le> length list"
  shows "\<exists>list'. CFMergeSortArray fresh fresh8 list cnt elementSize compare = Some list' \<and>
    CFQSortArray fresh fresh8 list cnt elementSize compare = Some list' \<and>
    length list' = length list \<and>
    drop (cnt * elementSize) list' = drop (cnt * elementSize) list \<and>
    stable_sort_of compare (elements list elementSize cnt) (elements list' elementSize cnt)"
  using MergeSortArray_correct [OF assms] by (simp add: QSortArray_MergeSortArray)

lemma sort_array_stable_witness:
  "\<exists>list'. CFMergeSortArray (\<lambda>_. 0) (\<lambda>_. 0) [3, 30, 1, 10, 2, 20, 99] 3 2 compare_byte_blocks = Some list' \<and>
     mset (elements list' 2 3) = {#[1, 10], [2, 20], [3, 30]#} \<and> drop 6 list' = [99]"
  using sort_array_stable [OF byte_blocks.comparator_axioms, of 3 2 "[3, 30, 1, 10, 2, 20, 99]" "\<lambda>_. 0" "\<lambda>_. 0"]
  by (auto simp: INTPTR_MAX_def stable_sort_of_def elements_def element_def upt_rec add_mset_commute)

text \<open>C36: CFBSearch on a list ordered for the searched element terminates with an index at which the
  comparator returns 0, or with the insertion point when there is none.\<close>

theorem bsearch_correct:
  assumes "ordered_for compare elem list cnt" "cnt \<le> length list"
  shows "\<exists>p. CFBSearch compare elem list cnt = Some p \<and> search_result compare elem list cnt p"
  using bsearch_loop_correct [OF assms, of 0 cnt] by (simp add: CFBSearch_def)

lemma bsearch_correct_witness:
  "\<exists>p. CFBSearch compare_numbers 5 [1, 3, 5, 7] 4 = Some p \<and>
     search_result compare_numbers 5 [1, 3, 5, 7] 4 p"
  using bsearch_correct [OF sorted_ordered_for [OF numbers.comparator_axioms, of 4 "[1, 3, 5, 7]" 5]]
  by (simp add: compare_numbers_def)

end
