(* ===== verification/CF_Scanner.thy ===== *)
theory CF_Scanner
  imports CF_Prelude
begin

text \<open>
  CFStringScanner.c, the scanners for integers, hexadecimal numbers and floating-point numbers that
  CFString's formatting and CFNumber parsing use, with the inline buffer of CFString.h through which
  they read.  Signed C arithmetic that would overflow is \<open>None\<close>; that covers the accumulators and the
  position \<open>*indexPtr\<close>, which is an \<open>SInt32\<close>.
\<close>

subsection \<open>The inline buffer\<close>

type_synonym UniChar = "16 word"

text \<open>
  The string of the buffer is its characters; \<open>ib_buffer\<close> holds the characters
  \<open>[ib_start, ib_end)\<close> of the range; its own positions are \<open>CFIndex\<close>, the \<open>*indexPtr\<close> of the scanners that
  is passed to it is an \<open>SInt32\<close>.
\<close>

record CFStringInlineBuffer =
  ib_buffer :: "UniChar list"
  ib_string :: "UniChar list"
  ib_direct :: bool
  ib_range :: CFRange
  ib_start :: int
  ib_end :: int

definition kCFStringInlineBufferLength :: int where
  "kCFStringInlineBufferLength = 64"

definition CFStringInitInlineBuffer :: "UniChar list \<Rightarrow> bool \<Rightarrow> CFRange \<Rightarrow> UniChar list \<Rightarrow> CFStringInlineBuffer" where
  "CFStringInitInlineBuffer str has_pointer r garbage =
     \<lparr>ib_buffer = garbage, ib_string = str, ib_direct = has_pointer, ib_range = r, ib_start = 0, ib_end = 0\<rparr>"

definition ib_fill :: "CFStringInlineBuffer \<Rightarrow> int \<Rightarrow> CFStringInlineBuffer option" where
  "ib_fill buf idx =
     (let start = (if idx - 4 < 0 then 0 else idx - 4);
          end' = start + kCFStringInlineBufferLength;
          end' = (if end' > int (range_length (ib_range buf)) then int (range_length (ib_range buf)) else end')
      in do { chars \<leftarrow> mem_read (ib_string buf) (location (ib_range buf) + nat start) (nat (end' - start));
              b \<leftarrow> mem_write (ib_buffer buf) 0 chars;
              Some (buf\<lparr>ib_buffer := b, ib_start := start, ib_end := end'\<rparr>) })"

definition CFStringGetCharacterFromInlineBufferAux ::
  "CFStringInlineBuffer \<Rightarrow> int \<Rightarrow> (CFStringInlineBuffer \<times> UniChar) option" where
  "CFStringGetCharacterFromInlineBufferAux buf idx =
     (if ib_direct buf then
        (if idx < 0 \<or> int (range_length (ib_range buf)) \<le> idx then Some (buf, 0xFFFF)
         else do { c \<leftarrow> rd (ib_string buf) (nat idx + location (ib_range buf)); Some (buf, c) })
      else if ib_end buf \<le> idx \<or> idx < ib_start buf then
        (if idx < 0 \<or> int (range_length (ib_range buf)) \<le> idx then Some (buf, 0xFFFF)
         else do { buf \<leftarrow> ib_fill buf idx;
                   c \<leftarrow> rd (ib_buffer buf) (nat (idx - ib_start buf));
                   Some (buf, c) })
      else do { c \<leftarrow> rd (ib_buffer buf) (nat (idx - ib_start buf)); Some (buf, c) })"

text \<open>What the scanners see: the characters of the range, and \<open>0xFFFF\<close> outside.\<close>

definition char_at :: "UniChar list \<Rightarrow> int \<Rightarrow> UniChar" where
  "char_at s i = (if i < 0 \<or> int (length s) \<le> i then 0xFFFF else s ! nat i)"

definition ib_chars :: "CFStringInlineBuffer \<Rightarrow> UniChar list" where
  "ib_chars buf = take (range_length (ib_range buf)) (drop (location (ib_range buf)) (ib_string buf))"

definition ib_wf :: "CFStringInlineBuffer \<Rightarrow> bool" where
  "ib_wf buf \<longleftrightarrow> location (ib_range buf) + range_length (ib_range buf) \<le> length (ib_string buf) \<and>
     length (ib_buffer buf) = 64 \<and> 0 \<le> ib_start buf \<and> ib_start buf \<le> ib_end buf \<and>
     ib_end buf \<le> ib_start buf + 64 \<and> ib_end buf \<le> int (range_length (ib_range buf)) \<and>
     (\<forall>i < nat (ib_end buf - ib_start buf). ib_buffer buf ! i = ib_chars buf ! (nat (ib_start buf) + i))"

subsection \<open>Character classes\<close>

definition CFIsWhitespace :: "UniChar \<Rightarrow> bool" where
  "CFIsWhitespace c \<longleftrightarrow> c < 0x21 \<or> (c > 0x7E \<and> c < 0xA1) \<or> (c \<ge> 0x2000 \<and> c \<le> 0x200B) \<or> c = 0x3000"

definition CFCharacterIsADigit :: "UniChar \<Rightarrow> bool" where
  "CFCharacterIsADigit ch \<longleftrightarrow> ch \<ge> 48 \<and> ch \<le> 57"

definition CFCharacterNumericOrHexValue :: "UniChar \<Rightarrow> int" where
  "CFCharacterNumericOrHexValue ch =
     (if ch \<ge> 48 \<and> ch \<le> 57 then uint ch - 48
      else if ch \<ge> 65 \<and> ch \<le> 70 then uint ch + 10 - 65
      else if ch \<ge> 97 \<and> ch \<le> 102 then uint ch + 10 - 97
      else - 1)"

definition CFCharacterNumericValue :: "UniChar \<Rightarrow> int" where
  "CFCharacterNumericValue ch = (if ch \<ge> 48 \<and> ch \<le> 57 then uint ch - 48 else - 1)"

lemma char_at_outside [simp]:
  "\<not> CFIsWhitespace 0xFFFF" "\<not> CFCharacterIsADigit 0xFFFF" "CFCharacterNumericOrHexValue 0xFFFF = - 1"
  by code_simp+

lemma char_at_inside:
  "CFIsWhitespace (char_at s i) \<Longrightarrow> 0 \<le> i \<and> i < int (length s)"
  "CFCharacterIsADigit (char_at s i) \<Longrightarrow> 0 \<le> i \<and> i < int (length s)"
  "CFCharacterNumericOrHexValue (char_at s i) \<noteq> - 1 \<Longrightarrow> 0 \<le> i \<and> i < int (length s)"
  by (auto simp: char_at_def split: if_splits)

function skip_space :: "UniChar list \<Rightarrow> int \<Rightarrow> int option" where
  "skip_space s i =
     (if CFIsWhitespace (char_at s i) then do { i' \<leftarrow> c_int (i + 1); skip_space s i' } else Some i)"
  by pat_completeness auto
termination
  by (relation "measure (\<lambda>(s, i). nat (int (length s) - i))")
    (auto dest: char_at_inside simp: c_int_eq_Some_iff)

text \<open>\<open>while (isADigit(ch = get(++*indexPtr)))\<close>, from the index before.\<close>

function skip_digits :: "UniChar list \<Rightarrow> int \<Rightarrow> int option" where
  "skip_digits s i =
     do { i' \<leftarrow> c_int (i + 1);
          if CFCharacterIsADigit (char_at s i') then skip_digits s i' else Some i' }"
  by pat_completeness auto
termination
  by (relation "measure (\<lambda>(s, i). nat (int (length s) - i))")
    (auto dest: char_at_inside simp: c_int_eq_Some_iff)

declare skip_space.simps [simp del] skip_digits.simps [simp del]

definition CFStringGetFirstNonSpaceCharacterFromInlineBuffer :: "UniChar list \<Rightarrow> int \<Rightarrow> (UniChar \<times> int) option" where
  "CFStringGetFirstNonSpaceCharacterFromInlineBuffer s i =
     do { i \<leftarrow> skip_space s i; Some (char_at s i, i) }"

subsection \<open>Integers\<close>

definition LLONG_MAX :: int where "LLONG_MAX = 2 ^ 63 - 1"
definition LLONG_MIN :: int where "LLONG_MIN = - (2 ^ 63)"

text \<open>A signed result of 64 bits: \<open>None\<close> on overflow.\<close>

definition c_llong :: "int \<Rightarrow> int option" where
  "c_llong x = (if LLONG_MIN \<le> x \<and> x \<le> LLONG_MAX then Some x else None)"

record scan_state =
  sc_doing :: bool
  sc_neg :: bool
  sc_int :: int
  sc_long :: int
  sc_index :: int

definition scan_step :: "UniChar list \<Rightarrow> bool \<Rightarrow> scan_state \<Rightarrow> scan_state option" where
  "scan_step s doLonglong st =
     (let ch = char_at s (sc_index st);
          digit = CFCharacterNumericValue ch;
          neg = (if sc_neg st then 1 else 0)
      in if sc_doing st then
           do { over \<leftarrow> (if LLONG_MAX div 10 \<le> sc_long st
                        then if sc_long st > LLONG_MAX div 10 then Some True
                             else do { t \<leftarrow> c_llong (sc_long st * 10);
                                       t \<leftarrow> c_llong (LLONG_MAX - t);
                                       Some (t \<le> digit - neg) }
                        else Some False);
                if over then
                  do { i \<leftarrow> skip_digits s (sc_index st);
                       Some (st\<lparr>sc_long := (if sc_neg st then LLONG_MIN else LLONG_MAX), sc_neg := False,
                                sc_index := i\<rparr>) }
                else do { t \<leftarrow> c_llong (sc_long st * 10); t \<leftarrow> c_llong (t + digit);
                          i \<leftarrow> c_int (sc_index st + 1);
                          Some (st\<lparr>sc_long := t, sc_index := i\<rparr>) } }
         else
           do { over \<leftarrow> (if INT_MAX div 10 \<le> sc_int st
                        then if sc_int st > INT_MAX div 10 then Some True
                             else do { t \<leftarrow> c_int (sc_int st * 10);
                                       t \<leftarrow> c_int (INT_MAX - t);
                                       Some (t \<le> digit - neg) }
                        else Some False);
                if over then
                  (if doLonglong then Some (st\<lparr>sc_long := sc_int st, sc_doing := True\<rparr>)
                   else do { i \<leftarrow> skip_digits s (sc_index st);
                             Some (st\<lparr>sc_int := (if sc_neg st then INT_MIN else INT_MAX), sc_neg := False,
                                      sc_index := i\<rparr>) })
                else do { t \<leftarrow> c_int (sc_int st * 10); t \<leftarrow> c_int (t + digit);
                          i \<leftarrow> c_int (sc_index st + 1);
                          Some (st\<lparr>sc_int := t, sc_index := i\<rparr>) } })"

lemma skip_digits_greater: "skip_digits s i = Some j \<Longrightarrow> i < j"
proof (induction s i rule: skip_digits.induct)
  case (1 s i)
  from "1.prems" show ?case
    by (subst (asm) skip_digits.simps)
      (auto simp: option_bind_eq_Some c_int_eq_Some_iff split: if_splits dest: "1.IH" [rotated])
qed

lemma scan_step_progress:
  "scan_step s d st = Some st' \<Longrightarrow> CFCharacterIsADigit (char_at s (sc_index st')) \<Longrightarrow>
    (st', st) \<in> measure (\<lambda>st. 2 * nat (int (length s) - sc_index st) + of_bool (\<not> sc_doing st))"
  by (auto simp: scan_step_def Let_def option_bind_eq_Some c_int_eq_Some_iff
      dest!: char_at_inside(2) skip_digits_greater split: if_splits)

function scan_loop :: "UniChar list \<Rightarrow> bool \<Rightarrow> scan_state \<Rightarrow> scan_state option" where
  "scan_loop s doLonglong st =
     do { st' \<leftarrow> scan_step s doLonglong st;
          if CFCharacterIsADigit (char_at s (sc_index st')) then scan_loop s doLonglong st' else Some st' }"
  by pat_completeness auto
termination
  by (relation "measure (\<lambda>(s, d, st). 2 * nat (int (length s) - sc_index st) + of_bool (\<not> sc_doing st))")
    (auto dest: scan_step_progress)

declare scan_loop.simps [simp del]

text \<open>
  The result of \<open>__CFStringScanInteger\<close>: its Boolean, \<open>*indexPtr\<close>, and what is stored through
  \<open>result\<close>, if anything (\<open>result\<close> is not NULL).
\<close>

definition CFStringScanInteger :: "UniChar list \<Rightarrow> int \<Rightarrow> bool \<Rightarrow> (bool \<times> int \<times> int option) option" where
  "CFStringScanInteger s i doLonglong =
     do { (ch, i) \<leftarrow> CFStringGetFirstNonSpaceCharacterFromInlineBuffer s i;
          let neg = (ch = 45);
          (ch, i) \<leftarrow> (if ch = 45 \<or> ch = 43
                     then do { i \<leftarrow> c_int (i + 1); CFStringGetFirstNonSpaceCharacterFromInlineBuffer s i }
                     else Some (ch, i));
          if \<not> CFCharacterIsADigit ch then Some (False, i, None)
          else do {
            st \<leftarrow> scan_loop s doLonglong
                   \<lparr>sc_doing = False, sc_neg = neg, sc_int = 0, sc_long = 0, sc_index = i\<rparr>;
            if doLonglong
            then let r = (if sc_doing st then sc_long st else sc_int st) in
                 do { r \<leftarrow> (if sc_neg st then c_llong (- r) else Some r); Some (True, sc_index st, Some r) }
            else do { r \<leftarrow> (if sc_neg st then c_int (- sc_int st) else Some (sc_int st));
                      Some (True, sc_index st, Some r) } } }"

subsection \<open>Hexadecimal numbers\<close>

definition UINT_MAX :: "32 word" where
  "UINT_MAX = 0xFFFFFFFF"

function hex_loop :: "UniChar list \<Rightarrow> 32 word \<Rightarrow> int \<Rightarrow> int \<Rightarrow> (32 word \<times> int) option" where
  "hex_loop s val curDigit i =
     do { let val = (if val > drop_bit 4 UINT_MAX then UINT_MAX else push_bit 4 val + word_of_int curDigit);
          i' \<leftarrow> c_int (i + 1);
          let curDigit = CFCharacterNumericOrHexValue (char_at s i');
          if curDigit \<noteq> - 1 then hex_loop s val curDigit i' else Some (val, i') }"
  by pat_completeness auto
termination
  by (relation "measure (\<lambda>(s, _, _, i). nat (int (length s) - i))")
    (auto dest: char_at_inside simp: c_int_eq_Some_iff)

declare hex_loop.simps [simp del]

definition CFStringScanHex :: "UniChar list \<Rightarrow> int \<Rightarrow> (bool \<times> int \<times> 32 word option) option" where
  "CFStringScanHex s i =
     do { (ch, i) \<leftarrow> CFStringGetFirstNonSpaceCharacterFromInlineBuffer s i;
          if ch = 48 then do {
            i \<leftarrow> c_int (i + 1);
            i \<leftarrow> (if char_at s i = 120 \<or> char_at s i = 88 then c_int (i + 1) else Some i);
            let curDigit = CFCharacterNumericOrHexValue (char_at s i);
            if curDigit = - 1 then Some (True, i - 1, Some 0)
            else do { (val, i) \<leftarrow> hex_loop s 0 curDigit i; Some (True, i, Some val) } }
          else do {
            let curDigit = CFCharacterNumericOrHexValue ch;
            if curDigit = - 1 then Some (False, i, None)
            else do { (val, i) \<leftarrow> hex_loop s 0 curDigit i; Some (True, i, Some val) } } }"

subsection \<open>Floating-point numbers\<close>

definition CFNumberSet :: "8 word list" where
  "CFNumberSet = [0, 0, 0, 0, 0, 0x68, 0xFF, 0x03, 0x20, 0, 0, 0, 0x20, 0, 0, 0]"

definition in_number_set :: "UniChar \<Rightarrow> bool" where
  "in_number_set ch \<longleftrightarrow> ch < 128 \<and>
     (ucast (CFNumberSet ! unat (drop_bit 3 ch)) :: 32 word) AND push_bit (unat (ch AND 7)) 1 \<noteq> 0"

lemma in_number_set_end [simp]: "\<not> in_number_set 0xFFFF"
  by (simp add: in_number_set_def)

text \<open>
  The characters are collected in a buffer of \<open>capacity\<close> bytes, at first the local one of 256 bytes;
  \<open>grow\<close> supplies what a larger block contains beyond the bytes that are moved.  \<open>capacity\<close> and
  \<open>numChars\<close> are of type \<open>SInt32\<close>, and so is the sum with \<open>*indexPtr\<close>.
\<close>

definition double_reserve ::
  "(nat \<Rightarrow> 8 word) \<Rightarrow> 8 word list \<Rightarrow> nat \<Rightarrow> nat \<Rightarrow> (8 word list \<times> nat) option" where
  "double_reserve grow charBuf capacity numChars =
     (if numChars \<ge> capacity - 1
      then do { c \<leftarrow> c_int (int capacity + 256);
                kept \<leftarrow> mem_read charBuf 0 numChars;
                Some (kept @ map grow [numChars..<nat c], nat c) }
      else Some (charBuf, capacity))"

function double_loop ::
  "(nat \<Rightarrow> 8 word) \<Rightarrow> UniChar list \<Rightarrow> int \<Rightarrow> 8 word list \<Rightarrow> nat \<Rightarrow> nat \<Rightarrow> (8 word list \<times> nat) option" where
  "double_loop grow s i charBuf capacity numChars =
     do { k \<leftarrow> c_int (i + int numChars);
          let ch = char_at s k;
          if in_number_set ch
          then do { (charBuf, capacity) \<leftarrow> double_reserve grow charBuf capacity numChars;
                    charBuf \<leftarrow> wr charBuf numChars (ucast ch);
                    double_loop grow s i charBuf capacity (numChars + 1) }
          else do { charBuf \<leftarrow> wr charBuf numChars 0; Some (charBuf, numChars) } }"
  by pat_completeness auto
termination
proof (relation "measure (\<lambda>(_, s, i, _, _, numChars). nat (int (length s) - i - int numChars))", goal_cases)
  case (2 grow s i charBuf capacity numChars k ch)
  then have "i + int numChars < int (length s)"
    by (auto simp: char_at_def c_int_eq_Some_iff split: if_splits)
  then show ?case by simp
qed simp

declare double_loop.simps [simp del]

text \<open>
  \<open>strtod_l\<close> is a parameter: given the bytes before the NUL, the value and the number of bytes it
  consumed.
\<close>

definition CFStringScanDouble ::
  "(8 word list \<Rightarrow> 'd \<times> nat) \<Rightarrow> (nat \<Rightarrow> 8 word) \<Rightarrow> UniChar list \<Rightarrow> int \<Rightarrow> (bool \<times> int \<times> 'd option) option" where
  "CFStringScanDouble strtod grow s i =
     do { (ch, i) \<leftarrow> CFStringGetFirstNonSpaceCharacterFromInlineBuffer s i;
          (charBuf, numChars) \<leftarrow> double_loop grow s i (map grow [0..<256]) 256 0;
          let (r, consumed) = strtod (takeWhile (\<lambda>c. c \<noteq> 0) charBuf);
          if consumed = 0 then Some (False, i, None)
          else Some (True, SInt32_of (i + int consumed), Some r) }"

subsection \<open>The inline buffer is transparent\<close>

lemma ib_init_wf:
  assumes "location r + range_length r \<le> length str" "length garbage = 64"
  shows "ib_wf (CFStringInitInlineBuffer str p r garbage)"
  using assms by (simp add: ib_wf_def CFStringInitInlineBuffer_def)

lemma length_ib_chars:
  "location (ib_range buf) + range_length (ib_range buf) \<le> length (ib_string buf) \<Longrightarrow>
    length (ib_chars buf) = range_length (ib_range buf)"
  by (simp add: ib_chars_def)

lemma ib_fill_correct:
  assumes "ib_wf buf" "0 \<le> idx" "idx < int (range_length (ib_range buf))"
  shows "\<exists>buf'. ib_fill buf idx = Some buf' \<and> ib_wf buf' \<and> ib_string buf' = ib_string buf \<and>
    ib_range buf' = ib_range buf \<and> ib_direct buf' = ib_direct buf \<and>
    ib_start buf' \<le> idx \<and> idx < ib_end buf'"
proof -
  let ?len = "range_length (ib_range buf)" and ?loc = "location (ib_range buf)"
  define st where "st = nat (if idx - 4 < 0 then 0 else idx - 4)"
  define n where "n = min 64 (?len - st)"
  have st: "int st \<le> idx" "idx < int st + int n" "st + n \<le> ?len" "n \<le> 64"
    using assms(2,3) by (auto simp: st_def n_def)
  have e: "(if int st + 64 > int ?len then int ?len else int st + 64) = int st + int n"
    using st assms(2,3) by (auto simp: n_def)
  have s0: "(if idx - 4 < 0 then 0 else idx - 4) = int st" by (simp add: st_def)
  let ?chars = "take n (drop (?loc + st) (ib_string buf))"
  let ?buf = "buf\<lparr>ib_buffer := ?chars @ drop n (ib_buffer buf), ib_start := int st, ib_end := int st + int n\<rparr>"
  have len: "?loc + st + n \<le> length (ib_string buf)" "length (ib_buffer buf) = 64"
    using assms(1) st(3) by (simp_all add: ib_wf_def)
  have "ib_fill buf idx = Some ?buf"
    unfolding ib_fill_def s0 Let_def kCFStringInlineBufferLength_def e
    using len st(4) by (simp add: cf_mem)
  moreover have "?chars ! k = ib_chars buf ! (st + k)" if "k < n" for k
    using that len(1) st(3) by (simp add: ib_chars_def add.assoc)
  then have "ib_wf ?buf"
    using assms(1) st len by (auto simp: ib_wf_def ib_chars_def nth_append)
  ultimately show ?thesis using st by auto
qed

lemma ib_read_correct:
  assumes "ib_wf buf"
  shows "\<exists>buf'. CFStringGetCharacterFromInlineBufferAux buf idx = Some (buf', char_at (ib_chars buf) idx) \<and>
    ib_wf buf' \<and> ib_chars buf' = ib_chars buf"
proof -
  let ?len = "range_length (ib_range buf)"
  have len: "length (ib_chars buf) = ?len" "location (ib_range buf) + ?len \<le> length (ib_string buf)"
    using assms by (simp_all add: ib_wf_def length_ib_chars)
  have hit: "rd (ib_buffer b) (nat (idx - ib_start b)) = Some (char_at (ib_chars b) idx)"
    if "ib_wf b" "ib_start b \<le> idx" "idx < ib_end b" for b
  proof -
    let ?k = "nat (idx - ib_start b)"
    have "?k < nat (ib_end b - ib_start b)" "?k < 64" "nat (ib_start b) + ?k = nat idx"
      using that by (auto simp: ib_wf_def)
    moreover have "idx < int (length (ib_chars b))" "0 \<le> idx"
      using that by (auto simp: ib_wf_def length_ib_chars)
    ultimately show ?thesis using that(1) by (auto simp: ib_wf_def rd_def char_at_def)
  qed
  consider "idx < 0 \<or> int ?len \<le> idx" | "0 \<le> idx" "idx < int ?len" "ib_direct buf"
    | "0 \<le> idx" "idx < int ?len" "\<not> ib_direct buf" "ib_end buf \<le> idx \<or> idx < ib_start buf"
    | "\<not> ib_direct buf" "ib_start buf \<le> idx" "idx < ib_end buf"
    by linarith
  then show ?thesis
  proof cases
    case 1
    moreover have "ib_end buf \<le> idx \<or> idx < ib_start buf" using 1 assms by (auto simp: ib_wf_def)
    ultimately show ?thesis
      using assms len(1) by (auto simp: CFStringGetCharacterFromInlineBufferAux_def char_at_def)
  next
    case 2
    then show ?thesis
      using assms len by (simp add: CFStringGetCharacterFromInlineBufferAux_def char_at_def cf_mem
          ib_chars_def add.commute)
  next
    case 3
    then obtain b where b: "ib_fill buf idx = Some b" "ib_wf b" "ib_string b = ib_string buf"
      "ib_range b = ib_range buf" "ib_start b \<le> idx" "idx < ib_end b"
      using ib_fill_correct [OF assms] by blast
    then have "ib_chars b = ib_chars buf" by (simp add: ib_chars_def)
    then show ?thesis
      using 3 b hit [OF b(2,5,6)] by (simp add: CFStringGetCharacterFromInlineBufferAux_def)
  next
    case 4
    then show ?thesis
      using hit [OF assms] assms by (simp add: CFStringGetCharacterFromInlineBufferAux_def)
  qed
qed

subsection \<open>Runs of characters\<close>

definition run :: "(UniChar \<Rightarrow> bool) \<Rightarrow> UniChar list \<Rightarrow> int \<Rightarrow> UniChar list" where
  "run P s i = takeWhile P (drop (nat i) s)"

lemma run_step:
  assumes "0 \<le> i" "\<not> P 0xFFFF"
  shows "run P s i = (if P (char_at s i) then char_at s i # run P s (i + 1) else [])"
proof (cases "i < int (length s)")
  case True
  then have "drop (nat i) s = s ! nat i # drop (nat (i + 1)) s"
    using assms(1) Cons_nth_drop_Suc [of "nat i" s] by (simp add: nat_add_distrib)
  then show ?thesis using True assms by (simp add: run_def char_at_def)
next
  case False
  then show ?thesis using assms by (simp add: run_def char_at_def)
qed

text \<open>The position after the run of characters that starts at \<open>i\<close>.\<close>

definition run_end :: "(UniChar \<Rightarrow> bool) \<Rightarrow> UniChar list \<Rightarrow> int \<Rightarrow> int" where
  "run_end P s i = i + int (length (run P s i))"

lemma run_end_step:
  assumes "0 \<le> i" "\<not> P 0xFFFF"
  shows "run_end P s i = (if P (char_at s i) then run_end P s (i + 1) else i)"
  unfolding run_end_def using run_step [of i P s] assms by simp

lemma run_end_ge: "i \<le> run_end P s i"
  by (simp add: run_end_def)

lemma skip_space_run:
  "0 \<le> i \<Longrightarrow> int (length s) \<le> INT_MAX \<Longrightarrow> skip_space s i = Some (run_end CFIsWhitespace s i)"
proof (induction s i rule: skip_space.induct)
  case (1 s i)
  show ?case
  proof (cases "CFIsWhitespace (char_at s i)")
    case True
    then have "c_int (i + 1) = Some (i + 1)"
      using "1.prems" char_at_inside(1) [OF True] by (simp add: c_int_nonneg)
    then show ?thesis
      using True "1.IH" [OF True, of "i + 1"] "1.prems" run_end_step [of i CFIsWhitespace s]
      by (subst skip_space.simps) simp
  next
    case False
    then show ?thesis
      using "1.prems" run_end_step [of i CFIsWhitespace s] by (subst skip_space.simps) simp
  qed
qed

lemma skip_digits_run:
  "0 \<le> i \<Longrightarrow> i < INT_MAX \<Longrightarrow> int (length s) \<le> INT_MAX \<Longrightarrow>
    skip_digits s i = Some (run_end CFCharacterIsADigit s (i + 1))"
proof (induction s i rule: skip_digits.induct)
  case (1 s i)
  have c: "c_int (i + 1) = Some (i + 1)" using "1.prems" by (simp add: c_int_nonneg)
  show ?case
  proof (cases "CFCharacterIsADigit (char_at s (i + 1))")
    case True
    then have "skip_digits s (i + 1) = Some (run_end CFCharacterIsADigit s (i + 1 + 1))"
      using "1.prems" char_at_inside(2) [OF True] by (intro "1.IH" [OF c]) auto
    then show ?thesis
      using True c "1.prems" run_end_step [of "i + 1" CFCharacterIsADigit s]
      by (subst skip_digits.simps) simp
  next
    case False
    then show ?thesis
      using c "1.prems" run_end_step [of "i + 1" CFCharacterIsADigit s] by (subst skip_digits.simps) simp
  qed
qed

text \<open>From a digit on, the loops leave the index at the end of the run.\<close>

lemma skip_digits_digit:
  assumes "CFCharacterIsADigit (char_at s i)" "int (length s) \<le> INT_MAX"
  shows "skip_digits s i = Some (run_end CFCharacterIsADigit s i)"
  using assms char_at_inside(2) [OF assms(1)] skip_digits_run [of i s]
    run_end_step [of i CFCharacterIsADigit s] by simp

lemma next_index:
  assumes "CFCharacterIsADigit (char_at s i)" "int (length s) \<le> INT_MAX"
  shows "c_int (i + 1) = Some (i + 1)"
  using assms(2) char_at_inside(2) [OF assms(1)] by (intro c_int_nonneg) auto

lemma after_run:
  assumes "0 \<le> i" "\<not> P 0xFFFF"
  shows "\<not> P (char_at s (i + int (length (run P s i))))"
proof (cases "length (run P s i) < length (drop (nat i) s)")
  case True
  then have "\<not> P (drop (nat i) s ! length (run P s i))"
    unfolding run_def by (rule nth_length_takeWhile)
  then show ?thesis using True assms by (simp add: char_at_def nat_add_distrib)
next
  case False
  then show ?thesis using assms by (auto simp: char_at_def)
qed

lemma run_end_digit: "0 \<le> i \<Longrightarrow> \<not> CFCharacterIsADigit (char_at s (run_end CFCharacterIsADigit s i))"
  using after_run [of i CFCharacterIsADigit s] by (simp add: run_end_def)

subsection \<open>Values of digits\<close>

definition digits_value :: "int \<Rightarrow> UniChar list \<Rightarrow> int" where
  "digits_value v ds = foldl (\<lambda>v c. 10 * v + CFCharacterNumericValue c) v ds"

lemma digits_value_simps [simp]:
  "digits_value v [] = v"
  "digits_value v (c # cs) = digits_value (10 * v + CFCharacterNumericValue c) cs"
  by (simp_all add: digits_value_def)

lemma digit_range:
  "CFCharacterIsADigit c \<Longrightarrow> 0 \<le> CFCharacterNumericValue c \<and> CFCharacterNumericValue c \<le> 9"
  by (auto simp: CFCharacterIsADigit_def CFCharacterNumericValue_def word_le_def)

lemma digits_value_grows:
  "\<forall>c \<in> set ds. CFCharacterIsADigit c \<Longrightarrow> 0 \<le> v \<Longrightarrow> v \<le> digits_value v ds"
proof (induction ds arbitrary: v)
  case (Cons c ds)
  have d: "0 \<le> CFCharacterNumericValue c" using Cons.prems(1) digit_range by simp
  then have "10 * v + CFCharacterNumericValue c \<le> digits_value (10 * v + CFCharacterNumericValue c) ds"
    using Cons by simp
  then show ?case using d Cons.prems(2) by simp
qed simp

lemma run_all: "\<forall>c \<in> set (run P s i). P c"
  by (auto simp: run_def dest: set_takeWhileD)

definition clamp :: "int \<Rightarrow> int \<Rightarrow> int \<Rightarrow> int" where
  "clamp lo hi x = max lo (min hi x)"

definition result_min :: "bool \<Rightarrow> int" where
  "result_min doLonglong = (if doLonglong then LLONG_MIN else INT_MIN)"

definition result_max :: "bool \<Rightarrow> int" where
  "result_max doLonglong = (if doLonglong then LLONG_MAX else INT_MAX)"

lemmas int_limits = INT_MAX_def INT_MIN_def LLONG_MAX_def LLONG_MIN_def

subsection \<open>The loop\<close>

definition sc_value :: "scan_state \<Rightarrow> int" where
  "sc_value st = (if sc_doing st then sc_long st else sc_int st)"

definition sc_signed :: "scan_state \<Rightarrow> int" where
  "sc_signed st = (if sc_neg st then - sc_value st else sc_value st)"

definition scan_inv :: "UniChar list \<Rightarrow> bool \<Rightarrow> scan_state \<Rightarrow> bool" where
  "scan_inv s doLonglong st \<longleftrightarrow> 0 \<le> sc_int st \<and> sc_int st \<le> INT_MAX \<and>
     (sc_doing st \<longrightarrow> doLonglong \<and> 0 \<le> sc_long st \<and> sc_long st \<le> LLONG_MAX) \<and>
     CFCharacterIsADigit (char_at s (sc_index st))"

definition sc_next :: "UniChar list \<Rightarrow> scan_state \<Rightarrow> int" where
  "sc_next s st = 10 * sc_value st + CFCharacterNumericValue (char_at s (sc_index st))"

lemma scan_step_eq:
  assumes "scan_inv s d st" and len: "int (length s) \<le> INT_MAX"
  shows "scan_step s d st = Some
    (if result_max (sc_doing st) + of_bool (sc_neg st) \<le> sc_next s st
     then if d \<and> \<not> sc_doing st then st\<lparr>sc_long := sc_int st, sc_doing := True\<rparr>
          else if sc_doing st
          then st\<lparr>sc_long := (if sc_neg st then LLONG_MIN else LLONG_MAX), sc_neg := False,
                  sc_index := run_end CFCharacterIsADigit s (sc_index st)\<rparr>
          else st\<lparr>sc_int := (if sc_neg st then INT_MIN else INT_MAX), sc_neg := False,
                  sc_index := run_end CFCharacterIsADigit s (sc_index st)\<rparr>
     else if sc_doing st then st\<lparr>sc_long := sc_next s st, sc_index := sc_index st + 1\<rparr>
     else st\<lparr>sc_int := sc_next s st, sc_index := sc_index st + 1\<rparr>)"
proof -
  define dg where "dg = CFCharacterNumericValue (char_at s (sc_index st))"
  have dg: "0 \<le> dg" "dg \<le> 9" using assms digit_range by (auto simp: scan_inv_def dg_def)
  have c: "CFCharacterIsADigit (char_at s (sc_index st))" using assms(1) by (simp add: scan_inv_def)
  note index = skip_digits_digit [OF c len] next_index [OF c len]
  show ?thesis
  proof (cases "sc_doing st")
    case True
    then have v: "0 \<le> sc_long st" "sc_long st \<le> LLONG_MAX" using assms by (auto simp: scan_inv_def)
    show ?thesis
      using v dg True index
      by (auto simp: scan_step_def sc_next_def sc_value_def dg_def [symmetric] result_max_def c_llong_def
          int_limits Let_def)
  next
    case False
    then have v: "0 \<le> sc_int st" "sc_int st \<le> INT_MAX" using assms by (auto simp: scan_inv_def)
    show ?thesis
      using v dg False index
      by (auto simp: scan_step_def sc_next_def sc_value_def dg_def [symmetric] result_max_def c_int_def
          int_limits Let_def)
  qed
qed

text \<open>What the loop ends in: the clamped value of the whole run of digits, the index after it.\<close>

definition scan_post :: "UniChar list \<Rightarrow> bool \<Rightarrow> scan_state \<Rightarrow> scan_state \<Rightarrow> bool" where
  "scan_post s doLonglong st st' \<longleftrightarrow>
     (let ds = run CFCharacterIsADigit s (sc_index st); total = digits_value (sc_value st) ds in
      sc_index st' = sc_index st + int (length ds) \<and>
      (sc_neg st' \<longrightarrow> 0 \<le> sc_value st') \<and> (sc_doing st' \<longrightarrow> doLonglong) \<and>
      result_min doLonglong \<le> sc_value st' \<and> sc_value st' \<le> result_max doLonglong \<and>
      sc_signed st' = clamp (result_min doLonglong) (result_max doLonglong)
        (if sc_neg st then - total else total))"

lemma scan_post_cong:
  "sc_index st1 = sc_index st2 \<Longrightarrow> sc_value st1 = sc_value st2 \<Longrightarrow> sc_neg st1 = sc_neg st2 \<Longrightarrow>
    scan_post s d st1 st' = scan_post s d st2 st'"
  by (simp add: scan_post_def)

lemma run_digit:
  assumes "CFCharacterIsADigit (char_at s i)"
  shows "run CFCharacterIsADigit s i = char_at s i # run CFCharacterIsADigit s (i + 1)"
  using run_step [of i CFCharacterIsADigit s] assms char_at_inside(2) [OF assms] by simp

lemma saturated:
  assumes "scan_inv s d st" "result_max (sc_doing st) + of_bool (sc_neg st) \<le> sc_next s st"
    and "sc_doing st = d" "sc_value st' = (if sc_neg st then result_min d else result_max d)"
    and "\<not> sc_neg st'" "sc_index st' = run_end CFCharacterIsADigit s (sc_index st)" "sc_doing st' = d"
  shows "scan_post s d st st'"
proof -
  let ?c = "char_at s (sc_index st)" and ?ds = "run CFCharacterIsADigit s (sc_index st + 1)"
  have c: "CFCharacterIsADigit ?c" using assms(1) by (simp add: scan_inv_def)
  have i: "0 \<le> sc_index st" using char_at_inside(2) [OF c] by simp
  have v: "0 \<le> sc_value st" using assms(1) by (auto simp: scan_inv_def sc_value_def)
  have "0 \<le> sc_next s st" using v digit_range [OF c] by (simp add: sc_next_def)
  then have "sc_next s st \<le> digits_value (sc_next s st) ?ds"
    by (intro digits_value_grows run_all)
  then have total: "result_max d + of_bool (sc_neg st) \<le> digits_value (sc_value st) (?c # ?ds)"
    using assms(2,3) by (simp add: sc_next_def)
  have "result_min d = - result_max d - 1" "0 \<le> result_max d"
    by (auto simp: result_min_def result_max_def int_limits)
  then show ?thesis
    using assms(4-7) total run_digit [OF c]
    by (auto simp: scan_post_def Let_def sc_signed_def clamp_def run_end_def)
qed

lemma scan_loop_correct:
  "scan_inv s d st \<Longrightarrow> int (length s) \<le> INT_MAX \<Longrightarrow> \<exists>st'. scan_loop s d st = Some st' \<and> scan_post s d st st'"
proof (induction s d st rule: scan_loop.induct)
  case (1 s d st)
  let ?c = "char_at s (sc_index st)"
  note len = "1.prems"(2)
  have c: "CFCharacterIsADigit ?c" using "1.prems" by (simp add: scan_inv_def)
  have i: "0 \<le> sc_index st" using char_at_inside(2) [OF c] by simp
  have v: "0 \<le> sc_value st" using "1.prems" by (auto simp: scan_inv_def sc_value_def)
  have nx: "0 \<le> sc_next s st" using v digit_range [OF c] by (simp add: sc_next_def)
  note step = scan_step_eq [OF "1.prems"]
  have sat: ?case if "scan_step s d st = Some st'" "scan_post s d st st'"
    "sc_index st' = run_end CFCharacterIsADigit s (sc_index st)" for st'
    using that run_end_digit [OF i] by (simp add: scan_loop.simps [of s d st])
  show ?case
  proof (cases "result_max (sc_doing st) + of_bool (sc_neg st) \<le> sc_next s st")
    case over: True
    show ?thesis
    proof (cases "d \<and> \<not> sc_doing st")
      case True
      let ?st = "st\<lparr>sc_long := sc_int st, sc_doing := True\<rparr>"
      have st: "scan_step s d st = Some ?st" using over True step by simp
      have "scan_inv s d ?st"
        using "1.prems" True by (auto simp: scan_inv_def int_limits)
      then obtain st' where "scan_loop s d ?st = Some st'" "scan_post s d ?st st'"
        using "1.IH" [OF st] c len by auto
      moreover have "scan_post s d ?st st' = scan_post s d st st'" for st'
        using True by (intro scan_post_cong) (simp_all add: sc_value_def)
      moreover have "scan_loop s d st = scan_loop s d ?st"
        using st c by (simp add: scan_loop.simps [of s d st])
      ultimately show ?thesis by auto
    next
      case False
      then have d: "sc_doing st = d" using "1.prems" by (auto simp: scan_inv_def)
      let ?st = "if d then st\<lparr>sc_long := (if sc_neg st then LLONG_MIN else LLONG_MAX), sc_neg := False,
                  sc_index := run_end CFCharacterIsADigit s (sc_index st)\<rparr>
          else st\<lparr>sc_int := (if sc_neg st then INT_MIN else INT_MAX), sc_neg := False,
                  sc_index := run_end CFCharacterIsADigit s (sc_index st)\<rparr>"
      have st: "scan_step s d st = Some ?st" "sc_index ?st = run_end CFCharacterIsADigit s (sc_index st)"
        using over d step by auto
      have "scan_post s d st ?st"
        using d by (intro saturated [OF "1.prems"(1) over d])
          (auto simp: sc_value_def result_min_def result_max_def)
      then show ?thesis by (intro sat [OF st(1) _ st(2)])
    qed
  next
    case fits: False
    let ?st = "if sc_doing st then st\<lparr>sc_long := sc_next s st, sc_index := sc_index st + 1\<rparr>
      else st\<lparr>sc_int := sc_next s st, sc_index := sc_index st + 1\<rparr>"
    have st: "scan_step s d st = Some ?st" using fits step by simp
    have same: "sc_neg ?st = sc_neg st" "sc_doing ?st = sc_doing st" "sc_value ?st = sc_next s st"
      "sc_index ?st = sc_index st + 1"
      by (simp_all add: sc_value_def)
    have le: "sc_next s st \<le> result_max (sc_doing st)" using fits by (cases "sc_neg st") auto
    show ?thesis
    proof (cases "CFCharacterIsADigit (char_at s (sc_index st + 1))")
      case True
      have "scan_inv s d ?st"
        using "1.prems" le nx True by (auto simp: scan_inv_def result_max_def)
      then obtain st' where "scan_loop s d ?st = Some st'" "scan_post s d ?st st'"
        using "1.IH" [OF st] True same len by auto
      moreover have "scan_post s d st st'" if "scan_post s d ?st st'" for st'
        using that same run_digit [OF c] unfolding scan_post_def by (simp add: sc_next_def Let_def)
      ultimately show ?thesis using st True same by (auto simp: scan_loop.simps [of s d st])
    next
      case False
      have "run CFCharacterIsADigit s (sc_index st + 1) = []"
        using run_step [of "sc_index st + 1" CFCharacterIsADigit s] i False by simp
      then have "scan_post s d st ?st"
        using same run_digit [OF c] le nx "1.prems"
        by (auto simp: scan_post_def Let_def sc_signed_def clamp_def sc_next_def scan_inv_def
            result_max_def result_min_def int_limits split: if_splits)
      then show ?thesis using st False same by (auto simp: scan_loop.simps [of s d st])
    qed
  qed
qed

subsection \<open>Values of hexadecimal digits\<close>

definition hex_digit :: "UniChar \<Rightarrow> bool" where
  "hex_digit c \<longleftrightarrow> CFCharacterNumericOrHexValue c \<noteq> - 1"

definition hex_value :: "int \<Rightarrow> UniChar list \<Rightarrow> int" where
  "hex_value v ds = foldl (\<lambda>v c. 16 * v + CFCharacterNumericOrHexValue c) v ds"

lemma hex_value_simps [simp]:
  "hex_value v [] = v"
  "hex_value v (c # cs) = hex_value (16 * v + CFCharacterNumericOrHexValue c) cs"
  by (simp_all add: hex_value_def)

lemma hex_digit_range:
  "hex_digit c \<Longrightarrow> 0 \<le> CFCharacterNumericOrHexValue c \<and> CFCharacterNumericOrHexValue c \<le> 15"
  by (auto simp: hex_digit_def CFCharacterNumericOrHexValue_def word_le_def split: if_splits)

lemma hex_value_grows:
  "\<forall>c \<in> set ds. hex_digit c \<Longrightarrow> 0 \<le> v \<Longrightarrow> v \<le> hex_value v ds"
proof (induction ds arbitrary: v)
  case (Cons c ds)
  have d: "0 \<le> CFCharacterNumericOrHexValue c" using Cons.prems(1) hex_digit_range by simp
  then have "16 * v + CFCharacterNumericOrHexValue c \<le> hex_value (16 * v + CFCharacterNumericOrHexValue c) ds"
    using Cons by simp
  then show ?case using d Cons.prems(2) by simp
qed simp

lemma UINT_MAX_shifted: "drop_bit 4 UINT_MAX = 0x0FFFFFFF"
  by code_simp

lemma hex_step:
  assumes "0 \<le> d" "d \<le> 15"
  shows "uint (if val > drop_bit 4 UINT_MAX then UINT_MAX else push_bit 4 val + word_of_int d) =
    min (2 ^ 32 - 1) (16 * uint val + d)"
proof (cases "val > drop_bit 4 UINT_MAX")
  case True
  then have "uint val > 0x0FFFFFFF" by (simp add: UINT_MAX_shifted word_less_def)
  then show ?thesis using True assms by (simp add: UINT_MAX_def)
next
  case False
  then have v: "uint val \<le> 0x0FFFFFFF"
    by (simp add: UINT_MAX_shifted word_less_def)
  have "0 \<le> uint val" by simp
  then have "uint (push_bit 4 val + word_of_int d) = 16 * uint val + d"
    using v assms by (simp add: uint_word_ariths push_bit_eq_mult uint_word_of_int take_bit_int_eq_self mult.commute)
  then show ?thesis using False v assms by simp
qed

lemma hex_saturates: "min m (16 * min m v + d) = min m (16 * v + d)" if "0 \<le> d" "0 \<le> m" "0 \<le> v" for m :: int
  using that by auto

lemma hex_value_min:
  "\<forall>c \<in> set ds. hex_digit c \<Longrightarrow> 0 \<le> v \<Longrightarrow> 0 \<le> m \<Longrightarrow> min m (hex_value (min m v) ds) = min m (hex_value v ds)"
proof (cases "v \<le> m")
  case False
  assume a: "\<forall>c \<in> set ds. hex_digit c" "0 \<le> v" "0 \<le> m"
  then have "m \<le> hex_value m ds" "v \<le> hex_value v ds" by (simp_all add: hex_value_grows)
  then show ?thesis using False by (simp add: min_def)
qed simp

lemma hex_loop_correct:
  "hex_digit (char_at s i) \<Longrightarrow> d = CFCharacterNumericOrHexValue (char_at s i) \<Longrightarrow> int (length s) \<le> INT_MAX \<Longrightarrow>
    \<exists>r. hex_loop s val d i = Some (r, i + int (length (run hex_digit s i))) \<and>
      uint r = min (2 ^ 32 - 1) (hex_value (uint val) (run hex_digit s i))"
proof (induction s val d i rule: hex_loop.induct)
  case (1 s val d i)
  let ?val = "if val > drop_bit 4 UINT_MAX then UINT_MAX else push_bit 4 val + word_of_int d"
  have i: "0 \<le> i" "i < int (length s)" using char_at_inside(3) "1.prems"(1) by (auto simp: hex_digit_def)
  then have nx: "c_int (i + 1) = Some (i + 1)" using "1.prems"(3) by (intro c_int_nonneg) auto
  have off: "\<not> hex_digit 0xFFFF" by (simp add: hex_digit_def)
  have d: "0 \<le> d" "d \<le> 15" using hex_digit_range "1.prems" by auto
  note v = hex_step [OF d, of val]
  have step: "hex_loop s val d i = (if hex_digit (char_at s (i + 1))
      then hex_loop s ?val (CFCharacterNumericOrHexValue (char_at s (i + 1))) (i + 1) else Some (?val, i + 1))"
    by (subst hex_loop.simps) (simp only: nx bind.bind_lunit Let_def hex_digit_def)
  have run: "run hex_digit s i = char_at s i # run hex_digit s (i + 1)"
    using run_step [of i hex_digit s] i off "1.prems"(1) by simp
  have run1: "run hex_digit s (i + 1) = (if hex_digit (char_at s (i + 1))
      then char_at s (i + 1) # run hex_digit s (i + 1 + 1) else [])"
    using run_step [of "i + 1" hex_digit s] i off by simp
  show ?case
  proof (cases "hex_digit (char_at s (i + 1))")
    case True
    have "\<exists>r. hex_loop s ?val (CFCharacterNumericOrHexValue (char_at s (i + 1))) (i + 1) =
        Some (r, i + 1 + int (length (run hex_digit s (i + 1)))) \<and>
        uint r = min (2 ^ 32 - 1) (hex_value (uint ?val) (run hex_digit s (i + 1)))"
      by (rule "1.IH" [OF refl nx refl _ True refl "1.prems"(3)]) (use True in \<open>simp add: hex_digit_def\<close>)
    moreover have "min (2 ^ 32 - 1) (hex_value (uint ?val) (run hex_digit s (i + 1))) =
        min (2 ^ 32 - 1) (hex_value (uint val) (run hex_digit s i))"
      unfolding v run using "1.prems"(2) hex_value_min [OF run_all, of "16 * uint val + d" "2 ^ 32 - 1" s "i + 1"] d
      by simp
    ultimately show ?thesis using True run step by auto
  next
    case False
    then show ?thesis
      using run run1 v "1.prems"(2) step by simp
  qed
qed

subsection \<open>Collecting the characters of a floating-point number\<close>

lemma number_char_nonzero:
  assumes "in_number_set c"
  shows "(ucast c :: 8 word) \<noteq> 0"
proof
  assume z: "(ucast c :: 8 word) = 0"
  have "uint c < 128" using assms by (simp add: in_number_set_def word_less_def)
  then have "uint (ucast c :: 8 word) = uint c"
    by (simp add: unsigned_ucast_eq take_bit_int_eq_self)
  then have "c = 0" using z by (simp add: word_uint_eq_iff)
  moreover have "\<not> in_number_set 0" by code_simp
  ultimately show False using assms by simp
qed

lemma double_reserve_correct:
  assumes "length buf = capacity" "n < capacity" "int n + 257 \<le> INT_MAX"
  shows "\<exists>buf' cap'. double_reserve grow buf capacity n = Some (buf', cap') \<and> length buf' = cap' \<and>
    n + 1 < cap' \<and> take n buf' = take n buf"
proof (cases "capacity - 1 \<le> n")
  case True
  then have "c_int (int capacity + 256) = Some (int capacity + 256)"
    using assms by (intro c_int_nonneg) auto
  moreover have "nat (int capacity + 256) = capacity + 256" by simp
  ultimately show ?thesis using True assms by (auto simp: double_reserve_def mem_read_Some)
qed (use assms in \<open>simp add: double_reserve_def\<close>)

lemma double_loop_correct:
  "0 \<le> i \<Longrightarrow> length buf = capacity \<Longrightarrow> n < capacity \<Longrightarrow> int (length s) + 256 \<le> INT_MAX \<Longrightarrow> i + int n \<le> INT_MAX \<Longrightarrow>
    \<exists>buf' m. double_loop grow s i buf capacity n = Some (buf', m) \<and>
      (let ds = run in_number_set s (i + int n) in
       m = n + length ds \<and> m < length buf' \<and> take m buf' = take n buf @ map ucast ds \<and> buf' ! m = 0)"
proof (induction "nat (int (length s) - i - int n)" arbitrary: buf capacity n rule: less_induct)
  case less
  let ?c = "char_at s (i + int n)"
  have k: "c_int (i + int n) = Some (i + int n)" using less.prems by (intro c_int_nonneg) auto
  have run: "run in_number_set s (i + int n) =
      (if in_number_set ?c then ?c # run in_number_set s (i + int (Suc n)) else [])"
    using run_step [of "i + int n" in_number_set s] less.prems(1) by (simp add: algebra_simps)
  show ?case
  proof (cases "in_number_set ?c")
    case False
    then show ?thesis
      using less.prems run k by (simp add: double_loop.simps [of grow s i buf capacity n] cf_mem Let_def)
  next
    case True
    have "i + int n < int (length s)" using True by (auto simp: char_at_def split: if_splits)
    then have n: "int n + 257 \<le> INT_MAX" "i + int (n + 1) \<le> INT_MAX" using less.prems by auto
    obtain b cap where b: "double_reserve grow buf capacity n = Some (b, cap)" "length b = cap"
      "n + 1 < cap" "take n b = take n buf"
      using double_reserve_correct [OF less.prems(2,3) n(1), of grow] by blast
    have "i + int n < int (length s)" using True by (auto simp: char_at_def split: if_splits)
    then have "nat (int (length s) - i - int (n + 1)) < nat (int (length s) - i - int n)" by simp
    then obtain buf' m where m: "double_loop grow s i (b[n := ucast ?c]) cap (n + 1) = Some (buf', m)"
      "let ds = run in_number_set s (i + int (n + 1)) in
       m = n + 1 + length ds \<and> m < length buf' \<and>
       take m buf' = take (n + 1) (b[n := ucast ?c]) @ map ucast ds \<and> buf' ! m = 0"
      using less.hyps [of "n + 1" "b[n := ucast ?c]" cap] less.prems(1,4) n(2) b by auto
    have "take (n + 1) (b[n := ucast ?c]) = take n buf @ [ucast ?c]"
      using b by (simp add: take_Suc_conv_app_nth)
    then show ?thesis
      using m b True run k by (auto simp: double_loop.simps [of grow s i buf capacity n] cf_mem Let_def)
  qed
qed

lemma double_string:
  fixes buf :: "8 word list"
  assumes "m < length buf" "take m buf = map ucast (run in_number_set s i)" "buf ! m = 0"
  shows "takeWhile (\<lambda>c. c \<noteq> 0) buf = map ucast (run in_number_set s i)"
proof -
  obtain xs rest where buf: "buf = xs @ 0 # rest" "xs = map ucast (run in_number_set s i)"
    using id_take_nth_drop [OF assms(1)] assms(2,3) by metis
  have "\<forall>c \<in> set xs. c \<noteq> 0"
    using buf(2) run_all [of in_number_set s i] number_char_nonzero by auto
  then show ?thesis unfolding buf(2) [symmetric] by (simp add: buf(1) takeWhile_append2)
qed

subsection \<open>Properties\<close>

text \<open>a read through the inline buffer returns the character of the string at that place of the
  range, or 0xFFFF outside the range, whatever the buffer holds and whatever was read before; it
  never reads or writes outside the buffer and the string, and keeps the buffer consistent.\<close>

theorem inline_buffer_transparent:
  assumes "ib_wf buf"
  shows "\<exists>buf'. CFStringGetCharacterFromInlineBufferAux buf idx = Some (buf', char_at (ib_chars buf) idx) \<and>
    ib_wf buf' \<and> ib_chars buf' = ib_chars buf"
  using assms by (rule ib_read_correct)

lemma inline_buffer_transparent_witness:
  "\<exists>buf'. CFStringGetCharacterFromInlineBufferAux
     (CFStringInitInlineBuffer [65, 66, 67, 68] False (CFRangeMake 1 2) (replicate 64 0)) 1 = Some (buf', 67)"
proof -
  have "ib_wf (CFStringInitInlineBuffer [65, 66, 67, 68] False (CFRangeMake 1 2) (replicate 64 0))"
    by (rule ib_init_wf) simp_all
  from inline_buffer_transparent [OF this, of 1] show ?thesis
    by (auto simp: CFStringInitInlineBuffer_def ib_chars_def char_at_def)
qed

text \<open>C30: in a range of at most 2^31 - 1 characters, which is what the SInt32 position can index,
  __CFStringScanInteger skips white space, an optional sign, white space again, and the whole
  run of digits that follows; without a digit it returns false; otherwise it stores the value of the
  signed number clamped to the limits of the result type (32 or 64 bits).  None of its signed
  computations overflows, neither in the accumulators nor in the steps of the position.\<close>

theorem scan_integer_clamps:
  assumes "0 \<le> i" "int (length s) \<le> INT_MAX"
    and "i1 = run_end CFIsWhitespace s i" "neg = (char_at s i1 = 45)"
    and "i2 = (if neg \<or> char_at s i1 = 43 then run_end CFIsWhitespace s (i1 + 1) else i1)"
    and "ds = run CFCharacterIsADigit s i2"
  shows "CFStringScanInteger s i doLonglong = Some
    (if ds = [] then (False, i2, None)
     else (True, i2 + int (length ds),
       Some (clamp (result_min doLonglong) (result_max doLonglong)
         (if neg then - digits_value 0 ds else digits_value 0 ds))))"
proof -
  have i1: "0 \<le> i1" using run_end_ge [of i CFIsWhitespace s] assms(1,3) by simp
  then have i2: "0 \<le> i2" using run_end_ge [of "i1 + 1" CFIsWhitespace s] assms(5) by simp
  have ds: "ds = [] \<longleftrightarrow> \<not> CFCharacterIsADigit (char_at s i2)"
    using run_step [OF i2, of CFCharacterIsADigit s] assms(6) by simp
  have sign: "c_int (i1 + 1) = Some (i1 + 1)" if "char_at s i1 = 45 \<or> char_at s i1 = 43"
    using that i1 assms(2) by (intro c_int_nonneg) (auto simp: char_at_def split: if_splits)
  have skip: "skip_space s i = Some i1" "skip_space s (i1 + 1) = Some (run_end CFIsWhitespace s (i1 + 1))"
    using skip_space_run assms(1-3) i1 by auto
  let ?st = "\<lparr>sc_doing = False, sc_neg = neg, sc_int = 0, sc_long = 0, sc_index = i2\<rparr>"
  have start: "CFStringScanInteger s i doLonglong =
    (if \<not> CFCharacterIsADigit (char_at s i2) then Some (False, i2, None)
     else do {
       st \<leftarrow> scan_loop s doLonglong ?st;
       if doLonglong
       then do { r \<leftarrow> (if sc_neg st then c_llong (- sc_value st) else Some (sc_value st));
                 Some (True, sc_index st, Some r) }
       else do { r \<leftarrow> (if sc_neg st then c_int (- sc_int st) else Some (sc_int st));
                 Some (True, sc_index st, Some r) } })"
    unfolding CFStringScanInteger_def CFStringGetFirstNonSpaceCharacterFromInlineBuffer_def sc_value_def Let_def
    using assms(4,5) sign skip by auto
  show ?thesis
  proof (cases "ds = []")
    case True
    then show ?thesis using start ds by simp
  next
    case False
    then have "scan_inv s doLonglong ?st" using ds by (simp add: scan_inv_def int_limits)
    then obtain st where st: "scan_loop s doLonglong ?st = Some st" "scan_post s doLonglong ?st st"
      using scan_loop_correct assms(2) by blast
    then have post: "sc_index st = i2 + int (length ds)" "sc_neg st \<longrightarrow> 0 \<le> sc_value st"
      "sc_doing st \<longrightarrow> doLonglong" "sc_value st \<le> result_max doLonglong"
      "sc_signed st = clamp (result_min doLonglong) (result_max doLonglong)
        (if neg then - digits_value 0 ds else digits_value 0 ds)"
      using assms(6) by (simp_all add: scan_post_def Let_def sc_value_def)
    have "\<not> doLonglong \<Longrightarrow> sc_int st = sc_value st" using post(3) by (simp add: sc_value_def)
    moreover have "c_llong (- sc_value st) = Some (- sc_value st)" if "doLonglong" "sc_neg st"
      using post(2,4) that by (simp add: c_llong_def result_max_def int_limits)
    moreover have "c_int (- sc_value st) = Some (- sc_value st)" if "\<not> doLonglong" "sc_neg st"
      using post(2,4) that by (simp add: c_int_def result_max_def int_limits)
    ultimately show ?thesis
      using start st(1) ds False post(1,5) by (auto simp: sc_signed_def)
  qed
qed

lemma scan_integer_clamps_witness:
  "CFStringScanInteger [32, 45, 50, 49, 52, 55, 52, 56, 51, 54, 52, 57, 33] 0 False =
     Some (True, 12, Some (- (2 ^ 31)))"
proof -
  let ?s = "[32, 45, 50, 49, 52, 55, 52, 56, 51, 54, 52, 57, 33] :: UniChar list"
  have len: "int (length ?s) \<le> INT_MAX" by (simp add: INT_MAX_def)
  have "run CFIsWhitespace ?s 0 = [32]" "run CFIsWhitespace ?s 2 = []" by code_simp+
  then have i1: "1 = run_end CFIsWhitespace ?s 0" and r: "run_end CFIsWhitespace ?s (1 + 1) = 2"
    unfolding run_end_def by simp_all
  have i2: "2 = (if True \<or> char_at ?s 1 = 43 then run_end CFIsWhitespace ?s (1 + 1) else 1)"
    unfolding r by simp
  have ch: "True = (char_at ?s 1 = 45)" "[50, 49, 52, 55, 52, 56, 51, 54, 52, 57] = run CFCharacterIsADigit ?s 2"
    by code_simp+
  have "digits_value 0 [50, 49, 52, 55, 52, 56, 51, 54, 52, 57] = 2147483649" by code_simp
  then show ?thesis
    using scan_integer_clamps [OF order.refl len i1 ch(1) i2 ch(2), of False]
    by (simp add: clamp_def result_min_def result_max_def int_limits)
qed

text \<open>in a range of at most 2^31 - 1 characters, __CFStringScanHex on a number with or
  without a prefix 0x reads the whole run of
  hexadecimal digits after the prefix and stores its value, or \<open>UINT_MAX\<close> when it is larger.\<close>

theorem scan_hex_saturates:
  assumes "0 \<le> i" "int (length s) \<le> INT_MAX" "i1 = run_end CFIsWhitespace s i"
    and "i2 = (if char_at s i1 = 48
               then if char_at s (i1 + 1) = 120 \<or> char_at s (i1 + 1) = 88 then i1 + 2 else i1 + 1
               else i1)"
    and "ds = run hex_digit s i2" "ds \<noteq> []"
  shows "\<exists>r. CFStringScanHex s i = Some (True, i2 + int (length ds), Some r) \<and>
    uint r = min (2 ^ 32 - 1) (hex_value 0 ds)"
proof -
  have i1: "0 \<le> i1" using run_end_ge [of i CFIsWhitespace s] assms(1,3) by simp
  then have i2: "0 \<le> i2" using assms(4) by simp
  have d: "hex_digit (char_at s i2)"
    using run_step [OF i2, of hex_digit s] assms(5,6) by (auto simp: hex_digit_def split: if_splits)
  obtain r where r: "hex_loop s 0 (CFCharacterNumericOrHexValue (char_at s i2)) i2 = Some (r, i2 + int (length ds))"
    "uint r = min (2 ^ 32 - 1) (hex_value 0 ds)"
    using hex_loop_correct [OF d refl assms(2), of 0] assms(5) by auto
  have next_i: "c_int (k + 1) = Some (k + 1)" if "char_at s k \<noteq> 0xFFFF" for k
    using that assms(2) by (intro c_int_nonneg) (auto simp: char_at_def split: if_splits)
  have "CFStringScanHex s i = Some (True, i2 + int (length ds), Some r)"
    using d r(1) assms(4) next_i [of i1] next_i [of "i1 + 1"] skip_space_run [OF assms(1,2)] assms(3)
    unfolding hex_digit_def
    by (auto simp: CFStringScanHex_def CFStringGetFirstNonSpaceCharacterFromInlineBuffer_def Let_def
        add.assoc split: if_splits)
  then show ?thesis using r(2) by blast
qed

lemma scan_hex_saturates_witness:
  "CFStringScanHex [48, 120, 49, 48, 48, 48, 48, 48, 48, 48, 48, 46] 0 = Some (True, 11, Some 0xFFFFFFFF) \<and>
   CFStringScanHex [102, 48] 0 = Some (True, 2, Some 240)"
proof -
  let ?s = "[48, 120, 49, 48, 48, 48, 48, 48, 48, 48, 48, 46] :: UniChar list"
  have "int (length ?s) \<le> INT_MAX" "int (length [102, 48 :: UniChar]) \<le> INT_MAX" by (simp_all add: INT_MAX_def)
  moreover have "run CFIsWhitespace ?s 0 = []" "run CFIsWhitespace [102, 48] 0 = []" "char_at ?s 0 = 48" "char_at ?s 1 = 120"
    "char_at [102, 48] 0 = 102"
    "run hex_digit ?s 2 = [49, 48, 48, 48, 48, 48, 48, 48, 48]" "run hex_digit [102, 48] 0 = [102, 48]"
    "hex_value 0 [49, 48, 48, 48, 48, 48, 48, 48, 48] = 4294967296" "hex_value 0 [102, 48] = 240"
    by code_simp+
  ultimately show ?thesis
    using scan_hex_saturates [of 0 ?s 0 2 "[49, 48, 48, 48, 48, 48, 48, 48, 48]"]
      scan_hex_saturates [of 0 "[102, 48]" 0 0 "[102, 48]"]
    by (auto simp: word_uint_eq_iff run_end_def)
qed

text \<open>on a 0 that is followed neither by an x nor by a hexadecimal digit, __CFStringScanHex
  returns true with the value 0 but leaves the index on the 0 itself: the step back that is meant
  for the x is taken as well when there was none, so that nothing is consumed.\<close>

theorem scan_hex_lone_zero:
  assumes "0 \<le> i" "int (length s) \<le> INT_MAX" "i1 = run_end CFIsWhitespace s i"
    and "char_at s i1 = 48" "\<not> hex_digit (char_at s (i1 + 1))"
    and "char_at s (i1 + 1) \<noteq> 120" "char_at s (i1 + 1) \<noteq> 88"
  shows "CFStringScanHex s i = Some (True, i1, Some 0)"
proof -
  have "c_int (i1 + 1) = Some (i1 + 1)"
    using assms(2,4) by (intro c_int_nonneg) (auto simp: char_at_def split: if_splits)
  then show ?thesis
    using assms skip_space_run [OF assms(1,2)]
    by (simp add: CFStringScanHex_def CFStringGetFirstNonSpaceCharacterFromInlineBuffer_def Let_def
        hex_digit_def)
qed

lemma scan_hex_lone_zero_witness: "CFStringScanHex [32, 48, 44, 49] 0 = Some (True, 1, Some 0)"
proof -
  have "int (length [32, 48, 44, 49 :: UniChar]) \<le> INT_MAX" by (simp add: INT_MAX_def)
  moreover have "run CFIsWhitespace [32, 48, 44, 49] 0 = [32]" "char_at [32, 48, 44, 49] 1 = 48"
    "char_at [32, 48, 44, 49] 2 = 44" "\<not> hex_digit 44"
    by code_simp+
  ultimately show ?thesis using scan_hex_lone_zero [of 0 "[32, 48, 44, 49]" 1] by (simp add: run_end_def)
qed

text \<open>in a range of at most 2^31 - 257 characters, __CFStringScanDouble never writes outside its character buffer, however long the number;
  it passes to strtod exactly the run of number characters after the white space; when strtod
  consumes nothing it returns false, otherwise it stores the value and advances by what strtod
  consumed; no computation in the SInt32 position, count and capacity overflows.\<close>

theorem scan_double_passes_run:
  assumes "0 \<le> i" "i \<le> INT_MAX" "int (length s) + 256 \<le> INT_MAX"
    and "i1 = run_end CFIsWhitespace s i" "ds = run in_number_set s i1"
    and "strtod (map ucast ds) = (r, consumed)" "consumed \<le> length ds"
  shows "CFStringScanDouble strtod grow s i = Some
    (if consumed = 0 then (False, i1, None) else (True, i1 + int consumed, Some r))"
proof -
  have i1: "0 \<le> i1" using run_end_ge [of i CFIsWhitespace s] assms(1,4) by simp
  have ends: "run_end P s k \<le> max k (int (length s))" if "0 \<le> k" for P k
    using that length_takeWhile_le [of P "drop (nat k) s"] by (simp add: run_end_def run_def)
  have hi: "i1 \<le> INT_MAX" "i1 + int consumed \<le> INT_MAX"
    using ends [OF assms(1), of CFIsWhitespace] ends [OF i1, of in_number_set] assms(2-5,7)
    by (auto simp: run_end_def max_def split: if_splits)
  obtain buf m where b: "double_loop grow s i1 (map grow [0..<256]) 256 0 = Some (buf, m)"
    "m < length buf" "take m buf = map ucast ds" "buf ! m = 0"
    using double_loop_correct [OF i1, of "map grow [0..<256]" 256 0 s grow] assms(3,5) hi(1)
    by (auto simp: Let_def)
  then have "takeWhile (\<lambda>c. c \<noteq> 0) buf = map ucast ds"
    using double_string [of m buf s i1] assms(5) by simp
  moreover have "skip_space s i = Some i1" using skip_space_run [OF assms(1)] assms(3,4) by simp
  ultimately show ?thesis
    using b(1) assms(6) SInt32_of_nonneg [OF _ hi(2)] i1
    by (simp add: CFStringScanDouble_def CFStringGetFirstNonSpaceCharacterFromInlineBuffer_def)
qed

lemma scan_double_passes_run_witness:
  "CFStringScanDouble (\<lambda>cs. (cs, length cs)) (\<lambda>_. 255) [32, 49, 46, 53, 44] 0 =
     Some (True, 4, Some [49, 46, 53])"
proof -
  have "int (length [32, 49, 46, 53, 44 :: UniChar]) + 256 \<le> INT_MAX" "0 \<le> INT_MAX" by (simp_all add: INT_MAX_def)
  moreover have "run CFIsWhitespace [32, 49, 46, 53, 44] 0 = [32]"
    "run in_number_set [32, 49, 46, 53, 44] 1 = [49, 46, 53]"
    by code_simp+
  ultimately show ?thesis
    using scan_double_passes_run [of 0 "[32, 49, 46, 53, 44]" 1 "[49, 46, 53]" "\<lambda>cs. (cs, length cs)"
        "[49, 46, 53]" 3 "\<lambda>_. 255"] by (simp add: run_end_def)
qed

end
