(* ===== verification/CF_UTF8.thy ===== *)
theory CF_UTF8
  imports CF_Prelude
begin

text \<open>
  CFBuiltinConverters.c, the converter between UTF-16 and UTF-8, in both directions, with the functions
  that only measure.  \<open>bytes\<close>, \<open>characters\<close> and \<open>source\<close> are pointers into caller's blocks: here
  offsets into the lists that model the blocks.  A limit of 0 for the output means that nothing is
  stored and the output is only measured.  The canonical decomposition of a character comes from
  tables that the library loads: \<open>decomposable\<close> and \<open>decompose\<close> are parameters.

  The specification is that of Unicode: code points that are scalar values, their UTF-16 units, and
  their UTF-8 bytes by division.
\<close>

subsection \<open>Constants and tables\<close>

definition kCFStringEncodingAllowLossyConversion :: "32 word" where
  "kCFStringEncodingAllowLossyConversion = 1"

definition kCFStringEncodingUseCanonical :: "32 word" where
  "kCFStringEncodingUseCanonical = 64"

definition kCFStringEncodingUseHFSPlusCanonical :: "32 word" where
  "kCFStringEncodingUseHFSPlusCanonical = 128"

definition kCFStringEncodingLenientUTF8Conversion :: "32 word" where
  "kCFStringEncodingLenientUTF8Conversion = 2048"

definition kReplacementCharacter :: "32 word" where
  "kReplacementCharacter = 0xFFFD"

definition kMaximumUCS2 :: "32 word" where
  "kMaximumUCS2 = 0xFFFF"

definition kMaximumUTF16 :: "32 word" where
  "kMaximumUTF16 = 0x10FFFF"

definition kMaximumUCS4 :: "32 word" where
  "kMaximumUCS4 = 0x7FFFFFFF"

definition halfShift :: nat where
  "halfShift = 10"

definition halfBase :: "32 word" where
  "halfBase = 0x10000"

definition halfMask :: "32 word" where
  "halfMask = 0x3FF"

definition kSurrogateHighStart :: "32 word" where
  "kSurrogateHighStart = 0xD800"

definition kSurrogateHighEnd :: "32 word" where
  "kSurrogateHighEnd = 0xDBFF"

definition kSurrogateLowStart :: "32 word" where
  "kSurrogateLowStart = 0xDC00"

definition kSurrogateLowEnd :: "32 word" where
  "kSurrogateLowEnd = 0xDFFF"

lemmas utf_constants =
  kReplacementCharacter_def kMaximumUCS2_def kMaximumUTF16_def kMaximumUCS4_def halfShift_def
  halfBase_def halfMask_def kSurrogateHighStart_def kSurrogateHighEnd_def kSurrogateLowStart_def
  kSurrogateLowEnd_def

definition trailingBytesForUTF8 :: "nat list" where
  "trailingBytesForUTF8 =
     replicate 192 0 @ replicate 32 1 @ replicate 16 2 @ replicate 8 3 @ replicate 4 4 @ replicate 4 5"

definition offsetsFromUTF8 :: "32 word list" where
  "offsetsFromUTF8 = [0x00000000, 0x00003080, 0x000E2080, 0x03C82080, 0xFA082080, 0x82082080]"

definition firstByteMark :: "8 word list" where
  "firstByteMark = [0x00, 0x00, 0xC0, 0xE0, 0xF0, 0xF8, 0xFC]"

subsection \<open>To UTF-8\<close>

definition CFUTF8BytesToWriteForCharacter :: "32 word \<Rightarrow> nat" where
  "CFUTF8BytesToWriteForCharacter ch =
     (if ch < 0x80 then 1
      else if ch < 0x800 then 2
      else if ch < 0x10000 then 3
      else if ch < 0x200000 then 4
      else if ch < 0x4000000 then 5
      else if ch \<le> kMaximumUCS4 then 6
      else 0)"

text \<open>The cases 6 to 2 of the \<open>switch\<close>, which fall through: they store the bytes after the first,
  from the last to the second.\<close>

fun write_trailing :: "nat \<Rightarrow> 32 word \<Rightarrow> 8 word list \<Rightarrow> nat \<Rightarrow> (32 word \<times> 8 word list) option" where
  "write_trailing 0 ch block bytes = Some (ch, block)"
| "write_trailing (Suc k) ch block bytes =
     do { block \<leftarrow> wr block (bytes + Suc k) (ucast ((ch OR 0x80) AND 0xBF));
          write_trailing k (drop_bit 6 ch) block bytes }"

definition CFToUTF8Core ::
    "32 word \<Rightarrow> 8 word list \<Rightarrow> nat \<Rightarrow> 32 word \<Rightarrow> (nat \<times> 8 word list) option" where
  "CFToUTF8Core ch block bytes maxByteLen =
     (let bytesToWrite = CFUTF8BytesToWriteForCharacter ch;
          (bytesToWrite, ch) = (if bytesToWrite = 0 then (2, kReplacementCharacter) else (bytesToWrite, ch))
      in if unat maxByteLen < bytesToWrite then Some (0, block)
         else do {
           (ch, block) \<leftarrow> write_trailing (bytesToWrite - 1) ch block bytes;
           block \<leftarrow> wr block bytes (ucast (ch OR ucast (firstByteMark ! bytesToWrite)));
           Some (bytesToWrite, block) })"

record to_utf8 =
  to_characters :: nat
  to_bytes :: nat
  to_block :: "8 word list"

text \<open>The treatment of surrogates: whether the loop goes on, the code point, and how many further
  characters it took.\<close>

definition to_surrogates ::
    "bool \<Rightarrow> 16 word list \<Rightarrow> nat \<Rightarrow> nat \<Rightarrow> 32 word \<Rightarrow> (bool \<times> 32 word \<times> nat) option" where
  "to_surrogates isStrict text numChars characters ch =
     (if kSurrogateHighStart \<le> ch then
        if ch \<le> kSurrogateHighEnd then
          (if characters < numChars then do {
             low \<leftarrow> rd text characters;
             let low = ucast low :: 32 word in
             if kSurrogateLowStart \<le> low \<and> low \<le> kSurrogateLowEnd
             then Some (True, push_bit halfShift (ch - kSurrogateHighStart) + (low - kSurrogateLowStart)
                                + halfBase, 1)
             else Some (\<not> isStrict, ch, 0) }
           else Some (\<not> isStrict, ch, 0))
        else Some (\<not> (isStrict \<and> ch \<le> kSurrogateLowEnd), ch, 0)
      else Some (True, ch, 0))"

text \<open>One iteration: whether the loop goes on (False for \<open>break\<close>), and the new state.\<close>

definition CFToUTF8_body ::
    "32 word \<Rightarrow> 16 word list \<Rightarrow> nat \<Rightarrow> nat \<Rightarrow> to_utf8 \<Rightarrow> (bool \<times> to_utf8) option" where
  "CFToUTF8_body flags text numChars maxByteLen s =
     do {
       unit \<leftarrow> rd text (to_characters s);
       let ch = ucast unit :: 32 word in
       let isStrict = (flags AND kCFStringEncodingUseHFSPlusCanonical = 0) in
       if ch < 0x80 then do {
         block \<leftarrow> (if maxByteLen \<noteq> 0 then wr (to_block s) (to_bytes s) (ucast ch) else Some (to_block s));
         Some (True, s\<lparr>to_characters := to_characters s + 1, to_block := block, to_bytes := to_bytes s + 1\<rparr>) }
       else do {
         (go, ch, more) \<leftarrow> to_surrogates isStrict text numChars (to_characters s + 1) ch;
         if \<not> go then Some (False, s)
         else do {
           (bytesWritten, block) \<leftarrow>
             (if maxByteLen \<noteq> 0
              then CFToUTF8Core ch (to_block s) (to_bytes s) (of_nat (maxByteLen - to_bytes s))
              else Some (CFUTF8BytesToWriteForCharacter ch, to_block s));
           if bytesWritten = 0
           then Some (False, s\<lparr>to_characters := to_characters s + 1 + more - (if ch < 0x10000 then 1 else 2),
                               to_block := block\<rparr>)
           else Some (True, s\<lparr>to_characters := to_characters s + 1 + more, to_block := block,
                              to_bytes := to_bytes s + bytesWritten\<rparr>) } } }"

lemma to_body_advances:
  "CFToUTF8_body flags text numChars maxByteLen s = Some (True, s') \<Longrightarrow> to_characters s < to_characters s'"
  by (auto simp: CFToUTF8_body_def Let_def option_bind_eq_Some split: if_splits prod.splits)

function CFToUTF8_loop ::
    "32 word \<Rightarrow> 16 word list \<Rightarrow> nat \<Rightarrow> nat \<Rightarrow> to_utf8 \<Rightarrow> to_utf8 option" where
  "CFToUTF8_loop flags text numChars maxByteLen s =
     (if to_characters s < numChars \<and> (maxByteLen = 0 \<or> to_bytes s < maxByteLen)
      then case CFToUTF8_body flags text numChars maxByteLen s of
             None \<Rightarrow> None
           | Some (go, s') \<Rightarrow> if go then CFToUTF8_loop flags text numChars maxByteLen s' else Some s'
      else Some s)"
  by pat_completeness auto

termination
  by (relation "measure (\<lambda>(_, _, numChars, _, s). numChars - to_characters s)")
    (auto dest: to_body_advances)

text \<open>The result: the characters consumed, the bytes used, and the block.\<close>

definition CFToUTF8 ::
    "32 word \<Rightarrow> 16 word list \<Rightarrow> nat \<Rightarrow> 8 word list \<Rightarrow> nat \<Rightarrow> (nat \<times> nat \<times> 8 word list) option" where
  "CFToUTF8 flags text numChars block maxByteLen =
     map_option (\<lambda>s. (to_characters s, to_bytes s, to_block s))
       (CFToUTF8_loop flags text numChars maxByteLen \<lparr>to_characters = 0, to_bytes = 0, to_block = block\<rparr>)"

text \<open>The measuring function: its loop, on the characters that are left.  The sum is a \<open>uint32_t\<close>.\<close>

fun CFToUTF8Len_loop :: "16 word list \<Rightarrow> 32 word \<Rightarrow> 32 word" where
  "CFToUTF8Len_loop [] bytesToWrite = bytesToWrite"
| "CFToUTF8Len_loop [unit] bytesToWrite =
     bytesToWrite + of_nat (CFUTF8BytesToWriteForCharacter (ucast unit))"
| "CFToUTF8Len_loop (unit # unit' # text) bytesToWrite =
     (let ch = ucast unit; low = ucast unit' in
      if (kSurrogateHighStart \<le> ch \<and> ch \<le> kSurrogateHighEnd)
         \<and> (kSurrogateLowStart \<le> low \<and> low \<le> kSurrogateLowEnd)
      then CFToUTF8Len_loop text
             (bytesToWrite + of_nat (CFUTF8BytesToWriteForCharacter
               (push_bit halfShift (ch - kSurrogateHighStart) + (low - kSurrogateLowStart) + halfBase)))
      else CFToUTF8Len_loop (unit' # text) (bytesToWrite + of_nat (CFUTF8BytesToWriteForCharacter ch)))"

definition CFToUTF8Len :: "16 word list \<Rightarrow> nat" where
  "CFToUTF8Len text = unat (CFToUTF8Len_loop text 0)"

subsection \<open>From UTF-8\<close>

text \<open>\<open>while (--srcptr > source)\<close>: the bytes after the first, from the last on.\<close>

fun trailing_ok :: "8 word list \<Rightarrow> nat \<Rightarrow> nat \<Rightarrow> bool option" where
  "trailing_ok text source 0 = Some True"
| "trailing_ok text source (Suc k) =
     do { b \<leftarrow> rd text (source + Suc k);
          if b AND 0xC0 \<noteq> 0x80 then Some False else trailing_ok text source k }"

definition CFIsLegalUTF8 :: "8 word list \<Rightarrow> nat \<Rightarrow> nat \<Rightarrow> bool option" where
  "CFIsLegalUTF8 text source n =
     (if 4 < n then Some False
      else do {
        ok \<leftarrow> trailing_ok text source (n - 1);
        if \<not> ok then Some False
        else do {
          head \<leftarrow> rd text source;
          if (0x80 \<le> head \<and> head < 0xC2) \<or> 0xF4 < head then Some False
          else if head = 0xE0 then do { b \<leftarrow> rd text (source + 1); Some (\<not> b < 0xA0) }
          else if head = 0xED then do { b \<leftarrow> rd text (source + 1); Some (\<not> 0x9F < b) }
          else if head = 0xF0 then do { b \<leftarrow> rd text (source + 1); Some (\<not> b < 0x90) }
          else if head = 0xF4 then do { b \<leftarrow> rd text (source + 1); Some (\<not> 0x8F < b) }
          else Some True } })"

text \<open>The \<open>switch\<close> that gathers the bytes; its cases fall through.\<close>

fun gather :: "nat \<Rightarrow> 8 word list \<Rightarrow> nat \<Rightarrow> 32 word \<Rightarrow> (nat \<times> 32 word) option" where
  "gather 0 text source ch = do { b \<leftarrow> rd text source; Some (source + 1, ch + ucast b) }"
| "gather (Suc k) text source ch =
     do { b \<leftarrow> rd text source; gather k text (source + 1) (push_bit 6 (ch + ucast b)) }"

record from_utf8 =
  from_source :: nat
  from_numBytes :: nat
  from_used :: nat
  from_characters :: nat
  from_block :: "16 word list"

definition high_unit :: "32 word \<Rightarrow> 16 word" where
  "high_unit ch = ucast (drop_bit halfShift (ch - halfBase) + kSurrogateHighStart)"

definition low_unit :: "32 word \<Rightarrow> 16 word" where
  "low_unit ch = ucast (((ch - halfBase) AND halfMask) + kSurrogateLowStart)"

text \<open>\<open>if (maxCharLen) *(characters++) = unit; ++theUsedCharLen\<close>.\<close>

definition put_unit :: "nat \<Rightarrow> 16 word \<Rightarrow> from_utf8 \<Rightarrow> from_utf8 option" where
  "put_unit maxCharLen unit s =
     (if maxCharLen \<noteq> 0 then do {
        block \<leftarrow> wr (from_block s) (from_characters s) unit;
        Some (s\<lparr>from_block := block, from_characters := from_characters s + 1, from_used := from_used s + 1\<rparr>) }
      else Some (s\<lparr>from_used := from_used s + 1\<rparr>))"

text \<open>The UTF-16 loop of \<open>CFUniCharFillDestinationBuffer\<close>: success, \<open>dstBuffer\<close>, \<open>usedLength\<close>,
  and the block.\<close>

fun CFUniCharFill_UTF16 ::
    "32 word list \<Rightarrow> nat \<Rightarrow> nat \<Rightarrow> nat \<Rightarrow> 16 word list \<Rightarrow> (bool \<times> nat \<times> nat \<times> 16 word list) option" where
  "CFUniCharFill_UTF16 [] dstLength dst used block = Some (True, dst, used, block)"
| "CFUniCharFill_UTF16 (ch # src) dstLength dst used block =
     (if 0xFFFF < ch then
        if dstLength \<noteq> 0 then
          if dstLength < used + 2 then Some (False, dst, used + 2, block)
          else do { block \<leftarrow> wr block dst (high_unit ch);
                    block \<leftarrow> wr block (dst + 1) (low_unit ch);
                    CFUniCharFill_UTF16 src dstLength (dst + 2) (used + 2) block }
        else CFUniCharFill_UTF16 src dstLength dst (used + 2) block
      else
        if dstLength \<noteq> 0 then
          if dstLength < used + 1 then Some (False, dst, used + 1, block)
          else do { block \<leftarrow> wr block dst (ucast ch);
                    CFUniCharFill_UTF16 src dstLength (dst + 1) (used + 1) block }
        else CFUniCharFill_UTF16 src dstLength dst (used + 1) block)"

text \<open>On failure neither \<open>*dst\<close> nor \<open>*filledLength\<close> is updated.\<close>

definition put_decomposed :: "nat \<Rightarrow> 32 word list \<Rightarrow> from_utf8 \<Rightarrow> (bool \<times> from_utf8) option" where
  "put_decomposed maxCharLen decomposed s =
     do { (ok, characters, used, block) \<leftarrow>
            CFUniCharFill_UTF16 decomposed maxCharLen (from_characters s) (from_used s) (from_block s);
          if ok then Some (True, s\<lparr>from_block := block, from_characters := characters, from_used := used\<rparr>)
          else Some (False, s\<lparr>from_block := block\<rparr>) }"

text \<open>\<open>while (--decompLength >= 0) theUsedCharLen += (decomposed[decompLength] < 0x10000 ? 1 : 2)\<close>.\<close>

definition decomposed_length :: "32 word list \<Rightarrow> nat" where
  "decomposed_length decomposed = (\<Sum>ch \<leftarrow> rev decomposed. if ch < 0x10000 then 1 else 2)"

text \<open>What the loop does with the code point it gathered; \<open>extra\<close> is \<open>extraBytesToRead\<close>.\<close>

definition CFFromUTF8_store ::
    "32 word \<Rightarrow> (32 word \<Rightarrow> bool \<Rightarrow> bool) \<Rightarrow> (32 word \<Rightarrow> 32 word list) \<Rightarrow> nat \<Rightarrow> nat \<Rightarrow> 32 word \<Rightarrow> from_utf8
      \<Rightarrow> (bool \<times> from_utf8) option" where
  "CFFromUTF8_store flags decomposable decompose maxCharLen extra ch s =
     (let isHFSPlus = (flags AND kCFStringEncodingUseHFSPlusCanonical \<noteq> 0);
          needsToDecompose = (flags AND kCFStringEncodingUseCanonical \<noteq> 0 \<or> isHFSPlus);
          isStrict = (\<not> isHFSPlus)
      in if ch \<le> kMaximumUCS2 then
           if isStrict \<and> kSurrogateHighStart \<le> ch \<and> ch \<le> kSurrogateLowEnd
           then Some (False, s\<lparr>from_source := from_source s - (extra + 1)\<rparr>)
           else if needsToDecompose \<and> decomposable ch isHFSPlus then
             if maxCharLen \<noteq> 0 then put_decomposed maxCharLen (decompose ch) s
             else Some (True, s\<lparr>from_used := from_used s + length (decompose ch)\<rparr>)
           else map_option (Pair True) (put_unit maxCharLen (ucast ch) s)
         else if kMaximumUTF16 < ch then
           if isStrict then Some (False, s\<lparr>from_source := from_source s - (extra + 1)\<rparr>)
           else map_option (Pair True) (put_unit maxCharLen (ucast kReplacementCharacter) s)
         else if needsToDecompose \<and> decomposable ch isHFSPlus then
           if maxCharLen \<noteq> 0 then put_decomposed maxCharLen (decompose ch) s
           else Some (True, s\<lparr>from_used := from_used s + decomposed_length (decompose ch)\<rparr>)
         else if maxCharLen \<noteq> 0 then
           if maxCharLen < from_used s + 2 then Some (False, s)
           else do { s \<leftarrow> put_unit maxCharLen (high_unit ch) s;
                     s \<leftarrow> put_unit maxCharLen (low_unit ch) s;
                     Some (True, s) }
         else Some (True, s\<lparr>from_used := from_used s + 2\<rparr>))"

text \<open>The check of one sequence, whether lenient or strict.\<close>

definition accepted :: "32 word \<Rightarrow> 8 word list \<Rightarrow> nat \<Rightarrow> nat \<Rightarrow> bool option" where
  "accepted flags text source extra =
     (if 3 < extra then Some False
      else if flags AND kCFStringEncodingLenientUTF8Conversion = 0
      then CFIsLegalUTF8 text source (extra + 1)
      else Some True)"

definition CFFromUTF8_body ::
    "32 word \<Rightarrow> (32 word \<Rightarrow> bool \<Rightarrow> bool) \<Rightarrow> (32 word \<Rightarrow> 32 word list) \<Rightarrow> 8 word list \<Rightarrow> nat \<Rightarrow> from_utf8
      \<Rightarrow> (bool \<times> from_utf8) option" where
  "CFFromUTF8_body flags decomposable decompose text maxCharLen s =
     do {
       head \<leftarrow> rd text (from_source s);
       let extra = trailingBytesForUTF8 ! unat head in
       let s = s\<lparr>from_numBytes := from_numBytes s - 1\<rparr> in
       if from_numBytes s < extra then Some (False, s)
       else do {
         ok \<leftarrow> accepted flags text (from_source s) extra;
         if \<not> ok then
           if head = 0xA9 \<or> flags AND kCFStringEncodingAllowLossyConversion \<noteq> 0
           then map_option (Pair True)
                  (put_unit maxCharLen (ucast kReplacementCharacter) (s\<lparr>from_source := from_source s + 1\<rparr>))
           else Some (False, s\<lparr>from_numBytes := from_numBytes s - extra\<rparr>)
         else do {
           (source, ch) \<leftarrow> gather extra text (from_source s) 0;
           CFFromUTF8_store flags decomposable decompose maxCharLen extra (ch - offsetsFromUTF8 ! extra)
             (s\<lparr>from_source := source, from_numBytes := from_numBytes s - extra\<rparr>) } } }"

lemma put_unit_numBytes: "put_unit m c s = Some s' \<Longrightarrow> from_numBytes s' = from_numBytes s"
  by (auto simp: put_unit_def option_bind_eq_Some split: if_splits)

lemma put_decomposed_numBytes:
  "put_decomposed m cs s = Some (go, s') \<Longrightarrow> from_numBytes s' = from_numBytes s"
  by (auto simp: put_decomposed_def option_bind_eq_Some split: if_splits prod.splits)

lemma store_numBytes:
  "CFFromUTF8_store flags decomposable decompose m extra ch s = Some (go, s') \<Longrightarrow>
    from_numBytes s' = from_numBytes s"
  by (auto simp: CFFromUTF8_store_def Let_def option_bind_eq_Some
      dest!: put_unit_numBytes put_decomposed_numBytes split: if_splits)

lemma from_body_advances:
  "CFFromUTF8_body flags decomposable decompose text m s = Some (True, s') \<Longrightarrow> from_numBytes s \<noteq> 0 \<Longrightarrow>
    from_numBytes s' < from_numBytes s"
  by (auto simp: CFFromUTF8_body_def Let_def option_bind_eq_Some
      dest!: put_unit_numBytes store_numBytes split: if_splits prod.splits)

function CFFromUTF8_loop ::
    "32 word \<Rightarrow> (32 word \<Rightarrow> bool \<Rightarrow> bool) \<Rightarrow> (32 word \<Rightarrow> 32 word list) \<Rightarrow> 8 word list \<Rightarrow> nat \<Rightarrow> from_utf8
      \<Rightarrow> from_utf8 option" where
  "CFFromUTF8_loop flags decomposable decompose text maxCharLen s =
     (if from_numBytes s \<noteq> 0 \<and> (maxCharLen = 0 \<or> from_used s < maxCharLen)
      then case CFFromUTF8_body flags decomposable decompose text maxCharLen s of
             None \<Rightarrow> None
           | Some (go, s') \<Rightarrow>
               if go then CFFromUTF8_loop flags decomposable decompose text maxCharLen s' else Some s'
      else Some s)"
  by pat_completeness auto

termination
  by (relation "measure (\<lambda>(_, _, _, _, _, s). from_numBytes s)") (auto dest: from_body_advances)

text \<open>The result: the bytes consumed, the characters used, and the block.\<close>

definition CFFromUTF8 ::
    "32 word \<Rightarrow> (32 word \<Rightarrow> bool \<Rightarrow> bool) \<Rightarrow> (32 word \<Rightarrow> 32 word list) \<Rightarrow> 8 word list \<Rightarrow> nat \<Rightarrow> 16 word list
      \<Rightarrow> nat \<Rightarrow> (nat \<times> nat \<times> 16 word list) option" where
  "CFFromUTF8 flags decomposable decompose text numBytes block maxCharLen =
     map_option (\<lambda>s. (from_source s, from_used s, from_block s))
       (CFFromUTF8_loop flags decomposable decompose text maxCharLen
         \<lparr>from_source = 0, from_numBytes = numBytes, from_used = 0, from_characters = 0,
          from_block = block\<rparr>)"

text \<open>The measuring function; its result for one code point, or \<open>None\<close> for \<open>break\<close>.\<close>

definition measure_store ::
    "32 word \<Rightarrow> (32 word \<Rightarrow> bool \<Rightarrow> bool) \<Rightarrow> (32 word \<Rightarrow> 32 word list) \<Rightarrow> 32 word \<Rightarrow> nat option" where
  "measure_store flags decomposable decompose ch =
     (let isHFSPlus = (flags AND kCFStringEncodingUseHFSPlusCanonical \<noteq> 0);
          needsToDecompose = (flags AND kCFStringEncodingUseCanonical \<noteq> 0 \<or> isHFSPlus);
          isStrict = (\<not> isHFSPlus)
      in if ch \<le> kMaximumUCS2 then
           if isStrict \<and> kSurrogateHighStart \<le> ch \<and> ch \<le> kSurrogateLowEnd then None
           else if needsToDecompose \<and> decomposable ch isHFSPlus then Some (length (decompose ch))
           else Some 1
         else if kMaximumUTF16 < ch then Some 1
         else if needsToDecompose \<and> decomposable ch isHFSPlus
         then Some (decomposed_length (decompose ch))
         else Some 2)"

function CFFromUTF8Len_loop ::
    "32 word \<Rightarrow> (32 word \<Rightarrow> bool \<Rightarrow> bool) \<Rightarrow> (32 word \<Rightarrow> 32 word list) \<Rightarrow> 8 word list \<Rightarrow> nat \<Rightarrow> nat \<Rightarrow> nat
      \<Rightarrow> nat option" where
  "CFFromUTF8Len_loop flags decomposable decompose text source numBytes used =
     (if numBytes = 0 then Some used
      else case rd text source of
        None \<Rightarrow> None
      | Some head \<Rightarrow>
          (let extra = trailingBytesForUTF8 ! unat head in
           if numBytes - 1 < extra then Some used
           else case accepted flags text source extra of
             None \<Rightarrow> None
           | Some ok \<Rightarrow>
               if \<not> ok then
                 if head = 0xA9 \<or> flags AND kCFStringEncodingAllowLossyConversion \<noteq> 0
                 then CFFromUTF8Len_loop flags decomposable decompose text (source + 1) (numBytes - 1)
                        (used + 1)
                 else Some used
               else (case gather extra text source 0 of
                 None \<Rightarrow> None
               | Some (source', ch) \<Rightarrow>
                   (case measure_store flags decomposable decompose (ch - offsetsFromUTF8 ! extra) of
                     None \<Rightarrow> Some used
                   | Some n \<Rightarrow>
                       CFFromUTF8Len_loop flags decomposable decompose text source'
                         (numBytes - 1 - extra) (used + n)))))"
  by pat_completeness auto

termination
  by (relation "measure (\<lambda>(_, _, _, _, _, numBytes, _). numBytes)") auto

definition CFFromUTF8Len ::
    "32 word \<Rightarrow> (32 word \<Rightarrow> bool \<Rightarrow> bool) \<Rightarrow> (32 word \<Rightarrow> 32 word list) \<Rightarrow> 8 word list \<Rightarrow> nat \<Rightarrow> nat option" where
  "CFFromUTF8Len flags decomposable decompose text numBytes =
     CFFromUTF8Len_loop flags decomposable decompose text 0 numBytes 0"

declare CFToUTF8_loop.simps [simp del] CFFromUTF8_loop.simps [simp del] CFFromUTF8Len_loop.simps [simp del]

subsection \<open>The specification\<close>

definition scalar :: "nat \<Rightarrow> bool" where
  "scalar c \<longleftrightarrow> c < 0xD800 \<or> 0xDFFF < c \<and> c \<le> 0x10FFFF"

definition utf8_numbers :: "nat \<Rightarrow> nat list" where
  "utf8_numbers c =
     (if c < 0x80 then [c]
      else if c < 0x800 then [0xC0 + c div 64, 0x80 + c mod 64]
      else if c < 0x10000 then [0xE0 + c div 4096, 0x80 + c div 64 mod 64, 0x80 + c mod 64]
      else [0xF0 + c div 262144, 0x80 + c div 4096 mod 64, 0x80 + c div 64 mod 64, 0x80 + c mod 64])"

definition utf8_bytes :: "nat \<Rightarrow> 8 word list" where
  "utf8_bytes c = map of_nat (utf8_numbers c)"

definition utf16_units :: "nat \<Rightarrow> 16 word list" where
  "utf16_units c =
     (if c < 0x10000 then [of_nat c]
      else [of_nat (0xD800 + (c - 0x10000) div 1024), of_nat (0xDC00 + (c - 0x10000) mod 1024)])"

subsection \<open>Words and code points\<close>

lemma bit_nat_less: "bit (n :: nat) i \<Longrightarrow> n < 2 ^ k \<Longrightarrow> i < k"
  by (rule ccontr) (auto simp: bit_iff_odd not_less dest: order.strict_trans2 [OF _ power_increasing])

lemma of_nat_or_high:
  assumes "n < 2 ^ k"
  shows "(of_nat n :: 'a::len word) OR push_bit k y = of_nat n + push_bit k y"
proof -
  have "(of_nat n :: 'a word) AND push_bit k y = 0"
    by (rule bit_word_eqI) (use assms in \<open>auto simp: bit_simps dest: bit_nat_less\<close>)
  then show ?thesis by (metis add_0 word_plus_and_or)
qed

lemma drop_bit_of_nat_word:
  "n < 2 ^ LENGTH('a) \<Longrightarrow> drop_bit k (of_nat n :: 'a::len word) = of_nat (n div 2 ^ k)"
  by (rule bit_word_eqI) (auto simp: bit_simps add.commute simp flip: drop_bit_eq_div dest: bit_nat_less)

lemma ucast_of_nat_word: "n < 2 ^ LENGTH('a) \<Longrightarrow> ucast (of_nat n :: 'a::len word) = (of_nat n :: 'b::len word)"
  by (simp add: unsigned_of_nat take_bit_nat_eq_self)

lemma continuation_byte:
  "c < 2 ^ 32 \<Longrightarrow> (ucast (((of_nat c :: 32 word) OR 0x80) AND 0xBF) :: 8 word) = of_nat (0x80 + c mod 64)"
proof -
  assume "c < 2 ^ 32"
  have 80: "(0x80 :: 32 word) = push_bit 7 1" "(0x80 :: 8 word) = push_bit 6 2" by simp_all
  have BF: "(0xBF :: 32 word) = mask 6 OR push_bit 7 1" by (simp add: mask_eq_exp_minus_1)
  have "(ucast (((of_nat c :: 32 word) OR 0x80) AND 0xBF) :: 8 word) = take_bit 6 (of_nat c) OR push_bit 7 1"
    unfolding 80 BF by (rule bit_word_eqI) (auto simp: bit_simps)
  also have "\<dots> = of_nat (c mod 64) OR push_bit 6 2"
    by (simp add: take_bit_of_nat flip: take_bit_eq_mod [of 6 c, simplified])
  also have "\<dots> = of_nat (0x80 + c mod 64)"
    by (subst of_nat_or_high) simp_all
  finally show ?thesis .
qed

lemma first_byte:
  assumes "n < 2 ^ k" "k \<le> 8" "mark = push_bit k m"
  shows "(ucast ((of_nat n :: 32 word) OR ucast mark) :: 8 word) = of_nat n + mark"
proof -
  have "(2::nat) ^ k \<le> 2 ^ 8" using assms(2) by (rule power_increasing) simp
  then have "(ucast ((of_nat n :: 32 word) OR ucast mark) :: 8 word) = ucast (of_nat n :: 32 word) OR mark"
    by (auto intro!: bit_word_eqI simp: bit_simps)
  also have "(ucast (of_nat n :: 32 word) :: 8 word) = of_nat n"
    using assms \<open>2 ^ k \<le> 2 ^ 8\<close> by (intro ucast_of_nat_word) simp
  finally show ?thesis using assms by (simp add: of_nat_or_high)
qed

subsection \<open>The encoder\<close>

lemma length_utf8_bytes:
  "length (utf8_bytes c) = (if c < 0x80 then 1 else if c < 0x800 then 2 else if c < 0x10000 then 3 else 4)"
  by (simp add: utf8_bytes_def utf8_numbers_def)

lemma utf8_bytes_not_Nil [simp]: "utf8_bytes c \<noteq> []"
  by (simp add: utf8_bytes_def utf8_numbers_def)

text \<open>The bytes after the first, by repeated division.\<close>

fun continuations :: "nat \<Rightarrow> nat \<Rightarrow> 8 word list" where
  "continuations 0 c = []"
| "continuations (Suc k) c = continuations k (c div 64) @ [of_nat (0x80 + c mod 64)]"

lemma length_continuations [simp]: "length (continuations k c) = k"
  by (induction k arbitrary: c) simp_all

lemma write_trailing_ok:
  "c < 2 ^ 32 \<Longrightarrow> off + k < length block \<Longrightarrow>
    write_trailing k (of_nat c) block off
      = Some (of_nat (c div 64 ^ k), overwritten block (Suc off) (continuations k c))"
proof (induction k arbitrary: c block)
  case 0
  then show ?case by (simp add: overwritten_def)
next
  case (Suc k)
  let ?z = "of_nat (0x80 + c mod 64) :: 8 word"
  have "write_trailing (Suc k) (of_nat c) block off
      = write_trailing k (of_nat (c div 64)) (block[off + Suc k := ?z]) off"
    using Suc.prems drop_bit_of_nat_word [where 'a = 32, of c 6]
    by (simp only: write_trailing.simps continuation_byte) (simp add: wr_Some)
  also have "\<dots> = Some (of_nat (c div 64 div 64 ^ k),
      overwritten (block[off + Suc k := ?z]) (Suc off) (continuations k (c div 64)))"
    using Suc.prems by (intro Suc.IH) simp_all
  finally show ?case
    using Suc.prems overwritten_snoc [of "Suc off" "continuations k (c div 64)" block ?z]
    by (simp add: div_mult2_eq)
qed

lemma bytes_to_write:
  "c \<le> 0x10FFFF \<Longrightarrow> CFUTF8BytesToWriteForCharacter (of_nat c) = length (utf8_bytes c)"
  by (auto simp: CFUTF8BytesToWriteForCharacter_def length_utf8_bytes word_less_nat_alt unat_of_nat)

lemma utf8_bytes_split:
  assumes "c \<le> 0x10FFFF" "k = length (utf8_bytes c) - 1"
  obtains j m where "utf8_bytes c = (of_nat (c div 64 ^ k) + firstByteMark ! Suc k) # continuations k c"
    "c div 64 ^ k < 2 ^ j" "j \<le> 8" "firstByteMark ! Suc k = push_bit j m"
proof -
  consider "c < 0x80" | "0x80 \<le> c" "c < 0x800" | "0x800 \<le> c" "c < 0x10000" | "0x10000 \<le> c" by linarith
  then show ?thesis
  proof cases
    case 1
    then show ?thesis using assms(2)
      by (intro that [of 7 0]) (simp_all add: utf8_bytes_def utf8_numbers_def firstByteMark_def)
  next
    case 2
    then show ?thesis using assms(2)
      by (intro that [of 5 6]) (simp_all add: utf8_bytes_def utf8_numbers_def firstByteMark_def)
  next
    case 3
    then have "k = Suc (Suc 0)" using assms(2) by (simp add: length_utf8_bytes)
    with 3 show ?thesis
      by (intro that [of 4 14]) (simp_all add: utf8_bytes_def utf8_numbers_def firstByteMark_def)
  next
    case 4
    then have "k = Suc (Suc (Suc 0))" using assms(2) by (simp add: length_utf8_bytes)
    with 4 assms(1) show ?thesis
      by (intro that [of 3 30])
        (simp_all add: utf8_bytes_def utf8_numbers_def firstByteMark_def flip: div_mult2_eq)
  qed
qed

lemma to_utf8_core:
  assumes "c \<le> 0x10FFFF" "length (utf8_bytes c) \<le> unat m" "off + length (utf8_bytes c) \<le> length block"
  shows "CFToUTF8Core (of_nat c) block off m
    = Some (length (utf8_bytes c), overwritten block off (utf8_bytes c))"
proof -
  obtain k where k: "length (utf8_bytes c) = Suc k" by (cases "utf8_bytes c") auto
  obtain j y where j: "utf8_bytes c = (of_nat (c div 64 ^ k) + firstByteMark ! Suc k) # continuations k c"
    "c div 64 ^ k < 2 ^ j" "j \<le> 8" "firstByteMark ! Suc k = push_bit j y"
    using utf8_bytes_split [OF assms(1), of k] k by auto
  show ?thesis
    using assms k j(1) write_trailing_ok [of c off k block] first_byte [OF j(2-4)]
      overwritten_Cons [of off "continuations k c" block]
    by (simp add: CFToUTF8Core_def bytes_to_write wr_Some)
qed

lemma to_utf8_core_full:
  "c \<le> 0x10FFFF \<Longrightarrow> unat m < length (utf8_bytes c) \<Longrightarrow> CFToUTF8Core (of_nat c) block off m = Some (0, block)"
  by (simp add: CFToUTF8Core_def bytes_to_write)

lemma utf16_units_not_Nil [simp]: "utf16_units c \<noteq> []"
  by (simp add: utf16_units_def)

lemma utf16_single:
  "\<not> (0xD800 \<le> u \<and> u \<le> 0xDFFF) \<Longrightarrow> scalar (unat (u :: 16 word)) \<and> utf16_units (unat u) = [u]"
  using unsigned_less [of u, where 'a = nat]
  by (auto simp: scalar_def utf16_units_def word_le_nat_alt)

lemma utf16_pair:
  assumes "0xD800 \<le> h" "h \<le> (0xDBFF :: 16 word)" "0xDC00 \<le> l" "l \<le> (0xDFFF :: 16 word)"
  obtains c where "scalar c" "0x10000 \<le> c" "utf16_units c = [h, l]"
proof -
  have "0xD800 \<le> unat h" "unat h \<le> 0xDBFF" "0xDC00 \<le> unat l" "unat l \<le> 0xDFFF"
    using assms by (simp_all add: word_le_nat_alt)
  then obtain a b where ab: "unat h = 0xD800 + a" "a < 1024" "unat l = 0xDC00 + b" "b < 1024"
    using le_Suc_ex [of "0xD800" "unat h"] le_Suc_ex [of "0xDC00" "unat l"] by auto
  then have "h = of_nat (0xD800 + a)" "l = of_nat (0xDC00 + b)"
    unfolding ab(1) [symmetric] ab(3) [symmetric] by simp_all
  then have "utf16_units (0x10000 + (a * 1024 + b)) = [h, l]"
    using ab by (simp add: utf16_units_def)
  moreover have "scalar (0x10000 + (a * 1024 + b))" using ab by (simp add: scalar_def)
  ultimately show ?thesis using that by simp
qed

lemma surrogate_value:
  "push_bit 10 (of_nat (0xD800 + a) - 0xD800) + (of_nat (0xDC00 + b) - 0xDC00) + 0x10000
    = (of_nat (a * 1024 + b + 0x10000) :: 32 word)"
  by (simp add: push_bit_eq_mult)

lemma unat_ucast_unit: "unat (ucast (u :: 16 word) :: 32 word) = unat u"
  using unsigned_less [of u, where 'a = nat] by (simp add: unsigned_ucast_eq take_bit_nat_eq_self)

lemma of_nat_unit_eq: "a < 2 ^ 16 \<Longrightarrow> b < 2 ^ 16 \<Longrightarrow> (of_nat a :: 16 word) = of_nat b \<longleftrightarrow> a = b"
  by (auto dest: arg_cong [of _ _ unat] simp: unat_of_nat)

text \<open>The first code point of a text is determined.\<close>

lemma utf16_units_prefix:
  assumes "scalar c" "scalar d" "utf16_units c @ rest = utf16_units d @ rest'"
  shows "c = d"
proof -
  have bounds: "(c - 0x10000) div 1024 < 1024" "(d - 0x10000) div 1024 < 1024"
    using assms(1,2) by (auto simp: scalar_def)
  have hd: "hd (utf16_units c) = hd (utf16_units d)" "c \<ge> 0x10000 \<Longrightarrow> d \<ge> 0x10000 \<Longrightarrow>
      utf16_units c ! 1 = utf16_units d ! 1"
    using assms(3) by (auto simp: utf16_units_def split: if_splits)
  consider "c < 0x10000" "d < 0x10000" | "c < 0x10000" "0x10000 \<le> d" | "0x10000 \<le> c" "d < 0x10000"
    | "0x10000 \<le> c" "0x10000 \<le> d" by linarith
  then show ?thesis
  proof cases
    case 4
    then have "(c - 0x10000) div 1024 = (d - 0x10000) div 1024"
      "(c - 0x10000) mod 1024 = (d - 0x10000) mod 1024"
      using hd bounds by (simp_all add: utf16_units_def of_nat_unit_eq del: of_nat_add)
    then have "c - 0x10000 = d - 0x10000" by (metis div_mult_mod_eq)
    then show ?thesis using 4 by simp
  qed (use hd(1) bounds assms(1,2) in
      \<open>simp_all add: utf16_units_def of_nat_unit_eq scalar_def del: of_nat_add\<close>)
qed

lemma to_surrogates_single:
  "c < 0x10000 \<Longrightarrow> scalar c \<Longrightarrow> to_surrogates strict text n i (of_nat c) = Some (True, of_nat c, 0)"
  by (auto simp: to_surrogates_def utf_constants scalar_def word_le_nat_alt unat_of_nat)

lemma to_surrogates_pair:
  assumes "0x10000 \<le> c" "scalar c" "i < n" "i < length text"
    "text ! i = of_nat (0xDC00 + (c - 0x10000) mod 1024)"
  shows "to_surrogates strict text n i (of_nat (0xD800 + (c - 0x10000) div 1024)) = Some (True, of_nat c, 1)"
proof -
  let ?h = "(c - 0x10000) div 1024" and ?l = "(c - 0x10000) mod 1024"
  have h: "?h < 1024" and l: "?l < 1024" using assms by (auto simp: scalar_def)
  have "ucast (text ! i) = (of_nat (0xDC00 + ?l) :: 32 word)"
    unfolding assms(5) using l by (intro ucast_of_nat_word) simp
  moreover have "0xDC00 \<le> (of_nat (0xDC00 + ?l) :: 32 word)" "(of_nat (0xDC00 + ?l) :: 32 word) \<le> 0xDFFF"
    "0xD800 \<le> (of_nat (0xD800 + ?h) :: 32 word)" "(of_nat (0xD800 + ?h) :: 32 word) \<le> 0xDBFF"
    unfolding word_le_nat_alt using h l by (simp_all add: unat_of_nat del: of_nat_add)
  moreover have "push_bit 10 (of_nat (0xD800 + ?h) - 0xD800) + (of_nat (0xDC00 + ?l) - 0xDC00) + 0x10000
      = (of_nat c :: 32 word)"
  proof -
    have "?h * 1024 + ?l + 0x10000 = c" using assms(1) by presburger
    then show ?thesis unfolding surrogate_value by simp
  qed
  ultimately show ?thesis
    using assms(3,4) by (simp add: to_surrogates_def utf_constants rd_Some)
qed

lemma at_units:
  assumes "i < length us" "drop p (take n text) = us @ rest" "n \<le> length text"
  shows "p + i < n \<and> p + i < length text \<and> text ! (p + i) = us ! i"
proof -
  have "n - p = length us + length rest"
    using assms(3) arg_cong [OF assms(2), of length] by simp
  then have "p + i < n" using assms(1) by linarith
  moreover have "text ! (p + i) = drop p (take n text) ! i"
    using \<open>p + i < n\<close> assms(3) by simp
  ultimately show ?thesis
    using assms(1,3) by (simp add: assms(2) nth_append)
qed

lemma to_body_scalar:
  assumes "scalar c" "drop (to_characters s) (take n text) = utf16_units c @ rest" "n \<le> length text"
    and "m \<noteq> 0 \<longrightarrow> m < 2 ^ 32 \<and> to_bytes s + length (utf8_bytes c) \<le> m \<and> m \<le> length (to_block s)"
  shows "CFToUTF8_body flags text n m s = Some (True,
    \<lparr>to_characters = to_characters s + length (utf16_units c),
     to_bytes = to_bytes s + length (utf8_bytes c),
     to_block = (if m = 0 then to_block s else overwritten (to_block s) (to_bytes s) (utf8_bytes c))\<rparr>)"
proof -
  have c: "c \<le> 0x10FFFF" using assms(1) by (auto simp: scalar_def)
  have at: "to_characters s + i < n \<and> to_characters s + i < length text
      \<and> text ! (to_characters s + i) = utf16_units c ! i" if "i < length (utf16_units c)" for i
    using that assms(2,3) by (rule at_units)
  have core: "m \<noteq> 0 \<Longrightarrow> CFToUTF8Core (of_nat c) (to_block s) (to_bytes s) (of_nat (m - to_bytes s))
      = Some (length (utf8_bytes c), overwritten (to_block s) (to_bytes s) (utf8_bytes c))"
  proof -
    assume "m \<noteq> 0"
    then have "length (utf8_bytes c) \<le> m - to_bytes s" "m - to_bytes s < 2 ^ 32" using assms(4) by linarith+
    then show ?thesis
      using assms(4) \<open>m \<noteq> 0\<close> by (intro to_utf8_core c) (simp_all add: unat_of_nat del: of_nat_diff)
  qed
  consider "c < 0x80" | "0x80 \<le> c" "c < 0x10000" | "0x10000 \<le> c" by linarith
  then show ?thesis
  proof cases
    case 1
    then have "text ! to_characters s = of_nat c" "to_characters s < length text"
      using at [of 0] by (simp_all add: utf16_units_def)
    moreover have "(ucast (of_nat c :: 16 word) :: 32 word) = of_nat c"
      "(ucast (of_nat c :: 32 word) :: 8 word) = of_nat c"
      using 1 by (simp_all add: ucast_of_nat_word)
    ultimately show ?thesis
      using 1 assms(4)
      by (cases s; cases "m = 0") (simp_all add: CFToUTF8_body_def rd_Some wr_def word_less_nat_alt unat_of_nat utf16_units_def
          utf8_bytes_def utf8_numbers_def overwritten_def upd_conv_take_nth_drop)
  next
    case 2
    then have "text ! to_characters s = of_nat c" "to_characters s < length text"
      using at [of 0] by (simp_all add: utf16_units_def)
    moreover have "(ucast (of_nat c :: 16 word) :: 32 word) = of_nat c" using 2 by (simp add: ucast_of_nat_word)
    ultimately show ?thesis
      using 2 assms(1) core
      by (cases "m = 0") (simp_all add: Let_def CFToUTF8_body_def rd_Some word_less_nat_alt unat_of_nat utf16_units_def
          to_surrogates_single bytes_to_write [OF c])
  next
    case 3
    let ?h = "0xD800 + (c - 0x10000) div 1024"
    have "text ! to_characters s = of_nat ?h" "to_characters s < length text"
      "text ! Suc (to_characters s) = of_nat (0xDC00 + (c - 0x10000) mod 1024)"
      "Suc (to_characters s) < length text" "Suc (to_characters s) < n"
      using 3 at [of 0] at [of 1] by (simp_all add: utf16_units_def)
    moreover have "(ucast (of_nat ?h :: 16 word) :: 32 word) = of_nat ?h"
      "\<not> (of_nat ?h :: 32 word) < 0x80"
      using c by (simp_all add: ucast_of_nat_word word_less_nat_alt unat_of_nat del: of_nat_add)
    ultimately show ?thesis
      using 3 core to_surrogates_pair [OF 3 assms(1), of "Suc (to_characters s)" n "text"]
      by (cases "m = 0") (simp_all add: Let_def CFToUTF8_body_def rd_Some unat_of_nat utf16_units_def
          bytes_to_write [OF c] del: of_nat_add)
  qed
qed

lemma to_body_full:
  assumes "scalar c" "drop (to_characters s) (take n text) = utf16_units c @ rest" "n \<le> length text"
    and "m < 2 ^ 32" "to_bytes s < m" "m < to_bytes s + length (utf8_bytes c)"
  shows "CFToUTF8_body flags text n m s = Some (False, s)"
proof -
  have c: "c \<le> 0x10FFFF" using assms(1) by (auto simp: scalar_def)
  have at: "to_characters s + i < n \<and> to_characters s + i < length text
      \<and> text ! (to_characters s + i) = utf16_units c ! i" if "i < length (utf16_units c)" for i
    using that assms(2,3) by (rule at_units)
  have full: "CFToUTF8Core (of_nat c) (to_block s) (to_bytes s) (of_nat (m - to_bytes s)) = Some (0, to_block s)"
    using assms by (intro to_utf8_core_full c) (simp add: unat_of_nat del: of_nat_diff)
  have 80: "0x80 \<le> c" using assms(5,6) by (auto simp: length_utf8_bytes split: if_splits)
  show ?thesis
  proof (cases "c < 0x10000")
    case True
    then have "text ! to_characters s = of_nat c" "to_characters s < length text"
      using at [of 0] by (simp_all add: utf16_units_def)
    moreover have "(ucast (of_nat c :: 16 word) :: 32 word) = of_nat c" using True by (simp add: ucast_of_nat_word)
    ultimately show ?thesis
      using True 80 assms(1,5) full
      by (cases s) (simp add: CFToUTF8_body_def rd_Some word_less_nat_alt unat_of_nat to_surrogates_single)
  next
    case False
    let ?h = "0xD800 + (c - 0x10000) div 1024"
    have False': "0x10000 \<le> c" using False by simp
    have "text ! to_characters s = of_nat ?h" "to_characters s < length text"
      "text ! Suc (to_characters s) = of_nat (0xDC00 + (c - 0x10000) mod 1024)"
      "Suc (to_characters s) < length text" "Suc (to_characters s) < n"
      using False at [of 0] at [of 1] by (simp_all add: utf16_units_def)
    moreover have "(ucast (of_nat ?h :: 16 word) :: 32 word) = of_nat ?h"
      "\<not> (of_nat ?h :: 32 word) < 0x80" "\<not> (of_nat c :: 32 word) < 0x10000"
      using c False by (simp_all add: ucast_of_nat_word word_less_nat_alt unat_of_nat del: of_nat_add)
    ultimately show ?thesis
      using assms(1,5) full to_surrogates_pair [OF False' assms(1), of "Suc (to_characters s)" n "text"]
      by (cases s) (simp add: CFToUTF8_body_def rd_Some del: of_nat_add)
  qed
qed

text \<open>Neither a character nor a surrogate pair: a strict conversion stops.\<close>

lemma to_body_stop:
  assumes "flags AND kCFStringEncodingUseHFSPlusCanonical = 0"
    and "drop (to_characters s) (take n text) = rest" "rest \<noteq> []" "n \<le> length text"
    and "\<And>c rest'. scalar c \<Longrightarrow> rest \<noteq> utf16_units c @ rest'"
  shows "CFToUTF8_body flags text n m s = Some (False, s)"
proof -
  obtain u us where us: "rest = u # us" using assms(3) by (cases rest) auto
  have u: "to_characters s < n" "text ! to_characters s = u" "to_characters s < length text"
    using at_units [of 0 "[u]" "to_characters s" n "text" us] assms(2,4) us by simp_all
  have surrogate: "0xD800 \<le> u \<and> u \<le> 0xDFFF"
  proof (rule ccontr)
    assume "\<not> (0xD800 \<le> u \<and> u \<le> 0xDFFF)"
    from utf16_single [OF this] show False using assms(5) [of "unat u" us] us by simp
  qed
  then have *: "kSurrogateHighStart \<le> ucast u" "ucast u \<le> kSurrogateLowEnd" "\<not> (ucast u :: 32 word) < 0x80"
    by (simp_all add: utf_constants word_le_nat_alt word_less_nat_alt unat_ucast_unit)
  have "to_surrogates True text n (to_characters s + 1) (ucast u) = Some (False, ucast u, 0)"
  proof (cases "ucast u \<le> kSurrogateHighEnd \<and> to_characters s + 1 < n")
    case True
    then obtain l us' where l: "us = l # us'"
      using us assms(2,4) by (cases us) (auto dest!: arg_cong [of _ _ length])
    have tl: "text ! Suc (to_characters s) = l"
      using at_units [of 1 "[u, l]" "to_characters s" n "text" us'] assms(2,4) us l by simp
    have "\<not> (0xDC00 \<le> l \<and> l \<le> 0xDFFF)"
    proof
      assume "0xDC00 \<le> l \<and> l \<le> 0xDFFF"
      moreover have "u \<le> 0xDBFF"
        using True by (simp add: utf_constants word_le_nat_alt unat_ucast_unit)
      ultimately obtain c where "scalar c" "utf16_units c = [u, l]"
        using utf16_pair [of u l] surrogate by auto
      then show False using assms(5) [of c us'] us l by simp
    qed
    then have "\<not> (kSurrogateLowStart \<le> ucast l \<and> ucast l \<le> kSurrogateLowEnd)"
      by (simp add: utf_constants word_le_nat_alt unat_ucast_unit)
    then show ?thesis using True * assms(4) tl by (simp add: to_surrogates_def rd_Some Let_def)
  next
    case False
    then show ?thesis using * by (auto simp: to_surrogates_def)
  qed
  then show ?thesis using u assms(1) * by (simp add: CFToUTF8_body_def rd_Some)
qed

text \<open>The whole loop, from any state.\<close>

definition all_bytes :: "nat list \<Rightarrow> 8 word list" where
  "all_bytes cs = concat (map utf8_bytes cs)"

definition all_units :: "nat list \<Rightarrow> 16 word list" where
  "all_units cs = concat (map utf16_units cs)"

lemma all_simps [simp]:
  "all_bytes [] = []" "all_bytes (c # cs) = utf8_bytes c @ all_bytes cs"
  "all_units [] = []" "all_units (c # cs) = utf16_units c @ all_units cs"
  by (simp_all add: all_bytes_def all_units_def)

text \<open>Why the encoder stopped: nothing is left, or what is left starts with no code point, or with
  one whose bytes do not fit.\<close>

definition encoder_stops :: "nat \<Rightarrow> nat \<Rightarrow> 16 word list \<Rightarrow> bool" where
  "encoder_stops m bytes rest \<longleftrightarrow>
     (\<forall>c rest'. scalar c \<longrightarrow> rest = utf16_units c @ rest' \<longrightarrow> m \<noteq> 0 \<and> m < bytes + length (utf8_bytes c))"

lemma to_loop:
  assumes "flags AND kCFStringEncodingUseHFSPlusCanonical = 0" "n \<le> length text"
    and "m \<noteq> 0 \<longrightarrow> m < 2 ^ 32 \<and> m \<le> length (to_block s)" "to_characters s \<le> n"
    and "m \<noteq> 0 \<longrightarrow> to_bytes s \<le> m"
  shows "\<exists>cs rest. (\<forall>c \<in> set cs. scalar c) \<and> drop (to_characters s) (take n text) = all_units cs @ rest
    \<and> (m \<noteq> 0 \<longrightarrow> to_bytes s + length (all_bytes cs) \<le> m)
    \<and> encoder_stops m (to_bytes s + length (all_bytes cs)) rest
    \<and> CFToUTF8_loop flags text n m s = Some
        \<lparr>to_characters = to_characters s + length (all_units cs),
         to_bytes = to_bytes s + length (all_bytes cs),
         to_block = (if m = 0 then to_block s else overwritten (to_block s) (to_bytes s) (all_bytes cs))\<rparr>"
  using assms(3-)
proof (induction "n - to_characters s" arbitrary: s rule: less_induct)
  case less
  let ?rest = "drop (to_characters s) (take n text)"
  have stop: ?case if "CFToUTF8_loop flags text n m s = Some s" "encoder_stops m (to_bytes s) ?rest"
    by (rule exI [of _ "[]"], rule exI [of _ ?rest]) (use that less.prems in simp)
  consider (guard) "to_characters s \<ge> n \<or> m \<noteq> 0 \<and> to_bytes s \<ge> m"
    | (none) "to_characters s < n" "m = 0 \<or> to_bytes s < m" "\<And>c rest. scalar c \<Longrightarrow> ?rest \<noteq> utf16_units c @ rest"
    | (full) c rest where "to_characters s < n" "m \<noteq> 0" "to_bytes s < m" "scalar c" "?rest = utf16_units c @ rest"
        "m < to_bytes s + length (utf8_bytes c)"
    | (step) c rest where "to_characters s < n" "m = 0 \<or> to_bytes s < m" "scalar c"
        "?rest = utf16_units c @ rest" "m = 0 \<or> to_bytes s + length (utf8_bytes c) \<le> m"
    by (meson not_less)
  then show ?case
  proof cases
    case guard
    show ?thesis
    proof (rule stop)
      show "CFToUTF8_loop flags text n m s = Some s" using guard by (subst CFToUTF8_loop.simps) auto
      show "encoder_stops m (to_bytes s) ?rest" using guard less.prems
        by (auto simp: encoder_stops_def length_utf8_bytes)
    qed
  next
    case none
    show ?thesis
    proof (rule stop)
      show "CFToUTF8_loop flags text n m s = Some s"
        using none to_body_stop [OF assms(1) refl _ assms(2), of s m] assms(2)
        by (subst CFToUTF8_loop.simps) auto
      show "encoder_stops m (to_bytes s) ?rest" using none by (auto simp: encoder_stops_def)
    qed
  next
    case full
    show ?thesis
    proof (rule stop)
      show "CFToUTF8_loop flags text n m s = Some s"
        using full less.prems to_body_full [OF full(4,5) assms(2), of m flags]
        by (subst CFToUTF8_loop.simps) auto
      show "encoder_stops m (to_bytes s) ?rest"
        using full by (auto simp: encoder_stops_def dest: utf16_units_prefix)
    qed
  next
    case step
    let ?s' = "\<lparr>to_characters = to_characters s + length (utf16_units c),
      to_bytes = to_bytes s + length (utf8_bytes c),
      to_block = (if m = 0 then to_block s else overwritten (to_block s) (to_bytes s) (utf8_bytes c))\<rparr>"
    have room: "m \<noteq> 0 \<longrightarrow> to_bytes s + length (utf8_bytes c) \<le> m \<and> m \<le> length (to_block s)"
      using step(5) less.prems(1) by auto
    have loop: "CFToUTF8_loop flags text n m s = CFToUTF8_loop flags text n m ?s'"
      using step room less.prems(1) to_body_scalar [OF step(3,4) assms(2), of m flags]
      by (subst CFToUTF8_loop.simps) auto
    have drop: "drop (to_characters ?s') (take n text) = rest"
      using arg_cong [OF step(4), of "drop (length (utf16_units c))"] by (simp add: add.commute)
    have "length (utf16_units c) \<le> n - to_characters s"
      using arg_cong [OF step(4), of length] assms(2) by simp
    moreover have "0 < length (utf16_units c)" by simp
    ultimately have "n - (to_characters s + length (utf16_units c)) < n - to_characters s"
      "to_characters s + length (utf16_units c) \<le> n"
      using step(1) by linarith+
    then have less: "n - to_characters ?s' < n - to_characters s" "to_characters ?s' \<le> n"
      by simp_all
    then have "\<exists>cs rest'. (\<forall>c \<in> set cs. scalar c) \<and> rest = all_units cs @ rest'
        \<and> (m \<noteq> 0 \<longrightarrow> to_bytes ?s' + length (all_bytes cs) \<le> m)
        \<and> encoder_stops m (to_bytes ?s' + length (all_bytes cs)) rest'
        \<and> CFToUTF8_loop flags text n m ?s' = Some
            \<lparr>to_characters = to_characters ?s' + length (all_units cs),
             to_bytes = to_bytes ?s' + length (all_bytes cs),
             to_block = (if m = 0 then to_block ?s' else overwritten (to_block ?s') (to_bytes ?s') (all_bytes cs))\<rparr>"
      unfolding drop [symmetric] using room less.prems(1)
      by (intro less.hyps less) auto
    then obtain cs rest' where cs: "\<forall>c \<in> set cs. scalar c" "rest = all_units cs @ rest'"
      "m \<noteq> 0 \<longrightarrow> to_bytes s + length (utf8_bytes c) + length (all_bytes cs) \<le> m"
      "encoder_stops m (to_bytes s + length (utf8_bytes c) + length (all_bytes cs)) rest'"
      "CFToUTF8_loop flags text n m ?s' = Some
            \<lparr>to_characters = to_characters s + length (utf16_units c) + length (all_units cs),
             to_bytes = to_bytes s + length (utf8_bytes c) + length (all_bytes cs),
             to_block = (if m = 0 then to_block s else overwritten (to_block s) (to_bytes s) (utf8_bytes c @ all_bytes cs))\<rparr>"
      using room by (auto simp: overwritten_append)
    show ?thesis
      by (rule exI [of _ "c # cs"], rule exI [of _ rest'])
        (use cs step loop in \<open>simp add: add.assoc\<close>)
  qed
qed

lemma utf8_encode_run:
  assumes "flags AND kCFStringEncodingUseHFSPlusCanonical = 0" "n \<le> length text"
    and "m < 2 ^ 32" "m \<le> length block"
  shows "\<exists>cs rest. (\<forall>c \<in> set cs. scalar c) \<and> take n text = all_units cs @ rest
    \<and> (m \<noteq> 0 \<longrightarrow> length (all_bytes cs) \<le> m) \<and> encoder_stops m (length (all_bytes cs)) rest
    \<and> CFToUTF8 flags text n block m = Some (length (all_units cs), length (all_bytes cs),
        if m = 0 then block else all_bytes cs @ drop (length (all_bytes cs)) block)"
proof -
  let ?s = "\<lparr>to_characters = 0, to_bytes = 0, to_block = block\<rparr>"
  obtain cs rest where *: "\<forall>c \<in> set cs. scalar c" "take n text = all_units cs @ rest"
    "m \<noteq> 0 \<longrightarrow> length (all_bytes cs) \<le> m" "encoder_stops m (length (all_bytes cs)) rest"
    "CFToUTF8_loop flags text n m ?s = Some
      \<lparr>to_characters = length (all_units cs), to_bytes = length (all_bytes cs),
       to_block = (if m = 0 then block else overwritten block 0 (all_bytes cs))\<rparr>"
    using to_loop [OF assms(1,2), of m ?s] assms(3,4) by auto
  show ?thesis
    by (rule exI [of _ cs], rule exI [of _ rest])
      (use * in \<open>simp add: CFToUTF8_def overwritten_def\<close>)
qed

subsection \<open>The decoder\<close>

lemma utf8_numbers_bound: "c \<le> 0x10FFFF \<Longrightarrow> n \<in> set (utf8_numbers c) \<Longrightarrow> n < 256"
  by (auto simp: utf8_numbers_def split: if_splits)

lemma trailing_table:
  "trailingBytesForUTF8 ! unat (b :: 8 word) =
    (if unat b < 192 then 0 else if unat b < 224 then 1 else if unat b < 240 then 2
     else if unat b < 248 then 3 else if unat b < 252 then 4 else 5)"
  using unsigned_less [of b, where 'a = nat]
  by (auto simp: trailingBytesForUTF8_def nth_append)

text \<open>The gathered value, on numbers.\<close>

fun gathered :: "nat \<Rightarrow> nat list \<Rightarrow> nat" where
  "gathered a [] = a"
| "gathered a [n] = a + n"
| "gathered a (n # ns) = gathered ((a + n) * 64) ns"

lemma gather_ok:
  "drop source text = map of_nat ns @ rest \<Longrightarrow> length ns = Suc k \<Longrightarrow> \<forall>n \<in> set ns. n < 256 \<Longrightarrow>
    gather k text source (of_nat a) = Some (source + Suc k, of_nat (gathered a ns))"
proof (induction k arbitrary: source ns a)
  case 0
  then obtain n where "ns = [n]" by (cases ns) auto
  then show ?case using 0 at_units [of 0 "[of_nat n]" source "length text" "text" rest]
    by (simp add: rd_Some ucast_of_nat_word)
next
  case (Suc k)
  then obtain n ms where ns: "ns = n # ms" "length ms = Suc k" by (cases ns) auto
  then have at: "source < length text" "text ! source = of_nat n" "drop (Suc source) text = map of_nat ms @ rest"
    using Suc.prems at_units [of 0 "[of_nat n]" source "length text" "text" "map of_nat ms @ rest"]
      tl_drop [of source "text"]
    by (simp_all add: drop_Suc)
  have "push_bit 6 (of_nat a + ucast (of_nat n :: 8 word)) = (of_nat ((a + n) * 64) :: 32 word)"
    using Suc.prems(3) ns by (simp add: ucast_of_nat_word push_bit_eq_mult)
  then show ?case
    using Suc.IH [OF at(3) ns(2), of "(a + n) * 64"] Suc.prems(3) ns at(1,2)
    by (cases ms) (simp_all add: rd_Some del: of_nat_mult of_nat_add)
qed

lemma gathered_marks:
  "gathered 0 [0xC0 + a, 0x80 + b] = a * 64 + b + 0x3080"
  "gathered 0 [0xE0 + a, 0x80 + b, 0x80 + d] = (a * 64 + b) * 64 + d + 0xE2080"
  "gathered 0 [0xF0 + a, 0x80 + b, 0x80 + d, 0x80 + e] = ((a * 64 + b) * 64 + d) * 64 + e + 0x3C82080"
  by simp_all

lemma base_64:
  fixes c :: nat
  shows "c div 64 * 64 + c mod 64 = c" "(c div 4096 * 64 + c div 64 mod 64) * 64 + c mod 64 = c"
    "((c div 262144 * 64 + c div 4096 mod 64) * 64 + c div 64 mod 64) * 64 + c mod 64 = c"
proof -
  have *: "c div 4096 = c div 64 div 64" "c div 262144 = c div 64 div 64 div 64"
    by (simp_all flip: div_mult2_eq)
  show "c div 64 * 64 + c mod 64 = c" "(c div 4096 * 64 + c div 64 mod 64) * 64 + c mod 64 = c"
    "((c div 262144 * 64 + c div 4096 mod 64) * 64 + c div 64 mod 64) * 64 + c mod 64 = c"
    unfolding * by (simp_all only: div_mult_mod_eq)
qed

lemma gathered_utf8:
  "gathered 0 (utf8_numbers c) = c + [0, 0x3080, 0xE2080, 0x3C82080] ! (length (utf8_numbers c) - 1)"
  unfolding utf8_numbers_def by (simp only: gathered_marks base_64 split: if_split) simp

lemma decoded_value:
  assumes "scalar c" "drop source text = utf8_bytes c @ rest" "k = length (utf8_bytes c) - 1"
  obtains ch where "gather k text source 0 = Some (source + length (utf8_bytes c), ch)"
    "ch - offsetsFromUTF8 ! k = of_nat c" "k \<le> 3"
proof -
  have c: "c \<le> 0x10FFFF" using assms(1) by (auto simp: scalar_def)
  have len: "length (utf8_numbers c) = Suc k" "k \<le> 3"
    using assms(3) by (auto simp: utf8_bytes_def utf8_numbers_def split: if_splits)
  have "gather k text source (of_nat 0)
      = Some (source + length (utf8_bytes c), of_nat (gathered 0 (utf8_numbers c)))"
    unfolding utf8_bytes_def length_map len(1)
    using assms(2) len utf8_numbers_bound [OF c] by (intro gather_ok) (auto simp: utf8_bytes_def)
  moreover have "of_nat (gathered 0 (utf8_numbers c)) - offsetsFromUTF8 ! k = (of_nat c :: 32 word)"
  proof -
    have g: "gathered 0 (utf8_numbers c) = c + [0, 0x3080, 0xE2080, 0x3C82080] ! k"
      using len(1) by (simp add: gathered_utf8)
    have "k = 0 \<or> k = 1 \<or> k = 2 \<or> k = 3" using len(2) by linarith
    then show ?thesis unfolding g
      by (elim disjE; hypsubst) (simp_all add: offsetsFromUTF8_def)
  qed
  ultimately show ?thesis using len(2) by (intro that) simp_all
qed

text \<open>Legal sequences are the encodings of the scalar values.\<close>

definition legal_numbers :: "nat list \<Rightarrow> bool" where
  "legal_numbers ns \<longleftrightarrow>
     (\<forall>n \<in> set (tl ns). 0x80 \<le> n \<and> n < 0xC0) \<and> \<not> (0x80 \<le> hd ns \<and> hd ns < 0xC2) \<and> hd ns \<le> 0xF4
     \<and> (hd ns = 0xE0 \<longrightarrow> 0xA0 \<le> ns ! 1) \<and> (hd ns = 0xED \<longrightarrow> ns ! 1 \<le> 0x9F)
     \<and> (hd ns = 0xF0 \<longrightarrow> 0x90 \<le> ns ! 1) \<and> (hd ns = 0xF4 \<longrightarrow> ns ! 1 \<le> 0x8F)"

definition sequence_length :: "nat \<Rightarrow> nat" where
  "sequence_length n = (if n < 0xC0 then 1 else if n < 0xE0 then 2 else if n < 0xF0 then 3 else 4)"

lemma continuation_iff: "(b :: 8 word) AND 0xC0 = 0x80 \<longleftrightarrow> 0x80 \<le> unat b \<and> unat b < 0xC0"
proof -
  let ?q = "unat b div 64"
  have C0: "(0xC0 :: 8 word) = NOT (mask 6)" by (simp add: mask_eq_exp_minus_1)
  have q: "?q < 4" using unsigned_less [of b, where 'a = nat] by (simp add: div_less_iff_less_mult)
  have "b AND 0xC0 = push_bit 6 (drop_bit 6 b)"
    unfolding C0 by (rule bit_word_eqI) (auto simp: bit_simps)
  also have "drop_bit 6 b = of_nat ?q"
    using drop_bit_of_nat_word [where 'a = 8, of "unat b" 6] unsigned_less [of b, where 'a = nat] by simp
  also have "push_bit 6 (of_nat ?q) = (of_nat (?q * 64) :: 8 word)" by (simp add: push_bit_eq_mult)
  also have "\<dots> = 0x80 \<longleftrightarrow> ?q * 64 = 0x80"
    using q unat_of_nat [of "?q * 64", where 'a = 8]
    by (simp add: word_unat_eq_iff del: of_nat_mult)
  also have "\<dots> \<longleftrightarrow> 0x80 \<le> unat b \<and> unat b < 0xC0" by auto
  finally show ?thesis .
qed

lemma trailing_ok_eq:
  "source + k < length text \<Longrightarrow>
    trailing_ok text source k = Some (\<forall>i. 1 \<le> i \<longrightarrow> i \<le> k \<longrightarrow> 0x80 \<le> unat (text ! (source + i)) \<and> unat (text ! (source + i)) < 0xC0)"
proof (induction k)
  case (Suc k)
  then show ?case
    by (auto simp: rd_Some continuation_iff le_Suc_eq)
qed simp

lemma all_tl: "(\<forall>x \<in> set (tl xs). P x) \<longleftrightarrow> (\<forall>i. 1 \<le> i \<longrightarrow> i \<le> length xs - 1 \<longrightarrow> P (xs ! i))"
proof (cases xs)
  case (Cons y ys)
  have "(\<forall>x \<in> set ys. P x) \<longleftrightarrow> (\<forall>i. 1 \<le> i \<longrightarrow> i \<le> length ys \<longrightarrow> P ((y # ys) ! i))"
  proof
    assume *: "\<forall>i. 1 \<le> i \<longrightarrow> i \<le> length ys \<longrightarrow> P ((y # ys) ! i)"
    have "P (ys ! i)" if "i < length ys" for i using spec [OF *, of "Suc i"] that by simp
    then show "\<forall>x \<in> set ys. P x" by (simp add: all_set_conv_all_nth)
  qed (auto simp: all_set_conv_all_nth nth_Cons')
  then show ?thesis using Cons by simp
qed simp

lemma legal_eq:
  assumes "source + n \<le> length text" "n = sequence_length (unat (text ! source))"
  shows "CFIsLegalUTF8 text source n = Some (legal_numbers (map unat (take n (drop source text))))"
proof -
  let ?ns = "map unat (take n (drop source text))"
  have n: "1 \<le> n" "n \<le> 4" using assms(2) by (simp_all add: sequence_length_def)
  have len: "length ?ns = n" using assms(1) by simp
  have nth: "?ns ! i = unat (text ! (source + i))" if "i < n" for i using that assms(1) by simp
  have ne: "?ns \<noteq> []" using len n by (metis list.size(3) not_one_le_zero)
  have hd: "hd ?ns = unat (text ! source)" 
    using hd_conv_nth [OF ne] nth [of 0] n(1) by (metis One_nat_def Suc_le_eq add_0_right)
  have tl: "(\<forall>x \<in> set (tl ?ns). P x) \<longleftrightarrow> (\<forall>i. 1 \<le> i \<longrightarrow> i \<le> n - 1 \<longrightarrow> P (unat (text ! (source + i))))" for P
    using nth n(1) unfolding all_tl len by auto
  have two: "rd text (source + 1) = Some (text ! (source + 1)) \<and> ?ns ! 1 = unat (text ! (source + 1))"
    if "unat (text ! source) \<ge> 0xC0"
    using that assms n(1) nth [of 1] by (simp add: sequence_length_def rd_Some split: if_splits)
  have "CFIsLegalUTF8 text source n = Some
     ((\<forall>x \<in> set (tl ?ns). 0x80 \<le> x \<and> x < 0xC0) \<and> \<not> (0x80 \<le> hd ?ns \<and> hd ?ns < 0xC2) \<and> hd ?ns \<le> 0xF4
     \<and> (hd ?ns = 0xE0 \<longrightarrow> 0xA0 \<le> ?ns ! 1) \<and> (hd ?ns = 0xED \<longrightarrow> ?ns ! 1 \<le> 0x9F)
     \<and> (hd ?ns = 0xF0 \<longrightarrow> 0x90 \<le> ?ns ! 1) \<and> (hd ?ns = 0xF4 \<longrightarrow> ?ns ! 1 \<le> 0x8F))"
    using two n assms(1) trailing_ok_eq [of source "n - 1" "text"]
    unfolding tl hd CFIsLegalUTF8_def
    by (auto simp: rd_Some word_less_nat_alt word_le_nat_alt word_unat_eq_iff)
  then show ?thesis unfolding legal_numbers_def .
qed

lemma sequence_length_utf8:
  assumes "scalar c"
  shows "length (utf8_numbers c) = sequence_length (hd (utf8_numbers c))"
    "length (utf8_numbers c) = (if c < 0x80 then 1 else if c < 0x800 then 2 else if c < 0x10000 then 3 else 4)"
  using assms by (auto simp: utf8_numbers_def sequence_length_def scalar_def)

lemma digit_bound_3: "(a * 64 + b) * 64 + d = c \<Longrightarrow> a = 13 \<Longrightarrow> c < 0xD800 \<Longrightarrow> (b :: nat) \<le> 31"
  by simp

lemma digit_bound_4:
  "((a * 64 + b) * 64 + d) * 64 + e = c \<Longrightarrow> a = 4 \<Longrightarrow> c \<le> 0x10FFFF \<Longrightarrow> (b :: nat) \<le> 15"
  by simp

lemma push_digit:
  fixes x e :: nat
  assumes "e < 64"
  shows "(x * 64 + e) div 64 = x" "(x * 64 + e) mod 64 = e"
  using assms by simp_all

lemma div_64_powers: "(c :: nat) div 4096 = c div 64 div 64" "c div 262144 = c div 64 div 64 div 64"
  by (simp_all flip: div_mult2_eq)

lemma legal_utf8: "scalar c \<Longrightarrow> legal_numbers (utf8_numbers c)"
proof -
  assume c: "scalar c"
  have "c div 4096 = 13 \<Longrightarrow> c < 0xD800 \<Longrightarrow> c div 64 mod 64 \<le> 31"
    using digit_bound_3 base_64(2) [of c] by metis
  moreover have "c div 262144 = 4 \<Longrightarrow> c \<le> 0x10FFFF \<Longrightarrow> c div 4096 mod 64 \<le> 15"
    using digit_bound_4 base_64(3) [of c] by metis
  ultimately show ?thesis
    using c unfolding legal_numbers_def utf8_numbers_def scalar_def
    by (cases "c < 0x80"; cases "c < 0x800"; cases "c < 0x10000") auto
qed

lemma legal_numbers_utf8:
  assumes "legal_numbers ns" "ns \<noteq> []" "length ns = sequence_length (hd ns)"
  obtains c where "scalar c" "utf8_numbers c = ns"
proof -
  obtain h ts where ns: "ns = h # ts" using assms(2) by (cases ns) auto
  note legal = assms(1) [unfolded ns legal_numbers_def, simplified]
  have len: "length ts = sequence_length h - 1" using assms(3) ns by simp
  consider "h < 0x80" "ts = []"
    | t where "0xC2 \<le> h" "h < 0xE0" "ts = [t]"
    | t u where "0xE0 \<le> h" "h < 0xF0" "ts = [t, u]"
    | t u v where "0xF0 \<le> h" "h \<le> 0xF4" "ts = [t, u, v]"
  proof -
    consider "h < 0xC0" "length ts = 0" | "0xC0 \<le> h" "h < 0xE0" "length ts = Suc 0"
      | "0xE0 \<le> h" "h < 0xF0" "length ts = Suc (Suc 0)" | "0xF0 \<le> h" "length ts = Suc (Suc (Suc 0))"
      using len by (simp add: sequence_length_def split: if_splits)
    then show ?thesis
      using legal by cases (auto simp: length_Suc_conv intro: that)
  qed
  then show ?thesis
  proof cases
    case 1
    then show ?thesis using ns by (intro that [of h]) (simp_all add: scalar_def utf8_numbers_def)
  next
    case 2
    then obtain a b where "h = 0xC0 + a" "t = 0x80 + b" "2 \<le> a" "a < 32" "b < 64"
      using legal le_Suc_ex [of "0xC0" h] le_Suc_ex [of "0x80" t] by auto
    then show ?thesis using ns 2
      by (intro that [of "a * 64 + b"]) (simp_all add: scalar_def utf8_numbers_def)
  next
    case 3
    then obtain a b d where *: "h = 0xE0 + a" "t = 0x80 + b" "u = 0x80 + d" "a < 16" "b < 64" "d < 64"
      using legal le_Suc_ex [of "0xE0" h] le_Suc_ex [of "0x80" t] le_Suc_ex [of "0x80" u] by auto
    let ?c = "(a * 64 + b) * 64 + d"
    have digits: "?c div 4096 = a" "?c div 64 = a * 64 + b" "?c mod 64 = d"
      unfolding div_64_powers by (simp_all only: push_digit [OF *(5)] push_digit [OF *(6)])
    have low: "a = 0 \<longrightarrow> 32 \<le> b" "a = 13 \<longrightarrow> b < 32" using legal 3 * by auto
    have "a \<le> 12 \<or> a = 13 \<or> 14 \<le> a" by linarith
    then have "?c < 0xD800 \<or> 0xDFFF < ?c" using low *(5,6) by auto
    moreover have "0x800 \<le> ?c" "?c < 0x10000" using low *(4-6) by auto
    ultimately have "0x800 \<le> ?c" "?c < 0x10000" "?c < 0xD800 \<or> 0xDFFF < ?c" by simp_all
    then show ?thesis using ns 3 * digits
      by (intro that [of ?c]) (simp_all add: scalar_def utf8_numbers_def)
  next
    case 4
    then obtain a b d e where *: "h = 0xF0 + a" "t = 0x80 + b" "u = 0x80 + d" "v = 0x80 + e"
      "a \<le> 4" "b < 64" "d < 64" "e < 64"
      using legal le_Suc_ex [of "0xF0" h] le_Suc_ex [of "0x80" t] le_Suc_ex [of "0x80" u] le_Suc_ex [of "0x80" v]
      by auto
    define c where "c = ((a * 64 + b) * 64 + d) * 64 + e"
    have digits: "c div 262144 = a" "c div 4096 mod 64 = b" "c div 64 mod 64 = d" "c mod 64 = e"
      unfolding c_def div_64_powers
      by (simp_all only: push_digit [OF *(6)] push_digit [OF *(7)] push_digit [OF *(8)])
    have "a = 0 \<longrightarrow> 16 \<le> b" "a = 4 \<longrightarrow> b < 16" using legal 4 * by auto
    then have "0x10000 \<le> c" "c \<le> 0x10FFFF" unfolding c_def using *(5-8) by auto
    then show ?thesis using ns 4 * digits
      by (intro that [of c]) (simp_all add: scalar_def utf8_numbers_def)
  qed
qed

text \<open>Without a canonical form.\<close>

definition plain_flags :: "32 word \<Rightarrow> bool" where
  "plain_flags flags \<longleftrightarrow> flags AND kCFStringEncodingUseCanonical = 0
     \<and> flags AND kCFStringEncodingUseHFSPlusCanonical = 0"

definition strict_flags :: "32 word \<Rightarrow> bool" where
  "strict_flags flags \<longleftrightarrow> plain_flags flags \<and> flags AND kCFStringEncodingLenientUTF8Conversion = 0
     \<and> flags AND kCFStringEncodingAllowLossyConversion = 0"

definition emit :: "nat \<Rightarrow> 16 word list \<Rightarrow> from_utf8 \<Rightarrow> from_utf8" where
  "emit m units s =
     (if m = 0 then s\<lparr>from_used := from_used s + length units\<rparr>
      else s\<lparr>from_used := from_used s + length units, from_characters := from_characters s + length units,
             from_block := overwritten (from_block s) (from_characters s) units\<rparr>)"

lemma put_unit_ok:
  "m \<noteq> 0 \<longrightarrow> from_characters s < length (from_block s) \<Longrightarrow> put_unit m u s = Some (emit m [u] s)"
  by (cases s) (simp add: put_unit_def emit_def wr_Some overwritten_def upd_conv_take_nth_drop)

lemma units_of_code_point:
  assumes "0x10000 \<le> c" "c \<le> 0x10FFFF"
  shows "utf16_units c = [high_unit (of_nat c), low_unit (of_nat c)]"
proof -
  let ?d = "c - 0x10000"
  have d: "of_nat c - 0x10000 = (of_nat ?d :: 32 word)" "?d div 1024 < 1024" "?d < 2 ^ 32"
    using assms by simp_all
  have "drop_bit 10 (of_nat ?d) + 0xD800 = (of_nat (0xD800 + ?d div 1024) :: 32 word)"
    using drop_bit_of_nat_word [where 'a = 32, of ?d 10] d(3) by simp
  then have "high_unit (of_nat c) = of_nat (0xD800 + ?d div 1024)"
    using d(2) by (simp add: high_unit_def utf_constants d(1) ucast_of_nat_word del: of_nat_add)
  moreover have "(of_nat ?d :: 32 word) AND 0x3FF = of_nat (?d mod 1024)"
  proof -
    have "(of_nat ?d :: 32 word) AND mask 10 = of_nat (take_bit 10 ?d)"
      by (simp only: take_bit_eq_mask [symmetric] take_bit_of_nat)
    then show ?thesis by (simp add: mask_eq_exp_minus_1 take_bit_eq_mod)
  qed
  then have "(of_nat ?d AND 0x3FF) + 0xDC00 = (of_nat (0xDC00 + ?d mod 1024) :: 32 word)" by simp
  then have "low_unit (of_nat c) = of_nat (0xDC00 + ?d mod 1024)"
    by (simp add: low_unit_def utf_constants d(1) ucast_of_nat_word del: of_nat_add)
  ultimately show ?thesis using assms by (simp add: utf16_units_def)
qed

lemma emit_two: "m \<noteq> 0 \<longrightarrow> from_characters s + 2 \<le> length (from_block s) \<Longrightarrow>
    emit m [v] (emit m [u] s) = emit m [u, v] s"
  using overwritten_append [of "from_characters s" "[u]" "[v]" "from_block s"]
  by (cases s) (simp add: emit_def)

lemma store_scalar:
  assumes "plain_flags flags" "scalar c" "m \<noteq> 0 \<longrightarrow> from_used s + length (utf16_units c) \<le> m"
    and "m \<noteq> 0 \<longrightarrow> from_characters s = from_used s \<and> m \<le> length (from_block s)"
  shows "CFFromUTF8_store flags d e m k (of_nat c) s = Some (True, emit m (utf16_units c) s)"
proof (cases "c < 0x10000")
  case True
  then show ?thesis
    using assms put_unit_ok [of m s "of_nat c"]
    by (auto simp: CFFromUTF8_store_def plain_flags_def utf_constants scalar_def word_le_nat_alt unat_of_nat
        utf16_units_def ucast_of_nat_word)
next
  case False
  have c: "c \<le> 0x10FFFF" using assms(2) by (auto simp: scalar_def)
  have big: "\<not> (of_nat c :: 32 word) \<le> kMaximumUCS2" "\<not> kMaximumUTF16 < (of_nat c :: 32 word)"
    using c False by (simp_all add: utf_constants word_le_nat_alt word_less_nat_alt unat_of_nat)
  show ?thesis
  proof (cases "m = 0")
    case True
    then show ?thesis using False big assms(1)
      by (simp add: CFFromUTF8_store_def plain_flags_def emit_def utf16_units_def)
  next
    case m: False
    then have room: "from_used s + 2 \<le> m" "from_characters s + 2 \<le> length (from_block s)"
      using False assms(3,4) by (auto simp: utf16_units_def)
    have "put_unit m (low_unit (of_nat c)) (emit m [high_unit (of_nat c)] s)
        = Some (emit m [low_unit (of_nat c)] (emit m [high_unit (of_nat c)] s))"
      by (rule put_unit_ok) (use room m in \<open>simp add: emit_def\<close>)
    then show ?thesis using False big assms(1) room m c
      by (simp add: CFFromUTF8_store_def plain_flags_def put_unit_ok emit_two units_of_code_point)
  qed
qed

lemma store_full:
  assumes "plain_flags flags" "0x10000 \<le> c" "c \<le> 0x10FFFF" "m \<noteq> 0" "m < from_used s + 2"
  shows "CFFromUTF8_store flags d e m k (of_nat c) s = Some (False, s)"
proof -
  have big: "\<not> (of_nat c :: 32 word) \<le> kMaximumUCS2" "\<not> kMaximumUTF16 < (of_nat c :: 32 word)"
    using assms by (simp_all add: utf_constants word_le_nat_alt word_less_nat_alt unat_of_nat)
  then show ?thesis using assms by (simp add: CFFromUTF8_store_def plain_flags_def)
qed

lemma lead_byte:
  assumes "scalar c" "drop source text = utf8_bytes c @ rest"
  shows "source + length (utf8_bytes c) \<le> length text"
    "trailingBytesForUTF8 ! unat (text ! source) = length (utf8_bytes c) - 1"
    "length (utf8_bytes c) = sequence_length (unat (text ! source))"
    "map unat (take (length (utf8_bytes c)) (drop source text)) = utf8_numbers c"
proof -
  have c: "c \<le> 0x10FFFF" using assms(1) by (auto simp: scalar_def)
  have ne: "utf8_numbers c \<noteq> []" by (simp add: utf8_numbers_def)
  have "length text - source = length (utf8_bytes c) + length rest"
    using arg_cong [OF assms(2), of length] by simp
  moreover have "utf8_bytes c \<noteq> []" by simp
  ultimately show len: "source + length (utf8_bytes c) \<le> length text"
    by (metis add_is_0 diff_is_0_eq' le_add1 le_add_diff_inverse length_0_conv linorder_le_cases
        add_le_mono1 add.commute)
  show numbers: "map unat (take (length (utf8_bytes c)) (drop source text)) = utf8_numbers c"
    unfolding assms(2) using utf8_numbers_bound [OF c]
    by (auto simp: utf8_bytes_def unat_of_nat intro!: map_idI)
  have "text ! source = hd (drop source text)"
  proof -
    have "0 < length (utf8_bytes c)" by simp
    then have "source < length text" using len by linarith
    then show ?thesis by (simp add: hd_drop_conv_nth)
  qed
  then have hd: "unat (text ! source) = hd (utf8_numbers c)"
    unfolding assms(2) using ne utf8_numbers_bound [OF c, of "hd (utf8_numbers c)"]
    by (simp add: utf8_bytes_def hd_map unat_of_nat)
  then show "length (utf8_bytes c) = sequence_length (unat (text ! source))"
    using sequence_length_utf8(1) [OF assms(1)] by (simp add: utf8_bytes_def)
  have "hd (utf8_numbers c) < 0xF8" using legal_utf8 [OF assms(1)] by (simp add: legal_numbers_def)
  then show "trailingBytesForUTF8 ! unat (text ! source) = length (utf8_bytes c) - 1"
    unfolding trailing_table unfolding hd using sequence_length_utf8(1) [OF assms(1)]
    by (simp add: utf8_bytes_def sequence_length_def)
qed

lemma body_gathers:
  assumes "scalar c" "drop (from_source s) text = utf8_bytes c @ rest"
    and "length (utf8_bytes c) \<le> from_numBytes s"
  shows "CFFromUTF8_body flags d e text m s =
    CFFromUTF8_store flags d e m (length (utf8_bytes c) - 1) (of_nat c)
      (s\<lparr>from_source := from_source s + length (utf8_bytes c),
         from_numBytes := from_numBytes s - length (utf8_bytes c)\<rparr>)"
proof -
  let ?k = "length (utf8_bytes c) - 1"
  note lead = lead_byte [OF assms(1,2)]
  have n: "length (utf8_bytes c) = ?k + 1" "?k \<le> 3"
    by (simp_all add: length_utf8_bytes)
  obtain ch where ch: "gather ?k text (from_source s) 0 = Some (from_source s + length (utf8_bytes c), ch)"
    "ch - offsetsFromUTF8 ! ?k = of_nat c"
    using decoded_value [OF assms(1,2) refl] by metis
  have "CFIsLegalUTF8 text (from_source s) (?k + 1) = Some True"
    using legal_eq [OF lead(1,3)] legal_utf8 [OF assms(1)] lead(4) n(1) by simp
  then have ok: "accepted flags text (from_source s) ?k = Some True" using n(2) by (simp add: accepted_def)
  have rd: "rd text (from_source s) = Some (text ! from_source s)"
    using lead(1) n(1) by (intro rd_Some) linarith
  have "\<not> from_numBytes s - 1 < ?k" "from_numBytes s - 1 - ?k = from_numBytes s - length (utf8_bytes c)"
    using assms(3) n(1) by linarith+
  then show ?thesis using ok ch
    by (simp add: CFFromUTF8_body_def rd lead(2) Let_def)
qed

lemma body_scalar:
  assumes "plain_flags flags" "scalar c" "drop (from_source s) text = utf8_bytes c @ rest"
    and "length (utf8_bytes c) \<le> from_numBytes s" "m \<noteq> 0 \<longrightarrow> from_used s + length (utf16_units c) \<le> m"
    and "m \<noteq> 0 \<longrightarrow> from_characters s = from_used s \<and> m \<le> length (from_block s)"
  shows "CFFromUTF8_body flags d e text m s = Some (True, emit m (utf16_units c)
      (s\<lparr>from_source := from_source s + length (utf8_bytes c),
         from_numBytes := from_numBytes s - length (utf8_bytes c)\<rparr>))"
  unfolding body_gathers [OF assms(2-4)]
  by (rule store_scalar [OF assms(1,2)]) (use assms(5,6) in simp_all)

lemma body_full:
  assumes "plain_flags flags" "scalar c" "drop (from_source s) text = utf8_bytes c @ rest"
    and "length (utf8_bytes c) \<le> from_numBytes s" "0x10000 \<le> c" "m \<noteq> 0" "m < from_used s + 2"
  shows "CFFromUTF8_body flags d e text m s = Some (False,
      s\<lparr>from_source := from_source s + length (utf8_bytes c),
        from_numBytes := from_numBytes s - length (utf8_bytes c)\<rparr>)"
  unfolding body_gathers [OF assms(2-4)]
  by (rule store_full [OF assms(1)]) (use assms in \<open>auto simp: scalar_def\<close>)

text \<open>The byte 0xA9 where it is no part of a sequence.\<close>

lemma body_stray:
  assumes "from_source s < length text" "text ! from_source s = 0xA9" "from_numBytes s \<noteq> 0"
    and "flags AND kCFStringEncodingLenientUTF8Conversion = 0"
    and "m \<noteq> 0 \<longrightarrow> from_characters s < length (from_block s)"
  shows "CFFromUTF8_body flags d e text m s = Some (True, emit m [0xFFFD]
      (s\<lparr>from_numBytes := from_numBytes s - 1, from_source := from_source s + 1\<rparr>))"
proof -
  have table: "trailingBytesForUTF8 ! 169 = 0" by (simp add: trailingBytesForUTF8_def nth_append)
  have u: "unat (text ! from_source s) = 0xA9" using assms(2) by simp
  have "CFIsLegalUTF8 text (from_source s) 1 = Some (legal_numbers (map unat (take 1 (drop (from_source s) text))))"
    using assms(1) u by (intro legal_eq) (simp_all add: sequence_length_def)
  moreover have "map unat (take 1 (drop (from_source s) text)) = [0xA9]"
    using assms(1) u by (simp add: take_Suc_conv_app_nth flip: Cons_nth_drop_Suc)
  ultimately have "accepted flags text (from_source s) 0 = Some False"
    using assms(4) by (simp add: accepted_def legal_numbers_def)
  then show ?thesis
    using assms(1,3,5) put_unit_ok [of m "s\<lparr>from_numBytes := from_numBytes s - 1, from_source := from_source s + 1\<rparr>"]
    by (simp add: CFFromUTF8_body_def rd_Some table u assms(2) kReplacementCharacter_def Let_def)
qed

lemma body_stop:
  assumes "strict_flags flags" "from_numBytes s \<noteq> 0" "from_source s + from_numBytes s \<le> length text"
    and "take (from_numBytes s) (drop (from_source s) text) = rest" "text ! from_source s \<noteq> 0xA9"
    and "\<And>c rest'. scalar c \<Longrightarrow> rest \<noteq> utf8_bytes c @ rest'"
  shows "\<exists>n. CFFromUTF8_body flags d e text m s = Some (False, s\<lparr>from_numBytes := n\<rparr>)"
proof -
  let ?b = "text ! from_source s" and ?k = "trailingBytesForUTF8 ! unat (text ! from_source s)"
  have rd: "rd text (from_source s) = Some ?b" using assms(2,3) by (simp add: rd_Some)
  show ?thesis
  proof (cases "from_numBytes s - 1 < ?k")
    case True
    then show ?thesis by (auto simp: CFFromUTF8_body_def rd Let_def)
  next
    case False
    then have room: "?k + 1 \<le> from_numBytes s" using assms(2) by linarith
    have "accepted flags text (from_source s) ?k = Some False"
    proof (cases "3 < ?k")
      case True
      then show ?thesis by (simp add: accepted_def)
    next
      case small: False
      let ?ns = "map unat (take (?k + 1) (drop (from_source s) text))"
      have n: "?k + 1 = sequence_length (unat ?b)"
        using small by (simp add: trailing_table sequence_length_def split: if_splits)
      have len: "length ?ns = ?k + 1" using room assms(3) by simp
      then have ne: "?ns \<noteq> []" by (metis list.size(3) Suc_eq_plus1 nat.simps(3))
      have hd: "hd ?ns = unat ?b"
        using room assms(2,3) by (simp add: hd_map hd_take hd_drop_conv_nth)
      have "\<not> legal_numbers ?ns"
      proof
        assume "legal_numbers ?ns"
        then obtain c where c: "scalar c" "utf8_numbers c = ?ns"
          using legal_numbers_utf8 [OF _ ne] len n hd by metis
        then have "utf8_bytes c = take (?k + 1) (drop (from_source s) text)"
          by (simp add: utf8_bytes_def comp_def)
        also have "\<dots> = take (?k + 1) rest"
          unfolding assms(4) [symmetric] take_take using room by (simp only: min.absorb1)
        finally have "rest = utf8_bytes c @ drop (?k + 1) rest" by simp
        then show False using assms(6) [OF c(1)] by blast
      qed
      then show ?thesis
        using small legal_eq [OF _ n] room assms(1,3) by (simp add: accepted_def strict_flags_def)
    qed
    then show ?thesis using False assms(1,5)
      by (auto simp: CFFromUTF8_body_def rd Let_def strict_flags_def)
  qed
qed

text \<open>What a strict decoder accepts: encodings of scalar values, and stray bytes 0xA9, which become
  U+FFFD.\<close>

datatype utf8_item = Scalar nat | Stray

fun item_ok :: "utf8_item \<Rightarrow> bool" where
  "item_ok (Scalar c) = scalar c"
| "item_ok Stray = True"

fun item_bytes :: "utf8_item \<Rightarrow> 8 word list" where
  "item_bytes (Scalar c) = utf8_bytes c"
| "item_bytes Stray = [0xA9]"

fun item_units :: "utf8_item \<Rightarrow> 16 word list" where
  "item_units (Scalar c) = utf16_units c"
| "item_units Stray = [0xFFFD]"

definition items_bytes :: "utf8_item list \<Rightarrow> 8 word list" where
  "items_bytes its = concat (map item_bytes its)"

definition items_units :: "utf8_item list \<Rightarrow> 16 word list" where
  "items_units its = concat (map item_units its)"

lemma items_simps [simp]:
  "items_bytes [] = []" "items_bytes (it # its) = item_bytes it @ items_bytes its"
  "items_units [] = []" "items_units (it # its) = item_units it @ items_units its"
  by (simp_all add: items_bytes_def items_units_def)

lemma item_not_Nil [simp]: "item_bytes it \<noteq> []" "item_units it \<noteq> []"
  by (cases it; simp)+

lemma emit_sel [simp]:
  "from_source (emit m us s) = from_source s" "from_numBytes (emit m us s) = from_numBytes s"
  "from_used (emit m us s) = from_used s + length us"
  "from_characters (emit m us s) = (if m = 0 then from_characters s else from_characters s + length us)"
  "from_block (emit m us s) =
     (if m = 0 then from_block s else overwritten (from_block s) (from_characters s) us)"
  by (simp_all add: emit_def)

text \<open>Why the decoder stopped: the next item is none, or the block is full; or a surrogate pair did not
  fit in the one place left, and then its bytes are lost.\<close>

definition decoder_stops :: "nat \<Rightarrow> nat \<Rightarrow> 8 word list \<Rightarrow> 8 word list \<Rightarrow> bool" where
  "decoder_stops m used lost rest \<longleftrightarrow>
     lost = [] \<and> (\<forall>it rest'. item_ok it \<longrightarrow> rest = item_bytes it @ rest' \<longrightarrow> m \<noteq> 0 \<and> used = m)
     \<or> (\<exists>c. scalar c \<and> 0x10000 \<le> c \<and> lost = utf8_bytes c \<and> m \<noteq> 0 \<and> used + 1 = m)"

definition from_ok :: "8 word list \<Rightarrow> nat \<Rightarrow> from_utf8 \<Rightarrow> bool" where
  "from_ok text m s \<longleftrightarrow> from_source s + from_numBytes s \<le> length text
     \<and> (m \<noteq> 0 \<longrightarrow> from_characters s = from_used s \<and> from_used s \<le> m \<and> m \<le> length (from_block s))"

abbreviation input_left :: "8 word list \<Rightarrow> from_utf8 \<Rightarrow> 8 word list" where
  "input_left text s \<equiv> take (from_numBytes s) (drop (from_source s) text)"

lemma length_input_left: "from_ok text m s \<Longrightarrow> length (input_left text s) = from_numBytes s"
  by (auto simp: from_ok_def)

lemma input_left_split:
  assumes "input_left text s = bs @ rest" "from_ok text m s"
  shows "drop (from_source s) text = bs @ (rest @ drop (from_numBytes s) (drop (from_source s) text))"
    "length bs \<le> from_numBytes s"
proof -
  show "drop (from_source s) text = bs @ (rest @ drop (from_numBytes s) (drop (from_source s) text))"
    using append_take_drop_id [of "from_numBytes s" "drop (from_source s) text"] unfolding assms(1) by simp
  show "length bs \<le> from_numBytes s"
    using arg_cong [OF assms(1), of length] assms(2) by (simp add: from_ok_def)
qed

lemma body_item:
  assumes "plain_flags flags" "flags AND kCFStringEncodingLenientUTF8Conversion = 0 \<or> it \<noteq> Stray"
    and "item_ok it" "input_left text s = item_bytes it @ rest" "from_ok text m s"
    and room: "m \<noteq> 0 \<longrightarrow> from_used s + length (item_units it) \<le> m"
  obtains s' where "CFFromUTF8_body flags d e text m s = Some (True, s')" "from_ok text m s'"
    "input_left text s' = rest" "from_source s' = from_source s + length (item_bytes it)"
    "from_numBytes s' < from_numBytes s" "from_used s' = from_used s + length (item_units it)"
    "from_block s' = (if m = 0 then from_block s else overwritten (from_block s) (from_used s) (item_units it))"
proof -
  note left = input_left_split [OF assms(4,5)]
  let ?s = "s\<lparr>from_source := from_source s + length (item_bytes it),
    from_numBytes := from_numBytes s - length (item_bytes it)\<rparr>"
  have "from_source s + from_numBytes s \<le> length text" using assms(5) by (simp add: from_ok_def)
  moreover have "0 < length (item_bytes it)" by simp
  ultimately have less: "from_numBytes s - length (item_bytes it) < from_numBytes s" "from_source s < length text"
    using left(2) by linarith+
  have body: "CFFromUTF8_body flags d e text m s = Some (True, emit m (item_units it) ?s)"
  proof (cases it)
    case (Scalar c)
    then show ?thesis using assms left
      by (simp add: from_ok_def body_scalar [OF assms(1)])
  next
    case Stray
    have "text ! from_source s = hd (drop (from_source s) text)"
      using less(2) by (simp add: hd_drop_conv_nth)
    also have "\<dots> = 0xA9" using Stray by (subst left(1)) simp
    finally have A9: "text ! from_source s = 0xA9" .
    have "m \<noteq> 0 \<longrightarrow> from_characters s < length (from_block s)"
      using assms(5) room Stray by (auto simp: from_ok_def)
    then have "CFFromUTF8_body flags d e text m s = Some (True, emit m [0xFFFD]
        (s\<lparr>from_numBytes := from_numBytes s - 1, from_source := from_source s + 1\<rparr>))"
      using assms(2) Stray less by (intro body_stray A9) auto
    then show ?thesis using Stray by (cases s) simp
  qed
  show ?thesis
  proof (rule that [OF body])
    show "from_ok text m (emit m (item_units it) ?s)"
      using assms(5) left(2) room by (auto simp: from_ok_def)
    have "drop (from_source s + length (item_bytes it)) text
        = rest @ drop (from_numBytes s) (drop (from_source s) text)"
      using arg_cong [OF left(1), of "drop (length (item_bytes it))"] by (simp add: add.commute)
    moreover have "from_numBytes s - length (item_bytes it) = length rest"
      using arg_cong [OF assms(4), of length] unfolding length_input_left [OF assms(5)] by simp
    ultimately show "input_left text (emit m (item_units it) ?s) = rest" by simp
  qed (use less assms(5) in \<open>simp_all add: from_ok_def\<close>)
qed

lemma from_loop:
  assumes "strict_flags flags" "from_ok text m s"
  shows "\<exists>its lost rest s'. CFFromUTF8_loop flags d e text m s = Some s'
    \<and> input_left text s = items_bytes its @ lost @ rest \<and> (\<forall>it \<in> set its. item_ok it)
    \<and> from_source s' = from_source s + length (items_bytes its) + length lost
    \<and> from_used s' = from_used s + length (items_units its)
    \<and> from_block s' = (if m = 0 then from_block s else overwritten (from_block s) (from_used s) (items_units its))
    \<and> (m \<noteq> 0 \<longrightarrow> from_used s' \<le> m) \<and> decoder_stops m (from_used s') lost rest"
  using assms(2)
proof (induction "from_numBytes s" arbitrary: s rule: less_induct)
  case less
  have plain: "plain_flags flags" "flags AND kCFStringEncodingLenientUTF8Conversion = 0"
    using assms(1) by (auto simp: strict_flags_def)
  have stop: ?case if "CFFromUTF8_loop flags d e text m s = Some s1" "input_left text s = lost @ rest"
    "from_source s1 = from_source s + length lost" "from_used s1 = from_used s" "from_block s1 = from_block s"
    "decoder_stops m (from_used s) lost rest" for s1 lost rest
    by (rule exI [of _ "[]"], rule exI [of _ lost], rule exI [of _ rest], rule exI [of _ s1])
      (use that less.prems in \<open>auto simp: from_ok_def\<close>)
  consider (guard) "from_numBytes s = 0 \<or> m \<noteq> 0 \<and> from_used s \<ge> m"
    | (none) "from_numBytes s \<noteq> 0" "m = 0 \<or> from_used s < m"
        "\<And>it rest. item_ok it \<Longrightarrow> input_left text s \<noteq> item_bytes it @ rest"
    | (item) it rest where "from_numBytes s \<noteq> 0" "m = 0 \<or> from_used s < m" "item_ok it"
        "input_left text s = item_bytes it @ rest" "m \<noteq> 0 \<longrightarrow> from_used s + length (item_units it) \<le> m"
    | (full) it rest where "from_numBytes s \<noteq> 0" "m \<noteq> 0" "from_used s < m" "item_ok it"
        "input_left text s = item_bytes it @ rest" "m < from_used s + length (item_units it)"
    by (meson not_less)
  then show ?case
  proof cases
    case guard
    then show ?thesis
      by (intro stop [of s "[]" "input_left text s"])
        (use less.prems in \<open>auto simp: CFFromUTF8_loop.simps decoder_stops_def from_ok_def\<close>)
  next
    case none
    have "text ! from_source s \<noteq> 0xA9"
    proof
      assume *: "text ! from_source s = 0xA9"
      let ?r = "take (from_numBytes s - 1) (drop (Suc (from_source s)) text)"
      have "input_left text s = item_bytes Stray @ ?r"
        using none(1) less.prems * by (cases "from_numBytes s")
          (auto simp: from_ok_def simp flip: Cons_nth_drop_Suc)
      then show False using none(3) [of Stray ?r] by (metis item_ok.simps(2))
    qed
    then have "\<exists>n. CFFromUTF8_body flags d e text m s = Some (False, s\<lparr>from_numBytes := n\<rparr>)"
      using none(3) [of "Scalar _"] less.prems
      by (intro body_stop [OF assms(1) none(1) _ refl]) (auto simp: from_ok_def)
    then obtain n where n: "CFFromUTF8_body flags d e text m s = Some (False, s\<lparr>from_numBytes := n\<rparr>)" ..
    show ?thesis
      by (rule stop [of "s\<lparr>from_numBytes := n\<rparr>" "[]" "input_left text s"])
        (use none n in \<open>auto simp: CFFromUTF8_loop.simps decoder_stops_def\<close>)
  next
    case item
    obtain s' where s': "CFFromUTF8_body flags d e text m s = Some (True, s')" "from_ok text m s'"
      "input_left text s' = rest" "from_source s' = from_source s + length (item_bytes it)"
      "from_numBytes s' < from_numBytes s" "from_used s' = from_used s + length (item_units it)"
      "from_block s' = (if m = 0 then from_block s else overwritten (from_block s) (from_used s) (item_units it))"
      using body_item [OF plain(1) disjI1 [OF plain(2)] item(3,4) less.prems item(5)] by metis
    have loop: "CFFromUTF8_loop flags d e text m s = CFFromUTF8_loop flags d e text m s'"
      using item s'(1) by (subst CFFromUTF8_loop.simps) auto
    obtain its lost rest' s'' where *: "CFFromUTF8_loop flags d e text m s' = Some s''"
      "rest = items_bytes its @ lost @ rest'" "\<forall>it \<in> set its. item_ok it"
      "from_source s'' = from_source s' + length (items_bytes its) + length lost"
      "from_used s'' = from_used s' + length (items_units its)"
      "from_block s'' = (if m = 0 then from_block s' else overwritten (from_block s') (from_used s') (items_units its))"
      "m \<noteq> 0 \<longrightarrow> from_used s'' \<le> m" "decoder_stops m (from_used s'') lost rest'"
      using less.hyps [OF s'(5,2)] unfolding s'(3) by blast
    have "m \<noteq> 0 \<Longrightarrow> from_used s + length (item_units it) + length (items_units its) \<le> length (from_block s)"
      using *(5,7) s'(6) less.prems by (simp add: from_ok_def)
    then show ?thesis
      by (intro exI [of _ "it # its"] exI [of _ lost] exI [of _ rest'] exI [of _ s''])
        (use * s' loop item in \<open>auto simp: overwritten_append\<close>)
  next
    case full
    then obtain c where c: "it = Scalar c" "scalar c" "0x10000 \<le> c" "from_used s + 1 = m"
      by (cases it) (auto simp: utf16_units_def split: if_splits)
    note drop = input_left_split [OF full(5) less.prems, unfolded c(1) item_bytes.simps]
    have "CFFromUTF8_loop flags d e text m s = Some
        (s\<lparr>from_source := from_source s + length (utf8_bytes c),
           from_numBytes := from_numBytes s - length (utf8_bytes c)\<rparr>)"
      using full body_full [OF plain(1) c(2) drop c(3) full(2)] c(4)
      by (subst CFFromUTF8_loop.simps) auto
    then show ?thesis
      by (rule stop [of _ "utf8_bytes c" rest])
        (use full c in \<open>auto simp: decoder_stops_def\<close>)
  qed
qed

subsection \<open>Both directions\<close>

lemma utf8_bytes_prefix:
  assumes "scalar c" "scalar d" "utf8_bytes c @ rest = utf8_bytes d @ rest'"
  shows "c = d"
proof -
  let ?text = "utf8_bytes c @ rest"
  note c = lead_byte [OF assms(1), of 0 ?text rest, simplified]
  note d = lead_byte [OF assms(2), of 0 ?text rest', unfolded assms(3) [symmetric], simplified]
  have "length (utf8_bytes c) = length (utf8_bytes d)" using c(3) d(3) by simp
  then have eq: "utf8_numbers c = utf8_numbers d" using c(4) d(4) by simp
  show ?thesis using gathered_utf8 [of c] unfolding eq gathered_utf8 [of d] by simp
qed

lemma item_bytes_prefix:
  assumes "item_ok it" "scalar c" "item_bytes it @ rest = utf8_bytes c @ rest'"
  shows "it = Scalar c"
proof (cases it)
  case (Scalar d)
  then show ?thesis using assms utf8_bytes_prefix [of d c] by simp
next
  case Stray
  have "hd (utf8_numbers c) < 0x80 \<or> 0xC2 \<le> hd (utf8_numbers c)"
    using legal_utf8 [OF assms(2)] by (auto simp: legal_numbers_def)
  moreover have "hd (utf8_numbers c) < 256" "utf8_numbers c \<noteq> []"
    using assms(2) utf8_numbers_bound [of c "hd (utf8_numbers c)"] by (auto simp: scalar_def utf8_numbers_def)
  moreover have "(0xA9 :: 8 word) = of_nat (hd (utf8_numbers c))"
    using arg_cong [OF assms(3), of hd] Stray \<open>utf8_numbers c \<noteq> []\<close> by (simp add: utf8_bytes_def hd_map)
  then have "unat (0xA9 :: 8 word) = hd (utf8_numbers c)" using calculation(2) by (simp only: unat_of_nat) simp
  ultimately show ?thesis by simp
qed

lemma items_prefix:
  assumes "\<forall>it \<in> set its. item_ok it" "\<forall>c \<in> set cs. scalar c" "all_bytes cs = items_bytes its @ rest"
  obtains ds where "cs = map (\<lambda>it. case it of Scalar c \<Rightarrow> c) its @ ds" "rest = all_bytes ds"
    "items_units its @ all_units ds = all_units cs"
  using assms
proof (induction its arbitrary: cs thesis)
  case (Cons it its)
  obtain c cs' where cs: "cs = c # cs'"
    using Cons.prems(4) by (cases cs) auto
  then have it: "it = Scalar c"
    using Cons.prems(2-4) item_bytes_prefix [of it c "items_bytes its @ rest" "all_bytes cs'"] by simp
  then have "all_bytes cs' = items_bytes its @ rest" using Cons.prems(4) cs by simp
  then obtain ds where ds: "cs' = map (\<lambda>it. case it of Scalar c \<Rightarrow> c) its @ ds" "rest = all_bytes ds"
    "items_units its @ all_units ds = all_units cs'"
    using Cons.IH [of cs'] Cons.prems(2,3) cs by auto
  then show ?case using Cons.prems(1) [of ds] cs it by simp
qed simp

lemma units_prefix:
  assumes "\<forall>c \<in> set ds. scalar c" "\<forall>c \<in> set cs. scalar c" "all_units cs = all_units ds @ rest"
  obtains es where "cs = ds @ es" "rest = all_units es"
  using assms
proof (induction ds arbitrary: cs thesis)
  case (Cons d ds)
  obtain c cs' where cs: "cs = c # cs'"
    using Cons.prems(4) by (cases cs) auto
  then have "c = d"
    using Cons.prems(2-4) utf16_units_prefix [of c d "all_units cs'" "all_units ds @ rest"] by simp
  then show ?case using Cons.IH [of cs'] Cons.prems cs by auto
qed simp

lemma utf8_decode_run:
  assumes "strict_flags flags" "n \<le> length text" "m \<le> length block"
  shows "\<exists>its lost rest. (\<forall>it \<in> set its. item_ok it) \<and> take n text = items_bytes its @ lost @ rest
    \<and> (m \<noteq> 0 \<longrightarrow> length (items_units its) \<le> m) \<and> decoder_stops m (length (items_units its)) lost rest
    \<and> CFFromUTF8 flags d e text n block m = Some (length (items_bytes its @ lost), length (items_units its),
        if m = 0 then block else items_units its @ drop (length (items_units its)) block)"
proof -
  let ?s = "\<lparr>from_source = 0, from_numBytes = n, from_used = 0, from_characters = 0, from_block = block\<rparr>"
  have "from_ok text m ?s" using assms by (simp add: from_ok_def)
  from from_loop [OF assms(1) this, of d e] obtain its lost rest s' where *:
    "CFFromUTF8_loop flags d e text m ?s = Some s'" "take n text = items_bytes its @ lost @ rest"
    "\<forall>it \<in> set its. item_ok it" "from_source s' = length (items_bytes its) + length lost"
    "from_used s' = length (items_units its)"
    "from_block s' = (if m = 0 then block else overwritten block 0 (items_units its))"
    "m \<noteq> 0 \<longrightarrow> from_used s' \<le> m" "decoder_stops m (from_used s') lost rest"
    by auto
  show ?thesis
    by (rule exI [of _ its], rule exI [of _ lost], rule exI [of _ rest])
      (use * in \<open>simp add: CFFromUTF8_def overwritten_def\<close>)
qed

text \<open>Encoded code points are all decoded when there is room.\<close>

lemma encode_all:
  assumes "flags AND kCFStringEncodingUseHFSPlusCanonical = 0" "\<forall>c \<in> set cs. scalar c"
    and "m < 2 ^ 32" "m \<le> length block" "m = 0 \<or> length (all_bytes cs) \<le> m"
  shows "CFToUTF8 flags (all_units cs) (length (all_units cs)) block m
    = Some (length (all_units cs), length (all_bytes cs),
        if m = 0 then block else all_bytes cs @ drop (length (all_bytes cs)) block)"
proof -
  let ?text = "all_units cs"
  obtain ds rest where *: "\<forall>c \<in> set ds. scalar c" "all_units cs = all_units ds @ rest"
    "encoder_stops m (length (all_bytes ds)) rest"
    "CFToUTF8 flags ?text (length ?text) block m = Some (length (all_units ds), length (all_bytes ds),
        if m = 0 then block else all_bytes ds @ drop (length (all_bytes ds)) block)"
    using utf8_encode_run [OF assms(1) order.refl assms(3,4), of ?text] by auto
  obtain es where es: "cs = ds @ es" "rest = all_units es"
    using units_prefix [OF *(1) assms(2) *(2)] by metis
  have "es = []"
  proof (cases es)
    case (Cons x xs)
    have "all_bytes cs = all_bytes ds @ utf8_bytes x @ all_bytes xs"
      using es(1) Cons by (simp add: all_bytes_def)
    moreover have "m \<noteq> 0 \<and> m < length (all_bytes ds) + length (utf8_bytes x)"
      using *(3) es Cons assms(2) by (auto simp: encoder_stops_def)
    ultimately show ?thesis using assms(5) by simp
  qed
  then show ?thesis using *(4) es by simp
qed

lemma decode_all:
  assumes "strict_flags flags" "\<forall>c \<in> set cs. scalar c" "m \<le> length block"
    and "m = 0 \<or> length (all_units cs) \<le> m"
  shows "CFFromUTF8 flags d e (all_bytes cs @ tail) (length (all_bytes cs)) block m
    = Some (length (all_bytes cs), length (all_units cs),
        if m = 0 then block else all_units cs @ drop (length (all_units cs)) block)"
proof -
  let ?text = "all_bytes cs @ tail"
  obtain its lost rest where *: "\<forall>it \<in> set its. item_ok it" "all_bytes cs = items_bytes its @ lost @ rest"
    "decoder_stops m (length (items_units its)) lost rest"
    "CFFromUTF8 flags d e ?text (length (all_bytes cs)) block m
      = Some (length (items_bytes its @ lost), length (items_units its),
        if m = 0 then block else items_units its @ drop (length (items_units its)) block)"
    using utf8_decode_run [OF assms(1) _ assms(3), of "length (all_bytes cs)" ?text d e] by auto
  obtain ds where ds: "cs = map (\<lambda>it. case it of Scalar c \<Rightarrow> c) its @ ds" "lost @ rest = all_bytes ds"
    "items_units its @ all_units ds = all_units cs"
    using items_prefix [OF *(1) assms(2) *(2)] by metis
  have "ds = []"
  proof (cases ds)
    case (Cons x xs)
    have x: "scalar x" "lost @ rest = utf8_bytes x @ all_bytes xs" using ds Cons assms(2) by auto
    have units: "length (items_units its) + length (utf16_units x) \<le> length (all_units cs)"
      using arg_cong [OF ds(3), of length] Cons by simp
    moreover have "0 < length (utf16_units x)" by simp
    ultimately have room: "m \<noteq> 0 \<longrightarrow> length (items_units its) < m" using assms(4) by linarith
    show ?thesis
    proof (cases "lost = []")
      case True
      then show ?thesis using *(3) x room 
        by (auto simp: decoder_stops_def utf8_bytes_not_Nil [symmetric] simp del: utf8_bytes_not_Nil
            dest: spec [of _ "Scalar x"])
    next
      case False
      then obtain c where "scalar c" "0x10000 \<le> c" "lost = utf8_bytes c" "m \<noteq> 0" "length (items_units its) + 1 = m"
        using *(3) by (auto simp: decoder_stops_def)
      then show ?thesis using x utf8_bytes_prefix [of c x rest "all_bytes xs"] units assms(4)
        by (simp add: utf16_units_def)
    qed
  qed
  then show ?thesis using *(2,4) ds by simp
qed

text \<open>A pair for which only one place is left.\<close>

lemma all_append: "all_bytes (cs @ ds) = all_bytes cs @ all_bytes ds" "all_units (cs @ ds) = all_units cs @ all_units ds"
  by (simp_all add: all_bytes_def all_units_def)

lemma units_last: "ds \<noteq> [] \<Longrightarrow> all_units ds = all_units (butlast ds) @ utf16_units (last ds)"
  using all_append(2) [of "butlast ds" "[last ds]"] by simp

lemma loses_pair:
  assumes "strict_flags flags" "\<forall>c \<in> set cs. scalar c" "scalar c" "0x10000 \<le> c"
    and "m = length (all_units cs) + 1" "m \<le> length block"
  shows "CFFromUTF8 flags d e (all_bytes (cs @ [c])) (length (all_bytes (cs @ [c]))) block m
    = Some (length (all_bytes (cs @ [c])), length (all_units cs), all_units cs @ drop (length (all_units cs)) block)"
proof -
  let ?cs = "cs @ [c]"
  obtain its lost rest where *: "\<forall>it \<in> set its. item_ok it" "all_bytes ?cs = items_bytes its @ lost @ rest"
    "length (items_units its) \<le> m" "decoder_stops m (length (items_units its)) lost rest"
    "CFFromUTF8 flags d e (all_bytes ?cs) (length (all_bytes ?cs)) block m
      = Some (length (items_bytes its @ lost), length (items_units its),
          items_units its @ drop (length (items_units its)) block)"
    using utf8_decode_run [OF assms(1) order.refl assms(6), of "all_bytes ?cs" d e] assms(5) by auto
  have "\<forall>c \<in> set ?cs. scalar c" using assms(2,3) by simp
  from items_prefix [OF *(1) this *(2)] obtain ds where
    ds: "?cs = map (\<lambda>it. case it of Scalar c \<Rightarrow> c) its @ ds" "lost @ rest = all_bytes ds"
    "items_units its @ all_units ds = all_units ?cs" by metis
  have two: "length (utf16_units c) = 2" using assms(4) by (simp add: utf16_units_def)
  have units: "length (items_units its) + length (all_units ds) = m + 1"
    using arg_cong [OF ds(3), of length] assms(5) two by (simp add: all_append)
  have "ds \<noteq> []" using units *(3) by auto
  then obtain x xs where x: "ds = x # xs" "scalar x" "last ds = c"
  proof -
    have "set ds \<subseteq> set ?cs" unfolding ds(1) by simp
    moreover have "last ds = c" using arg_cong [OF ds(1), of last] \<open>ds \<noteq> []\<close> by simp
    ultimately show ?thesis using that assms(2,3) \<open>ds \<noteq> []\<close> by (cases ds) auto
  qed
  have lost: "lost \<noteq> []" "length (items_units its) + 1 = m"
  proof -
    show "lost \<noteq> []"
    proof
      assume "lost = []"
      then have "length (items_units its) = m"
        using *(4) ds(2) x by (auto simp: decoder_stops_def utf8_bytes_not_Nil [symmetric]
            simp del: utf8_bytes_not_Nil dest: spec [of _ "Scalar x"])
      then have "length (all_units ds) = 1" using units by simp
      moreover have "all_units ds = all_units (butlast ds) @ utf16_units c"
        using units_last [OF \<open>ds \<noteq> []\<close>] unfolding x(3) .
      ultimately show False using two by simp
    qed
    then show "length (items_units its) + 1 = m" using *(4) by (auto simp: decoder_stops_def)
  qed
  have "xs = []"
  proof (rule ccontr)
    assume "xs \<noteq> []"
    then have "all_units ds = utf16_units x @ all_units (butlast xs) @ utf16_units c"
      using x units_last [of xs] by simp
    then have "length (all_units ds) = length (utf16_units x) + length (all_units (butlast xs)) + 2"
      using two by simp
    moreover have "0 < length (utf16_units x)" by simp
    ultimately show False using units lost(2) by linarith
  qed
  then have ds_c: "ds = [c]" using x by simp
  then have "its_cs = cs" if "?cs = its_cs @ ds" for its_cs using that by simp
  moreover obtain c' where "scalar c'" "lost = utf8_bytes c'" using *(4) lost(1) by (auto simp: decoder_stops_def)
  then have "lost = utf8_bytes c" "rest = []"
    using ds(2) ds_c utf8_bytes_prefix [of c' c rest "[]"] assms(3) by auto
  ultimately show ?thesis
    using *(2,5) ds(3) ds_c by (simp add: all_append)
qed

subsection \<open>Measuring\<close>

lemma to_len_loop:
  "\<forall>c \<in> set cs. scalar c \<Longrightarrow> CFToUTF8Len_loop (all_units cs) a = a + of_nat (length (all_bytes cs))"
proof (induction cs arbitrary: a)
  case (Cons c cs)
  have c: "c \<le> 0x10FFFF" "scalar c" using Cons.prems by (auto simp: scalar_def)
  let ?n = "of_nat (length (utf8_bytes c)) :: 32 word"
  have "CFToUTF8Len_loop (utf16_units c @ all_units cs) a = CFToUTF8Len_loop (all_units cs) (a + ?n)"
  proof (cases "c < 0x10000")
    case True
    have "ucast (of_nat c :: 16 word) = (of_nat c :: 32 word)" using True by (simp add: ucast_of_nat_word)
    moreover have "\<not> (kSurrogateHighStart \<le> of_nat c \<and> of_nat c \<le> kSurrogateHighEnd)"
      using c by (auto simp: utf_constants scalar_def word_le_nat_alt unat_of_nat)
    ultimately show ?thesis using True bytes_to_write [OF c(1)]
      by (cases "all_units cs") (auto simp: utf16_units_def Let_def)
  next
    case False
    let ?h = "(c - 0x10000) div 1024" and ?l = "(c - 0x10000) mod 1024"
    have hl: "?h < 1024" "?l < 1024" using c(1) by simp_all
    have ucasts: "ucast (of_nat (0xD800 + ?h) :: 16 word) = (of_nat (0xD800 + ?h) :: 32 word)"
      "ucast (of_nat (0xDC00 + ?l) :: 16 word) = (of_nat (0xDC00 + ?l) :: 32 word)"
      using hl by (intro ucast_of_nat_word; simp)+
    have bounds: "kSurrogateHighStart \<le> of_nat (0xD800 + ?h)" "of_nat (0xD800 + ?h) \<le> kSurrogateHighEnd"
      "kSurrogateLowStart \<le> of_nat (0xDC00 + ?l)" "of_nat (0xDC00 + ?l) \<le> kSurrogateLowEnd"
      unfolding word_le_nat_alt utf_constants using hl by (simp_all add: unat_of_nat del: of_nat_add)
    have "?h * 1024 + ?l + 0x10000 = c" using False by presburger
    then have "push_bit halfShift (of_nat (0xD800 + ?h) - kSurrogateHighStart)
        + (of_nat (0xDC00 + ?l) - kSurrogateLowStart) + halfBase = of_nat c"
      unfolding utf_constants surrogate_value by simp
    then show ?thesis using False bytes_to_write [OF c(1)] bounds
      by (simp add: utf16_units_def Let_def ucasts del: of_nat_add)
  qed
  then show ?case using Cons by (simp add: add.assoc)
qed simp

lemma accepted_scalar:
  assumes "accepted flags text source k = Some True" "flags AND kCFStringEncodingLenientUTF8Conversion = 0"
    and "k = trailingBytesForUTF8 ! unat (text ! source)" "source + k + 1 \<le> length text"
  obtains c rest where "scalar c" "drop source text = utf8_bytes c @ rest" "k + 1 = length (utf8_bytes c)"
proof -
  let ?ns = "map unat (take (k + 1) (drop source text))"
  have k: "k \<le> 3" using assms(1) by (auto simp: accepted_def split: if_splits)
  have n: "k + 1 = sequence_length (unat (text ! source))"
    using k by (simp add: assms(3) trailing_table sequence_length_def split: if_splits)
  have len: "length ?ns = k + 1" using assms(4) by simp
  then have ne: "?ns \<noteq> []" by (metis list.size(3) Suc_eq_plus1 nat.simps(3))
  have hd: "hd ?ns = unat (text ! source)" using assms(4) by (simp add: hd_map hd_take hd_drop_conv_nth)
  have "legal_numbers ?ns"
    using legal_eq [OF _ n] assms(1,2,4) k by (simp add: accepted_def)
  then obtain c where c: "scalar c" "utf8_numbers c = ?ns"
    using legal_numbers_utf8 [OF _ ne] len n hd by metis
  then have bytes: "utf8_bytes c = take (k + 1) (drop source text)" by (simp add: utf8_bytes_def comp_def)
  show ?thesis
  proof (rule that [OF c(1)])
    show "drop source text = utf8_bytes c @ drop (k + 1) (drop source text)"
      unfolding bytes by (rule append_take_drop_id [symmetric])
    show "k + 1 = length (utf8_bytes c)" using len unfolding bytes by simp
  qed
qed

text \<open>The measuring decoder follows the decoder that only counts.\<close>

lemma store_measures:
  assumes "scalar c"
  shows "CFFromUTF8_store flags d e 0 k (of_nat c) s
    = (case measure_store flags d e (of_nat c) of
         None \<Rightarrow> Some (False, s\<lparr>from_source := from_source s - (k + 1)\<rparr>)
       | Some u \<Rightarrow> Some (True, s\<lparr>from_used := from_used s + u\<rparr>))"
proof -
  have "\<not> kMaximumUTF16 < (of_nat c :: 32 word)"
    using assms(1) by (auto simp: utf_constants word_less_nat_alt unat_of_nat scalar_def)
  then show ?thesis by (simp add: CFFromUTF8_store_def measure_store_def put_unit_def Let_def)
qed

lemma len_loop:
  assumes "flags AND kCFStringEncodingLenientUTF8Conversion = 0" "from_source s + from_numBytes s \<le> length text"
  shows "CFFromUTF8Len_loop flags d e text (from_source s) (from_numBytes s) (from_used s)
    = map_option from_used (CFFromUTF8_loop flags d e text 0 s)"
  using assms(2)
proof (induction "from_numBytes s" arbitrary: s rule: less_induct)
  case less
  let ?head = "text ! from_source s"
  let ?k = "trailingBytesForUTF8 ! unat ?head"
  show ?case
  proof (cases "from_numBytes s = 0")
    case True
    then show ?thesis by (simp add: CFFromUTF8Len_loop.simps CFFromUTF8_loop.simps)
  next
    case False
    then have rd: "rd text (from_source s) = Some ?head" using less.prems by (simp add: rd_Some)
    note unfold = CFFromUTF8Len_loop.simps [of flags d e "text" "from_source s" "from_numBytes s" "from_used s"]
      CFFromUTF8_loop.simps [of flags d e "text" 0 s] CFFromUTF8_body_def
    show ?thesis
    proof (cases "from_numBytes s - 1 < ?k")
      case True
      then show ?thesis using False unfolding unfold by (simp add: rd Let_def)
    next
      case room: False
      show ?thesis
      proof (cases "accepted flags text (from_source s) ?k")
        case None
        then show ?thesis using False room unfolding unfold by (simp add: rd Let_def)
      next
        case (Some ok)
        show ?thesis
        proof (cases ok)
          case False
          let ?s = "s\<lparr>from_numBytes := from_numBytes s - 1, from_source := from_source s + 1,
            from_used := from_used s + 1\<rparr>"
          have "CFFromUTF8Len_loop flags d e text (from_source ?s) (from_numBytes ?s) (from_used ?s)
              = map_option from_used (CFFromUTF8_loop flags d e text 0 ?s)"
            using less.prems \<open>from_numBytes s \<noteq> 0\<close> by (intro less.hyps) auto
          then show ?thesis using False Some room \<open>from_numBytes s \<noteq> 0\<close> unfolding unfold
            by (simp add: rd Let_def put_unit_def)
        next
          case True
          have "from_source s + ?k + 1 \<le> length text" using room less.prems \<open>from_numBytes s \<noteq> 0\<close> by linarith
          from accepted_scalar [OF _ assms(1) refl this] Some True
          obtain c rest where c: "scalar c" "drop (from_source s) text = utf8_bytes c @ rest"
            "?k + 1 = length (utf8_bytes c)" by metis
          then have k: "length (utf8_bytes c) - 1 = ?k" by linarith
          obtain ch where ch: "gather ?k text (from_source s) 0 = Some (from_source s + length (utf8_bytes c), ch)"
            "ch - offsetsFromUTF8 ! ?k = of_nat c"
            using decoded_value [OF c(1,2) refl] unfolding k by metis
          show ?thesis
          proof (cases "measure_store flags d e (of_nat c)")
            case None
            then show ?thesis using True Some room \<open>from_numBytes s \<noteq> 0\<close> ch unfolding unfold
              by (simp add: rd Let_def store_measures [OF c(1)])
          next
            case (Some u)
            let ?s = "s\<lparr>from_source := from_source s + length (utf8_bytes c), from_numBytes := from_numBytes s - 1 - ?k,
              from_used := from_used s + u\<rparr>"
            have "CFFromUTF8Len_loop flags d e text (from_source ?s) (from_numBytes ?s) (from_used ?s)
                = map_option from_used (CFFromUTF8_loop flags d e text 0 ?s)"
              using less.prems \<open>from_numBytes s \<noteq> 0\<close> c(3) room by (intro less.hyps) auto
            then show ?thesis using True Some \<open>accepted flags text (from_source s) ?k = Some ok\<close>
                room \<open>from_numBytes s \<noteq> 0\<close> ch unfolding unfold
              by (simp add: rd Let_def store_measures [OF c(1)])
          qed
        qed
      qed
    qed
  qed
qed

subsection \<open>Properties\<close>

text \<open>C7: Encoding UTF-16 as UTF-8 without the HFS+ flag, into a block or only measuring: what was consumed
  is a sequence of Unicode scalar values, what was written are exactly their UTF-8 encodings in order (the
  rest of the block is untouched), and the conversion stops only at the end of the text, at a unit that
  starts no code point (a lone surrogate), or at a code point whose bytes no longer fit.  In particular no
  access leaves the block, and no code point is written in part.\<close>

theorem utf8_encode:
  assumes "flags AND kCFStringEncodingUseHFSPlusCanonical = 0" "n \<le> length text"
    and "m < 2 ^ 32" "m \<le> length block"
  shows "\<exists>cs rest. (\<forall>c \<in> set cs. scalar c) \<and> take n text = all_units cs @ rest
    \<and> (m \<noteq> 0 \<longrightarrow> length (all_bytes cs) \<le> m) \<and> encoder_stops m (length (all_bytes cs)) rest
    \<and> CFToUTF8 flags text n block m = Some (length (all_units cs), length (all_bytes cs),
        if m = 0 then block else all_bytes cs @ drop (length (all_bytes cs)) block)"
  using assms by (rule utf8_encode_run)

theorem utf8_encode_witness:
  "\<exists>cs rest. (\<forall>c \<in> set cs. scalar c) \<and> take 3 [0x41, 0xD83D, 0xDE00] = all_units cs @ rest
    \<and> ((4::nat) \<noteq> 0 \<longrightarrow> length (all_bytes cs) \<le> 4) \<and> encoder_stops 4 (length (all_bytes cs)) rest
    \<and> CFToUTF8 0 [0x41, 0xD83D, 0xDE00] 3 (replicate 5 0) 4
      = Some (length (all_units cs), length (all_bytes cs),
          if (4::nat) = 0 then replicate 5 0 else all_bytes cs @ drop (length (all_bytes cs)) (replicate 5 0))"
  by (rule utf8_encode) simp_all

text \<open>C6: Strict decoding of UTF-8: what was consumed is a sequence of well-formed encodings of scalar
  values, or single bytes 0xA9 in places where they belong to no encoding; what was written are the UTF-16
  units of the scalar values, U+FFFD for those bytes.  So overlong forms, encoded surrogates, values above
  U+10FFFF and truncated sequences are never accepted.  It stops at the end, when the block is full, or where
  no item begins; or at a surrogate pair for which one place was left.  No access leaves the blocks.\<close>

theorem utf8_decode:
  assumes "strict_flags flags" "n \<le> length text" "m \<le> length block"
  shows "\<exists>its lost rest. (\<forall>it \<in> set its. item_ok it) \<and> take n text = items_bytes its @ lost @ rest
    \<and> (m \<noteq> 0 \<longrightarrow> length (items_units its) \<le> m) \<and> decoder_stops m (length (items_units its)) lost rest
    \<and> CFFromUTF8 flags decomposable decompose text n block m
      = Some (length (items_bytes its @ lost), length (items_units its),
          if m = 0 then block else items_units its @ drop (length (items_units its)) block)"
  using assms by (rule utf8_decode_run)

theorem utf8_decode_witness:
  "\<exists>its lost rest. (\<forall>it \<in> set its. item_ok it) \<and> take 4 [0x41, 0xC3, 0xA9, 0xC0] = items_bytes its @ lost @ rest
    \<and> ((9::nat) \<noteq> 0 \<longrightarrow> length (items_units its) \<le> 9) \<and> decoder_stops 9 (length (items_units its)) lost rest
    \<and> CFFromUTF8 0 (\<lambda>_ _. False) (\<lambda>_. []) [0x41, 0xC3, 0xA9, 0xC0] 4 (replicate 9 0) 9
      = Some (length (items_bytes its @ lost), length (items_units its),
          if (9::nat) = 0 then replicate 9 0
          else items_units its @ drop (length (items_units its)) (replicate 9 0))"
  by (rule utf8_decode) (simp_all add: strict_flags_def plain_flags_def)

text \<open>C5: Encoding any well-formed UTF-16 text into a large enough block and strictly decoding the bytes gives
  the text back, all of it.\<close>

theorem utf8_round_trip:
  assumes "flags AND kCFStringEncodingUseHFSPlusCanonical = 0" "strict_flags flags'" "\<forall>c \<in> set cs. scalar c"
    and "0 < mb" "mb < 2 ^ 32" "length (all_bytes cs) \<le> mb" "mb \<le> length block"
    and "0 < mu" "length (all_units cs) \<le> mu" "mu \<le> length block'"
  shows "\<exists>bytes. CFToUTF8 flags (all_units cs) (length (all_units cs)) block mb
      = Some (length (all_units cs), length (all_bytes cs), bytes)
    \<and> CFFromUTF8 flags' decomposable decompose bytes (length (all_bytes cs)) block' mu
      = Some (length (all_bytes cs), length (all_units cs), all_units cs @ drop (length (all_units cs)) block')"
  using encode_all [OF assms(1,3,5,7)] assms(4,6)
    decode_all [OF assms(2,3,10), of decomposable decompose "drop (length (all_bytes cs)) block"] assms(8,9)
  by simp

theorem utf8_round_trip_witness:
  "\<exists>bytes. CFToUTF8 0 [0x41, 0xE9, 0x20AC, 0xD83D, 0xDE00] 5 (replicate 12 0) 12 = Some (5, 10, bytes)
    \<and> CFFromUTF8 0 (\<lambda>_ _. False) (\<lambda>_. []) bytes 10 (replicate 6 0) 6
      = Some (10, 5, [0x41, 0xE9, 0x20AC, 0xD83D, 0xDE00, 0])"
  using utf8_round_trip [of 0 0 "[0x41, 0xE9, 0x20AC, 0x1F600]" 12 "replicate 12 0" 6 "replicate 6 0"
      "\<lambda>_ _. False" "\<lambda>_. []"]
  by (simp add: strict_flags_def plain_flags_def scalar_def utf16_units_def length_utf8_bytes)
    (simp add: numeral_eq_Suc)

text \<open>When a code point outside the basic plane comes last and one place is left in the block, the
  decoder consumes its bytes without storing it: it reports all bytes as converted, and the code point is
  lost.\<close>

theorem utf8_pair_lost:
  assumes "strict_flags flags" "\<forall>c \<in> set cs. scalar c" "scalar c" "0x10000 \<le> c"
    and "m = length (all_units cs) + 1" "m \<le> length block"
  shows "CFFromUTF8 flags decomposable decompose (all_bytes (cs @ [c])) (length (all_bytes (cs @ [c]))) block m
    = Some (length (all_bytes (cs @ [c])), length (all_units cs),
        all_units cs @ drop (length (all_units cs)) block)"
  using assms by (rule loses_pair)

theorem utf8_pair_lost_witness:
  "CFFromUTF8 0 (\<lambda>_ _. False) (\<lambda>_. []) [0x41, 0xC3, 0xA9, 0xF0, 0x9F, 0x98, 0x80] 7 (replicate 3 0) 3
    = Some (7, 2, [0x41, 0xE9, 0])"
  using utf8_pair_lost [of 0 "[0x41, 0xE9]" "0x1F600" 3 "replicate 3 0" "\<lambda>_ _. False" "\<lambda>_. []"]
  by (simp add: strict_flags_def plain_flags_def scalar_def utf16_units_def utf8_bytes_def utf8_numbers_def)
    (simp add: numeral_eq_Suc)

text \<open>The measuring functions agree with the conversions: the UTF-16 length of bytes is what the decoder
  reports when it only counts, for all flags but the lenient one and any decomposition; the UTF-8 length of
  well-formed text is the number of its bytes, modulo the 32 bits of the sum.\<close>

theorem utf8_lengths:
  assumes "flags AND kCFStringEncodingLenientUTF8Conversion = 0" "n \<le> length text" "\<forall>c \<in> set cs. scalar c"
  shows "CFFromUTF8Len flags decomposable decompose text n
      = map_option (\<lambda>(source, used, block). used) (CFFromUTF8 flags decomposable decompose text n block 0)
    \<and> CFToUTF8Len (all_units cs) = length (all_bytes cs) mod 2 ^ 32"
proof
  let ?s = "\<lparr>from_source = 0, from_numBytes = n, from_used = 0, from_characters = 0, from_block = block\<rparr>"
  show "CFFromUTF8Len flags decomposable decompose text n
      = map_option (\<lambda>(source, used, block). used) (CFFromUTF8 flags decomposable decompose text n block 0)"
    using len_loop [OF assms(1), of ?s "text" decomposable decompose] assms(2)
    by (simp add: CFFromUTF8Len_def CFFromUTF8_def option.map_comp comp_def)
  show "CFToUTF8Len (all_units cs) = length (all_bytes cs) mod 2 ^ 32"
    using to_len_loop [OF assms(3), of 0] by (simp add: CFToUTF8Len_def unat_of_nat)
qed

theorem utf8_lengths_witness:
  "CFFromUTF8Len 1 (\<lambda>_ _. False) (\<lambda>_. []) [0x41, 0xFF, 0xC3, 0xA9] 4
      = map_option (\<lambda>(source, used, block). used)
          (CFFromUTF8 1 (\<lambda>_ _. False) (\<lambda>_. []) [0x41, 0xFF, 0xC3, 0xA9] 4 [] 0)
    \<and> CFToUTF8Len (all_units [0x41, 0x1F600]) = length (all_bytes [0x41, 0x1F600]) mod 2 ^ 32"
  by (rule utf8_lengths) (simp_all add: kCFStringEncodingLenientUTF8Conversion_def scalar_def)

end
