(* ===== verification/CF_EightBit.thy ===== *)
theory CF_EightBit
  imports CF_UTF8
begin

text \<open>
  The eight-bit converters of CFBuiltinConverters.c (ASCII, ISO Latin 1, Mac Roman, Windows Latin 1, NextStep),
  their tables and the binary search of CFStringEncodingConverterExt.h; and the wrappers and fallbacks of
  CFStringEncodingConverter.c through which texts are converted character by character.  A conversion that
  returns a \<open>bool\<close> and stores its result through a pointer is a function into an option; the unused \<open>flags\<close>
  are left out.  Whether U+2029 is mapped depends on the version of the system the program was linked
  against, which the code asks for once: it is a parameter.
\<close>

subsection \<open>The binary search\<close>

text \<open>The pointers \<open>p\<close>, \<open>q\<close> and \<open>divider\<close> are indices into the table.\<close>

function search_8bit :: "(16 word \<times> 8 word) list \<Rightarrow> 16 word \<Rightarrow> int \<Rightarrow> int \<Rightarrow> 8 word option option" where
  "search_8bit theTable character p q =
     (if p \<le> q then
        let divider = p + (q - p) div 2 in
        case rdi theTable divider of
          None \<Rightarrow> None
        | Some (u, c) \<Rightarrow>
            if character < u then search_8bit theTable character p (divider - 1)
            else if u < character then search_8bit theTable character (divider + 1) q
            else Some (Some c)
      else Some None)"
  by pat_completeness auto

termination
  by (relation "measure (\<lambda>(_, _, p, q). nat (q - p + 1))") auto

declare search_8bit.simps [simp del]

text \<open>\<open>None\<close> is an access outside the table, \<open>Some None\<close> the result 0.\<close>

definition CFStringEncodingUnicodeTo8BitEncoding ::
    "(16 word \<times> 8 word) list \<Rightarrow> nat \<Rightarrow> 16 word \<Rightarrow> 8 word option option" where
  "CFStringEncodingUnicodeTo8BitEncoding theTable numElem character =
     do { first \<leftarrow> rd theTable 0;
          end \<leftarrow> rdi theTable (int numElem - 1);
          if character < fst first \<or> fst end < character then Some None
          else search_8bit theTable character 0 (int numElem - 1) }"

subsection \<open>The encodings\<close>

definition ParagraphSeparator :: "16 word" where
  "ParagraphSeparator = 0x2029"

definition ASCIINewLine :: "8 word" where
  "ASCIINewLine = 0x0A"

definition CFIsParagraphSeparator :: "bool \<Rightarrow> 16 word \<Rightarrow> bool" where
  "CFIsParagraphSeparator maps_paragraph character \<longleftrightarrow> maps_paragraph \<and> ParagraphSeparator = character"

definition CFToASCII :: "bool \<Rightarrow> 16 word \<Rightarrow> 8 word option option" where
  "CFToASCII maps_paragraph character =
     Some (if character < 0x80 then Some (ucast character)
           else if CFIsParagraphSeparator maps_paragraph character then Some ASCIINewLine
           else None)"

definition CFFromASCII :: "8 word \<Rightarrow> 16 word option option" where
  "CFFromASCII byte = Some (if byte < 0x80 then Some (ucast byte) else None)"

definition CFToISOLatin1 :: "bool \<Rightarrow> 16 word \<Rightarrow> 8 word option option" where
  "CFToISOLatin1 maps_paragraph character =
     Some (if character \<le> 0xFF then Some (ucast character)
           else if CFIsParagraphSeparator maps_paragraph character then Some ASCIINewLine
           else None)"

definition CFFromISOLatin1 :: "8 word \<Rightarrow> 16 word option option" where
  "CFFromISOLatin1 byte = Some (Some (ucast byte))"

definition NUM_MACROMAN_FROM_UNI :: nat where
  "NUM_MACROMAN_FROM_UNI = 129"

definition macRoman_from_uni :: "(16 word \<times> 8 word) list" where
  "macRoman_from_uni = [
     (0x00A0, 0xCA), (0x00A1, 0xC1), (0x00A2, 0xA2), (0x00A3, 0xA3), (0x00A5, 0xB4),
     (0x00A7, 0xA4), (0x00A8, 0xAC), (0x00A9, 0xA9), (0x00AA, 0xBB), (0x00AB, 0xC7),
     (0x00AC, 0xC2), (0x00AE, 0xA8), (0x00AF, 0xF8), (0x00B0, 0xA1), (0x00B1, 0xB1),
     (0x00B4, 0xAB), (0x00B5, 0xB5), (0x00B6, 0xA6), (0x00B7, 0xE1), (0x00B8, 0xFC),
     (0x00BA, 0xBC), (0x00BB, 0xC8), (0x00BF, 0xC0), (0x00C0, 0xCB), (0x00C1, 0xE7),
     (0x00C2, 0xE5), (0x00C3, 0xCC), (0x00C4, 0x80), (0x00C5, 0x81), (0x00C6, 0xAE),
     (0x00C7, 0x82), (0x00C8, 0xE9), (0x00C9, 0x83), (0x00CA, 0xE6), (0x00CB, 0xE8),
     (0x00CC, 0xED), (0x00CD, 0xEA), (0x00CE, 0xEB), (0x00CF, 0xEC), (0x00D1, 0x84),
     (0x00D2, 0xF1), (0x00D3, 0xEE), (0x00D4, 0xEF), (0x00D5, 0xCD), (0x00D6, 0x85),
     (0x00D8, 0xAF), (0x00D9, 0xF4), (0x00DA, 0xF2), (0x00DB, 0xF3), (0x00DC, 0x86),
     (0x00DF, 0xA7), (0x00E0, 0x88), (0x00E1, 0x87), (0x00E2, 0x89), (0x00E3, 0x8B),
     (0x00E4, 0x8A), (0x00E5, 0x8C), (0x00E6, 0xBE), (0x00E7, 0x8D), (0x00E8, 0x8F),
     (0x00E9, 0x8E), (0x00EA, 0x90), (0x00EB, 0x91), (0x00EC, 0x93), (0x00ED, 0x92),
     (0x00EE, 0x94), (0x00EF, 0x95), (0x00F1, 0x96), (0x00F2, 0x98), (0x00F3, 0x97),
     (0x00F4, 0x99), (0x00F5, 0x9B), (0x00F6, 0x9A), (0x00F7, 0xD6), (0x00F8, 0xBF),
     (0x00F9, 0x9D), (0x00FA, 0x9C), (0x00FB, 0x9E), (0x00FC, 0x9F), (0x00FF, 0xD8),
     (0x0131, 0xF5), (0x0152, 0xCE), (0x0153, 0xCF), (0x0178, 0xD9), (0x0192, 0xC4),
     (0x02C6, 0xF6), (0x02C7, 0xFF), (0x02D8, 0xF9), (0x02D9, 0xFA), (0x02DA, 0xFB),
     (0x02DB, 0xFE), (0x02DC, 0xF7), (0x02DD, 0xFD), (0x03A9, 0xBD), (0x03C0, 0xB9),
     (0x2013, 0xD0), (0x2014, 0xD1), (0x2018, 0xD4), (0x2019, 0xD5), (0x201A, 0xE2),
     (0x201C, 0xD2), (0x201D, 0xD3), (0x201E, 0xE3), (0x2020, 0xA0), (0x2021, 0xE0),
     (0x2022, 0xA5), (0x2026, 0xC9), (0x2030, 0xE4), (0x2039, 0xDC), (0x203A, 0xDD),
     (0x2044, 0xDA), (0x20AC, 0xDB), (0x2122, 0xAA), (0x2126, 0xBD), (0x2202, 0xB6),
     (0x2206, 0xC6), (0x220F, 0xB8), (0x2211, 0xB7), (0x221A, 0xC3), (0x221E, 0xB0),
     (0x222B, 0xBA), (0x2248, 0xC5), (0x2260, 0xAD), (0x2264, 0xB2), (0x2265, 0xB3),
     (0x25CA, 0xD7), (0xF8FF, 0xF0), (0xFB01, 0xDE), (0xFB02, 0xDF)]"

definition CFToMacRoman :: "16 word \<Rightarrow> 8 word option option" where
  "CFToMacRoman character =
     (if character < 0x80 then Some (Some (ucast character))
      else CFStringEncodingUnicodeTo8BitEncoding macRoman_from_uni NUM_MACROMAN_FROM_UNI character)"

definition macRoman_to_uni :: "16 word list" where
  "macRoman_to_uni = [
     0x00C4, 0x00C5, 0x00C7, 0x00C9, 0x00D1, 0x00D6, 0x00DC, 0x00E1, 0x00E0, 0x00E2, 0x00E4,
     0x00E3, 0x00E5, 0x00E7, 0x00E9, 0x00E8, 0x00EA, 0x00EB, 0x00ED, 0x00EC, 0x00EE, 0x00EF,
     0x00F1, 0x00F3, 0x00F2, 0x00F4, 0x00F6, 0x00F5, 0x00FA, 0x00F9, 0x00FB, 0x00FC, 0x2020,
     0x00B0, 0x00A2, 0x00A3, 0x00A7, 0x2022, 0x00B6, 0x00DF, 0x00AE, 0x00A9, 0x2122, 0x00B4,
     0x00A8, 0x2260, 0x00C6, 0x00D8, 0x221E, 0x00B1, 0x2264, 0x2265, 0x00A5, 0x00B5, 0x2202,
     0x2211, 0x220F, 0x03C0, 0x222B, 0x00AA, 0x00BA, 0x03A9, 0x00E6, 0x00F8, 0x00BF, 0x00A1,
     0x00AC, 0x221A, 0x0192, 0x2248, 0x2206, 0x00AB, 0x00BB, 0x2026, 0x00A0, 0x00C0, 0x00C3,
     0x00D5, 0x0152, 0x0153, 0x2013, 0x2014, 0x201C, 0x201D, 0x2018, 0x2019, 0x00F7, 0x25CA,
     0x00FF, 0x0178, 0x2044, 0x20AC, 0x2039, 0x203A, 0xFB01, 0xFB02, 0x2021, 0x00B7, 0x201A,
     0x201E, 0x2030, 0x00C2, 0x00CA, 0x00C1, 0x00CB, 0x00C8, 0x00CD, 0x00CE, 0x00CF, 0x00CC,
     0x00D3, 0x00D4, 0xF8FF, 0x00D2, 0x00DA, 0x00DB, 0x00D9, 0x0131, 0x02C6, 0x02DC, 0x00AF,
     0x02D8, 0x02D9, 0x02DA, 0x00B8, 0x02DD, 0x02DB, 0x02C7]"

definition CFFromMacRoman :: "8 word \<Rightarrow> 16 word option option" where
  "CFFromMacRoman byte =
     (if byte < 0x80 then Some (Some (ucast byte))
      else do { character \<leftarrow> rd macRoman_to_uni (unat (byte - 0x80)); Some (Some character) })"

definition NUM_1252_FROM_UNI :: nat where
  "NUM_1252_FROM_UNI = 27"

definition cp1252_from_uni :: "(16 word \<times> 8 word) list" where
  "cp1252_from_uni = [
     (0x0152, 0x8C), (0x0153, 0x9C), (0x0160, 0x8A), (0x0161, 0x9A), (0x0178, 0x9F),
     (0x017D, 0x8E), (0x017E, 0x9E), (0x0192, 0x83), (0x02C6, 0x88), (0x02DC, 0x98),
     (0x2013, 0x96), (0x2014, 0x97), (0x2018, 0x91), (0x2019, 0x92), (0x201A, 0x82),
     (0x201C, 0x93), (0x201D, 0x94), (0x201E, 0x84), (0x2020, 0x86), (0x2021, 0x87),
     (0x2022, 0x95), (0x2026, 0x85), (0x2030, 0x89), (0x2039, 0x8B), (0x203A, 0x9B),
     (0x20AC, 0x80), (0x2122, 0x99)]"

definition CFToWinLatin1 :: "16 word \<Rightarrow> 8 word option option" where
  "CFToWinLatin1 character =
     (if character < 0x80 \<or> (0x9F < character \<and> character \<le> 0x00FF) then Some (Some (ucast character))
      else CFStringEncodingUnicodeTo8BitEncoding cp1252_from_uni NUM_1252_FROM_UNI character)"

definition cp1252_to_uni :: "16 word list" where
  "cp1252_to_uni = [
     0x20AC, 0xFFFD, 0x201A, 0x0192, 0x201E, 0x2026, 0x2020, 0x2021, 0x02C6, 0x2030, 0x0160,
     0x2039, 0x0152, 0xFFFD, 0x017D, 0xFFFD, 0xFFFD, 0x2018, 0x2019, 0x201C, 0x201D, 0x2022,
     0x2013, 0x2014, 0x02DC, 0x2122, 0x0161, 0x203A, 0x0153, 0xFFFD, 0x017E, 0x0178]"

definition CFFromWinLatin1 :: "8 word \<Rightarrow> 16 word option option" where
  "CFFromWinLatin1 byte =
     do { character \<leftarrow> (if byte < 0x80 \<or> 0x9F < byte then Some (ucast byte)
                       else rd cp1252_to_uni (unat (byte - 0x80)));
          Some (if character \<noteq> 0xFFFD then Some character else None) }"

definition NUM_NEXTSTEP_FROM_UNI :: nat where
  "NUM_NEXTSTEP_FROM_UNI = 127"

definition nextstep_from_tab :: "(16 word \<times> 8 word) list" where
  "nextstep_from_tab = [
     (0x00A0, 0x80), (0x00A1, 0xA1), (0x00A2, 0xA2), (0x00A3, 0xA3), (0x00A4, 0xA8),
     (0x00A5, 0xA5), (0x00A6, 0xB5), (0x00A7, 0xA7), (0x00A8, 0xC8), (0x00A9, 0xA0),
     (0x00AA, 0xE3), (0x00AB, 0xAB), (0x00AC, 0xBE), (0x00AE, 0xB0), (0x00AF, 0xC5),
     (0x00B1, 0xD1), (0x00B2, 0xC9), (0x00B3, 0xCC), (0x00B4, 0xC2), (0x00B5, 0x9D),
     (0x00B6, 0xB6), (0x00B7, 0xB4), (0x00B8, 0xCB), (0x00B9, 0xC0), (0x00BA, 0xEB),
     (0x00BB, 0xBB), (0x00BC, 0xD2), (0x00BD, 0xD3), (0x00BE, 0xD4), (0x00BF, 0xBF),
     (0x00C0, 0x81), (0x00C1, 0x82), (0x00C2, 0x83), (0x00C3, 0x84), (0x00C4, 0x85),
     (0x00C5, 0x86), (0x00C6, 0xE1), (0x00C7, 0x87), (0x00C8, 0x88), (0x00C9, 0x89),
     (0x00CA, 0x8A), (0x00CB, 0x8B), (0x00CC, 0x8C), (0x00CD, 0x8D), (0x00CE, 0x8E),
     (0x00CF, 0x8F), (0x00D0, 0x90), (0x00D1, 0x91), (0x00D2, 0x92), (0x00D3, 0x93),
     (0x00D4, 0x94), (0x00D5, 0x95), (0x00D6, 0x96), (0x00D7, 0x9E), (0x00D8, 0xE9),
     (0x00D9, 0x97), (0x00DA, 0x98), (0x00DB, 0x99), (0x00DC, 0x9A), (0x00DD, 0x9B),
     (0x00DE, 0x9C), (0x00DF, 0xFB), (0x00E0, 0xD5), (0x00E1, 0xD6), (0x00E2, 0xD7),
     (0x00E3, 0xD8), (0x00E4, 0xD9), (0x00E5, 0xDA), (0x00E6, 0xF1), (0x00E7, 0xDB),
     (0x00E8, 0xDC), (0x00E9, 0xDD), (0x00EA, 0xDE), (0x00EB, 0xDF), (0x00EC, 0xE0),
     (0x00ED, 0xE2), (0x00EE, 0xE4), (0x00EF, 0xE5), (0x00F0, 0xE6), (0x00F1, 0xE7),
     (0x00F2, 0xEC), (0x00F3, 0xED), (0x00F4, 0xEE), (0x00F5, 0xEF), (0x00F6, 0xF0),
     (0x00F7, 0x9F), (0x00F8, 0xF9), (0x00F9, 0xF2), (0x00FA, 0xF3), (0x00FB, 0xF4),
     (0x00FC, 0xF6), (0x00FD, 0xF7), (0x00FE, 0xFC), (0x00FF, 0xFD), (0x0131, 0xF5),
     (0x0141, 0xE8), (0x0142, 0xF8), (0x0152, 0xEA), (0x0153, 0xFA), (0x0192, 0xA6),
     (0x02C6, 0xC3), (0x02C7, 0xCF), (0x02CB, 0xC1), (0x02D8, 0xC6), (0x02D9, 0xC7),
     (0x02DA, 0xCA), (0x02DB, 0xCE), (0x02DC, 0xC4), (0x02DD, 0xCD), (0x2013, 0xB1),
     (0x2014, 0xD0), (0x2019, 0xA9), (0x201A, 0xB8), (0x201C, 0xAA), (0x201D, 0xBA),
     (0x201E, 0xB9), (0x2020, 0xB2), (0x2021, 0xB3), (0x2022, 0xB7), (0x2026, 0xBC),
     (0x2030, 0xBD), (0x2039, 0xAC), (0x203A, 0xAD), (0x2044, 0xA4), (0xFB01, 0xAE),
     (0xFB02, 0xAF), (0xFFFD, 0xFF)]"

definition CFToNextStepLatin :: "bool \<Rightarrow> 16 word \<Rightarrow> 8 word option option" where
  "CFToNextStepLatin maps_paragraph character =
     (if character < 0x80 then Some (Some (ucast character))
      else if CFIsParagraphSeparator maps_paragraph character then Some (Some ASCIINewLine)
      else CFStringEncodingUnicodeTo8BitEncoding nextstep_from_tab NUM_NEXTSTEP_FROM_UNI character)"

definition NSToPrecompUnicodeTable :: "16 word list" where
  "NSToPrecompUnicodeTable = [
     0x00A0, 0x00C0, 0x00C1, 0x00C2, 0x00C3, 0x00C4, 0x00C5, 0x00C7, 0x00C8, 0x00C9, 0x00CA,
     0x00CB, 0x00CC, 0x00CD, 0x00CE, 0x00CF, 0x00D0, 0x00D1, 0x00D2, 0x00D3, 0x00D4, 0x00D5,
     0x00D6, 0x00D9, 0x00DA, 0x00DB, 0x00DC, 0x00DD, 0x00DE, 0x00B5, 0x00D7, 0x00F7, 0x00A9,
     0x00A1, 0x00A2, 0x00A3, 0x2044, 0x00A5, 0x0192, 0x00A7, 0x00A4, 0x2019, 0x201C, 0x00AB,
     0x2039, 0x203A, 0xFB01, 0xFB02, 0x00AE, 0x2013, 0x2020, 0x2021, 0x00B7, 0x00A6, 0x00B6,
     0x2022, 0x201A, 0x201E, 0x201D, 0x00BB, 0x2026, 0x2030, 0x00AC, 0x00BF, 0x00B9, 0x02CB,
     0x00B4, 0x02C6, 0x02DC, 0x00AF, 0x02D8, 0x02D9, 0x00A8, 0x00B2, 0x02DA, 0x00B8, 0x00B3,
     0x02DD, 0x02DB, 0x02C7, 0x2014, 0x00B1, 0x00BC, 0x00BD, 0x00BE, 0x00E0, 0x00E1, 0x00E2,
     0x00E3, 0x00E4, 0x00E5, 0x00E7, 0x00E8, 0x00E9, 0x00EA, 0x00EB, 0x00EC, 0x00C6, 0x00ED,
     0x00AA, 0x00EE, 0x00EF, 0x00F0, 0x00F1, 0x0141, 0x00D8, 0x0152, 0x00BA, 0x00F2, 0x00F3,
     0x00F4, 0x00F5, 0x00F6, 0x00E6, 0x00F9, 0x00FA, 0x00FB, 0x0131, 0x00FC, 0x00FD, 0x0142,
     0x00F8, 0x0153, 0x00DF, 0x00FE, 0x00FF, 0xFFFD, 0xFFFD]"

definition CFFromNextStepLatin :: "8 word \<Rightarrow> 16 word option option" where
  "CFFromNextStepLatin byte =
     do { character \<leftarrow> (if byte < 0x80 then Some (ucast byte)
                       else rd NSToPrecompUnicodeTable (unat (byte - 0x80)));
          Some (if character \<noteq> 0xFFFD then Some character else None) }"

subsection \<open>Combining characters\<close>

definition CFLatin1CombiningCharBitmap :: "32 word list" where
  "CFLatin1CombiningCharBitmap = [0xFBB94010, 0x01800000, 0x0000000]"

definition CFStringEncodingIsValidCombiningCharacterForLatin1 :: "16 word \<Rightarrow> bool option" where
  "CFStringEncodingIsValidCombiningCharacterForLatin1 character =
     (if 0x300 \<le> character \<and> character < 0x360
      then do { bits \<leftarrow> rd CFLatin1CombiningCharBitmap (unat (character - 0x300) div 32);
                Some (bits AND push_bit (31 - unat (character - 0x300) mod 32) 1 \<noteq> 0) }
      else Some False)"

definition CFUniCharIsSurrogateHighCharacter :: "16 word \<Rightarrow> bool" where
  "CFUniCharIsSurrogateHighCharacter character \<longleftrightarrow> 0xD800 \<le> character \<and> character \<le> 0xDBFF"

definition CFUniCharIsSurrogateLowCharacter :: "16 word \<Rightarrow> bool" where
  "CFUniCharIsSurrogateLowCharacter character \<longleftrightarrow> 0xDC00 \<le> character \<and> character \<le> 0xDFFF"

text \<open>The loop over the characters after the first; the Unicode tables behind \<open>CFUniCharIsMemberOf\<close> (for the
  set of non-base characters) and \<open>CFUniCharPrecomposeCharacter\<close> are parameters.  The result is the composed
  character and how many characters it took.\<close>

fun precompose_loop ::
    "(32 word \<Rightarrow> bool) \<Rightarrow> (32 word \<Rightarrow> 32 word \<Rightarrow> 32 word) \<Rightarrow> 16 word list \<Rightarrow> 32 word \<Rightarrow> nat \<Rightarrow> 32 word \<times> nat" where
  "precompose_loop nonbase precompose [] ch usedCharLen = (ch, usedCharLen)"
| "precompose_loop nonbase precompose (unit # text) ch usedCharLen =
     (if CFUniCharIsSurrogateHighCharacter unit \<or> CFUniCharIsSurrogateLowCharacter unit
      then (ch, usedCharLen)
      else let nextCh = ucast unit; composedChar = precompose ch nextCh in
        if nonbase nextCh \<and> composedChar \<noteq> 0xFFFD then
          if 0xFFFF < composedChar then (ch, usedCharLen)
          else precompose_loop nonbase precompose text composedChar (usedCharLen + 1)
        else (ch, usedCharLen))"

text \<open>The character, and \<open>*usedChars\<close>, which is not set when there are no characters.\<close>

definition CFStringEncodingPrecomposeLatinCharacter ::
    "(32 word \<Rightarrow> bool) \<Rightarrow> (32 word \<Rightarrow> 32 word \<Rightarrow> 32 word) \<Rightarrow> 16 word list \<Rightarrow> 16 word \<times> nat option" where
  "CFStringEncodingPrecomposeLatinCharacter nonbase precompose text =
     (case text of
        [] \<Rightarrow> (0xFFFD, None)
      | unit # text \<Rightarrow>
          if CFUniCharIsSurrogateHighCharacter unit \<or> CFUniCharIsSurrogateLowCharacter unit
          then (unit, Some 1)
          else let (ch, usedCharLen) = precompose_loop nonbase precompose text (ucast unit) 1 in
               (if 1 < usedCharLen then ucast ch else 0xFFFD, Some usedCharLen))"

text \<open>What the four functions below have in common: \<open>to\<close> is the conversion they call.  The result: the
  characters consumed, \<open>*usedByteLen\<close> if it is set, and the block.  \<open>None\<close> also stands for the use of an
  unset variable.\<close>

definition to_precompose ::
    "(16 word \<Rightarrow> 8 word option option) \<Rightarrow> 16 word \<times> nat option \<Rightarrow> 8 word list \<Rightarrow> nat
      \<Rightarrow> (nat \<times> nat option \<times> 8 word list) option" where
  "to_precompose to composed block maxByteLen =
     do { result \<leftarrow> to (fst composed);
          case result of
            None \<Rightarrow> Some (0, None, block)
          | Some byte \<Rightarrow>
              if byte = 0 then Some (0, None, block)
              else do {
                usedCharLen \<leftarrow> snd composed;
                if 1 < usedCharLen then do {
                  block \<leftarrow> (if maxByteLen \<noteq> 0 then wr block 0 byte else Some block);
                  Some (usedCharLen, Some 1, block) }
                else Some (0, None, block) } }"

definition CFToISOLatin1Precompose ::
    "bool \<Rightarrow> (32 word \<Rightarrow> bool) \<Rightarrow> (32 word \<Rightarrow> 32 word \<Rightarrow> 32 word) \<Rightarrow> 16 word list \<Rightarrow> 8 word list \<Rightarrow> nat
      \<Rightarrow> (nat \<times> nat option \<times> 8 word list) option" where
  "CFToISOLatin1Precompose maps_paragraph nonbase precompose text block maxByteLen =
     to_precompose (CFToISOLatin1 maps_paragraph)
       (CFStringEncodingPrecomposeLatinCharacter nonbase precompose text) block maxByteLen"

definition CFToMacRomanPrecompose ::
    "(32 word \<Rightarrow> bool) \<Rightarrow> (32 word \<Rightarrow> 32 word \<Rightarrow> 32 word) \<Rightarrow> 16 word list \<Rightarrow> 8 word list \<Rightarrow> nat
      \<Rightarrow> (nat \<times> nat option \<times> 8 word list) option" where
  "CFToMacRomanPrecompose nonbase precompose text block maxByteLen =
     to_precompose CFToMacRoman
       (CFStringEncodingPrecomposeLatinCharacter nonbase precompose text) block maxByteLen"

definition CFToWinLatin1Precompose ::
    "(32 word \<Rightarrow> bool) \<Rightarrow> (32 word \<Rightarrow> 32 word \<Rightarrow> 32 word) \<Rightarrow> 16 word list \<Rightarrow> 8 word list \<Rightarrow> nat
      \<Rightarrow> (nat \<times> nat option \<times> 8 word list) option" where
  "CFToWinLatin1Precompose nonbase precompose text block maxByteLen =
     to_precompose CFToWinLatin1
       (CFStringEncodingPrecomposeLatinCharacter nonbase precompose text) block maxByteLen"

definition CFToNextStepLatinPrecompose ::
    "bool \<Rightarrow> (32 word \<Rightarrow> bool) \<Rightarrow> (32 word \<Rightarrow> 32 word \<Rightarrow> 32 word) \<Rightarrow> 16 word list \<Rightarrow> 8 word list \<Rightarrow> nat
      \<Rightarrow> (nat \<times> nat option \<times> 8 word list) option" where
  "CFToNextStepLatinPrecompose maps_paragraph nonbase precompose text block maxByteLen =
     to_precompose (CFToNextStepLatin maps_paragraph)
       (CFStringEncodingPrecomposeLatinCharacter nonbase precompose text) block maxByteLen"

subsection \<open>The wrappers\<close>

text \<open>The loop that the two plain wrappers share, with as many iterations left as the last argument says;
  the result is the number of characters processed, and the block.\<close>

fun cheap_loop ::
    "('a \<Rightarrow> 'b option option) \<Rightarrow> 'a list \<Rightarrow> nat \<Rightarrow> 'b list \<Rightarrow> nat \<Rightarrow> nat \<Rightarrow> (nat \<times> 'b list) option" where
  "cheap_loop conv text maxLen block processed 0 = Some (processed, block)"
| "cheap_loop conv text maxLen block processed (Suc k) =
     do { x \<leftarrow> rd text processed;
          result \<leftarrow> conv x;
          case result of
            None \<Rightarrow> Some (processed, block)
          | Some y \<Rightarrow>
              do { block \<leftarrow> (if maxLen \<noteq> 0 then wr block processed y else Some block);
                   cheap_loop conv text maxLen block (processed + 1) k } }"

definition CFToBytesCheapEightBitWrapper ::
    "(16 word \<Rightarrow> 8 word option option) \<Rightarrow> 16 word list \<Rightarrow> nat \<Rightarrow> 8 word list \<Rightarrow> nat
      \<Rightarrow> (nat \<times> nat \<times> 8 word list) option" where
  "CFToBytesCheapEightBitWrapper toBytes text numChars block maxByteLen =
     (let n = (if maxByteLen \<noteq> 0 \<and> maxByteLen < numChars then maxByteLen else numChars)
      in map_option (\<lambda>(processed, block). (processed, processed, block))
           (cheap_loop toBytes text maxByteLen block 0 n))"

definition CFToUnicodeCheapEightBitWrapper ::
    "(8 word \<Rightarrow> 16 word option option) \<Rightarrow> 8 word list \<Rightarrow> nat \<Rightarrow> 16 word list \<Rightarrow> nat
      \<Rightarrow> (nat \<times> nat \<times> 16 word list) option" where
  "CFToUnicodeCheapEightBitWrapper toUnicode text numBytes block maxCharLen =
     (let n = (if maxCharLen \<noteq> 0 \<and> maxCharLen < numBytes then maxCharLen else numBytes)
      in map_option (\<lambda>(processed, block). (processed, processed, block))
           (cheap_loop toUnicode text maxCharLen block 0 n))"

text \<open>The wrapper for canonical forms: the loop over a decomposition (success, \<open>theUsedCharLen\<close>, the pointer
  \<open>characters\<close>, the block), and the loop over the bytes, with as many left as the last argument says; the
  result is the bytes processed, \<open>*usedCharLen\<close>, and the block.  The tables of decompositions are parameters.\<close>

fun canonical_emit ::
    "32 word list \<Rightarrow> nat \<Rightarrow> nat \<Rightarrow> nat \<Rightarrow> 16 word list \<Rightarrow> (bool \<times> nat \<times> nat \<times> 16 word list) option" where
  "canonical_emit [] maxCharLen used characters block = Some (True, used, characters, block)"
| "canonical_emit (ch # src) maxCharLen used characters block =
     (if 0xFFFF < ch then
        if maxCharLen < used + 2 then Some (False, used, characters, block)
        else if maxCharLen \<noteq> 0 then do {
          block \<leftarrow> wr block characters (high_unit ch);
          block \<leftarrow> wr block (characters + 1) (low_unit ch);
          canonical_emit src maxCharLen (used + 2) (characters + 2) block }
        else canonical_emit src maxCharLen (used + 2) characters block
      else
        if maxCharLen < used + 1 then Some (False, used, characters, block)
        else do {
          block \<leftarrow> wr block characters (ucast ch);
          canonical_emit src maxCharLen (used + 1) (characters + 1) block })"

fun canonical_loop ::
    "(8 word \<Rightarrow> 16 word option option) \<Rightarrow> (32 word \<Rightarrow> bool \<Rightarrow> bool) \<Rightarrow> (32 word \<Rightarrow> 32 word list) \<Rightarrow> bool
      \<Rightarrow> 8 word list \<Rightarrow> nat \<Rightarrow> 16 word list \<Rightarrow> nat \<Rightarrow> nat \<Rightarrow> nat \<Rightarrow> nat \<Rightarrow> (nat \<times> nat \<times> 16 word list) option" where
  "canonical_loop toUnicode decomposable decompose isHFSPlus text maxCharLen block processed used characters 0
     = Some (processed, used, block)"
| "canonical_loop toUnicode decomposable decompose isHFSPlus text maxCharLen block processed used characters (Suc k)
     = (if maxCharLen = 0 \<or> used < maxCharLen then do {
          byte \<leftarrow> rd text processed;
          result \<leftarrow> toUnicode byte;
          case result of
            None \<Rightarrow> Some (processed, used, block)
          | Some character \<Rightarrow>
              if decomposable (ucast character) isHFSPlus then do {
                (ok, used', characters, block) \<leftarrow>
                  canonical_emit (decompose (ucast character)) maxCharLen used characters block;
                if ok
                then canonical_loop toUnicode decomposable decompose isHFSPlus text maxCharLen block
                       (processed + 1) used' characters k
                else Some (processed, used, block) }
              else if maxCharLen \<noteq> 0 then do {
                block \<leftarrow> wr block characters character;
                canonical_loop toUnicode decomposable decompose isHFSPlus text maxCharLen block
                  (processed + 1) (used + 1) (characters + 1) k }
              else canonical_loop toUnicode decomposable decompose isHFSPlus text maxCharLen block
                     (processed + 1) (used + 1) characters k }
        else Some (processed, used, block))"

definition CFToCanonicalUnicodeCheapEightBitWrapper ::
    "(8 word \<Rightarrow> 16 word option option) \<Rightarrow> (32 word \<Rightarrow> bool \<Rightarrow> bool) \<Rightarrow> (32 word \<Rightarrow> 32 word list) \<Rightarrow> 32 word
      \<Rightarrow> 8 word list \<Rightarrow> nat \<Rightarrow> 16 word list \<Rightarrow> nat \<Rightarrow> (nat \<times> nat \<times> 16 word list) option" where
  "CFToCanonicalUnicodeCheapEightBitWrapper toUnicode decomposable decompose flags text numBytes block maxCharLen =
     canonical_loop toUnicode decomposable decompose (flags AND kCFStringEncodingUseHFSPlusCanonical \<noteq> 0)
       text maxCharLen block 0 0 0 numBytes"

subsection \<open>Fallbacks\<close>

definition toLossyASCIITable :: "8 word list list" where
  "toLossyASCIITable = [
     [0x20, 0, 0, 0], [0x21, 0, 0, 0], [0x63, 0, 0, 0], [0x4C, 0, 0, 0], [0x24, 0, 0, 0],
     [0x59, 0, 0, 0], [0x7C, 0, 0, 0], [0, 0, 0, 0], [0, 0, 0, 0], [0x28, 0x43, 0x29, 0],
     [0x61, 0, 0, 0], [0x3C, 0x3C, 0, 0], [0, 0, 0, 0], [0x2D, 0, 0, 0], [0x28, 0x52, 0x29, 0],
     [0, 0, 0, 0], [0, 0, 0, 0], [0x2B, 0x2D, 0, 0], [0x32, 0, 0, 0], [0x33, 0, 0, 0],
     [0, 0, 0, 0], [0, 0, 0, 0], [0, 0, 0, 0], [0, 0, 0, 0], [0, 0, 0, 0], [0x31, 0, 0, 0],
     [0x6F, 0, 0, 0], [0x3E, 0x3E, 0, 0], [0x31, 0x2F, 0x34, 0], [0x31, 0x2F, 0x32, 0],
     [0x33, 0x2F, 0x34, 0], [0x3F, 0, 0, 0], [0x41, 0, 0, 0], [0x41, 0, 0, 0], [0x41, 0, 0, 0],
     [0x41, 0, 0, 0], [0x41, 0, 0, 0], [0x41, 0, 0, 0], [0x41, 0x45, 0, 0], [0x43, 0, 0, 0],
     [0x45, 0, 0, 0], [0x45, 0, 0, 0], [0x45, 0, 0, 0], [0x45, 0, 0, 0], [0x49, 0, 0, 0],
     [0x49, 0, 0, 0], [0x49, 0, 0, 0], [0x49, 0, 0, 0], [0x54, 0x48, 0, 0], [0x4E, 0, 0, 0],
     [0x4F, 0, 0, 0], [0x4F, 0, 0, 0], [0x4F, 0, 0, 0], [0x4F, 0, 0, 0], [0x4F, 0, 0, 0],
     [0x58, 0, 0, 0], [0x4F, 0, 0, 0], [0x55, 0, 0, 0], [0x55, 0, 0, 0], [0x55, 0, 0, 0],
     [0x55, 0, 0, 0], [0x59, 0, 0, 0], [0x74, 0x68, 0, 0], [0x73, 0, 0, 0], [0x61, 0, 0, 0],
     [0x61, 0, 0, 0], [0x61, 0, 0, 0], [0x61, 0, 0, 0], [0x61, 0, 0, 0], [0x61, 0, 0, 0],
     [0x61, 0x65, 0, 0], [0x63, 0, 0, 0], [0x65, 0, 0, 0], [0x65, 0, 0, 0], [0x65, 0, 0, 0],
     [0x65, 0, 0, 0], [0x69, 0, 0, 0], [0x69, 0, 0, 0], [0x69, 0, 0, 0], [0x69, 0, 0, 0],
     [0x54, 0x48, 0, 0], [0x6E, 0, 0, 0], [0x6F, 0, 0, 0], [0x6F, 0, 0, 0], [0x6F, 0, 0, 0],
     [0x6F, 0, 0, 0], [0x6F, 0, 0, 0], [0x2F, 0, 0, 0], [0x6F, 0, 0, 0], [0x75, 0, 0, 0],
     [0x75, 0, 0, 0], [0x75, 0, 0, 0], [0x75, 0, 0, 0], [0x79, 0, 0, 0], [0x74, 0x68, 0, 0],
     [0x79, 0, 0, 0]]"

text \<open>The loop over the four bytes of an entry.\<close>

fun fallback_loop ::
    "8 word list \<Rightarrow> nat \<Rightarrow> 8 word list \<Rightarrow> nat \<Rightarrow> nat \<Rightarrow> (nat \<times> 8 word list) option" where
  "fallback_loop losChars maxByteLen block idx 0 = Some (idx, block)"
| "fallback_loop losChars maxByteLen block idx (Suc k) =
     do { c \<leftarrow> rd losChars idx;
          if c \<noteq> 0 then do {
            block \<leftarrow> (if maxByteLen \<noteq> 0 then wr block idx c else Some block);
            fallback_loop losChars maxByteLen block (idx + 1) k }
          else Some (idx, block) }"

definition CFToASCIILatin1Fallback ::
    "16 word \<Rightarrow> 8 word list \<Rightarrow> nat \<Rightarrow> (nat \<times> 8 word list) option" where
  "CFToASCIILatin1Fallback character block maxByteLen =
     (if character < 0xA0 then None
      else do {
        losChars \<leftarrow> rd toLossyASCIITable (unat (character - 0xA0));
        fallback_loop losChars maxByteLen block 0
          (if maxByteLen \<noteq> 0 \<and> maxByteLen < 4 then maxByteLen else 4) })"

definition CFDefaultToUnicodeFallbackProc ::
    "16 word list \<Rightarrow> nat \<Rightarrow> (nat \<times> nat \<times> 16 word list) option" where
  "CFDefaultToUnicodeFallbackProc block maxCharLen =
     do { block \<leftarrow> (if maxCharLen \<noteq> 0 then wr block 0 0x3F else Some block); Some (1, 1, block) }"

subsection \<open>Tables\<close>

fun ascending :: "'a::linorder list \<Rightarrow> bool" where
  "ascending (x # y # zs) \<longleftrightarrow> x < y \<and> ascending (y # zs)"
| "ascending xs \<longleftrightarrow> True"

lemma ascending_iff: "ascending xs \<longleftrightarrow> sorted_wrt (<) xs"
proof (induction xs rule: ascending.induct)
  case (1 x y zs)
  then show ?case by (auto intro: less_trans)
qed simp_all

lemma ascending_nth:
  "ascending (map fst t) \<Longrightarrow> i < j \<Longrightarrow> j < length t \<Longrightarrow> fst (t ! i) < fst (t ! j)"
  by (simp add: ascending_iff sorted_wrt_iff_nth_less)

lemma ascending_distinct: "ascending (map fst t) \<Longrightarrow> distinct (map fst t)"
  unfolding ascending_iff by (induction t) (auto simp: less_le)

lemma search_8bit_eq:
  assumes "ascending (map fst t)" "0 \<le> p" "q < int (length t)"
    and "\<And>i. i < length t \<Longrightarrow> fst (t ! i) = u \<Longrightarrow> p \<le> int i \<and> int i \<le> q"
  shows "search_8bit t u p q = Some (map_of t u)"
  using assms
proof (induction t u p q rule: search_8bit.induct)
  case (1 t u p q)
  note IH_less = 1(1) and IH_greater = 1(2) and asc = 1(3) and inside = 1(6)
  show ?case
  proof (cases "p \<le> q")
    case False
    then have "u \<notin> fst ` set t" using 1(6) by (fastforce simp: in_set_conv_nth)
    then have "map_of t u = None" by (simp add: map_of_eq_None_iff)
    then show ?thesis using False by (subst search_8bit.simps) simp
  next
    case True
    define d where "d = nat (p + (q - p) div 2)"
    have d: "int d = p + (q - p) div 2" "p \<le> int d" "int d \<le> q" "d < length t"
      using True 1(4,5) by (auto simp: d_def)
    obtain k c where kc: "t ! d = (k, c)" by (cases "t ! d")
    have rd': "rdi t (int d) = Some (k, c)" using d(4) kc by (simp add: rdi_int)
    note rd = rd' [unfolded d(1)]
    consider "u < k" | "k < u" | "u = k" by (rule linorder_cases)
    then show ?thesis
    proof cases
      case 1
      have "i < d" if "i < length t" "fst (t ! i) = u" for i
        using that 1 kc ascending_nth [OF asc, of d i] by (cases i d rule: linorder_cases) auto
      then have "\<And>i. i < length t \<Longrightarrow> fst (t ! i) = u \<Longrightarrow> p \<le> int i \<and> int i \<le> int d - 1"
        using inside by fastforce
      then have "search_8bit t u p (int d - 1) = Some (map_of t u)"
        using d(4) by (intro IH_less [OF True d(1) rd' refl 1 asc \<open>0 \<le> p\<close>]) auto
      then show ?thesis using 1 True rd d(1) by (subst search_8bit.simps) simp
    next
      case 2
      have "d < i" if "i < length t" "fst (t ! i) = u" for i
        using that 2 kc ascending_nth [OF asc, of i d] d(4)
        by (cases i d rule: linorder_cases) auto
      then have "\<And>i. i < length t \<Longrightarrow> fst (t ! i) = u \<Longrightarrow> int d + 1 \<le> int i \<and> int i \<le> q"
        using inside by fastforce
      then have "search_8bit t u (int d + 1) q = Some (map_of t u)"
        using \<open>0 \<le> p\<close> \<open>q < int (length t)\<close> d(2)
        by (intro IH_greater [OF True d(1) rd' refl _ 2 asc]) (use 2 in auto)
      then show ?thesis using 2 True rd d(1) less_not_sym [OF 2]
        by (subst search_8bit.simps) (simp add: Let_def)
    next
      case 3
      have "map_of t u = Some c"
        using ascending_distinct [OF \<open>ascending (map fst t)\<close>] d(4) kc 3 by (metis map_of_eq_Some_iff nth_mem)
      then show ?thesis using 3 True rd by (subst search_8bit.simps) simp
    qed
  qed
qed


lemma lookup_8bit:
  assumes "ascending (map fst t)" "t \<noteq> []"
  shows "CFStringEncodingUnicodeTo8BitEncoding t (length t) u = Some (map_of t u)"
proof -
  have ends: "fst (t ! 0) \<le> fst (t ! i)" "fst (t ! i) \<le> fst (t ! (length t - 1))" if "i < length t" for i
    using that ascending_nth [OF assms(1), of 0 i] ascending_nth [OF assms(1), of i "length t - 1"]
    by (cases "i = 0"; cases "i = length t - 1"; fastforce)+
  have rdi: "rdi t (int (length t) - 1) = Some (t ! (length t - 1))"
    using assms(2) rdi_int [of "length t - 1" t] by (simp add: of_nat_diff Suc_leI)
  have none: "map_of t u = None" if "u < fst (t ! 0) \<or> fst (t ! (length t - 1)) < u"
    using that ends by (fastforce simp: map_of_eq_None_iff in_set_conv_nth)
  have "search_8bit t u 0 (int (length t) - 1) = Some (map_of t u)"
    by (rule search_8bit_eq [OF assms(1)]) auto
  then show ?thesis
    using assms(2) none by (auto simp: CFStringEncodingUnicodeTo8BitEncoding_def rd_Some rdi)
qed

text \<open>The set of bytes that a table gives, as a bit mask.\<close>

definition byte_mask :: "(16 word \<times> 8 word) list \<Rightarrow> int" where
  "byte_mask t = foldr (\<lambda>e m. m OR 2 ^ unat (snd e)) t 0"

lemma bit_byte_mask: "bit (byte_mask t) k \<longleftrightarrow> (\<exists>e \<in> set t. unat (snd e) = k)"
  by (induction t) (auto simp: byte_mask_def bit_or_iff bit_exp_iff)

text \<open>\<open>double\<close> are characters that share their byte with another one.\<close>

lemma table_inverse:
  assumes "ascending (map fst t)" "t \<noteq> []"
    and "list_all (\<lambda>(u, c). u = double \<or> to_uni ! unat (c - 0x80) = u) t"
    and "bit (byte_mask (filter (\<lambda>e. fst e \<noteq> double) t)) (unat b)"
  shows "CFStringEncodingUnicodeTo8BitEncoding t (length t) (to_uni ! unat (b - 0x80)) = Some (Some b)"
proof -
  obtain u c where e: "(u, c) \<in> set t" "u \<noteq> double" "unat c = unat b"
    using assms(4) by (auto simp: bit_byte_mask)
  then have "c = b" by (simp add: word_unat_eq_iff)
  then have "to_uni ! unat (b - 0x80) = u" using assms(3) e by (auto simp: list_all_iff)
  moreover have "map_of t u = Some b"
    using ascending_distinct [OF assms(1)] e \<open>c = b\<close> by simp
  ultimately show ?thesis by (simp add: lookup_8bit [OF assms(1,2)])
qed

lemma table_converse:
  assumes "ascending (map fst t)" "t \<noteq> []"
    and "list_all (\<lambda>(u, c). u = double \<or> to_uni ! unat (c - 0x80) = u) t"
    and "CFStringEncodingUnicodeTo8BitEncoding t (length t) u = Some (Some b)" "u \<noteq> double"
  shows "to_uni ! unat (b - 0x80) = u" "(u, b) \<in> set t"
proof -
  show "(u, b) \<in> set t"
    using assms(4) ascending_distinct [OF assms(1)] by (auto simp: lookup_8bit [OF assms(1,2)] dest: map_of_SomeD)
  then show "to_uni ! unat (b - 0x80) = u" using assms(3,5) by (auto simp: list_all_iff)
qed

lemma mac_roman_table:
  "ascending (map fst macRoman_from_uni)" "length macRoman_from_uni = NUM_MACROMAN_FROM_UNI"
  "list_all (\<lambda>(u, c). u = 0x2126 \<or> macRoman_to_uni ! unat (c - 0x80) = u) macRoman_from_uni"
  "byte_mask (filter (\<lambda>e. fst e \<noteq> 0x2126) macRoman_from_uni) = push_bit 128 (mask 128)"
  "list_all (\<lambda>u. 0x80 \<le> u) macRoman_to_uni" "length macRoman_to_uni = 128"
  "list_all (\<lambda>(u, c). 0x80 \<le> c) macRoman_from_uni" "map_of macRoman_from_uni 0x2126 = Some 0xBD"
  unfolding macRoman_from_uni_def macRoman_to_uni_def NUM_MACROMAN_FROM_UNI_def
  by (simp_all add: byte_mask_def push_bit_eq_mult mask_eq_exp_minus_1)

lemma cp1252_table:
  "ascending (map fst cp1252_from_uni)" "length cp1252_from_uni = NUM_1252_FROM_UNI"
  "list_all (\<lambda>(u, c). u = 0 \<or> cp1252_to_uni ! unat (c - 0x80) = u) cp1252_from_uni"
  "byte_mask (filter (\<lambda>e. fst e \<noteq> 0) cp1252_from_uni) = push_bit 128 0xDFFE5FFD"
  "list_all (\<lambda>u. 0xFF < u) cp1252_to_uni" "length cp1252_to_uni = 32"
  "list_all (\<lambda>(u, c). 0x80 \<le> c \<and> c \<le> 0x9F) cp1252_from_uni"
  unfolding cp1252_from_uni_def cp1252_to_uni_def NUM_1252_FROM_UNI_def
  by (simp_all add: byte_mask_def push_bit_eq_mult)

lemma cp1252_cover: "list_all (\<lambda>i. cp1252_to_uni ! i = 0xFFFD \<or> bit (0xDFFE5FFD :: int) i) [0..<32]"
  by code_simp

lemma next_step_table:
  "ascending (map fst nextstep_from_tab)" "length nextstep_from_tab = NUM_NEXTSTEP_FROM_UNI"
  "list_all (\<lambda>(u, c). u = 0xFFFD \<or> NSToPrecompUnicodeTable ! unat (c - 0x80) = u) nextstep_from_tab"
  "byte_mask (filter (\<lambda>e. fst e \<noteq> 0xFFFD) nextstep_from_tab) = push_bit 128 (mask 126)"
  "list_all (\<lambda>u. 0x80 \<le> u \<and> u \<noteq> 0x2029) NSToPrecompUnicodeTable" "length NSToPrecompUnicodeTable = 128"
  "NSToPrecompUnicodeTable ! 126 = 0xFFFD" "NSToPrecompUnicodeTable ! 127 = 0xFFFD"
  "list_all (\<lambda>(u, c). 0x80 \<le> c) nextstep_from_tab" "map_of nextstep_from_tab 0xFFFD = Some 0xFF"
  unfolding nextstep_from_tab_def NSToPrecompUnicodeTable_def NUM_NEXTSTEP_FROM_UNI_def
  by (simp_all add: byte_mask_def push_bit_eq_mult mask_eq_exp_minus_1)

subsection \<open>Characters and bytes\<close>

lemma ucast_byte [simp]: "ucast (ucast (b :: 8 word) :: 16 word) = b"
  by (rule bit_word_eqI) (auto simp: bit_simps)

lemma unat_ucast_byte: "unat (ucast (b :: 8 word) :: 16 word) = unat b"
  using unsigned_less [of b, where 'a = nat] by (simp add: unsigned_ucast_eq take_bit_nat_eq_self)

lemma ucast_byte_less: "(ucast (b :: 8 word) :: 16 word) < 0x80 \<longleftrightarrow> b < 0x80"
  "(ucast (b :: 8 word) :: 16 word) \<le> 0xFF" "0x9F < (ucast (b :: 8 word) :: 16 word) \<longleftrightarrow> 0x9F < b"
  using unsigned_less [of b, where 'a = nat]
  by (simp_all add: word_less_nat_alt word_le_nat_alt unat_ucast_byte)

lemma ucast_char: "u \<le> 0xFF \<Longrightarrow> ucast (ucast (u :: 16 word) :: 8 word) = u"
  by (simp add: word_unat_eq_iff unsigned_ucast_eq unsigned_take_bit_eq word_le_nat_alt take_bit_nat_eq_self)

lemma ucast_char_less: "u \<le> 0xFF \<Longrightarrow> (ucast (u :: 16 word) :: 8 word) < 0x80 \<longleftrightarrow> u < 0x80"
  "u \<le> 0xFF \<Longrightarrow> 0x9F < (ucast (u :: 16 word) :: 8 word) \<longleftrightarrow> 0x9F < u"
  by (simp_all add: word_less_nat_alt word_le_nat_alt unsigned_ucast_eq take_bit_nat_eq_self)

lemma high_byte:
  assumes "\<not> (b :: 8 word) < 0x80"
  shows "unat (b - 0x80) = unat b - 128" "unat b - 128 < 128" "128 \<le> unat b"
  using assms unsigned_less [of b, where 'a = nat]
  by (simp_all add: word_less_nat_alt unat_sub word_le_nat_alt)

lemma bit_masked: "bit (push_bit 128 (mask n) :: int) k \<longleftrightarrow> 128 \<le> k \<and> k < 128 + n"
  by (auto simp: bit_simps)

text \<open>What the two directions of an eight-bit encoding promise each other.  \<open>None\<close> on the outside is an
  access outside a table, on the inside a character or byte that cannot be converted.\<close>

locale eight_bit =
  fixes to_byte :: "16 word \<Rightarrow> 8 word option option"
    and from_byte :: "8 word \<Rightarrow> 16 word option option"
  assumes to_defined: "to_byte u \<noteq> None"
    and from_defined: "from_byte b \<noteq> None"
    and from_to: "from_byte b = Some (Some u) \<Longrightarrow> to_byte u = Some (Some b)"

lemma tables_not_Nil: "macRoman_from_uni \<noteq> []" "cp1252_from_uni \<noteq> []" "nextstep_from_tab \<noteq> []"
  using mac_roman_table(2) cp1252_table(2) next_step_table(2)
  by (auto simp: NUM_MACROMAN_FROM_UNI_def NUM_1252_FROM_UNI_def NUM_NEXTSTEP_FROM_UNI_def)

lemma cp1252_no_replacement: "list_all (\<lambda>(u, c). u \<noteq> 0xFFFD) cp1252_from_uni"
  unfolding cp1252_from_uni_def by simp

lemma ascii_from_to: "CFFromASCII b = Some (Some u) \<Longrightarrow> CFToASCII mp u = Some (Some b)"
  by (auto simp: CFFromASCII_def CFToASCII_def ucast_byte_less split: if_splits)

lemma iso_from_to: "CFFromISOLatin1 b = Some (Some u) \<Longrightarrow> CFToISOLatin1 mp u = Some (Some b)"
  by (auto simp: CFFromISOLatin1_def CFToISOLatin1_def ucast_byte_less)

lemma mac_from_to:
  assumes "CFFromMacRoman b = Some (Some u)"
  shows "CFToMacRoman u = Some (Some b)"
proof (cases "b < 0x80")
  case True
  then show ?thesis using assms by (auto simp: CFFromMacRoman_def CFToMacRoman_def ucast_byte_less)
next
  case False
  then have u: "u = macRoman_to_uni ! unat (b - 0x80)" "0x80 \<le> u"
    using assms high_byte(1,2) [OF False] mac_roman_table(5,6)
    by (auto simp: CFFromMacRoman_def rd_Some list_all_length)
  have "CFStringEncodingUnicodeTo8BitEncoding macRoman_from_uni (length macRoman_from_uni) u = Some (Some b)"
    unfolding u(1) using mac_roman_table(1,3) high_byte(2,3) [OF False]
    by (intro table_inverse [where double = "0x2126"])
      (auto simp: mac_roman_table(4) bit_masked tables_not_Nil)
  then show ?thesis using u(2) by (simp add: CFToMacRoman_def mac_roman_table(2) not_less [symmetric])
qed


lemma win_from_to:
  assumes "CFFromWinLatin1 b = Some (Some u)"
  shows "CFToWinLatin1 u = Some (Some b)"
proof (cases "b < 0x80 \<or> 0x9F < b")
  case True
  then have "u = ucast b" using assms by (auto simp: CFFromWinLatin1_def split: if_splits)
  then show ?thesis using True by (auto simp: CFToWinLatin1_def ucast_byte_less)
next
  case False
  then have ge: "\<not> b < 0x80" and "unat b \<le> 159" by (simp_all add: word_less_nat_alt)
  then have range: "unat b - 128 < 32" by linarith
  have u: "u = cp1252_to_uni ! unat (b - 0x80)" "u \<noteq> 0xFFFD" "0xFF < u"
    using assms False high_byte(1) [OF ge] range cp1252_table(5,6)
    by (auto simp: CFFromWinLatin1_def rd_Some list_all_length split: if_splits)
  have "bit (0xDFFE5FFD :: int) (unat b - 128)"
    using cp1252_cover range u(1,2) high_byte(1) [OF ge] by (auto simp: list_all_iff)
  then have "bit (byte_mask (filter (\<lambda>e. fst e \<noteq> 0) cp1252_from_uni)) (unat b)"
    unfolding cp1252_table(4) bit_push_bit_iff using high_byte(3) [OF ge] by simp
  then have "CFStringEncodingUnicodeTo8BitEncoding cp1252_from_uni (length cp1252_from_uni) u = Some (Some b)"
    unfolding u(1) using cp1252_table(1,3) tables_not_Nil(2) by (intro table_inverse [where double = 0])
  then show ?thesis using u(3) by (auto simp: CFToWinLatin1_def cp1252_table(2) word_less_nat_alt word_le_nat_alt)
qed

lemma next_step_from_to:
  assumes "CFFromNextStepLatin b = Some (Some u)"
  shows "CFToNextStepLatin mp u = Some (Some b)"
proof (cases "b < 0x80")
  case True
  then have "u = ucast b" using assms by (auto simp: CFFromNextStepLatin_def split: if_splits)
  then show ?thesis using True by (auto simp: CFToNextStepLatin_def ucast_byte_less)
next
  case False
  note b = high_byte [OF False]
  then have u: "u = NSToPrecompUnicodeTable ! unat (b - 0x80)" "u \<noteq> 0xFFFD" "0x80 \<le> u" "u \<noteq> 0x2029"
    using assms False next_step_table(5,6)
    by (auto simp: CFFromNextStepLatin_def rd_Some list_all_length split: if_splits)
  have "unat b - 128 \<noteq> 126" "unat b - 128 \<noteq> 127" using u(1,2) b(1) next_step_table(7,8) by metis+
  then have "CFStringEncodingUnicodeTo8BitEncoding nextstep_from_tab (length nextstep_from_tab) u = Some (Some b)"
    unfolding u(1) using next_step_table(1,3) b(2,3)
    by (intro table_inverse [where double = "0xFFFD"])
      (auto simp: next_step_table(4) bit_masked tables_not_Nil)
  then show ?thesis
    using u(3,4) by (simp add: CFToNextStepLatin_def CFIsParagraphSeparator_def ParagraphSeparator_def
        next_step_table(2) not_less [symmetric])
qed

text \<open>In the other direction a few characters share their byte with another one.\<close>

lemma mac_to_from:
  assumes "CFToMacRoman u = Some (Some b)" "u \<noteq> 0x2126"
  shows "CFFromMacRoman b = Some (Some u)"
proof (cases "u < 0x80")
  case True
  then have "b = ucast u" "u \<le> 0xFF" using assms by (auto simp: CFToMacRoman_def word_less_nat_alt word_le_nat_alt)
  then show ?thesis using True by (simp add: CFFromMacRoman_def ucast_char ucast_char_less)
next
  case False
  then have "CFStringEncodingUnicodeTo8BitEncoding macRoman_from_uni (length macRoman_from_uni) u = Some (Some b)"
    using assms(1) by (simp add: CFToMacRoman_def mac_roman_table(2))
  from table_converse [OF mac_roman_table(1) tables_not_Nil(1) mac_roman_table(3) this assms(2)]
  have *: "macRoman_to_uni ! unat (b - 0x80) = u" "\<not> b < 0x80"
    using mac_roman_table(7) by (auto simp: list_all_iff not_less)
  then show ?thesis using high_byte(1,2) [OF *(2)] mac_roman_table(6)
    by (simp add: CFFromMacRoman_def rd_Some)
qed

lemma win_to_from:
  assumes "CFToWinLatin1 u = Some (Some b)"
  shows "CFFromWinLatin1 b = Some (Some u)"
proof (cases "u < 0x80 \<or> 0x9F < u \<and> u \<le> 0xFF")
  case True
  then have "b = ucast u" "u \<le> 0xFF" using assms by (auto simp: CFToWinLatin1_def word_less_nat_alt word_le_nat_alt)
  moreover from this(2) have "u \<noteq> 0xFFFD" by auto
  ultimately show ?thesis using True by (auto simp: CFFromWinLatin1_def ucast_char ucast_char_less)
next
  case False
  then have find: "CFStringEncodingUnicodeTo8BitEncoding cp1252_from_uni (length cp1252_from_uni) u = Some (Some b)"
    using assms by (auto simp: CFToWinLatin1_def cp1252_table(2) split: if_splits)
  have "u \<noteq> 0" using False by auto
  from table_converse [OF cp1252_table(1) tables_not_Nil(2) cp1252_table(3) find this]
  have *: "cp1252_to_uni ! unat (b - 0x80) = u" "\<not> b < 0x80" "\<not> 0x9F < b" "(u, b) \<in> set cp1252_from_uni"
    using cp1252_table(7) by (auto simp: list_all_iff not_less)
  moreover have "u \<noteq> 0xFFFD" using cp1252_no_replacement *(4) by (auto simp: list_all_iff)
  moreover have "unat (b - 0x80) < 32" 
  proof -
    have "unat b \<le> 159" using *(3) by (simp add: word_less_nat_alt)
    then show ?thesis unfolding high_byte(1) [OF *(2)] by linarith
  qed
  ultimately show ?thesis using cp1252_table(6) by (simp add: CFFromWinLatin1_def rd_Some)
qed

lemma next_step_to_from:
  assumes "CFToNextStepLatin mp u = Some (Some b)" "u \<noteq> 0x2029" "u \<noteq> 0xFFFD"
  shows "CFFromNextStepLatin b = Some (Some u)"
proof (cases "u < 0x80")
  case True
  then have "b = ucast u" "u \<le> 0xFF" using assms by (auto simp: CFToNextStepLatin_def word_less_nat_alt word_le_nat_alt)
  then show ?thesis using True assms(3) by (simp add: CFFromNextStepLatin_def ucast_char ucast_char_less)
next
  case False
  then have "CFStringEncodingUnicodeTo8BitEncoding nextstep_from_tab (length nextstep_from_tab) u = Some (Some b)"
    using assms(1,2) by (simp add: CFToNextStepLatin_def CFIsParagraphSeparator_def ParagraphSeparator_def
        next_step_table(2))
  from table_converse [OF next_step_table(1) tables_not_Nil(3) next_step_table(3) this assms(3)]
  have *: "NSToPrecompUnicodeTable ! unat (b - 0x80) = u" "\<not> b < 0x80"
    using next_step_table(9) by (auto simp: list_all_iff not_less)
  then show ?thesis using high_byte(1,2) [OF *(2)] next_step_table(6) assms(3)
    by (simp add: CFFromNextStepLatin_def rd_Some)
qed

lemma ascii_to_from:
  assumes "CFToASCII mp u = Some (Some b)" "u \<noteq> 0x2029"
  shows "CFFromASCII b = Some (Some u)"
proof -
  have u: "u < 0x80" "b = ucast u"
    using assms by (auto simp: CFToASCII_def CFIsParagraphSeparator_def ParagraphSeparator_def split: if_splits)
  then have "u \<le> 0xFF" by (simp add: word_less_nat_alt word_le_nat_alt)
  then show ?thesis using u by (simp add: CFFromASCII_def ucast_char ucast_char_less)
qed

lemma iso_to_from: "CFToISOLatin1 mp u = Some (Some b) \<Longrightarrow> u \<noteq> 0x2029 \<Longrightarrow> CFFromISOLatin1 b = Some (Some u)"
  by (auto simp: CFToISOLatin1_def CFFromISOLatin1_def CFIsParagraphSeparator_def ParagraphSeparator_def ucast_char
      split: if_splits)

lemma mac_defined: "CFToMacRoman u \<noteq> None" "CFFromMacRoman b \<noteq> None"
  using lookup_8bit [OF mac_roman_table(1) tables_not_Nil(1), of u] high_byte [of b] mac_roman_table(6)
  by (auto simp: CFToMacRoman_def CFFromMacRoman_def mac_roman_table(2) rd_Some)

lemma win_defined: "CFToWinLatin1 u \<noteq> None" "CFFromWinLatin1 b \<noteq> None"
proof -
  show "CFToWinLatin1 u \<noteq> None"
    using lookup_8bit [OF cp1252_table(1) tables_not_Nil(2), of u] by (auto simp: CFToWinLatin1_def cp1252_table(2))
  have "unat (b - 0x80) < 32" if "\<not> b < 0x80" "\<not> 0x9F < b"
  proof -
    have "unat b \<le> 159" using that(2) by (simp add: word_less_nat_alt)
    then show ?thesis unfolding high_byte(1) [OF that(1)] by linarith
  qed
  then show "CFFromWinLatin1 b \<noteq> None" using cp1252_table(6) by (auto simp: CFFromWinLatin1_def rd_Some)
qed

lemma next_step_defined: "CFToNextStepLatin mp u \<noteq> None" "CFFromNextStepLatin b \<noteq> None"
  using lookup_8bit [OF next_step_table(1) tables_not_Nil(3), of u] high_byte [of b] next_step_table(6)
  by (auto simp: CFToNextStepLatin_def CFFromNextStepLatin_def next_step_table(2) rd_Some)

subsection \<open>Texts\<close>

lemma cheap_loop_ok:
  assumes "\<And>x. conv x \<noteq> None" "i + k \<le> length text" "m \<noteq> 0 \<longrightarrow> i + k \<le> length block"
  shows "\<exists>ys. cheap_loop conv text m block i k
      = Some (i + length ys, if m = 0 then block else overwritten block i ys)
    \<and> length ys \<le> k \<and> (length ys < k \<longrightarrow> conv (text ! (i + length ys)) = Some None)
    \<and> (\<forall>j < length ys. conv (text ! (i + j)) = Some (Some (ys ! j)))"
  using assms(2,3)
proof (induction k arbitrary: i block)
  case 0
  then show ?case by (intro exI [of _ "[]"]) simp
next
  case (Suc k)
  obtain r where r: "conv (text ! i) = Some r" using assms(1) by blast
  have rd: "rd text i = Some (text ! i)" using Suc.prems by (simp add: rd_Some)
  show ?case
  proof (cases r)
    case None
    then show ?thesis using r rd by (intro exI [of _ "[]"]) simp
  next
    case (Some y)
    let ?block = "if m = 0 then block else block[i := y]"
    obtain ys where ys: "cheap_loop conv text m ?block (Suc i) k
        = Some (Suc i + length ys, if m = 0 then ?block else overwritten ?block (Suc i) ys)"
      "length ys \<le> k" "length ys < k \<longrightarrow> conv (text ! (Suc i + length ys)) = Some None"
      "\<forall>j < length ys. conv (text ! (Suc i + j)) = Some (Some (ys ! j))"
      using Suc.IH [of "Suc i" ?block] Suc.prems by auto
    have "m \<noteq> 0 \<Longrightarrow> overwritten (block[i := y]) (Suc i) ys = overwritten block i (y # ys)"
      using overwritten_append [of i "[y]" ys block] ys(2) Suc.prems by (simp add: update_overwritten)
    moreover have "\<forall>j < Suc (length ys). conv (text ! (i + j)) = Some (Some ((y # ys) ! j))"
      using ys(4) r Some by (auto simp: less_Suc_eq_0_disj)
    ultimately show ?thesis
      using ys Suc.prems r Some rd by (intro exI [of _ "y # ys"]) (auto simp: wr_Some)
  qed
qed


text \<open>The interface of an eight-bit encoding, its text conversions proved once for all of them.\<close>

context eight_bit begin

lemma text_round_trip:
  assumes "n \<le> length text" "0 < m" "m \<le> length block" "m \<le> length block'"
  shows "\<exists>k units bytes. k \<le> min m n
    \<and> CFToUnicodeCheapEightBitWrapper from_byte text n block m = Some (k, k, units)
    \<and> (k < min m n \<longrightarrow> from_byte (text ! k) = Some None)
    \<and> CFToBytesCheapEightBitWrapper to_byte units k block' m = Some (k, k, bytes)
    \<and> take k bytes = take k text"
proof -
  let ?n = "if m \<noteq> 0 \<and> m < n then m else n"
  have n: "?n = min m n" using assms(2) by simp
  have room: "0 + ?n \<le> length text" "m \<noteq> 0 \<longrightarrow> 0 + ?n \<le> length block" using assms by auto
  obtain us where us: "cheap_loop from_byte text m block 0 ?n = Some (length us, overwritten block 0 us)"
    "length us \<le> ?n" "length us < ?n \<longrightarrow> from_byte (text ! length us) = Some None"
    "\<forall>j < length us. from_byte (text ! j) = Some (Some (us ! j))"
    using cheap_loop_ok [of from_byte, OF from_defined room] assms(2) by auto
  let ?units = "overwritten block 0 us" and ?k = "length us"
  have k: "?k \<le> m" "?k \<le> length text" "?k \<le> length ?units" "(if m \<noteq> 0 \<and> m < ?k then m else ?k) = ?k"
  proof -
    have "?k \<le> m \<and> ?k \<le> n" using us(2) assms(2) by (auto split: if_splits)
    then show "?k \<le> m" "?k \<le> length text" "?k \<le> length ?units" "(if m \<noteq> 0 \<and> m < ?k then m else ?k) = ?k"
      using assms by (auto simp: overwritten_def)
  qed
  have units: "?units ! j = us ! j" if "j < ?k" for j using that by (simp add: overwritten_def nth_append)
  have room': "0 + ?k \<le> length ?units" "m \<noteq> 0 \<longrightarrow> 0 + ?k \<le> length block'" using k assms by auto
  obtain bs where bs: "cheap_loop to_byte ?units m block' 0 ?k = Some (length bs, overwritten block' 0 bs)"
    "length bs \<le> ?k" "length bs < ?k \<longrightarrow> to_byte (?units ! length bs) = Some None"
    "\<forall>j < length bs. to_byte (?units ! j) = Some (Some (bs ! j))"
    using cheap_loop_ok [of to_byte, OF to_defined room'] assms(2) by auto
  have to: "to_byte (?units ! j) = Some (Some (text ! j))" if "j < ?k" for j
    using that us(4) from_to units by simp
  have "\<not> length bs < ?k" using bs(3) to [of "length bs"] by auto
  then have len: "length bs = ?k" using bs(2) by linarith
  then have "bs = take ?k text" using bs(4) to k(2) by (intro nth_equalityI) simp_all
  then have "take ?k (overwritten block' 0 bs) = take ?k text" using len by (simp add: overwritten_def)
  then show ?thesis
    using us(1-3) bs(1) len k(4) n
    by (intro exI [of _ ?k] exI [of _ ?units] exI [of _ "overwritten block' 0 bs"])
      (simp add: CFToUnicodeCheapEightBitWrapper_def CFToBytesCheapEightBitWrapper_def)
qed

end

interpretation ascii: eight_bit "CFToASCII mp" CFFromASCII
  by unfold_locales (simp_all add: ascii_from_to, simp_all add: CFToASCII_def CFFromASCII_def)

interpretation iso_latin1: eight_bit "CFToISOLatin1 mp" CFFromISOLatin1
  by unfold_locales (simp_all add: iso_from_to, simp_all add: CFToISOLatin1_def CFFromISOLatin1_def)

interpretation mac_roman: eight_bit CFToMacRoman CFFromMacRoman
  by unfold_locales (simp_all add: mac_from_to mac_defined)

interpretation win_latin1: eight_bit CFToWinLatin1 CFFromWinLatin1
  by unfold_locales (simp_all add: win_from_to win_defined)

interpretation next_step: eight_bit "CFToNextStepLatin mp" CFFromNextStepLatin
  by unfold_locales (simp_all add: next_step_from_to next_step_defined)

text \<open>The encodings, each with the characters that share their byte with another one.\<close>

definition eight_bit_encodings ::
    "bool \<Rightarrow> ((16 word \<Rightarrow> 8 word option option) \<times> (8 word \<Rightarrow> 16 word option option) \<times> 16 word set) set" where
  "eight_bit_encodings mp =
     {(CFToASCII mp, CFFromASCII, {0x2029}), (CFToISOLatin1 mp, CFFromISOLatin1, {0x2029}),
      (CFToMacRoman, CFFromMacRoman, {0x2126}), (CFToWinLatin1, CFFromWinLatin1, {}),
      (CFToNextStepLatin mp, CFFromNextStepLatin, {0x2029, 0xFFFD})}"

lemma encodings_inverse:
  "(to, from, shared) \<in> eight_bit_encodings mp \<Longrightarrow> to u = Some (Some b) \<Longrightarrow> u \<notin> shared \<Longrightarrow> from b = Some (Some u)"
  by (auto simp: eight_bit_encodings_def
      intro: ascii_to_from iso_to_from mac_to_from win_to_from next_step_to_from)

lemma encodings_eight_bit: "(to, from, shared) \<in> eight_bit_encodings mp \<Longrightarrow> eight_bit to from"
  by (auto simp: eight_bit_encodings_def ascii.eight_bit_axioms iso_latin1.eight_bit_axioms
      mac_roman.eight_bit_axioms win_latin1.eight_bit_axioms next_step.eight_bit_axioms)

subsection \<open>The lossy fallback\<close>

lemma lossy_table:
  "length toLossyASCIITable = 96" "list_all (\<lambda>row. length row = 4 \<and> list_all (\<lambda>c. c < 0x80) row) toLossyASCIITable"
  unfolding toLossyASCIITable_def by simp_all

lemma fallback_loop_ok:
  assumes "i + k \<le> length row" "m \<noteq> 0 \<longrightarrow> i + k \<le> length block"
  shows "fallback_loop row m block i k =
    (let bs = takeWhile (\<lambda>c. c \<noteq> 0) (take k (drop i row))
     in Some (i + length bs, if m = 0 then block else overwritten block i bs))"
  using assms
proof (induction k arbitrary: i block)
  case 0
  then show ?case by simp
next
  case (Suc k)
  have row: "take (Suc k) (drop i row) = row ! i # take k (drop (Suc i) row)" "rd row i = Some (row ! i)"
    using Suc.prems by (simp_all add: take_Suc_drop rd_Some)
  show ?case
  proof (cases "row ! i = 0")
    case True
    then show ?thesis by (simp add: row)
  next
    case False
    let ?bs = "takeWhile (\<lambda>c. c \<noteq> 0) (take k (drop (Suc i) row))"
    have len: "length ?bs \<le> k" using length_takeWhile_le [of "\<lambda>c. c \<noteq> 0" "take k (drop (Suc i) row)"] by simp
    have "m \<noteq> 0 \<Longrightarrow> overwritten (block[i := row ! i]) (Suc i) ?bs = overwritten block i (row ! i # ?bs)"
      using overwritten_append [of i "[row ! i]" ?bs block] len Suc.prems by (simp add: update_overwritten)
    then show ?thesis
      using False Suc.prems Suc.IH [of "Suc i" "if m = 0 then block else block[i := row ! i]"]
      by (cases "m = 0") (simp_all add: row wr_Some Let_def)
  qed
qed

lemma latin1_fallback_run:
  assumes "0xA0 \<le> u" "u \<le> 0xFF" "m \<noteq> 0 \<longrightarrow> m \<le> length block"
  shows "\<exists>bs. CFToASCIILatin1Fallback u block m
      = Some (length bs, if m = 0 then block else bs @ drop (length bs) block)
    \<and> bs = takeWhile (\<lambda>c. c \<noteq> 0) (take (if m = 0 then 4 else m) (toLossyASCIITable ! (unat u - 0xA0)))
    \<and> (\<forall>c \<in> set bs. c < 0x80)"
proof -
  let ?row = "toLossyASCIITable ! (unat u - 0xA0)" and ?k = "if m \<noteq> 0 \<and> m < 4 then m else 4"
  have i: "unat (u - 0xA0) = unat u - 0xA0" "unat u - 0xA0 < 96"
    using assms(1,2) by (simp_all add: unat_sub word_le_nat_alt)
  then have row: "length ?row = 4" "\<forall>c \<in> set ?row. c < 0x80" "rd toLossyASCIITable (unat (u - 0xA0)) = Some ?row"
    using lossy_table by (auto simp: list_all_length rd_Some in_set_conv_nth)
  let ?bs = "takeWhile (\<lambda>c. c \<noteq> 0) (take ?k ?row)"
  have "fallback_loop ?row m block 0 ?k = Some (length ?bs, if m = 0 then block else overwritten block 0 ?bs)"
    using fallback_loop_ok [of 0 ?k ?row m block] row(1) assms(3) by (auto simp: Let_def)
  moreover have "take ?k ?row = take (if m = 0 then 4 else m) ?row" using row(1) by simp
  moreover have "\<forall>c \<in> set ?bs. c < 0x80" using row(2) by (auto dest!: set_takeWhileD in_set_takeD)
  ultimately show ?thesis
    using assms(1) row(3) by (intro exI [of _ ?bs])
      (simp add: CFToASCIILatin1Fallback_def overwritten_def not_less [symmetric])
qed

subsection \<open>Properties\<close>

text \<open>The binary search in a table whose characters ascend strictly reads only inside the table, ends, and
  finds the byte of the character, or nothing when the table does not have it.\<close>

theorem eight_bit_search:
  assumes "sorted_wrt (<) (map fst t)" "t \<noteq> []"
  shows "CFStringEncodingUnicodeTo8BitEncoding t (length t) u = Some (map_of t u)"
  using assms by (intro lookup_8bit) (simp_all add: ascending_iff)

theorem eight_bit_search_witness:
  "CFStringEncodingUnicodeTo8BitEncoding [(0x00A0, 0xCA), (0x00A1, 0xC1), (0x2026, 0xC9)] 3 0x2026 = Some (Some 0xC9)"
  using eight_bit_search [of "[(0x00A0, 0xCA), (0x00A1, 0xC1), (0x2026, 0xC9)]" "0x2026"]
  by (simp add: numeral_3_eq_3 [symmetric])

text \<open>C26: The two directions of each of the five encodings agree, over all their tables: a byte that stands for a
  character is what that character is converted to, and a character that is converted to a byte is what the
  byte stands for, except for the characters listed with the encoding, which share their byte with another one.\<close>

theorem eight_bit_inverse:
  assumes "(to, from, shared) \<in> eight_bit_encodings mp"
  shows "(from b = Some (Some u) \<longrightarrow> to u = Some (Some b))
    \<and> (to u = Some (Some b) \<longrightarrow> u \<notin> shared \<longrightarrow> from b = Some (Some u))"
  using eight_bit.from_to [OF encodings_eight_bit [OF assms]] encodings_inverse [OF assms] by blast

theorem eight_bit_inverse_witness:
  "CFToMacRoman 0x00C4 = Some (Some 0x80)"
proof -
  have "(CFToMacRoman, CFFromMacRoman, {0x2126}) \<in> eight_bit_encodings True" by (simp add: eight_bit_encodings_def)
  moreover have "CFFromMacRoman 0x80 = Some (Some 0x00C4)"
    by (simp add: CFFromMacRoman_def macRoman_to_uni_def rd_def)
  ultimately show ?thesis using eight_bit_inverse by blast
qed

text \<open>Through the wrappers, in each of the five encodings: bytes are converted to characters up to the first
  byte that stands for none, or up to the limit of the block, and converting those characters gives the same
  bytes back; no access leaves the blocks.\<close>

theorem eight_bit_text_round_trip:
  assumes "(to, from, shared) \<in> eight_bit_encodings mp"
    and "n \<le> length text" "0 < m" "m \<le> length block" "m \<le> length block'"
  shows "\<exists>k units bytes. k \<le> min m n
    \<and> CFToUnicodeCheapEightBitWrapper from text n block m = Some (k, k, units)
    \<and> (k < min m n \<longrightarrow> from (text ! k) = Some None)
    \<and> CFToBytesCheapEightBitWrapper to units k block' m = Some (k, k, bytes)
    \<and> take k bytes = take k text"
  by (rule eight_bit.text_round_trip [OF encodings_eight_bit [OF assms(1)] assms(2-5)])

theorem eight_bit_text_round_trip_witness:
  "\<exists>k units bytes. k \<le> min 5 3
    \<and> CFToUnicodeCheapEightBitWrapper CFFromWinLatin1 [0x41, 0x80, 0x81] 3 (replicate 5 0) 5 = Some (k, k, units)
    \<and> (k < min 5 3 \<longrightarrow> CFFromWinLatin1 ([0x41, 0x80, 0x81] ! k) = Some None)
    \<and> CFToBytesCheapEightBitWrapper CFToWinLatin1 units k (replicate 6 0) 5 = Some (k, k, bytes)
    \<and> take k bytes = take k [0x41, 0x80, 0x81]"
  by (rule eight_bit_text_round_trip [of _ _ "{}" True]) (simp_all add: eight_bit_encodings_def)

text \<open>The lossy fallback for the characters U+00A0 to U+00FF reads inside its table and writes the ASCII bytes
  of the character's entry, at most four and at most as many as the block takes.\<close>

theorem eight_bit_fallback:
  assumes "0xA0 \<le> u" "u \<le> 0xFF" "m \<noteq> 0 \<longrightarrow> m \<le> length block"
  shows "\<exists>bs. CFToASCIILatin1Fallback u block m
      = Some (length bs, if m = 0 then block else bs @ drop (length bs) block)
    \<and> bs = takeWhile (\<lambda>c. c \<noteq> 0) (take (if m = 0 then 4 else m) (toLossyASCIITable ! (unat u - 0xA0)))
    \<and> (\<forall>c \<in> set bs. c < 0x80)"
  using assms by (rule latin1_fallback_run)

theorem eight_bit_fallback_witness:
  "\<exists>bs. CFToASCIILatin1Fallback 0x00A9 [7, 8] 2 = Some (length bs, if (2::nat) = 0 then [7, 8] else bs @ drop (length bs) [7, 8])
    \<and> bs = takeWhile (\<lambda>c. c \<noteq> 0) (take (if (2::nat) = 0 then 4 else 2) (toLossyASCIITable ! (unat (0x00A9 :: 16 word) - 0xA0)))
    \<and> (\<forall>c \<in> set bs. c < 0x80)"
  by (rule eight_bit_fallback) simp_all

text \<open>When it only measures, the wrapper for canonical forms does not get past the first character that has a
  decomposition: it reports the bytes before it as all there are.\<close>

theorem eight_bit_canonical_count:
  assumes "\<forall>j < i. \<exists>u. toUnicode (text ! j) = Some (Some u) \<and> \<not> decomposable (ucast u) hfs"
    and "i < n" "n \<le> length text" "toUnicode (text ! i) = Some (Some u)" "decomposable (ucast u) hfs"
    and "decompose (ucast u) \<noteq> []" "hfs = (flags AND kCFStringEncodingUseHFSPlusCanonical \<noteq> 0)"
  shows "CFToCanonicalUnicodeCheapEightBitWrapper toUnicode decomposable decompose flags text n block 0
    = Some (i, i, block)"
proof -
  have emit: "canonical_emit (decompose (ucast u)) 0 used c block = Some (False, used, c, block)" for used c
    using assms(6) by (cases "decompose (ucast u)") auto
  have "canonical_loop toUnicode decomposable decompose hfs text 0 block p p c k = Some (i, i, block)"
    if "p \<le> i" "p + k = n" for p c k
    using that
  proof (induction k arbitrary: p)
    case (Suc k)
    show ?case
    proof (cases "p = i")
      case True
      then show ?thesis using assms(2-5) emit by (simp add: rd_Some)
    next
      case False
      then obtain v where "toUnicode (text ! p) = Some (Some v)" "\<not> decomposable (ucast v) hfs"
        using assms(1) Suc.prems(1) by (metis le_neq_implies_less)
      then show ?thesis using Suc False assms(2,3) by (simp add: rd_Some)
    qed
  qed (use assms(2) in simp)
  from this [of 0 n 0] show ?thesis
    by (simp add: CFToCanonicalUnicodeCheapEightBitWrapper_def assms(7))
qed

theorem eight_bit_canonical_count_witness:
  "CFToCanonicalUnicodeCheapEightBitWrapper CFFromISOLatin1 (\<lambda>c _. c = 0xC4) (\<lambda>_. [0x41, 0x308]) 64 [0x41, 0xC4, 0x42] 3 [] 0
    = Some (1, 1, [])"
  by (rule eight_bit_canonical_count [where hfs = False and u = "0xC4"])
    (simp_all add: CFFromISOLatin1_def kCFStringEncodingUseHFSPlusCanonical_def)

end
