(* ===== verification/CF_Converter.thy ===== *)
theory CF_Converter
  imports CF_EightBit
begin

text \<open>
  The conversion of texts, CFStringEncodingConverter.c: the converter of an encoding, the table of converters,
  and the two functions that drive a converter through a text, \<open>CFStringEncodingUnicodeToBytes\<close> and
  \<open>CFStringEncodingBytesToUnicode\<close>, with their fallbacks, substitutes and combining characters.  They call the
  converters of CF_UTF8 and CF_EightBit.

  The converters outside the program (of the platform, of ICU) and the Unicode property tables are parameters.
  Their \<open>external\<close> converters only have the classes \<open>PlatformSpecific\<close> and \<open>ICU\<close>, so that no converter has the
  classes StandardEightBit and CheapMultiByte.  A loop that need not end is a partial function into an option:
  \<open>None\<close> says that it does not end, \<open>Some Undefined\<close> that it leaves the defined behaviour of C.
\<close>

subsection \<open>Data\<close>

definition kCFStringEncodingSubstituteCombinings :: "32 word" where
  "kCFStringEncodingSubstituteCombinings = 8"

definition kCFStringEncodingComposeCombinings :: "32 word" where
  "kCFStringEncodingComposeCombinings = 16"

definition kCFStringEncodingIgnoreCombinings :: "32 word" where
  "kCFStringEncodingIgnoreCombinings = 32"

definition CFStringEncodingMaskToLossyByte :: "32 word \<Rightarrow> 8 word" where
  "CFStringEncodingMaskToLossyByte flags = ucast (drop_bit 24 flags)"

definition CFStringEncodingLossyByteToMask :: "8 word \<Rightarrow> 32 word" where
  "CFStringEncodingLossyByteToMask lossByte = push_bit 24 (ucast lossByte) OR kCFStringEncodingAllowLossyConversion"

datatype conversion_result = ConversionSuccess | InvalidInputStream | InsufficientOutputBufferLength
  | ConverterUnavailable

text \<open>The Unicode property tables, and whether U+2029 is mapped.\<close>

record unicode_data =
  whitespace :: "32 word \<Rightarrow> bool"
  whitespace_newline :: "32 word \<Rightarrow> bool"
  decomposable_set :: "32 word \<Rightarrow> bool"
  nonbase :: "32 word \<Rightarrow> bool"
  precompose :: "32 word \<Rightarrow> 32 word \<Rightarrow> 32 word"
  decomposable :: "32 word \<Rightarrow> bool \<Rightarrow> bool"
  decompose :: "32 word \<Rightarrow> 32 word list"
  maps_paragraph :: bool

text \<open>The functions of a converter.  Those that read a text take its memory and a length, those that write take
  the block and the room in it, 0 if the output is only to be measured; they return the characters (bytes)
  consumed, the bytes (characters) produced, and the block.  The type of the two conversion functions depends
  on the class of the encoding.\<close>

type_synonym to_bytes_proc =
  "32 word \<Rightarrow> 16 word list \<Rightarrow> nat \<Rightarrow> 8 word list \<Rightarrow> nat \<Rightarrow> (nat \<times> nat \<times> 8 word list) option"
type_synonym to_unicode_proc =
  "32 word \<Rightarrow> 8 word list \<Rightarrow> nat \<Rightarrow> 16 word list \<Rightarrow> nat \<Rightarrow> (nat \<times> nat \<times> 16 word list) option"
type_synonym to_bytes_fallback =
  "16 word list \<Rightarrow> nat \<Rightarrow> 8 word list \<Rightarrow> nat \<Rightarrow> (nat \<times> nat \<times> 8 word list) option"
type_synonym to_unicode_fallback =
  "8 word list \<Rightarrow> nat \<Rightarrow> 16 word list \<Rightarrow> nat \<Rightarrow> (nat \<times> nat \<times> 16 word list) option"
type_synonym precompose_proc =
  "16 word list \<Rightarrow> nat \<Rightarrow> 8 word list \<Rightarrow> nat \<Rightarrow> (nat \<times> nat option \<times> 8 word list) option"

datatype conversion_procs =
    Standard to_bytes_proc to_unicode_proc
  | CheapEightBit "16 word \<Rightarrow> 8 word option option" "8 word \<Rightarrow> 16 word option option"
  | PlatformSpecific
  | ICU

record CFStringEncodingConverter =
  procs :: conversion_procs
  maxBytesPerChar :: nat
  maxDecomposedCharLen :: nat
  toBytesLen :: "(32 word \<Rightarrow> 16 word list \<Rightarrow> nat \<Rightarrow> nat option) option"
  toUnicodeLen :: "(32 word \<Rightarrow> 8 word list \<Rightarrow> nat \<Rightarrow> nat option) option"
  defToBytesFallback :: "to_bytes_fallback option"
  defToUnicodeFallback :: "to_unicode_fallback option"
  toBytesPrecompose :: "precompose_proc option"
  isValidCombiningChar :: "(16 word \<Rightarrow> bool option) option"

text \<open>An entry of the table of converters; a fallback that is \<open>None\<close> is a null pointer.\<close>

record CFEncodingConverter =
  conv_definition :: CFStringEncodingConverter
  toBytesFallback :: "to_bytes_fallback option"
  toUnicodeFallback :: "to_unicode_fallback option"

text \<open>A pointer into the middle of a text or of a block: what a function does to the rest, seen from the
  beginning.  A precomposing function reads at most the given number of characters.\<close>

definition at_offset :: "nat \<Rightarrow> ('c list \<Rightarrow> ('a \<times> 'b \<times> 'c list) option) \<Rightarrow> 'c list \<Rightarrow> ('a \<times> 'b \<times> 'c list) option" where
  "at_offset k f block = map_option (\<lambda>(a, b, rest). (a, b, take k block @ rest)) (f (drop k block))"

definition of_characters ::
    "(16 word list \<Rightarrow> 8 word list \<Rightarrow> nat \<Rightarrow> (nat \<times> nat option \<times> 8 word list) option) \<Rightarrow> precompose_proc" where
  "of_characters f text numChars block maxByteLen =
     (if numChars \<le> length text then f (take numChars text) block maxByteLen else None)"

subsection \<open>The default fallback\<close>

text \<open>One character (or pair) that the encoding does not have; the recursive call is for the first character of
  a decomposition.\<close>

partial_function (option) CFDefaultToBytesFallbackProc ::
    "unicode_data \<Rightarrow> 16 word list \<Rightarrow> nat \<Rightarrow> 8 word list \<Rightarrow> nat \<Rightarrow> (nat \<times> nat \<times> 8 word list) option" where
  "CFDefaultToBytesFallbackProc ud text numChars block maxByteLen =
     do { c \<leftarrow> rd text 0;
          let store = (\<lambda>n (byte :: 8 word) filled.
            do { block \<leftarrow> (if maxByteLen \<noteq> 0 then wr block 0 byte else Some block);
                 Some (n :: nat, filled :: nat, block) });
          if c < 0xA0 then store 1 (ucast (c - 0x80)) 1
          else if c < 0x100 then
            map_option (\<lambda>(used, block). (1, used, block)) (CFToASCIILatin1Fallback c block maxByteLen)
          else if ucast kSurrogateHighStart \<le> c \<and> c \<le> ucast kSurrogateLowEnd then do {
            n \<leftarrow> (if 1 < numChars \<and> c \<le> ucast kSurrogateLowStart
                  then map_option (\<lambda>c'. if ucast kSurrogateLowStart \<le> c' \<and> c' \<le> ucast kSurrogateLowEnd then 2 else 1)
                    (rd text 1)
                  else Some 1);
            store n 0x3F 1 }
          else if whitespace ud (ucast c) then store 1 0x20 1
          else if whitespace_newline ud (ucast c) then store 1 ASCIINewLine 1
          else if c = 0x2026 then
            if maxByteLen = 0 then store 1 0x3F 3
            else if 2 < maxByteLen then
              map_option (\<lambda>block. (1, 3, block)) (mem_write block 0 [0x2E, 0x2E, 0x2E])
            else store 1 0x3F 1
          else if decomposable_set ud (ucast c) then do {
            first \<leftarrow> rd (decompose ud (ucast c)) 0;
            if first < 0x80 then store 1 (ucast first) 1
            else CFDefaultToBytesFallbackProc ud [ucast first] 1 block maxByteLen }
          else store 1 0x3F 1 }"

subsection \<open>The converters\<close>

definition CFConverterASCII :: "unicode_data \<Rightarrow> CFStringEncodingConverter" where
  "CFConverterASCII ud =
     \<lparr>procs = CheapEightBit (CFToASCII (maps_paragraph ud)) CFFromASCII, maxBytesPerChar = 1,
      maxDecomposedCharLen = 1, toBytesLen = None, toUnicodeLen = None, defToBytesFallback = None,
      defToUnicodeFallback = None, toBytesPrecompose = None, isValidCombiningChar = None\<rparr>"

definition CFConverterISOLatin1 :: "unicode_data \<Rightarrow> CFStringEncodingConverter" where
  "CFConverterISOLatin1 ud =
     \<lparr>procs = CheapEightBit (CFToISOLatin1 (maps_paragraph ud)) CFFromISOLatin1, maxBytesPerChar = 1,
      maxDecomposedCharLen = 1, toBytesLen = None, toUnicodeLen = None, defToBytesFallback = None,
      defToUnicodeFallback = None,
      toBytesPrecompose =
        Some (of_characters (CFToISOLatin1Precompose (maps_paragraph ud) (nonbase ud) (precompose ud))),
      isValidCombiningChar = Some CFStringEncodingIsValidCombiningCharacterForLatin1\<rparr>"

definition CFConverterMacRoman :: "unicode_data \<Rightarrow> CFStringEncodingConverter" where
  "CFConverterMacRoman ud =
     \<lparr>procs = CheapEightBit CFToMacRoman CFFromMacRoman, maxBytesPerChar = 1,
      maxDecomposedCharLen = 1, toBytesLen = None, toUnicodeLen = None, defToBytesFallback = None,
      defToUnicodeFallback = None,
      toBytesPrecompose = Some (of_characters (CFToMacRomanPrecompose (nonbase ud) (precompose ud))),
      isValidCombiningChar = Some CFStringEncodingIsValidCombiningCharacterForLatin1\<rparr>"

definition CFConverterWinLatin1 :: "unicode_data \<Rightarrow> CFStringEncodingConverter" where
  "CFConverterWinLatin1 ud =
     \<lparr>procs = CheapEightBit CFToWinLatin1 CFFromWinLatin1, maxBytesPerChar = 1,
      maxDecomposedCharLen = 1, toBytesLen = None, toUnicodeLen = None, defToBytesFallback = None,
      defToUnicodeFallback = None,
      toBytesPrecompose = Some (of_characters (CFToWinLatin1Precompose (nonbase ud) (precompose ud))),
      isValidCombiningChar = Some CFStringEncodingIsValidCombiningCharacterForLatin1\<rparr>"

definition CFConverterNextStepLatin :: "unicode_data \<Rightarrow> CFStringEncodingConverter" where
  "CFConverterNextStepLatin ud =
     \<lparr>procs = CheapEightBit (CFToNextStepLatin (maps_paragraph ud)) CFFromNextStepLatin, maxBytesPerChar = 1,
      maxDecomposedCharLen = 1, toBytesLen = None, toUnicodeLen = None, defToBytesFallback = None,
      defToUnicodeFallback = None,
      toBytesPrecompose =
        Some (of_characters (CFToNextStepLatinPrecompose (maps_paragraph ud) (nonbase ud) (precompose ud))),
      isValidCombiningChar = Some CFStringEncodingIsValidCombiningCharacterForLatin1\<rparr>"

definition CFConverterUTF8 :: "unicode_data \<Rightarrow> CFStringEncodingConverter" where
  "CFConverterUTF8 ud =
     \<lparr>procs = Standard CFToUTF8 (\<lambda>flags. CFFromUTF8 flags (decomposable ud) (decompose ud)), maxBytesPerChar = 3,
      maxDecomposedCharLen = 2,
      toBytesLen = Some (\<lambda>flags text numChars.
        if numChars \<le> length text then Some (CFToUTF8Len (take numChars text)) else None),
      toUnicodeLen = Some (\<lambda>flags. CFFromUTF8Len flags (decomposable ud) (decompose ud)),
      defToBytesFallback = None, defToUnicodeFallback = None, toBytesPrecompose = None,
      isValidCombiningChar = None\<rparr>"

subsection \<open>The table of converters\<close>

definition kCFStringEncodingMacRoman :: "32 word" where
  "kCFStringEncodingMacRoman = 0"

definition kCFStringEncodingWindowsLatin1 :: "32 word" where
  "kCFStringEncodingWindowsLatin1 = 0x0500"

definition kCFStringEncodingISOLatin1 :: "32 word" where
  "kCFStringEncodingISOLatin1 = 0x0201"

definition kCFStringEncodingNextStepLatin :: "32 word" where
  "kCFStringEncodingNextStepLatin = 0x0B01"

definition kCFStringEncodingASCII :: "32 word" where
  "kCFStringEncodingASCII = 0x0600"

definition kCFStringEncodingUTF8 :: "32 word" where
  "kCFStringEncodingUTF8 = 0x08000100"

text \<open>\<open>external\<close> is \<open>__CFStringEncodingGetExternalConverter\<close>.\<close>

definition CFStringEncodingConverterGetDefinition ::
    "unicode_data \<Rightarrow> (32 word \<Rightarrow> CFStringEncodingConverter option) \<Rightarrow> 32 word \<Rightarrow> CFStringEncodingConverter option" where
  "CFStringEncodingConverterGetDefinition ud external encoding =
     (if encoding = kCFStringEncodingUTF8 then Some (CFConverterUTF8 ud)
      else if encoding = kCFStringEncodingMacRoman then Some (CFConverterMacRoman ud)
      else if encoding = kCFStringEncodingWindowsLatin1 then Some (CFConverterWinLatin1 ud)
      else if encoding = kCFStringEncodingASCII then Some (CFConverterASCII ud)
      else if encoding = kCFStringEncodingISOLatin1 then Some (CFConverterISOLatin1 ud)
      else if encoding = kCFStringEncodingNextStepLatin then Some (CFConverterNextStepLatin ud)
      else external encoding)"

text \<open>The static variables: the blocks of entries allocated so far (a pointer to an entry is the number of its
  block and its index), \<open>_currentIndex\<close>, \<open>_allocatedSize\<close>, \<open>_allocatedEntries\<close>, the common converters,
  the mapping table, and \<open>__CFToUTF8\<close> of \<open>CFStringEncodingUnicodeToBytes\<close>.  Calls are serialised by the lock.\<close>

type_synonym converter_ref = "nat \<times> nat"

record converter_table =
  blocks :: "CFEncodingConverter option list list"
  currentIndex :: nat
  allocatedSize :: nat
  allocatedEntries :: "nat option"
  commonConverters :: "converter_ref option list"
  mappingTable :: "32 word \<rightharpoonup> converter_ref"
  toUTF8 :: "to_bytes_proc option"

definition initial_table :: converter_table where
  "initial_table = \<lparr>blocks = [], currentIndex = 0, allocatedSize = 0, allocatedEntries = None,
     commonConverters = [None, None, None], mappingTable = Map.empty, toUTF8 = None\<rparr>"

definition NUM_OF_ENTRIES_CYCLE :: nat where
  "NUM_OF_ENTRIES_CYCLE = 10"

definition converter_at :: "converter_table \<Rightarrow> converter_ref \<Rightarrow> CFEncodingConverter option" where
  "converter_at tb r = do { block \<leftarrow> rd (blocks tb) (fst r); entry \<leftarrow> rd block (snd r); entry }"

definition set_converter :: "converter_ref \<Rightarrow> CFEncodingConverter \<Rightarrow> converter_table \<Rightarrow> converter_table option" where
  "set_converter r conv tb =
     do { block \<leftarrow> rd (blocks tb) (fst r);
          block \<leftarrow> wr block (snd r) (Some conv);
          bs \<leftarrow> wr (blocks tb) (fst r) block;
          Some (tb\<lparr>blocks := bs\<rparr>) }"

text \<open>What is stored in a new entry.\<close>

definition new_converter :: "unicode_data \<Rightarrow> CFStringEncodingConverter \<Rightarrow> CFEncodingConverter" where
  "new_converter ud def =
     \<lparr>conv_definition = def,
      toBytesFallback = Some (case defToBytesFallback def of None \<Rightarrow> CFDefaultToBytesFallbackProc ud | Some f \<Rightarrow> f),
      toUnicodeFallback =
        Some (case defToUnicodeFallback def of
                None \<Rightarrow> (\<lambda>text numBytes. CFDefaultToUnicodeFallbackProc) | Some f \<Rightarrow> f)\<rparr>"

definition CFEncodingConverterFromDefinition ::
    "unicode_data \<Rightarrow> CFStringEncodingConverter \<Rightarrow> converter_table \<Rightarrow> (converter_ref \<times> converter_table) option" where
  "CFEncodingConverterFromDefinition ud def tb =
     (let tb = (if allocatedSize tb \<le> currentIndex tb + 1
                then tb\<lparr>currentIndex := 0, allocatedSize := 0, allocatedEntries := None\<rparr> else tb);
          (r, tb) =
            (case allocatedEntries tb of
               None \<Rightarrow>
                 ((length (blocks tb), currentIndex tb),
                  tb\<lparr>blocks := blocks tb @ [replicate NUM_OF_ENTRIES_CYCLE None],
                     allocatedEntries := Some (length (blocks tb)), allocatedSize := NUM_OF_ENTRIES_CYCLE\<rparr>)
             | Some b \<Rightarrow> ((b, currentIndex tb + 1), tb\<lparr>currentIndex := currentIndex tb + 1\<rparr>))
      in map_option (Pair r) (set_converter r (new_converter ud def) tb))"

text \<open>The slot for common encodings, on the platforms where the encoding of slot 1 is ISO Latin 1.  The system
  encoding is a constant parameter: that \<open>CFStringGetSystemEncoding\<close> determines it on its first call, and may look
  up a converter itself, is not modelled.\<close>

definition common_slot :: "32 word \<Rightarrow> 32 word \<Rightarrow> nat option" where
  "common_slot systemEncoding encoding =
     (if encoding = kCFStringEncodingUTF8 then Some 0
      else if encoding = kCFStringEncodingISOLatin1 then Some 1
      else if systemEncoding = encoding then Some 2
      else None)"

definition CFGetConverter ::
    "unicode_data \<Rightarrow> (32 word \<Rightarrow> CFStringEncodingConverter option) \<Rightarrow> 32 word \<Rightarrow> 32 word \<Rightarrow> converter_table
      \<Rightarrow> (converter_ref option \<times> converter_table) option" where
  "CFGetConverter ud external systemEncoding encoding tb =
     do { converter \<leftarrow>
            (case common_slot systemEncoding encoding of
               None \<Rightarrow> Some (mappingTable tb encoding)
             | Some i \<Rightarrow> rd (commonConverters tb) i);
          case converter of
            Some r \<Rightarrow> Some (Some r, tb)
          | None \<Rightarrow>
              (case CFStringEncodingConverterGetDefinition ud external encoding of
                 None \<Rightarrow> Some (None, tb)
               | Some def \<Rightarrow>
                   do { (r, tb) \<leftarrow> CFEncodingConverterFromDefinition ud def tb;
                        case common_slot systemEncoding encoding of
                          None \<Rightarrow> Some (Some r, tb\<lparr>mappingTable := (mappingTable tb)(encoding \<mapsto> r)\<rparr>)
                        | Some i \<Rightarrow>
                            do { common \<leftarrow> wr (commonConverters tb) i (Some r);
                                 Some (Some r, tb\<lparr>commonConverters := common\<rparr>) } }) }"

definition CFStringEncodingGetConverter ::
    "unicode_data \<Rightarrow> (32 word \<Rightarrow> CFStringEncodingConverter option) \<Rightarrow> 32 word \<Rightarrow> 32 word \<Rightarrow> converter_table
      \<Rightarrow> (CFStringEncodingConverter option \<times> converter_table) option" where
  "CFStringEncodingGetConverter ud external systemEncoding encoding tb =
     do { (r, tb) \<leftarrow> CFGetConverter ud external systemEncoding encoding tb;
          case r of
            None \<Rightarrow> Some (None, tb)
          | Some r \<Rightarrow> map_option (\<lambda>conv. (Some (conv_definition conv), tb)) (converter_at tb r) }"

definition CFStringEncodingIsValidEncoding ::
    "unicode_data \<Rightarrow> (32 word \<Rightarrow> CFStringEncodingConverter option) \<Rightarrow> 32 word \<Rightarrow> 32 word \<Rightarrow> converter_table
      \<Rightarrow> (bool \<times> converter_table) option" where
  "CFStringEncodingIsValidEncoding ud external systemEncoding encoding tb =
     map_option (\<lambda>(def, tb). (def \<noteq> None, tb)) (CFStringEncodingGetConverter ud external systemEncoding encoding tb)"

definition CFStringEncodingRegisterFallbackProcedures ::
    "unicode_data \<Rightarrow> (32 word \<Rightarrow> CFStringEncodingConverter option) \<Rightarrow> 32 word \<Rightarrow> 32 word
      \<Rightarrow> to_bytes_fallback option \<Rightarrow> to_unicode_fallback option \<Rightarrow> converter_table \<Rightarrow> converter_table option" where
  "CFStringEncodingRegisterFallbackProcedures ud external systemEncoding encoding toBytes toUnicode tb =
     do { (r, tb) \<leftarrow> CFGetConverter ud external systemEncoding encoding tb;
          case r of
            None \<Rightarrow> Some tb
          | Some r \<Rightarrow>
              do { (body, tb) \<leftarrow> CFStringEncodingGetConverter ud external systemEncoding encoding tb;
                   conv \<leftarrow> converter_at tb r;
                   set_converter r
                     (conv\<lparr>toBytesFallback :=
                             (case toBytes of
                                None \<Rightarrow> (case body of None \<Rightarrow> Some (CFDefaultToBytesFallbackProc ud)
                                          | Some def \<Rightarrow> defToBytesFallback def)
                              | Some f \<Rightarrow> Some f),
                           toUnicodeFallback :=
                             (case toUnicode of
                                None \<Rightarrow> (case body of None \<Rightarrow> Some (\<lambda>text numBytes. CFDefaultToUnicodeFallbackProc)
                                          | Some def \<Rightarrow> defToUnicodeFallback def)
                              | Some f \<Rightarrow> Some f)\<rparr>) tb } }"

subsection \<open>Driving a converter\<close>

definition is_set :: "32 word \<Rightarrow> 32 word \<Rightarrow> bool" where
  "is_set flags flag \<longleftrightarrow> flags AND flag \<noteq> 0"

definition TO_BYTE ::
    "CFEncodingConverter \<Rightarrow> 32 word \<Rightarrow> 16 word list \<Rightarrow> nat \<Rightarrow> 8 word list \<Rightarrow> nat \<Rightarrow> (nat \<times> nat \<times> 8 word list) option" where
  "TO_BYTE conv flags text numChars block maxLen =
     (case procs (conv_definition conv) of
        Standard toBytes toUnicode \<Rightarrow> toBytes flags text numChars block maxLen
      | CheapEightBit toBytes toUnicode \<Rightarrow> CFToBytesCheapEightBitWrapper toBytes text numChars block maxLen
      | _ \<Rightarrow> None)"

definition TO_UNICODE ::
    "unicode_data \<Rightarrow> CFEncodingConverter \<Rightarrow> 32 word \<Rightarrow> 8 word list \<Rightarrow> nat \<Rightarrow> 16 word list \<Rightarrow> nat
      \<Rightarrow> (nat \<times> nat \<times> 16 word list) option" where
  "TO_UNICODE ud conv flags text numBytes block maxLen =
     (case procs (conv_definition conv) of
        Standard toBytes toUnicode \<Rightarrow> toUnicode flags text numBytes block maxLen
      | CheapEightBit toBytes toUnicode \<Rightarrow>
          if is_set flags (kCFStringEncodingUseCanonical OR kCFStringEncodingUseHFSPlusCanonical)
          then CFToCanonicalUnicodeCheapEightBitWrapper toUnicode (decomposable ud) (decompose ud) flags
                 text numBytes block maxLen
          else CFToUnicodeCheapEightBitWrapper toUnicode text numBytes block maxLen
      | _ \<Rightarrow> None)"

definition TO_BYTE_FALLBACK ::
    "CFEncodingConverter \<Rightarrow> 16 word list \<Rightarrow> nat \<Rightarrow> 8 word list \<Rightarrow> nat \<Rightarrow> (nat \<times> nat \<times> 8 word list) option" where
  "TO_BYTE_FALLBACK conv text numChars block maxLen =
     (case toBytesFallback conv of None \<Rightarrow> None | Some f \<Rightarrow> f text numChars block maxLen)"

definition TO_UNICODE_FALLBACK ::
    "CFEncodingConverter \<Rightarrow> 8 word list \<Rightarrow> nat \<Rightarrow> 16 word list \<Rightarrow> nat \<Rightarrow> (nat \<times> nat \<times> 16 word list) option" where
  "TO_UNICODE_FALLBACK conv text numBytes block maxLen =
     (case toUnicodeFallback conv of None \<Rightarrow> None | Some f \<Rightarrow> f text numBytes block maxLen)"

text \<open>Loops need not end.\<close>

datatype 'a outcome = Undefined | Returns 'a

partial_function (option) iterate :: "('s \<Rightarrow> ('s + 'r) option) \<Rightarrow> 's \<Rightarrow> 'r outcome option" where
  "iterate step s =
     (case step s of
        None \<Rightarrow> Some Undefined
      | Some (Inl s) \<Rightarrow> iterate step s
      | Some (Inr r) \<Rightarrow> Some (Returns r))"

subsection \<open>From characters to bytes\<close>

text \<open>\<open>while (isValidCombiningChar(characters[--usedLen]));\<close>, \<open>while (isValidCombiningChar(characters[++usedLen]));\<close>
  and \<open>while ((++usedLen < numChars) && isValidCombiningChar(characters[usedLen]));\<close>\<close>

primrec base_before :: "(16 word \<Rightarrow> bool option) \<Rightarrow> 16 word list \<Rightarrow> nat \<Rightarrow> nat option" where
  "base_before isValid text 0 = None"
| "base_before isValid text (Suc i) =
     do { c \<leftarrow> rd text i; mark \<leftarrow> isValid c; if mark then base_before isValid text i else Some i }"

primrec marks_from :: "(16 word \<Rightarrow> bool option) \<Rightarrow> 16 word list \<Rightarrow> nat option" where
  "marks_from isValid [] = None"
| "marks_from isValid (c # text) =
     do { mark \<leftarrow> isValid c; if mark then map_option Suc (marks_from isValid text) else Some 0 }"

primrec marks_within :: "(16 word \<Rightarrow> bool option) \<Rightarrow> 16 word list \<Rightarrow> nat \<Rightarrow> nat \<Rightarrow> nat option" where
  "marks_within isValid text i 0 = Some i"
| "marks_within isValid text i (Suc k) =
     do { c \<leftarrow> rd text i; mark \<leftarrow> isValid c; if mark then marks_within isValid text (i + 1) k else Some i }"

text \<open>The loop that passes over characters for which the fallback writes nothing.\<close>

function skip_unwritten :: "CFEncodingConverter \<Rightarrow> 16 word list \<Rightarrow> nat \<Rightarrow> nat \<Rightarrow> nat option" where
  "skip_unwritten conv text numChars usedLen =
     (if usedLen < numChars then
        (case TO_BYTE_FALLBACK conv (drop usedLen text) (numChars - usedLen) [] 0 of
           None \<Rightarrow> None
         | Some (n, used, _) \<Rightarrow>
             if n = 0 then Some usedLen
             else if used \<noteq> 0 then Some (usedLen + n)
             else skip_unwritten conv text numChars (usedLen + n))
      else Some usedLen)"
  by pat_completeness auto

termination
  by (relation "measure (\<lambda>(_, _, numChars, usedLen). numChars - usedLen)") auto

declare skip_unwritten.simps [simp del]

text \<open>The local variables that change: \<open>usedLen\<close>, \<open>theUsedByteLen\<close> and the block.  A step returns them for
  the next iteration, or the result with their values.\<close>

type_synonym to_bytes_state = "nat \<times> nat \<times> 8 word list"
type_synonym to_bytes_result = "conversion_result \<times> nat \<times> nat \<times> 8 word list"

definition put_lossy :: "nat \<Rightarrow> 8 word \<Rightarrow> nat \<Rightarrow> 8 word list \<Rightarrow> 8 word list option" where
  "put_lossy maxByteLen lossyByte used block = (if maxByteLen \<noteq> 0 then wr block used lossyByte else Some block)"

definition room :: "nat \<Rightarrow> nat \<Rightarrow> nat" where
  "room maxLen used = (if maxLen \<noteq> 0 then maxLen - used else 0)"

text \<open>A character of the text is replaced by the lossy byte, or by the fallback.\<close>

definition substitute ::
    "CFEncodingConverter \<Rightarrow> 32 word \<Rightarrow> 16 word list \<Rightarrow> nat \<Rightarrow> nat \<Rightarrow> to_bytes_state
      \<Rightarrow> (to_bytes_state + to_bytes_result) option" where
  "substitute conv flags text numChars maxByteLen = (\<lambda>(usedLen, used, block).
     let lossyByte = CFStringEncodingMaskToLossyByte flags in
     if lossyByte \<noteq> 0 then do {
       block \<leftarrow> put_lossy maxByteLen lossyByte used block;
       Some (Inl (usedLen + 1, used + 1, block)) }
     else do {
       (n, localUsed, block) \<leftarrow> at_offset used (\<lambda>block. TO_BYTE_FALLBACK conv (drop usedLen text)
           (numChars - usedLen) block (room maxByteLen used)) block;
       Some (Inl (usedLen + n, used + localUsed, block)) })"

text \<open>The conversion stopped before a combining character: the base character before it is taken back and
  composed with it.  \<open>localUsed\<close> is what the conversion has just written, not yet counted in \<open>used\<close>.\<close>

definition compose_step ::
    "CFEncodingConverter \<Rightarrow> (16 word \<Rightarrow> bool option) \<Rightarrow> precompose_proc \<Rightarrow> 32 word \<Rightarrow> 16 word list \<Rightarrow> nat \<Rightarrow> nat
      \<Rightarrow> nat \<Rightarrow> to_bytes_state \<Rightarrow> (to_bytes_state + to_bytes_result) option" where
  "compose_step conv isValid pre flags text numChars maxByteLen localUsed = (\<lambda>(usedLen, used, block). do {
     base \<leftarrow> base_before isValid text usedLen;
     taken \<leftarrow> (if 1 < maxBytesPerChar (conv_definition conv)
              then map_option (\<lambda>(n, localUsed, _). localUsed) (TO_BYTE conv flags (drop base text) (usedLen - base) [] 0)
              else Some 1);
     if used + localUsed < taken then None
     else do {
       let used = used + localUsed - taken;
       (n, localUsed, block) \<leftarrow> at_offset used (\<lambda>block. pre (drop base text) (numChars - base) block
           (room maxByteLen used)) block;
       if 0 < n then do {
         localUsed \<leftarrow> localUsed;
         mark \<leftarrow> (if base + n < numChars then do { c \<leftarrow> rd text (base + n); isValid c } else Some False);
         if mark then Some (Inr (InvalidInputStream, base + n, used + localUsed, block))
         else Some (Inl (base + n, used + localUsed, block)) }
       else if is_set flags kCFStringEncodingAllowLossyConversion then
         let lossyByte = CFStringEncodingMaskToLossyByte flags in
         if lossyByte \<noteq> 0 then do {
           marks \<leftarrow> marks_from isValid (drop (base + 1) text);
           block \<leftarrow> put_lossy maxByteLen lossyByte used block;
           Some (Inl (base + 1 + marks, used + 1, block)) }
         else do {
           (n, localUsed, block) \<leftarrow> at_offset used (\<lambda>block. TO_BYTE_FALLBACK conv (drop (base + 1) text)
               (numChars - (base + 1)) block (room maxByteLen used)) block;
           Some (Inl (base + 1 + n, used + localUsed, block)) }
       else Some (Inr (InvalidInputStream, base, used, block)) } })"

text \<open>Whether the conversion stopped because the block is full.\<close>

definition filled_up ::
    "CFEncodingConverter \<Rightarrow> 32 word \<Rightarrow> 16 word list \<Rightarrow> nat \<Rightarrow> nat \<Rightarrow> nat \<Rightarrow> nat \<Rightarrow> bool option" where
  "filled_up conv flags text numChars maxByteLen usedLen used =
     (if maxByteLen = 0 then Some False
      else if maxByteLen = used then Some True
      else map_option (\<lambda>(n, _, _). n \<noteq> 0) (TO_BYTE conv flags (drop usedLen text) (numChars - usedLen) [] 0))"

text \<open>The end of the function when the block was filled up: characters that need no byte are still consumed.\<close>

definition no_room ::
    "CFEncodingConverter \<Rightarrow> 32 word \<Rightarrow> 16 word list \<Rightarrow> nat \<Rightarrow> to_bytes_state \<Rightarrow> to_bytes_result option" where
  "no_room conv flags text numChars = (\<lambda>(usedLen, used, block). do {
     usedLen \<leftarrow> (if is_set flags kCFStringEncodingAllowLossyConversion \<and> CFStringEncodingMaskToLossyByte flags = 0
                then skip_unwritten conv text numChars usedLen else Some usedLen);
     Some (if usedLen < numChars then InsufficientOutputBufferLength else ConversionSuccess, usedLen, used, block) })"

text \<open>One iteration of the loop, and what comes after it.\<close>

definition to_bytes_step ::
    "CFEncodingConverter \<Rightarrow> (16 word \<Rightarrow> bool option) option \<Rightarrow> precompose_proc option \<Rightarrow> 32 word \<Rightarrow> 16 word list
      \<Rightarrow> nat \<Rightarrow> nat \<Rightarrow> to_bytes_state \<Rightarrow> (to_bytes_state + to_bytes_result) option" where
  "to_bytes_step conv isValid pre flags text numChars maxByteLen = (\<lambda>(usedLen, used, block).
     if usedLen < numChars \<and> (maxByteLen = 0 \<or> used < maxByteLen) then do {
       (n, localUsed, block) \<leftarrow> at_offset used (\<lambda>block. TO_BYTE conv flags (drop usedLen text)
           (numChars - usedLen) block (room maxByteLen used)) block;
       let usedLen = usedLen + n;
       if usedLen < numChars then do {
         mark \<leftarrow> (case isValid of
                    None \<Rightarrow> Some False
                  | Some v \<Rightarrow> if 0 < usedLen then do { c \<leftarrow> rd text usedLen; v c } else Some False);
         if mark \<and> pre \<noteq> None then
           compose_step conv (the isValid) (the pre) flags text numChars maxByteLen localUsed (usedLen, used, block)
         else do {
           let used = used + localUsed;
           filled \<leftarrow> filled_up conv flags text numChars maxByteLen usedLen used;
           if filled then
             if mark then Some (Inr (InsufficientOutputBufferLength, usedLen, used, block))
             else map_option Inr (no_room conv flags text numChars (usedLen, used, block))
           else if mark then
             if is_set flags kCFStringEncodingIgnoreCombinings then do {
               usedLen \<leftarrow> marks_within (the isValid) text (usedLen + 1) (numChars - (usedLen + 1));
               Some (Inl (usedLen, used, block)) }
             else substitute conv flags text numChars maxByteLen (usedLen, used, block)
           else if is_set flags kCFStringEncodingAllowLossyConversion
           then substitute conv flags text numChars maxByteLen (usedLen, used, block)
           else Some (Inr (InvalidInputStream, usedLen, used, block)) } }
       else Some (Inl (usedLen, used + localUsed, block)) }
     else if usedLen < numChars \<and> maxByteLen \<noteq> 0
     then map_option Inr (no_room conv flags text numChars (usedLen, used, block))
     else Some (Inr (ConversionSuccess, usedLen, used, block)))"

definition combining_procs ::
    "CFStringEncodingConverter \<Rightarrow> 32 word \<Rightarrow> (16 word \<Rightarrow> bool option) option \<times> precompose_proc option \<times> 32 word" where
  "combining_procs def flags =
     (if is_set flags kCFStringEncodingSubstituteCombinings
      then (if is_set flags kCFStringEncodingAllowLossyConversion then None else isValidCombiningChar def, None, flags)
      else if is_set flags kCFStringEncodingIgnoreCombinings then (isValidCombiningChar def, None, flags)
      else (isValidCombiningChar def, toBytesPrecompose def, flags OR kCFStringEncodingComposeCombinings))"

definition convert_to_bytes ::
    "CFEncodingConverter \<Rightarrow> 32 word \<Rightarrow> 16 word list \<Rightarrow> nat \<Rightarrow> 8 word list \<Rightarrow> nat \<Rightarrow> to_bytes_result outcome option" where
  "convert_to_bytes conv flags text numChars block maxByteLen =
     (let (isValid, pre, flags) = combining_procs (conv_definition conv) flags
      in iterate (to_bytes_step conv isValid pre flags text numChars maxByteLen) (0, 0, block))"

text \<open>UTF-8 is converted at once.  \<open>decompose_utf8\<close> is \<open>CFUniCharDecompose\<close>, for the flags that ask for canonical
  forms.\<close>

definition utf8_result :: "16 word list \<Rightarrow> nat \<Rightarrow> nat \<Rightarrow> nat \<Rightarrow> nat \<Rightarrow> conversion_result option" where
  "utf8_result text numChars convertedCharLen usedLen maxByteLen =
     (if convertedCharLen = numChars then Some ConversionSuccess
      else if 0 < maxByteLen \<and> maxByteLen < usedLen + 10 then do {
        c \<leftarrow> rd text convertedCharLen;
        lone \<leftarrow> (if CFUniCharIsSurrogateLowCharacter c then Some True
                else if CFUniCharIsSurrogateHighCharacter c then
                  if numChars = convertedCharLen + 1 then Some True
                  else map_option (\<lambda>c'. c' < ucast kSurrogateLowStart \<or> ucast kSurrogateLowEnd < c')
                         (rd text (convertedCharLen + 1))
                else Some False);
        Some (if lone then InvalidInputStream else InsufficientOutputBufferLength) }
      else Some InvalidInputStream)"

text \<open>The first conversion looks up the converter of UTF-8, which may enter it into the table, and keeps its
  function in the static variable.\<close>

definition utf8_procedure ::
    "unicode_data \<Rightarrow> (32 word \<Rightarrow> CFStringEncodingConverter option) \<Rightarrow> 32 word \<Rightarrow> converter_table
      \<Rightarrow> (to_bytes_proc \<times> converter_table) option" where
  "utf8_procedure ud external systemEncoding tb =
     (case toUTF8 tb of
        Some f \<Rightarrow> Some (f, tb)
      | None \<Rightarrow>
          do { (utf8Converter, tb) \<leftarrow> CFStringEncodingGetConverter ud external systemEncoding kCFStringEncodingUTF8 tb;
               def \<leftarrow> utf8Converter;
               case procs def of
                 Standard toBytes toUnicode \<Rightarrow> Some (toBytes, tb\<lparr>toUTF8 := Some toBytes\<rparr>)
               | _ \<Rightarrow> None })"

definition returns :: "'a option \<Rightarrow> 'a outcome option" where
  "returns r = Some (case r of None \<Rightarrow> Undefined | Some r \<Rightarrow> Returns r)"

definition convert_to_utf8 ::
    "unicode_data \<Rightarrow> (32 word \<Rightarrow> CFStringEncodingConverter option) \<Rightarrow> to_bytes_proc
      \<Rightarrow> 32 word \<Rightarrow> converter_table \<Rightarrow> 32 word \<Rightarrow> 16 word list \<Rightarrow> nat \<Rightarrow> 8 word list \<Rightarrow> nat
      \<Rightarrow> (to_bytes_result outcome option \<times> converter_table) option" where
  "convert_to_utf8 ud external decompose_utf8 systemEncoding tb flags text numChars block maxByteLen =
     do { (convert, tb) \<leftarrow>
            (if is_set flags kCFStringEncodingUseCanonical \<or> is_set flags kCFStringEncodingUseHFSPlusCanonical
             then Some (decompose_utf8 flags, tb)
             else do { (f, tb) \<leftarrow> utf8_procedure ud external systemEncoding tb; Some (f 0, tb) });
          Some (returns
            (do { (convertedCharLen, usedLen, block) \<leftarrow> convert text numChars block maxByteLen;
                  result \<leftarrow> utf8_result text numChars convertedCharLen usedLen maxByteLen;
                  Some (result, convertedCharLen, usedLen, block) }), tb) }"

definition external_class :: "CFStringEncodingConverter \<Rightarrow> bool" where
  "external_class def = (case procs def of PlatformSpecific \<Rightarrow> True | ICU \<Rightarrow> True | _ \<Rightarrow> False)"

text \<open>The whole function, and the table of converters after it.  When no converter is found nothing is stored;
  \<open>external_to_bytes\<close> stands for the converters of ICU and of the platform.\<close>

definition CFStringEncodingUnicodeToBytes ::
    "unicode_data \<Rightarrow> (32 word \<Rightarrow> CFStringEncodingConverter option) \<Rightarrow> to_bytes_proc
      \<Rightarrow> (32 word \<Rightarrow> 32 word \<Rightarrow> 16 word list \<Rightarrow> nat \<Rightarrow> 8 word list \<Rightarrow> nat \<Rightarrow> to_bytes_result outcome option)
      \<Rightarrow> 32 word \<Rightarrow> converter_table \<Rightarrow> 32 word \<Rightarrow> 32 word \<Rightarrow> 16 word list \<Rightarrow> nat \<Rightarrow> 8 word list \<Rightarrow> nat
      \<Rightarrow> (to_bytes_result outcome option \<times> converter_table) option" where
  "CFStringEncodingUnicodeToBytes ud external decompose_utf8 external_to_bytes systemEncoding tb encoding flags
     text numChars block maxByteLen =
     (if encoding = kCFStringEncodingUTF8
      then convert_to_utf8 ud external decompose_utf8 systemEncoding tb flags text numChars block maxByteLen
      else do {
        (r, tb) \<leftarrow> CFGetConverter ud external systemEncoding encoding tb;
        case r of
          None \<Rightarrow> Some (Some (Returns (ConverterUnavailable, 0, 0, block)), tb)
        | Some r \<Rightarrow>
            do { conv \<leftarrow> converter_at tb r;
                 Some (if external_class (conv_definition conv)
                       then external_to_bytes encoding flags text numChars block maxByteLen
                       else convert_to_bytes conv flags text numChars block maxByteLen, tb) } })"

subsection \<open>From bytes to characters\<close>

type_synonym to_unicode_state = "nat \<times> nat \<times> 16 word list"
type_synonym to_unicode_result = "conversion_result \<times> nat \<times> nat \<times> 16 word list"

definition canonical_flags :: "32 word \<Rightarrow> bool" where
  "canonical_flags flags \<longleftrightarrow> is_set flags (kCFStringEncodingUseCanonical OR kCFStringEncodingUseHFSPlusCanonical)"

text \<open>\<open>used\<close> includes what the conversion has just written.\<close>

definition unicode_filled_up ::
    "unicode_data \<Rightarrow> CFEncodingConverter \<Rightarrow> 32 word \<Rightarrow> 8 word list \<Rightarrow> nat \<Rightarrow> nat \<Rightarrow> nat \<Rightarrow> nat \<Rightarrow> bool option" where
  "unicode_filled_up ud conv flags text numBytes maxCharLen usedLen used =
     (if maxCharLen = 0 then Some False
      else if maxCharLen = used then Some True
      else if canonical_flags flags \<or> maxCharLen = used + 1
      then map_option (\<lambda>(n, _, _). n \<noteq> 0) (TO_UNICODE ud conv flags (drop usedLen text) (numBytes - usedLen) [] 0)
      else Some False)"

definition to_unicode_step ::
    "unicode_data \<Rightarrow> CFEncodingConverter \<Rightarrow> 32 word \<Rightarrow> 8 word list \<Rightarrow> nat \<Rightarrow> nat \<Rightarrow> to_unicode_state
      \<Rightarrow> (to_unicode_state + to_unicode_result) option" where
  "to_unicode_step ud conv flags text numBytes maxCharLen = (\<lambda>(usedLen, used, block).
     if usedLen < numBytes \<and> (maxCharLen = 0 \<or> used < maxCharLen) then do {
       (n, localUsed, block) \<leftarrow> at_offset used (\<lambda>block. TO_UNICODE ud conv flags (drop usedLen text)
           (numBytes - usedLen) block (room maxCharLen used)) block;
       let usedLen = usedLen + n; used = used + localUsed in
       if usedLen < numBytes then do {
         filled \<leftarrow> unicode_filled_up ud conv flags text numBytes maxCharLen usedLen used;
         if filled then Some (Inr (InsufficientOutputBufferLength, usedLen, used, block))
         else if is_set flags kCFStringEncodingAllowLossyConversion then do {
           (n, localUsed, block) \<leftarrow> at_offset used (\<lambda>block. TO_UNICODE_FALLBACK conv (drop usedLen text)
               (numBytes - usedLen) block (room maxCharLen used)) block;
           Some (Inl (usedLen + n, used + localUsed, block)) }
         else Some (Inr (InvalidInputStream, usedLen, used, block)) }
       else Some (Inl (usedLen, used, block)) }
     else Some (Inr (if usedLen < numBytes \<and> maxCharLen \<noteq> 0 then InsufficientOutputBufferLength
                     else ConversionSuccess, usedLen, used, block)))"

definition convert_to_unicode ::
    "unicode_data \<Rightarrow> CFEncodingConverter \<Rightarrow> 32 word \<Rightarrow> 8 word list \<Rightarrow> nat \<Rightarrow> 16 word list \<Rightarrow> nat
      \<Rightarrow> to_unicode_result outcome option" where
  "convert_to_unicode ud conv flags text numBytes block maxCharLen =
     iterate (to_unicode_step ud conv flags text numBytes maxCharLen) (0, 0, block)"

definition CFStringEncodingBytesToUnicode ::
    "unicode_data \<Rightarrow> (32 word \<Rightarrow> CFStringEncodingConverter option)
      \<Rightarrow> (32 word \<Rightarrow> 32 word \<Rightarrow> 8 word list \<Rightarrow> nat \<Rightarrow> 16 word list \<Rightarrow> nat \<Rightarrow> to_unicode_result outcome option)
      \<Rightarrow> 32 word \<Rightarrow> converter_table \<Rightarrow> 32 word \<Rightarrow> 32 word \<Rightarrow> 8 word list \<Rightarrow> nat \<Rightarrow> 16 word list \<Rightarrow> nat
      \<Rightarrow> (to_unicode_result outcome option \<times> converter_table) option" where
  "CFStringEncodingBytesToUnicode ud external external_to_unicode systemEncoding tb encoding flags
     text numBytes block maxCharLen =
     do { (r, tb) \<leftarrow> CFGetConverter ud external systemEncoding encoding tb;
          case r of
            None \<Rightarrow> Some (Some (Returns (ConverterUnavailable, 0, 0, block)), tb)
          | Some r \<Rightarrow>
              do { conv \<leftarrow> converter_at tb r;
                   Some (if external_class (conv_definition conv)
                         then external_to_unicode encoding flags text numBytes block maxCharLen
                         else convert_to_unicode ud conv flags text numBytes block maxCharLen, tb) } }"

subsection \<open>Lengths\<close>

text \<open>The loop that adds up the characters; the state is the bytes passed and the sum.\<close>

definition char_length_step ::
    "unicode_data \<Rightarrow> CFEncodingConverter \<Rightarrow> 32 word \<Rightarrow> 8 word list \<Rightarrow> nat \<Rightarrow> nat \<times> nat \<Rightarrow> (nat \<times> nat + nat) option" where
  "char_length_step ud conv flags text numBytes = (\<lambda>(passed, total).
     if passed < numBytes then do {
       (n, used, _) \<leftarrow> TO_UNICODE ud conv flags (drop passed text) (numBytes - passed) [] 0;
       let passed = passed + n; total = total + used in
       if passed < numBytes then
         if \<not> is_set flags kCFStringEncodingAllowLossyConversion then Some (Inr 0)
         else do {
           (n, used, _) \<leftarrow> TO_UNICODE_FALLBACK conv (drop passed text) (numBytes - passed) [] 0;
           Some (Inl (passed + n, total + used)) }
       else Some (Inl (passed, total)) }
     else Some (Inr total))"

definition CFStringEncodingCharLengthForBytes ::
    "unicode_data \<Rightarrow> (32 word \<Rightarrow> CFStringEncodingConverter option) \<Rightarrow> (32 word \<Rightarrow> 32 word \<Rightarrow> 8 word list \<Rightarrow> nat \<Rightarrow> nat outcome option)
      \<Rightarrow> 32 word \<Rightarrow> converter_table \<Rightarrow> 32 word \<Rightarrow> 32 word \<Rightarrow> 8 word list \<Rightarrow> nat
      \<Rightarrow> (nat outcome option \<times> converter_table) option" where
  "CFStringEncodingCharLengthForBytes ud external external_length systemEncoding tb encoding flags text numBytes =
     do { (r, tb) \<leftarrow> CFGetConverter ud external systemEncoding encoding tb;
          case r of
            None \<Rightarrow> Some (Some (Returns 0), tb)
          | Some r \<Rightarrow>
              do { conv \<leftarrow> converter_at tb r;
                   let def = conv_definition conv;
                   Some (if external_class def
                         then external_length encoding flags text numBytes
                         else if maxBytesPerChar def = 1 then Some (Returns numBytes)
                         else (case toUnicodeLen def of
                                 None \<Rightarrow> iterate (char_length_step ud conv flags text numBytes) (0, 0)
                               | Some f \<Rightarrow> returns (f flags text numBytes)), tb) } }"

definition CFStringEncodingByteLengthForCharacters ::
    "unicode_data \<Rightarrow> (32 word \<Rightarrow> CFStringEncodingConverter option) \<Rightarrow> (32 word \<Rightarrow> 32 word \<Rightarrow> 16 word list \<Rightarrow> nat \<Rightarrow> nat outcome option)
      \<Rightarrow> 32 word \<Rightarrow> converter_table \<Rightarrow> 32 word \<Rightarrow> 32 word \<Rightarrow> 16 word list \<Rightarrow> nat
      \<Rightarrow> (nat outcome option \<times> converter_table) option" where
  "CFStringEncodingByteLengthForCharacters ud external external_length systemEncoding tb encoding flags text numChars =
     do { (r, tb) \<leftarrow> CFGetConverter ud external systemEncoding encoding tb;
          case r of
            None \<Rightarrow> Some (Some (Returns 0), tb)
          | Some r \<Rightarrow>
              do { conv \<leftarrow> converter_at tb r;
                   let def = conv_definition conv;
                   Some (if external_class def
                         then external_length encoding flags text numChars
                         else if maxBytesPerChar def = 1 then Some (Returns numChars)
                         else (case toBytesLen def of
                                 None \<Rightarrow>
                                   (case convert_to_bytes conv flags text numChars [] 0 of
                                      Some (Returns (result, _, used, _)) \<Rightarrow>
                                        Some (Returns (if result = ConversionSuccess then used else 0))
                                    | Some Undefined \<Rightarrow> Some Undefined
                                    | None \<Rightarrow> None)
                               | Some f \<Rightarrow> returns (f flags text numChars)), tb) } }"

subsection \<open>Loops\<close>

lemma iterate_Inl: "step s = Some (Inl s') \<Longrightarrow> iterate step s = iterate step s'"
  by (subst iterate.simps) simp

lemma iterate_Inr: "step s = Some (Inr r) \<Longrightarrow> iterate step s = Some (Returns r)"
  by (subst iterate.simps) simp

lemma iterate_None: "step s = None \<Longrightarrow> iterate step s = Some Undefined"
  by (subst iterate.simps) simp

lemma iterate_returns:
  fixes size :: "'s \<Rightarrow> nat"
  assumes "P s" "\<And>s. P s \<Longrightarrow> step s = Some (Inr r) \<or> (\<exists>s'. step s = Some (Inl s') \<and> P s' \<and> size s' < size s)"
  shows "iterate step s = Some (Returns r)"
  using assms(1)
proof (induction "size s" arbitrary: s rule: less_induct)
  case less
  then show ?case using assms(2) [OF less.prems] iterate_Inl iterate_Inr by metis
qed

lemma iterate_diverges:
  assumes "P s" "\<And>s. P s \<Longrightarrow> \<exists>s'. step s = Some (Inl s') \<and> P s'"
  shows "iterate step s = None"
proof (rule ccontr)
  assume "iterate step s \<noteq> None"
  then obtain r where r: "iterate step s = Some r" by blast
  have "\<not> P s"
  proof (rule iterate.raw_induct [where P = "\<lambda>step' s r. step' = step \<longrightarrow> \<not> P s", OF _ r, THEN mp, OF _ refl])
    fix f :: "('a \<Rightarrow> ('a + 'b) option) \<Rightarrow> 'a \<Rightarrow> 'b outcome option" and step' s r
    assume IH: "\<And>step' s r. f step' s = Some r \<Longrightarrow> step' = step \<longrightarrow> \<not> P s"
      and eq: "(case step' s of None \<Rightarrow> Some Undefined | Some (Inl s) \<Rightarrow> f step' s | Some (Inr r) \<Rightarrow> Some (Returns r)) = Some r"
    show "step' = step \<longrightarrow> \<not> P s"
    proof (intro impI notI)
      assume "step' = step" "P s"
      then obtain s' where "step s = Some (Inl s')" "P s'" using assms(2) by blast
      then show False using IH eq \<open>step' = step\<close> by auto
    qed
  qed
  then show False using assms(1) by blast
qed

subsection \<open>Texts and blocks\<close>

lemma at_offset_Some: "f (drop k block) = Some (a, b, rest) \<Longrightarrow> at_offset k f block = Some (a, b, take k block @ rest)"
  by (simp add: at_offset_def)

lemma overwritten_drop: "k + length ys \<le> length xs \<Longrightarrow> take k xs @ overwritten (drop k xs) 0 ys = overwritten xs k ys"
  by (simp add: overwritten_def add.commute)

text \<open>The wrappers on the rest of a text, with the room that is left in the block.\<close>

lemma cheap_loop_rest:
  assumes "\<And>x. conv x \<noteq> None" "i + k \<le> length text" "m \<noteq> 0 \<longrightarrow> used + k \<le> length block"
  shows "\<exists>ys. cheap_loop conv (drop i text) m (drop used block) 0 k
      = Some (length ys, if m = 0 then drop used block else overwritten (drop used block) 0 ys)
    \<and> length ys \<le> k \<and> (length ys < k \<longrightarrow> conv (text ! (i + length ys)) = Some None)
    \<and> (\<forall>j < length ys. conv (text ! (i + j)) = Some (Some (ys ! j)))"
  using cheap_loop_ok [of conv 0 k "drop i text" m "drop used block"] assms by fastforce

subsection \<open>The specification of a conversion character by character\<close>

text \<open>A text is converted up to the limit \<open>m\<close> of the block, if there is one, and, unless the conversion is lossy,
  up to the first character that cannot be converted; \<open>d\<close> stands for such characters.\<close>

definition substituted :: "('a \<Rightarrow> 'b option option) \<Rightarrow> 'b \<Rightarrow> 'a list \<Rightarrow> 'b list" where
  "substituted conv d xs = map (\<lambda>x. case conv x of Some (Some y) \<Rightarrow> y | _ \<Rightarrow> d) xs"

definition convertible :: "('a \<Rightarrow> 'b option option) \<Rightarrow> bool \<Rightarrow> 'a list \<Rightarrow> nat" where
  "convertible conv lossy xs = (if lossy then length xs else length (takeWhile (\<lambda>x. conv x \<noteq> Some None) xs))"

definition conversion_end :: "('a \<Rightarrow> 'b option option) \<Rightarrow> bool \<Rightarrow> nat \<Rightarrow> 'a list \<Rightarrow> nat" where
  "conversion_end conv lossy m xs = (if m = 0 then convertible conv lossy xs else min m (convertible conv lossy xs))"

definition written :: "('a \<Rightarrow> 'b option option) \<Rightarrow> 'b \<Rightarrow> nat \<Rightarrow> 'a list \<Rightarrow> 'b list \<Rightarrow> 'b list" where
  "written conv d m xs block = (if m = 0 then block else overwritten block 0 (substituted conv d xs))"

definition conversion ::
    "('a \<Rightarrow> 'b option option) \<Rightarrow> 'b \<Rightarrow> bool \<Rightarrow> nat \<Rightarrow> 'a list \<Rightarrow> 'b list \<Rightarrow> conversion_result \<times> nat \<times> nat \<times> 'b list" where
  "conversion conv d lossy m xs block =
     (let j = conversion_end conv lossy m xs in
      (if j = length xs then ConversionSuccess
       else if m \<noteq> 0 \<and> j = m then InsufficientOutputBufferLength
       else InvalidInputStream, j, j, written conv d m (take j xs) block))"

lemma length_substituted [simp]: "length (substituted conv d xs) = length xs"
  by (simp add: substituted_def)

lemma convertible_le [simp]: "convertible conv lossy xs \<le> length xs"
  by (simp add: convertible_def length_takeWhile_le)

lemma convertible_nth: "i < convertible conv False xs \<Longrightarrow> conv (xs ! i) \<noteq> Some None"
  unfolding convertible_def using nth_mem [of i "takeWhile (\<lambda>x. conv x \<noteq> Some None) xs"]
  by (auto simp: takeWhile_nth dest!: set_takeWhileD)

lemma convertible_geI:
  assumes "k \<le> length xs" "\<And>i. i < k \<Longrightarrow> conv (xs ! i) \<noteq> Some None"
  shows "k \<le> convertible conv lossy xs"
proof -
  have "takeWhile (\<lambda>x. conv x \<noteq> Some None) (take k xs @ drop k xs)
      = take k xs @ takeWhile (\<lambda>x. conv x \<noteq> Some None) (drop k xs)"
    using assms by (intro takeWhile_append2) (auto simp: in_set_conv_nth)
  then have "length (takeWhile (\<lambda>x. conv x \<noteq> Some None) xs) = k
      + length (takeWhile (\<lambda>x. conv x \<noteq> Some None) (drop k xs))" using assms(1) by simp
  then show ?thesis using assms(1) by (simp add: convertible_def)
qed

lemma conversion_end_le: "conversion_end conv lossy m xs \<le> length xs" "m \<noteq> 0 \<Longrightarrow> conversion_end conv lossy m xs \<le> m"
  unfolding conversion_end_def by (simp_all add: min.coboundedI2)

lemma written_append:
  "m \<noteq> 0 \<longrightarrow> length xs + length ys \<le> length block \<Longrightarrow>
    written conv d m (xs @ ys) block
    = (if m = 0 then block else overwritten (written conv d m xs block) (length xs) (substituted conv d ys))"
  using overwritten_append [of 0 "substituted conv d xs" "substituted conv d ys" block]
  by (simp add: written_def substituted_def)

lemma length_written [simp]: "m \<noteq> 0 \<longrightarrow> length xs \<le> length block \<Longrightarrow> length (written conv d m xs block) = length block"
  by (simp add: written_def)

lemma cheap_rest:
  assumes "\<And>x. conv x \<noteq> None" "i < n" "n \<le> length text" "m \<noteq> 0 \<longrightarrow> i < m \<and> m \<le> length block"
  defines "k \<equiv> if room m i \<noteq> 0 \<and> room m i < n - i then room m i else n - i"
  shows "\<exists>p \<le> k. at_offset i (\<lambda>block. map_option (\<lambda>(processed, block). (processed, processed, block))
        (cheap_loop conv (drop i text) (room m i) block 0 k)) (written conv d m (take i text) block)
      = Some (p, p, written conv d m (take (i + p) text) block)
    \<and> (\<forall>j < p. conv (text ! (i + j)) \<noteq> Some None) \<and> (p < k \<longrightarrow> conv (text ! (i + p)) = Some None)"
proof -
  let ?block = "written conv d m (take i text) block"
  have room: "room m i = 0 \<longleftrightarrow> m = 0" using assms(4) by (auto simp: room_def)
  have k: "i + k \<le> n" "m \<noteq> 0 \<longrightarrow> i + k \<le> m" using assms by (auto simp: room_def split: if_splits)
  have len: "length ?block = length block" by (rule length_written) (use assms in auto)
  have "i + k \<le> length text" "room m i \<noteq> 0 \<longrightarrow> i + k \<le> length ?block" using k assms(3,4) room by (auto simp: len)
  from cheap_loop_rest [where conv = conv, OF assms(1) this]
  obtain ys where ys: "cheap_loop conv (drop i text) (room m i) (drop i ?block) 0 k
      = Some (length ys, if m = 0 then drop i ?block else overwritten (drop i ?block) 0 ys)" "length ys \<le> k"
    "length ys < k \<longrightarrow> conv (text ! (i + length ys)) = Some None"
    "\<forall>j < length ys. conv (text ! (i + j)) = Some (Some (ys ! j))"
    unfolding room by blast
  let ?p = "length ys"
  have ys': "ys = substituted conv d (take ?p (drop i text))"
    using ys(2,4) k assms(3) by (intro nth_equalityI) (auto simp: substituted_def)
  have "m \<noteq> 0 \<longrightarrow> length (take i text) + length (take ?p (drop i text)) \<le> length block"
    using k ys(2) assms(2-4) by auto
  from written_append [OF this, of conv d]
  have "written conv d m (take (i + ?p) text) block = (if m = 0 then block else overwritten ?block i ys)"
    using assms(2,3) by (simp add: take_add flip: ys')
  then have "take i ?block @ (if m = 0 then drop i ?block else overwritten (drop i ?block) 0 ys)
      = written conv d m (take (i + ?p) text) block"
    using overwritten_drop [of i ys ?block] len k ys(2) assms(4) by (auto simp: written_def)
  then show ?thesis using ys by (intro exI [of _ ?p]) (auto simp: at_offset_def)
qed

text \<open>What one call of the wrapper leaves to be done.\<close>

lemma conversion_cases:
  fixes "text" :: "'a list"
  assumes "\<And>x. conv x \<noteq> None" "i < n" "n \<le> length text" "m \<noteq> 0 \<longrightarrow> i < m \<and> m \<le> length block"
    and "i \<le> conversion_end conv lossy m (take n text)"
  defines "k \<equiv> if room m i \<noteq> 0 \<and> room m i < n - i then room m i else n - i"
    and "j \<equiv> conversion_end conv lossy m (take n text)"
  obtains p where "at_offset i (\<lambda>block. map_option (\<lambda>(processed, block). (processed, processed, block))
        (cheap_loop conv (drop i text) (room m i) block 0 k)) (written conv d m (take i text) block)
      = Some (p, p, written conv d m (take (i + p) text) block)"
    and "i + p = n \<and> 0 < p \<and> j = n \<or> m \<noteq> 0 \<and> i + p = m \<and> m < n \<and> j = m
      \<or> i + p < n \<and> (m \<noteq> 0 \<longrightarrow> i + p < m) \<and> conv (text ! (i + p)) = Some None \<and> (if lossy then i + p < j else i + p = j)"
proof -
  obtain p where p: "p \<le> k" "at_offset i (\<lambda>block. map_option (\<lambda>(processed, block). (processed, processed, block))
        (cheap_loop conv (drop i text) (room m i) block 0 k)) (written conv d m (take i text) block)
      = Some (p, p, written conv d m (take (i + p) text) block)"
    "\<forall>j < p. conv (text ! (i + j)) \<noteq> Some None" "p < k \<longrightarrow> conv (text ! (i + p)) = Some None"
    using cheap_rest [where conv = conv and d = d, OF assms(1-4)] unfolding k_def by blast
  have k: "0 < k" "i + k \<le> n" "m \<noteq> 0 \<longrightarrow> i + k \<le> m" "k = n - i \<or> m \<noteq> 0 \<and> i + k = m \<and> m < n"
    using assms(2,4) by (auto simp: k_def room_def)
  have le: "i + p \<le> convertible conv lossy (take n text)"
  proof (cases lossy)
    case True
    then show ?thesis using p(1) k(2) assms(3) by (simp add: convertible_def)
  next
    case False
    have i: "i \<le> convertible conv False (take n text)" using assms(5) False by (auto simp: conversion_end_def split: if_splits)
    show ?thesis
    proof (rule convertible_geI)
      show "i + p \<le> length (take n text)" using p(1) k(2) assms(3) by simp
      show "conv (take n text ! q) \<noteq> Some None" if "q < i + p" for q
      proof (cases "q < i")
        case True
        then show ?thesis using convertible_nth [of q conv "take n text"] i by simp
      next
        case False
        then show ?thesis using p(1) p(3) [rule_format, of "q - i"] k(2) that by simp
      qed
    qed
  qed
  have j: "j = (if m = 0 then convertible conv lossy (take n text) else min m (convertible conv lossy (take n text)))"
    by (simp add: j_def conversion_end_def)
  have n: "convertible conv lossy (take n text) \<le> n" using convertible_le [of conv lossy "take n text"] by simp
  consider "p < k" | "p = k" using p(1) by linarith
  then have "i + p = n \<and> 0 < p \<and> j = n \<or> m \<noteq> 0 \<and> i + p = m \<and> m < n \<and> j = m
      \<or> i + p < n \<and> (m \<noteq> 0 \<longrightarrow> i + p < m) \<and> conv (text ! (i + p)) = Some None \<and> (if lossy then i + p < j else i + p = j)"
  proof cases
    case 1
    then have bad: "conv (text ! (i + p)) = Some None" "i + p < n" "m \<noteq> 0 \<longrightarrow> i + p < m" using p(4) k by auto
    have "convertible conv lossy (take n text) = i + p" if "\<not> lossy"
      using le bad(1,2) convertible_nth [of "i + p" conv "take n text"] that by (cases lossy) (auto simp: le_less)
    then show ?thesis using bad j le assms(3) by (auto simp: convertible_def)
  next
    case 2
    then show ?thesis using k le n j by auto
  qed
  then show thesis using that p(2) by blast
qed

lemma written_bad:
  assumes "conv (text ! q) = Some None" "q < length text" "m \<noteq> 0 \<longrightarrow> q < length block"
  shows "written conv d m (take (Suc q) text) block
    = (if m = 0 then block else (written conv d m (take q text) block)[q := d])"
proof (cases "m = 0")
  case False
  have "m \<noteq> 0 \<longrightarrow> length (take q text) + length [text ! q] \<le> length block" using assms(2,3) by auto
  from written_append [OF this, of conv d] show ?thesis
    using assms False by (simp add: take_Suc_conv_app_nth substituted_def update_overwritten)
qed (simp add: written_def)

lemma at_offset_wr:
  "q < length block \<Longrightarrow> at_offset q (\<lambda>block. map_option (\<lambda>block. (a, b, block)) (wr block 0 x)) block = Some (a, b, block[q := x])"
  by (simp add: at_offset_def wr_Some upd_conv_take_nth_drop Cons_nth_drop_Suc [symmetric])

lemma at_offset_const: "at_offset q (\<lambda>block. Some (a, b, block)) block = Some (a, b, block)"
  by (simp add: at_offset_def)

lemma combining_flags:
  "is_set (flags OR kCFStringEncodingComposeCombinings) kCFStringEncodingAllowLossyConversion
    = is_set flags kCFStringEncodingAllowLossyConversion"
  "CFStringEncodingMaskToLossyByte (flags OR kCFStringEncodingComposeCombinings) = CFStringEncodingMaskToLossyByte flags"
proof -
  show "CFStringEncodingMaskToLossyByte (flags OR kCFStringEncodingComposeCombinings) = CFStringEncodingMaskToLossyByte flags"
    unfolding CFStringEncodingMaskToLossyByte_def kCFStringEncodingComposeCombinings_def
    by (rule arg_cong [of _ _ ucast]) (simp add: drop_bit_or)
  show "is_set (flags OR kCFStringEncodingComposeCombinings) kCFStringEncodingAllowLossyConversion
      = is_set flags kCFStringEncodingAllowLossyConversion"
    by (simp add: is_set_def kCFStringEncodingComposeCombinings_def kCFStringEncodingAllowLossyConversion_def
        bit_or_iff)
qed

subsection \<open>Eight-bit converters\<close>

text \<open>A converter of an eight-bit encoding, as the table of converters has it.\<close>

locale eight_bit_converter = eight_bit to_byte from_byte
  for to_byte :: "16 word \<Rightarrow> 8 word option option" and from_byte :: "8 word \<Rightarrow> 16 word option option" +
  fixes conv :: CFEncodingConverter
  assumes procs_eq: "procs (conv_definition conv) = CheapEightBit to_byte from_byte"
    and fallback_eq: "toUnicodeFallback conv = Some (\<lambda>text numBytes. CFDefaultToUnicodeFallbackProc)"

context eight_bit_converter begin

lemma TO_UNICODE_plain:
  "\<not> canonical_flags flags \<Longrightarrow> TO_UNICODE ud conv flags text n block m =
    map_option (\<lambda>(processed, block). (processed, processed, block))
      (cheap_loop from_byte text m block 0 (if m \<noteq> 0 \<and> m < n then m else n))"
  by (simp add: TO_UNICODE_def procs_eq canonical_flags_def CFToUnicodeCheapEightBitWrapper_def)

lemma TO_BYTE_plain:
  "TO_BYTE conv flags text n block m =
    map_option (\<lambda>(processed, block). (processed, processed, block))
      (cheap_loop to_byte text m block 0 (if m \<noteq> 0 \<and> m < n then m else n))"
  by (simp add: TO_BYTE_def procs_eq CFToBytesCheapEightBitWrapper_def)

lemma unicode_fallback:
  assumes "m \<noteq> 0 \<longrightarrow> q < m \<and> m \<le> length block"
  shows "at_offset q (\<lambda>block. TO_UNICODE_FALLBACK conv text n block (room m q)) block
    = Some (1, 1, if m = 0 then block else block[q := 0x3F])"
proof -
  have "TO_UNICODE_FALLBACK conv text n block' (room m q)
      = (if m = 0 then Some (1, 1, block') else map_option (\<lambda>block. (1, 1, block)) (wr block' 0 0x3F))" for block'
    using assms by (cases "wr block' 0 0x3F")
      (auto simp: TO_UNICODE_FALLBACK_def fallback_eq CFDefaultToUnicodeFallbackProc_def room_def)
  then show ?thesis using assms at_offset_wr [of q block "Suc 0" "Suc 0" "0x3F"] by (cases "m = 0") (simp_all add: at_offset_const)
qed

lemma probe_unicode:
  assumes "\<not> canonical_flags flags" "from_byte (text ! q) = Some None" "q < n" "n \<le> length text"
  shows "TO_UNICODE ud conv flags (drop q text) (n - q) [] 0 = Some (0, 0, [])"
proof -
  obtain k where k: "n - q = Suc k" using assms(3) by (cases "n - q") auto
  have "rd (drop q text) 0 = Some (text ! q)" using assms(3,4) by (simp add: rd_Some)
  then have "cheap_loop from_byte (drop q text) 0 [] 0 (n - q) = Some (0, [])" using assms(2) by (simp add: k)
  then show ?thesis using assms(1) by (simp add: TO_UNICODE_plain)
qed

lemma to_unicode_step:
  assumes plain: "\<not> canonical_flags flags" and n: "n \<le> length text" and m: "m \<noteq> 0 \<longrightarrow> m \<le> length block"
  defines "j \<equiv> conversion_end from_byte (is_set flags kCFStringEncodingAllowLossyConversion) m (take n text)"
    and "state \<equiv> \<lambda>i. (i, i, written from_byte 0x3F m (take i text) block)"
    and "r \<equiv> conversion from_byte 0x3F (is_set flags kCFStringEncodingAllowLossyConversion) m (take n text) block"
  assumes i: "i \<le> j"
  shows "to_unicode_step ud conv flags text n m (state i) = Some (Inr r)
    \<or> (\<exists>i'. to_unicode_step ud conv flags text n m (state i) = Some (Inl (state i')) \<and> i < i' \<and> i' \<le> j)"
proof -
  let ?lossy = "is_set flags kCFStringEncodingAllowLossyConversion"
  have j: "j \<le> n" "m \<noteq> 0 \<longrightarrow> j \<le> m"
    using conversion_end_le [where conv = from_byte and lossy = ?lossy and m = m and xs = "take n text"] by (auto simp: j_def)
  have result: "r = (if j = n then ConversionSuccess else if m \<noteq> 0 \<and> j = m then InsufficientOutputBufferLength
         else InvalidInputStream, state j)"
    using n j(1) by (simp add: r_def conversion_def Let_def j_def [symmetric] min_absorb1 state_def)
  show ?thesis
  proof (cases "i < n \<and> (m = 0 \<or> i < m)")
    case False
    then have "i = j \<and> (i = n \<or> m \<noteq> 0 \<and> i = m)" using i j by auto
    then show ?thesis using False j by (auto simp: to_unicode_step_def result state_def)
  next
    case True
    then have m': "m \<noteq> 0 \<longrightarrow> i < m \<and> m \<le> length block" using m by blast
    obtain p where p: "at_offset i (\<lambda>block. TO_UNICODE ud conv flags (drop i text) (n - i) block (room m i))
          (written from_byte 0x3F m (take i text) block)
        = Some (p, p, written from_byte 0x3F m (take (i + p) text) block)"
      and cases: "i + p = n \<and> 0 < p \<and> j = n \<or> m \<noteq> 0 \<and> i + p = m \<and> m < n \<and> j = m
        \<or> i + p < n \<and> (m \<noteq> 0 \<longrightarrow> i + p < m) \<and> from_byte (text ! (i + p)) = Some None
          \<and> (if ?lossy then i + p < j else i + p = j)"
      using conversion_cases [where conv = from_byte and d = "0x3F" and lossy = ?lossy,
          OF from_defined conjunct1 [OF True] n m' i [unfolded j_def]]
      unfolding TO_UNICODE_plain [OF plain] j_def by blast
    consider "i + p = n" "0 < p" "j = n" | "m \<noteq> 0" "i + p = m" "m < n" "j = m"
      | "i + p < n" "m \<noteq> 0 \<longrightarrow> i + p < m" "from_byte (text ! (i + p)) = Some None" "if ?lossy then i + p < j else i + p = j"
      using cases by blast
    then show ?thesis
    proof cases
      case 1
      then show ?thesis using True p by (intro disjI2 exI [of _ n]) (simp add: to_unicode_step_def state_def)
    next
      case 2
      then show ?thesis using True p j by (simp add: to_unicode_step_def state_def result unicode_filled_up_def)
    next
      case 3
      let ?q = "i + p"
      have filled: "unicode_filled_up ud conv flags text n m ?q ?q = Some False"
        using 3(2) probe_unicode [OF plain 3(3,1) n] by (auto simp: unicode_filled_up_def)
      show ?thesis
      proof (cases ?lossy)
        case False
        then show ?thesis using True p 3 filled by (auto simp: to_unicode_step_def state_def result)
      next
        case lossy: True
        have "m \<noteq> 0 \<longrightarrow> ?q < m \<and> m \<le> length (written from_byte 0x3F m (take ?q text) block)" using 3(1,2) m n by auto
        note fallback = unicode_fallback [OF this]
        have "written from_byte 0x3F m (take (Suc ?q) text) block
            = (if m = 0 then block else (written from_byte 0x3F m (take ?q text) block)[?q := 0x3F])"
          using written_bad [of from_byte "text" ?q m block "0x3F"] 3(1-3) m n by auto
        moreover have "m = 0 \<Longrightarrow> written from_byte 0x3F m (take ?q text) block = block" by (simp add: written_def)
        ultimately show ?thesis
          using True p 3 filled fallback lossy
          by (intro disjI2 exI [of _ "Suc ?q"]) (auto simp: to_unicode_step_def state_def Let_def)
      qed
    qed
  qed
qed

lemma convert_to_unicode_eq:
  assumes "\<not> canonical_flags flags" "n \<le> length text" "m \<noteq> 0 \<longrightarrow> m \<le> length block"
  shows "convert_to_unicode ud conv flags text n block m = Some (Returns
    (conversion from_byte 0x3F (is_set flags kCFStringEncodingAllowLossyConversion) m (take n text) block))"
  unfolding convert_to_unicode_def
proof (rule iterate_returns [where size = "\<lambda>s. n - fst s" and P = "\<lambda>s. \<exists>i. s = (i, i, written from_byte 0x3F m (take i text) block)
    \<and> i \<le> conversion_end from_byte (is_set flags kCFStringEncodingAllowLossyConversion) m (take n text)"])
  let ?j = "conversion_end from_byte (is_set flags kCFStringEncodingAllowLossyConversion) m (take n text)"
  have j: "?j \<le> n" by (rule order.trans [OF conversion_end_le(1)]) simp
  show "\<exists>i. (0, 0, block) = (i, i, written from_byte 0x3F m (take i text) block) \<and> i \<le> ?j"
    by (simp add: written_def substituted_def)
  fix s :: "nat \<times> nat \<times> 16 word list"
  assume "\<exists>i. s = (i, i, written from_byte 0x3F m (take i text) block) \<and> i \<le> ?j"
  then obtain i where "s = (i, i, written from_byte 0x3F m (take i text) block)" "i \<le> ?j" by blast
  then show "to_unicode_step ud conv flags text n m s = Some (Inr
        (conversion from_byte 0x3F (is_set flags kCFStringEncodingAllowLossyConversion) m (take n text) block))
    \<or> (\<exists>s'. to_unicode_step ud conv flags text n m s = Some (Inl s')
      \<and> (\<exists>i. s' = (i, i, written from_byte 0x3F m (take i text) block) \<and> i \<le> ?j) \<and> n - fst s' < n - fst s)"
    using to_unicode_step [OF assms, of i ud] j by fastforce
qed

lemma probe_byte:
  assumes "to_byte (text ! q) = Some None" "q < n" "n \<le> length text"
  shows "TO_BYTE conv flags (drop q text) (n - q) [] 0 = Some (0, 0, [])"
proof -
  obtain k where k: "n - q = Suc k" using assms(2) by (cases "n - q") auto
  have "rd (drop q text) 0 = Some (text ! q)" using assms(2,3) by (simp add: rd_Some)
  then have "cheap_loop to_byte (drop q text) 0 [] 0 (n - q) = Some (0, [])" using assms(1) by (simp add: k)
  then show ?thesis by (simp add: TO_BYTE_plain)
qed

lemma to_bytes_step:
  assumes n: "n \<le> length text" and m: "m \<noteq> 0 \<longrightarrow> m \<le> length block"
    and marks: "isValid = None \<or> (\<forall>u \<in> set (take n text). the isValid u = Some False)"
    and lossy_byte: "is_set flags kCFStringEncodingAllowLossyConversion \<longrightarrow> CFStringEncodingMaskToLossyByte flags \<noteq> 0"
  defines "d \<equiv> CFStringEncodingMaskToLossyByte flags"
  defines "j \<equiv> conversion_end to_byte (is_set flags kCFStringEncodingAllowLossyConversion) m (take n text)"
    and "state \<equiv> \<lambda>i. (i, i, written to_byte d m (take i text) block)"
    and "r \<equiv> conversion to_byte d (is_set flags kCFStringEncodingAllowLossyConversion) m (take n text) block"
  assumes i: "i \<le> j"
  shows "to_bytes_step conv isValid pre flags text n m (state i) = Some (Inr r)
    \<or> (\<exists>i'. to_bytes_step conv isValid pre flags text n m (state i) = Some (Inl (state i')) \<and> i < i' \<and> i' \<le> j)"
proof -
  let ?lossy = "is_set flags kCFStringEncodingAllowLossyConversion"
  have j: "j \<le> n" "m \<noteq> 0 \<longrightarrow> j \<le> m"
    using conversion_end_le [where conv = to_byte and lossy = ?lossy and m = m and xs = "take n text"] by (auto simp: j_def)
  have result: "r = (if j = n then ConversionSuccess else if m \<noteq> 0 \<and> j = m then InsufficientOutputBufferLength
         else InvalidInputStream, state j)"
    using n j(1) by (simp add: r_def conversion_def Let_def j_def [symmetric] min_absorb1 state_def)
  have no_room: "no_room conv flags text n (state q)
      = Some (if q < n then InsufficientOutputBufferLength else ConversionSuccess, state q)" for q
    using lossy_byte by (auto simp: no_room_def state_def)
  have mark: "(case isValid of None \<Rightarrow> Some False
      | Some v \<Rightarrow> if 0 < q then do { c \<leftarrow> rd text q; v c } else Some False) = Some False" if "q < n" for q
  proof -
    have "text ! q \<in> set (take n text)" using that n by (auto simp: in_set_conv_nth intro!: exI [of _ q])
    then show ?thesis using marks that n by (auto simp: rd_Some split: option.splits)
  qed
  show ?thesis
  proof (cases "i < n \<and> (m = 0 \<or> i < m)")
    case False
    then have "i = j \<and> (i = n \<or> m \<noteq> 0 \<and> i = m)" using i j by auto
    then show ?thesis using False j no_room [of i] by (auto simp: to_bytes_step_def result state_def)
  next
    case True
    then have m': "m \<noteq> 0 \<longrightarrow> i < m \<and> m \<le> length block" using m by blast
    obtain p where p: "at_offset i (\<lambda>block. TO_BYTE conv flags (drop i text) (n - i) block (room m i))
          (written to_byte d m (take i text) block)
        = Some (p, p, written to_byte d m (take (i + p) text) block)"
      and cases: "i + p = n \<and> 0 < p \<and> j = n \<or> m \<noteq> 0 \<and> i + p = m \<and> m < n \<and> j = m
        \<or> i + p < n \<and> (m \<noteq> 0 \<longrightarrow> i + p < m) \<and> to_byte (text ! (i + p)) = Some None
          \<and> (if ?lossy then i + p < j else i + p = j)"
      using conversion_cases [where conv = to_byte and d = d and lossy = ?lossy,
          OF to_defined conjunct1 [OF True] n m' i [unfolded j_def]]
      unfolding TO_BYTE_plain j_def by blast
    consider "i + p = n" "0 < p" "j = n" | "m \<noteq> 0" "i + p = m" "m < n" "j = m"
      | "i + p < n" "m \<noteq> 0 \<longrightarrow> i + p < m" "to_byte (text ! (i + p)) = Some None" "if ?lossy then i + p < j else i + p = j"
      using cases by blast
    then show ?thesis
    proof cases
      case 1
      then show ?thesis using True p by (intro disjI2 exI [of _ n]) (simp add: to_bytes_step_def state_def)
    next
      case 2
      then show ?thesis using True p j mark [of m] no_room [of m]
        by (simp add: to_bytes_step_def state_def result filled_up_def)
    next
      case 3
      let ?q = "i + p"
      have filled: "filled_up conv flags text n m ?q ?q = Some False"
        using 3(2) probe_byte [OF 3(3,1) n] by (auto simp: filled_up_def)
      show ?thesis
      proof (cases ?lossy)
        case False
        then show ?thesis using True p 3 filled mark [OF 3(1)] by (auto simp: to_bytes_step_def state_def result Let_def)
      next
        case lossy: True
        have len: "m \<noteq> 0 \<longrightarrow> ?q < length (written to_byte d m (take ?q text) block)" using 3(1,2) m n by auto
        have "written to_byte d m (take (Suc ?q) text) block
            = (if m = 0 then block else (written to_byte d m (take ?q text) block)[?q := d])"
          using written_bad [of to_byte "text" ?q m block d] 3(1-3) m n by auto
        moreover have "m = 0 \<Longrightarrow> written to_byte d m (take ?q text) block = block" by (simp add: written_def)
        ultimately have "substitute conv flags text n m (state ?q) = Some (Inl (state (Suc ?q)))"
          using lossy_byte lossy len by (simp add: substitute_def state_def put_lossy_def d_def [symmetric] wr_Some)
        then show ?thesis
          using True p 3 filled mark [OF 3(1)] lossy
          by (intro disjI2 exI [of _ "Suc ?q"]) (auto simp: to_bytes_step_def state_def Let_def)
      qed
    qed
  qed
qed

lemma convert_to_bytes_eq:
  assumes "n \<le> length text" "m \<noteq> 0 \<longrightarrow> m \<le> length block"
    and "isValidCombiningChar (conv_definition conv) = None
      \<or> (\<forall>u \<in> set (take n text). the (isValidCombiningChar (conv_definition conv)) u = Some False)"
    and "is_set flags kCFStringEncodingAllowLossyConversion \<longrightarrow> CFStringEncodingMaskToLossyByte flags \<noteq> 0"
  shows "convert_to_bytes conv flags text n block m = Some (Returns
    (conversion to_byte (CFStringEncodingMaskToLossyByte flags) (is_set flags kCFStringEncodingAllowLossyConversion) m
      (take n text) block))"
proof -
  let ?lossy = "is_set flags kCFStringEncodingAllowLossyConversion" and ?d = "CFStringEncodingMaskToLossyByte flags"
  let ?j = "conversion_end to_byte ?lossy m (take n text)"
  have j: "?j \<le> n" by (rule order.trans [OF conversion_end_le(1)]) simp
  obtain isValid pre flags' where procs: "combining_procs (conv_definition conv) flags = (isValid, pre, flags')"
    by (cases "combining_procs (conv_definition conv) flags")
  have flags': "is_set flags' kCFStringEncodingAllowLossyConversion = ?lossy" "CFStringEncodingMaskToLossyByte flags' = ?d"
    using procs combining_flags by (auto simp: combining_procs_def split: if_splits)
  have marks: "isValid = None \<or> (\<forall>u \<in> set (take n text). the isValid u = Some False)"
    using procs assms(3) by (auto simp: combining_procs_def split: if_splits)
  have "iterate (to_bytes_step conv isValid pre flags' text n m) (0, 0, block)
      = Some (Returns (conversion to_byte ?d ?lossy m (take n text) block))"
  proof (rule iterate_returns [where size = "\<lambda>s. n - fst s" and P = "\<lambda>s. \<exists>i. s = (i, i, written to_byte ?d m (take i text) block)
      \<and> i \<le> ?j"])
    show "\<exists>i. (0, 0, block) = (i, i, written to_byte ?d m (take i text) block) \<and> i \<le> ?j"
      by (simp add: written_def substituted_def)
    fix s :: to_bytes_state
    assume "\<exists>i. s = (i, i, written to_byte ?d m (take i text) block) \<and> i \<le> ?j"
    then obtain i where "s = (i, i, written to_byte ?d m (take i text) block)" "i \<le> ?j" by blast
    then show "to_bytes_step conv isValid pre flags' text n m s = Some (Inr (conversion to_byte ?d ?lossy m (take n text) block))
      \<or> (\<exists>s'. to_bytes_step conv isValid pre flags' text n m s = Some (Inl s')
        \<and> (\<exists>i. s' = (i, i, written to_byte ?d m (take i text) block) \<and> i \<le> ?j) \<and> n - fst s' < n - fst s)"
      using to_bytes_step [OF assms(1,2) marks, of flags' i pre] assms(4) j flags' by fastforce
  qed
  then show ?thesis by (simp add: convert_to_bytes_def procs)
qed

end

subsection \<open>The converters of the program\<close>

lemma default_unicode_fallback:
  "defToUnicodeFallback def = None \<Longrightarrow>
    toUnicodeFallback (new_converter ud def) = Some (\<lambda>text numBytes. CFDefaultToUnicodeFallbackProc)"
  by (simp add: new_converter_def)

lemma new_converter_definition [simp]: "conv_definition (new_converter ud def) = def"
  by (simp add: new_converter_def)

interpretation ascii_converter: eight_bit_converter "CFToASCII (maps_paragraph ud)" CFFromASCII
  "new_converter ud (CFConverterASCII ud)"
  by unfold_locales (simp_all add: CFConverterASCII_def default_unicode_fallback)

interpretation iso_latin1_converter: eight_bit_converter "CFToISOLatin1 (maps_paragraph ud)" CFFromISOLatin1
  "new_converter ud (CFConverterISOLatin1 ud)"
  by unfold_locales (simp_all add: CFConverterISOLatin1_def default_unicode_fallback)

interpretation mac_roman_converter: eight_bit_converter CFToMacRoman CFFromMacRoman
  "new_converter ud (CFConverterMacRoman ud)"
  by unfold_locales (simp_all add: CFConverterMacRoman_def default_unicode_fallback)

interpretation win_latin1_converter: eight_bit_converter CFToWinLatin1 CFFromWinLatin1
  "new_converter ud (CFConverterWinLatin1 ud)"
  by unfold_locales (simp_all add: CFConverterWinLatin1_def default_unicode_fallback)

interpretation next_step_converter: eight_bit_converter "CFToNextStepLatin (maps_paragraph ud)" CFFromNextStepLatin
  "new_converter ud (CFConverterNextStepLatin ud)"
  by unfold_locales (simp_all add: CFConverterNextStepLatin_def default_unicode_fallback)

text \<open>The five encodings with their numbers and definitions.\<close>

definition eight_bit_table ::
    "unicode_data \<Rightarrow> (32 word \<times> (16 word \<Rightarrow> 8 word option option) \<times> (8 word \<Rightarrow> 16 word option option)
      \<times> CFStringEncodingConverter) set" where
  "eight_bit_table ud =
     {(kCFStringEncodingASCII, CFToASCII (maps_paragraph ud), CFFromASCII, CFConverterASCII ud),
      (kCFStringEncodingISOLatin1, CFToISOLatin1 (maps_paragraph ud), CFFromISOLatin1, CFConverterISOLatin1 ud),
      (kCFStringEncodingMacRoman, CFToMacRoman, CFFromMacRoman, CFConverterMacRoman ud),
      (kCFStringEncodingWindowsLatin1, CFToWinLatin1, CFFromWinLatin1, CFConverterWinLatin1 ud),
      (kCFStringEncodingNextStepLatin, CFToNextStepLatin (maps_paragraph ud), CFFromNextStepLatin,
       CFConverterNextStepLatin ud)}"

lemmas encoding_numbers = kCFStringEncodingASCII_def kCFStringEncodingISOLatin1_def kCFStringEncodingMacRoman_def
  kCFStringEncodingWindowsLatin1_def kCFStringEncodingNextStepLatin_def kCFStringEncodingUTF8_def

lemma eight_bit_table_converter:
  "(e, to, from, def) \<in> eight_bit_table ud \<Longrightarrow> eight_bit_converter to from (new_converter ud def)"
  by (auto simp: eight_bit_table_def ascii_converter.eight_bit_converter_axioms
      iso_latin1_converter.eight_bit_converter_axioms mac_roman_converter.eight_bit_converter_axioms
      win_latin1_converter.eight_bit_converter_axioms next_step_converter.eight_bit_converter_axioms)

lemma eight_bit_table_definition:
  assumes "(e, to, from, def) \<in> eight_bit_table ud"
  shows "CFStringEncodingConverterGetDefinition ud external e = Some def" "e \<noteq> kCFStringEncodingUTF8"
    "external_class def = False" "maxBytesPerChar def = 1" "defToBytesFallback def = None" "defToUnicodeFallback def = None"
  using assms unfolding eight_bit_table_def
  by (auto simp: CFStringEncodingConverterGetDefinition_def encoding_numbers external_class_def CFConverterASCII_def
      CFConverterISOLatin1_def CFConverterMacRoman_def CFConverterWinLatin1_def CFConverterNextStepLatin_def)

text \<open>No byte of an encoding stands for a combining character.\<close>

lemma not_combining: "u < 0x300 \<or> 0x360 \<le> u \<Longrightarrow> CFStringEncodingIsValidCombiningCharacterForLatin1 u = Some False"
  by (auto simp: CFStringEncodingIsValidCombiningCharacterForLatin1_def)

lemma tables_not_combining:
  "list_all (\<lambda>u. u < 0x300 \<or> 0x360 \<le> u) macRoman_to_uni"
  "list_all (\<lambda>u. u < 0x300 \<or> 0x360 \<le> u) cp1252_to_uni"
  "list_all (\<lambda>u. u < 0x300 \<or> 0x360 \<le> u) NSToPrecompUnicodeTable"
  unfolding macRoman_to_uni_def cp1252_to_uni_def NSToPrecompUnicodeTable_def by simp_all

lemma byte_not_combining: "ucast (b :: 8 word) < (0x300 :: 16 word)"
  by (simp add: word_less_nat_alt unat_ucast_byte unsigned_less order.strict_trans [OF unsigned_less [of b]])

lemma decoded_not_combining:
  assumes "(e, to, from, def) \<in> eight_bit_table ud" "from b = Some (Some u)"
  shows "isValidCombiningChar def = None \<or> the (isValidCombiningChar def) u = Some False"
proof -
  have "u < 0x300 \<or> 0x360 \<le> u"
    using assms tables_not_combining byte_not_combining [of b] unfolding eight_bit_table_def
    by (auto simp: CFFromASCII_def CFFromISOLatin1_def CFFromMacRoman_def CFFromWinLatin1_def CFFromNextStepLatin_def
        rd_eq_Some_iff bind_eq_Some_conv list_all_length split: if_splits option.splits)
  then show ?thesis
    using assms(1) not_combining [of u] unfolding eight_bit_table_def
    by (auto simp: CFConverterASCII_def CFConverterISOLatin1_def CFConverterMacRoman_def CFConverterWinLatin1_def
        CFConverterNextStepLatin_def)
qed

subsection \<open>The table of converters\<close>

definition slot_of :: "32 word \<Rightarrow> converter_table \<Rightarrow> 32 word \<Rightarrow> converter_ref option" where
  "slot_of systemEncoding tb encoding =
     (case common_slot systemEncoding encoding of
        None \<Rightarrow> mappingTable tb encoding
      | Some i \<Rightarrow> commonConverters tb ! i)"

text \<open>The entries of the block in use after the current one are unused.\<close>

definition blocks_ok :: "converter_table \<Rightarrow> bool" where
  "blocks_ok tb \<longleftrightarrow> (case allocatedEntries tb of
     None \<Rightarrow> allocatedSize tb = 0
   | Some b \<Rightarrow> b < length (blocks tb) \<and> allocatedSize tb = NUM_OF_ENTRIES_CYCLE
       \<and> length (blocks tb ! b) = NUM_OF_ENTRIES_CYCLE
       \<and> (\<forall>i. currentIndex tb < i \<longrightarrow> i < NUM_OF_ENTRIES_CYCLE \<longrightarrow> blocks tb ! b ! i = None))"

text \<open>Every encoding that was looked up has an entry of its own, with its definition; the function that was
  kept for UTF-8 is the one of its converter.\<close>

definition table_ok ::
    "unicode_data \<Rightarrow> (32 word \<Rightarrow> CFStringEncodingConverter option) \<Rightarrow> 32 word \<Rightarrow> converter_table \<Rightarrow> bool" where
  "table_ok ud external systemEncoding tb \<longleftrightarrow> blocks_ok tb \<and> length (commonConverters tb) = 3
     \<and> (\<forall>e r. slot_of systemEncoding tb e = Some r \<longrightarrow>
          (\<exists>conv. converter_at tb r = Some conv
            \<and> CFStringEncodingConverterGetDefinition ud external e = Some (conv_definition conv)))
     \<and> (\<forall>e e' r. slot_of systemEncoding tb e = Some r \<longrightarrow> slot_of systemEncoding tb e' = Some r \<longrightarrow> e = e')
     \<and> toUTF8 tb \<in> {None, Some CFToUTF8}"

text \<open>No fallback was registered.\<close>

definition default_fallbacks :: "unicode_data \<Rightarrow> converter_table \<Rightarrow> bool" where
  "default_fallbacks ud tb \<longleftrightarrow>
     (\<forall>r conv. converter_at tb r = Some conv \<longrightarrow> conv = new_converter ud (conv_definition conv))"

lemma set_converter_ok:
  assumes "fst r < length (blocks tb)" "snd r < length (blocks tb ! fst r)"
  shows "\<exists>tb'. set_converter r conv tb = Some tb' \<and> converter_at tb' = (converter_at tb)(r \<mapsto> conv)
    \<and> commonConverters tb' = commonConverters tb \<and> mappingTable tb' = mappingTable tb \<and> toUTF8 tb' = toUTF8 tb
    \<and> currentIndex tb' = currentIndex tb \<and> allocatedSize tb' = allocatedSize tb \<and> allocatedEntries tb' = allocatedEntries tb
    \<and> length (blocks tb') = length (blocks tb)
    \<and> (\<forall>b < length (blocks tb). length (blocks tb' ! b) = length (blocks tb ! b)
        \<and> (\<forall>i. (b, i) \<noteq> r \<longrightarrow> blocks tb' ! b ! i = blocks tb ! b ! i))"
proof -
  let ?tb = "tb\<lparr>blocks := (blocks tb)[fst r := (blocks tb ! fst r)[snd r := Some conv]]\<rparr>"
  have "converter_at ?tb q = ((converter_at tb)(r \<mapsto> conv)) q" for q
    using assms by (cases q; cases r) (auto simp: converter_at_def rd_def nth_list_update)
  then show ?thesis
    using assms by (intro exI [of _ ?tb]) (auto simp: set_converter_def rd_Some wr_Some nth_list_update fun_eq_iff)
qed

lemma from_definition:
  assumes "blocks_ok tb"
  shows "\<exists>r tb'. CFEncodingConverterFromDefinition ud def tb = Some (r, tb') \<and> converter_at tb r = None
    \<and> converter_at tb' = (converter_at tb)(r \<mapsto> new_converter ud def) \<and> blocks_ok tb'
    \<and> commonConverters tb' = commonConverters tb \<and> mappingTable tb' = mappingTable tb \<and> toUTF8 tb' = toUTF8 tb"
proof (cases "allocatedSize tb \<le> currentIndex tb + 1")
  case True
  let ?r = "(length (blocks tb), 0)"
  let ?tb = "tb\<lparr>currentIndex := 0, blocks := blocks tb @ [replicate NUM_OF_ENTRIES_CYCLE None],
    allocatedEntries := Some (length (blocks tb)), allocatedSize := NUM_OF_ENTRIES_CYCLE\<rparr>"
  have r: "fst ?r < length (blocks ?tb)" "snd ?r < length (blocks ?tb ! fst ?r)" by (simp_all add: NUM_OF_ENTRIES_CYCLE_def)
  obtain tb' where tb': "set_converter ?r (new_converter ud def) ?tb = Some tb'"
    "converter_at tb' = (converter_at ?tb)(?r \<mapsto> new_converter ud def)"
    "commonConverters tb' = commonConverters ?tb \<and> toUTF8 tb' = toUTF8 ?tb" "mappingTable tb' = mappingTable ?tb"
    "currentIndex tb' = 0" "allocatedSize tb' = NUM_OF_ENTRIES_CYCLE" "allocatedEntries tb' = Some (length (blocks tb))"
    "length (blocks tb') = length (blocks ?tb)"
    "\<forall>b < length (blocks ?tb). length (blocks tb' ! b) = length (blocks ?tb ! b)
      \<and> (\<forall>i. (b, i) \<noteq> ?r \<longrightarrow> blocks tb' ! b ! i = blocks ?tb ! b ! i)"
    using set_converter_ok [OF r, of "new_converter ud def"] by auto
  have "converter_at ?tb q = converter_at tb q" for q
    by (cases q) (auto simp: converter_at_def rd_def nth_append NUM_OF_ENTRIES_CYCLE_def)
  then have "converter_at ?tb = converter_at tb" by blast
  moreover have "blocks_ok tb'"
    using tb'(5-8) tb'(9) [rule_format, of "length (blocks tb)"] by (simp add: blocks_ok_def)
  ultimately show ?thesis
    using True tb' by (intro exI [of _ ?r] exI [of _ tb'])
      (simp add: CFEncodingConverterFromDefinition_def converter_at_def rd_def)
next
  case False
  then obtain b where b: "allocatedEntries tb = Some b" "b < length (blocks tb)" "allocatedSize tb = NUM_OF_ENTRIES_CYCLE"
    "length (blocks tb ! b) = NUM_OF_ENTRIES_CYCLE"
    "\<forall>i. currentIndex tb < i \<longrightarrow> i < NUM_OF_ENTRIES_CYCLE \<longrightarrow> blocks tb ! b ! i = None"
    using assms by (auto simp: blocks_ok_def split: option.splits)
  let ?r = "(b, currentIndex tb + 1)" and ?tb = "tb\<lparr>currentIndex := currentIndex tb + 1\<rparr>"
  have r: "fst ?r < length (blocks ?tb)" "snd ?r < length (blocks ?tb ! fst ?r)" using b False by simp_all
  obtain tb' where tb': "set_converter ?r (new_converter ud def) ?tb = Some tb'"
    "converter_at tb' = (converter_at ?tb)(?r \<mapsto> new_converter ud def)"
    "commonConverters tb' = commonConverters ?tb \<and> toUTF8 tb' = toUTF8 ?tb" "mappingTable tb' = mappingTable ?tb"
    "currentIndex tb' = currentIndex tb + 1" "allocatedSize tb' = allocatedSize tb" "allocatedEntries tb' = allocatedEntries tb"
    "length (blocks tb') = length (blocks ?tb)"
    "\<forall>b < length (blocks ?tb). length (blocks tb' ! b) = length (blocks ?tb ! b)
      \<and> (\<forall>i. (b, i) \<noteq> ?r \<longrightarrow> blocks tb' ! b ! i = blocks ?tb ! b ! i)"
    using set_converter_ok [OF r, of "new_converter ud def"] by auto
  have "converter_at ?tb = converter_at tb" by (simp add: converter_at_def fun_eq_iff)
  moreover have "converter_at tb ?r = None" using b False by (simp add: converter_at_def rd_Some)
  moreover have "blocks_ok tb'" using b tb'(5-9) by (simp add: blocks_ok_def)
  ultimately show ?thesis
    using False b tb' by (intro exI [of _ ?r] exI [of _ tb']) (simp add: CFEncodingConverterFromDefinition_def)
qed

lemma common_slot_less: "common_slot sys e = Some i \<Longrightarrow> i < 3"
  by (auto simp: common_slot_def split: if_splits)

lemma common_slot_eq: "common_slot sys e = Some i \<Longrightarrow> common_slot sys e' = Some i \<Longrightarrow> e = e'"
  by (auto simp: common_slot_def split: if_splits)

lemma slot_of_update:
  assumes "length (commonConverters tb) = 3"
    and "tb' = (case common_slot sys e of None \<Rightarrow> tb\<lparr>mappingTable := (mappingTable tb)(e \<mapsto> r)\<rparr>
      | Some i \<Rightarrow> tb\<lparr>commonConverters := (commonConverters tb)[i := Some r]\<rparr>)"
  shows "slot_of sys tb' = (slot_of sys tb)(e \<mapsto> r)"
  using assms common_slot_less common_slot_eq
  by (force simp: slot_of_def fun_eq_iff nth_list_update split: option.splits)

lemma get_converter:
  assumes "table_ok ud external sys tb"
  shows "\<exists>r tb'. CFGetConverter ud external sys e tb = Some (r, tb') \<and> table_ok ud external sys tb'
    \<and> (default_fallbacks ud tb \<longrightarrow> default_fallbacks ud tb')
    \<and> converter_at tb \<subseteq>\<^sub>m converter_at tb' \<and> slot_of sys tb' e = r
    \<and> (case r of None \<Rightarrow> CFStringEncodingConverterGetDefinition ud external e = None \<and> tb' = tb
       | Some q \<Rightarrow> \<exists>conv. converter_at tb' q = Some conv
           \<and> CFStringEncodingConverterGetDefinition ud external e = Some (conv_definition conv))"
proof -
  have blocks: "blocks_ok tb" and three: "length (commonConverters tb) = 3"
    and slots: "\<And>e r. slot_of sys tb e = Some r \<Longrightarrow> \<exists>conv. converter_at tb r = Some conv
      \<and> CFStringEncodingConverterGetDefinition ud external e = Some (conv_definition conv)"
    and inj: "\<And>e e' r. slot_of sys tb e = Some r \<Longrightarrow> slot_of sys tb e' = Some r \<Longrightarrow> e = e'"
    and kept: "toUTF8 tb \<in> {None, Some CFToUTF8}"
    using assms unfolding table_ok_def by blast+
  have lookup: "(case common_slot sys e of None \<Rightarrow> Some (mappingTable tb e) | Some i \<Rightarrow> rd (commonConverters tb) i)
      = Some (slot_of sys tb e)"
    using three common_slot_less by (auto simp: slot_of_def rd_Some split: option.splits)
  show ?thesis
  proof (cases "slot_of sys tb e")
    case (Some r)
    then show ?thesis using lookup slots [OF Some] assms
      by (intro exI [of _ "Some r"] exI [of _ tb]) (simp add: CFGetConverter_def)
  next
    case unused: None
    show ?thesis
    proof (cases "CFStringEncodingConverterGetDefinition ud external e")
      case None
      then show ?thesis using lookup unused assms
        by (intro exI [of _ None] exI [of _ tb]) (simp add: CFGetConverter_def)
    next
      case (Some def)
      obtain r tb1 where new: "CFEncodingConverterFromDefinition ud def tb = Some (r, tb1)" "converter_at tb r = None"
        "converter_at tb1 = (converter_at tb)(r \<mapsto> new_converter ud def)" "blocks_ok tb1"
        "commonConverters tb1 = commonConverters tb" "mappingTable tb1 = mappingTable tb" "toUTF8 tb1 = toUTF8 tb"
        using from_definition [OF blocks] by blast
      define tb2 where "tb2 = (case common_slot sys e of None \<Rightarrow> tb1\<lparr>mappingTable := (mappingTable tb1)(e \<mapsto> r)\<rparr>
        | Some i \<Rightarrow> tb1\<lparr>commonConverters := (commonConverters tb1)[i := Some r]\<rparr>)"
      have run: "CFGetConverter ud external sys e tb = Some (Some r, tb2)"
        using lookup unused Some new(1) three new(5) common_slot_less
        by (auto simp: CFGetConverter_def tb2_def wr_Some split: option.splits)
      have "slot_of sys tb1 = slot_of sys tb" unfolding slot_of_def new(5,6) by (rule refl)
      then have slot: "slot_of sys tb2 = (slot_of sys tb)(e \<mapsto> r)"
        using slot_of_update [OF _ tb2_def] three new(5) by simp
      have tb2: "converter_at tb2 = (converter_at tb)(r \<mapsto> new_converter ud def)" "blocks_ok tb2"
        "length (commonConverters tb2) = 3" "toUTF8 tb2 = toUTF8 tb"
        using new three by (auto simp: tb2_def converter_at_def blocks_ok_def fun_eq_iff split: option.splits)
      have fresh: "slot_of sys tb e' \<noteq> Some r" for e' using slots [of e' r] new(2) by auto
      have "table_ok ud external sys tb2"
        using tb2 slots inj fresh Some kept unfolding table_ok_def slot by (auto split: if_splits)
      moreover have "default_fallbacks ud tb2" if "default_fallbacks ud tb"
        using that by (auto simp: default_fallbacks_def tb2(1))
      moreover have "converter_at tb \<subseteq>\<^sub>m converter_at tb2"
        using new(2) by (auto simp: tb2(1) map_le_def)
      ultimately show ?thesis
        using run slot tb2(1) Some by (intro exI [of _ "Some r"] exI [of _ tb2]) simp
    qed
  qed
qed

lemma initial_table_ok: "table_ok ud external sys initial_table" "default_fallbacks ud initial_table"
proof -
  have "slot_of sys initial_table e = None" for e
    by (auto simp: slot_of_def initial_table_def common_slot_def)
  then show "table_ok ud external sys initial_table"
    by (simp add: table_ok_def blocks_ok_def) (simp add: initial_table_def)
  show "default_fallbacks ud initial_table"
    by (simp add: default_fallbacks_def converter_at_def initial_table_def rd_def)
qed

lemma get_built_in:
  assumes "table_ok ud external sys tb" "default_fallbacks ud tb"
    and "CFStringEncodingConverterGetDefinition ud external e = Some def"
  obtains r tb' where "CFGetConverter ud external sys e tb = Some (Some r, tb')" "table_ok ud external sys tb'"
    "default_fallbacks ud tb'" "converter_at tb' r = Some (new_converter ud def)" "slot_of sys tb' e = Some r"
proof -
  obtain r tb' where get: "CFGetConverter ud external sys e tb = Some (r, tb')" "table_ok ud external sys tb'"
    "default_fallbacks ud tb'" "slot_of sys tb' e = r"
    "case r of None \<Rightarrow> CFStringEncodingConverterGetDefinition ud external e = None \<and> tb' = tb
       | Some q \<Rightarrow> \<exists>conv. converter_at tb' q = Some conv
           \<and> CFStringEncodingConverterGetDefinition ud external e = Some (conv_definition conv)"
    using get_converter [OF assms(1), of e] assms(2) by blast
  then obtain q conv where q: "r = Some q" "converter_at tb' q = Some conv" "conv_definition conv = def"
    using assms(3) by (auto split: option.splits)
  then have "conv = new_converter ud def" using get(3) unfolding default_fallbacks_def by blast
  then show thesis using that [of q tb'] get q by simp
qed

lemma get_again:
  assumes "length (commonConverters tb) = 3" "slot_of sys tb e = Some r"
  shows "CFGetConverter ud external sys e tb = Some (Some r, tb)"
proof -
  have "(case common_slot sys e of None \<Rightarrow> Some (mappingTable tb e) | Some i \<Rightarrow> rd (commonConverters tb) i)
      = Some (slot_of sys tb e)"
    using assms(1) common_slot_less by (auto simp: slot_of_def rd_Some split: option.splits)
  then show ?thesis using assms(2) by (simp add: CFGetConverter_def)
qed

lemma bytes_to_unicode_run:
  assumes "CFGetConverter ud external sys e tb = Some (Some r, tb')" "converter_at tb' r = Some conv"
    and "external_class (conv_definition conv) = False"
  shows "CFStringEncodingBytesToUnicode ud external ext sys tb e flags text n block m
    = Some (convert_to_unicode ud conv flags text n block m, tb')"
  using assms by (simp add: CFStringEncodingBytesToUnicode_def)

lemma unicode_to_bytes_run:
  assumes "CFGetConverter ud external sys e tb = Some (Some r, tb')" "converter_at tb' r = Some conv"
    and "external_class (conv_definition conv) = False" "e \<noteq> kCFStringEncodingUTF8"
  shows "CFStringEncodingUnicodeToBytes ud external dec ext sys tb e flags text n block m
    = Some (convert_to_bytes conv flags text n block m, tb')"
  using assms by (simp add: CFStringEncodingUnicodeToBytes_def)

lemma eight_bit_decode_run:
  assumes "(e, to, from, def) \<in> eight_bit_table ud" "table_ok ud external sys tb" "default_fallbacks ud tb"
    and "\<not> canonical_flags flags" "n \<le> length text" "m \<noteq> 0 \<longrightarrow> m \<le> length block"
  shows "\<exists>tb'. CFStringEncodingBytesToUnicode ud external ext sys tb e flags text n block m
      = Some (Some (Returns (conversion from 0x3F (is_set flags kCFStringEncodingAllowLossyConversion) m (take n text) block)),
          tb')
    \<and> table_ok ud external sys tb' \<and> default_fallbacks ud tb'"
proof -
  note def = eight_bit_table_definition [OF assms(1)]
  obtain r tb' where get: "CFGetConverter ud external sys e tb = Some (Some r, tb')" "table_ok ud external sys tb'"
    "default_fallbacks ud tb'" "converter_at tb' r = Some (new_converter ud def)"
    using get_built_in [OF assms(2,3) def(1)] by blast
  then show ?thesis
    using bytes_to_unicode_run [OF get(1,4)] def(3)
      eight_bit_converter.convert_to_unicode_eq [OF eight_bit_table_converter [OF assms(1)] assms(4-6)] by simp
qed

lemma eight_bit_encode_run:
  assumes "(e, to, from, def) \<in> eight_bit_table ud" "table_ok ud external sys tb" "default_fallbacks ud tb"
    and "n \<le> length text" "m \<noteq> 0 \<longrightarrow> m \<le> length block"
    and "isValidCombiningChar def = None \<or> (\<forall>u \<in> set (take n text). the (isValidCombiningChar def) u = Some False)"
    and "is_set flags kCFStringEncodingAllowLossyConversion \<longrightarrow> CFStringEncodingMaskToLossyByte flags \<noteq> 0"
  shows "\<exists>tb'. CFStringEncodingUnicodeToBytes ud external dec ext sys tb e flags text n block m
      = Some (Some (Returns (conversion to (CFStringEncodingMaskToLossyByte flags)
          (is_set flags kCFStringEncodingAllowLossyConversion) m (take n text) block)), tb')
    \<and> table_ok ud external sys tb' \<and> default_fallbacks ud tb'"
proof -
  note def = eight_bit_table_definition [OF assms(1)]
  obtain r tb' where get: "CFGetConverter ud external sys e tb = Some (Some r, tb')" "table_ok ud external sys tb'"
    "default_fallbacks ud tb'" "converter_at tb' r = Some (new_converter ud def)"
    using get_built_in [OF assms(2,3) def(1)] by blast
  have "convert_to_bytes (new_converter ud def) flags text n block m = Some (Returns (conversion to
      (CFStringEncodingMaskToLossyByte flags) (is_set flags kCFStringEncodingAllowLossyConversion) m (take n text) block))"
    using eight_bit_converter.convert_to_bytes_eq [OF eight_bit_table_converter [OF assms(1)] assms(4,5)] assms(6,7) by simp
  then show ?thesis using unicode_to_bytes_run [OF get(1,4)] def(2,3) get(2,3) by simp
qed

subsection \<open>UTF-8\<close>

lemma utf8_definition: "CFStringEncodingConverterGetDefinition ud external kCFStringEncodingUTF8 = Some (CFConverterUTF8 ud)"
  "external_class (CFConverterUTF8 ud) = False"
  by (simp_all add: CFStringEncodingConverterGetDefinition_def external_class_def CFConverterUTF8_def)

lemma utf8_procedure_run:
  assumes "table_ok ud external sys tb" "default_fallbacks ud tb"
  obtains tb' where "utf8_procedure ud external sys tb = Some (CFToUTF8, tb')" "table_ok ud external sys tb'"
    "default_fallbacks ud tb'" "toUTF8 tb' = Some CFToUTF8"
proof (cases "toUTF8 tb")
  case None
  obtain r tb1 where get: "CFGetConverter ud external sys kCFStringEncodingUTF8 tb = Some (Some r, tb1)"
    "table_ok ud external sys tb1" "default_fallbacks ud tb1"
    "converter_at tb1 r = Some (new_converter ud (CFConverterUTF8 ud))"
    using get_built_in [OF assms utf8_definition(1)] by blast
  let ?tb = "tb1\<lparr>toUTF8 := Some CFToUTF8\<rparr>"
  have same: "slot_of sys ?tb = slot_of sys tb1" "converter_at ?tb = converter_at tb1" "blocks_ok ?tb = blocks_ok tb1"
    by (simp_all add: slot_of_def converter_at_def blocks_ok_def fun_eq_iff split: option.splits)
  show thesis
  proof (rule that)
    show "utf8_procedure ud external sys tb = Some (CFToUTF8, ?tb)"
      using None get(1,4) by (simp add: utf8_procedure_def CFStringEncodingGetConverter_def CFConverterUTF8_def)
    show "table_ok ud external sys ?tb" "default_fallbacks ud ?tb"
      using get(2,3) same by (simp_all add: table_ok_def default_fallbacks_def)
  qed simp
next
  case (Some f)
  then show thesis using that [of tb] assms by (auto simp: utf8_procedure_def table_ok_def)
qed

lemma TO_UNICODE_utf8:
  "TO_UNICODE ud (new_converter ud (CFConverterUTF8 ud)) flags = CFFromUTF8 flags (decomposable ud) (decompose ud)"
  by (simp add: TO_UNICODE_def CFConverterUTF8_def fun_eq_iff)

lemma at_offset_0: "at_offset 0 f block = f block"
  by (cases "f block") (auto simp: at_offset_def)

lemma utf8_decode_once:
  assumes "TO_UNICODE ud conv flags text n block m = Some (k, used, block')" "0 < n" "k \<le> n"
    and "k < n \<longrightarrow> m = 0 \<and> \<not> is_set flags kCFStringEncodingAllowLossyConversion"
  shows "convert_to_unicode ud conv flags text n block m
    = Some (Returns (if k = n then ConversionSuccess else InvalidInputStream, k, used, block'))"
proof -
  let ?step = "to_unicode_step ud conv flags text n m"
  have room: "room m 0 = m" by (simp add: room_def)
  show ?thesis
  proof (cases "k = n")
    case True
    have "?step (0, 0, block) = Some (Inl (n, used, block'))"
      using assms(1,2) True by (auto simp: to_unicode_step_def at_offset_0 room)
    moreover have "?step (n, used, block') = Some (Inr (ConversionSuccess, n, used, block'))"
      by (simp add: to_unicode_step_def)
    ultimately show ?thesis using True by (simp add: convert_to_unicode_def iterate_Inl iterate_Inr)
  next
    case False
    then have "?step (0, 0, block) = Some (Inr (InvalidInputStream, k, used, block'))"
      using assms by (simp add: to_unicode_step_def at_offset_0 room_def unicode_filled_up_def)
    then show ?thesis using False by (simp add: convert_to_unicode_def iterate_Inr)
  qed
qed

lemma convert_to_unicode_Nil: "convert_to_unicode ud conv flags text 0 block m = Some (Returns (ConversionSuccess, 0, 0, block))"
  by (simp add: convert_to_unicode_def to_unicode_step_def iterate_Inr)

lemma utf8_decode_all_run:
  assumes "table_ok ud external sys tb" "default_fallbacks ud tb"
    and "CFFromUTF8 flags (decomposable ud) (decompose ud) text n block m = Some (k, used, block')" "k \<le> n"
    and "k < n \<longrightarrow> m = 0 \<and> \<not> is_set flags kCFStringEncodingAllowLossyConversion"
    and "n = 0 \<longrightarrow> used = 0 \<and> block' = block"
  shows "\<exists>tb'. CFStringEncodingBytesToUnicode ud external ext sys tb kCFStringEncodingUTF8 flags text n block m
    = Some (Some (Returns (if k = n then ConversionSuccess else InvalidInputStream, k, used, block')), tb')"
proof -
  obtain r tb' where get: "CFGetConverter ud external sys kCFStringEncodingUTF8 tb = Some (Some r, tb')"
    "converter_at tb' r = Some (new_converter ud (CFConverterUTF8 ud))"
    using get_built_in [OF assms(1,2) utf8_definition(1)] by blast
  have "convert_to_unicode ud (new_converter ud (CFConverterUTF8 ud)) flags text n block m
      = Some (Returns (if k = n then ConversionSuccess else InvalidInputStream, k, used, block'))"
  proof (cases "n = 0")
    case True
    then show ?thesis using assms(4,6) by (simp add: convert_to_unicode_Nil)
  next
    case False
    then show ?thesis using utf8_decode_once assms(3-5) by (simp add: TO_UNICODE_utf8)
  qed
  then show ?thesis using bytes_to_unicode_run [OF get] utf8_definition(2) by simp
qed

subsection \<open>Combining characters\<close>

text \<open>The situation in which the driver goes wrong: an encoding with precomposition, and a text that consists of
  one character and combining characters, of which the encoding has no composition.\<close>

definition latin_converters :: "unicode_data \<Rightarrow> ((16 word \<Rightarrow> 8 word option option) \<times> CFStringEncodingConverter) set" where
  "latin_converters ud =
     {(CFToISOLatin1 (maps_paragraph ud), CFConverterISOLatin1 ud), (CFToMacRoman, CFConverterMacRoman ud),
      (CFToWinLatin1, CFConverterWinLatin1 ud), (CFToNextStepLatin (maps_paragraph ud), CFConverterNextStepLatin ud)}"

abbreviation combining_mark :: "16 word \<Rightarrow> bool option" where
  "combining_mark \<equiv> CFStringEncodingIsValidCombiningCharacterForLatin1"

lemma latin_converter:
  assumes "(to, def) \<in> latin_converters ud"
  obtains "from" pre where "eight_bit_converter to from (new_converter ud def)" "isValidCombiningChar def = Some combining_mark"
    "maxBytesPerChar def = 1" "defToBytesFallback def = None" "toBytesPrecompose def = Some pre"
    "\<And>text n block m. n \<le> length text \<Longrightarrow> pre text n block m
      = to_precompose to (CFStringEncodingPrecomposeLatinCharacter (nonbase ud) (precompose ud) (take n text)) block m"
proof -
  consider "to = CFToISOLatin1 (maps_paragraph ud)" "def = CFConverterISOLatin1 ud"
    | "to = CFToMacRoman" "def = CFConverterMacRoman ud" | "to = CFToWinLatin1" "def = CFConverterWinLatin1 ud"
    | "to = CFToNextStepLatin (maps_paragraph ud)" "def = CFConverterNextStepLatin ud"
    using assms unfolding latin_converters_def by blast
  then show thesis
  proof cases
    case 1
    show ?thesis
      by (rule that [of CFFromISOLatin1 "of_characters (CFToISOLatin1Precompose (maps_paragraph ud) (nonbase ud) (precompose ud))"],
          unfold 1, rule iso_latin1_converter.eight_bit_converter_axioms)
        (simp_all add: CFConverterISOLatin1_def of_characters_def CFToISOLatin1Precompose_def)
  next
    case 2
    show ?thesis
      by (rule that [of CFFromMacRoman "of_characters (CFToMacRomanPrecompose (nonbase ud) (precompose ud))"],
          unfold 2, rule mac_roman_converter.eight_bit_converter_axioms)
        (simp_all add: CFConverterMacRoman_def of_characters_def CFToMacRomanPrecompose_def)
  next
    case 3
    show ?thesis
      by (rule that [of CFFromWinLatin1 "of_characters (CFToWinLatin1Precompose (nonbase ud) (precompose ud))"],
          unfold 3, rule win_latin1_converter.eight_bit_converter_axioms)
        (simp_all add: CFConverterWinLatin1_def of_characters_def CFToWinLatin1Precompose_def)
  next
    case 4
    show ?thesis
      by (rule that [of CFFromNextStepLatin
            "of_characters (CFToNextStepLatinPrecompose (maps_paragraph ud) (nonbase ud) (precompose ud))"],
          unfold 4, rule next_step_converter.eight_bit_converter_axioms)
        (simp_all add: CFConverterNextStepLatin_def of_characters_def CFToNextStepLatinPrecompose_def)
  qed
qed

lemma combining_mark_range:
  assumes "combining_mark c = Some True"
  shows "0x300 \<le> c" "c < 0x360"
  using assms by (auto simp: CFStringEncodingIsValidCombiningCharacterForLatin1_def split: if_splits)

lemma tables_without_marks:
  "list_all (\<lambda>(u, b). u < 0x300 \<or> 0x360 \<le> u) macRoman_from_uni"
  "list_all (\<lambda>(u, b). u < 0x300 \<or> 0x360 \<le> u) cp1252_from_uni"
  "list_all (\<lambda>(u, b). u < 0x300 \<or> 0x360 \<le> u) nextstep_from_tab"
  unfolding macRoman_from_uni_def cp1252_from_uni_def nextstep_from_tab_def by simp_all

lemma lookup_mark:
  assumes "list_all (\<lambda>(u, b). u < 0x300 \<or> 0x360 \<le> u) t" "ascending (map fst t)" "t \<noteq> []" "0x300 \<le> c" "c < 0x360"
  shows "CFStringEncodingUnicodeTo8BitEncoding t (length t) c = Some None"
proof -
  have "map_of t c = None" using assms(1,4,5) by (auto simp: map_of_eq_None_iff list_all_iff not_le)
  then show ?thesis using lookup_8bit [OF assms(2,3)] by simp
qed

lemma mark_not_convertible:
  assumes "(to, def) \<in> latin_converters ud" "combining_mark c = Some True"
  shows "to c = Some None"
proof -
  note c = combining_mark_range [OF assms(2)]
  have tables: "CFStringEncodingUnicodeTo8BitEncoding macRoman_from_uni NUM_MACROMAN_FROM_UNI c = Some None"
    "CFStringEncodingUnicodeTo8BitEncoding cp1252_from_uni NUM_1252_FROM_UNI c = Some None"
    "CFStringEncodingUnicodeTo8BitEncoding nextstep_from_tab NUM_NEXTSTEP_FROM_UNI c = Some None"
    using lookup_mark [OF tables_without_marks(1) mac_roman_table(1) tables_not_Nil(1) c]
      lookup_mark [OF tables_without_marks(2) cp1252_table(1) tables_not_Nil(2) c]
      lookup_mark [OF tables_without_marks(3) next_step_table(1) tables_not_Nil(3) c]
    by (simp_all add: mac_roman_table(2) cp1252_table(2) next_step_table(2))
  have range: "\<not> c \<le> 0xFF" "\<not> c < 0x80" "c \<noteq> 0x2029"
    using c by (auto simp: word_le_nat_alt word_less_nat_alt)
  show ?thesis
    using assms(1) tables range unfolding latin_converters_def
    by (auto simp: CFToISOLatin1_def CFToMacRoman_def CFToWinLatin1_def CFToNextStepLatin_def CFIsParagraphSeparator_def
        ParagraphSeparator_def)
qed

lemma mark_fallback:
  assumes "combining_mark c = Some True" "\<not> whitespace ud (ucast c)" "\<not> whitespace_newline ud (ucast c)"
    and "\<not> decomposable_set ud (ucast c)"
  shows "CFDefaultToBytesFallbackProc ud (c # text) n block m
    = map_option (\<lambda>block. (1, 1, block)) (if m \<noteq> 0 then wr block 0 0x3F else Some block)"
proof -
  note c = combining_mark_range [OF assms(1)]
  have "\<not> c < 0xA0" "\<not> c < 0x100" "\<not> 0xD800 \<le> c" "c \<noteq> 0x2026"
    using c by (auto simp: word_le_nat_alt word_less_nat_alt)
  then show ?thesis
    using assms(2-4) by (subst CFDefaultToBytesFallbackProc.simps)
      (cases "wr block 0 0x3F"; simp add: rd_def kSurrogateHighStart_def)
qed

context eight_bit_converter begin

lemma TO_BYTE_bad:
  "to_byte u = Some None \<Longrightarrow> 0 < n \<Longrightarrow> TO_BYTE conv flags (u # text) n block m = Some (0, 0, block)"
  by (cases "if m \<noteq> 0 \<and> m < n then m else n") (auto simp: TO_BYTE_plain rd_def split: if_splits)

lemma TO_BYTE_one:
  assumes "to_byte u = Some (Some b)" "to_byte v = Some None" "1 < n" "m \<noteq> 1" "m \<noteq> 0 \<longrightarrow> block \<noteq> []"
  shows "TO_BYTE conv flags (u # v # text) n block m = Some (1, 1, if m = 0 then block else block[0 := b])"
proof -
  let ?k = "if m \<noteq> 0 \<and> m < n then m else n"
  define k where "k = ?k - 2"
  have "?k = Suc (Suc k)" using assms(3,4) by (auto simp: k_def)
  then show ?thesis using assms(1,2,5) by (simp add: TO_BYTE_plain rd_def wr_Some)
qed

end

text \<open>The flags of a lossy conversion that may compose.\<close>

definition lossy_flags :: "32 word \<Rightarrow> bool" where
  "lossy_flags flags \<longleftrightarrow> is_set flags kCFStringEncodingAllowLossyConversion
     \<and> \<not> is_set flags kCFStringEncodingSubstituteCombinings \<and> \<not> is_set flags kCFStringEncodingIgnoreCombinings"

lemma combining_procs_lossy:
  "lossy_flags flags \<Longrightarrow> combining_procs def flags
    = (isValidCombiningChar def, toBytesPrecompose def, flags OR kCFStringEncodingComposeCombinings)"
  by (simp add: combining_procs_def lossy_flags_def)

text \<open>One iteration that stops before a combining character whose base has no composition.\<close>

lemma compose_step_none:
  assumes "eight_bit_converter to from (new_converter ud def)" "maxBytesPerChar def = 1"
    and "base_before combining_mark text usedLen = Some base" "0 < used + localUsed"
    and "at_offset (used + localUsed - 1) (\<lambda>block. pre (drop base text) (numChars - base) block
        (room m (used + localUsed - 1))) block = Some (0, None, block)"
    and "is_set flags kCFStringEncodingAllowLossyConversion"
  shows "compose_step (new_converter ud def) combining_mark pre flags text numChars m localUsed (usedLen, used, block)
    = (let used = used + localUsed - 1; lossyByte = CFStringEncodingMaskToLossyByte flags in
       if lossyByte \<noteq> 0 then do {
         marks \<leftarrow> marks_from combining_mark (drop (base + 1) text);
         block \<leftarrow> put_lossy m lossyByte used block;
         Some (Inl (base + 1 + marks, used + 1, block)) }
       else do {
         (n, localUsed, block) \<leftarrow> at_offset used (\<lambda>block. TO_BYTE_FALLBACK (new_converter ud def) (drop (base + 1) text)
             (numChars - (base + 1)) block (room m used)) block;
         Some (Inl (base + 1 + n, used + localUsed, block)) })"
  using assms by (auto simp: compose_step_def Let_def)

lemma to_precompose_none:
  "to (fst composed) = Some None \<Longrightarrow> to_precompose to composed block m = Some (0, None, block)"
  by (simp add: to_precompose_def)

lemma hangs_run:
  assumes latin: "(to, def) \<in> latin_converters ud" and flags: "lossy_flags flags" "CFStringEncodingMaskToLossyByte flags = 0"
    and x: "to x = Some (Some b)" "combining_mark x = Some False"
    and marks: "combining_mark c = Some True" "combining_mark c' = Some True"
    and none: "to (fst (CFStringEncodingPrecomposeLatinCharacter (nonbase ud) (precompose ud) [x, c, c'])) = Some None"
    and question: "\<not> whitespace ud (ucast c)" "\<not> whitespace_newline ud (ucast c)" "\<not> decomposable_set ud (ucast c)"
    and m: "m \<noteq> 0 \<longrightarrow> 2 \<le> m \<and> m \<le> length block"
  shows "convert_to_bytes (new_converter ud def) flags [x, c, c'] 3 block m = None"
proof -
  obtain "from" pre where conv: "eight_bit_converter to from (new_converter ud def)"
    and def: "isValidCombiningChar def = Some combining_mark" "maxBytesPerChar def = 1" "defToBytesFallback def = None"
      "toBytesPrecompose def = Some pre"
    and pre: "\<And>text n block m. n \<le> length text \<Longrightarrow> pre text n block m
      = to_precompose to (CFStringEncodingPrecomposeLatinCharacter (nonbase ud) (precompose ud) (take n text)) block m"
    using latin_converter [OF latin] by blast
  let ?conv = "new_converter ud def" and ?text = "[x, c, c']" and ?block = "if m = 0 then block else block[0 := 0x3F]"
  let ?flags = "flags OR kCFStringEncodingComposeCombinings"
  let ?step = "to_bytes_step ?conv (Some combining_mark) (Some pre) ?flags ?text 3 m"
  have bad: "to c = Some None" "to c' = Some None" using mark_not_convertible [OF latin] marks by blast+
  have lossy: "is_set ?flags kCFStringEncodingAllowLossyConversion" "CFStringEncodingMaskToLossyByte ?flags = 0"
    using flags combining_flags [of flags] by (simp_all add: lossy_flags_def)
  have room0: "room m 0 = m" by (simp add: room_def)
  have pre0: "at_offset 0 (\<lambda>block. pre ?text 3 block (room m 0)) bl = Some (0, None, bl)" for bl
    using pre [of 3 ?text] to_precompose_none [where to = to, OF none] by (simp add: at_offset_0)
  have fallback: "at_offset 0 (\<lambda>block. TO_BYTE_FALLBACK ?conv [c, c'] 2 block (room m 0)) bl
      = Some (1, 1, if m = 0 then bl else bl[0 := 0x3F])" if "m \<noteq> 0 \<longrightarrow> bl \<noteq> []" for bl
    using that mark_fallback [OF marks(1) question]
    by (simp add: at_offset_0 room0 TO_BYTE_FALLBACK_def new_converter_def def wr_Some)
  have composed: "compose_step ?conv combining_mark pre ?flags ?text 3 m localUsed (usedLen, used, bl)
      = Some (Inl (2, 1, if m = 0 then bl else bl[0 := 0x3F]))"
    if "base_before combining_mark ?text usedLen = Some 0" "used + localUsed = 1" "m \<noteq> 0 \<longrightarrow> bl \<noteq> []"
    for localUsed usedLen used bl
  proof -
    have "0 < used + localUsed" "used + localUsed - 1 = 0" using that(2) by simp_all
    then show ?thesis
      using compose_step_none [OF conv def(2) that(1), of used localUsed pre 3 m bl ?flags] pre0 [of bl] lossy
        fallback [OF that(3)] by (simp add: Let_def)
  qed
  have bl: "m \<noteq> 0 \<longrightarrow> block \<noteq> []" using m by auto
  have 1: "?step (0, 0, block) = Some (Inl (2, 1, ?block))"
  proof -
    let ?bl = "if m = 0 then block else block[0 := b]"
    have "TO_BYTE ?conv ?flags ?text 3 block m = Some (1, 1, ?bl)"
      using eight_bit_converter.TO_BYTE_one [OF conv x(1) bad(1), of 3 m] m bl by auto
    moreover have "base_before combining_mark ?text 1 = Some 0" using x(2) by (simp add: rd_def)
    ultimately show ?thesis
      using composed [of 1 0 1 ?bl] m bl marks(1) by (auto simp: to_bytes_step_def at_offset_0 room0 rd_def)
  qed
  have 2: "?step (2, 1, ?block) = Some (Inl (2, 1, ?block))"
  proof -
    have "at_offset 1 (\<lambda>block. TO_BYTE ?conv ?flags [c'] 1 block (room m 1)) ?block = Some (0, 0, ?block)"
      using eight_bit_converter.TO_BYTE_bad [OF conv bad(2)] by (simp add: at_offset_def)
    moreover have "base_before combining_mark ?text 2 = Some 0" using x(2) marks(1) by (simp add: rd_def numeral_2_eq_2)
    ultimately show ?thesis
      using composed [of 2 1 0 ?block] m bl marks(2) by (auto simp: to_bytes_step_def rd_def simp flip: numeral_2_eq_2)
  qed
  have "iterate ?step (0, 0, block) = None"
    by (rule iterate_diverges [where P = "\<lambda>s. s = (0, 0, block) \<or> s = (2, 1, ?block)"]) (use 1 2 in blast)+
  then show ?thesis by (simp add: convert_to_bytes_def combining_procs_lossy [OF flags(1)] def)
qed

lemma marks_from_all: "\<forall>c \<in> set cs. combining_mark c = Some True \<Longrightarrow> marks_from combining_mark cs = None"
  by (induction cs) auto

lemma reads_outside_run:
  assumes latin: "(to, def) \<in> latin_converters ud" and flags: "lossy_flags flags" "CFStringEncodingMaskToLossyByte flags \<noteq> 0"
    and cs: "cs \<noteq> []" "\<forall>c \<in> set cs. combining_mark c = Some True"
    and x: "combining_mark x = Some True \<or> combining_mark x = Some False \<and> (\<exists>b. to x = Some (Some b))
        \<and> to (fst (CFStringEncodingPrecomposeLatinCharacter (nonbase ud) (precompose ud) (x # cs))) = Some None"
    and m: "m \<noteq> 0 \<longrightarrow> 2 \<le> m \<and> m \<le> length block"
  shows "convert_to_bytes (new_converter ud def) flags (x # cs) (length (x # cs)) block m = Some Undefined"
proof -
  obtain "from" pre where conv: "eight_bit_converter to from (new_converter ud def)"
    and def: "isValidCombiningChar def = Some combining_mark" "maxBytesPerChar def = 1" "defToBytesFallback def = None"
      "toBytesPrecompose def = Some pre"
    and pre: "\<And>text n block m. n \<le> length text \<Longrightarrow> pre text n block m
      = to_precompose to (CFStringEncodingPrecomposeLatinCharacter (nonbase ud) (precompose ud) (take n text)) block m"
    using latin_converter [OF latin] by blast
  obtain c cs' where c: "cs = c # cs'" "combining_mark c = Some True" using cs by (cases cs) auto
  let ?conv = "new_converter ud def" and ?n = "length (x # cs)"
  let ?flags = "flags OR kCFStringEncodingComposeCombinings"
  let ?step = "to_bytes_step ?conv (Some combining_mark) (Some pre) ?flags (x # cs) ?n m"
  have bad: "to c = Some None" using mark_not_convertible [OF latin c(2)] .
  have lossy: "is_set ?flags kCFStringEncodingAllowLossyConversion" "CFStringEncodingMaskToLossyByte ?flags \<noteq> 0"
    using flags combining_flags [of flags] by (simp_all add: lossy_flags_def)
  have room0: "room m 0 = m" by (simp add: room_def)
  have bl: "m \<noteq> 0 \<longrightarrow> block \<noteq> []" using m by auto
  have "iterate ?step (0, 0, block) = Some Undefined"
  proof (cases "combining_mark x = Some True")
    case True
    let ?d = "CFStringEncodingMaskToLossyByte ?flags"
    let ?block = "if m = 0 then block else block[0 := ?d]"
    have none: "TO_BYTE ?conv ?flags (x # cs) ?n bl k = Some (0, 0, bl)" "TO_BYTE ?conv ?flags cs (length cs) bl k = Some (0, 0, bl)"
      for bl k
      using eight_bit_converter.TO_BYTE_bad [OF conv mark_not_convertible [OF latin True]]
        eight_bit_converter.TO_BYTE_bad [OF conv bad] by (simp_all add: c)
    have "?step (0, 0, block) = Some (Inl (1, 1, ?block))"
      using m lossy none(1) bl
      by (auto simp: to_bytes_step_def at_offset_0 room0 filled_up_def substitute_def put_lossy_def wr_Some)
    moreover have "?step (1, 1, ?block) = None"
      using m none(2) c(2) True by (auto simp: to_bytes_step_def at_offset_def rd_def c(1) compose_step_def)
    ultimately show ?thesis by (simp add: iterate_Inl iterate_None)
  next
    case False
    then obtain b where x: "combining_mark x = Some False" "to x = Some (Some b)"
      and none: "to (fst (CFStringEncodingPrecomposeLatinCharacter (nonbase ud) (precompose ud) (x # cs))) = Some None"
      using x by auto
    let ?block = "if m = 0 then block else block[0 := b]"
    have "TO_BYTE ?conv ?flags (x # cs) ?n block m = Some (1, 1, ?block)"
      using eight_bit_converter.TO_BYTE_one [OF conv x(2) bad, of ?n m] m bl by (auto simp: c(1))
    moreover have "base_before combining_mark (x # cs) 1 = Some 0" using x(1) by (simp add: rd_def)
    moreover have "at_offset 0 (\<lambda>block. pre (x # cs) ?n block (room m 0)) ?block = Some (0, None, ?block)"
      using pre [of ?n "x # cs"] to_precompose_none [where to = to, OF none] by (simp add: at_offset_0)
    then have "compose_step ?conv combining_mark pre ?flags (x # cs) ?n m 1 (1, 0, ?block) = None"
      using compose_step_none [OF conv def(2) calculation(2), of 0 1 pre ?n m ?block ?flags] lossy marks_from_all [OF cs(2)]
      by simp
    ultimately have "?step (0, 0, block) = None"
      using m bl c by (auto simp: to_bytes_step_def at_offset_0 room0 rd_def)
    then show ?thesis by (simp add: iterate_None)
  qed
  then show ?thesis by (simp add: convert_to_bytes_def combining_procs_lossy [OF flags(1)] def)
qed

subsection \<open>Registering fallbacks\<close>

lemma converter_at_in_blocks:
  "converter_at tb r = Some conv \<Longrightarrow> fst r < length (blocks tb) \<and> snd r < length (blocks tb ! fst r)
    \<and> blocks tb ! fst r ! snd r = Some conv"
  by (auto simp: converter_at_def rd_eq_Some_iff bind_eq_Some_conv)

lemma register_run:
  assumes ok: "table_ok ud external sys tb" and def: "CFStringEncodingConverterGetDefinition ud external e = Some def"
  shows "\<exists>r tb1 tb2 conv. CFGetConverter ud external sys e tb = Some (Some r, tb1) \<and> converter_at tb1 r = Some conv
    \<and> conv_definition conv = def
    \<and> CFStringEncodingRegisterFallbackProcedures ud external sys e toBytes toUnicode tb = Some tb2
    \<and> converter_at tb2 = (converter_at tb1)(r \<mapsto> conv\<lparr>
        toBytesFallback := (case toBytes of None \<Rightarrow> defToBytesFallback def | Some f \<Rightarrow> Some f),
        toUnicodeFallback := (case toUnicode of None \<Rightarrow> defToUnicodeFallback def | Some f \<Rightarrow> Some f)\<rparr>)
    \<and> slot_of sys tb1 e = Some r \<and> slot_of sys tb2 = slot_of sys tb1
    \<and> table_ok ud external sys tb1 \<and> table_ok ud external sys tb2"
proof -
  obtain r tb1 where get: "CFGetConverter ud external sys e tb = Some (r, tb1)" "table_ok ud external sys tb1"
    "slot_of sys tb1 e = r"
    "case r of None \<Rightarrow> CFStringEncodingConverterGetDefinition ud external e = None \<and> tb1 = tb
       | Some q \<Rightarrow> \<exists>conv. converter_at tb1 q = Some conv
           \<and> CFStringEncodingConverterGetDefinition ud external e = Some (conv_definition conv)"
    using get_converter [OF ok, of e] by blast
  then obtain q conv where q: "r = Some q" "converter_at tb1 q = Some conv" "conv_definition conv = def"
    using def by (auto split: option.splits)
  let ?conv = "conv\<lparr>toBytesFallback := (case toBytes of None \<Rightarrow> defToBytesFallback def | Some f \<Rightarrow> Some f),
        toUnicodeFallback := (case toUnicode of None \<Rightarrow> defToUnicodeFallback def | Some f \<Rightarrow> Some f)\<rparr>"
  note in_blocks = converter_at_in_blocks [OF q(2)]
  obtain tb2 where tb2: "set_converter q ?conv tb1 = Some tb2" "converter_at tb2 = (converter_at tb1)(q \<mapsto> ?conv)"
    "commonConverters tb2 = commonConverters tb1" "mappingTable tb2 = mappingTable tb1" "toUTF8 tb2 = toUTF8 tb1"
    "currentIndex tb2 = currentIndex tb1" "allocatedSize tb2 = allocatedSize tb1" "allocatedEntries tb2 = allocatedEntries tb1"
    "length (blocks tb2) = length (blocks tb1)"
    "\<forall>b < length (blocks tb1). length (blocks tb2 ! b) = length (blocks tb1 ! b)
      \<and> (\<forall>i. (b, i) \<noteq> q \<longrightarrow> blocks tb2 ! b ! i = blocks tb1 ! b ! i)"
    using set_converter_ok in_blocks by blast
  have slot: "slot_of sys tb2 = slot_of sys tb1" unfolding slot_of_def tb2(3,4) by (rule refl)
  have again: "CFStringEncodingGetConverter ud external sys e tb1 = Some (Some def, tb1)"
    using get_again [of tb1 sys e q] get(2,3) q by (simp add: CFStringEncodingGetConverter_def table_ok_def)
  have run: "CFStringEncodingRegisterFallbackProcedures ud external sys e toBytes toUnicode tb = Some tb2"
    using get(1) q again tb2(1)
    by (cases toBytes; cases toUnicode) (simp_all add: CFStringEncodingRegisterFallbackProcedures_def)
  have "blocks_ok tb2"
  proof (cases "allocatedEntries tb1")
    case (Some b)
    have "(b, i) \<noteq> q" if "currentIndex tb1 < i" "i < NUM_OF_ENTRIES_CYCLE" for i
      using get(2) Some that in_blocks by (auto simp: table_ok_def blocks_ok_def)
    then show ?thesis using get(2) Some tb2 by (auto simp: table_ok_def blocks_ok_def)
  qed (use get(2) tb2 in \<open>simp add: table_ok_def blocks_ok_def\<close>)
  then have ok2: "table_ok ud external sys tb2"
    using get(2) q tb2(2,3,5) unfolding table_ok_def slot by (fastforce split: if_splits)
  have "CFGetConverter ud external sys e tb = Some (Some q, tb1)" "slot_of sys tb1 e = Some q" using get(1,3) q(1) by simp_all
  with q(2,3) run tb2(2) slot get(2) ok2 show ?thesis by blast
qed

lemma TO_UNICODE_cong:
  "conv_definition conv = conv_definition conv' \<Longrightarrow> TO_UNICODE ud conv = TO_UNICODE ud conv'"
  by (simp add: TO_UNICODE_def fun_eq_iff)

context eight_bit_converter begin

lemma TO_UNICODE_bad:
  assumes "\<not> canonical_flags flags" "text \<noteq> []" "from_byte (text ! 0) = Some None" "0 < n"
  shows "TO_UNICODE ud conv flags text n block m = Some (0, 0, block)"
proof -
  obtain k where "(if m \<noteq> 0 \<and> m < n then m else n) = Suc k" using assms(4) by (cases "if m \<noteq> 0 \<and> m < n then m else n") (auto split: if_splits)
  then show ?thesis using assms by (simp add: TO_UNICODE_plain rd_def)
qed

end

subsection \<open>The default fallback\<close>






subsection \<open>A character that is lost\<close>

lemma ascii_fits:
  assumes "\<forall>u \<in> set us. u < 0x80" "\<not> v < 0x80" "\<not> CFIsParagraphSeparator mp v"
  shows "convertible (CFToASCII mp) False (us @ [v]) = length us" "i < length us \<Longrightarrow> CFToASCII mp ((us @ [v]) ! i) \<noteq> Some None"
    "substituted (CFToASCII mp) d us = map ucast us"
  using assms by (auto simp: convertible_def CFToASCII_def substituted_def nth_append takeWhile_append)

lemma loses_last_run:
  assumes us: "us \<noteq> []" "\<forall>u \<in> set us. u < 0x80" and v: "\<not> v < 0x80" "\<not> CFIsParagraphSeparator (maps_paragraph ud) v"
    and flags: "is_set flags kCFStringEncodingAllowLossyConversion" "CFStringEncodingMaskToLossyByte flags = 0"
    and fallback: "CFDefaultToBytesFallbackProc ud [v] 1 [] 0 = Some (1, k, [])" "k \<noteq> 0"
    and m: "m = length us" "m \<le> length block"
  shows "convert_to_bytes (new_converter ud (CFConverterASCII ud)) flags (us @ [v]) (length us + 1) block m
    = Some (Returns (ConversionSuccess, length us + 1, length us, overwritten block 0 (map ucast us)))"
proof -
  let ?conv = "new_converter ud (CFConverterASCII ud)" and ?text = "us @ [v]" and ?n = "length us + 1"
  let ?to = "CFToASCII (maps_paragraph ud)"
  obtain isValid flags' pre where procs': "combining_procs (CFConverterASCII ud) flags = (isValid, pre, flags')"
    by (cases "combining_procs (CFConverterASCII ud) flags")
  have "isValidCombiningChar (CFConverterASCII ud) = None" by (simp add: CFConverterASCII_def)
  then have procs: "combining_procs (CFConverterASCII ud) flags = (None, pre, flags')"
    using procs' by (auto simp: combining_procs_def split: if_splits)
  have flags': "is_set flags' kCFStringEncodingAllowLossyConversion" "CFStringEncodingMaskToLossyByte flags' = 0"
    using flags combining_flags [of flags] procs by (auto simp: combining_procs_def split: if_splits)
  let ?step = "to_bytes_step ?conv None pre flags' ?text ?n m"
  have m0: "m \<noteq> 0" "room m 0 = m" using us(1) m(1) by (simp_all add: room_def)
  note fits = ascii_fits [OF us(2) v]
  have room: "m \<noteq> 0 \<longrightarrow> 0 < m \<and> m \<le> length block" "0 < ?n" "?n \<le> length ?text" using m us(1) by simp_all
  obtain p where p: "p \<le> m" "TO_BYTE ?conv flags' ?text ?n block m = Some (p, p, written ?to 0 m (take p ?text) block)"
    "p < m \<longrightarrow> ?to (?text ! p) = Some None"
    using cheap_rest [where conv = ?to and d = 0 and i = 0, OF ascii.to_defined room(2,3,1)] m(1) m0
    by (auto simp: ascii_converter.TO_BYTE_plain at_offset_0 written_def substituted_def)
  have "\<not> p < m" using p(3) fits(2) m(1) by blast
  then have p: "TO_BYTE ?conv flags' ?text ?n block m = Some (m, m, overwritten block 0 (map ucast us))"
    using p(1,2) m m0 fits(3) [of 0] by (simp add: written_def)
  have "skip_unwritten ?conv ?text ?n m = Some ?n"
    using fallback m(1) by (subst skip_unwritten.simps) (simp add: TO_BYTE_FALLBACK_def new_converter_def CFConverterASCII_def)
  then have "?step (0, 0, block) = Some (Inr (ConversionSuccess, ?n, m, overwritten block 0 (map ucast us)))"
    using p m m0 flags' by (simp add: to_bytes_step_def at_offset_0 filled_up_def no_room_def)
  then show ?thesis using procs m(1) by (simp add: convert_to_bytes_def iterate_Inr)
qed

subsection \<open>Properties\<close>

text \<open>Small Unicode tables for the examples: a space, and the diaeresis that composes with A to U+00C4.\<close>

definition sample_unicode :: unicode_data where
  "sample_unicode =
     \<lparr>whitespace = (\<lambda>c. c = 0x20), whitespace_newline = (\<lambda>c. c = 0x20 \<or> c = 0x0A), decomposable_set = (\<lambda>c. c = 0x104),
      nonbase = (\<lambda>c. 0x300 \<le> c \<and> c < 0x370),
      precompose = (\<lambda>c c'. if c = 0x41 \<and> c' = 0x308 then 0xC4 else 0xFFFD),
      decomposable = (\<lambda>c _. c = 0x104), decompose = (\<lambda>c. if c = 0x104 then [0x41, 0x328] else [c]),
      maps_paragraph = True\<rparr>"

lemma sample_unicode_simps [simp]: "maps_paragraph sample_unicode = True"
  by (simp add: sample_unicode_def)

lemmas conversion_simps = conversion_def Let_def conversion_end_def convertible_def written_def substituted_def
  overwritten_def

lemmas flag_simps = canonical_flags_def is_set_def kCFStringEncodingUseCanonical_def
  kCFStringEncodingUseHFSPlusCanonical_def kCFStringEncodingAllowLossyConversion_def CFStringEncodingMaskToLossyByte_def

text \<open>C9: Decoding in an eight-bit encoding: whatever the table of converters holds, bytes are converted up to the
  limit of the block and, unless the conversion is lossy, up to the first byte that stands for nothing; a lossy
  conversion writes a question mark for such bytes.  The result says whether all was converted, the block was too
  small, or the input invalid.  The loop ends and no access leaves the blocks.\<close>

theorem string_decode_eight_bit:
  assumes "(e, to, from, def) \<in> eight_bit_table ud" "table_ok ud external sys tb" "default_fallbacks ud tb"
    and "\<not> canonical_flags flags" "n \<le> length text" "m \<noteq> 0 \<longrightarrow> m \<le> length block"
  shows "\<exists>tb'. CFStringEncodingBytesToUnicode ud external ext sys tb e flags text n block m
      = Some (Some (Returns (conversion from 0x3F (is_set flags kCFStringEncodingAllowLossyConversion) m (take n text) block)),
          tb')
    \<and> table_ok ud external sys tb' \<and> default_fallbacks ud tb'"
  using assms by (rule eight_bit_decode_run)

theorem string_decode_eight_bit_witness:
  "\<exists>tb'. CFStringEncodingBytesToUnicode sample_unicode (\<lambda>_. None) (\<lambda>_ _ _ _ _ _. None) 0x0201 initial_table
      kCFStringEncodingASCII 1 [0x41, 0x80, 0x42] 3 [7, 7, 7, 7] 4
      = Some (Some (Returns (ConversionSuccess, 3, 3, [0x41, 0x3F, 0x42, 7])), tb')
    \<and> table_ok sample_unicode (\<lambda>_. None) 0x0201 tb' \<and> default_fallbacks sample_unicode tb'"
proof -
  have "conversion CFFromASCII 0x3F True 4 [0x41, 0x80, 0x42] [7, 7, 7, 7] = (ConversionSuccess, 3, 3, [0x41, 0x3F, 0x42, 7])"
    by (simp add: conversion_simps CFFromASCII_def)
  moreover have mem: "(kCFStringEncodingASCII, CFToASCII True, CFFromASCII, CFConverterASCII sample_unicode)
      \<in> eight_bit_table sample_unicode" by (simp add: eight_bit_table_def)
  ultimately show ?thesis
    using string_decode_eight_bit [OF mem initial_table_ok, of 1 3 "[0x41, 0x80, 0x42]" 4 "[7, 7, 7, 7]" "\<lambda>_. None"
      "\<lambda>_ _ _ _ _ _. None" "0x0201"]
    by (simp add: flag_simps)
qed

text \<open>C10: Encoding in an eight-bit encoding, for texts without combining characters and not with the default
  fallback: characters are converted up to the limit of the block and, unless the conversion is lossy, up to the
  first one that the encoding does not have; a lossy conversion writes the lossy byte for those.\<close>

theorem string_encode_eight_bit:
  assumes "(e, to, from, def) \<in> eight_bit_table ud" "table_ok ud external sys tb" "default_fallbacks ud tb"
    and "n \<le> length text" "m \<noteq> 0 \<longrightarrow> m \<le> length block"
    and "isValidCombiningChar def = None \<or> (\<forall>u \<in> set (take n text). the (isValidCombiningChar def) u = Some False)"
    and "is_set flags kCFStringEncodingAllowLossyConversion \<longrightarrow> CFStringEncodingMaskToLossyByte flags \<noteq> 0"
  shows "\<exists>tb'. CFStringEncodingUnicodeToBytes ud external dec ext sys tb e flags text n block m
      = Some (Some (Returns (conversion to (CFStringEncodingMaskToLossyByte flags)
          (is_set flags kCFStringEncodingAllowLossyConversion) m (take n text) block)), tb')
    \<and> table_ok ud external sys tb' \<and> default_fallbacks ud tb'"
  using assms by (rule eight_bit_encode_run)

theorem string_encode_eight_bit_witness:
  "\<exists>tb'. CFStringEncodingUnicodeToBytes sample_unicode (\<lambda>_. None) (\<lambda>_ _ _ _ _. None) (\<lambda>_ _ _ _ _ _. None) 0x0201
      initial_table kCFStringEncodingASCII 0x2A000001 [0x41, 0x20AC, 0x42, 0x43] 4 [7, 7, 7, 7] 3
      = Some (Some (Returns (InsufficientOutputBufferLength, 3, 3, [0x41, 0x2A, 0x42, 7])), tb')
    \<and> table_ok sample_unicode (\<lambda>_. None) 0x0201 tb' \<and> default_fallbacks sample_unicode tb'"
proof -
  have "conversion (CFToASCII True) 0x2A True 3 [0x41, 0x20AC, 0x42, 0x43] [7, 7, 7, 7]
      = (InsufficientOutputBufferLength, 3, 3, [0x41, 0x2A, 0x42, 7])"
    by (simp add: conversion_simps CFToASCII_def CFIsParagraphSeparator_def ParagraphSeparator_def)
  moreover have mem: "(kCFStringEncodingASCII, CFToASCII True, CFFromASCII, CFConverterASCII sample_unicode)
      \<in> eight_bit_table sample_unicode" by (simp add: eight_bit_table_def)
  ultimately show ?thesis
    using string_encode_eight_bit [OF mem initial_table_ok, of 4 "[0x41, 0x20AC, 0x42, 0x43]" 3 "[7, 7, 7, 7]" "0x2A000001"
      "\<lambda>_. None" "\<lambda>_ _ _ _ _. None" "\<lambda>_ _ _ _ _ _. None" "0x0201"]
    by (simp add: flag_simps CFConverterASCII_def)
qed

text \<open>C8: A round trip through both functions, in each of the five encodings: bytes that all stand for characters
  are decoded with success, and the characters are encoded to the same bytes with success, into any blocks that
  are large enough.\<close>

theorem string_round_trip:
  assumes "(e, to, from, def) \<in> eight_bit_table ud" "table_ok ud external sys tb" "default_fallbacks ud tb"
    and "\<forall>b \<in> set text. from b \<noteq> Some None" "\<not> canonical_flags flags" "length text = n"
    and "0 < m" "n \<le> m" "m \<le> length block" "0 < m'" "n \<le> m'" "m' \<le> length block'"
    and "is_set flags' kCFStringEncodingAllowLossyConversion \<longrightarrow> CFStringEncodingMaskToLossyByte flags' \<noteq> 0"
  shows "\<exists>units rest tb' tb''. length units = n
    \<and> CFStringEncodingBytesToUnicode ud external ext sys tb e flags text n block m
      = Some (Some (Returns (ConversionSuccess, n, n, units @ rest)), tb')
    \<and> CFStringEncodingUnicodeToBytes ud external dec ext' sys tb' e flags' (units @ rest) n block' m'
      = Some (Some (Returns (ConversionSuccess, n, n, text @ drop n block')), tb'')"
proof -
  let ?units = "substituted from 0x3F text" and ?rest = "drop n block"
  have eight: "eight_bit to from"
    using eight_bit_table_converter [OF assms(1)] by (rule eight_bit_converter.axioms)
  have chars: "from b = Some (Some u) \<Longrightarrow> to u = Some (Some b)" "from b \<noteq> None" for b u
    using eight_bit.from_to [OF eight] eight_bit.from_defined [OF eight] by blast+
  have decoded: "from (text ! i) = Some (Some (?units ! i)) \<and> to (?units ! i) = Some (Some (text ! i))" if "i < n" for i
  proof -
    have "from (text ! i) \<noteq> Some None" "from (text ! i) \<noteq> None" using that assms(4,6) chars(2) by simp_all
    then obtain u where u: "from (text ! i) = Some (Some u)" by auto
    then have "?units ! i = u" using that assms(6) by (simp add: substituted_def)
    then show ?thesis using u chars(1) by simp
  qed
  have len: "length ?units = n" using assms(6) by simp
  have "takeWhile (\<lambda>b. from b \<noteq> Some None) text = text" using assms(4) by (simp add: takeWhile_eq_all_conv)
  then have all: "convertible from lossy text = n" for lossy by (simp only: convertible_def assms(6) if_cancel)
  have "takeWhile (\<lambda>u. to u \<noteq> Some None) ?units = ?units"
    using decoded assms(6) by (auto simp: takeWhile_eq_all_conv in_set_conv_nth)
  then have all': "convertible to lossy ?units = n" for lossy by (simp only: convertible_def len if_cancel)
  have same: "substituted to d ?units = text" for d
    using decoded assms(6) by (intro nth_equalityI) (auto simp: substituted_def)
  have "conversion from 0x3F lossy m text block = (ConversionSuccess, n, n, ?units @ ?rest)" for lossy
    using assms(6-8) by (simp add: conversion_def Let_def conversion_end_def all written_def overwritten_def)
  moreover obtain tb' where "CFStringEncodingBytesToUnicode ud external ext sys tb e flags text n block m
      = Some (Some (Returns (conversion from 0x3F (is_set flags kCFStringEncodingAllowLossyConversion) m (take n text) block)), tb')"
    and tb': "table_ok ud external sys tb'" "default_fallbacks ud tb'"
    using eight_bit_decode_run [OF assms(1-3,5), of n "text" m block] assms(6,9) by auto
  ultimately have 1: "CFStringEncodingBytesToUnicode ud external ext sys tb e flags text n block m
      = Some (Some (Returns (ConversionSuccess, n, n, ?units @ ?rest)), tb')" using assms(6) by simp
  have marks: "isValidCombiningChar def = None \<or> (\<forall>u \<in> set ?units. the (isValidCombiningChar def) u = Some False)"
    using decoded decoded_not_combining [OF assms(1)] len by (metis in_set_conv_nth)
  have "conversion to d lossy m' ?units block' = (ConversionSuccess, n, n, text @ drop n block')" for d lossy
    using len assms(6,10,11) same
    by (simp add: conversion_def Let_def conversion_end_def all' written_def overwritten_def)
  moreover obtain tb'' where "CFStringEncodingUnicodeToBytes ud external dec ext' sys tb' e flags' (?units @ ?rest) n block' m'
      = Some (Some (Returns (conversion to (CFStringEncodingMaskToLossyByte flags')
          (is_set flags' kCFStringEncodingAllowLossyConversion) m' (take n (?units @ ?rest)) block')), tb'')"
    using eight_bit_encode_run [OF assms(1) tb', of n "?units @ ?rest" m' block' flags' dec ext'] assms(12,13) len marks
    by auto
  ultimately have "CFStringEncodingUnicodeToBytes ud external dec ext' sys tb' e flags' (?units @ ?rest) n block' m'
      = Some (Some (Returns (ConversionSuccess, n, n, text @ drop n block')), tb'')" using len by simp
  with 1 len show ?thesis by blast
qed

theorem string_round_trip_witness:
  "\<exists>units rest tb' tb''. length units = 3
    \<and> CFStringEncodingBytesToUnicode sample_unicode (\<lambda>_. None) (\<lambda>_ _ _ _ _ _. None) 0x0201 initial_table
        kCFStringEncodingISOLatin1 0 [0x41, 0xE9, 0x42] 3 [0, 0, 0, 0] 4
      = Some (Some (Returns (ConversionSuccess, 3, 3, units @ rest)), tb')
    \<and> CFStringEncodingUnicodeToBytes sample_unicode (\<lambda>_. None) (\<lambda>_ _ _ _ _. None) (\<lambda>_ _ _ _ _ _. None) 0x0201 tb'
        kCFStringEncodingISOLatin1 0 (units @ rest) 3 [0, 0, 0] 3
      = Some (Some (Returns (ConversionSuccess, 3, 3, [0x41, 0xE9, 0x42] @ drop 3 [0, 0, 0])), tb'')"
  by (rule string_round_trip [of _ "CFToISOLatin1 True" CFFromISOLatin1 "CFConverterISOLatin1 sample_unicode"])
    (simp_all add: initial_table_ok eight_bit_table_def CFFromISOLatin1_def flag_simps)

text \<open>C25: The table of converters: looking up an encoding finds an entry with its definition, or nothing if there is
  no such encoding; no other entry is lost or changed, no two encodings share an entry, and looking it up again
  gives the same entry and changes nothing.\<close>

theorem converter_lookup:
  assumes "table_ok ud external sys tb"
  shows "\<exists>r tb'. CFGetConverter ud external sys e tb = Some (r, tb') \<and> table_ok ud external sys tb'
    \<and> converter_at tb \<subseteq>\<^sub>m converter_at tb' \<and> slot_of sys tb' e = r
    \<and> (r = None \<longleftrightarrow> CFStringEncodingConverterGetDefinition ud external e = None)
    \<and> (\<forall>q. r = Some q \<longrightarrow> map_option conv_definition (converter_at tb' q)
          = CFStringEncodingConverterGetDefinition ud external e \<and> CFGetConverter ud external sys e tb' = Some (r, tb'))"
proof -
  obtain r tb' where get: "CFGetConverter ud external sys e tb = Some (r, tb')" "table_ok ud external sys tb'"
    "converter_at tb \<subseteq>\<^sub>m converter_at tb'" "slot_of sys tb' e = r"
    "case r of None \<Rightarrow> CFStringEncodingConverterGetDefinition ud external e = None \<and> tb' = tb
       | Some q \<Rightarrow> \<exists>conv. converter_at tb' q = Some conv
           \<and> CFStringEncodingConverterGetDefinition ud external e = Some (conv_definition conv)"
    using get_converter [OF assms, of e] by blast
  have "length (commonConverters tb') = 3" using get(2) by (simp add: table_ok_def)
  then show ?thesis
    using get get_again [of tb' sys e] by (intro exI [of _ r] exI [of _ tb']) (auto split: option.splits)
qed

theorem converter_lookup_witness:
  "\<exists>r tb'. CFGetConverter sample_unicode (\<lambda>_. None) 0x0201 kCFStringEncodingUTF8 initial_table = Some (r, tb')
    \<and> table_ok sample_unicode (\<lambda>_. None) 0x0201 tb'
    \<and> converter_at initial_table \<subseteq>\<^sub>m converter_at tb' \<and> slot_of 0x0201 tb' kCFStringEncodingUTF8 = r
    \<and> (r = None \<longleftrightarrow> CFStringEncodingConverterGetDefinition sample_unicode (\<lambda>_. None) kCFStringEncodingUTF8 = None)
    \<and> (\<forall>q. r = Some q \<longrightarrow> map_option conv_definition (converter_at tb' q)
          = CFStringEncodingConverterGetDefinition sample_unicode (\<lambda>_. None) kCFStringEncodingUTF8
        \<and> CFGetConverter sample_unicode (\<lambda>_. None) 0x0201 kCFStringEncodingUTF8 tb' = Some (r, tb'))"
  by (rule converter_lookup) (rule initial_table_ok)

text \<open>Registering null for both fallbacks of an eight-bit encoding does not restore the default ones, as its
  documentation says, but stores null pointers: the next lossy conversion of bytes that start with one that stands
  for nothing calls a null pointer.\<close>

theorem register_null_fallback:
  assumes "(e, to, from, def) \<in> eight_bit_table ud" "table_ok ud external sys tb"
    and "\<not> canonical_flags flags" "is_set flags kCFStringEncodingAllowLossyConversion"
    and "text \<noteq> []" "from (text ! 0) = Some None" "0 < n" "n \<le> length text"
  shows "\<exists>tb'. CFStringEncodingRegisterFallbackProcedures ud external sys e None None tb = Some tb'
    \<and> CFStringEncodingBytesToUnicode ud external ext sys tb' e flags text n block m = Some (Some Undefined, tb')"
proof -
  note def = eight_bit_table_definition [OF assms(1)]
  note eight = eight_bit_table_converter [OF assms(1)]
  obtain r tb1 tb2 conv where register: "converter_at tb1 r = Some conv" "conv_definition conv = def"
    "CFStringEncodingRegisterFallbackProcedures ud external sys e None None tb = Some tb2"
    "converter_at tb2 = (converter_at tb1)(r \<mapsto> conv\<lparr>toBytesFallback := None, toUnicodeFallback := None\<rparr>)"
    "slot_of sys tb1 e = Some r" "slot_of sys tb2 = slot_of sys tb1" "table_ok ud external sys tb2"
    using register_run [OF assms(2) def(1), of None None] def(5,6) by auto
  let ?conv = "conv\<lparr>toBytesFallback := None, toUnicodeFallback := None\<rparr>"
  have get: "CFGetConverter ud external sys e tb2 = Some (Some r, tb2)" "converter_at tb2 r = Some ?conv"
    using get_again [of tb2 sys e r] register by (simp_all add: table_ok_def)
  have "TO_UNICODE ud ?conv = TO_UNICODE ud (new_converter ud def)" by (rule TO_UNICODE_cong) (simp add: register(2))
  then have stop: "TO_UNICODE ud ?conv flags text n block m = Some (0, 0, block)" for block m
    using eight_bit_converter.TO_UNICODE_bad [OF eight assms(3,5,6,7)] by simp
  have "to_unicode_step ud ?conv flags text n m (0, 0, block) = None"
    using assms(4,7) stop
    by (auto simp: to_unicode_step_def at_offset_0 room_def unicode_filled_up_def TO_UNICODE_FALLBACK_def)
  then have "convert_to_unicode ud ?conv flags text n block m = Some Undefined"
    by (simp add: convert_to_unicode_def iterate_None)
  then show ?thesis using register(3) bytes_to_unicode_run [OF get] def(3) register(2) by simp
qed

theorem register_null_fallback_witness:
  "\<exists>tb'. CFStringEncodingRegisterFallbackProcedures sample_unicode (\<lambda>_. None) 0x0201 kCFStringEncodingASCII None None
      initial_table = Some tb'
    \<and> CFStringEncodingBytesToUnicode sample_unicode (\<lambda>_. None) (\<lambda>_ _ _ _ _ _. None) 0x0201 tb' kCFStringEncodingASCII 1
        [0x80] 1 [0] 1 = Some (Some Undefined, tb')"
  by (rule register_null_fallback [of _ "CFToASCII True" CFFromASCII "CFConverterASCII sample_unicode"])
    (simp_all add: initial_table_ok eight_bit_table_def CFFromASCII_def flag_simps)

text \<open>C38: The encoder does not return: in a lossy conversion without a lossy byte, a character followed by two
  combining characters, of which the encoding has no composition, is converted forever; the loop takes back the
  first of the combining characters again and again.\<close>

theorem to_bytes_hangs:
  assumes "(to, def) \<in> latin_converters ud" "lossy_flags flags" "CFStringEncodingMaskToLossyByte flags = 0"
    and "to x = Some (Some b)" "combining_mark x = Some False" "combining_mark c = Some True" "combining_mark c' = Some True"
    and "to (fst (CFStringEncodingPrecomposeLatinCharacter (nonbase ud) (precompose ud) [x, c, c'])) = Some None"
    and "\<not> whitespace ud (ucast c)" "\<not> whitespace_newline ud (ucast c)" "\<not> decomposable_set ud (ucast c)"
    and "m \<noteq> 0 \<longrightarrow> 2 \<le> m \<and> m \<le> length block"
  shows "convert_to_bytes (new_converter ud def) flags [x, c, c'] 3 block m = None"
  using assms by (rule hangs_run)

theorem to_bytes_hangs_witness:
  "convert_to_bytes (new_converter sample_unicode (CFConverterISOLatin1 sample_unicode)) 1 [0x71, 0x308, 0x301] 3 [0, 0, 0, 0] 4
    = None"
  by (rule to_bytes_hangs [where to = "CFToISOLatin1 True" and b = "0x71"])
    (simp_all add: latin_converters_def lossy_flags_def flag_simps kCFStringEncodingSubstituteCombinings_def
      kCFStringEncodingIgnoreCombinings_def CFToISOLatin1_def CFIsParagraphSeparator_def ParagraphSeparator_def
      CFStringEncodingIsValidCombiningCharacterForLatin1_def rd_def CFLatin1CombiningCharBitmap_def
      CFStringEncodingPrecomposeLatinCharacter_def CFUniCharIsSurrogateHighCharacter_def
      CFUniCharIsSurrogateLowCharacter_def sample_unicode_def)

text \<open>C39: In a lossy conversion with a lossy byte, the encoder reads outside its text when the text consists of
  combining characters, or of combining characters after a character with which they do not compose: it looks for
  a base character before the first character, or for one that is not combining after the last.\<close>

theorem to_bytes_reads_outside:
  assumes "(to, def) \<in> latin_converters ud" "lossy_flags flags" "CFStringEncodingMaskToLossyByte flags \<noteq> 0"
    and "cs \<noteq> []" "\<forall>c \<in> set cs. combining_mark c = Some True"
    and "combining_mark x = Some True \<or> combining_mark x = Some False \<and> (\<exists>b. to x = Some (Some b))
        \<and> to (fst (CFStringEncodingPrecomposeLatinCharacter (nonbase ud) (precompose ud) (x # cs))) = Some None"
    and "m \<noteq> 0 \<longrightarrow> 2 \<le> m \<and> m \<le> length block"
  shows "convert_to_bytes (new_converter ud def) flags (x # cs) (length (x # cs)) block m = Some Undefined"
  using assms by (rule reads_outside_run)

theorem to_bytes_reads_outside_witness:
  "convert_to_bytes (new_converter sample_unicode (CFConverterMacRoman sample_unicode)) 0x3F000001 [0x71, 0x308]
      (length [0x71, 0x308 :: 16 word]) [0, 0, 0] 3 = Some Undefined"
  by (rule to_bytes_reads_outside [where to = CFToMacRoman])
    (simp_all add: latin_converters_def lossy_flags_def flag_simps kCFStringEncodingSubstituteCombinings_def
      kCFStringEncodingIgnoreCombinings_def CFToMacRoman_def CFStringEncodingUnicodeTo8BitEncoding_def
      CFStringEncodingIsValidCombiningCharacterForLatin1_def rd_def rdi_def CFLatin1CombiningCharBitmap_def
      CFStringEncodingPrecomposeLatinCharacter_def CFUniCharIsSurrogateHighCharacter_def
      CFUniCharIsSurrogateLowCharacter_def sample_unicode_def NUM_MACROMAN_FROM_UNI_def macRoman_from_uni_def)

lemma no_bytes_no_units: "all_bytes cs = [] \<Longrightarrow> all_units cs = []"
  by (cases cs) (auto simp: utf8_bytes_def utf8_numbers_def split: if_splits)

text \<open>C40: A lossy conversion to ASCII with the default fallback reports success although the last character is lost,
  when the block is full before it: the loop that passes over characters for which the fallback writes nothing
  also passes over the first one for which it writes something.\<close>

theorem lossy_loses_last:
  assumes "us \<noteq> []" "\<forall>u \<in> set us. u < 0x80" "\<not> v < 0x80" "\<not> CFIsParagraphSeparator (maps_paragraph ud) v"
    and "is_set flags kCFStringEncodingAllowLossyConversion" "CFStringEncodingMaskToLossyByte flags = 0"
    and "CFDefaultToBytesFallbackProc ud [v] 1 [] 0 = Some (1, k, [])" "k \<noteq> 0"
    and "m = length us" "m \<le> length block"
  shows "convert_to_bytes (new_converter ud (CFConverterASCII ud)) flags (us @ [v]) (length us + 1) block m
    = Some (Returns (ConversionSuccess, length us + 1, length us, overwritten block 0 (map ucast us)))"
  using assms by (rule loses_last_run)

theorem lossy_loses_last_witness:
  "convert_to_bytes (new_converter sample_unicode (CFConverterASCII sample_unicode)) 1 [0x61, 0xE9] 2 [0, 0] 1
    = Some (Returns (ConversionSuccess, 2, 1, [0x61, 0]))"
proof -
  have "b \<noteq> 0 \<Longrightarrow> fallback_loop [b, 0, 0, 0] 0 [] 0 4 = Some (1, [])" for b by (simp add: eval_nat_numeral rd_def)
  then have "CFDefaultToBytesFallbackProc sample_unicode [0xE9] 1 [] 0 = Some (1, 1, [])"
    by (subst CFDefaultToBytesFallbackProc.simps)
      (simp add: rd_def CFToASCIILatin1Fallback_def toLossyASCIITable_def)
  from lossy_loses_last [OF _ _ _ _ _ _ this, of "[0x61]" 1 1 "[0, 0]"] show ?thesis
    by (simp add: CFIsParagraphSeparator_def ParagraphSeparator_def flag_simps overwritten_def flip: numeral_2_eq_2)
qed



text \<open>C12: UTF-8 through both functions: well-formed text is encoded with success, and the bytes are decoded with
  success to the same text, into any blocks that are large enough.  The encoder may enter the converter of UTF-8
  into the table, and the function kept for later calls is then the one of that converter; the table stays
  consistent, and the decoder works on the table that the encoder leaves.\<close>

theorem utf8_string_round_trip:
  assumes "table_ok ud external sys tb" "default_fallbacks ud tb" "\<not> canonical_flags flags" "strict_flags flags'"
    and "\<forall>c \<in> set cs. scalar c" "mb < 2 ^ 32" "0 < mb" "length (all_bytes cs) \<le> mb" "mb \<le> length block"
    and "length (all_units cs) \<le> mu" "mu \<le> length block'"
  shows "\<exists>rest tb' tb''. CFStringEncodingUnicodeToBytes ud external dec ext sys tb kCFStringEncodingUTF8 flags
        (all_units cs) (length (all_units cs)) block mb
      = Some (Some (Returns (ConversionSuccess, length (all_units cs), length (all_bytes cs), all_bytes cs @ rest)), tb')
    \<and> table_ok ud external sys tb' \<and> default_fallbacks ud tb' \<and> toUTF8 tb' = Some CFToUTF8
    \<and> CFStringEncodingBytesToUnicode ud external ext' sys tb' kCFStringEncodingUTF8 flags'
        (all_bytes cs @ rest) (length (all_bytes cs)) block' mu
      = Some (Some (Returns (ConversionSuccess, length (all_bytes cs), length (all_units cs),
          if mu = 0 then block' else all_units cs @ drop (length (all_units cs)) block')), tb'')"
proof -
  let ?rest = "drop (length (all_bytes cs)) block"
  obtain tb' where tb': "utf8_procedure ud external sys tb = Some (CFToUTF8, tb')" "table_ok ud external sys tb'"
    "default_fallbacks ud tb'" "toUTF8 tb' = Some CFToUTF8"
    using utf8_procedure_run [OF assms(1,2)] by blast
  have "\<not> is_set flags kCFStringEncodingUseCanonical \<and> \<not> is_set flags kCFStringEncodingUseHFSPlusCanonical"
    using assms(3) by (simp add: canonical_flags_def is_set_def bit.conj_disj_distrib or_eq_0_iff)
  moreover have "CFToUTF8 0 (all_units cs) (length (all_units cs)) block mb
      = Some (length (all_units cs), length (all_bytes cs), all_bytes cs @ ?rest)"
    using encode_all [of 0 cs mb block] assms(5-9) by simp
  ultimately have encode: "CFStringEncodingUnicodeToBytes ud external dec ext sys tb kCFStringEncodingUTF8 flags
        (all_units cs) (length (all_units cs)) block mb
      = Some (Some (Returns (ConversionSuccess, length (all_units cs), length (all_bytes cs), all_bytes cs @ ?rest)), tb')"
    using tb'(1) by (simp add: CFStringEncodingUnicodeToBytes_def convert_to_utf8_def utf8_result_def returns_def)
  have "CFFromUTF8 flags' (decomposable ud) (decompose ud) (all_bytes cs @ ?rest) (length (all_bytes cs)) block' mu
      = Some (length (all_bytes cs), length (all_units cs),
          if mu = 0 then block' else all_units cs @ drop (length (all_units cs)) block')"
    using decode_all [OF assms(4,5,11)] assms(10) by blast
  moreover have "length (all_bytes cs) = 0 \<longrightarrow> length (all_units cs) = 0
      \<and> (if mu = 0 then block' else all_units cs @ drop (length (all_units cs)) block') = block'"
    using no_bytes_no_units [of cs] by auto
  ultimately obtain tb'' where
    "CFStringEncodingBytesToUnicode ud external ext' sys tb' kCFStringEncodingUTF8 flags'
        (all_bytes cs @ ?rest) (length (all_bytes cs)) block' mu
      = Some (Some (Returns (ConversionSuccess, length (all_bytes cs), length (all_units cs),
          if mu = 0 then block' else all_units cs @ drop (length (all_units cs)) block')), tb'')"
    using utf8_decode_all_run [OF tb'(2,3) _ order.refl, of flags' _ _ block' mu _ _ ext'] by fastforce
  with encode tb'(2-4) show ?thesis by blast
qed

theorem utf8_string_round_trip_witness:
  "\<exists>rest tb' tb''. CFStringEncodingUnicodeToBytes sample_unicode (\<lambda>_. None) (\<lambda>_ _ _ _ _. None) (\<lambda>_ _ _ _ _ _. None) 0x0201
        initial_table kCFStringEncodingUTF8 0 (all_units [0x41, 0x1F600]) (length (all_units [0x41, 0x1F600])) (replicate 8 0) 8
      = Some (Some (Returns (ConversionSuccess, length (all_units [0x41, 0x1F600]), length (all_bytes [0x41, 0x1F600]),
          all_bytes [0x41, 0x1F600] @ rest)), tb')
    \<and> table_ok sample_unicode (\<lambda>_. None) 0x0201 tb' \<and> default_fallbacks sample_unicode tb' \<and> toUTF8 tb' = Some CFToUTF8
    \<and> CFStringEncodingBytesToUnicode sample_unicode (\<lambda>_. None) (\<lambda>_ _ _ _ _ _. None) 0x0201 tb'
        kCFStringEncodingUTF8 0 (all_bytes [0x41, 0x1F600] @ rest) (length (all_bytes [0x41, 0x1F600])) (replicate 4 0) 4
      = Some (Some (Returns (ConversionSuccess, length (all_bytes [0x41, 0x1F600]), length (all_units [0x41, 0x1F600]),
          if (4 :: nat) = 0 then replicate 4 0
          else all_units [0x41, 0x1F600] @ drop (length (all_units [0x41, 0x1F600])) (replicate 4 0))), tb'')"
  by (rule utf8_string_round_trip)
    (simp_all add: initial_table_ok flag_simps strict_flags_def plain_flags_def scalar_def utf16_units_def length_utf8_bytes)

text \<open>C11: Measuring checks UTF-8: without a lossy conversion the function succeeds exactly when the bytes are a
  sequence of well-formed encodings (and stray bytes 0xA9), and otherwise stops with an error where none begins.\<close>

theorem utf8_string_validates:
  assumes "table_ok ud external sys tb" "default_fallbacks ud tb" "strict_flags flags" "n \<le> length text"
  shows "\<exists>its rest tb'. (\<forall>it \<in> set its. item_ok it) \<and> take n text = items_bytes its @ rest
    \<and> (\<forall>it rest'. item_ok it \<longrightarrow> rest \<noteq> item_bytes it @ rest')
    \<and> CFStringEncodingBytesToUnicode ud external ext sys tb kCFStringEncodingUTF8 flags text n block 0
      = Some (Some (Returns (if rest = [] then ConversionSuccess else InvalidInputStream,
          length (items_bytes its), length (items_units its), block)), tb')"
proof -
  obtain its lost rest where its: "\<forall>it \<in> set its. item_ok it" "take n text = items_bytes its @ lost @ rest"
    "decoder_stops 0 (length (items_units its)) lost rest"
    "CFFromUTF8 flags (decomposable ud) (decompose ud) text n block 0
      = Some (length (items_bytes its @ lost), length (items_units its), block)"
    using utf8_decode_run [OF assms(3,4), of 0 block "decomposable ud" "decompose ud"] by auto
  have stop: "lost = []" "\<forall>it rest'. item_ok it \<longrightarrow> rest \<noteq> item_bytes it @ rest'"
    using its(3) by (auto simp: decoder_stops_def)
  have n: "n = length (items_bytes its) + length rest"
    using arg_cong [OF its(2), of length] assms(4) stop(1) by simp
  have "\<not> is_set flags kCFStringEncodingAllowLossyConversion" using assms(3) by (simp add: strict_flags_def is_set_def)
  then obtain tb' where
    "CFStringEncodingBytesToUnicode ud external ext sys tb kCFStringEncodingUTF8 flags text n block 0
      = Some (Some (Returns (if length (items_bytes its) = n then ConversionSuccess else InvalidInputStream,
          length (items_bytes its), length (items_units its), block)), tb')"
    using utf8_decode_all_run [OF assms(1,2) its(4)] stop(1) n by (cases its) (auto simp: items_bytes_def)
  then show ?thesis using its(1,2) stop n by auto
qed

theorem utf8_string_validates_witness:
  "\<exists>its rest tb'. (\<forall>it \<in> set its. item_ok it) \<and> take 3 [0x41, 0xC3, 0x28] = items_bytes its @ rest
    \<and> (\<forall>it rest'. item_ok it \<longrightarrow> rest \<noteq> item_bytes it @ rest')
    \<and> CFStringEncodingBytesToUnicode sample_unicode (\<lambda>_. None) (\<lambda>_ _ _ _ _ _. None) 0x0201 initial_table
        kCFStringEncodingUTF8 0 [0x41, 0xC3, 0x28] 3 [] 0
      = Some (Some (Returns (if rest = [] then ConversionSuccess else InvalidInputStream,
          length (items_bytes its), length (items_units its), [])), tb')"
  by (rule utf8_string_validates) (simp_all add: initial_table_ok strict_flags_def plain_flags_def)

text \<open>The decoder reports success for UTF-8 whose last character is lost: when it needs two places and one is
  left, its bytes count as converted.\<close>

theorem utf8_string_pair_lost:
  assumes "table_ok ud external sys tb" "default_fallbacks ud tb" "strict_flags flags" "\<forall>c \<in> set cs. scalar c"
    and "scalar c" "0x10000 \<le> c" "m = length (all_units cs) + 1" "m \<le> length block"
  shows "\<exists>tb'. CFStringEncodingBytesToUnicode ud external ext sys tb kCFStringEncodingUTF8 flags
      (all_bytes (cs @ [c])) (length (all_bytes (cs @ [c]))) block m
    = Some (Some (Returns (ConversionSuccess, length (all_bytes (cs @ [c])), length (all_units cs),
        all_units cs @ drop (length (all_units cs)) block)), tb')"
  using utf8_decode_all_run [OF assms(1,2) loses_pair [OF assms(3-8)] order.refl, of ext] assms(6)
  by (auto simp: all_bytes_def utf8_bytes_def utf8_numbers_def)

theorem utf8_string_pair_lost_witness:
  "\<exists>tb'. CFStringEncodingBytesToUnicode sample_unicode (\<lambda>_. None) (\<lambda>_ _ _ _ _ _. None) 0x0201 initial_table
      kCFStringEncodingUTF8 0 (all_bytes ([0x41] @ [0x1F600])) (length (all_bytes ([0x41] @ [0x1F600]))) [0, 0, 0] 2
    = Some (Some (Returns (ConversionSuccess, length (all_bytes ([0x41] @ [0x1F600])), length (all_units [0x41]),
        all_units [0x41] @ drop (length (all_units [0x41])) [0, 0, 0])), tb')"
  by (rule utf8_string_pair_lost)
    (simp_all add: initial_table_ok strict_flags_def plain_flags_def scalar_def utf16_units_def)

text \<open>The two length functions give, for well-formed text, exactly the length of the conversion in UTF-8 (modulo
  the 32 bits of the sum for bytes), and in an eight-bit encoding the length of the text.\<close>

theorem string_lengths:
  assumes "table_ok ud external sys tb" "default_fallbacks ud tb" "strict_flags flags" "\<forall>c \<in> set cs. scalar c"
    and "(e, to, from, def) \<in> eight_bit_table ud"
  shows "\<exists>tb1 tb2 tb3. CFStringEncodingCharLengthForBytes ud external ext sys tb kCFStringEncodingUTF8 flags
        (all_bytes cs) (length (all_bytes cs)) = Some (Some (Returns (length (all_units cs))), tb1)
    \<and> CFStringEncodingByteLengthForCharacters ud external ext' sys tb kCFStringEncodingUTF8 flags
        (all_units cs) (length (all_units cs)) = Some (Some (Returns (length (all_bytes cs) mod 2 ^ 32)), tb2)
    \<and> CFStringEncodingCharLengthForBytes ud external ext sys tb e flags text n = Some (Some (Returns n), tb3)
    \<and> CFStringEncodingByteLengthForCharacters ud external ext' sys tb e flags text' n' = Some (Some (Returns n'), tb3)"
proof -
  obtain r tb1 where utf8: "CFGetConverter ud external sys kCFStringEncodingUTF8 tb = Some (Some r, tb1)"
    "converter_at tb1 r = Some (new_converter ud (CFConverterUTF8 ud))"
    using get_built_in [OF assms(1,2) utf8_definition(1)] by blast
  obtain q tb3 where eight: "CFGetConverter ud external sys e tb = Some (Some q, tb3)"
    "converter_at tb3 q = Some (new_converter ud def)"
    using get_built_in [OF assms(1,2) eight_bit_table_definition(1) [OF assms(5)]] by blast
  have "flags AND kCFStringEncodingLenientUTF8Conversion = 0" using assms(3) by (simp add: strict_flags_def)
  from len_loop [OF this, of "\<lparr>from_source = 0, from_numBytes = length (all_bytes cs), from_used = 0, from_characters = 0,
      from_block = []\<rparr>" "all_bytes cs" "decomposable ud" "decompose ud"]
  have "CFFromUTF8Len flags (decomposable ud) (decompose ud) (all_bytes cs) (length (all_bytes cs))
      = map_option (\<lambda>(source, used, block). used)
          (CFFromUTF8 flags (decomposable ud) (decompose ud) (all_bytes cs @ []) (length (all_bytes cs)) [] 0)"
    by (simp add: CFFromUTF8Len_def CFFromUTF8_def option.map_comp comp_def)
  then have chars: "CFFromUTF8Len flags (decomposable ud) (decompose ud) (all_bytes cs) (length (all_bytes cs))
      = Some (length (all_units cs))"
    using decode_all [OF assms(3,4), of 0 "[]" "decomposable ud" "decompose ud" "[]"] by simp
  have bytes: "CFToUTF8Len (all_units cs) = length (all_bytes cs) mod 2 ^ 32"
    using to_len_loop [OF assms(4), of 0] by (simp add: CFToUTF8Len_def unat_of_nat)
  have def: "external_class def = False" "maxBytesPerChar def = 1"
    using eight_bit_table_definition [OF assms(5)] by simp_all
  show ?thesis
    using utf8 eight chars bytes def utf8_definition(2) [of ud]
    by (auto simp: CFStringEncodingCharLengthForBytes_def CFStringEncodingByteLengthForCharacters_def Let_def returns_def
        CFConverterUTF8_def)
qed

end
