(* ===== verification/CF_Tree.thy ===== *)
theory CF_Tree
  imports CF_Sort
begin

text \<open>
  CFTree.c.  Tree objects live in a store, from references to nodes; a node has the four pointers of
  \<open>struct __CFTree\<close> and its context.  \<open>CFRetain\<close> and \<open>CFRelease\<close> on trees, and the context's
  callbacks, are recorded in the ghost field \<open>ts_trace\<close>, in the order in which they are called.  Loops
  over siblings or ancestors may run forever on a corrupted tree: they are partial functions, and
  \<open>None\<close> is their result then, as it is after a NULL dereference or HALT.
\<close>

subsection \<open>State\<close>

type_synonym tree_ref = nat

type_synonym info_ptr = nat

record tree_callbacks =
  tc_retain :: "(info_ptr \<Rightarrow> info_ptr) callback option"
  tc_release :: "unit callback option"
  tc_copyDescription :: "unit callback option"

record tree_node =
  tn_cfinfo :: "8 word"
  tn_parent :: "tree_ref option"
  tn_sibling :: "tree_ref option"
  tn_child :: "tree_ref option"
  tn_rightmostChild :: "tree_ref option"
  tn_info :: info_ptr
  tn_callbacks :: "tree_callbacks option"

datatype tree_event =
    RetainTree tree_ref
  | ReleaseTree tree_ref
  | RetainInfo info_ptr
  | ReleaseInfo info_ptr

record tree_state =
  ts_nodes :: "tree_ref \<Rightarrow> tree_node option"
  ts_trace :: "tree_event list"

record CFTreeContext =
  cx_info :: info_ptr
  cx_retain :: "(info_ptr \<Rightarrow> info_ptr) callback option"
  cx_release :: "unit callback option"
  cx_copyDescription :: "unit callback option"

text \<open>The three functions of the runtime; CFRetain returns its argument.\<close>

definition CFRetain_cb :: "(info_ptr \<Rightarrow> info_ptr) callback" where
  "CFRetain_cb = \<lparr>cb_addr = 1, cb_fun = (\<lambda>p. p)\<rparr>"

definition CFRelease_cb :: "unit callback" where
  "CFRelease_cb = \<lparr>cb_addr = 2, cb_fun = ()\<rparr>"

definition CFCopyDescription_cb :: "unit callback" where
  "CFCopyDescription_cb = \<lparr>cb_addr = 3, cb_fun = ()\<rparr>"

definition kCFTypeTreeCallBacks :: tree_callbacks where
  "kCFTypeTreeCallBacks = \<lparr>tc_retain = Some CFRetain_cb, tc_release = Some CFRelease_cb,
     tc_copyDescription = Some CFCopyDescription_cb\<rparr>"

definition kCFNullTreeCallBacks :: tree_callbacks where
  "kCFNullTreeCallBacks = \<lparr>tc_retain = None, tc_release = None, tc_copyDescription = None\<rparr>"

definition kCFTreeHasNullCallBacks :: "32 word" where "kCFTreeHasNullCallBacks = 0"
definition kCFTreeHasCFTypeCallBacks :: "32 word" where "kCFTreeHasCFTypeCallBacks = 1"
definition kCFTreeHasCustomCallBacks :: "32 word" where "kCFTreeHasCustomCallBacks = 3"

subsection \<open>Access to the store\<close>

definition node :: "tree_state \<Rightarrow> tree_ref \<Rightarrow> tree_node option" where
  "node s r = ts_nodes s r"

definition upd :: "tree_state \<Rightarrow> tree_ref \<Rightarrow> (tree_node \<Rightarrow> tree_node) \<Rightarrow> tree_state option" where
  "upd s r f = (case ts_nodes s r of None \<Rightarrow> None
     | Some n \<Rightarrow> Some (s\<lparr>ts_nodes := (ts_nodes s)(r \<mapsto> f n)\<rparr>))"

definition event :: "tree_state \<Rightarrow> tree_event \<Rightarrow> tree_state" where
  "event s e = s\<lparr>ts_trace := ts_trace s @ [e]\<rparr>"

definition set_parent :: "tree_ref option \<Rightarrow> tree_node \<Rightarrow> tree_node" where
  "set_parent p n = n\<lparr>tn_parent := p\<rparr>"

definition set_sibling :: "tree_ref option \<Rightarrow> tree_node \<Rightarrow> tree_node" where
  "set_sibling p n = n\<lparr>tn_sibling := p\<rparr>"

definition set_child :: "tree_ref option \<Rightarrow> tree_node \<Rightarrow> tree_node" where
  "set_child p n = n\<lparr>tn_child := p\<rparr>"

definition set_rightmost :: "tree_ref option \<Rightarrow> tree_node \<Rightarrow> tree_node" where
  "set_rightmost p n = n\<lparr>tn_rightmostChild := p\<rparr>"

subsection \<open>Callbacks and context\<close>

definition CFTreeGetCallBacksType :: "tree_node \<Rightarrow> 32 word" where
  "CFTreeGetCallBacksType n = CFBitfieldGetValue (tn_cfinfo n) 1 0"

definition CFTreeGetCallBacks :: "tree_node \<Rightarrow> tree_callbacks option" where
  "CFTreeGetCallBacks n =
     (if CFTreeGetCallBacksType n = kCFTreeHasNullCallBacks then Some kCFNullTreeCallBacks
      else if CFTreeGetCallBacksType n = kCFTreeHasCFTypeCallBacks then Some kCFTypeTreeCallBacks
      else tn_callbacks n)"

definition CFTreeCallBacksMatchNull :: "CFTreeContext \<Rightarrow> bool" where
  "CFTreeCallBacksMatchNull c \<longleftrightarrow> cx_retain c = None \<and> cx_release c = None \<and> cx_copyDescription c = None"

definition CFTreeCallBacksMatchCFType :: "CFTreeContext \<Rightarrow> bool" where
  "CFTreeCallBacksMatchCFType c \<longleftrightarrow>
     map_option cb_addr (cx_retain c) = Some (cb_addr CFRetain_cb) \<and>
     map_option cb_addr (cx_release c) = Some (cb_addr CFRelease_cb) \<and>
     map_option cb_addr (cx_copyDescription c) = Some (cb_addr CFCopyDescription_cb)"

definition CFTreeGetContext :: "tree_state \<Rightarrow> tree_ref \<Rightarrow> CFTreeContext option" where
  "CFTreeGetContext s tree =
     do { n \<leftarrow> node s tree; cb \<leftarrow> CFTreeGetCallBacks n;
          Some \<lparr>cx_info = tn_info n, cx_retain = tc_retain cb, cx_release = tc_release cb,
                cx_copyDescription = tc_copyDescription cb\<rparr> }"

definition CFTreeSetContext :: "tree_state \<Rightarrow> tree_ref \<Rightarrow> CFTreeContext \<Rightarrow> tree_state option" where
  "CFTreeSetContext s tree context =
     do { old \<leftarrow> node s tree;
          oldcb \<leftarrow> CFTreeGetCallBacks old;
          let oldinfo = tn_info old;
          let newtype = (if CFTreeCallBacksMatchNull context then kCFTreeHasNullCallBacks
                         else if CFTreeCallBacksMatchCFType context then kCFTreeHasCFTypeCallBacks
                         else kCFTreeHasCustomCallBacks);
          s \<leftarrow> upd s tree (\<lambda>n. if newtype = kCFTreeHasCustomCallBacks
                 then n\<lparr>tn_callbacks := Some \<lparr>tc_retain = cx_retain context, tc_release = cx_release context,
                                               tc_copyDescription = cx_copyDescription context\<rparr>\<rparr>
                 else n);
          s \<leftarrow> upd s tree (\<lambda>n. n\<lparr>tn_cfinfo := CFBitfieldSetValue (tn_cfinfo n) 1 0 newtype\<rparr>);
          n \<leftarrow> node s tree;
          newcb \<leftarrow> CFTreeGetCallBacks n;
          s \<leftarrow> (case tc_retain newcb of
                  Some retain \<Rightarrow>
                    upd (event s (RetainInfo (cx_info context))) tree
                      (\<lambda>n. n\<lparr>tn_info := cb_fun retain (cx_info context)\<rparr>)
                | None \<Rightarrow> upd s tree (\<lambda>n. n\<lparr>tn_info := cx_info context\<rparr>));
          Some (case tc_release oldcb of Some _ \<Rightarrow> event s (ReleaseInfo oldinfo) | None \<Rightarrow> s) }"

text \<open>\<open>CFTreeCreate\<close>: \<open>memory\<close> is the reference of the instance the runtime allocates.\<close>

definition CFTreeCreate :: "tree_state \<Rightarrow> tree_ref \<Rightarrow> CFTreeContext \<Rightarrow> tree_state option" where
  "CFTreeCreate s memory context =
     (let n = \<lparr>tn_cfinfo = CFBitfieldSetValue 0 1 0 kCFTreeHasNullCallBacks, tn_parent = None,
               tn_sibling = None, tn_child = None, tn_rightmostChild = None, tn_info = 0,
               tn_callbacks = None\<rparr>
      in CFTreeSetContext (s\<lparr>ts_nodes := (ts_nodes s)(memory \<mapsto> n)\<rparr>) memory context)"

subsection \<open>Queries\<close>

partial_function (option) count_loop :: "tree_state \<Rightarrow> tree_ref option \<Rightarrow> nat \<Rightarrow> nat option" where
  "count_loop s p cnt = (case p of None \<Rightarrow> Some cnt
     | Some r \<Rightarrow> do { n \<leftarrow> node s r; count_loop s (tn_sibling n) (cnt + 1) })"

definition CFTreeGetChildCount :: "tree_state \<Rightarrow> tree_ref \<Rightarrow> nat option" where
  "CFTreeGetChildCount s tree = do { n \<leftarrow> node s tree; count_loop s (tn_child n) 0 }"

definition CFTreeGetParent :: "tree_state \<Rightarrow> tree_ref \<Rightarrow> tree_ref option option" where
  "CFTreeGetParent s tree = map_option tn_parent (node s tree)"

definition CFTreeGetNextSibling :: "tree_state \<Rightarrow> tree_ref \<Rightarrow> tree_ref option option" where
  "CFTreeGetNextSibling s tree = map_option tn_sibling (node s tree)"

definition CFTreeGetFirstChild :: "tree_state \<Rightarrow> tree_ref \<Rightarrow> tree_ref option option" where
  "CFTreeGetFirstChild s tree = map_option tn_child (node s tree)"

partial_function (option) CFTreeFindRoot :: "tree_state \<Rightarrow> tree_ref \<Rightarrow> tree_ref option" where
  "CFTreeFindRoot s tree =
     do { n \<leftarrow> node s tree;
          case tn_parent n of None \<Rightarrow> Some tree | Some p \<Rightarrow> CFTreeFindRoot s p }"

partial_function (option) child_at_loop ::
  "tree_state \<Rightarrow> tree_ref option \<Rightarrow> int \<Rightarrow> tree_ref option option" where
  "child_at_loop s p idx = (case p of None \<Rightarrow> Some None
     | Some r \<Rightarrow> if idx = 0 then Some (Some r)
                 else do { n \<leftarrow> node s r; child_at_loop s (tn_sibling n) (idx - 1) })"

definition CFTreeGetChildAtIndex :: "tree_state \<Rightarrow> tree_ref \<Rightarrow> int \<Rightarrow> tree_ref option option" where
  "CFTreeGetChildAtIndex s tree idx = do { n \<leftarrow> node s tree; child_at_loop s (tn_child n) idx }"

text \<open>
  What \<open>CFTreeGetChildren\<close> stores into \<open>children\<close>, and the arguments \<open>CFTreeApplyFunctionToChildren\<close>
  calls the applier with, in order.
\<close>

partial_function (option) children_loop ::
  "tree_state \<Rightarrow> tree_ref option \<Rightarrow> tree_ref list \<Rightarrow> tree_ref list option" where
  "children_loop s p acc = (case p of None \<Rightarrow> Some acc
     | Some r \<Rightarrow> do { n \<leftarrow> node s r; children_loop s (tn_sibling n) (acc @ [r]) })"

definition CFTreeGetChildren :: "tree_state \<Rightarrow> tree_ref \<Rightarrow> tree_ref list option" where
  "CFTreeGetChildren s tree = do { n \<leftarrow> node s tree; children_loop s (tn_child n) [] }"

definition CFTreeApplyFunctionToChildren :: "tree_state \<Rightarrow> tree_ref \<Rightarrow> tree_ref list option" where
  "CFTreeApplyFunctionToChildren s tree = do { n \<leftarrow> node s tree; children_loop s (tn_child n) [] }"

subsection \<open>Linking\<close>

definition CFTreePrependChild :: "tree_state \<Rightarrow> tree_ref \<Rightarrow> tree_ref \<Rightarrow> tree_state option" where
  "CFTreePrependChild s tree newChild =
     do { let s = event s (RetainTree newChild);
          s \<leftarrow> upd s newChild (set_parent (Some tree));
          t \<leftarrow> node s tree;
          s \<leftarrow> upd s newChild (set_sibling (tn_child t));
          t \<leftarrow> node s tree;
          s \<leftarrow> (if tn_child t = None then upd s tree (set_rightmost (Some newChild)) else Some s);
          upd s tree (set_child (Some newChild)) }"

definition CFTreeAppendChild :: "tree_state \<Rightarrow> tree_ref \<Rightarrow> tree_ref \<Rightarrow> tree_state option" where
  "CFTreeAppendChild s tree newChild =
     do { c \<leftarrow> node s newChild;
          if tn_parent c \<noteq> None then None
          else do {
            let s = event s (RetainTree newChild);
            s \<leftarrow> upd s newChild (set_parent (Some tree));
            s \<leftarrow> upd s newChild (set_sibling None);
            t \<leftarrow> node s tree;
            s \<leftarrow> (if tn_child t = None then upd s tree (set_child (Some newChild))
                 else do { r \<leftarrow> tn_rightmostChild t; upd s r (set_sibling (Some newChild)) });
            upd s tree (set_rightmost (Some newChild)) } }"

definition CFTreeInsertSibling :: "tree_state \<Rightarrow> tree_ref \<Rightarrow> tree_ref \<Rightarrow> tree_state option" where
  "CFTreeInsertSibling s tree newSibling =
     do { let s = event s (RetainTree newSibling);
          t \<leftarrow> node s tree;
          s \<leftarrow> upd s newSibling (set_parent (tn_parent t));
          t \<leftarrow> node s tree;
          s \<leftarrow> upd s newSibling (set_sibling (tn_sibling t));
          s \<leftarrow> upd s tree (set_sibling (Some newSibling));
          t \<leftarrow> node s tree;
          case tn_parent t of
            None \<Rightarrow> Some s
          | Some p \<Rightarrow>
              do { pn \<leftarrow> node s p;
                   if tn_rightmostChild pn = Some tree then upd s p (set_rightmost (Some newSibling))
                   else Some s } }"

subsection \<open>Unlinking\<close>

text \<open>What is done when the previous sibling is found, and the search for it.\<close>

definition unlink_found :: "tree_state \<Rightarrow> tree_ref \<Rightarrow> tree_ref \<Rightarrow> tree_state option" where
  "unlink_found s tree prev =
     do { t \<leftarrow> node s tree;
          s \<leftarrow> upd s prev (set_sibling (tn_sibling t));
          p \<leftarrow> tn_parent t;
          pn \<leftarrow> node s p;
          if tn_rightmostChild pn = Some tree then upd s p (set_rightmost (Some prev)) else Some s }"

partial_function (option) unlink_loop ::
  "tree_state \<Rightarrow> tree_ref \<Rightarrow> tree_ref option \<Rightarrow> tree_state option" where
  "unlink_loop s tree prevSibling = (case prevSibling of None \<Rightarrow> Some s
     | Some prev \<Rightarrow>
         do { pv \<leftarrow> node s prev;
              if tn_sibling pv = Some tree then unlink_found s tree prev
              else unlink_loop s tree (tn_sibling pv) })"

definition CFTreeRemove :: "tree_state \<Rightarrow> tree_ref \<Rightarrow> tree_state option" where
  "CFTreeRemove s tree =
     do { t \<leftarrow> node s tree;
          case tn_parent t of
            None \<Rightarrow> Some s
          | Some p \<Rightarrow>
              do { pn \<leftarrow> node s p;
                   s \<leftarrow> (if tn_child pn = Some tree
                        then do { s \<leftarrow> upd s p (set_child (tn_sibling t));
                                  t \<leftarrow> node s tree;
                                  if tn_sibling t = None then upd s p (set_rightmost None) else Some s }
                        else unlink_loop s tree (tn_child pn));
                   s \<leftarrow> upd s tree (set_parent None);
                   s \<leftarrow> upd s tree (set_sibling None);
                   Some (event s (ReleaseTree tree)) } }"

partial_function (option) remove_all_loop :: "tree_state \<Rightarrow> tree_ref option \<Rightarrow> tree_state option" where
  "remove_all_loop s nextChild = (case nextChild of None \<Rightarrow> Some s
     | Some c \<Rightarrow>
         do { n \<leftarrow> node s c;
              let nextSibling = tn_sibling n;
              s \<leftarrow> upd s c (set_parent None);
              s \<leftarrow> upd s c (set_sibling None);
              remove_all_loop (event s (ReleaseTree c)) nextSibling })"

definition CFTreeRemoveAllChildren :: "tree_state \<Rightarrow> tree_ref \<Rightarrow> tree_state option" where
  "CFTreeRemoveAllChildren s tree =
     do { n \<leftarrow> node s tree;
          let nextChild = tn_child n;
          s \<leftarrow> upd s tree (set_child None);
          s \<leftarrow> upd s tree (set_rightmost None);
          remove_all_loop s nextChild }"

text \<open>\<open>__CFTreeDeallocate\<close>; the runtime frees the instance itself afterwards.\<close>

definition CFTreeDeallocate :: "tree_state \<Rightarrow> tree_ref \<Rightarrow> tree_state option" where
  "CFTreeDeallocate s tree =
     do { s \<leftarrow> CFTreeRemoveAllChildren s tree;
          n \<leftarrow> node s tree;
          cb \<leftarrow> CFTreeGetCallBacks n;
          Some (if tc_release cb \<noteq> None then event s (ReleaseInfo (tn_info n)) else s) }"

subsection \<open>Sorting the children\<close>

text \<open>\<open>for (idx = 1; idx < children; idx++) list[idx - 1]->_sibling = list[idx]\<close>.\<close>

fun relink_loop :: "tree_state \<Rightarrow> tree_ref list \<Rightarrow> nat \<Rightarrow> nat \<Rightarrow> tree_state option" where
  "relink_loop s list idx 0 = Some s"
| "relink_loop s list idx (Suc n) =
     do { a \<leftarrow> rd list (idx - 1); b \<leftarrow> rd list idx;
          s \<leftarrow> upd s a (set_sibling (Some b));
          relink_loop s list (idx + 1) n }"

definition CFTreeSortChildren ::
  "(nat \<Rightarrow> nat) \<Rightarrow> tree_state \<Rightarrow> tree_ref \<Rightarrow> (tree_ref \<Rightarrow> tree_ref \<Rightarrow> CFComparisonResult) \<Rightarrow> tree_state option" where
  "CFTreeSortChildren fresh s tree compare =
     do { children \<leftarrow> CFTreeGetChildCount s tree;
          if 1 < children
          then do {
            t \<leftarrow> node s tree;
            list \<leftarrow> children_loop s (tn_child t) [];
            list \<leftarrow> CFQSortPointers fresh fresh list children compare;
            first \<leftarrow> rd list 0;
            s \<leftarrow> upd s tree (set_child (Some first));
            s \<leftarrow> relink_loop s list 1 (children - 1);
            last \<leftarrow> rd list (children - 1);
            s \<leftarrow> upd s last (set_sibling None);
            upd s tree (set_rightmost (Some last)) }
          else Some s }"

subsection \<open>The abstract tree\<close>

text \<open>
  The contract of the component: a function \<open>K\<close> from a tree to the list of its children.  The four
  pointers of every node are determined by \<open>K\<close> and the parent.
\<close>

definition hd_opt :: "'a list \<Rightarrow> 'a option" where
  "hd_opt xs = (case xs of [] \<Rightarrow> None | x # _ \<Rightarrow> Some x)"

definition last_opt :: "'a list \<Rightarrow> 'a option" where
  "last_opt xs = (if xs = [] then None else Some (last xs))"

fun succ_in :: "'a list \<Rightarrow> 'a \<Rightarrow> 'a option" where
  "succ_in [] x = None"
| "succ_in (a # as) x = (if a = x then hd_opt as else succ_in as x)"

definition sibling_of :: "(tree_ref \<Rightarrow> tree_ref list) \<Rightarrow> tree_ref option \<Rightarrow> tree_ref \<Rightarrow> tree_ref option" where
  "sibling_of K p x = (case p of None \<Rightarrow> None | Some p \<Rightarrow> succ_in (K p) x)"

definition node_rep :: "(tree_ref \<Rightarrow> tree_ref list) \<Rightarrow> tree_ref \<Rightarrow> tree_node \<Rightarrow> bool" where
  "node_rep K x n \<longleftrightarrow> tn_child n = hd_opt (K x) \<and> tn_rightmostChild n = last_opt (K x) \<and>
     tn_sibling n = sibling_of K (tn_parent n) x"

definition tree_rep :: "tree_state \<Rightarrow> (tree_ref \<Rightarrow> tree_ref list) \<Rightarrow> bool" where
  "tree_rep s K \<longleftrightarrow> (\<forall>x n. ts_nodes s x = Some n \<longrightarrow> node_rep K x n) \<and>
     (\<forall>t. distinct (K t)) \<and> (\<forall>t. K t \<noteq> [] \<longrightarrow> ts_nodes s t \<noteq> None) \<and>
     (\<forall>t x. x \<in> set (K t) \<longleftrightarrow> (\<exists>n. ts_nodes s x = Some n \<and> tn_parent n = Some t))"

lemma hd_opt_simps [simp]: "hd_opt [] = None" "hd_opt (x # xs) = Some x"
  by (simp_all add: hd_opt_def)

lemma last_opt_simps [simp]: "last_opt [] = None" "last_opt (xs @ [x]) = Some x"
  by (simp_all add: last_opt_def)

lemma hd_opt_append: "hd_opt (xs @ ys) = (if xs = [] then hd_opt ys else hd_opt xs)"
  by (cases xs) auto

lemma hd_opt_None [simp]: "hd_opt xs = None \<longleftrightarrow> xs = []"
  by (cases xs) auto

lemma succ_in_notin: "x \<notin> set xs \<Longrightarrow> succ_in xs x = None"
  by (induction xs) auto

lemma succ_in_snoc:
  "distinct (xs @ [y]) \<Longrightarrow> succ_in (xs @ [y]) x = (if last_opt xs = Some x then Some y else succ_in xs x)"
  by (induction xs) (auto simp: hd_opt_append last_opt_def split: if_splits)

lemma succ_in_middle: "distinct (pre @ x # xs) \<Longrightarrow> succ_in (pre @ x # xs) x = hd_opt xs"
  by (induction pre) auto

lemma succ_in_insert:
  "distinct (pre @ t # post) \<Longrightarrow> c \<notin> set (pre @ t # post) \<Longrightarrow>
    succ_in (pre @ t # c # post) x =
      (if x = t then Some c else if x = c then hd_opt post else succ_in (pre @ t # post) x)"
proof (induction pre)
  case (Cons a pre)
  then show ?case by (auto simp: hd_opt_append)
qed auto

lemma succ_in_remove:
  "distinct (pre @ t # post) \<Longrightarrow> x \<noteq> t \<Longrightarrow>
    succ_in (pre @ post) x = (if last_opt pre = Some x then hd_opt post else succ_in (pre @ t # post) x)"
proof (induction pre)
  case Nil
  then show ?case by auto
next
  case (Cons a pre)
  then show ?case by (cases pre) (auto simp: hd_opt_append last_opt_def split: if_splits)
qed

lemma upd_Some [cf_mem]:
  "ts_nodes s r = Some n \<Longrightarrow> upd s r f = Some (s\<lparr>ts_nodes := (ts_nodes s)(r \<mapsto> f n)\<rparr>)"
  by (simp add: upd_def)

lemma event_simps [simp]:
  "ts_nodes (event s e) = ts_nodes s" "ts_trace (event s e) = ts_trace s @ [e]"
  by (simp_all add: event_def)

lemma set_sel [simp]:
  "tn_parent (set_parent p n) = p" "tn_sibling (set_parent p n) = tn_sibling n"
  "tn_child (set_parent p n) = tn_child n" "tn_rightmostChild (set_parent p n) = tn_rightmostChild n"
  "tn_parent (set_sibling p n) = tn_parent n" "tn_sibling (set_sibling p n) = p"
  "tn_child (set_sibling p n) = tn_child n" "tn_rightmostChild (set_sibling p n) = tn_rightmostChild n"
  "tn_parent (set_child p n) = tn_parent n" "tn_sibling (set_child p n) = tn_sibling n"
  "tn_child (set_child p n) = p" "tn_rightmostChild (set_child p n) = tn_rightmostChild n"
  "tn_parent (set_rightmost p n) = tn_parent n" "tn_sibling (set_rightmost p n) = tn_sibling n"
  "tn_child (set_rightmost p n) = tn_child n" "tn_rightmostChild (set_rightmost p n) = p"
  by (simp_all add: set_parent_def set_sibling_def set_child_def set_rightmost_def)

lemma node_simp [simp]: "node s r = ts_nodes s r"
  by (simp add: node_def)

subsection \<open>Consequences of the representation\<close>

lemma rep_node: "tree_rep s K \<Longrightarrow> ts_nodes s x = Some n \<Longrightarrow>
    tn_child n = hd_opt (K x) \<and> tn_rightmostChild n = last_opt (K x) \<and>
    tn_sibling n = sibling_of K (tn_parent n) x"
  by (simp add: tree_rep_def node_rep_def)

lemma rep_child: "tree_rep s K \<Longrightarrow> x \<in> set (K t) \<Longrightarrow>
    \<exists>n. ts_nodes s x = Some n \<and> tn_parent n = Some t \<and> tn_sibling n = succ_in (K t) x"
  by (fastforce simp: tree_rep_def node_rep_def sibling_of_def)

lemma rep_parent: "tree_rep s K \<Longrightarrow> ts_nodes s x = Some n \<Longrightarrow> tn_parent n = Some t \<Longrightarrow> x \<in> set (K t)"
  by (auto simp: tree_rep_def)

lemma rep_orphan: "tree_rep s K \<Longrightarrow> ts_nodes s x = Some n \<Longrightarrow> tn_parent n = None \<Longrightarrow> x \<notin> set (K t)"
  by (auto simp: tree_rep_def)

lemma rep_distinct: "tree_rep s K \<Longrightarrow> distinct (K t)"
  by (simp add: tree_rep_def)

lemma rep_exists: "tree_rep s K \<Longrightarrow> K t \<noteq> [] \<Longrightarrow> \<exists>n. ts_nodes s t = Some n"
  by (auto simp: tree_rep_def)

lemma rep_orphan_sibling:
  "tree_rep s K \<Longrightarrow> ts_nodes s x = Some n \<Longrightarrow> tn_parent n = None \<Longrightarrow> tn_sibling n = None"
  by (simp add: tree_rep_def node_rep_def sibling_of_def)

text \<open>A chain of siblings, as the loops see it.\<close>

fun chain :: "(tree_ref \<Rightarrow> tree_node option) \<Rightarrow> tree_ref option \<Rightarrow> tree_ref list \<Rightarrow> bool" where
  "chain m p [] \<longleftrightarrow> p = None"
| "chain m p (x # xs) \<longleftrightarrow> p = Some x \<and> (\<exists>n. m x = Some n \<and> chain m (tn_sibling n) xs)"

lemma chain_update: "r \<notin> set xs \<Longrightarrow> chain (m(r \<mapsto> n)) p xs = chain m p xs"
  by (induction xs arbitrary: p) auto

lemma chain_update_same:
  "m r = Some n' \<Longrightarrow> tn_sibling n = tn_sibling n' \<Longrightarrow> chain (m(r \<mapsto> n)) p xs = chain m p xs"
  by (induction xs arbitrary: p) auto

lemma rep_chain_from:
  assumes "tree_rep s K"
  shows "K t = pre @ xs \<Longrightarrow> chain (ts_nodes s) (hd_opt xs) xs"
proof (induction xs arbitrary: pre)
  case (Cons x xs)
  then obtain n where n: "ts_nodes s x = Some n" "tn_sibling n = succ_in (K t) x"
    using rep_child [OF assms, of x t] by auto
  have "distinct (pre @ x # xs)" using rep_distinct [OF assms, of t] Cons.prems by simp
  then have "tn_sibling n = hd_opt xs" using n(2) Cons.prems succ_in_middle by metis
  then show ?case using n(1) Cons.IH [of "pre @ [x]"] Cons.prems by simp
qed simp

lemma rep_chain: "tree_rep s K \<Longrightarrow> ts_nodes s t = Some n \<Longrightarrow> chain (ts_nodes s) (tn_child n) (K t)"
  using rep_chain_from [of s K t "[]"] rep_node [of s K t n] by simp

lemma children_loop_chain:
  "chain (ts_nodes s) p xs \<Longrightarrow> children_loop s p acc = Some (acc @ xs)"
  by (induction xs arbitrary: p acc) (auto simp: children_loop.simps [of s])

lemma count_loop_chain:
  "chain (ts_nodes s) p xs \<Longrightarrow> count_loop s p c = Some (c + length xs)"
  by (induction xs arbitrary: p c) (auto simp: count_loop.simps [of s])

lemma child_at_loop_chain:
  "chain (ts_nodes s) p xs \<Longrightarrow>
    child_at_loop s p i = Some (if 0 \<le> i \<and> i < int (length xs) then Some (xs ! nat i) else None)"
proof (induction xs arbitrary: p i)
  case Nil
  then show ?case by (simp add: child_at_loop.simps [of s])
next
  case (Cons x xs)
  then show ?case
    by (cases "i = 0") (auto simp: child_at_loop.simps [of s "Some x"] nth_Cons' nat_diff_distrib)
qed

subsection \<open>The operations on the representation\<close>

definition orphan :: "tree_state \<Rightarrow> tree_ref \<Rightarrow> bool" where
  "orphan s x \<longleftrightarrow> (\<exists>n. ts_nodes s x = Some n \<and> tn_parent n = None)"

definition is_tree :: "tree_state \<Rightarrow> tree_ref \<Rightarrow> bool" where
  "is_tree s x \<longleftrightarrow> ts_nodes s x \<noteq> None"

text \<open>
  What every operation does, pointer by pointer: the children of \<open>t\<close> become the list \<open>L\<close>; what was a
  child and is not in \<open>L\<close> becomes an orphan; nothing else changes, the contexts included.
\<close>

definition same_context :: "tree_node \<Rightarrow> tree_node \<Rightarrow> bool" where
  "same_context n n' \<longleftrightarrow> tn_info n' = tn_info n \<and> tn_cfinfo n' = tn_cfinfo n \<and>
     tn_callbacks n' = tn_callbacks n"

definition relinked_node ::
  "(tree_ref \<Rightarrow> tree_ref list) \<Rightarrow> tree_ref \<Rightarrow> tree_ref list \<Rightarrow> tree_ref \<Rightarrow> tree_node \<Rightarrow> tree_node \<Rightarrow> bool" where
  "relinked_node K t L x n n' \<longleftrightarrow> same_context n n' \<and>
     (if x = t then tn_child n' = hd_opt L \<and> tn_rightmostChild n' = last_opt L
      else tn_child n' = tn_child n \<and> tn_rightmostChild n' = tn_rightmostChild n) \<and>
     (if x \<in> set L then tn_parent n' = Some t \<and> tn_sibling n' = succ_in L x
      else if x \<in> set (K t) then tn_parent n' = None \<and> tn_sibling n' = None
      else tn_parent n' = tn_parent n \<and> tn_sibling n' = tn_sibling n)"

definition relinked ::
  "tree_state \<Rightarrow> (tree_ref \<Rightarrow> tree_ref list) \<Rightarrow> tree_ref \<Rightarrow> tree_ref list \<Rightarrow> tree_state \<Rightarrow> bool" where
  "relinked s K t L s' \<longleftrightarrow>
     (\<forall>x. rel_option (relinked_node K t L x) (ts_nodes s x) (ts_nodes s' x))"

lemma same_context_simps [simp]:
  "same_context n n" "same_context n (set_parent p n') = same_context n n'"
  "same_context n (set_sibling p n') = same_context n n'"
  "same_context n (set_child p n') = same_context n n'"
  "same_context n (set_rightmost p n') = same_context n n'"
  by (simp_all add: same_context_def set_parent_def set_sibling_def set_child_def set_rightmost_def)

lemma relinked_rep:
  assumes "tree_rep s K" "relinked s K t L s'" "distinct L" "is_tree s t"
    and "\<forall>x \<in> set L. x \<in> set (K t) \<or> orphan s x"
  shows "tree_rep s' (K(t := L))"
proof -
  let ?K = "K(t := L)"
  have rel: "rel_option (relinked_node K t L x) (ts_nodes s x) (ts_nodes s' x)" for x
    using assms(2) by (simp add: relinked_def)
  have in_s: "ts_nodes s x \<noteq> None" if "x \<in> set (K p)" for x p
    using assms(1) that by (auto simp: tree_rep_def)
  have new: "\<exists>n. ts_nodes s x = Some n" if "x \<in> set L" for x
    using assms(5) that in_s [of x t] by (auto simp: orphan_def)
  have other: "x \<notin> set (K p)" if "x \<in> set L" "p \<noteq> t" for x p
    using assms(1,5) that by (auto simp: tree_rep_def orphan_def)
  have nodes: "node_rep ?K x n'" if n': "ts_nodes s' x = Some n'" for x n'
  proof -
    obtain n where n: "ts_nodes s x = Some n" "relinked_node K t L x n n'"
      using rel [of x] n' by (cases "ts_nodes s x") auto
    note r = rep_node [OF assms(1) n(1)]
    have "x \<in> set (K t) \<longleftrightarrow> tn_parent n = Some t" using assms(1) n(1) by (auto simp: tree_rep_def)
    then show ?thesis
      using n(2) r by (auto simp: relinked_node_def node_rep_def sibling_of_def split: if_splits option.splits)
  qed
  have members: "x \<in> set (?K p) \<longleftrightarrow> (\<exists>n'. ts_nodes s' x = Some n' \<and> tn_parent n' = Some p)" for x p
  proof (cases "ts_nodes s x")
    case None
    then have "ts_nodes s' x = None" using rel [of x] by (cases "ts_nodes s' x") auto
    then show ?thesis using None in_s [of x] new [of x] by (auto split: if_splits)
  next
    case (Some n)
    then obtain n' where n': "ts_nodes s' x = Some n'" "relinked_node K t L x n n'"
      using rel [of x] by (cases "ts_nodes s' x") auto
    have mem: "x \<in> set (K q) \<longleftrightarrow> tn_parent n = Some q" for q
      using assms(1) Some by (auto simp: tree_rep_def)
    show ?thesis
      using n' mem other [of x] by (auto simp: relinked_node_def split: if_splits)
  qed
  have "ts_nodes s' p \<noteq> None" if "?K p \<noteq> []" for p
  proof -
    have "ts_nodes s p \<noteq> None"
      using that assms(1,4) by (cases "p = t") (auto simp: tree_rep_def is_tree_def)
    then show ?thesis using rel [of p] by (cases "ts_nodes s' p") auto
  qed
  then show ?thesis
    using nodes members assms(1,3) unfolding tree_rep_def by simp
qed

lemma relinkedI:
  assumes "\<And>x n. ts_nodes s x = Some n \<Longrightarrow> \<exists>n'. ts_nodes s' x = Some n' \<and> relinked_node K t L x n n'"
    and "\<And>x. ts_nodes s x = None \<Longrightarrow> ts_nodes s' x = None"
  shows "relinked s K t L s'"
  unfolding relinked_def
proof
  fix x
  show "rel_option (relinked_node K t L x) (ts_nodes s x) (ts_nodes s' x)"
    using assms(1) [of x] assms(2) [of x] by (cases "ts_nodes s x") auto
qed

lemma append_relinked:
  assumes "tree_rep s K" "is_tree s t" "orphan s c" "c \<noteq> t"
  shows "\<exists>s'. CFTreeAppendChild s t c = Some s' \<and> relinked s K t (K t @ [c]) s' \<and>
    ts_trace s' = ts_trace s @ [RetainTree c]"
proof -
  obtain T C where T: "ts_nodes s t = Some T" and C: "ts_nodes s c = Some C" "tn_parent C = None"
    using assms(2,3) by (auto simp: is_tree_def orphan_def)
  have notin: "c \<notin> set (K x)" for x using rep_orphan [OF assms(1) C] .
  note repT = rep_node [OF assms(1) T]
  have dist: "distinct (K t @ [c])" using rep_distinct [OF assms(1), of t] notin by simp
  show ?thesis
  proof (cases "K t = []")
    case True
    let ?s = "s\<lparr>ts_nodes := (ts_nodes s)
      (c \<mapsto> set_sibling None (set_parent (Some t) C),
       t \<mapsto> set_rightmost (Some c) (set_child (Some c) T)), ts_trace := ts_trace s @ [RetainTree c]\<rparr>"
    have "CFTreeAppendChild s t c = Some ?s"
      using T C True repT assms(4) by (simp add: CFTreeAppendChild_def cf_mem event_def)
    moreover have "relinked s K t (K t @ [c]) ?s"
      using T C True assms(4) by (intro relinkedI) (auto simp: relinked_node_def last_opt_def)
    ultimately show ?thesis by auto
  next
    case False
    define l where "l = last (K t)"
    have l: "last_opt (K t) = Some l" "l \<in> set (K t)" "l \<noteq> c"
      using False notin [of t] last_in_set [of "K t"] by (auto simp: last_opt_def l_def)
    obtain N where N: "ts_nodes s l = Some N" "tn_parent N = Some t" "tn_sibling N = succ_in (K t) l"
      using rep_child [OF assms(1) l(2)] by auto
    let ?m = "(ts_nodes s)(c \<mapsto> set_sibling None (set_parent (Some t) C), l \<mapsto> set_sibling (Some c) N)"
    let ?s = "s\<lparr>ts_nodes := ?m(t \<mapsto> set_rightmost (Some c) (the (?m t))), ts_trace := ts_trace s @ [RetainTree c]\<rparr>"
    have "CFTreeAppendChild s t c = Some ?s"
      using T C N l False repT assms(4) by (simp add: CFTreeAppendChild_def cf_mem event_def)
    moreover have "relinked s K t (K t @ [c]) ?s"
    proof (rule relinkedI)
      fix x n assume n: "ts_nodes s x = Some n"
      have "x \<in> set (K t) \<Longrightarrow> tn_parent n = Some t \<and> tn_sibling n = succ_in (K t) x"
        using rep_child [OF assms(1), of x t] n by auto
      then show "\<exists>n'. ts_nodes ?s x = Some n' \<and> relinked_node K t (K t @ [c]) x n n'"
        using n T C N l dist notin False repT assms(4) succ_in_snoc [OF dist, of x]
        by (auto simp: relinked_node_def hd_opt_append succ_in_notin)
    qed (use C N T in auto)
    ultimately show ?thesis by auto
  qed
qed

lemma prepend_relinked:
  assumes "tree_rep s K" "is_tree s t" "orphan s c" "c \<noteq> t"
  shows "\<exists>s'. CFTreePrependChild s t c = Some s' \<and> relinked s K t (c # K t) s' \<and>
    ts_trace s' = ts_trace s @ [RetainTree c]"
proof -
  obtain T C where T: "ts_nodes s t = Some T" and C: "ts_nodes s c = Some C" "tn_parent C = None"
    using assms(2,3) by (auto simp: is_tree_def orphan_def)
  have notin: "c \<notin> set (K x)" for x using rep_orphan [OF assms(1) C] .
  note repT = rep_node [OF assms(1) T]
  let ?s = "s\<lparr>ts_nodes := (ts_nodes s)
    (c \<mapsto> set_sibling (hd_opt (K t)) (set_parent (Some t) C),
     t \<mapsto> set_child (Some c) (if K t = [] then set_rightmost (Some c) T else T)),
    ts_trace := ts_trace s @ [RetainTree c]\<rparr>"
  have "CFTreePrependChild s t c = Some ?s"
    using T C repT assms(4) by (simp add: CFTreePrependChild_def cf_mem event_def)
  moreover have "relinked s K t (c # K t) ?s"
  proof (rule relinkedI)
    fix x n assume n: "ts_nodes s x = Some n"
    have "x \<in> set (K t) \<Longrightarrow> tn_parent n = Some t \<and> tn_sibling n = succ_in (K t) x"
      using rep_child [OF assms(1), of x t] n by auto
    then show "\<exists>n'. ts_nodes ?s x = Some n' \<and> relinked_node K t (c # K t) x n n'"
      using n T C notin repT assms(4) by (auto simp: relinked_node_def last_opt_def)
  qed (use C T in auto)
  ultimately show ?thesis by auto
qed

lemma insert_relinked:
  assumes "tree_rep s K" "orphan s c" "K p = pre @ t # post" "p \<noteq> c" "t \<noteq> p"
  shows "\<exists>s'. CFTreeInsertSibling s t c = Some s' \<and> relinked s K p (pre @ t # c # post) s' \<and>
    ts_trace s' = ts_trace s @ [RetainTree c]"
proof -
  obtain C where C: "ts_nodes s c = Some C" "tn_parent C = None" using assms(2) by (auto simp: orphan_def)
  have notin: "c \<notin> set (K x)" for x using rep_orphan [OF assms(1) C] .
  have dist: "distinct (pre @ t # post)" using rep_distinct [OF assms(1), of p] assms(3) by simp
  obtain T where T: "ts_nodes s t = Some T" "tn_parent T = Some p" "tn_sibling T = hd_opt post"
    using rep_child [OF assms(1), of t p] assms(3) succ_in_middle [OF dist] by auto
  obtain P where P: "ts_nodes s p = Some P" using rep_exists [OF assms(1), of p] assms(3) by auto
  note repP = rep_node [OF assms(1) P]
  have ct: "c \<noteq> t" "c \<notin> set pre" "c \<notin> set post" using notin [of p] assms(3) by auto
  have right: "tn_rightmostChild P = Some t \<longleftrightarrow> post = []"
    using repP assms(3) dist by (auto simp: last_opt_def dest: last_in_set)
  let ?m = "(ts_nodes s)
    (c \<mapsto> set_sibling (hd_opt post) (set_parent (Some p) C), t \<mapsto> set_sibling (Some c) T)"
  let ?s = "s\<lparr>ts_nodes := (if post = [] then ?m(p \<mapsto> set_rightmost (Some c) P) else ?m),
    ts_trace := ts_trace s @ [RetainTree c]\<rparr>"
  have "CFTreeInsertSibling s t c = Some ?s"
    using T C P right ct assms(4,5) by (simp add: CFTreeInsertSibling_def cf_mem event_def)
  moreover have "relinked s K p (pre @ t # c # post) ?s"
  proof (rule relinkedI)
    fix x n assume n: "ts_nodes s x = Some n"
    have "x \<in> set (K p) \<Longrightarrow> tn_parent n = Some p \<and> tn_sibling n = succ_in (K p) x"
      using rep_child [OF assms(1), of x p] n by auto
    then show "\<exists>n'. ts_nodes ?s x = Some n' \<and> relinked_node K p (pre @ t # c # post) x n n'"
      using n T C P ct repP assms(3-5) dist succ_in_insert [OF dist, of c x]
      by (auto simp: relinked_node_def hd_opt_append last_opt_def)
  qed (use C T P in auto)
  ultimately show ?thesis by auto
qed

lemma unlink_loop_chain:
  "chain (ts_nodes s) p (pre @ t # post) \<Longrightarrow> pre \<noteq> [] \<Longrightarrow> distinct (pre @ t # post) \<Longrightarrow>
    unlink_loop s t p = unlink_found s t (last pre)"
proof (induction pre arbitrary: p)
  case (Cons a pre)
  then show ?case
    by (cases pre) (auto simp: unlink_loop.simps [of s t "Some a"])
qed simp

lemma remove_relinked:
  assumes "tree_rep s K" "K p = pre @ t # post" "t \<noteq> p" "p \<notin> set (K p)"
  shows "\<exists>s'. CFTreeRemove s t = Some s' \<and> relinked s K p (pre @ post) s' \<and>
    ts_trace s' = ts_trace s @ [ReleaseTree t]"
proof -
  have dist: "distinct (pre @ t # post)" using rep_distinct [OF assms(1), of p] assms(2) by simp
  obtain T where T: "ts_nodes s t = Some T" "tn_parent T = Some p" "tn_sibling T = hd_opt post"
    using rep_child [OF assms(1), of t p] assms(2) succ_in_middle [OF dist] by auto
  obtain P where P: "ts_nodes s p = Some P" using rep_exists [OF assms(1), of p] assms(2) by auto
  note repP = rep_node [OF assms(1) P]
  have kid: "x \<in> set (K p) \<Longrightarrow> ts_nodes s x = Some n \<Longrightarrow> tn_parent n = Some p \<and> tn_sibling n = succ_in (K p) x" for x n
    using rep_child [OF assms(1), of x p] by auto
  let ?t = "set_sibling None (set_parent None T)"
  show ?thesis
  proof (cases "pre = []")
    case True
    let ?P = "if post = [] then set_rightmost None (set_child None P) else set_child (hd_opt post) P"
    let ?s = "s\<lparr>ts_nodes := (ts_nodes s)(p \<mapsto> ?P, t \<mapsto> ?t), ts_trace := ts_trace s @ [ReleaseTree t]\<rparr>"
    have "CFTreeRemove s t = Some ?s"
      using True T P repP assms(2,3)
      by (cases "post = []") (simp_all add: CFTreeRemove_def cf_mem event_def)
    moreover have "relinked s K p (pre @ post) ?s"
    proof (rule relinkedI)
      fix x n assume n: "ts_nodes s x = Some n"
      show "\<exists>n'. ts_nodes ?s x = Some n' \<and> relinked_node K p (pre @ post) x n n'"
        using n T P True repP kid [OF _ n] assms(2,3) dist
        by (auto simp: relinked_node_def last_opt_def)
    qed (use T P in auto)
    ultimately show ?thesis by auto
  next
    case False
    define l where "l = last pre"
    have l: "last_opt pre = Some l" "l \<in> set pre" "l \<noteq> t" "l \<noteq> p"
      using False dist assms(2,4) last_in_set [OF False] by (auto simp: last_opt_def l_def)
    obtain N where N: "ts_nodes s l = Some N" "tn_parent N = Some p"
      using rep_child [OF assms(1), of l p] l(2) assms(2) by auto
    have right: "tn_rightmostChild P = Some t \<longleftrightarrow> post = []"
      using repP assms(2) dist by (auto simp: last_opt_def dest: last_in_set)
    have first: "tn_child P \<noteq> Some t"
      using repP False assms(2) dist by (cases pre) auto
    have "chain (ts_nodes s) (tn_child P) (pre @ t # post)"
      using rep_chain [OF assms(1) P] assms(2) by simp
    then have loop: "unlink_loop s t (tn_child P) = unlink_found s t l"
      using unlink_loop_chain False dist by (simp add: l_def)
    let ?m = "(ts_nodes s)(l \<mapsto> set_sibling (hd_opt post) N)"
    let ?s = "s\<lparr>ts_nodes := (if post = [] then ?m(p \<mapsto> set_rightmost (Some l) P) else ?m)(t \<mapsto> ?t),
      ts_trace := ts_trace s @ [ReleaseTree t]\<rparr>"
    have "CFTreeRemove s t = Some ?s"
      using T P N l right first loop assms(3)
      by (simp add: CFTreeRemove_def unlink_found_def cf_mem event_def)
    moreover have "relinked s K p (pre @ post) ?s"
    proof (rule relinkedI)
      fix x n assume n: "ts_nodes s x = Some n"
      show "\<exists>n'. ts_nodes ?s x = Some n' \<and> relinked_node K p (pre @ post) x n n'"
        using n T P N l False repP kid [OF _ n] assms(2-4) dist succ_in_remove [OF dist, of x]
        by (auto simp: relinked_node_def hd_opt_append last_opt_def)
    qed (use T P N in auto)
    ultimately show ?thesis by auto
  qed
qed

definition detach :: "tree_node \<Rightarrow> tree_node" where
  "detach n = set_sibling None (set_parent None n)"

lemma remove_all_loop_chain:
  "chain (ts_nodes s) p xs \<Longrightarrow> distinct xs \<Longrightarrow>
    \<exists>s'. remove_all_loop s p = Some s' \<and> ts_trace s' = ts_trace s @ map ReleaseTree xs \<and>
      (\<forall>x. ts_nodes s' x = (if x \<in> set xs then map_option detach (ts_nodes s x) else ts_nodes s x))"
proof (induction xs arbitrary: s p)
  case Nil
  then show ?case by (simp add: remove_all_loop.simps [of s])
next
  case (Cons x xs)
  then obtain n where n: "p = Some x" "ts_nodes s x = Some n" "chain (ts_nodes s) (tn_sibling n) xs" by auto
  let ?s = "s\<lparr>ts_nodes := (ts_nodes s)(x \<mapsto> detach n), ts_trace := ts_trace s @ [ReleaseTree x]\<rparr>"
  have "remove_all_loop s p = remove_all_loop ?s (tn_sibling n)"
    using n by (simp add: remove_all_loop.simps [of s] cf_mem event_def detach_def)
  moreover have "chain (ts_nodes ?s) (tn_sibling n) xs" "distinct xs"
    using n(3) Cons.prems(2) by (simp_all add: chain_update)
  then obtain s' where "remove_all_loop ?s (tn_sibling n) = Some s'"
    "ts_trace s' = ts_trace ?s @ map ReleaseTree xs"
    "\<forall>x. ts_nodes s' x = (if x \<in> set xs then map_option detach (ts_nodes ?s x) else ts_nodes ?s x)"
    using Cons.IH by blast
  ultimately show ?case using n Cons.prems(2) by auto
qed

lemma remove_all_relinked:
  assumes "tree_rep s K" "is_tree s t" "t \<notin> set (K t)"
  shows "\<exists>s'. CFTreeRemoveAllChildren s t = Some s' \<and> relinked s K t [] s' \<and>
    ts_trace s' = ts_trace s @ map ReleaseTree (K t)"
proof -
  obtain T where T: "ts_nodes s t = Some T" using assms(2) by (auto simp: is_tree_def)
  let ?s = "s\<lparr>ts_nodes := (ts_nodes s)(t \<mapsto> set_rightmost None (set_child None T))\<rparr>"
  have "chain (ts_nodes ?s) (tn_child T) (K t)"
    using rep_chain [OF assms(1) T] assms(3) by (simp add: chain_update)
  then obtain s' where s': "remove_all_loop ?s (tn_child T) = Some s'"
    "ts_trace s' = ts_trace s @ map ReleaseTree (K t)"
    "\<forall>x. ts_nodes s' x = (if x \<in> set (K t) then map_option detach (ts_nodes ?s x) else ts_nodes ?s x)"
    using remove_all_loop_chain [of ?s "tn_child T" "K t"] rep_distinct [OF assms(1), of t] by auto
  have "CFTreeRemoveAllChildren s t = Some s'"
    using T s'(1) by (simp add: CFTreeRemoveAllChildren_def cf_mem)
  moreover have "relinked s K t [] s'"
    using T s'(3) assms(3) by (intro relinkedI) (auto simp: relinked_node_def detach_def)
  ultimately show ?thesis using s'(2) by blast
qed

lemma relink_loop_correct:
  "distinct (a # xs) \<Longrightarrow> \<forall>x \<in> set (a # xs). ts_nodes s x \<noteq> None \<Longrightarrow>
    \<exists>s'. relink_loop s (pre @ a # xs) (length pre + 1) (length xs) = Some s' \<and> ts_trace s' = ts_trace s \<and>
      (\<forall>x. ts_nodes s' x = (if x \<in> set (a # xs) \<and> x \<noteq> last (a # xs)
         then map_option (set_sibling (succ_in (a # xs) x)) (ts_nodes s x) else ts_nodes s x))"
proof (induction xs arbitrary: s a pre)
  case (Cons b xs)
  then obtain n where n: "ts_nodes s a = Some n" by auto
  let ?s = "s\<lparr>ts_nodes := (ts_nodes s)(a \<mapsto> set_sibling (Some b) n)\<rparr>"
  have "relink_loop s (pre @ a # b # xs) (length pre + 1) (length (b # xs)) =
      relink_loop ?s ((pre @ [a]) @ b # xs) (length (pre @ [a]) + 1) (length xs)"
    using n by (simp add: rd_def nth_append cf_mem)
  moreover have "\<forall>x \<in> set (b # xs). ts_nodes ?s x \<noteq> None" using Cons.prems(2) by auto
  ultimately show ?case
    using Cons.IH [of b ?s "pre @ [a]"] Cons.prems(1) n by (auto split: if_splits)
qed simp

lemma sort_relinked:
  assumes "tree_rep s K" "is_tree s t" "t \<notin> set (K t)" "comparator cmp" "length (K t) \<le> INTPTR_MAX div 8"
  shows "\<exists>s' L. CFTreeSortChildren fresh s t cmp = Some s' \<and> stable_sort_of cmp (K t) L \<and>
    relinked s K t L s' \<and> ts_trace s' = ts_trace s"
proof -
  obtain T where T: "ts_nodes s t = Some T" using assms(2) by (auto simp: is_tree_def)
  note repT = rep_node [OF assms(1) T]
  have ch: "chain (ts_nodes s) (tn_child T) (K t)" using rep_chain [OF assms(1) T] .
  have cnt: "CFTreeGetChildCount s t = Some (length (K t))"
    using T count_loop_chain [OF ch] by (simp add: CFTreeGetChildCount_def)
  have kid: "x \<in> set (K t) \<Longrightarrow> ts_nodes s x = Some n \<Longrightarrow> tn_parent n = Some t \<and> tn_sibling n = succ_in (K t) x" for x n
    using rep_child [OF assms(1), of x t] by auto
  show ?thesis
  proof (cases "1 < length (K t)")
    case False
    have "relinked s K t (K t) s"
      using repT T kid by (intro relinkedI) (auto simp: relinked_node_def)
    moreover have "stable_sort_of cmp (K t) (K t)"
      using False sorted_wrt01 [of "K t"] by (simp add: stable_sort_of_def)
    ultimately show ?thesis using False cnt by (auto simp: CFTreeSortChildren_def)
  next
    case True
    obtain L where L: "CFQSortPointers fresh fresh (K t) (length (K t)) cmp = Some L"
      "stable_sort_of cmp (K t) L"
      using QSortPointers_correct [OF assms(4), of "K t"] True assms(5) by auto
    have len: "length L = length (K t)" using stable_sort_of_length [OF L(2)] .
    have m: "mset L = mset (K t)" using L(2) by (simp add: stable_sort_of_def)
    have set: "set L = set (K t)" using mset_eq_setD [OF m] .
    have dist: "distinct L" using mset_eq_imp_distinct_iff [OF m] rep_distinct [OF assms(1), of t] by simp
    obtain a xs where axs: "L = a # xs" "xs \<noteq> []" using True len by (cases L; cases "tl L") auto
    let ?s = "s\<lparr>ts_nodes := (ts_nodes s)(t \<mapsto> set_child (Some a) T)\<rparr>"
    have "\<forall>x \<in> set (a # xs). ts_nodes ?s x \<noteq> None"
      using set axs rep_child [OF assms(1), of _ t] by fastforce
    then obtain s1 where s1: "relink_loop ?s L 1 (length xs) = Some s1" "ts_trace s1 = ts_trace s"
      "\<forall>x. ts_nodes s1 x = (if x \<in> set L \<and> x \<noteq> last L
         then map_option (set_sibling (succ_in L x)) (ts_nodes ?s x) else ts_nodes ?s x)"
      using relink_loop_correct [of a xs ?s "[]"] dist axs(1) by auto
    define l where "l = last L"
    have l: "l \<in> set L" "l \<noteq> t" using axs set assms(3) last_in_set [of L] by (auto simp: l_def)
    obtain N where N: "ts_nodes s l = Some N" "ts_nodes s1 l = Some N"
      using rep_child [OF assms(1), of l t] l set s1(3) by (auto simp: l_def)
    have t1: "ts_nodes s1 t = Some (set_child (Some a) T)" using s1(3) set assms(3) by simp
    let ?r = "s1\<lparr>ts_nodes := (ts_nodes s1)(l \<mapsto> set_sibling None N,
      t \<mapsto> set_rightmost (Some l) (set_child (Some a) T))\<rparr>"
    have "L ! (length xs) = l" using axs by (simp add: l_def last_conv_nth)
    moreover have "length (K t) = Suc (length xs)" using axs(1) len by simp
    ultimately have "CFTreeSortChildren fresh s t cmp = Some ?r"
      using cnt True T children_loop_chain [OF ch] L(1) axs s1(1) N(2) t1 l(2)
      by (simp add: CFTreeSortChildren_def rd_def cf_mem)
    moreover have "relinked s K t L ?r"
    proof (rule relinkedI)
      fix x n assume n: "ts_nodes s x = Some n"
      have "succ_in L l = None"
        using succ_in_middle [of "butlast L" l "[]"] dist axs by (simp add: l_def)
      then show "\<exists>n'. ts_nodes ?r x = Some n' \<and> relinked_node K t L x n n'"
        using n T N s1(3) l set assms(3) kid [OF _ n] axs
        by (auto simp: relinked_node_def last_opt_def l_def)
    next
      fix x assume x: "ts_nodes s x = None"
      then have "x \<noteq> l" "x \<noteq> t" "x \<notin> set L" using N T set rep_child [OF assms(1), of x t] by auto
      then show "ts_nodes ?r x = None" using x s1(3) by simp
    qed
    ultimately show ?thesis using L(2) s1(2) by auto
  qed
qed

subsection \<open>Contexts and roots\<close>

definition consistent_context :: "CFTreeContext \<Rightarrow> bool" where
  "consistent_context c \<longleftrightarrow> (CFTreeCallBacksMatchCFType c \<longrightarrow>
     cx_retain c = Some CFRetain_cb \<and> cx_release c = Some CFRelease_cb \<and>
     cx_copyDescription c = Some CFCopyDescription_cb)"

definition context_type :: "CFTreeContext \<Rightarrow> 32 word" where
  "context_type c = (if CFTreeCallBacksMatchNull c then kCFTreeHasNullCallBacks
     else if CFTreeCallBacksMatchCFType c then kCFTreeHasCFTypeCallBacks else kCFTreeHasCustomCallBacks)"

definition context_callbacks :: "CFTreeContext \<Rightarrow> tree_callbacks" where
  "context_callbacks c = \<lparr>tc_retain = cx_retain c, tc_release = cx_release c,
     tc_copyDescription = cx_copyDescription c\<rparr>"

lemma callbacks_type_set:
  "CFTreeGetCallBacksType (n\<lparr>tn_cfinfo := CFBitfieldSetValue (tn_cfinfo n) 1 0 (context_type c)\<rparr>) = context_type c"
proof -
  have "take_bit (Suc (Suc 0)) (k :: 32 word) = k" if "k \<in> {0, 1, 3}" for k
    using that by (elim insertE emptyE; hypsubst; code_simp)
  moreover have "context_type c \<in> {0, 1, 3}"
    by (simp add: context_type_def kCFTreeHasNullCallBacks_def kCFTreeHasCFTypeCallBacks_def
        kCFTreeHasCustomCallBacks_def)
  ultimately have "take_bit (1 - 0 + 1) (context_type c) = context_type c" by simp
  then have "CFBitfieldGetValue (CFBitfieldSetValue (tn_cfinfo n) 1 0 (context_type c)) 1 0 = context_type c"
    by (intro CFBitfield_get_set) simp_all
  then show ?thesis by (simp add: CFTreeGetCallBacksType_def)
qed

lemma callbacks_after_set:
  assumes "consistent_context c" "CFTreeGetCallBacksType n = context_type c"
    and "context_type c = kCFTreeHasCustomCallBacks \<Longrightarrow> tn_callbacks n = Some (context_callbacks c)"
  shows "CFTreeGetCallBacks n = Some (context_callbacks c)"
  using assms
  by (auto simp: CFTreeGetCallBacks_def context_type_def context_callbacks_def consistent_context_def
      CFTreeCallBacksMatchNull_def kCFNullTreeCallBacks_def kCFTypeTreeCallBacks_def
      kCFTreeHasNullCallBacks_def kCFTreeHasCFTypeCallBacks_def kCFTreeHasCustomCallBacks_def split: if_splits)

lemma SetContext_correct:
  assumes "ts_nodes s t = Some n" "CFTreeGetCallBacks n = Some oldcb" "consistent_context c"
  shows "\<exists>s' n'. CFTreeSetContext s t c = Some s' \<and> ts_nodes s' = (ts_nodes s)(t \<mapsto> n') \<and>
    CFTreeGetCallBacks n' = Some (context_callbacks c) \<and>
    tn_info n' = (case cx_retain c of None \<Rightarrow> cx_info c | Some r \<Rightarrow> cb_fun r (cx_info c)) \<and>
    tn_parent n' = tn_parent n \<and> tn_sibling n' = tn_sibling n \<and> tn_child n' = tn_child n \<and>
    tn_rightmostChild n' = tn_rightmostChild n \<and>
    ts_trace s' = ts_trace s @ (if cx_retain c = None then [] else [RetainInfo (cx_info c)]) @
      (if tc_release oldcb = None then [] else [ReleaseInfo (tn_info n)])"
proof -
  let ?na = "if context_type c = kCFTreeHasCustomCallBacks then n\<lparr>tn_callbacks := Some (context_callbacks c)\<rparr> else n"
  let ?nb = "?na\<lparr>tn_cfinfo := CFBitfieldSetValue (tn_cfinfo ?na) 1 0 (context_type c)\<rparr>"
  let ?info = "case cx_retain c of None \<Rightarrow> cx_info c | Some r \<Rightarrow> cb_fun r (cx_info c)"
  let ?nc = "?nb\<lparr>tn_info := ?info\<rparr>"
  have cb: "CFTreeGetCallBacks ?nb = Some (context_callbacks c)"
    using callbacks_type_set [of ?na c] by (intro callbacks_after_set [OF assms(3)]) auto
  have same: "CFTreeGetCallBacks (m\<lparr>tn_info := i\<rparr>) = CFTreeGetCallBacks m" for m i
    by (simp add: CFTreeGetCallBacks_def CFTreeGetCallBacksType_def)
  let ?s = "s\<lparr>ts_nodes := (ts_nodes s)(t \<mapsto> ?nc),
    ts_trace := ts_trace s @ (if cx_retain c = None then [] else [RetainInfo (cx_info c)]) @
      (if tc_release oldcb = None then [] else [ReleaseInfo (tn_info n)])\<rparr>"
  have "CFTreeSetContext s t c = Some ?s"
    unfolding CFTreeSetContext_def context_type_def [symmetric] context_callbacks_def [symmetric] Let_def
    using assms(1,2) cb
    by (auto simp: upd_def event_def context_callbacks_def split: option.splits)
  then show ?thesis
    using cb same [of ?info ?nb] by (intro exI [of _ ?s] exI [of _ ?nc]) auto
qed

text \<open>A path of parents, from a tree up to its root.\<close>

fun ancestors :: "tree_state \<Rightarrow> tree_ref \<Rightarrow> tree_ref list \<Rightarrow> tree_ref \<Rightarrow> bool" where
  "ancestors s t [] r \<longleftrightarrow> t = r \<and> orphan s t"
| "ancestors s t (p # ps) r \<longleftrightarrow> (\<exists>n. ts_nodes s t = Some n \<and> tn_parent n = Some p) \<and> ancestors s p ps r"

lemma find_root_ancestors: "ancestors s t ps r \<Longrightarrow> CFTreeFindRoot s t = Some r"
  by (induction ps arbitrary: t) (auto simp: orphan_def CFTreeFindRoot.simps [of s])

subsection \<open>Properties\<close>

definition same_contexts :: "tree_state \<Rightarrow> tree_state \<Rightarrow> bool" where
  "same_contexts s s' \<longleftrightarrow> (\<forall>x. rel_option same_context (ts_nodes s x) (ts_nodes s' x))"

lemma relinked_same_contexts:
  assumes "relinked s K t L s'"
  shows "same_contexts s s'"
  unfolding same_contexts_def
proof
  fix x
  have "rel_option (relinked_node K t L x) (ts_nodes s x) (ts_nodes s' x)"
    using assms by (simp add: relinked_def)
  then show "rel_option same_context (ts_nodes s x) (ts_nodes s' x)"
    by (cases "ts_nodes s x"; cases "ts_nodes s' x") (auto simp: relinked_node_def)
qed

lemma same_contexts_is_tree:
  assumes "same_contexts s s'"
  shows "is_tree s' x \<longleftrightarrow> is_tree s x"
proof -
  have "rel_option same_context (ts_nodes s x) (ts_nodes s' x)"
    using assms by (simp add: same_contexts_def)
  then show ?thesis by (cases "ts_nodes s x"; cases "ts_nodes s' x") (auto simp: is_tree_def)
qed

text \<open>What an operation establishes: \<open>t\<close> has the children \<open>L\<close>, every other tree the children it had,
  all contexts are as before, and exactly the events \<open>es\<close> happened.\<close>

definition now_children ::
  "tree_state \<Rightarrow> (tree_ref \<Rightarrow> tree_ref list) \<Rightarrow> tree_ref \<Rightarrow> tree_ref list \<Rightarrow> tree_event list \<Rightarrow>
     tree_state option \<Rightarrow> bool" where
  "now_children s K t L es r \<longleftrightarrow> (\<exists>s'. r = Some s' \<and> tree_rep s' (K(t := L)) \<and>
     same_contexts s s' \<and> ts_trace s' = ts_trace s @ es)"

lemma now_childrenI:
  assumes "\<exists>s'. r = Some s' \<and> relinked s K t L s' \<and> ts_trace s' = ts_trace s @ es"
    and "tree_rep s K" "distinct L" "is_tree s t" "\<forall>x \<in> set L. x \<in> set (K t) \<or> orphan s x"
  shows "now_children s K t L es r"
  using assms relinked_rep [OF assms(2) _ assms(3-5)] relinked_same_contexts
  unfolding now_children_def by blast

lemma orphan_notin: "tree_rep s K \<Longrightarrow> orphan s c \<Longrightarrow> c \<notin> set (K x)"
  using rep_orphan by (auto simp: orphan_def)

text \<open>Three trees without children, contexts or parents.\<close>

definition three_trees :: tree_state where
  "three_trees = \<lparr>ts_nodes = (\<lambda>r. if r \<in> {1, 2, 3} then Some \<lparr>tn_cfinfo = 0, tn_parent = None,
     tn_sibling = None, tn_child = None, tn_rightmostChild = None, tn_info = 0, tn_callbacks = None\<rparr>
     else None), ts_trace = []\<rparr>"

lemma three_trees_rep: "tree_rep three_trees (\<lambda>_. [])"
  by (auto simp: tree_rep_def node_rep_def three_trees_def sibling_of_def)

lemma three_trees_orphans: "r \<in> {1, 2, 3} \<Longrightarrow> orphan three_trees r \<and> is_tree three_trees r"
  by (auto simp: orphan_def is_tree_def three_trees_def)

definition family :: tree_state where
  "family = the (CFTreeAppendChild (the (CFTreeAppendChild three_trees 1 2)) 1 3)"

lemma family_rep:
  "tree_rep family ((\<lambda>_. [])(1 := [2, 3]))" "x \<in> {1, 2, 3} \<Longrightarrow> is_tree family x"
proof -
  note r = three_trees_rep and o = three_trees_orphans
  have "now_children three_trees (\<lambda>_. []) 1 [2] [RetainTree 2] (CFTreeAppendChild three_trees 1 2)"
    using append_relinked [OF r, of 1 2] o [of 1] o [of 2]
    by (intro now_childrenI [OF _ r]) auto
  then obtain s where s: "CFTreeAppendChild three_trees 1 2 = Some s" "tree_rep s ((\<lambda>_. [])(1 := [2]))"
    "same_contexts three_trees s"
    by (auto simp: now_children_def)
  have tree: "is_tree s x" if "x \<in> {1, 2, 3}" for x
    using o [OF that] same_contexts_is_tree [OF s(3)] by simp
  then obtain n where n: "ts_nodes s 3 = Some n" by (auto simp: is_tree_def)
  have "tn_parent n = None"
  proof (cases "tn_parent n")
    case (Some p)
    then have "(3 :: tree_ref) \<in> set (((\<lambda>_. [])(1 := [2])) p)" using rep_parent [OF s(2) n] by simp
    then show ?thesis by (simp split: if_splits)
  qed
  then have "orphan s 3" using n by (simp add: orphan_def)
  then have "now_children s ((\<lambda>_. [])(1 := [2])) 1 [2, 3] [RetainTree 3] (CFTreeAppendChild s 1 3)"
    using append_relinked [OF s(2), of 1 3] tree
    by (intro now_childrenI [OF _ s(2)]) auto
  then obtain f where f: "CFTreeAppendChild s 1 3 = Some f" "tree_rep f ((\<lambda>_. [])(1 := [2, 3]))"
    "same_contexts s f"
    by (auto simp: now_children_def)
  then have "family = f" using s(1) by (simp add: family_def)
  then show "tree_rep family ((\<lambda>_. [])(1 := [2, 3]))" "x \<in> {1, 2, 3} \<Longrightarrow> is_tree family x"
    using f(2) tree same_contexts_is_tree [OF f(3)] by simp_all
qed

text \<open>C24: adding an orphan tree with CFTreeAppendChild, CFTreePrependChild or CFTreeInsertSibling puts
  it at the end, at the front, or right behind the given child of the list of children, with all four
  pointers of every tree consistent, no other tree's children or contexts changed, and exactly one
  retain of the new child.\<close>

theorem tree_add_child:
  assumes "tree_rep s K" "is_tree s t" "orphan s c" "c \<noteq> t"
  shows "now_children s K t (K t @ [c]) [RetainTree c] (CFTreeAppendChild s t c) \<and>
    now_children s K t (c # K t) [RetainTree c] (CFTreePrependChild s t c) \<and>
    (\<forall>pre x post. K t = pre @ x # post \<and> x \<noteq> t \<longrightarrow>
       now_children s K t (pre @ x # c # post) [RetainTree c] (CFTreeInsertSibling s x c))"
proof (intro conjI allI impI)
  note c = orphan_notin [OF assms(1,3), of t] and dist = rep_distinct [OF assms(1), of t]
  show "now_children s K t (K t @ [c]) [RetainTree c] (CFTreeAppendChild s t c)"
    using append_relinked [OF assms] assms c dist by (intro now_childrenI) auto
  show "now_children s K t (c # K t) [RetainTree c] (CFTreePrependChild s t c)"
    using prepend_relinked [OF assms] assms c dist by (intro now_childrenI) auto
  fix pre x post assume x: "K t = pre @ x # post \<and> x \<noteq> t"
  then show "now_children s K t (pre @ x # c # post) [RetainTree c] (CFTreeInsertSibling s x c)"
    using insert_relinked [OF assms(1,3), of t pre x post] assms c dist by (intro now_childrenI) auto
qed

lemma tree_add_child_witness:
  "\<exists>s'. CFTreePrependChild three_trees 1 2 = Some s' \<and> tree_rep s' ((\<lambda>_. [])(1 := [2]))"
  using tree_add_child [OF three_trees_rep, of 1 2] three_trees_orphans [of 1] three_trees_orphans [of 2]
  by (auto simp: now_children_def)

text \<open>C23: CFTreeRemove takes a child out of its parent's list, and CFTreeRemoveAllChildren empties the
  list; what is removed becomes an orphan without sibling and is released exactly once, in order.\<close>

theorem tree_remove:
  assumes "tree_rep s K" "is_tree s t" "t \<notin> set (K t)"
  shows "now_children s K t [] (map ReleaseTree (K t)) (CFTreeRemoveAllChildren s t) \<and>
    (\<forall>pre x post. K t = pre @ x # post \<longrightarrow>
       now_children s K t (pre @ post) [ReleaseTree x] (CFTreeRemove s x))"
proof (intro conjI allI impI)
  note dist = rep_distinct [OF assms(1), of t]
  show "now_children s K t [] (map ReleaseTree (K t)) (CFTreeRemoveAllChildren s t)"
    using remove_all_relinked [OF assms] assms by (intro now_childrenI) auto
  fix pre x post assume "K t = pre @ x # post"
  then show "now_children s K t (pre @ post) [ReleaseTree x] (CFTreeRemove s x)"
    using remove_relinked [OF assms(1), of t pre x post] assms dist by (intro now_childrenI) auto
qed

lemma tree_remove_witness:
  "\<exists>s'. CFTreeRemove family 2 = Some s' \<and> tree_rep s' ((\<lambda>_. [])(1 := [3]))"
proof -
  have "now_children family ((\<lambda>_. [])(1 := [2, 3])) 1 ([] @ [3]) [ReleaseTree 2] (CFTreeRemove family 2)"
    using tree_remove [OF family_rep(1), of 1] family_rep(2) [of 1] by force
  then show ?thesis by (auto simp: now_children_def)
qed

text \<open>CFTreeSortChildren reorders the children of a tree into a stable sort of them for the
  caller's comparator, and relinks them consistently.\<close>

theorem tree_sort_children:
  assumes "tree_rep s K" "is_tree s t" "t \<notin> set (K t)" "comparator cmp" "length (K t) \<le> INTPTR_MAX div 8"
  shows "\<exists>L. stable_sort_of cmp (K t) L \<and> now_children s K t L [] (CFTreeSortChildren fresh s t cmp)"
proof -
  obtain s' L where r: "CFTreeSortChildren fresh s t cmp = Some s'" "stable_sort_of cmp (K t) L"
    "relinked s K t L s'" "ts_trace s' = ts_trace s"
    using sort_relinked [OF assms, of fresh] by blast
  then have L: "stable_sort_of cmp (K t) L"
    "\<exists>s'. CFTreeSortChildren fresh s t cmp = Some s' \<and> relinked s K t L s' \<and> ts_trace s' = ts_trace s @ []"
    by auto
  have m: "mset L = mset (K t)" using L(1) by (simp add: stable_sort_of_def)
  have "now_children s K t L [] (CFTreeSortChildren fresh s t cmp)"
    using L(2) assms(1,2) mset_eq_setD [OF m] mset_eq_imp_distinct_iff [OF m] rep_distinct [OF assms(1), of t]
    by (intro now_childrenI) auto
  then show ?thesis using L(1) by blast
qed

lemma tree_sort_children_witness:
  "\<exists>s'. CFTreeSortChildren (\<lambda>_. 0) family 1 (\<lambda>a b. compare_numbers b a) = Some s'"
proof -
  have "comparator (\<lambda>a b. compare_numbers b a)" by unfold_locales (auto simp: compare_numbers_def)
  then show ?thesis
    using tree_sort_children [OF family_rep(1), of 1 "\<lambda>a b. compare_numbers b a" "\<lambda>_. 0"] family_rep(2) [of 1]
    by (auto simp: now_children_def INTPTR_MAX_def)
qed

text \<open>the queries read the abstract tree: the number of children, the children in order, the child
  at an index (NULL out of range, also for negative indexes), the first child, the next sibling, and
  the root at the end of the path of parents.\<close>

theorem tree_queries:
  assumes "tree_rep s K" "is_tree s t"
  shows "CFTreeGetChildCount s t = Some (length (K t)) \<and>
    CFTreeGetChildren s t = Some (K t) \<and> CFTreeApplyFunctionToChildren s t = Some (K t) \<and>
    CFTreeGetChildAtIndex s t i = Some (if 0 \<le> i \<and> i < int (length (K t)) then Some (K t ! nat i) else None) \<and>
    CFTreeGetFirstChild s t = Some (hd_opt (K t)) \<and>
    (\<forall>x \<in> set (K t). CFTreeGetParent s x = Some (Some t) \<and> CFTreeGetNextSibling s x = Some (succ_in (K t) x)) \<and>
    (\<forall>ps r. ancestors s t ps r \<longrightarrow> CFTreeFindRoot s t = Some r)"
proof -
  obtain T where T: "ts_nodes s t = Some T" using assms(2) by (auto simp: is_tree_def)
  note ch = rep_chain [OF assms(1) T]
  have "CFTreeGetParent s x = Some (Some t) \<and> CFTreeGetNextSibling s x = Some (succ_in (K t) x)"
    if "x \<in> set (K t)" for x
    using rep_child [OF assms(1) that] by (auto simp: CFTreeGetParent_def CFTreeGetNextSibling_def)
  then show ?thesis
    using T count_loop_chain [OF ch] children_loop_chain [OF ch] child_at_loop_chain [OF ch]
      rep_node [OF assms(1) T] find_root_ancestors
    by (simp add: CFTreeGetChildCount_def CFTreeGetChildren_def CFTreeApplyFunctionToChildren_def
        CFTreeGetChildAtIndex_def CFTreeGetFirstChild_def)
qed

lemma tree_queries_witness:
  "CFTreeGetChildCount family 1 = Some 2 \<and> CFTreeGetChildAtIndex family 1 1 = Some (Some 3)"
  using tree_queries [OF family_rep(1), of 1 1] family_rep(2) [of 1] by simp

text \<open>CFTreeSetContext installs the context so that CFTreeGetContext gives it back (with the
  retained info), retains the new info before it releases the old one, each exactly once and only
  when there is a callback for it, and leaves all four links alone.\<close>

theorem tree_set_context:
  assumes "ts_nodes s t = Some n" "CFTreeGetCallBacks n = Some oldcb" "consistent_context c"
  shows "\<exists>s' n'. CFTreeSetContext s t c = Some s' \<and> ts_nodes s' = (ts_nodes s)(t \<mapsto> n') \<and>
    CFTreeGetContext s' t =
      Some (c\<lparr>cx_info := (case cx_retain c of None \<Rightarrow> cx_info c | Some r \<Rightarrow> cb_fun r (cx_info c))\<rparr>) \<and>
    tn_parent n' = tn_parent n \<and> tn_sibling n' = tn_sibling n \<and> tn_child n' = tn_child n \<and>
    tn_rightmostChild n' = tn_rightmostChild n \<and>
    ts_trace s' = ts_trace s @ (if cx_retain c = None then [] else [RetainInfo (cx_info c)]) @
      (if tc_release oldcb = None then [] else [ReleaseInfo (tn_info n)])"
proof -
  obtain s' n' where r: "CFTreeSetContext s t c = Some s'" "ts_nodes s' = (ts_nodes s)(t \<mapsto> n')"
    "CFTreeGetCallBacks n' = Some (context_callbacks c)"
    "tn_info n' = (case cx_retain c of None \<Rightarrow> cx_info c | Some r \<Rightarrow> cb_fun r (cx_info c))"
    "tn_parent n' = tn_parent n \<and> tn_sibling n' = tn_sibling n \<and> tn_child n' = tn_child n \<and>
     tn_rightmostChild n' = tn_rightmostChild n"
    "ts_trace s' = ts_trace s @ (if cx_retain c = None then [] else [RetainInfo (cx_info c)]) @
      (if tc_release oldcb = None then [] else [ReleaseInfo (tn_info n)])"
    using SetContext_correct [OF assms] by auto
  have "CFTreeGetContext s' t =
      Some (c\<lparr>cx_info := (case cx_retain c of None \<Rightarrow> cx_info c | Some r \<Rightarrow> cb_fun r (cx_info c))\<rparr>)"
    using r(2-4) by (simp add: CFTreeGetContext_def context_callbacks_def)
  then show ?thesis using r by blast
qed

lemma tree_set_context_witness:
  "\<exists>s'. CFTreeSetContext three_trees 1 \<lparr>cx_info = 7, cx_retain = Some CFRetain_cb,
      cx_release = Some CFRelease_cb, cx_copyDescription = None\<rparr> = Some s' \<and> ts_trace s' = [RetainInfo 7]"
proof -
  let ?c = "\<lparr>cx_info = 7, cx_retain = Some CFRetain_cb, cx_release = Some CFRelease_cb,
    cx_copyDescription = None\<rparr>"
  obtain n where n: "ts_nodes three_trees 1 = Some n" "tn_cfinfo n = 0"
    by (simp add: three_trees_def)
  moreover have "CFBitfieldGetValue 0 1 0 = 0" by (simp add: CFBitfieldGetValue_def)
  ultimately have "CFTreeGetCallBacks n = Some kCFNullTreeCallBacks"
    by (simp add: CFTreeGetCallBacks_def CFTreeGetCallBacksType_def kCFTreeHasNullCallBacks_def)
  moreover have "consistent_context ?c"
    by (simp add: consistent_context_def CFTreeCallBacksMatchCFType_def)
  ultimately show ?thesis
    using tree_set_context [OF n(1), of kCFNullTreeCallBacks ?c]
    by (auto simp: kCFNullTreeCallBacks_def three_trees_def)
qed

end
