(* ===== verification/CF_Array.thy ===== *)
theory CF_Array
  imports CF_Sort
begin

text \<open>
  CFArray.c.  An immutable array has its buckets behind its header; a mutable one has a deque: a block
  of \<open>capacity\<close> buckets of which \<open>count\<close> are used, from \<open>leftIdx\<close> on.  Objects are addresses, 0 is
  NULL.  Every access to the buckets is checked: \<open>None\<close> says that an operation leaves its storage, or
  halts.  The calls of \<open>retain\<close> and \<open>release\<close> are recorded in the ghost field \<open>ar_trace\<close>.  The garbage
  collected variant (collectable allocators) is not modelled.
\<close>

subsection \<open>State\<close>

type_synonym ptr = nat

abbreviation (input) NULL :: ptr where "NULL \<equiv> 0"

record CFArrayCallBacks =
  ac_retain :: "(ptr \<Rightarrow> ptr) callback option"
  ac_release :: "unit callback option"
  ac_copyDescription :: "unit callback option"
  ac_equal :: "(ptr \<Rightarrow> ptr \<Rightarrow> bool) callback option"

record CFArrayDeque =
  dq_leftIdx :: nat
  dq_capacity :: nat
  dq_buckets :: "ptr list"

text \<open>
  \<open>ar_cftype\<close> stands for the process-wide \<open>kCFTypeArrayCallBacks\<close>, whose functions are methods of
  the objects; \<open>ar_custom\<close> for the callbacks behind the header; \<open>ar_inline\<close> for the buckets behind
  the header of an immutable array.
\<close>

record CFArray =
  ar_cfinfo :: "8 word"
  ar_count :: nat
  ar_mutations :: int
  ar_store :: "CFArrayDeque option"
  ar_custom :: CFArrayCallBacks
  ar_inline :: "ptr list"
  ar_cftype :: CFArrayCallBacks
  ar_trace :: "ptr cb_event list"

definition kCFArrayImmutable :: "32 word" where "kCFArrayImmutable = 0"
definition kCFArrayDeque :: "32 word" where "kCFArrayDeque = 2"
definition kCFArrayHasNullCallBacks :: "32 word" where "kCFArrayHasNullCallBacks = 0"
definition kCFArrayHasCFTypeCallBacks :: "32 word" where "kCFArrayHasCFTypeCallBacks = 1"
definition kCFArrayHasCustomCallBacks :: "32 word" where "kCFArrayHasCustomCallBacks = 3"

definition kCFNullArrayCallBacks :: CFArrayCallBacks where
  "kCFNullArrayCallBacks = \<lparr>ac_retain = None, ac_release = None, ac_copyDescription = None, ac_equal = None\<rparr>"

definition LONG_MAX :: int where "LONG_MAX = 2 ^ 63 - 1"

definition CFArrayDequeRoundUpCapacity :: "nat \<Rightarrow> int" where
  "CFArrayDequeRoundUpCapacity capacity =
     (if capacity < 4 then 4 else min (sint (push_bit (flsl capacity) (1 :: 32 word))) LONG_MAX)"

definition hasBeenFinalized :: "CFArray \<Rightarrow> bool" where
  "hasBeenFinalized array \<longleftrightarrow> CFBitfieldGetValue (ar_cfinfo array) 5 5 \<noteq> 0"

definition CFArrayGetType :: "CFArray \<Rightarrow> 32 word" where
  "CFArrayGetType array = CFBitfieldGetValue (ar_cfinfo array) 1 0"

text \<open>The buckets and the position of the left-most value in them.\<close>

definition CFArrayGetBucketsPtr :: "CFArray \<Rightarrow> (ptr list \<times> nat) option" where
  "CFArrayGetBucketsPtr array =
     (if CFArrayGetType array = kCFArrayImmutable then Some (ar_inline array, 0)
      else if CFArrayGetType array = kCFArrayDeque
      then do { deque \<leftarrow> ar_store array; Some (dq_buckets deque, dq_leftIdx deque) }
      else None)"

definition CFArrayGetBucketAtIndex :: "CFArray \<Rightarrow> nat \<Rightarrow> ptr option" where
  "CFArrayGetBucketAtIndex array idx = do { (b, l) \<leftarrow> CFArrayGetBucketsPtr array; rd b (l + idx) }"

definition set_buckets :: "CFArray \<Rightarrow> ptr list \<Rightarrow> CFArray" where
  "set_buckets array b =
     (if CFArrayGetType array = kCFArrayImmutable then array\<lparr>ar_inline := b\<rparr>
      else array\<lparr>ar_store := map_option (\<lambda>d. d\<lparr>dq_buckets := b\<rparr>) (ar_store array)\<rparr>)"

definition CFArrayGetCallBacks :: "CFArray \<Rightarrow> CFArrayCallBacks" where
  "CFArrayGetCallBacks array =
     (let t = CFBitfieldGetValue (ar_cfinfo array) 3 2 in
      if t = kCFArrayHasNullCallBacks then kCFNullArrayCallBacks
      else if t = kCFArrayHasCFTypeCallBacks then ar_cftype array
      else ar_custom array)"

definition addrs :: "CFArrayCallBacks \<Rightarrow> nat option \<times> nat option \<times> nat option \<times> nat option" where
  "addrs c = (map_option cb_addr (ac_retain c), map_option cb_addr (ac_release c),
     map_option cb_addr (ac_copyDescription c), map_option cb_addr (ac_equal c))"

definition CFArrayCallBacksMatchNull :: "CFArrayCallBacks option \<Rightarrow> bool" where
  "CFArrayCallBacksMatchNull c = (case c of None \<Rightarrow> True | Some c \<Rightarrow> addrs c = addrs kCFNullArrayCallBacks)"

definition CFArrayCallBacksMatchCFType :: "CFArrayCallBacks \<Rightarrow> CFArrayCallBacks \<Rightarrow> bool" where
  "CFArrayCallBacksMatchCFType cftype c \<longleftrightarrow> addrs c = addrs cftype"

text \<open>Block operations at positions computed with signed arithmetic.\<close>

definition pos :: "int \<Rightarrow> nat option" where
  "pos i = (if i < 0 then None else Some (nat i))"

definition memmove_at :: "'a list \<Rightarrow> int \<Rightarrow> 'a list \<Rightarrow> int \<Rightarrow> int \<Rightarrow> 'a list option" where
  "memmove_at dst d src s n =
     do { d \<leftarrow> pos d; s \<leftarrow> pos s; n \<leftarrow> pos n; memmove dst d src s n }"

definition memset0_at :: "ptr list \<Rightarrow> int \<Rightarrow> int \<Rightarrow> ptr list option" where
  "memset0_at dst d n = do { d \<leftarrow> pos d; n \<leftarrow> pos n; mem_write dst d (replicate n NULL) }"

text \<open>\<open>if (0 < n) memmove(...)\<close> and \<open>if (a > b) memset(dst + d, 0, a - b)\<close>.\<close>

definition move_region :: "'a list \<Rightarrow> int \<Rightarrow> 'a list \<Rightarrow> int \<Rightarrow> int \<Rightarrow> 'a list option" where
  "move_region dst d src s n = (if 0 < n then memmove_at dst d src s n else Some dst)"

definition clear_region :: "ptr list \<Rightarrow> int \<Rightarrow> int \<Rightarrow> int \<Rightarrow> ptr list option" where
  "clear_region dst d a b = (if a > b then memset0_at dst d (a - b) else Some dst)"

subsection \<open>Releasing\<close>

text \<open>Both loops of \<open>__CFArrayReleaseValues\<close>: release, when there is a callback, and clear.\<close>

fun release_range :: "bool \<Rightarrow> ptr list \<Rightarrow> nat \<Rightarrow> nat \<Rightarrow> (ptr list \<times> ptr cb_event list) option" where
  "release_range rel b i 0 = Some (b, [])"
| "release_range rel b i (Suc n) =
     do { item \<leftarrow> rd b i;
          b \<leftarrow> wr b i NULL;
          (b, es) \<leftarrow> release_range rel b (i + 1) n;
          Some (b, (if rel then [Released item] else []) @ es) }"

definition CFArrayReleaseValues :: "CFArray \<Rightarrow> CFRange \<Rightarrow> bool \<Rightarrow> CFArray option" where
  "CFArrayReleaseValues array r releaseStorageIfPossible =
     (let cb = CFArrayGetCallBacks array in
      if CFArrayGetType array = kCFArrayImmutable then
        (if ac_release cb \<noteq> None \<and> 0 < range_length r \<and> \<not> hasBeenFinalized array
         then do { (b, es) \<leftarrow> release_range True (ar_inline array) (location r) (range_length r);
                   Some (array\<lparr>ar_inline := b, ar_trace := ar_trace array @ es\<rparr>) }
         else Some array)
      else if CFArrayGetType array = kCFArrayDeque then
        do { array \<leftarrow>
               (case ar_store array of
                  None \<Rightarrow> Some array
                | Some deque \<Rightarrow>
                    if 0 < range_length r \<and> \<not> hasBeenFinalized array
                    then do { (b, es) \<leftarrow> release_range (ac_release cb \<noteq> None) (dq_buckets deque)
                                          (dq_leftIdx deque + location r) (range_length r);
                              Some (array\<lparr>ar_store := Some (deque\<lparr>dq_buckets := b\<rparr>),
                                          ar_trace := ar_trace array @ es\<rparr>) }
                    else Some array);
             if releaseStorageIfPossible \<and> 0 = location r \<and> ar_count array = range_length r
             then Some (array\<lparr>ar_count := 0, ar_store := None\<rparr>)
             else Some array }
      else Some array)"

subsection \<open>Equality, creation\<close>

fun array_equal_loop :: "(ptr \<Rightarrow> ptr \<Rightarrow> bool) callback option \<Rightarrow> CFArray \<Rightarrow> CFArray \<Rightarrow> nat \<Rightarrow> nat \<Rightarrow> bool option" where
  "array_equal_loop eq array1 array2 idx 0 = Some True"
| "array_equal_loop eq array1 array2 idx (Suc n) =
     do { val1 \<leftarrow> CFArrayGetBucketAtIndex array1 idx;
          val2 \<leftarrow> CFArrayGetBucketAtIndex array2 idx;
          if val1 \<noteq> val2 \<and> (case eq of None \<Rightarrow> True | Some f \<Rightarrow> \<not> cb_fun f val1 val2) then Some False
          else array_equal_loop eq array1 array2 (idx + 1) n }"

definition CFArrayEqual :: "CFArray \<Rightarrow> CFArray \<Rightarrow> bool option" where
  "CFArrayEqual array1 array2 =
     (let cnt = ar_count array1; cb1 = CFArrayGetCallBacks array1; cb2 = CFArrayGetCallBacks array2 in
      if cnt \<noteq> ar_count array2 then Some False
      else if map_option cb_addr (ac_equal cb1) \<noteq> map_option cb_addr (ac_equal cb2) then Some False
      else if cnt = 0 then Some True
      else array_equal_loop (ac_equal cb1) array1 array2 0 cnt)"

definition CFArrayHash :: "CFArray \<Rightarrow> nat" where
  "CFArrayHash array = ar_count array"

definition CFArrayDeallocate :: "CFArray \<Rightarrow> CFArray option" where
  "CFArrayDeallocate array = CFArrayReleaseValues array (CFRangeMake 0 (ar_count array)) True"

text \<open>
  \<open>__CFArrayInit\<close>; \<open>callBacks\<close> is \<open>None\<close> for NULL, \<open>garbage\<close> is the initial content of the buckets of
  an immutable array.
\<close>

definition CFArrayInit ::
  "CFArrayCallBacks \<Rightarrow> 8 word \<Rightarrow> nat \<Rightarrow> CFArrayCallBacks option \<Rightarrow> (nat \<Rightarrow> ptr) \<Rightarrow> CFArray" where
  "CFArrayInit cftype flags capacity callBacks garbage =
     (let flags = CFBitfieldSetValue flags 31 2 0;
          flags = CFBitfieldSetValue flags 3 2
            (if CFArrayCallBacksMatchNull callBacks then kCFArrayHasNullCallBacks
             else if CFArrayCallBacksMatchCFType cftype (the callBacks) then kCFArrayHasCFTypeCallBacks
             else kCFArrayHasCustomCallBacks)
      in \<lparr>ar_cfinfo = CFBitfieldSetValue 0 6 0 (ucast flags), ar_count = 0,
          ar_mutations = (if CFBitfieldGetValue flags 1 0 = kCFArrayDeque then 1 else 0),
          ar_store = None,
          ar_custom = (if CFBitfieldGetValue flags 3 2 = kCFArrayHasCustomCallBacks then the callBacks
                       else kCFNullArrayCallBacks),
          ar_inline = (if CFBitfieldGetValue flags 1 0 = kCFArrayImmutable
                       then map garbage [0..<capacity] else []),
          ar_cftype = cftype, ar_trace = []\<rparr>)"

text \<open>The loops that fill a new immutable array, from the caller's values.\<close>

fun fill_loop ::
  "(ptr \<Rightarrow> ptr) callback option \<Rightarrow> ptr list \<Rightarrow> ptr list \<Rightarrow> nat \<Rightarrow> nat \<Rightarrow> (ptr list \<times> ptr cb_event list) option" where
  "fill_loop retain values b i 0 = Some (b, [])"
| "fill_loop retain values b i (Suc n) =
     do { v \<leftarrow> rd values i;
          b \<leftarrow> wr b i (case retain of None \<Rightarrow> v | Some f \<Rightarrow> cb_fun f v);
          (b, es) \<leftarrow> fill_loop retain values b (i + 1) n;
          Some (b, (if retain = None then [] else [Retained v]) @ es) }"

definition CFArrayCreate ::
  "CFArrayCallBacks \<Rightarrow> (nat \<Rightarrow> ptr) \<Rightarrow> ptr list \<Rightarrow> nat \<Rightarrow> CFArrayCallBacks option \<Rightarrow> CFArray option" where
  "CFArrayCreate cftype garbage values numValues callBacks =
     (let result = CFArrayInit cftype 0 numValues callBacks garbage;
          cb = CFArrayGetCallBacks result
      in do { (b, es) \<leftarrow> fill_loop (ac_retain cb) values (ar_inline result) 0 numValues;
              Some (result\<lparr>ar_inline := b, ar_count := numValues, ar_trace := es\<rparr>) })"

definition CFArrayCreateTransfer ::
  "CFArrayCallBacks \<Rightarrow> (nat \<Rightarrow> ptr) \<Rightarrow> ptr list \<Rightarrow> nat \<Rightarrow> CFArray option" where
  "CFArrayCreateTransfer cftype garbage values numValues =
     (let flags = CFBitfieldSetValue (CFBitfieldSetValue 0 31 2 0) 3 2 kCFArrayHasCFTypeCallBacks in
      do { b \<leftarrow> memmove (map garbage [0..<numValues]) 0 values 0 numValues;
           Some \<lparr>ar_cfinfo = CFBitfieldSetValue 0 6 0 (ucast flags), ar_count = numValues,
                 ar_mutations = 0, ar_store = None, ar_custom = kCFNullArrayCallBacks, ar_inline = b,
                 ar_cftype = cftype, ar_trace = []\<rparr> })"

definition CFArrayCreateMutable :: "CFArrayCallBacks \<Rightarrow> nat \<Rightarrow> CFArrayCallBacks option \<Rightarrow> CFArray" where
  "CFArrayCreateMutable cftype capacity callBacks = CFArrayInit cftype 2 capacity callBacks (\<lambda>_. NULL)"

subsection \<open>Queries\<close>

definition CFArrayGetCount :: "CFArray \<Rightarrow> nat" where
  "CFArrayGetCount array = ar_count array"

definition CFArrayGetValueAtIndex :: "CFArray \<Rightarrow> nat \<Rightarrow> ptr option" where
  "CFArrayGetValueAtIndex array idx = CFArrayGetBucketAtIndex array idx"

text \<open>\<open>(void * )(-1)\<close> out of bounds.\<close>

definition CFArrayCheckAndGetValueAtIndex :: "CFArray \<Rightarrow> int \<Rightarrow> ptr option" where
  "CFArrayCheckAndGetValueAtIndex array idx =
     (if 0 \<le> idx \<and> idx < int (ar_count array) then CFArrayGetBucketAtIndex array (nat idx)
      else Some (2 ^ 64 - 1))"

definition item_matches :: "CFArrayCallBacks \<Rightarrow> ptr \<Rightarrow> ptr \<Rightarrow> bool" where
  "item_matches cb v item \<longleftrightarrow> v = item \<or> (case ac_equal cb of None \<Rightarrow> False | Some f \<Rightarrow> cb_fun f v item)"

fun array_count_loop :: "CFArray \<Rightarrow> ptr \<Rightarrow> nat \<Rightarrow> nat \<Rightarrow> nat \<Rightarrow> nat option" where
  "array_count_loop array v i 0 c = Some c"
| "array_count_loop array v i (Suc n) c =
     do { item \<leftarrow> CFArrayGetValueAtIndex array i;
          array_count_loop array v (i + 1) n
            (if item_matches (CFArrayGetCallBacks array) v item then c + 1 else c) }"

definition CFArrayGetCountOfValue :: "CFArray \<Rightarrow> CFRange \<Rightarrow> ptr \<Rightarrow> nat option" where
  "CFArrayGetCountOfValue array r v = array_count_loop array v (location r) (range_length r) 0"

fun array_find_loop :: "CFArray \<Rightarrow> ptr \<Rightarrow> nat \<Rightarrow> nat \<Rightarrow> int option" where
  "array_find_loop array v i 0 = Some kCFNotFound"
| "array_find_loop array v i (Suc n) =
     do { item \<leftarrow> CFArrayGetValueAtIndex array i;
          if item_matches (CFArrayGetCallBacks array) v item then Some (int i)
          else array_find_loop array v (i + 1) n }"

definition CFArrayContainsValue :: "CFArray \<Rightarrow> CFRange \<Rightarrow> ptr \<Rightarrow> bool option" where
  "CFArrayContainsValue array r v =
     map_option (\<lambda>i. i \<noteq> kCFNotFound) (array_find_loop array v (location r) (range_length r))"

definition CFArrayGetFirstIndexOfValue :: "CFArray \<Rightarrow> CFRange \<Rightarrow> ptr \<Rightarrow> int option" where
  "CFArrayGetFirstIndexOfValue array r v = array_find_loop array v (location r) (range_length r)"

text \<open>\<open>for (idx = range.length; idx--;)\<close>.\<close>

fun array_find_last_loop :: "CFArray \<Rightarrow> ptr \<Rightarrow> nat \<Rightarrow> nat \<Rightarrow> int option" where
  "array_find_last_loop array v loc 0 = Some kCFNotFound"
| "array_find_last_loop array v loc (Suc idx) =
     do { item \<leftarrow> CFArrayGetValueAtIndex array (loc + idx);
          if item_matches (CFArrayGetCallBacks array) v item then Some (int (idx + loc))
          else array_find_last_loop array v loc idx }"

definition CFArrayGetLastIndexOfValue :: "CFArray \<Rightarrow> CFRange \<Rightarrow> ptr \<Rightarrow> int option" where
  "CFArrayGetLastIndexOfValue array r v = array_find_last_loop array v (location r) (range_length r)"

definition CFArrayGetValues :: "CFArray \<Rightarrow> CFRange \<Rightarrow> ptr list option" where
  "CFArrayGetValues array r =
     (if 0 < range_length r
      then do { (b, l) \<leftarrow> CFArrayGetBucketsPtr array; mem_read b (l + location r) (range_length r) }
      else Some [])"

fun array_apply_loop :: "CFArray \<Rightarrow> nat \<Rightarrow> nat \<Rightarrow> ptr list option" where
  "array_apply_loop array i 0 = Some []"
| "array_apply_loop array i (Suc n) =
     do { item \<leftarrow> CFArrayGetValueAtIndex array i; rest \<leftarrow> array_apply_loop array (i + 1) n;
          Some (item # rest) }"

text \<open>The arguments the applier is called with, in order.\<close>

definition CFArrayApplyFunction :: "CFArray \<Rightarrow> CFRange \<Rightarrow> ptr list option" where
  "CFArrayApplyFunction array r = array_apply_loop array (location r) (range_length r)"

subsection \<open>Repositioning\<close>

text \<open>
  \<open>__CFArrayRepositionDequeRegions\<close>, with the source's names: \<open>L\<close>, \<open>A\<close>, \<open>B\<close>, \<open>C\<close>, \<open>R\<close> are the
  lengths of the five regions of the buckets.  First the reallocation, then the three ways to move
  regions inside the deque.  \<open>garbage\<close> is the content of a new block.
\<close>

definition reposition_realloc ::
  "(nat \<Rightarrow> ptr) \<Rightarrow> ptr list \<Rightarrow> int \<Rightarrow> int \<Rightarrow> int \<Rightarrow> int \<Rightarrow> int \<Rightarrow> nat \<Rightarrow> int \<Rightarrow> CFArrayDeque option" where
  "reposition_realloc garbage buckets L A B C newCount futureCnt wiggle =
     (let capacity = CFArrayDequeRoundUpCapacity (nat (int futureCnt + wiggle)) in
      if capacity \<le> 0 then None
      else (let newBuckets = map garbage [0..<nat capacity];
                oldL = L;
                newL = (capacity - int futureCnt) div 2;
                oldC0 = oldL + A + B;
                newC0 = newL + A + newCount
            in do { newBuckets \<leftarrow> move_region newBuckets newL buckets oldL A;
                    newBuckets \<leftarrow> move_region newBuckets newC0 buckets oldC0 C;
                    newL \<leftarrow> pos newL;
                    Some \<lparr>dq_leftIdx = newL, dq_capacity = nat capacity, dq_buckets = newBuckets\<rparr> }))"

definition reposition_move_C ::
  "CFArrayDeque \<Rightarrow> int \<Rightarrow> int \<Rightarrow> int \<Rightarrow> int \<Rightarrow> int \<Rightarrow> CFArrayDeque option" where
  "reposition_move_C deque L A B C newCount =
     (let oldC0 = L + A + B; newC0 = L + A + newCount; b = dq_buckets deque in
      do { b \<leftarrow> move_region b newC0 b oldC0 C;
           b \<leftarrow> clear_region b (newC0 + C) oldC0 newC0;
           Some (deque\<lparr>dq_buckets := b\<rparr>) })"

definition reposition_move_A ::
  "CFArrayDeque \<Rightarrow> int \<Rightarrow> int \<Rightarrow> int \<Rightarrow> CFArrayDeque option" where
  "reposition_move_A deque L A numNewElems =
     (let oldL = L; newL = L - numNewElems; b = dq_buckets deque in
      do { leftIdx \<leftarrow> pos newL;
           b \<leftarrow> move_region b newL b oldL A;
           b \<leftarrow> clear_region b oldL newL oldL;
           Some (deque\<lparr>dq_leftIdx := leftIdx, dq_buckets := b\<rparr>) })"

definition reposition_recenter ::
  "CFArrayDeque \<Rightarrow> int \<Rightarrow> int \<Rightarrow> int \<Rightarrow> int \<Rightarrow> int \<Rightarrow> int \<Rightarrow> int \<Rightarrow> CFArrayDeque option" where
  "reposition_recenter deque L A B C R newCount numNewElems =
     (let oldL = L;
          newL = (L + R - numNewElems) div 2;
          newL = newL - newL div 2;
          oldC0 = oldL + A + B;
          newC0 = newL + A + newCount;
          b = dq_buckets deque
      in do { leftIdx \<leftarrow> pos newL;
              b \<leftarrow>
               (if newL < oldL then
                  do { b \<leftarrow> move_region b newL b oldL A;
                       b \<leftarrow> move_region b newC0 b oldC0 C;
                       clear_region b (newC0 + C) oldC0 newC0 }
                else
                  do { b \<leftarrow> move_region b newC0 b oldC0 C;
                       b \<leftarrow> move_region b newL b oldL A;
                       clear_region b oldL newL oldL });
              Some (deque\<lparr>dq_leftIdx := leftIdx, dq_buckets := b\<rparr>) })"

definition CFArrayRepositionDequeRegions ::
  "(nat \<Rightarrow> ptr) \<Rightarrow> CFArray \<Rightarrow> CFRange \<Rightarrow> nat \<Rightarrow> CFArray option" where
  "CFArrayRepositionDequeRegions garbage array r newCount =
     do { deque \<leftarrow> ar_store array;
          let cnt = ar_count array;
          let futureCnt = cnt - range_length r + newCount;
          let L = int (dq_leftIdx deque);
          let A = int (location r);
          let B = int (range_length r);
          let C = int cnt - B - A;
          let R = int (dq_capacity deque) - int cnt - L;
          let numNewElems = int newCount - B;
          let wiggle = (if int (dq_capacity deque) div 2 ^ 17 < 4 then 4 else int (dq_capacity deque) div 2 ^ 17);
          deque \<leftarrow>
            (if int (dq_capacity deque) < uint (word_of_nat futureCnt :: 32 word) \<or>
                (cnt < futureCnt \<and> L + R < wiggle)
             then reposition_realloc garbage (dq_buckets deque) L A B C (int newCount) futureCnt wiggle
             else if (numNewElems < 0 \<and> C < A) \<or> (numNewElems \<le> R \<and> C < A)
             then reposition_move_C deque L A B C (int newCount)
             else if numNewElems < 0 \<or> (numNewElems \<le> L \<and> A \<le> C)
             then reposition_move_A deque L A numNewElems
             else reposition_recenter deque L A B C R (int newCount) numNewElems);
          Some (array\<lparr>ar_store := Some deque\<rparr>) }"

subsection \<open>Replacing\<close>

text \<open>The retained new values, in the temporary buffer of \<open>newCount\<close> pointers.\<close>

fun retain_loop ::
  "(ptr \<Rightarrow> ptr) callback \<Rightarrow> ptr list \<Rightarrow> nat \<Rightarrow> nat \<Rightarrow> (ptr list \<times> ptr cb_event list) option" where
  "retain_loop f values idx 0 = Some ([], [])"
| "retain_loop f values idx (Suc n) =
     do { v \<leftarrow> rd values idx;
          (vs, es) \<leftarrow> retain_loop f values (idx + 1) n;
          Some (cb_fun f v # vs, Retained v # es) }"

definition CFArrayReplaceValues ::
  "(nat \<Rightarrow> ptr) \<Rightarrow> CFArray \<Rightarrow> CFRange \<Rightarrow> ptr list \<Rightarrow> nat \<Rightarrow> CFArray option" where
  "CFArrayReplaceValues garbage array r newValues newCount =
     (let cnt = ar_count array;
          futureCnt = cnt - range_length r + newCount;
          cb = CFArrayGetCallBacks array
      in do {
        (newv, es) \<leftarrow>
          (case ac_retain cb of
             Some f \<Rightarrow> if \<not> hasBeenFinalized array then retain_loop f newValues 0 newCount
                        else Some (newValues, [])
           | None \<Rightarrow> Some (newValues, []));
        let array = array\<lparr>ar_trace := ar_trace array @ es, ar_mutations := ar_mutations array + 1\<rparr>;
        array \<leftarrow> (if 0 < range_length r then CFArrayReleaseValues array r False else Some array);
        array \<leftarrow>
          (case ar_store array of
             None \<Rightarrow>
               (let capacity = CFArrayDequeRoundUpCapacity futureCnt in
                if capacity \<le> 0 then None
                else do { leftIdx \<leftarrow> pos ((capacity - int newCount) div 2);
                          Some (array\<lparr>ar_store := Some \<lparr>dq_leftIdx = leftIdx, dq_capacity = nat capacity,
                            dq_buckets = map garbage [0..<nat capacity]\<rparr>\<rparr>) })
           | Some _ \<Rightarrow>
               if range_length r \<noteq> newCount then CFArrayRepositionDequeRegions garbage array r newCount
               else Some array);
        array \<leftarrow>
          (if 0 < newCount
           then do { deque \<leftarrow> ar_store array;
                     b \<leftarrow> memmove (dq_buckets deque) (dq_leftIdx deque + location r) newv 0 newCount;
                     Some (array\<lparr>ar_store := Some (deque\<lparr>dq_buckets := b\<rparr>)\<rparr>) }
           else Some array);
        Some (array\<lparr>ar_count := futureCnt\<rparr>) })"

subsection \<open>The other mutators\<close>

definition CFArrayAppendValue :: "(nat \<Rightarrow> ptr) \<Rightarrow> CFArray \<Rightarrow> ptr \<Rightarrow> CFArray option" where
  "CFArrayAppendValue garbage array v =
     CFArrayReplaceValues garbage array (CFRangeMake (ar_count array) 0) [v] 1"

definition CFArraySetValueAtIndex :: "(nat \<Rightarrow> ptr) \<Rightarrow> CFArray \<Rightarrow> nat \<Rightarrow> ptr \<Rightarrow> CFArray option" where
  "CFArraySetValueAtIndex garbage array idx v =
     (if idx = ar_count array
      then CFArrayReplaceValues garbage array (CFRangeMake idx 0) [v] 1
      else
        (let cb = CFArrayGetCallBacks array;
             retains = ac_retain cb \<noteq> None \<and> \<not> hasBeenFinalized array;
             v' = (if retains then cb_fun (the (ac_retain cb)) v else v);
             releases = ac_release cb \<noteq> None \<and> \<not> hasBeenFinalized array
         in do { (b, l) \<leftarrow> CFArrayGetBucketsPtr array;
                 old_value \<leftarrow> rd b (l + idx);
                 b \<leftarrow> wr b (l + idx) v';
                 let array = set_buckets array b;
                 Some (array\<lparr>ar_trace := ar_trace array @ (if retains then [Retained v] else []) @
                               (if releases then [Released old_value] else []),
                             ar_mutations := ar_mutations array + 1\<rparr>) }))"

definition CFArrayInsertValueAtIndex :: "(nat \<Rightarrow> ptr) \<Rightarrow> CFArray \<Rightarrow> nat \<Rightarrow> ptr \<Rightarrow> CFArray option" where
  "CFArrayInsertValueAtIndex garbage array idx v =
     CFArrayReplaceValues garbage array (CFRangeMake idx 0) [v] 1"

definition CFArrayExchangeValuesAtIndices :: "CFArray \<Rightarrow> nat \<Rightarrow> nat \<Rightarrow> CFArray option" where
  "CFArrayExchangeValuesAtIndices array idx1 idx2 =
     do { (b, l) \<leftarrow> CFArrayGetBucketsPtr array;
          tmp \<leftarrow> rd b (l + idx1);
          item2 \<leftarrow> rd b (l + idx2);
          b \<leftarrow> wr b (l + idx1) item2;
          b \<leftarrow> wr b (l + idx2) tmp;
          let array = set_buckets array b;
          Some (array\<lparr>ar_mutations := ar_mutations array + 1\<rparr>) }"

definition CFArrayRemoveValueAtIndex :: "(nat \<Rightarrow> ptr) \<Rightarrow> CFArray \<Rightarrow> nat \<Rightarrow> CFArray option" where
  "CFArrayRemoveValueAtIndex garbage array idx =
     CFArrayReplaceValues garbage array (CFRangeMake idx 1) [] 0"

definition CFArrayRemoveAllValues :: "CFArray \<Rightarrow> CFArray option" where
  "CFArrayRemoveAllValues array =
     do { array \<leftarrow> CFArrayReleaseValues array (CFRangeMake 0 (ar_count array)) True;
          Some (array\<lparr>ar_count := 0, ar_mutations := ar_mutations array + 1\<rparr>) }"

text \<open>\<open>_CFArraySetCapacity\<close>: the block is replaced by one of the new capacity.\<close>

definition CFArraySetCapacity :: "(nat \<Rightarrow> ptr) \<Rightarrow> CFArray \<Rightarrow> nat \<Rightarrow> CFArray option" where
  "CFArraySetCapacity garbage array cap =
     (if CFArrayGetType array = kCFArrayDeque
      then (let capacity = CFArrayDequeRoundUpCapacity cap in
        if capacity \<le> 0 then None
        else (let block = map garbage [0..<nat capacity] in
          case ar_store array of
            None \<Rightarrow> Some (array\<lparr>ar_store := Some \<lparr>dq_leftIdx = nat (capacity div 2),
                           dq_capacity = nat capacity, dq_buckets = block\<rparr>\<rparr>)
          | Some olddeque \<Rightarrow>
              do { block \<leftarrow> memmove block 0 (dq_buckets olddeque) 0 (dq_capacity olddeque);
                   Some (array\<lparr>ar_store := Some \<lparr>dq_leftIdx = dq_leftIdx olddeque,
                           dq_capacity = nat capacity, dq_buckets = block\<rparr>\<rparr>) }))
      else Some array)"

fun append_loop :: "(nat \<Rightarrow> ptr) \<Rightarrow> CFArray \<Rightarrow> CFArray \<Rightarrow> nat \<Rightarrow> nat \<Rightarrow> CFArray option" where
  "append_loop garbage array other idx 0 = Some array"
| "append_loop garbage array other idx (Suc n) =
     do { v \<leftarrow> CFArrayGetValueAtIndex other idx;
          array \<leftarrow> CFArrayAppendValue garbage array v;
          append_loop garbage array other (idx + 1) n }"

text \<open>\<open>otherArray\<close> is another array object than \<open>array\<close>.\<close>

definition CFArrayAppendArray :: "(nat \<Rightarrow> ptr) \<Rightarrow> CFArray \<Rightarrow> CFArray \<Rightarrow> CFRange \<Rightarrow> CFArray option" where
  "CFArrayAppendArray garbage array other r = append_loop garbage array other (location r) (range_length r)"

definition CFArrayCreateCopy :: "CFArrayCallBacks \<Rightarrow> (nat \<Rightarrow> ptr) \<Rightarrow> CFArray \<Rightarrow> CFArray option" where
  "CFArrayCreateCopy cftype garbage array =
     (let numValues = CFArrayGetCount array;
          result = CFArrayInit cftype 0 numValues (Some (CFArrayGetCallBacks array)) garbage;
          cb = CFArrayGetCallBacks result
      in do { values \<leftarrow> array_apply_loop array 0 numValues;
              (b, es) \<leftarrow> fill_loop (ac_retain cb) values (ar_inline result) 0 numValues;
              Some (result\<lparr>ar_inline := b, ar_count := numValues, ar_trace := es\<rparr>) })"

definition CFArrayCreateMutableCopy ::
  "CFArrayCallBacks \<Rightarrow> (nat \<Rightarrow> ptr) \<Rightarrow> nat \<Rightarrow> CFArray \<Rightarrow> CFArray option" where
  "CFArrayCreateMutableCopy cftype garbage capacity array =
     (let numValues = CFArrayGetCount array;
          result = CFArrayInit cftype 2 capacity (Some (CFArrayGetCallBacks array)) (\<lambda>_. NULL)
      in do { result \<leftarrow> (if 0 = capacity then CFArraySetCapacity garbage result numValues else Some result);
              append_loop garbage result array 0 numValues })"

subsection \<open>Sorting and searching\<close>

fun zsort_pass ::
  "(ptr \<Rightarrow> ptr \<Rightarrow> CFComparisonResult) \<Rightarrow> CFArray \<Rightarrow> nat \<Rightarrow> nat \<Rightarrow> CFArray option" where
  "zsort_pass cmp array idx 0 = Some array"
| "zsort_pass cmp array idx (Suc n) =
     do { a \<leftarrow> CFArrayGetValueAtIndex array idx;
          b \<leftarrow> CFArrayGetValueAtIndex array (idx + 1);
          array \<leftarrow> (if cmp b a < 0 then CFArrayExchangeValuesAtIndices array idx (idx + 1) else Some array);
          zsort_pass cmp array (idx + 1) n }"

fun CFZSort :: "(ptr \<Rightarrow> ptr \<Rightarrow> CFComparisonResult) \<Rightarrow> CFArray \<Rightarrow> nat \<Rightarrow> nat \<Rightarrow> CFArray option" where
  "CFZSort cmp array loc 0 = Some array"
| "CFZSort cmp array loc (Suc n) =
     (if 1 < Suc n
      then do { array \<leftarrow> zsort_pass cmp array loc n; CFZSort cmp array loc n }
      else Some array)"

definition CFArraySortValues ::
  "(nat \<Rightarrow> ptr) \<Rightarrow> CFArray \<Rightarrow> CFRange \<Rightarrow> (ptr \<Rightarrow> ptr \<Rightarrow> CFComparisonResult) \<Rightarrow> CFArray option" where
  "CFArraySortValues garbage array r cmp =
     (let immutable = (CFArrayGetType array = kCFArrayImmutable);
          cb = CFArrayGetCallBacks array
      in if \<not> immutable \<and> ((ac_retain cb \<noteq> None \<and> ac_release cb = None) \<or>
                             (ac_retain cb = None \<and> ac_release cb \<noteq> None))
         then CFZSort cmp array (location r) (range_length r)
         else if range_length r < 2 then Some array
         else do { values \<leftarrow> CFArrayGetValues array r;
                   values \<leftarrow> CFQSortPointers garbage garbage values (range_length r) cmp;
                   if \<not> immutable then CFArrayReplaceValues garbage array r values (range_length r)
                   else Some array })"

text \<open>
  \<open>while (lg--)\<close>; \<open>idx\<close> may be -1.  \<open>1 << lg\<close> is a shift of an \<open>int\<close>, undefined from 31 on.
\<close>

fun array_bsearch_loop ::
  "(ptr \<Rightarrow> ptr \<Rightarrow> CFComparisonResult) \<Rightarrow> CFArray \<Rightarrow> nat \<Rightarrow> ptr \<Rightarrow> nat \<Rightarrow> int \<Rightarrow> int option" where
  "array_bsearch_loop cmp array loc v 0 idx = Some idx"
| "array_bsearch_loop cmp array loc v (Suc lg) idx =
     do { p \<leftarrow> pos (int loc + idx + 2 ^ lg);
          item \<leftarrow> CFArrayGetValueAtIndex array p;
          array_bsearch_loop cmp array loc v lg (if cmp item v < 0 then idx + 2 ^ lg else idx) }"

definition CFArrayBSearchValues ::
  "CFArray \<Rightarrow> CFRange \<Rightarrow> ptr \<Rightarrow> (ptr \<Rightarrow> ptr \<Rightarrow> CFComparisonResult) \<Rightarrow> int option" where
  "CFArrayBSearchValues array r v cmp =
     (if range_length r \<le> 0 then Some (int (location r))
      else do {
        item \<leftarrow> CFArrayGetValueAtIndex array (location r + range_length r - 1);
        if cmp item v < 0 then Some (int (location r + range_length r))
        else do {
          item \<leftarrow> CFArrayGetValueAtIndex array (location r);
          if cmp v item < 0 then Some (int (location r))
          else do {
            let lg = flsl (range_length r) - 1;
            lg \<leftarrow> (if lg < 31 then Some lg else None);
            p \<leftarrow> pos (int (location r) - 1 + 2 ^ lg);
            item \<leftarrow> CFArrayGetValueAtIndex array p;
            let idx = (if cmp item v < 0 then int (range_length r) - 2 ^ lg else - 1);
            idx \<leftarrow> array_bsearch_loop cmp array (location r) v lg idx;
            Some (idx + 1 + int (location r)) } } })"

subsection \<open>The array as a list\<close>

definition deque_wf :: "CFArrayDeque \<Rightarrow> nat \<Rightarrow> bool" where
  "deque_wf d cnt \<longleftrightarrow> length (dq_buckets d) = dq_capacity d \<and> dq_leftIdx d + cnt \<le> dq_capacity d \<and>
     dq_capacity d \<le> 2 ^ 30"

definition array_wf :: "CFArray \<Rightarrow> bool" where
  "array_wf array \<longleftrightarrow> CFArrayGetType array = kCFArrayDeque \<and> \<not> hasBeenFinalized array \<and>
     (case ar_store array of None \<Rightarrow> ar_count array = 0 | Some d \<Rightarrow> deque_wf d (ar_count array))"

definition deque_list :: "CFArrayDeque \<Rightarrow> nat \<Rightarrow> ptr list" where
  "deque_list d cnt = segment (dq_buckets d) (dq_leftIdx d) cnt"

definition array_list :: "CFArray \<Rightarrow> ptr list" where
  "array_list array = (case ar_store array of None \<Rightarrow> [] | Some d \<Rightarrow> deque_list d (ar_count array))"

text \<open>The sizes up to which the 32-bit computations of the capacity are exact.\<close>

definition array_room :: "CFArray \<Rightarrow> nat \<Rightarrow> bool" where
  "array_room array n \<longleftrightarrow> ar_count array + n + 2 ^ 13 < 2 ^ 30"

lemma length_array_list: "array_wf array \<Longrightarrow> length (array_list array) = ar_count array"
  by (auto simp: array_wf_def array_list_def deque_list_def deque_wf_def split: option.splits)

lemma RoundUp_bounds:
  assumes "n < 2 ^ 30"
  shows "int n < CFArrayDequeRoundUpCapacity n" "CFArrayDequeRoundUpCapacity n \<le> 2 ^ 30"
    "0 < CFArrayDequeRoundUpCapacity n"
proof -
  have f: "flsl n \<le> 30" using assms by (rule flsl_le)
  then have p: "(2 :: int) ^ flsl n \<le> 2 ^ 30" by (intro power_increasing) auto
  then have "CFArrayDequeRoundUpCapacity n = (if n < 4 then 4 else 2 ^ flsl n)"
    unfolding CFArrayDequeRoundUpCapacity_def sint_shifted_one [OF f] by (simp add: LONG_MAX_def)
  moreover have "int n < 2 ^ flsl n" using flsl_upper [of n] by (metis of_nat_less_numeral_power_cancel_iff)
  ultimately show "int n < CFArrayDequeRoundUpCapacity n" "CFArrayDequeRoundUpCapacity n \<le> 2 ^ 30"
    "0 < CFArrayDequeRoundUpCapacity n" using p by auto
qed

lemma pos_of_nat [simp]: "pos (int n) = Some n"
  by (simp add: pos_def)

lemma move_region_nat:
  "d = int d' \<Longrightarrow> s = int s' \<Longrightarrow> n = int n' \<Longrightarrow> s' + n' \<le> length src \<Longrightarrow> d' + n' \<le> length dst \<Longrightarrow>
    move_region dst d src s n = Some (put_segment dst d' (segment src s' n'))"
  by (cases "n' = 0") (simp_all add: move_region_def memmove_at_def cf_mem put_segment_def segment_def)

lemma clear_region_nat:
  assumes "d = int d'" "d' + nat (a - b) \<le> length dst"
  shows "clear_region dst d a b = Some (put_segment dst d' (replicate (nat (a - b)) NULL))"
proof (cases "a > b")
  case True
  then have "pos (a - b) = Some (nat (a - b))" by (simp add: pos_def)
  then show ?thesis using True assms by (simp add: clear_region_def memset0_at_def cf_mem put_segment_def)
qed (simp add: clear_region_def put_segment_def)

text \<open>
  What repositioning achieves: the deque has room for the new elements, the region in front of them
  and the region behind them are the old ones.
\<close>

definition repositioned :: "ptr list \<Rightarrow> nat \<Rightarrow> nat \<Rightarrow> nat \<Rightarrow> nat \<Rightarrow> nat \<Rightarrow> CFArrayDeque \<Rightarrow> bool" where
  "repositioned src L A B C newCount d \<longleftrightarrow> deque_wf d (A + newCount + C) \<and>
     (\<forall>i < A. dq_buckets d ! (dq_leftIdx d + i) = src ! (L + i)) \<and>
     (\<forall>i < C. dq_buckets d ! (dq_leftIdx d + A + newCount + i) = src ! (L + A + B + i))"

lemma realloc_repositioned:
  assumes "futureCnt = A + newCount + C" "nat wiggle + futureCnt < 2 ^ 30" "0 \<le> wiggle"
    and "L + A + B + C \<le> length src"
  shows "\<exists>d. reposition_realloc garbage src (int L) (int A) (int B) (int C) (int newCount) futureCnt wiggle = Some d \<and>
    repositioned src L A B C newCount d"
proof -
  define cap where "cap = nat (CFArrayDequeRoundUpCapacity (nat (int futureCnt + wiggle)))"
  have "nat (int futureCnt + wiggle) < 2 ^ 30" using assms(2,3) by (simp add: nat_add_distrib)
  note b = RoundUp_bounds [OF this]
  have cap: "CFArrayDequeRoundUpCapacity (nat (int futureCnt + wiggle)) = int cap" "futureCnt < cap" "cap \<le> 2 ^ 30"
    using b assms(3) by (auto simp: cap_def nat_le_iff)
  define newL where "newL = (cap - futureCnt) div 2"
  have newL: "(int cap - int futureCnt) div 2 = int newL" "newL + futureCnt \<le> cap"
    using cap(2) by (auto simp: newL_def of_nat_diff zdiv_int)
  define nb where "nb = map garbage [0..<cap]"
  have lnb: "length nb = cap" by (simp add: nb_def)
  define b1 where "b1 = put_segment nb newL (segment src L A)"
  define b2 where "b2 = put_segment b1 (newL + A + newCount) (segment src (L + A + B) C)"
  have l1: "length b1 = cap" using lnb newL(2) assms(1,4) by (simp add: b1_def)
  have l2: "length b2 = cap" using l1 newL(2) assms(1,4) by (simp add: b2_def)
  have s1: "move_region nb (int newL) src (int L) (int A) = Some b1"
    using lnb newL(2) assms(1,4) unfolding b1_def by (intro move_region_nat) auto
  have s2: "move_region b1 (int newL + int A + int newCount) src (int L + int A + int B) (int C) = Some b2"
    using l1 newL(2) assms(1,4) unfolding b2_def by (intro move_region_nat) auto
  have "reposition_realloc garbage src (int L) (int A) (int B) (int C) (int newCount) futureCnt wiggle =
      Some \<lparr>dq_leftIdx = newL, dq_capacity = cap, dq_buckets = b2\<rparr>"
    using s1 s2 cap(2) unfolding reposition_realloc_def cap(1) Let_def newL(1)
    by (simp add: nb_def)
  moreover have "repositioned src L A B C newCount \<lparr>dq_leftIdx = newL, dq_capacity = cap, dq_buckets = b2\<rparr>"
    using l1 l2 lnb newL(2) cap(3) assms(1,4)
    by (auto simp: repositioned_def deque_wf_def b2_def b1_def nth_put_segment)
  ultimately show ?thesis by blast
qed

lemma move_C_repositioned:
  assumes "deque_wf d (A + B + C)" "L = dq_leftIdx d" "L + A + newCount + C \<le> dq_capacity d"
  shows "\<exists>d'. reposition_move_C d (int L) (int A) (int B) (int C) (int newCount) = Some d' \<and>
    repositioned (dq_buckets d) L A B C newCount d'"
proof -
  let ?b = "dq_buckets d" and ?new = "L + A + newCount" and ?old = "L + A + B"
  have len: "length ?b = dq_capacity d" "?old + C \<le> length ?b" "dq_capacity d \<le> 2 ^ 30"
    using assms(1,2) by (auto simp: deque_wf_def)
  define b1 where "b1 = put_segment ?b ?new (segment ?b ?old C)"
  have l1: "length b1 = length ?b" using len assms(3) by (simp add: b1_def)
  define b2 where "b2 = put_segment b1 (?new + C) (replicate (nat (int ?old - int ?new)) NULL)"
  have gap: "?new + C + nat (int ?old - int ?new) \<le> length b1" using l1 len assms(3) by auto
  then have l2: "length b2 = length ?b" using l1 by (simp add: b2_def)
  have "move_region ?b (int L + int A + int newCount) ?b (int L + int A + int B) (int C) = Some b1"
    using len assms(3) unfolding b1_def by (intro move_region_nat) auto
  moreover have "clear_region b1 (int L + int A + int newCount + int C) (int L + int A + int B)
      (int L + int A + int newCount) = Some b2"
    using gap unfolding b2_def by (subst clear_region_nat [where d' = "?new + C"]) auto
  ultimately have "reposition_move_C d (int L) (int A) (int B) (int C) (int newCount) = Some (d\<lparr>dq_buckets := b2\<rparr>)"
    by (simp add: reposition_move_C_def Let_def)
  moreover have "b2 ! (L + i) = ?b ! (L + i)" if "i < A" for i
    using that gap l1 len assms(3) by (simp add: b2_def b1_def nth_put_segment)
  moreover have "b2 ! (L + A + newCount + i) = ?b ! (L + A + B + i)" if "i < C" for i
    using that gap l1 len assms(3) by (simp add: b2_def b1_def nth_put_segment)
  ultimately show ?thesis
    using l2 len assms(2,3) by (auto simp: repositioned_def deque_wf_def)
qed

lemma move_A_repositioned:
  assumes "deque_wf d (A + B + C)" "L = dq_leftIdx d" "newCount \<le> L + B"
  shows "\<exists>d'. reposition_move_A d (int L) (int A) (int newCount - int B) = Some d' \<and>
    repositioned (dq_buckets d) L A B C newCount d'"
proof -
  let ?b = "dq_buckets d"
  obtain newL where newL: "newL + newCount = L + B" using assms(3) by (metis le_add_diff_inverse2)
  have newLi: "int L - (int newCount - int B) = int newL" using newL by simp
  have len: "length ?b = dq_capacity d" "L + A + B + C \<le> length ?b" "dq_capacity d \<le> 2 ^ 30"
    using assms(1,2) by (auto simp: deque_wf_def)
  define b1 where "b1 = put_segment ?b newL (segment ?b L A)"
  have fits: "newL + A \<le> length ?b" using newL len by simp
  then have l1: "length b1 = length ?b" using len by (simp add: b1_def)
  define b2 where "b2 = put_segment b1 L (replicate (nat (int newL - int L)) NULL)"
  have gap: "L + nat (int newL - int L) \<le> length b1" using l1 len newL by auto
  then have l2: "length b2 = length ?b" using l1 by (simp add: b2_def)
  have "move_region ?b (int newL) ?b (int L) (int A) = Some b1"
    using len fits unfolding b1_def by (intro move_region_nat) auto
  moreover have "clear_region b1 (int L) (int newL) (int L) = Some b2"
    using gap unfolding b2_def by (subst clear_region_nat [where d' = L]) auto
  ultimately have "reposition_move_A d (int L) (int A) (int newCount - int B) =
      Some (d\<lparr>dq_leftIdx := newL, dq_buckets := b2\<rparr>)"
    unfolding reposition_move_A_def newLi Let_def by simp
  moreover have "b2 ! (newL + i) = ?b ! (L + i)" if "i < A" for i
    using that gap l1 len fits by (auto simp: b2_def b1_def nth_put_segment)
  moreover have "b2 ! (newL + A + newCount + i) = ?b ! (L + A + B + i)" if "i < C" for i
  proof -
    have "newL + A + newCount + i = L + A + B + i" using newL by simp
    show ?thesis unfolding \<open>newL + A + newCount + i = L + A + B + i\<close>
      using that gap l1 len fits newL by (auto simp: b2_def b1_def nth_put_segment)
  qed
  ultimately show ?thesis
    using l2 len assms(2,3) newL by (auto simp: repositioned_def deque_wf_def)
qed

lemma recenter_repositioned:
  assumes "deque_wf d (A + B + C)" "L = dq_leftIdx d" "A + newCount + C \<le> dq_capacity d" "B \<le> newCount"
    and "R = int (dq_capacity d) - int (A + B + C) - int L"
  shows "\<exists>d'. reposition_recenter d (int L) (int A) (int B) (int C) R (int newCount) (int newCount - int B) = Some d' \<and>
    repositioned (dq_buckets d) L A B C newCount d'"
proof -
  let ?b = "dq_buckets d"
  define F where "F = dq_capacity d - (A + newCount + C)"
  define newL where "newL = F div 2 - F div 2 div 2"
  have "int L + R - (int newCount - int B) = int F"
    using assms(3,5) by (simp add: F_def of_nat_diff)
  then have half: "(int L + R - (int newCount - int B)) div 2 = int (F div 2)" by (simp add: zdiv_int)
  have newLi: "int (F div 2) - int (F div 2) div 2 = int newL"
    by (simp add: newL_def of_nat_diff zdiv_int)
  have len: "length ?b = dq_capacity d" "L + A + B + C \<le> length ?b" "dq_capacity d \<le> 2 ^ 30"
    using assms(1,2) by (auto simp: deque_wf_def)
  have "newL \<le> F" unfolding newL_def by (metis diff_le_self div_le_dividend le_trans)
  then have fits: "newL + A + newCount + C \<le> length ?b" using assms(3) len(1) by (simp add: F_def)
  have unfold: "reposition_recenter d (int L) (int A) (int B) (int C) R (int newCount) (int newCount - int B) =
      do { b \<leftarrow> (if newL < L
             then do { b \<leftarrow> move_region ?b (int newL) ?b (int L) (int A);
                       b \<leftarrow> move_region b (int newL + int A + int newCount) b (int L + int A + int B) (int C);
                       clear_region b (int newL + int A + int newCount + int C)
                         (int L + int A + int B) (int newL + int A + int newCount) }
             else do { b \<leftarrow> move_region ?b (int newL + int A + int newCount) ?b (int L + int A + int B) (int C);
                       b \<leftarrow> move_region b (int newL) b (int L) (int A);
                       clear_region b (int L) (int newL) (int L) });
           Some (d\<lparr>dq_leftIdx := newL, dq_buckets := b\<rparr>) }"
    unfolding reposition_recenter_def half newLi Let_def by simp
  show ?thesis
  proof (cases "newL < L")
    case True
    define b1 where "b1 = put_segment ?b newL (segment ?b L A)"
    have l1: "length b1 = length ?b" using len fits by (simp add: b1_def)
    define b2 where "b2 = put_segment b1 (newL + A + newCount) (segment b1 (L + A + B) C)"
    have l2: "length b2 = length ?b" using len fits l1 by (simp add: b2_def)
    let ?gap = "nat (int (L + A + B) - int (newL + A + newCount))"
    define b3 where "b3 = put_segment b2 (newL + A + newCount + C) (replicate ?gap NULL)"
    have gap: "newL + A + newCount + C + ?gap \<le> length b2" using l2 len fits by auto
    then have l3: "length b3 = length ?b" using l2 by (simp add: b3_def)
    have "move_region ?b (int newL) ?b (int L) (int A) = Some b1"
      using len fits unfolding b1_def by (intro move_region_nat) auto
    moreover have "move_region b1 (int newL + int A + int newCount) b1 (int L + int A + int B) (int C) = Some b2"
      using l1 len fits unfolding b2_def by (intro move_region_nat) auto
    moreover have "clear_region b2 (int newL + int A + int newCount + int C)
        (int L + int A + int B) (int newL + int A + int newCount) = Some b3"
      using gap unfolding b3_def by (subst clear_region_nat [where d' = "newL + A + newCount + C"]) auto
    ultimately have "reposition_recenter d (int L) (int A) (int B) (int C) R (int newCount) (int newCount - int B) =
        Some (d\<lparr>dq_leftIdx := newL, dq_buckets := b3\<rparr>)"
      using True unfolding unfold by simp
    moreover have "b3 ! (newL + i) = ?b ! (L + i)" if "i < A" for i
      using that gap l1 l2 len fits by (simp add: b3_def b2_def b1_def nth_put_segment)
    moreover have "b3 ! (newL + A + newCount + i) = ?b ! (L + A + B + i)" if "i < C" for i
      using that gap l1 l2 len fits True by (simp add: b3_def b2_def b1_def nth_put_segment)
    ultimately show ?thesis
      using l3 len fits by (auto simp: repositioned_def deque_wf_def add.assoc)
  next
    case False
    define b1 where "b1 = put_segment ?b (newL + A + newCount) (segment ?b (L + A + B) C)"
    have l1: "length b1 = length ?b" using len fits by (simp add: b1_def)
    define b2 where "b2 = put_segment b1 newL (segment b1 L A)"
    have l2: "length b2 = length ?b" using len fits l1 by (simp add: b2_def)
    let ?gap = "nat (int newL - int L)"
    define b3 where "b3 = put_segment b2 L (replicate ?gap NULL)"
    have gap: "L + ?gap = newL" using False by simp
    then have l3: "length b3 = length ?b" using l2 fits by (simp add: b3_def)
    have "move_region ?b (int newL + int A + int newCount) ?b (int L + int A + int B) (int C) = Some b1"
      using len fits unfolding b1_def by (intro move_region_nat) auto
    moreover have "move_region b1 (int newL) b1 (int L) (int A) = Some b2"
      using l1 len fits unfolding b2_def by (intro move_region_nat) auto
    moreover have "clear_region b2 (int L) (int newL) (int L) = Some b3"
      using gap l2 fits unfolding b3_def by (subst clear_region_nat [where d' = L]) auto
    ultimately have "reposition_recenter d (int L) (int A) (int B) (int C) R (int newCount) (int newCount - int B) =
        Some (d\<lparr>dq_leftIdx := newL, dq_buckets := b3\<rparr>)"
      using False unfolding unfold by simp
    moreover have "b3 ! (newL + i) = ?b ! (L + i)" if "i < A" for i
      using that gap l1 l2 len fits False by (simp add: b3_def b2_def b1_def nth_put_segment)
    moreover have "b3 ! (newL + A + newCount + i) = ?b ! (L + A + B + i)" if "i < C" for i
      using that gap l1 l2 len fits False by (simp add: b3_def b2_def b1_def nth_put_segment)
    ultimately show ?thesis
      using l3 len fits by (auto simp: repositioned_def deque_wf_def add.assoc)
  qed
qed

lemma uint_word_of_nat_32: "n < 2 ^ 32 \<Longrightarrow> uint (word_of_nat n :: 32 word) = int n"
  by (simp add: unsigned_of_nat take_bit_nat_eq_self)

lemma Reposition_correct:
  assumes "array_wf array" "ar_store array = Some d" "A + B + C = ar_count array"
    and "array_room array newCount"
  shows "\<exists>d'. CFArrayRepositionDequeRegions garbage array (CFRangeMake A B) newCount =
      Some (array\<lparr>ar_store := Some d'\<rparr>) \<and>
    repositioned (dq_buckets d) (dq_leftIdx d) A B C newCount d'"
proof -
  let ?L = "dq_leftIdx d" and ?cap = "dq_capacity d" and ?f = "A + newCount + C"
  have wf: "deque_wf d (A + B + C)" using assms(1-3) by (simp add: array_wf_def)
  define R where "R = int ?cap - int (A + B + C) - int ?L"
  define wiggle where "wiggle = (if int ?cap div 2 ^ 17 < 4 then 4 else int ?cap div 2 ^ 17)"
  have fut: "ar_count array - B + newCount = ?f" using assms(3) by simp
  have "int ?cap div 2 ^ 17 \<le> 2 ^ 30 div 2 ^ 17"
    using wf by (intro zdiv_mono1) (auto simp: deque_wf_def)
  then have wig: "0 \<le> wiggle" "wiggle \<le> 2 ^ 13" by (auto simp: wiggle_def)
  have room: "?f + 2 ^ 13 < 2 ^ 30" using assms(3,4) by (simp add: array_room_def)
  then have w32: "uint (word_of_nat ?f :: 32 word) = int ?f"
    by (intro uint_word_of_nat_32) simp
  have C: "int (ar_count array) - int B - int A = int C" using assms(3) by linarith
  have R: "int ?cap - int (ar_count array) - int ?L = R" using assms(3) by (simp add: R_def)
  define step where "step =
    (if int ?cap < int ?f \<or> (ar_count array < ?f \<and> int ?L + R < wiggle)
     then reposition_realloc garbage (dq_buckets d) (int ?L) (int A) (int B) (int C) (int newCount) ?f wiggle
     else if (int newCount - int B < 0 \<and> int C < int A) \<or> (int newCount - int B \<le> R \<and> int C < int A)
     then reposition_move_C d (int ?L) (int A) (int B) (int C) (int newCount)
     else if int newCount - int B < 0 \<or> (int newCount - int B \<le> int ?L \<and> int A \<le> int C)
     then reposition_move_A d (int ?L) (int A) (int newCount - int B)
     else reposition_recenter d (int ?L) (int A) (int B) (int C) R (int newCount) (int newCount - int B))"
  have unfold: "CFArrayRepositionDequeRegions garbage array (CFRangeMake A B) newCount =
      do { d \<leftarrow> step; Some (array\<lparr>ar_store := Some d\<rparr>) }"
    unfolding CFArrayRepositionDequeRegions_def assms(2) Let_def step_def
    using fut w32 C R by (simp add: wiggle_def)
  have "\<exists>d'. step = Some d' \<and> repositioned (dq_buckets d) ?L A B C newCount d'"
  proof -
    consider (re) "int ?cap < int ?f \<or> (ar_count array < ?f \<and> int ?L + R < wiggle)"
      | (c) "\<not> (int ?cap < int ?f \<or> (ar_count array < ?f \<and> int ?L + R < wiggle))"
        "(int newCount - int B < 0 \<and> int C < int A) \<or> (int newCount - int B \<le> R \<and> int C < int A)"
      | (a) "\<not> (int ?cap < int ?f \<or> (ar_count array < ?f \<and> int ?L + R < wiggle))"
        "\<not> ((int newCount - int B < 0 \<and> int C < int A) \<or> (int newCount - int B \<le> R \<and> int C < int A))"
        "int newCount - int B < 0 \<or> (int newCount - int B \<le> int ?L \<and> int A \<le> int C)"
      | (r) "\<not> (int ?cap < int ?f \<or> (ar_count array < ?f \<and> int ?L + R < wiggle))"
        "\<not> ((int newCount - int B < 0 \<and> int C < int A) \<or> (int newCount - int B \<le> R \<and> int C < int A))"
        "\<not> (int newCount - int B < 0 \<or> (int newCount - int B \<le> int ?L \<and> int A \<le> int C))"
      by blast
    then show ?thesis
    proof cases
      case re
      have "nat wiggle + ?f < 2 ^ 30" using wig room by simp
      then show ?thesis
        using re realloc_repositioned [OF refl _ wig(1), of A newCount C ?L B "dq_buckets d" garbage] wf
        by (simp add: step_def deque_wf_def)
    next
      case c
      have "?L + A + newCount + C \<le> ?cap" using c(2) wf by (auto simp: R_def deque_wf_def)
      then show ?thesis
        using move_C_repositioned [OF wf refl, of newCount]
        by (simp only: step_def if_not_P [OF c(1)] if_P [OF c(2)])
    next
      case a
      have "newCount \<le> ?L + B" using a(3) by auto
      then show ?thesis
        using move_A_repositioned [OF wf refl, of newCount]
        by (simp only: step_def if_not_P [OF a(1)] if_not_P [OF a(2)] if_P [OF a(3)])
    next
      case r
      then have "A + newCount + C \<le> ?cap" "B \<le> newCount" by auto
      then show ?thesis
        using recenter_repositioned [OF wf refl _ _ R_def, of newCount]
        by (simp only: step_def if_not_P [OF r(1)] if_not_P [OF r(2)] if_not_P [OF r(3)])
    qed
  qed
  then show ?thesis using unfold by auto
qed

subsection \<open>Replacing a range\<close>

definition array_stored :: "CFArray \<Rightarrow> ptr \<Rightarrow> ptr" where
  "array_stored array v = (case ac_retain (CFArrayGetCallBacks array) of None \<Rightarrow> v | Some f \<Rightarrow> cb_fun f v)"

definition retain_events :: "CFArray \<Rightarrow> ptr list \<Rightarrow> ptr cb_event list" where
  "retain_events array vs = (if ac_retain (CFArrayGetCallBacks array) = None then [] else map Retained vs)"

definition release_events :: "CFArray \<Rightarrow> ptr list \<Rightarrow> ptr cb_event list" where
  "release_events array vs = (if ac_release (CFArrayGetCallBacks array) = None then [] else map Released vs)"

definition array_settings :: "CFArray \<Rightarrow> 8 word \<times> CFArrayCallBacks \<times> ptr list \<times> CFArrayCallBacks" where
  "array_settings array = (ar_cfinfo array, ar_custom array, ar_inline array, ar_cftype array)"

text \<open>
  The contract of the mutators: the values in positions \<open>A\<close> to \<open>A + B - 1\<close> give way to the retained
  new values \<open>vs\<close>; first the new values are retained, then the old ones released.
\<close>

definition replaced :: "CFArray \<Rightarrow> nat \<Rightarrow> nat \<Rightarrow> ptr list \<Rightarrow> CFArray \<Rightarrow> bool" where
  "replaced array A B vs array' \<longleftrightarrow> array_wf array' \<and>
     array_list array' =
       take A (array_list array) @ map (array_stored array) vs @ drop (A + B) (array_list array) \<and>
     ar_trace array' = ar_trace array @ retain_events array vs @ release_events array (segment (array_list array) A B) \<and>
     ar_mutations array' = ar_mutations array + 1 \<and> array_settings array' = array_settings array"

lemma settings_cong:
  "array_settings a = array_settings b \<Longrightarrow> CFArrayGetType a = CFArrayGetType b"
  "array_settings a = array_settings b \<Longrightarrow> CFArrayGetCallBacks a = CFArrayGetCallBacks b"
  "array_settings a = array_settings b \<Longrightarrow> hasBeenFinalized a = hasBeenFinalized b"
  by (simp_all add: array_settings_def CFArrayGetType_def CFArrayGetCallBacks_def hasBeenFinalized_def Let_def)

lemma settings_update [simp]:
  "array_settings (array\<lparr>ar_count := n\<rparr>) = array_settings array"
  "array_settings (array\<lparr>ar_store := s\<rparr>) = array_settings array"
  "array_settings (array\<lparr>ar_trace := t\<rparr>) = array_settings array"
  "array_settings (array\<lparr>ar_mutations := m\<rparr>) = array_settings array"
  by (simp_all add: array_settings_def)

lemma GetType_update [simp]:
  "CFArrayGetType (array\<lparr>ar_count := n\<rparr>) = CFArrayGetType array"
  "CFArrayGetType (array\<lparr>ar_store := s\<rparr>) = CFArrayGetType array"
  "CFArrayGetType (array\<lparr>ar_trace := t\<rparr>) = CFArrayGetType array"
  "CFArrayGetType (array\<lparr>ar_mutations := m\<rparr>) = CFArrayGetType array"
  "CFArrayGetType (array\<lparr>ar_inline := b\<rparr>) = CFArrayGetType array"
  by (simp_all add: CFArrayGetType_def)

lemma GetCallBacks_update [simp]:
  "CFArrayGetCallBacks (array\<lparr>ar_count := n\<rparr>) = CFArrayGetCallBacks array"
  "CFArrayGetCallBacks (array\<lparr>ar_store := s\<rparr>) = CFArrayGetCallBacks array"
  "CFArrayGetCallBacks (array\<lparr>ar_trace := t\<rparr>) = CFArrayGetCallBacks array"
  "CFArrayGetCallBacks (array\<lparr>ar_mutations := m\<rparr>) = CFArrayGetCallBacks array"
  "CFArrayGetCallBacks (array\<lparr>ar_inline := b\<rparr>) = CFArrayGetCallBacks array"
  by (simp_all add: CFArrayGetCallBacks_def Let_def)

lemma finalized_update [simp]:
  "hasBeenFinalized (array\<lparr>ar_count := n\<rparr>) = hasBeenFinalized array"
  "hasBeenFinalized (array\<lparr>ar_store := s\<rparr>) = hasBeenFinalized array"
  "hasBeenFinalized (array\<lparr>ar_trace := t\<rparr>) = hasBeenFinalized array"
  "hasBeenFinalized (array\<lparr>ar_mutations := m\<rparr>) = hasBeenFinalized array"
  by (simp_all add: hasBeenFinalized_def)

lemma list_update_ghost [simp]:
  "array_list (array\<lparr>ar_trace := t\<rparr>) = array_list array" "array_wf (array\<lparr>ar_trace := t\<rparr>) = array_wf array"
  "array_list (array\<lparr>ar_mutations := m\<rparr>) = array_list array" "array_wf (array\<lparr>ar_mutations := m\<rparr>) = array_wf array"
  by (auto simp: array_list_def array_wf_def split: option.split)

lemma release_range_correct:
  "i + n \<le> length b \<Longrightarrow> release_range rel b i n =
    Some (put_segment b i (replicate n NULL), if rel then map Released (segment b i n) else [])"
proof (induction n arbitrary: b i)
  case 0
  then show ?case by (simp add: put_segment_def segment_def)
next
  case (Suc n)
  have "put_segment (b[i := NULL]) (i + 1) (replicate n NULL) = put_segment b i (replicate (Suc n) NULL)"
    using Suc.prems by (intro put_segmentI) (auto simp: nth_put_segment nth_list_update nth_Cons')
  moreover have "segment (b[i := NULL]) (i + 1) n = segment b (i + 1) n"
    using Suc.prems by (intro nth_equalityI) auto
  ultimately show ?case
    using Suc.prems Suc.IH [of "i + 1" "b[i := NULL]"] by (simp add: cf_mem segment_Cons)
qed

lemma retain_loop_correct:
  "idx + n \<le> length vs \<Longrightarrow> retain_loop f vs idx n =
    Some (map (cb_fun f) (segment vs idx n), map Retained (segment vs idx n))"
proof (induction n arbitrary: idx)
  case 0
  then show ?case by (simp add: segment_def)
next
  case (Suc n)
  then show ?case by (simp add: cf_mem segment_Cons)
qed

lemma repositioned_new_segment:
  assumes "repositioned src L A B C newCount d" "length vs = newCount" and that: "L + A + B + C \<le> length src"
  shows "segment (put_segment (dq_buckets d) (dq_leftIdx d + A) vs) (dq_leftIdx d) (A + newCount + C) =
    segment src L A @ vs @ segment src (L + A + B) C"
    (is "?l = ?r")
proof (rule nth_equalityI)
  have len: "length (dq_buckets d) = dq_capacity d" "dq_leftIdx d + (A + newCount + C) \<le> dq_capacity d"
    using assms(1) by (auto simp: repositioned_def deque_wf_def)
  then show "length ?l = length ?r" using assms(2) that by simp
  fix i
  assume "i < length ?l"
  then have i: "i < A + newCount + C" using len assms(2) by simp
  consider "i < A" | "A \<le> i" "i < A + newCount" | j where "i = A + newCount + j" "j < C"
    using i by (metis add_diff_inverse_nat nat_add_left_cancel_less not_less)
  then show "?l ! i = ?r ! i"
  proof cases
    case 1
    then show ?thesis using assms len that by (simp add: nth_put_segment nth_append repositioned_def)
  next
    case 2
    then show ?thesis using assms len that by (auto simp: nth_put_segment nth_append)
  next
    case 3
    then have "dq_buckets d ! (dq_leftIdx d + A + newCount + j) = src ! (L + A + B + j)"
      using assms(1) by (simp add: repositioned_def)
    then show ?thesis
      using 3 assms(2) len that by (simp add: nth_put_segment nth_append add.assoc)
  qed
qed

lemma ReleaseValues_correct:
  assumes "array_wf array" "ar_store array = Some d" "A + B \<le> ar_count array" "0 < B"
  shows "CFArrayReleaseValues array (CFRangeMake A B) False = Some (array\<lparr>
    ar_store := Some (d\<lparr>dq_buckets := put_segment (dq_buckets d) (dq_leftIdx d + A) (replicate B NULL)\<rparr>),
    ar_trace := ar_trace array @ release_events array (segment (dq_buckets d) (dq_leftIdx d + A) B)\<rparr>)"
proof -
  have "dq_leftIdx d + A + B \<le> length (dq_buckets d)"
    using assms(1-3) by (auto simp: array_wf_def deque_wf_def)
  then show ?thesis
    using assms by (auto simp: CFArrayReleaseValues_def Let_def array_wf_def release_range_correct
        release_events_def kCFArrayDeque_def kCFArrayImmutable_def)
qed

definition array_left :: "CFArray \<Rightarrow> nat" where
  "array_left array = (case ar_store array of None \<Rightarrow> 0 | Some d \<Rightarrow> dq_leftIdx d)"

definition array_block :: "CFArray \<Rightarrow> ptr list" where
  "array_block array = (case ar_store array of None \<Rightarrow> [] | Some d \<Rightarrow> dq_buckets d)"

lemma array_list_block:
  "array_wf array \<Longrightarrow> array_list array = segment (array_block array) (array_left array) (ar_count array)"
  "array_wf array \<Longrightarrow> array_left array + ar_count array \<le> length (array_block array)"
  by (auto simp: array_wf_def deque_wf_def array_list_def deque_list_def array_block_def array_left_def
      segment_def split: option.splits)

lemma block_update [simp]:
  "array_block (array\<lparr>ar_trace := t\<rparr>) = array_block array" "array_left (array\<lparr>ar_trace := t\<rparr>) = array_left array"
  "array_block (array\<lparr>ar_mutations := m\<rparr>) = array_block array"
  "array_left (array\<lparr>ar_mutations := m\<rparr>) = array_left array"
  "array_block (array\<lparr>ar_store := Some d\<rparr>) = dq_buckets d" "array_left (array\<lparr>ar_store := Some d\<rparr>) = dq_leftIdx d"
  by (simp_all add: array_block_def array_left_def)

text \<open>The third step of \<open>_CFArrayReplaceValues\<close>: storage for the new values.\<close>

lemma make_room:
  assumes "array_wf array" "A + B \<le> ar_count array" "array_room array newCount"
  shows "\<exists>d. (case ar_store array of
               None \<Rightarrow>
                 (let capacity = CFArrayDequeRoundUpCapacity (ar_count array - B + newCount) in
                  if capacity \<le> 0 then None
                  else do { leftIdx \<leftarrow> pos ((capacity - int newCount) div 2);
                            Some (array\<lparr>ar_store := Some \<lparr>dq_leftIdx = leftIdx, dq_capacity = nat capacity,
                              dq_buckets = map garbage [0..<nat capacity]\<rparr>\<rparr>) })
             | Some _ \<Rightarrow>
                 if B \<noteq> newCount then CFArrayRepositionDequeRegions garbage array (CFRangeMake A B) newCount
                 else Some array) = Some (array\<lparr>ar_store := Some d\<rparr>) \<and>
    repositioned (array_block array) (array_left array) A B (ar_count array - A - B) newCount d"
proof (cases "ar_store array")
  case None
  then have zero: "ar_count array = 0" "A = 0" "B = 0" using assms(1,2) by (auto simp: array_wf_def)
  have "newCount < 2 ^ 30" using assms(3) by (simp add: array_room_def)
  note b = RoundUp_bounds [OF this]
  obtain cap where cap: "CFArrayDequeRoundUpCapacity newCount = int cap"
    using b(3) by (metis nat_0_le order_less_imp_le)
  have l: "(int cap - int newCount) div 2 = int ((cap - newCount) div 2)"
    using b(1) cap by (simp add: of_nat_diff zdiv_int)
  have "deque_wf \<lparr>dq_leftIdx = (cap - newCount) div 2, dq_capacity = cap, dq_buckets = map garbage [0..<cap]\<rparr> newCount"
    using b cap by (simp add: deque_wf_def)
  then show ?thesis
    using None b(3) zero cap
    by (intro exI [of _ "\<lparr>dq_leftIdx = (cap - newCount) div 2, dq_capacity = cap,
        dq_buckets = map garbage [0..<cap]\<rparr>"]) (simp add: l repositioned_def array_block_def array_left_def)
next
  case (Some d)
  then have wf: "deque_wf d (ar_count array)" using assms(1) by (simp add: array_wf_def)
  show ?thesis
  proof (cases "B = newCount")
    case True
    have "repositioned (dq_buckets d) (dq_leftIdx d) A B (ar_count array - A - B) newCount d"
      using wf assms(2) True by (simp add: repositioned_def)
    moreover have "array\<lparr>ar_store := Some d\<rparr> = array" using Some by simp
    ultimately show ?thesis using Some True by (intro exI [of _ d]) (simp add: array_block_def array_left_def)
  next
    case False
    have "A + B + (ar_count array - A - B) = ar_count array" using assms(2) by simp
    then obtain d' where "CFArrayRepositionDequeRegions garbage array (CFRangeMake A B) newCount =
        Some (array\<lparr>ar_store := Some d'\<rparr>)"
      "repositioned (dq_buckets d) (dq_leftIdx d) A B (ar_count array - A - B) newCount d'"
      using Reposition_correct [OF assms(1) Some _ assms(3)] by blast
    then show ?thesis using Some False by (intro exI [of _ d']) (simp add: array_block_def array_left_def)
  qed
qed

text \<open>The first step: the values to store, and the calls of \<open>retain\<close>.\<close>

lemma retain_step:
  assumes "array_wf array" "newCount \<le> length newValues"
  shows "\<exists>newv. (case ac_retain (CFArrayGetCallBacks array) of
      Some f \<Rightarrow> if \<not> hasBeenFinalized array then retain_loop f newValues 0 newCount else Some (newValues, [])
    | None \<Rightarrow> Some (newValues, [])) = Some (newv, retain_events array (take newCount newValues)) \<and>
    newCount \<le> length newv \<and> take newCount newv = map (array_stored array) (take newCount newValues)"
  using assms by (auto simp: array_wf_def retain_loop_correct retain_events_def array_stored_def [abs_def] segment_def
      split: option.split)

text \<open>The second step: the old values are released, their buckets cleared.\<close>

definition released :: "CFArray \<Rightarrow> nat \<Rightarrow> nat \<Rightarrow> CFArray \<Rightarrow> bool" where
  "released array A B array' \<longleftrightarrow> array_wf array' \<and> array_settings array' = array_settings array \<and>
     ar_count array' = ar_count array \<and> ar_mutations array' = ar_mutations array \<and>
     ar_trace array' = ar_trace array @ release_events array (segment (array_list array) A B) \<and>
     array_left array' = array_left array \<and> length (array_block array') = length (array_block array) \<and>
     (\<forall>i < length (array_block array). i < array_left array + A \<or> array_left array + A + B \<le> i \<longrightarrow>
        array_block array' ! i = array_block array ! i)"

lemma segment_segment: "i + m \<le> n \<Longrightarrow> off + n \<le> length xs \<Longrightarrow> segment (segment xs off n) i m = segment xs (off + i) m"
  by (intro nth_equalityI) (auto simp: add.assoc)

lemma release_step:
  assumes "array_wf array" "A + B \<le> ar_count array"
  shows "\<exists>array'. (if 0 < B then CFArrayReleaseValues array (CFRangeMake A B) False else Some array) = Some array' \<and>
    released array A B array'"
proof (cases "B = 0")
  case True
  then show ?thesis using assms by (simp add: released_def release_events_def segment_def)
next
  case False
  then obtain d where d: "ar_store array = Some d" "deque_wf d (ar_count array)"
    using assms by (auto simp: array_wf_def split: option.splits)
  let ?b = "put_segment (dq_buckets d) (dq_leftIdx d + A) (replicate B NULL)"
  let ?a = "array\<lparr>ar_store := Some (d\<lparr>dq_buckets := ?b\<rparr>),
    ar_trace := ar_trace array @ release_events array (segment (dq_buckets d) (dq_leftIdx d + A) B)\<rparr>"
  have len: "dq_leftIdx d + A + B \<le> length (dq_buckets d)" "dq_leftIdx d + ar_count array \<le> length (dq_buckets d)"
    using d(2) assms(2) by (auto simp: deque_wf_def)
  have "segment (array_list array) A B = segment (dq_buckets d) (dq_leftIdx d + A) B"
    using d(1) len assms(2) by (simp add: array_list_def deque_list_def segment_segment)
  moreover have "array_wf ?a"
    using assms(1) d len(1) by (simp add: array_wf_def deque_wf_def)
  moreover have "\<forall>i < length (dq_buckets d). i < dq_leftIdx d + A \<or> dq_leftIdx d + A + B \<le> i \<longrightarrow> ?b ! i = dq_buckets d ! i"
    using len(1) by (simp add: nth_put_segment)
  ultimately have "released array A B ?a"
    using len(1) d(1) by (simp add: released_def array_block_def array_left_def)
  then show ?thesis
    using ReleaseValues_correct [OF assms(1) d(1) assms(2)] False by simp
qed

text \<open>The last step: the new values are written, the count adjusted.\<close>

lemma write_step:
  assumes "array_wf array" "A + B \<le> ar_count array" "newCount \<le> length newv"
    and d: "repositioned src L A B (ar_count array - A - B) newCount d"
  shows "\<exists>d'. (if 0 < newCount
      then do { deque \<leftarrow> ar_store (array\<lparr>ar_store := Some d\<rparr>);
                b \<leftarrow> memmove (dq_buckets deque) (dq_leftIdx deque + A) newv 0 newCount;
                Some (array\<lparr>ar_store := Some d, ar_store := Some (deque\<lparr>dq_buckets := b\<rparr>)\<rparr>) }
      else Some (array\<lparr>ar_store := Some d\<rparr>)) = Some (array\<lparr>ar_store := Some d'\<rparr>) \<and>
    deque_wf d' (ar_count array - B + newCount) \<and> dq_leftIdx d' = dq_leftIdx d \<and>
    dq_buckets d' = put_segment (dq_buckets d) (dq_leftIdx d + A) (take newCount newv)"
proof -
  let ?b = "put_segment (dq_buckets d) (dq_leftIdx d + A) (take newCount newv)"
  have count: "A + newCount + (ar_count array - A - B) = ar_count array - B + newCount" using assms(2) by simp
  have wf: "deque_wf d (ar_count array - B + newCount)"
    using d unfolding repositioned_def count by simp
  then have fits: "dq_leftIdx d + A + newCount \<le> length (dq_buckets d)"
    using assms(2) by (auto simp: deque_wf_def)
  have wf': "deque_wf (d\<lparr>dq_buckets := ?b\<rparr>) (ar_count array - B + newCount)"
    using wf fits assms(3) by (simp add: deque_wf_def)
  show ?thesis
  proof (cases "newCount = 0")
    case True
    then have "?b = dq_buckets d" by (simp add: put_segment_def)
    then show ?thesis using wf True by (intro exI [of _ d]) simp
  next
    case False
    have "memmove (dq_buckets d) (dq_leftIdx d + A) newv 0 newCount = Some ?b"
      using fits assms(3) by (simp add: cf_mem put_segment_def min_def)
    then show ?thesis using False wf' by (intro exI [of _ "d\<lparr>dq_buckets := ?b\<rparr>"]) simp
  qed
qed

lemma Replace_correct:
  assumes wf: "array_wf array" and le: "A + B \<le> ar_count array"
    and room: "array_room array newCount" and len: "newCount \<le> length newValues"
  shows "\<exists>array'. CFArrayReplaceValues garbage array (CFRangeMake A B) newValues newCount = Some array' \<and>
    replaced array A B (take newCount newValues) array'"
proof -
  let ?vs = "take newCount newValues" and ?C = "ar_count array - A - B"
  obtain newv where newv: "(case ac_retain (CFArrayGetCallBacks array) of
        Some f \<Rightarrow> if \<not> hasBeenFinalized array then retain_loop f newValues 0 newCount else Some (newValues, [])
      | None \<Rightarrow> Some (newValues, [])) = Some (newv, retain_events array ?vs)"
    "newCount \<le> length newv" "take newCount newv = map (array_stored array) ?vs"
    using retain_step [OF wf len] by blast
  let ?a = "array\<lparr>ar_trace := ar_trace array @ retain_events array ?vs, ar_mutations := ar_mutations array + 1\<rparr>"
  have wfa: "array_wf ?a" "A + B \<le> ar_count ?a" "array_list ?a = array_list array"
    using wf le by (auto simp: array_wf_def array_list_def split: option.split)
  obtain b where b: "(if 0 < B then CFArrayReleaseValues ?a (CFRangeMake A B) False else Some ?a) = Some b"
    "released ?a A B b"
    using release_step [OF wfa(1,2)] by blast
  have wfb: "array_wf b" "ar_count b = ar_count array" "array_settings b = array_settings array"
    "array_left b = array_left array" "length (array_block b) = length (array_block array)"
    using b(2) by (simp_all add: released_def)
  have leb: "A + B \<le> ar_count b" "array_room b newCount" using le room wfb(2) by (simp_all add: array_room_def)
  note bounds = array_list_block(2) [OF wf]
  obtain d where d: "(case ar_store b of
        None \<Rightarrow>
          (let capacity = CFArrayDequeRoundUpCapacity (ar_count array - B + newCount) in
           if capacity \<le> 0 then None
           else do { leftIdx \<leftarrow> pos ((capacity - int newCount) div 2);
                     Some (b\<lparr>ar_store := Some \<lparr>dq_leftIdx = leftIdx, dq_capacity = nat capacity,
                       dq_buckets = map garbage [0..<nat capacity]\<rparr>\<rparr>) })
      | Some _ \<Rightarrow>
          if B \<noteq> newCount then CFArrayRepositionDequeRegions garbage b (CFRangeMake A B) newCount
          else Some b) = Some (b\<lparr>ar_store := Some d\<rparr>)"
    "repositioned (array_block b) (array_left array) A B ?C newCount d"
    using make_room [OF wfb(1) leb, of garbage] unfolding wfb(2,4) by blast
  obtain d' where d': "(if 0 < newCount
      then do { deque \<leftarrow> ar_store (b\<lparr>ar_store := Some d\<rparr>);
                bs \<leftarrow> memmove (dq_buckets deque) (dq_leftIdx deque + A) newv 0 newCount;
                Some (b\<lparr>ar_store := Some d, ar_store := Some (deque\<lparr>dq_buckets := bs\<rparr>)\<rparr>) }
      else Some (b\<lparr>ar_store := Some d\<rparr>)) = Some (b\<lparr>ar_store := Some d'\<rparr>)"
    "deque_wf d' (ar_count array - B + newCount)" "dq_leftIdx d' = dq_leftIdx d"
    "dq_buckets d' = put_segment (dq_buckets d) (dq_leftIdx d + A) (take newCount newv)"
    using write_step [OF wfb(1) leb(1) newv(2), of "array_block b" "array_left array" d] d(2)
    unfolding wfb(2) by blast
  let ?L = "array_left array" and ?f = "ar_count array - B + newCount"
  let ?r = "b\<lparr>ar_store := Some d', ar_count := ?f\<rparr>"
  have count: "A + newCount + ?C = ?f" using le by simp
  have fit: "?L + A + B + ?C \<le> length (array_block b)" using bounds le wfb(5) by simp
  have "array_list ?r = segment (array_block b) ?L A @ take newCount newv @ segment (array_block b) (?L + A + B) ?C"
    using repositioned_new_segment [OF d(2) _ fit, of "take newCount newv"] newv(2) d'(3,4)
    unfolding count by (simp add: array_list_def deque_list_def)
  also have "segment (array_block b) ?L A = take A (array_list array)"
    using b(2) bounds le wfb(5) unfolding array_list_block(1) [OF wf]
    by (intro nth_equalityI) (auto simp: released_def)
  also have "segment (array_block b) (?L + A + B) ?C = drop (A + B) (array_list array)"
    using b(2) bounds le wfb(5) unfolding array_list_block(1) [OF wf]
    by (intro nth_equalityI) (auto simp: released_def add.assoc)
  finally have list: "array_list ?r =
      take A (array_list array) @ map (array_stored array) ?vs @ drop (A + B) (array_list array)"
    using newv(3) by simp
  have "array_wf ?r" using wfb(1,3) d'(2) by (simp add: array_wf_def)
  moreover have "ar_trace ?r = ar_trace array @ retain_events array ?vs @ release_events array (segment (array_list array) A B)"
    using b(2) by (simp add: released_def wfa(3) release_events_def)
  ultimately have "replaced array A B ?vs ?r"
    using list b(2) by (simp add: replaced_def released_def)
  moreover have "CFArrayReplaceValues garbage array (CFRangeMake A B) newValues newCount = Some ?r"
    using b(1) d(1) d'(1)
    by (simp only: CFArrayReplaceValues_def Let_def CFRangeMake_sel newv(1) bind.bind_lunit prod.case)
  ultimately show ?thesis by blast
qed

subsection \<open>The mutators\<close>

lemma replaced_count: "replaced array A B vs array' \<Longrightarrow> array_wf array \<Longrightarrow> A + B \<le> ar_count array \<Longrightarrow>
    ar_count array' = ar_count array - B + length vs"
  using length_array_list [of array] length_array_list [of array'] by (simp add: replaced_def)

lemma array_wf_bucket:
  assumes "array_wf array" "i < ar_count array"
  shows "\<exists>d. ar_store array = Some d \<and> deque_wf d (ar_count array) \<and> dq_leftIdx d + i < length (dq_buckets d) \<and>
    array_list array ! i = dq_buckets d ! (dq_leftIdx d + i) \<and>
    CFArrayGetBucketsPtr array = Some (dq_buckets d, dq_leftIdx d)"
  using assms
  by (auto simp: array_wf_def array_list_def deque_list_def deque_wf_def CFArrayGetBucketsPtr_def
      kCFArrayDeque_def kCFArrayImmutable_def split: option.splits)

lemma set_buckets_deque:
  assumes "array_wf array" "ar_store array = Some d" "length b = length (dq_buckets d)"
  shows "array_wf (set_buckets array b)" "array_list (set_buckets array b) = segment b (dq_leftIdx d) (ar_count array)"
    "array_settings (set_buckets array b) = array_settings array" "ar_trace (set_buckets array b) = ar_trace array"
    "ar_mutations (set_buckets array b) = ar_mutations array" "ar_count (set_buckets array b) = ar_count array"
  using assms
  by (auto simp: array_wf_def set_buckets_def deque_wf_def array_list_def deque_list_def
      kCFArrayDeque_def kCFArrayImmutable_def)

lemma segment_update:
  "off + n \<le> length b \<Longrightarrow> i < n \<Longrightarrow> segment (b[off + i := v]) off n = (segment b off n)[i := v]"
  by (intro nth_equalityI) (auto simp: nth_list_update)

lemma SetValue_correct:
  assumes wf: "array_wf array" and i: "i < ar_count array"
  shows "\<exists>array'. CFArraySetValueAtIndex garbage array i v = Some array' \<and> replaced array i 1 [v] array'"
proof -
  obtain d where d: "ar_store array = Some d" "deque_wf d (ar_count array)"
    "dq_leftIdx d + i < length (dq_buckets d)" "array_list array ! i = dq_buckets d ! (dq_leftIdx d + i)"
    "CFArrayGetBucketsPtr array = Some (dq_buckets d, dq_leftIdx d)"
    using array_wf_bucket [OF wf i] by blast
  let ?v = "array_stored array v"
  let ?b = "(dq_buckets d)[dq_leftIdx d + i := ?v]" and ?a = "set_buckets array ((dq_buckets d)[dq_leftIdx d + i := array_stored array v])"
  let ?es = "retain_events array [v] @ release_events array [array_list array ! i]"
  let ?r = "?a\<lparr>ar_trace := ar_trace ?a @ ?es, ar_mutations := ar_mutations ?a + 1\<rparr>"
  note set = set_buckets_deque [OF wf d(1), of ?b, simplified]
  have len: "dq_leftIdx d + ar_count array \<le> length (dq_buckets d)" using d(2) by (simp add: deque_wf_def)
  have "CFArraySetValueAtIndex garbage array i v = Some ?r"
    using wf i d set(4,5)
    by (auto simp: CFArraySetValueAtIndex_def array_wf_def cf_mem array_stored_def retain_events_def
        release_events_def Let_def)
  moreover have "array_list ?r = take i (array_list array) @ map (array_stored array) [v] @ drop (i + 1) (array_list array)"
  proof -
    have "array_list ?r = (array_list array)[i := ?v]"
      using set(2) segment_update [OF len i] d(1) array_list_block(1) [OF wf]
      by (simp add: array_block_def array_left_def)
    then show ?thesis using i length_array_list [OF wf] by (simp add: upd_conv_take_nth_drop)
  qed
  moreover have "segment (array_list array) i 1 = [array_list array ! i]"
    using i length_array_list [OF wf] by (simp add: segment_def take_Suc_drop [of i 0, simplified])
  ultimately show ?thesis using set by (simp add: replaced_def)
qed

lemma RemoveAll_correct:
  assumes wf: "array_wf array"
  shows "\<exists>array'. CFArrayRemoveAllValues array = Some array' \<and> replaced array 0 (ar_count array) [] array'"
proof (cases "ar_store array")
  case None
  then show ?thesis
    using wf by (auto simp: CFArrayRemoveAllValues_def CFArrayReleaseValues_def array_wf_def replaced_def
        array_list_def retain_events_def release_events_def segment_def kCFArrayDeque_def
        kCFArrayImmutable_def array_settings_def Let_def)
next
  case (Some d)
  then have len: "dq_leftIdx d + ar_count array \<le> length (dq_buckets d)"
    using wf by (simp add: array_wf_def deque_wf_def)
  then have "array_list array = segment (dq_buckets d) (dq_leftIdx d) (ar_count array)"
    using Some by (simp add: array_list_def deque_list_def)
  then show ?thesis
    using wf Some len release_range_correct [OF len, of True] release_range_correct [OF len, of False]
    by (auto simp: CFArrayRemoveAllValues_def CFArrayReleaseValues_def array_wf_def replaced_def
        retain_events_def release_events_def kCFArrayDeque_def segment_segment array_list_def
        kCFArrayImmutable_def array_settings_def Let_def)
qed

lemma Exchange_correct:
  assumes wf: "array_wf array" and i: "i < ar_count array" "j < ar_count array"
  shows "\<exists>array'. CFArrayExchangeValuesAtIndices array i j = Some array' \<and> array_wf array' \<and>
    array_list array' = (array_list array)[i := array_list array ! j, j := array_list array ! i] \<and>
    ar_trace array' = ar_trace array \<and> array_settings array' = array_settings array \<and>
    ar_count array' = ar_count array"
proof -
  obtain d where d: "ar_store array = Some d" "deque_wf d (ar_count array)"
    "dq_leftIdx d + i < length (dq_buckets d)" "array_list array ! i = dq_buckets d ! (dq_leftIdx d + i)"
    "CFArrayGetBucketsPtr array = Some (dq_buckets d, dq_leftIdx d)"
    using array_wf_bucket [OF wf i(1)] by blast
  have dj: "dq_leftIdx d + j < length (dq_buckets d)" "array_list array ! j = dq_buckets d ! (dq_leftIdx d + j)"
    using array_wf_bucket [OF wf i(2)] d(1) by auto
  let ?b = "(dq_buckets d)[dq_leftIdx d + i := array_list array ! j, dq_leftIdx d + j := array_list array ! i]"
  have len: "dq_leftIdx d + ar_count array \<le> length (dq_buckets d)" using d(2) by (simp add: deque_wf_def)
  have "segment ?b (dq_leftIdx d) (ar_count array) =
      (array_list array)[i := array_list array ! j, j := array_list array ! i]"
    using segment_update [OF _ i(2), of "dq_leftIdx d" "(dq_buckets d)[dq_leftIdx d + i := array_list array ! j]"]
      segment_update [OF len i(1)] len d(1) array_list_block(1) [OF wf]
    by (simp add: array_block_def array_left_def)
  then show ?thesis
    using d dj set_buckets_deque [OF wf d(1), of ?b]
    by (simp add: CFArrayExchangeValuesAtIndices_def cf_mem)
qed

subsection \<open>Queries\<close>

text \<open>What both kinds of array hold.\<close>

definition array_ok :: "CFArray \<Rightarrow> bool" where
  "array_ok array \<longleftrightarrow> array_wf array \<or>
     (CFArrayGetType array = kCFArrayImmutable \<and> ar_count array \<le> length (ar_inline array))"

definition array_contents :: "CFArray \<Rightarrow> ptr list" where
  "array_contents array = (if CFArrayGetType array = kCFArrayImmutable then take (ar_count array) (ar_inline array)
     else array_list array)"

lemma length_array_contents [simp]: "array_ok array \<Longrightarrow> length (array_contents array) = ar_count array"
  using length_array_list [of array]
  by (auto simp: array_ok_def array_contents_def array_wf_def kCFArrayDeque_def kCFArrayImmutable_def)

lemma contents_wf: "array_wf array \<Longrightarrow> array_ok array \<and> array_contents array = array_list array"
  by (auto simp: array_ok_def array_contents_def array_wf_def kCFArrayDeque_def kCFArrayImmutable_def)

lemma array_get [cf_mem]:
  assumes "array_ok array" "i < ar_count array"
  shows "CFArrayGetValueAtIndex array i = Some (array_contents array ! i)"
    "CFArrayGetBucketAtIndex array i = Some (array_contents array ! i)"
proof -
  show "CFArrayGetBucketAtIndex array i = Some (array_contents array ! i)"
  proof (cases "array_wf array")
    case True
    then show ?thesis
      using array_wf_bucket [OF True assms(2)] contents_wf [OF True]
      by (auto simp: CFArrayGetBucketAtIndex_def cf_mem)
  next
    case False
    then show ?thesis
      using assms by (auto simp: array_ok_def CFArrayGetBucketAtIndex_def CFArrayGetBucketsPtr_def
          array_contents_def cf_mem)
  qed
  then show "CFArrayGetValueAtIndex array i = Some (array_contents array ! i)"
    by (simp add: CFArrayGetValueAtIndex_def)
qed

lemma array_apply_loop_correct:
  "array_ok array \<Longrightarrow> i + n \<le> ar_count array \<Longrightarrow>
    array_apply_loop array i n = Some (segment (array_contents array) i n)"
proof (induction n arbitrary: i)
  case 0
  then show ?case by (simp add: segment_def)
next
  case (Suc n)
  then show ?case by (simp add: cf_mem segment_Cons)
qed

lemma array_count_loop_correct:
  "array_ok array \<Longrightarrow> i + n \<le> ar_count array \<Longrightarrow>
    array_count_loop array v i n c = Some (c +
      length (filter (item_matches (CFArrayGetCallBacks array) v) (segment (array_contents array) i n)))"
proof (induction n arbitrary: i c)
  case 0
  then show ?case by (simp add: segment_def)
next
  case (Suc n)
  then show ?case by (simp add: cf_mem segment_Cons)
qed

lemma GetValues_correct:
  assumes "array_ok array" "i + n \<le> ar_count array"
  shows "CFArrayGetValues array (CFRangeMake i n) = Some (segment (array_contents array) i n)"
proof (cases "n = 0")
  case True
  then show ?thesis by (simp add: CFArrayGetValues_def segment_def)
next
  case False
  show ?thesis
  proof (cases "array_wf array")
    case True
    have "i < ar_count array" using assms(2) False by simp
    then obtain d where "ar_store array = Some d" "deque_wf d (ar_count array)"
      "CFArrayGetBucketsPtr array = Some (dq_buckets d, dq_leftIdx d)"
      using array_wf_bucket [OF True] by blast
    moreover have "array_contents array = segment (dq_buckets d) (dq_leftIdx d) (ar_count array)"
      using calculation contents_wf [OF True] by (simp add: array_list_def deque_list_def)
    ultimately show ?thesis
      using assms(2) False segment_segment [of i n "ar_count array" "dq_leftIdx d" "dq_buckets d"]
      by (simp add: CFArrayGetValues_def deque_wf_def cf_mem) (simp add: segment_def)
  next
    case wf: False
    then show ?thesis
      using assms False segment_segment [of i n "ar_count array" 0 "ar_inline array"]
      by (auto simp: array_ok_def CFArrayGetValues_def CFArrayGetBucketsPtr_def array_contents_def cf_mem segment_def)
  qed
qed

text \<open>The first and the last position of a match.\<close>

definition found :: "nat option \<Rightarrow> int" where
  "found r = (case r of None \<Rightarrow> kCFNotFound | Some k \<Rightarrow> int k)"

lemma array_find_loop_correct:
  "array_ok array \<Longrightarrow> i + n \<le> ar_count array \<Longrightarrow> array_find_loop array v i n =
    Some (found (find (\<lambda>k. item_matches (CFArrayGetCallBacks array) v (array_contents array ! k)) [i..<i + n]))"
proof (induction n arbitrary: i)
  case 0
  then show ?case by (simp add: found_def)
next
  case (Suc n)
  have "[i..<i + Suc n] = i # [i + 1..<i + 1 + n]" by (subst upt_conv_Cons) simp_all
  then show ?case using Suc by (simp add: cf_mem found_def del: upt_Suc)
qed

lemma array_find_last_loop_correct:
  "array_ok array \<Longrightarrow> i + n \<le> ar_count array \<Longrightarrow> array_find_last_loop array v i n =
    Some (found (find (\<lambda>k. item_matches (CFArrayGetCallBacks array) v (array_contents array ! k)) (rev [i..<i + n])))"
proof (induction n)
  case 0
  then show ?case by (simp add: found_def)
next
  case (Suc n)
  then show ?case by (simp add: cf_mem found_def)
qed

lemma array_equal_loop_correct:
  "array_ok a \<Longrightarrow> array_ok b \<Longrightarrow> i + n \<le> ar_count a \<Longrightarrow> i + n \<le> ar_count b \<Longrightarrow>
    array_equal_loop eq a b i n = Some (\<forall>k < n. array_contents a ! (i + k) = array_contents b ! (i + k) \<or>
      (case eq of None \<Rightarrow> False | Some f \<Rightarrow> cb_fun f (array_contents a ! (i + k)) (array_contents b ! (i + k))))"
proof (induction n arbitrary: i)
  case 0
  then show ?case by simp
next
  case (Suc n)
  show ?case
    using Suc.prems Suc.IH [of "i + 1"] by (cases eq) (simp_all add: cf_mem All_less_Suc2)
qed

subsection \<open>Creation and copies\<close>

lemma fill_loop_correct:
  "i + n \<le> length b \<Longrightarrow> i + n \<le> length vs \<Longrightarrow> fill_loop ret vs b i n =
    Some (put_segment b i (map (\<lambda>v. case ret of None \<Rightarrow> v | Some f \<Rightarrow> cb_fun f v) (segment vs i n)),
          if ret = None then [] else map Retained (segment vs i n))"
proof (induction n arbitrary: i b)
  case 0
  then show ?case by (simp add: put_segment_def segment_def)
next
  case (Suc n)
  let ?r = "\<lambda>v. case ret of None \<Rightarrow> v | Some f \<Rightarrow> cb_fun f v"
  have "put_segment (b[i := ?r (vs ! i)]) (i + 1) (map ?r (segment vs (i + 1) n)) =
      put_segment b i (map ?r (segment vs i (Suc n)))"
    using Suc.prems by (intro put_segmentI) (auto simp: nth_put_segment nth_list_update segment_Cons nth_Cons')
  then show ?case using Suc by (simp add: cf_mem segment_Cons)
qed

text \<open>The header byte that \<open>__CFArrayInit\<close> builds, for the three kinds of callbacks.\<close>

definition init_info :: "8 word \<Rightarrow> 32 word \<Rightarrow> 8 word" where
  "init_info flags t = CFBitfieldSetValue 0 6 0 (ucast (CFBitfieldSetValue (CFBitfieldSetValue flags 31 2 0) 3 2 t))"

lemma init_info_fields:
  "flags \<in> {0, 2} \<Longrightarrow> t \<in> {0, 1, 3} \<Longrightarrow>
    CFBitfieldGetValue (init_info flags t) 1 0 = ucast flags \<and> CFBitfieldGetValue (init_info flags t) 3 2 = t \<and>
    CFBitfieldGetValue (init_info flags t) 5 5 = 0 \<and>
    CFBitfieldGetValue (CFBitfieldSetValue (CFBitfieldSetValue flags 31 2 0) 3 2 t) 1 0 = ucast flags \<and>
    CFBitfieldGetValue (CFBitfieldSetValue (CFBitfieldSetValue flags 31 2 0) 3 2 t) 3 2 = t"
proof -
  have "\<forall>flags \<in> set [0, 2]. \<forall>t \<in> set [0, 1, 3].
    CFBitfieldGetValue (init_info flags t) 1 0 = ucast flags \<and> CFBitfieldGetValue (init_info flags t) 3 2 = t \<and>
    CFBitfieldGetValue (init_info flags t) 5 5 = 0 \<and>
    CFBitfieldGetValue (CFBitfieldSetValue (CFBitfieldSetValue flags 31 2 0) 3 2 t) 1 0 = ucast flags \<and>
    CFBitfieldGetValue (CFBitfieldSetValue (CFBitfieldSetValue flags 31 2 0) 3 2 t) 3 2 = t"
    by code_simp
  then show "flags \<in> {0, 2} \<Longrightarrow> t \<in> {0, 1, 3} \<Longrightarrow> ?thesis" unfolding list.set by blast
qed

text \<open>
  The callbacks a caller gives, as effective callbacks: NULL stands for none.  Two function pointers
  with the same address are the same function.
\<close>

definition given_callbacks :: "CFArrayCallBacks option \<Rightarrow> CFArrayCallBacks" where
  "given_callbacks c = (case c of None \<Rightarrow> kCFNullArrayCallBacks | Some c \<Rightarrow> c)"

definition consistent_callbacks :: "CFArrayCallBacks \<Rightarrow> CFArrayCallBacks \<Rightarrow> bool" where
  "consistent_callbacks cftype c \<longleftrightarrow> addrs c \<noteq> addrs cftype \<or> c = cftype"

lemma Init_correct:
  fixes array :: CFArray and capacity :: nat and garbage :: "nat \<Rightarrow> ptr"
  assumes "flags \<in> {0, 2}" "consistent_callbacks cftype (given_callbacks cb)"
  defines "array \<equiv> CFArrayInit cftype flags capacity cb garbage"
  shows "CFArrayGetType array = ucast flags" "\<not> hasBeenFinalized array"
    "CFArrayGetCallBacks array = given_callbacks cb" "ar_count array = 0" "ar_store array = None"
    "ar_trace array = []" "ar_cftype array = cftype"
    "ar_inline array = (if flags = 0 then map garbage [0..<capacity] else [])"
proof -
  define t where "t = (if CFArrayCallBacksMatchNull cb then kCFArrayHasNullCallBacks
    else if CFArrayCallBacksMatchCFType cftype (the cb) then kCFArrayHasCFTypeCallBacks else kCFArrayHasCustomCallBacks)"
  have t: "t \<in> {0, 1, 3}"
    by (simp add: t_def kCFArrayHasNullCallBacks_def kCFArrayHasCFTypeCallBacks_def kCFArrayHasCustomCallBacks_def)
  have info: "ar_cfinfo array = init_info flags t"
    by (simp add: array_def CFArrayInit_def Let_def init_info_def t_def)
  note fields = init_info_fields [OF assms(1) t]
  show "CFArrayGetType array = ucast flags" "\<not> hasBeenFinalized array"
    using fields info by (simp_all add: CFArrayGetType_def hasBeenFinalized_def)
  show "ar_count array = 0" "ar_store array = None" "ar_trace array = []" and cft: "ar_cftype array = cftype"
    by (simp_all add: array_def CFArrayInit_def Let_def)
  have "(ucast flags = kCFArrayImmutable) = (flags = 0)"
    using assms(1) by (auto simp: kCFArrayImmutable_def)
  then show "ar_inline array = (if flags = 0 then map garbage [0..<capacity] else [])"
    using fields by (simp add: array_def CFArrayInit_def Let_def t_def [symmetric])
  have "ar_custom array = (if t = kCFArrayHasCustomCallBacks then the cb else kCFNullArrayCallBacks)"
    using fields by (simp add: array_def CFArrayInit_def Let_def t_def [symmetric])
  then have cbs: "CFArrayGetCallBacks array = (if t = kCFArrayHasNullCallBacks then kCFNullArrayCallBacks
      else if t = kCFArrayHasCFTypeCallBacks then cftype else if t = kCFArrayHasCustomCallBacks then the cb
      else kCFNullArrayCallBacks)"
    using fields info cft by (simp add: CFArrayGetCallBacks_def Let_def)
  have kinds: "kCFArrayHasNullCallBacks \<noteq> kCFArrayHasCFTypeCallBacks"
    "kCFArrayHasCustomCallBacks \<noteq> kCFArrayHasCFTypeCallBacks" "kCFArrayHasCustomCallBacks \<noteq> kCFArrayHasNullCallBacks"
    by (simp_all add: kCFArrayHasNullCallBacks_def kCFArrayHasCFTypeCallBacks_def kCFArrayHasCustomCallBacks_def)
  show "CFArrayGetCallBacks array = given_callbacks cb"
  proof (cases cb)
    case None
    then show ?thesis using cbs by (simp add: t_def CFArrayCallBacksMatchNull_def given_callbacks_def)
  next
    case (Some c)
    have "addrs c = addrs kCFNullArrayCallBacks \<Longrightarrow> c = kCFNullArrayCallBacks"
      by (cases c) (simp add: addrs_def kCFNullArrayCallBacks_def)
    moreover have "addrs c = addrs cftype \<Longrightarrow> c = cftype"
      using assms(2) Some by (simp add: consistent_callbacks_def given_callbacks_def)
    ultimately show ?thesis
      using cbs kinds Some
      by (auto simp: t_def CFArrayCallBacksMatchNull_def CFArrayCallBacksMatchCFType_def given_callbacks_def)
  qed
qed

lemma Create_correct:
  assumes "consistent_callbacks cftype (given_callbacks cb)" "n \<le> length vs"
  shows "\<exists>array. CFArrayCreate cftype garbage vs n cb = Some array \<and> array_ok array \<and>
    CFArrayGetType array = kCFArrayImmutable \<and> CFArrayGetCallBacks array = given_callbacks cb \<and>
    array_contents array = map (array_stored array) (take n vs) \<and> ar_trace array = retain_events array (take n vs)"
proof -
  let ?a = "CFArrayInit cftype 0 n cb garbage"
  note init = Init_correct [of 0, OF _ assms(1), where capacity = n and garbage = garbage, simplified]
  let ?r = "\<lambda>v. case ac_retain (given_callbacks cb) of None \<Rightarrow> v | Some f \<Rightarrow> cb_fun f v"
  let ?b = "map ?r (take n vs)"
  have "fill_loop (ac_retain (CFArrayGetCallBacks ?a)) vs (ar_inline ?a) 0 n =
      Some (?b, if ac_retain (given_callbacks cb) = None then [] else map Retained (take n vs))"
    using assms(2) init by (simp add: fill_loop_correct put_segment_def segment_def)
  then have "CFArrayCreate cftype garbage vs n cb = Some (?a\<lparr>ar_inline := ?b, ar_count := n,
      ar_trace := if ac_retain (given_callbacks cb) = None then [] else map Retained (take n vs)\<rparr>)"
    by (simp add: CFArrayCreate_def Let_def)
  moreover have "CFArrayGetCallBacks (?a\<lparr>ar_inline := b, ar_count := c, ar_trace := t\<rparr>) = given_callbacks cb" for b c t
    using init(3) by simp
  moreover have "CFArrayGetType (?a\<lparr>ar_inline := b, ar_count := c, ar_trace := t\<rparr>) = kCFArrayImmutable" for b c t
    using init(1) by (simp add: kCFArrayImmutable_def)
  ultimately show ?thesis
    using assms(2) by (simp add: array_ok_def array_contents_def retain_events_def array_stored_def [abs_def])
qed

lemma CreateCopy_correct:
  assumes "array_ok array" "consistent_callbacks cftype (CFArrayGetCallBacks array)"
  shows "\<exists>copy. CFArrayCreateCopy cftype garbage array = Some copy \<and> array_ok copy \<and>
    CFArrayGetType copy = kCFArrayImmutable \<and> CFArrayGetCallBacks copy = CFArrayGetCallBacks array \<and>
    array_contents copy = map (array_stored array) (array_contents array)"
proof -
  let ?n = "ar_count array" and ?cb = "CFArrayGetCallBacks array"
  have "segment (array_contents array) 0 ?n = array_contents array"
    using assms(1) by (simp add: segment_def)
  then have "CFArrayCreateCopy cftype garbage array = CFArrayCreate cftype garbage (array_contents array) ?n (Some ?cb)"
    using array_apply_loop_correct [OF assms(1), of 0 ?n]
    by (simp add: CFArrayCreateCopy_def CFArrayCreate_def CFArrayGetCount_def Let_def)
  moreover have "\<exists>copy. CFArrayCreate cftype garbage (array_contents array) ?n (Some ?cb) = Some copy \<and> array_ok copy \<and>
      CFArrayGetType copy = kCFArrayImmutable \<and> CFArrayGetCallBacks copy = given_callbacks (Some ?cb) \<and>
      array_contents copy = map (array_stored copy) (take ?n (array_contents array)) \<and>
      ar_trace copy = retain_events copy (take ?n (array_contents array))"
    using assms by (intro Create_correct) (simp_all add: given_callbacks_def)
  ultimately show ?thesis
    using assms(1) by (auto simp: given_callbacks_def array_stored_def [abs_def])
qed

lemma Append_correct:
  assumes "array_wf array" "array_room array 1"
  shows "\<exists>array'. CFArrayAppendValue garbage array v = Some array' \<and> replaced array (ar_count array) 0 [v] array'"
  using Replace_correct [OF assms(1) _ assms(2), of "ar_count array" 0 "[v]" garbage]
  by (simp add: CFArrayAppendValue_def)

definition appended :: "CFArray \<Rightarrow> ptr list \<Rightarrow> CFArray \<Rightarrow> bool" where
  "appended array vs array' \<longleftrightarrow> array_wf array' \<and>
     array_list array' = array_list array @ map (array_stored array) vs \<and>
     ar_trace array' = ar_trace array @ retain_events array vs \<and> array_settings array' = array_settings array"

lemma append_loop_correct:
  "array_wf array \<Longrightarrow> array_ok other \<Longrightarrow> i + n \<le> ar_count other \<Longrightarrow> array_room array n \<Longrightarrow>
    \<exists>array'. append_loop garbage array other i n = Some array' \<and>
      appended array (segment (array_contents other) i n) array'"
proof (induction n arbitrary: array i)
  case 0
  then show ?case by (simp add: appended_def segment_def retain_events_def)
next
  case (Suc n)
  let ?v = "array_contents other ! i"
  have get: "CFArrayGetValueAtIndex other i = Some ?v" using Suc.prems by (simp add: cf_mem)
  have "array_room array 1" using Suc.prems(4) by (simp add: array_room_def)
  then obtain a where a: "CFArrayAppendValue garbage array ?v = Some a" "replaced array (ar_count array) 0 [?v] a"
    using Append_correct [OF Suc.prems(1)] by blast
  have cnt: "ar_count a = ar_count array + 1"
    using replaced_count [OF a(2) Suc.prems(1)] by simp
  have "array_wf a" "array_settings a = array_settings array" using a(2) by (simp_all add: replaced_def)
  moreover have "array_room a n" using cnt Suc.prems(4) by (simp add: array_room_def)
  ultimately obtain b where b: "append_loop garbage a other (i + 1) n = Some b"
    "appended a (segment (array_contents other) (i + 1) n) b"
    using Suc.IH [of a "i + 1"] Suc.prems(2,3) by auto
  have same: "array_stored a = array_stored array" "retain_events a = retain_events array"
    using settings_cong(2) [OF \<open>array_settings a = array_settings array\<close>]
    by (simp_all add: array_stored_def retain_events_def fun_eq_iff)
  have seg: "segment (array_contents other) i (Suc n) = ?v # segment (array_contents other) (i + 1) n"
    using Suc.prems(2,3) by (simp add: segment_Cons)
  have "appended array (segment (array_contents other) i (Suc n)) b"
    using a(2) b(2) same length_array_list [OF Suc.prems(1)] unfolding seg
    by (auto simp: appended_def replaced_def release_events_def retain_events_def segment_def)
  then show ?case using get a(1) b(1) by simp
qed

lemma MutableCopy_correct:
  assumes "array_ok array" "consistent_callbacks cftype (CFArrayGetCallBacks array)"
    and "ar_count array + 2 ^ 13 < 2 ^ 30"
  shows "\<exists>copy. CFArrayCreateMutableCopy cftype garbage capacity array = Some copy \<and> array_wf copy \<and>
    CFArrayGetCallBacks copy = CFArrayGetCallBacks array \<and>
    array_list copy = map (array_stored array) (array_contents array)"
proof -
  let ?n = "ar_count array" and ?cb = "CFArrayGetCallBacks array"
  define a where "a = CFArrayInit cftype 2 capacity (Some ?cb) (\<lambda>_. NULL)"
  have cons: "consistent_callbacks cftype (given_callbacks (Some ?cb))" using assms(2) by (simp add: given_callbacks_def)
  have init: "CFArrayGetType a = kCFArrayDeque" "\<not> hasBeenFinalized a" "CFArrayGetCallBacks a = ?cb"
    "ar_count a = 0" "ar_store a = None"
    using Init_correct [of 2, OF _ cons, where capacity = capacity and garbage = "\<lambda>_. NULL"]
    by (simp_all add: a_def given_callbacks_def kCFArrayDeque_def)
  note b = RoundUp_bounds [of ?n]
  have "\<exists>s. (if 0 = capacity then CFArraySetCapacity garbage a ?n else Some a) = Some s \<and> array_wf s \<and>
      array_settings s = array_settings a \<and> array_list s = [] \<and> ar_count s = 0"
  proof (cases "capacity = 0")
    case True
    have "nat (CFArrayDequeRoundUpCapacity ?n div 2) \<le> nat (CFArrayDequeRoundUpCapacity ?n)"
      using b(3) assms(3) by (intro nat_mono) linarith
    moreover have "nat (CFArrayDequeRoundUpCapacity ?n) \<le> 2 ^ 30" using b(2) assms(3) by (simp add: nat_le_iff)
    moreover have "\<not> CFArrayDequeRoundUpCapacity ?n \<le> 0" using b(3) assms(3) by simp
    ultimately show ?thesis
      using True init
      by (simp add: CFArraySetCapacity_def Let_def array_wf_def deque_wf_def array_list_def deque_list_def segment_def)
  next
    case False
    then show ?thesis using init by (simp add: array_wf_def array_list_def)
  qed
  then obtain s where s: "(if 0 = capacity then CFArraySetCapacity garbage a ?n else Some a) = Some s" "array_wf s"
    "array_settings s = array_settings a" "array_list s = []" "ar_count s = 0" by blast
  obtain r where r: "append_loop garbage s array 0 ?n = Some r" "appended s (segment (array_contents array) 0 ?n) r"
    using append_loop_correct [OF s(2) assms(1), of 0 ?n garbage] s(5) assms(3) by (auto simp: array_room_def)
  have "CFArrayCreateMutableCopy cftype garbage capacity array = Some r"
    using s(1) r(1) by (simp add: CFArrayCreateMutableCopy_def CFArrayGetCount_def Let_def a_def [symmetric])
  moreover have "CFArrayGetCallBacks s = ?cb" using settings_cong(2) [OF s(3)] init(3) by simp
  moreover have "array_stored s = array_stored array" using calculation by (simp add: array_stored_def fun_eq_iff)
  moreover have "CFArrayGetCallBacks r = CFArrayGetCallBacks s"
    using r(2) by (intro settings_cong(2)) (simp add: appended_def)
  ultimately show ?thesis
    using r(2) s(4) assms(1) by (simp add: appended_def segment_def)
qed

subsection \<open>Bubble sort\<close>

fun bubble :: "('v \<Rightarrow> 'v \<Rightarrow> CFComparisonResult) \<Rightarrow> 'v list \<Rightarrow> 'v list" where
  "bubble cmp (x # y # xs) = (if cmp y x < 0 then y # bubble cmp (x # xs) else x # bubble cmp (y # xs))"
| "bubble cmp xs = xs"

fun bubble_sort :: "('v \<Rightarrow> 'v \<Rightarrow> CFComparisonResult) \<Rightarrow> 'v list \<Rightarrow> nat \<Rightarrow> 'v list" where
  "bubble_sort cmp xs (Suc (Suc n)) =
     (let ys = bubble cmp xs in bubble_sort cmp (take (Suc n) ys) (Suc n) @ drop (Suc n) ys)"
| "bubble_sort cmp xs n = xs"

lemma mset_bubble [simp]: "mset (bubble cmp xs) = mset xs"
  by (induction cmp xs rule: bubble.induct) auto

lemma length_bubble [simp]: "length (bubble cmp xs) = length xs"
  by (metis mset_bubble size_mset)

lemma mset_bubble_sort [simp]: "length xs = n \<Longrightarrow> mset (bubble_sort cmp xs n) = mset xs"
proof (induction cmp xs n rule: bubble_sort.induct)
  case (1 cmp xs n)
  then have "mset (take (Suc n) (bubble cmp xs)) + mset (drop (Suc n) (bubble cmp xs)) = mset xs"
    by (metis append_take_drop_id mset_append mset_bubble)
  then show ?case using 1 by (simp add: Let_def)
qed auto

lemma length_bubble_sort [simp]: "length xs = n \<Longrightarrow> length (bubble_sort cmp xs n) = length xs"
  by (metis mset_bubble_sort size_mset)

context comparator begin

lemma filter_bubble: "filter (\<lambda>x. cmp k x = 0) (bubble cmp xs) = filter (\<lambda>x. cmp k x = 0) xs"
proof (induction c \<equiv> cmp xs rule: bubble.induct)
  case (1 x y xs)
  show ?case
  proof (cases "cmp y x < 0")
    case True
    have "cmp y x = 0" if "cmp k x = 0" "cmp k y = 0"
      using that cmp_zero_sym [of k y] by (intro cmp_equal_trans [of y k x]) simp_all
    then have "\<not> (cmp k x = 0 \<and> cmp k y = 0)" using True by linarith
    then show ?thesis using 1(1) True by simp
  next
    case False
    then show ?thesis using 1(2) by simp
  qed
qed auto

lemma bubble_upper: "cmp x (last (bubble cmp xs)) \<le> 0" if "x \<in> set xs"
  using that
proof (induction c \<equiv> cmp xs arbitrary: x rule: bubble.induct)
  case (1 a b xs)
  have ne: "bubble cmp (a # xs) \<noteq> []" "bubble cmp (b # xs) \<noteq> []"
    by (metis length_bubble length_0_conv list.distinct(1))+
  show ?case
  proof (cases "cmp b a < 0")
    case True
    have ih: "\<forall>z \<in> set (a # xs). cmp z (last (bubble cmp (a # xs))) \<le> 0" using 1(1) True by blast
    have "cmp b a \<le> 0" "cmp a (last (bubble cmp (a # xs))) \<le> 0" using True ih by simp_all
    then have "cmp b (last (bubble cmp (a # xs))) \<le> 0" by (rule cmp_trans)
    moreover have "x = b \<or> x \<in> set (a # xs)" using 1(3) by auto
    ultimately have "cmp x (last (bubble cmp (a # xs))) \<le> 0" using ih by blast
    then show ?thesis using True ne(1) by simp
  next
    case False
    have ih: "\<forall>z \<in> set (b # xs). cmp z (last (bubble cmp (b # xs))) \<le> 0" using 1(2) False by blast
    have "cmp a b \<le> 0" using False cmp_swap [of a b] by linarith
    moreover have "cmp b (last (bubble cmp (b # xs))) \<le> 0" using ih by simp
    ultimately have "cmp a (last (bubble cmp (b # xs))) \<le> 0" by (rule cmp_trans)
    moreover have "x = a \<or> x \<in> set (b # xs)" using 1(3) by auto
    ultimately have "cmp x (last (bubble cmp (b # xs))) \<le> 0" using ih by blast
    then show ?thesis using False ne(2) by simp
  qed
qed (auto simp: cmp_refl)

lemma bubble_sort_stable: "length xs = n \<Longrightarrow> stable_sort_of cmp xs (bubble_sort cmp xs n)"
proof (induction c \<equiv> cmp xs n rule: bubble_sort.induct)
  case (1 xs n)
  let ?ys = "bubble cmp xs"
  have len: "length ?ys = Suc (Suc n)" using 1(2) by simp
  then obtain z where z: "drop (Suc n) ?ys = [z]" "z = last ?ys"
    by (metis (no_types, lifting) Suc_diff_Suc cancel_comm_monoid_add_class.diff_cancel diff_Suc_Suc
        length_0_conv length_drop length_Suc_conv last_drop last_ConsL lessI)
  have ih: "stable_sort_of cmp (take (Suc n) ?ys) (bubble_sort cmp (take (Suc n) ?ys) (Suc n))"
    using 1(1) len by simp
  then have set: "set (bubble_sort cmp (take (Suc n) ?ys) (Suc n)) = set (take (Suc n) ?ys)"
    by (metis stable_sort_of_def mset_eq_setD)
  have split: "take (Suc n) ?ys @ [z] = ?ys" using z(1) by (metis append_take_drop_id)
  have "cmp x z \<le> 0" if "x \<in> set (take (Suc n) ?ys)" for x
    using that bubble_upper [of x xs] z(2) by (metis in_set_takeD mset_bubble mset_eq_setD)
  moreover have "filter (\<lambda>x. cmp k x = 0) (take (Suc n) ?ys) @ filter (\<lambda>x. cmp k x = 0) [z] =
      filter (\<lambda>x. cmp k x = 0) xs" for k
    using filter_bubble [of k xs] split by (metis filter_append)
  moreover have "mset (take (Suc n) ?ys) + mset [z] = mset xs"
    using split by (metis mset_append mset_bubble)
  ultimately show ?case
    using ih set z(1) by (auto simp: stable_sort_of_def Let_def sorted_wrt_append)
qed (auto simp: stable_sort_of_def length_Suc_conv)

end

subsection \<open>Sorting an array\<close>

definition rearranged :: "CFArray \<Rightarrow> nat \<Rightarrow> ptr list \<Rightarrow> CFArray \<Rightarrow> bool" where
  "rearranged array loc ys array' \<longleftrightarrow> array_wf array' \<and> array_list array' = put_segment (array_list array) loc ys \<and>
     ar_trace array' = ar_trace array \<and> array_settings array' = array_settings array \<and>
     ar_count array' = ar_count array"

lemma rearranged_trans:
  "rearranged a i xs b \<Longrightarrow> rearranged b j ys c \<Longrightarrow>
    put_segment (put_segment (array_list a) i xs) j ys = put_segment (array_list a) k zs \<Longrightarrow> rearranged a k zs c"
  by (simp add: rearranged_def)

lemma segment_eq_Cons2:
  "i + Suc (Suc n) \<le> length xs \<Longrightarrow> segment xs i (Suc (Suc n)) = xs ! i # xs ! (i + 1) # segment xs (i + 2) n"
  by (simp add: segment_Cons)

text \<open>One comparison of the inner loop, and the exchange it may make.\<close>

lemma zsort_step:
  assumes "array_wf array" "i + 1 < ar_count array"
  shows "\<exists>array'. (if cmp (array_list array ! (i + 1)) (array_list array ! i) < 0
      then CFArrayExchangeValuesAtIndices array i (i + 1) else Some array) = Some array' \<and>
    rearranged array i (if cmp (array_list array ! (i + 1)) (array_list array ! i) < 0
      then [array_list array ! (i + 1), array_list array ! i] else [array_list array ! i, array_list array ! (i + 1)]) array'"
proof -
  let ?l = "array_list array"
  have len: "i + 2 \<le> length ?l" using assms length_array_list [OF assms(1)] by simp
  have "?l[i := ?l ! (i + 1), i + 1 := ?l ! i] = put_segment ?l i [?l ! (i + 1), ?l ! i]"
    using len by (intro put_segmentI) (auto simp: nth_list_update nth_Cons' less_Suc_eq_le le_Suc_eq)
  moreover have "put_segment ?l i [?l ! i, ?l ! (i + 1)] = ?l"
    using len put_segment_self [of i 2 ?l] segment_eq_Cons2 [of i 0 ?l]
    by (simp add: segment_def numeral_2_eq_2)
  ultimately show ?thesis
    using Exchange_correct [OF assms(1), of i "i + 1"] assms by (auto simp: rearranged_def)
qed

lemma zsort_pass_correct:
  "array_wf array \<Longrightarrow> i + n < ar_count array \<Longrightarrow>
    \<exists>array'. zsort_pass cmp array i n = Some array' \<and>
      rearranged array i (bubble cmp (segment (array_list array) i (Suc n))) array'"
proof (induction n arbitrary: array i)
  case 0
  have "put_segment (array_list array) i (segment (array_list array) i 1) = array_list array"
    using 0 length_array_list [OF 0(1)] by (intro put_segment_self) simp
  then show ?case
    using 0 length_array_list [OF 0(1)] by (simp add: rearranged_def segment_Cons) (simp add: segment_def)
next
  case (Suc n)
  let ?l = "array_list array" and ?x = "array_list array ! i" and ?y = "array_list array ! (i + 1)"
  have len: "i + Suc (Suc n) \<le> length ?l" using Suc.prems length_array_list [OF Suc.prems(1)] by simp
  define lo hi where "lo = (if cmp ?y ?x < 0 then ?y else ?x)" and "hi = (if cmp ?y ?x < 0 then ?x else ?y)"
  obtain a where a: "(if cmp ?y ?x < 0 then CFArrayExchangeValuesAtIndices array i (i + 1) else Some array) = Some a"
    "rearranged array i [lo, hi] a"
    using zsort_step [OF Suc.prems(1), of i cmp] Suc.prems(2) unfolding lo_def hi_def by (auto split: if_splits)
  have wfa: "array_wf a" "i + 1 + n < ar_count a" using a(2) Suc.prems(2) by (simp_all add: rearranged_def)
  obtain b where b: "zsort_pass cmp a (i + 1) n = Some b"
    "rearranged a (i + 1) (bubble cmp (segment (array_list a) (i + 1) (Suc n))) b"
    using Suc.IH [OF wfa] by blast
  have seg: "segment (array_list a) (i + 1) (Suc n) = hi # segment ?l (i + 2) n"
    using a(2) len by (intro nth_equalityI) (auto simp: rearranged_def nth_put_segment nth_Cons')
  have "bubble cmp (segment ?l i (Suc (Suc n))) = lo # bubble cmp (hi # segment ?l (i + 2) n)"
    using len by (simp add: segment_eq_Cons2 lo_def hi_def)
  moreover have "put_segment (put_segment ?l i [lo, hi]) (i + 1) (bubble cmp (hi # segment ?l (i + 2) n)) =
      put_segment ?l i (lo # bubble cmp (hi # segment ?l (i + 2) n))"
    using len by (intro put_segmentI) (auto simp: nth_put_segment nth_Cons')
  ultimately have "rearranged array i (bubble cmp (segment ?l i (Suc (Suc n)))) b"
    using rearranged_trans [OF a(2) b(2)] unfolding seg by simp
  moreover have "zsort_pass cmp array i (Suc n) = Some b"
    using a(1) b(1) Suc.prems contents_wf [OF Suc.prems(1)] by (simp add: cf_mem)
  ultimately show ?case by blast
qed

lemma ZSort_correct:
  "array_wf array \<Longrightarrow> loc + n \<le> ar_count array \<Longrightarrow>
    \<exists>array'. CFZSort cmp array loc n = Some array' \<and>
      rearranged array loc (bubble_sort cmp (segment (array_list array) loc n) n) array'"
proof (induction n arbitrary: array)
  case 0
  then show ?case by (simp add: rearranged_def put_segment_def segment_def)
next
  case (Suc n)
  let ?l = "array_list array"
  have len: "loc + Suc n \<le> length ?l" using Suc.prems length_array_list [OF Suc.prems(1)] by simp
  show ?case
  proof (cases n)
    case 0
    then show ?thesis
      using Suc.prems(1) put_segment_self [of loc 1 ?l] len by (simp add: rearranged_def)
  next
    case (Suc m)
    let ?ys = "bubble cmp (segment ?l loc (Suc n))"
    have lys: "length ?ys = Suc n" using len by simp
    obtain a where a: "zsort_pass cmp array loc n = Some a" "rearranged array loc ?ys a"
      using zsort_pass_correct [OF Suc.prems(1), of loc n cmp] Suc.prems(2) by auto
    have wfa: "array_wf a" "loc + n \<le> ar_count a" using a(2) Suc.prems(2) by (simp_all add: rearranged_def)
    obtain b where b: "CFZSort cmp a loc n = Some b"
      "rearranged a loc (bubble_sort cmp (segment (array_list a) loc n) n) b"
      using Suc.IH [OF wfa] by blast
    have seg: "segment (array_list a) loc n = take n ?ys"
      using a(2) len lys by (intro nth_equalityI) (auto simp: rearranged_def nth_put_segment)
    have lzs: "length (bubble_sort cmp (take n ?ys) n) = n" using lys by simp
    have "put_segment (put_segment ?l loc ?ys) loc (bubble_sort cmp (take n ?ys) n) =
        put_segment ?l loc (bubble_sort cmp (take n ?ys) n @ drop n ?ys)"
      using len lys lzs by (intro put_segmentI) (auto simp: nth_put_segment nth_append less_Suc_eq)
    then have "rearranged array loc (bubble_sort cmp (segment ?l loc (Suc n)) (Suc n)) b"
      using rearranged_trans [OF a(2) b(2)] Suc unfolding seg by (simp add: Let_def)
    moreover have "CFZSort cmp array loc (Suc n) = Some b" using a(1) b(1) Suc by simp
    ultimately show ?thesis by blast
  qed
qed

definition one_sided :: "CFArray \<Rightarrow> bool" where
  "one_sided array \<longleftrightarrow> (ac_retain (CFArrayGetCallBacks array) = None) \<noteq> (ac_release (CFArrayGetCallBacks array) = None)"

text \<open>
  The contract of sorting: when the array only retains or only releases its values they are
  exchanged in place; otherwise the sorted values replace the old ones.
\<close>

definition array_sorted :: "(ptr \<Rightarrow> ptr \<Rightarrow> CFComparisonResult) \<Rightarrow> CFArray \<Rightarrow> CFRange \<Rightarrow> CFArray \<Rightarrow> bool" where
  "array_sorted cmp array r array' \<longleftrightarrow>
     (\<exists>ys. stable_sort_of cmp (segment (array_list array) (location r) (range_length r)) ys \<and>
       (if one_sided array \<or> range_length r < 2 then rearranged array (location r) ys array'
        else replaced array (location r) (range_length r) ys array'))"

lemma SortValues_correct:
  assumes cmp: "comparator cmp" and wf: "array_wf array" and le: "location r + range_length r \<le> ar_count array"
    and room: "array_room array (range_length r)"
  shows "\<exists>array'. CFArraySortValues garbage array r cmp = Some array' \<and> array_sorted cmp array r array'"
proof -
  let ?loc = "location r" and ?n = "range_length r" and ?cb = "CFArrayGetCallBacks array"
  let ?seg = "segment (array_list array) ?loc ?n"
  have len: "?loc + ?n \<le> length (array_list array)" using le length_array_list [OF wf] by simp
  have mutable: "CFArrayGetType array \<noteq> kCFArrayImmutable"
    using wf by (simp add: array_wf_def kCFArrayDeque_def kCFArrayImmutable_def)
  have sides: "one_sided array \<longleftrightarrow> (ac_retain ?cb \<noteq> None \<and> ac_release ?cb = None) \<or>
      (ac_retain ?cb = None \<and> ac_release ?cb \<noteq> None)" by (auto simp: one_sided_def)
  have r: "CFRangeMake ?loc ?n = r" by (simp add: CFRangeMake_def)
  consider (bubble) "one_sided array" | (short) "\<not> one_sided array" "?n < 2" | (merge) "\<not> one_sided array" "2 \<le> ?n"
    by linarith
  then show ?thesis
  proof cases
    case bubble
    obtain a where a: "CFZSort cmp array ?loc ?n = Some a" "rearranged array ?loc (bubble_sort cmp ?seg ?n) a"
      using ZSort_correct [OF wf le] by blast
    then have "array_sorted cmp array r a"
      using comparator.bubble_sort_stable [OF cmp, of ?seg ?n] bubble len by (auto simp: array_sorted_def)
    moreover have "CFArraySortValues garbage array r cmp = Some a"
      using a(1) mutable bubble sides by (simp add: CFArraySortValues_def Let_def)
    ultimately show ?thesis by blast
  next
    case short
    have "stable_sort_of cmp ?seg ?seg"
      using short(2) len by (simp add: stable_sort_of_def sorted_wrt01)
    moreover have "rearranged array ?loc ?seg array"
      using wf put_segment_self [OF len] by (simp add: rearranged_def)
    ultimately have "array_sorted cmp array r array" using short(2) by (auto simp: array_sorted_def)
    moreover have "CFArraySortValues garbage array r cmp = Some array"
      using mutable short sides by (auto simp: CFArraySortValues_def Let_def)
    ultimately show ?thesis by blast
  next
    case merge
    have lseg: "length ?seg = ?n" using len by simp
    have small: "length ?seg \<le> INTPTR_MAX div 8"
      using room lseg by (simp add: array_room_def INTPTR_MAX_def)
    obtain ys where ys: "CFQSortPointers garbage garbage ?seg ?n cmp = Some ys" "stable_sort_of cmp ?seg ys"
      using QSortPointers_correct [OF cmp, of ?seg garbage garbage] merge(2) lseg small by auto
    have lys: "length ys = ?n" using stable_sort_of_length [OF ys(2)] lseg by simp
    obtain a where a: "CFArrayReplaceValues garbage array r ys ?n = Some a" "replaced array ?loc ?n ys a"
      using Replace_correct [OF wf le room, of ys garbage] lys unfolding r by auto
    have "CFArrayGetValues array r = Some ?seg"
      using GetValues_correct [of array ?loc ?n] contents_wf [OF wf] le unfolding r by simp
    then have "CFArraySortValues garbage array r cmp = Some a"
      using ys(1) a(1) mutable merge sides by (auto simp: CFArraySortValues_def Let_def)
    moreover have "array_sorted cmp array r a" using a(2) ys(2) merge by (auto simp: array_sorted_def)
    ultimately show ?thesis by blast
  qed
qed

subsection \<open>Binary search\<close>

definition bsearch_inv :: "(ptr \<Rightarrow> bool) \<Rightarrow> nat \<Rightarrow> nat \<Rightarrow> int \<Rightarrow> bool" where
  "bsearch_inv below n lg idx \<longleftrightarrow> - 1 \<le> idx \<and> idx + 2 ^ lg \<le> int n \<and>
     (\<forall>i < n. int i \<le> idx \<longrightarrow> below i) \<and> (\<forall>i < n. idx + 2 ^ lg \<le> int i \<longrightarrow> \<not> below i)"

lemma bsearch_inv_split:
  assumes "- 1 \<le> idx" "hi \<le> int n" "\<forall>i < n. int i \<le> idx \<longrightarrow> below i" "\<forall>i < n. hi \<le> int i \<longrightarrow> \<not> below i"
    and m: "m < n" and mono: "\<And>i j. i \<le> j \<Longrightarrow> j < n \<Longrightarrow> below j \<Longrightarrow> below i"
    and ends: "below m \<Longrightarrow> idx' \<le> int m \<and> - 1 \<le> idx' \<and> idx' + 2 ^ lg = hi"
      "\<not> below m \<Longrightarrow> idx' = idx \<and> int m \<le> idx + 2 ^ lg \<and> idx + 2 ^ lg \<le> hi"
  shows "bsearch_inv below n lg idx'"
proof (cases "below m")
  case True
  have "below i" if "i < n" "int i \<le> idx'" for i
    using that ends(1) [OF True] mono [of i m] m True by linarith
  then show ?thesis using ends(1) [OF True] assms(2,4) by (simp add: bsearch_inv_def)
next
  case False
  have "\<not> below i" if "i < n" "idx + 2 ^ lg \<le> int i" for i
    using that ends(2) [OF False] mono [of m i] False by linarith
  then show ?thesis using ends(2) [OF False] assms(1-3) by (simp add: bsearch_inv_def)
qed

lemma array_bsearch_loop_correct:
  assumes "array_ok array" "loc + n \<le> ar_count array"
    and below: "\<And>i. below i \<longleftrightarrow> cmp (array_contents array ! (loc + i)) v < 0"
    and mono: "\<And>i j. i \<le> j \<Longrightarrow> j < n \<Longrightarrow> below j \<Longrightarrow> below i"
  shows "bsearch_inv below n lg idx \<Longrightarrow> \<exists>idx'. array_bsearch_loop cmp array loc v lg idx = Some idx' \<and>
    bsearch_inv below n 0 idx'"
proof (induction lg arbitrary: idx)
  case 0
  then show ?case by simp
next
  case (Suc lg)
  define P :: int where "P = 2 ^ lg"
  have pow: "1 \<le> P" by (simp add: P_def)
  have pre: "- 1 \<le> idx" "idx + 2 * P \<le> int n" "\<forall>i < n. int i \<le> idx \<longrightarrow> below i"
    "\<forall>i < n. idx + 2 * P \<le> int i \<longrightarrow> \<not> below i"
    using Suc.prems by (simp_all add: bsearch_inv_def P_def)
  have "0 \<le> idx + 2 ^ lg" "idx + 2 ^ lg < int n" using pre(1,2) pow unfolding P_def [symmetric] by linarith+
  then obtain m where m: "idx + 2 ^ lg = int m" "m < n" by (metis nonneg_int_cases of_nat_less_iff)
  let ?idx = "if below m then idx + 2 ^ lg else idx"
  have inv: "bsearch_inv below n lg ?idx"
  proof (rule bsearch_inv_split [OF pre m(2) mono])
    have "int m = idx + P" using m(1) by (simp add: P_def)
    then show "below m \<Longrightarrow> ?idx \<le> int m \<and> - 1 \<le> ?idx \<and> ?idx + 2 ^ lg = idx + 2 * P"
      "\<not> below m \<Longrightarrow> ?idx = idx \<and> int m \<le> idx + 2 ^ lg \<and> idx + 2 ^ lg \<le> idx + 2 * P"
      using pre(1) pow unfolding P_def [symmetric] by auto
  qed
  have "pos (int loc + idx + 2 ^ lg) = Some (loc + m)"
    using m(1) by (metis pos_of_nat add.assoc of_nat_add)
  moreover have "CFArrayGetValueAtIndex array (loc + m) = Some (array_contents array ! (loc + m))"
    using assms(1,2) m(2) by (simp add: cf_mem)
  ultimately show ?case
    using Suc.IH [OF inv] below [of m] by simp
qed

text \<open>The number of values below the one searched for, which in a sorted range come first.\<close>

definition lower_bound :: "(ptr \<Rightarrow> ptr \<Rightarrow> CFComparisonResult) \<Rightarrow> ptr list \<Rightarrow> ptr \<Rightarrow> nat" where
  "lower_bound cmp xs v = length (takeWhile (\<lambda>x. cmp x v < 0) xs)"

lemma lower_boundI:
  assumes "p \<le> length xs" "\<And>i. i < p \<Longrightarrow> cmp (xs ! i) v < 0" "p < length xs \<Longrightarrow> \<not> cmp (xs ! p) v < 0"
  shows "lower_bound cmp xs v = p"
proof -
  have "takeWhile (\<lambda>x. cmp x v < 0) xs = take p xs"
    using assms by (intro takeWhile_eq_take_P_nth) auto
  then show ?thesis using assms(1) by (simp add: lower_bound_def)
qed

lemma BSearch_correct:
  assumes cmp: "comparator cmp" and ok: "array_ok array" and le: "loc + n \<le> ar_count array" and small: "n < 2 ^ 30"
    and sorted: "sorted_wrt (\<lambda>a b. cmp a b \<le> 0) (segment (array_contents array) loc n)"
  shows "CFArrayBSearchValues array (CFRangeMake loc n) v cmp =
    Some (int loc + int (lower_bound cmp (segment (array_contents array) loc n) v))"
proof (cases "n = 0")
  case True
  then show ?thesis by (simp add: CFArrayBSearchValues_def lower_bound_def segment_def)
next
  case False
  let ?xs = "segment (array_contents array) loc n" and ?c = "array_contents array"
  define below where "below i \<longleftrightarrow> cmp (?c ! (loc + i)) v < 0" for i
  have len: "length ?xs = n" using ok le by simp
  have nth: "?xs ! i = ?c ! (loc + i)" if "i < n" for i using ok le that by simp
  have mono: "below i" if "i \<le> j" "j < n" "below j" for i j
  proof -
    have "cmp (?c ! (loc + i)) (?c ! (loc + j)) \<le> 0"
      using sorted_wrt_nth_less [OF sorted, of i j] comparator.cmp_refl [OF cmp] that len nth
      by (cases "i = j") auto
    then show ?thesis
      using that(3) comparator.cmp_swap [OF cmp] comparator.cmp_trans [OF cmp] unfolding below_def
      by (metis not_less)
  qed
  have bound: "lower_bound cmp ?xs v = p" if "p \<le> n" "\<And>i. i < p \<Longrightarrow> below i" "p < n \<Longrightarrow> \<not> below p" for p
    using that len nth by (intro lower_boundI) (auto simp: below_def)
  have get: "CFArrayGetValueAtIndex array (loc + i) = Some (?c ! (loc + i))" if "i < n" for i
    using ok le that by (simp add: cf_mem)
  have last: "CFArrayGetValueAtIndex array (loc + n - 1) = Some (?c ! (loc + (n - 1)))"
    using get [of "n - 1"] False by simp
  show ?thesis
  proof (cases "below (n - 1)")
    case True
    have "lower_bound cmp ?xs v = n" using mono [of _ "n - 1"] True False by (intro bound) auto
    then show ?thesis using True False last by (simp add: CFArrayBSearchValues_def below_def)
  next
    case top: False
    show ?thesis
    proof (cases "cmp v (?c ! loc) < 0")
      case True
      then have "\<not> below 0" using comparator.cmp_swap [OF cmp] unfolding below_def by (metis add_0_right not_less_iff_gr_or_eq)
      then have "lower_bound cmp ?xs v = 0" by (intro bound) auto
      then show ?thesis
        using True False top last get [of 0] by (simp add: CFArrayBSearchValues_def below_def)
    next
      case bottom: False
      define lg where "lg = flsl n - 1"
      have lg: "2 ^ lg \<le> n" "n < 2 * 2 ^ lg" "lg < 31"
        using flsl_lower [of n] flsl_upper [of n] flsl_le [OF small] False
        by (auto simp: lg_def flsl.simps [of n] simp flip: power_Suc)
      have lgi: "(2 :: int) ^ lg \<le> int n" "int n < 2 * 2 ^ lg"
        using lg(1,2) by (metis of_nat_le_iff of_nat_numeral of_nat_power, metis of_nat_less_iff of_nat_mult of_nat_numeral of_nat_power)
      define m where "m = 2 ^ lg - (1 :: nat)"
      have m: "m < n" "int m = 2 ^ lg - 1"
        using lg(1) diff_less [of 1 "2 ^ lg :: nat"] by (auto simp: m_def of_nat_diff intro: less_le_trans)
      let ?idx = "if below m then int n - 2 ^ lg else - 1"
      obtain Q :: int where Q: "2 ^ lg = Q" "Q \<le> int n" "int n < 2 * Q" "int m = Q - 1" using lgi m(2) by blast
      have "bsearch_inv below n lg ?idx"
      proof (rule bsearch_inv_split [where hi = "int n" and idx = "- 1" and m = m])
        show "below i" if "i \<le> j" "j < n" "below j" for i j using that by (rule mono)
      qed (use m(1) Q(2-) in \<open>auto simp: Q(1)\<close>)
      then obtain idx where idx: "array_bsearch_loop cmp array loc v lg ?idx = Some idx" "bsearch_inv below n 0 idx"
        using array_bsearch_loop_correct [OF ok le, where below = below] below_def mono by blast
      have "lower_bound cmp ?xs v = nat (idx + 1)"
        using idx(2) by (intro bound) (auto simp: bsearch_inv_def)
      then have res: "int (lower_bound cmp ?xs v) = idx + 1" using idx(2) by (simp add: bsearch_inv_def)
      have "pos (int loc - 1 + 2 ^ lg) = Some (loc + m)"
        using m(2) by (metis pos_of_nat add_diff_eq diff_add_eq of_nat_add)
      moreover have "flsl n - Suc 0 = lg" by (simp add: lg_def)
      ultimately show ?thesis
        using False top bottom last get [of 0] get [OF m(1)] idx(1) res lg(3)
        by (simp add: CFArrayBSearchValues_def below_def Let_def split: if_splits)
    qed
  qed
qed

subsection \<open>Concrete arrays for the examples\<close>

text \<open>Callbacks that tag the values they retain, and a deque of four buckets holding two values.\<close>

definition tag_callbacks :: CFArrayCallBacks where
  "tag_callbacks = \<lparr>ac_retain = Some \<lparr>cb_addr = 16, cb_fun = (\<lambda>v. v + 1000)\<rparr>,
     ac_release = Some \<lparr>cb_addr = 32, cb_fun = ()\<rparr>, ac_copyDescription = None,
     ac_equal = Some \<lparr>cb_addr = 48, cb_fun = (\<lambda>a b. a mod 1000 = b mod 1000)\<rparr>\<rparr>"

definition cf_type_callbacks :: CFArrayCallBacks where
  "cf_type_callbacks = \<lparr>ac_retain = Some \<lparr>cb_addr = 1, cb_fun = (\<lambda>v. v)\<rparr>,
     ac_release = Some \<lparr>cb_addr = 2, cb_fun = ()\<rparr>, ac_copyDescription = None, ac_equal = None\<rparr>"

definition sample_array :: "ptr list \<Rightarrow> CFArray" where
  "sample_array vs = (CFArrayCreateMutable cf_type_callbacks 0 (Some tag_callbacks))
     \<lparr>ar_count := length vs,
      ar_store := Some \<lparr>dq_leftIdx = 1, dq_capacity = length vs + 2, dq_buckets = 0 # vs @ [0]\<rparr>\<rparr>"

lemma sample_array_init:
  "CFArrayGetType (sample_array vs) = kCFArrayDeque" "\<not> hasBeenFinalized (sample_array vs)"
  "CFArrayGetCallBacks (sample_array vs) = tag_callbacks"
proof -
  have cons: "consistent_callbacks cf_type_callbacks (given_callbacks (Some tag_callbacks))"
    by (simp add: consistent_callbacks_def addrs_def tag_callbacks_def cf_type_callbacks_def given_callbacks_def)
  show "CFArrayGetType (sample_array vs) = kCFArrayDeque" "\<not> hasBeenFinalized (sample_array vs)"
    "CFArrayGetCallBacks (sample_array vs) = tag_callbacks"
    using Init_correct [of 2, OF _ cons, where capacity = 0 and garbage = "\<lambda>_. NULL"]
    by (simp_all add: sample_array_def CFArrayCreateMutable_def given_callbacks_def kCFArrayDeque_def)
qed

lemma sample_array_wf:
  "length vs < 1000 \<Longrightarrow> array_wf (sample_array vs)" "array_list (sample_array vs) = vs"
  "ar_count (sample_array vs) = length vs" "ar_trace (sample_array vs) = []"
  using sample_array_init [of vs]
  by (simp_all add: array_wf_def deque_wf_def array_list_def deque_list_def segment_def
      sample_array_def CFArrayCreateMutable_def CFArrayInit_def Let_def)

lemma sample_array_stored: "array_stored (sample_array vs) v = v + 1000"
  by (simp add: array_stored_def sample_array_init tag_callbacks_def)

lemma sample_array_match: "item_matches tag_callbacks v w \<longleftrightarrow> v = w \<or> v mod 1000 = w mod 1000"
  by (simp add: item_matches_def tag_callbacks_def)

lemmas sample_array_facts = sample_array_wf sample_array_init sample_array_stored sample_array_match
  contents_wf [OF sample_array_wf(1)]

subsection \<open>Properties\<close>

text \<open>C2: _CFArrayReplaceValues on a mutable array of any shape of its deque (no storage yet, enough
  room on either side, or none) replaces exactly the values of the range: the new ones are retained
  first, in order, then the old ones are released, in order; no other value moves in the sequence.
  All accesses stay inside the deque.\<close>

theorem array_replace_values:
  assumes "array_wf array" "A + B \<le> ar_count array" "array_room array newCount" "newCount \<le> length newValues"
  shows "\<exists>array'. CFArrayReplaceValues garbage array (CFRangeMake A B) newValues newCount = Some array' \<and>
    array_wf array' \<and>
    array_list array' = take A (array_list array) @ map (array_stored array) (take newCount newValues) @
      drop (A + B) (array_list array) \<and>
    ar_trace array' = ar_trace array @ retain_events array (take newCount newValues) @
      release_events array (segment (array_list array) A B) \<and>
    ar_count array' = ar_count array - B + newCount \<and> ar_mutations array' = ar_mutations array + 1 \<and>
    CFArrayGetCallBacks array' = CFArrayGetCallBacks array"
proof -
  obtain a where a: "CFArrayReplaceValues garbage array (CFRangeMake A B) newValues newCount = Some a"
    "replaced array A B (take newCount newValues) a"
    using Replace_correct [OF assms] by blast
  moreover have "ar_count a = ar_count array - B + newCount"
    using replaced_count [OF a(2) assms(1,2)] assms(4) by simp
  moreover have "CFArrayGetCallBacks a = CFArrayGetCallBacks array"
    using a(2) by (intro settings_cong(2)) (simp add: replaced_def)
  ultimately show ?thesis by (auto simp: replaced_def)
qed

lemma array_replace_values_witness:
  "\<exists>array'. CFArrayReplaceValues (\<lambda>i. i) (sample_array [11, 12, 13]) (CFRangeMake 1 1) [7, 8, 9] 3 = Some array' \<and>
     array_list array' = [11, 1007, 1008, 1009, 13] \<and>
     ar_trace array' = [Retained 7, Retained 8, Retained 9, Released 12]"
  using array_replace_values [OF sample_array_wf(1), of "[11, 12, 13]" 1 1 3 "[7, 8, 9]" "\<lambda>i. i"]
  by (auto simp: sample_array_facts array_room_def retain_events_def release_events_def segment_def
      tag_callbacks_def)

text \<open>the other mutators on a list: append, insert, remove, set (in place, or appending at the
  end), exchange and remove all.  Setting a value retains the new one before it releases the old one,
  so that setting a value to itself is safe; exchanging calls no callback.\<close>

theorem array_mutators:
  assumes "array_wf array" "array_room array 1"
  shows "(\<exists>a. CFArrayAppendValue garbage array v = Some a \<and> replaced array (ar_count array) 0 [v] a) \<and>
    (idx \<le> ar_count array \<longrightarrow>
      (\<exists>a. CFArrayInsertValueAtIndex garbage array idx v = Some a \<and> replaced array idx 0 [v] a) \<and>
      (\<exists>a. CFArraySetValueAtIndex garbage array idx v = Some a \<and>
        replaced array idx (if idx = ar_count array then 0 else 1) [v] a)) \<and>
    (idx < ar_count array \<longrightarrow>
      (\<exists>a. CFArrayRemoveValueAtIndex garbage array idx = Some a \<and> replaced array idx 1 [] a)) \<and>
    (i < ar_count array \<and> j < ar_count array \<longrightarrow>
      (\<exists>a. CFArrayExchangeValuesAtIndices array i j = Some a \<and> array_wf a \<and> ar_trace a = ar_trace array \<and>
        array_list a = (array_list array)[i := array_list array ! j, j := array_list array ! i])) \<and>
    (\<exists>a. CFArrayRemoveAllValues array = Some a \<and> replaced array 0 (ar_count array) [] a)"
proof (intro conjI impI)
  show "\<exists>a. CFArrayAppendValue garbage array v = Some a \<and> replaced array (ar_count array) 0 [v] a"
    by (rule Append_correct [OF assms])
  have insert: "\<exists>a. CFArrayReplaceValues garbage array (CFRangeMake k 0) [v] 1 = Some a \<and> replaced array k 0 [v] a"
    if "k \<le> ar_count array" for k
    using Replace_correct [OF assms(1) _ assms(2), of k 0 "[v]" garbage] that by simp
  assume idx: "idx \<le> ar_count array"
  then show "\<exists>a. CFArrayInsertValueAtIndex garbage array idx v = Some a \<and> replaced array idx 0 [v] a"
    using insert by (simp add: CFArrayInsertValueAtIndex_def)
  show "\<exists>a. CFArraySetValueAtIndex garbage array idx v = Some a \<and>
      replaced array idx (if idx = ar_count array then 0 else 1) [v] a"
  proof (cases "idx = ar_count array")
    case True
    then show ?thesis using insert [OF idx] by (simp add: CFArraySetValueAtIndex_def)
  next
    case False
    then show ?thesis using SetValue_correct [OF assms(1), of idx garbage v] idx by simp
  qed
next
  assume idx: "idx < ar_count array"
  have "array_room array 0" using assms(2) by (simp add: array_room_def)
  then show "\<exists>a. CFArrayRemoveValueAtIndex garbage array idx = Some a \<and> replaced array idx 1 [] a"
    using Replace_correct [OF assms(1), of idx 1 0 "[]" garbage] idx by (simp add: CFArrayRemoveValueAtIndex_def)
next
  assume "i < ar_count array \<and> j < ar_count array"
  then show "\<exists>a. CFArrayExchangeValuesAtIndices array i j = Some a \<and> array_wf a \<and> ar_trace a = ar_trace array \<and>
      array_list a = (array_list array)[i := array_list array ! j, j := array_list array ! i]"
    using Exchange_correct [OF assms(1), of i j] by blast
next
  show "\<exists>a. CFArrayRemoveAllValues array = Some a \<and> replaced array 0 (ar_count array) [] a"
    by (rule RemoveAll_correct [OF assms(1)])
qed

lemma array_mutators_witness:
  "\<exists>a. CFArraySetValueAtIndex (\<lambda>i. i) (sample_array [11, 12, 13]) 1 7 = Some a \<and>
     array_list a = [11, 1007, 13] \<and> ar_trace a = [Retained 7, Released 12]"
proof -
  have "array_wf (sample_array [11, 12, 13])" "array_room (sample_array [11, 12, 13]) 1"
    by (simp_all add: sample_array_facts array_room_def)
  from array_mutators [OF this, of "\<lambda>i. i" 7 1 0 0]
  have "\<exists>a. CFArraySetValueAtIndex (\<lambda>i. i) (sample_array [11, 12, 13]) 1 7 = Some a \<and>
      replaced (sample_array [11, 12, 13]) 1 1 [7] a"
    by (simp add: sample_array_wf(3))
  then show ?thesis
    by (auto simp: replaced_def sample_array_facts retain_events_def release_events_def segment_def tag_callbacks_def)
qed

text \<open>the queries of an array of either kind against the list of its values: a value by its index,
  the values of a range, and the count, the presence, the first and the last index in a range of the
  values that are identical or equal by the array's callback.  None of them reads outside the array.\<close>

theorem array_queries:
  fixes v :: ptr
  assumes "array_ok array" "location r + range_length r \<le> ar_count array"
  defines "found_at ks \<equiv> found (find (\<lambda>k. item_matches (CFArrayGetCallBacks array) v (array_contents array ! k)) ks)"
    and "vs \<equiv> take (range_length r) (drop (location r) (array_contents array))"
  shows "CFArrayGetValues array r = Some vs \<and> CFArrayApplyFunction array r = Some vs \<and>
    CFArrayGetCountOfValue array r v = Some (length (filter (item_matches (CFArrayGetCallBacks array) v) vs)) \<and>
    CFArrayContainsValue array r v = Some (\<exists>x \<in> set vs. item_matches (CFArrayGetCallBacks array) v x) \<and>
    CFArrayGetFirstIndexOfValue array r v = Some (found_at [location r..<location r + range_length r]) \<and>
    CFArrayGetLastIndexOfValue array r v = Some (found_at (rev [location r..<location r + range_length r])) \<and>
    CFArrayCheckAndGetValueAtIndex array i =
      Some (if 0 \<le> i \<and> i < int (ar_count array) then array_contents array ! nat i else 2 ^ 64 - 1)"
proof -
  have r: "CFRangeMake (location r) (range_length r) = r" by (simp add: CFRangeMake_def)
  have vs: "vs = segment (array_contents array) (location r) (range_length r)" by (simp add: vs_def segment_def)
  let ?P = "item_matches (CFArrayGetCallBacks array) v"
  have "find (\<lambda>k. ?P (array_contents array ! k)) [location r..<location r + range_length r] \<noteq> None \<longleftrightarrow> (\<exists>x \<in> set vs. ?P x)"
  proof -
    have "vs = map (nth (array_contents array)) [location r..<location r + range_length r]"
      using assms(1,2) unfolding vs by (intro nth_equalityI) auto
    then show ?thesis by (auto simp: find_None_iff)
  qed
  then have "found_at [location r..<location r + range_length r] \<noteq> kCFNotFound \<longleftrightarrow> (\<exists>x \<in> set vs. ?P x)"
    by (auto simp: found_at_def found_def kCFNotFound_def split: option.splits)
  then show ?thesis
    using array_find_loop_correct [OF assms(1,2)] array_find_last_loop_correct [OF assms(1,2)]
      array_count_loop_correct [OF assms(1,2)] array_apply_loop_correct [OF assms(1,2)]
      GetValues_correct [OF assms(1,2)] assms(1)
    by (auto simp: r vs found_at_def CFArrayApplyFunction_def CFArrayGetCountOfValue_def CFArrayContainsValue_def
        CFArrayGetFirstIndexOfValue_def CFArrayGetLastIndexOfValue_def CFArrayCheckAndGetValueAtIndex_def cf_mem)
qed

lemma array_queries_witness:
  "CFArrayGetFirstIndexOfValue (sample_array [11, 12, 1012]) (CFRangeMake 0 3) 2012 = Some 1 \<and>
   CFArrayGetLastIndexOfValue (sample_array [11, 12, 1012]) (CFRangeMake 0 3) 2012 = Some 2 \<and>
   CFArrayGetCountOfValue (sample_array [11, 12, 1012]) (CFRangeMake 0 3) 2012 = Some 2"
  using array_queries [of "sample_array [11, 12, 1012]" "CFRangeMake 0 3" 2012 0]
  by (simp add: sample_array_facts found_def kCFNotFound_def upt_conv_Cons)

text \<open>an array created from values holds the retained values; an immutable copy of any array holds
  its values, retained once more, with the same callbacks; a mutable copy, whatever its capacity hint,
  holds the same and is well-formed; appending an array appends the retained values of its range.\<close>

theorem array_copies:
  assumes "array_ok array" "consistent_callbacks cftype (CFArrayGetCallBacks array)"
    and "ar_count array + 2 ^ 13 < 2 ^ 30"
    and "array_wf dest" "array_room dest n" "i + n \<le> ar_count array"
  shows "(\<exists>copy. CFArrayCreateCopy cftype garbage array = Some copy \<and> array_ok copy \<and>
      CFArrayGetType copy = kCFArrayImmutable \<and> CFArrayGetCallBacks copy = CFArrayGetCallBacks array \<and>
      array_contents copy = map (array_stored array) (array_contents array)) \<and>
    (\<exists>copy. CFArrayCreateMutableCopy cftype garbage capacity array = Some copy \<and> array_wf copy \<and>
      CFArrayGetCallBacks copy = CFArrayGetCallBacks array \<and>
      array_list copy = map (array_stored array) (array_contents array)) \<and>
    (\<exists>copy. CFArrayCreate cftype garbage (array_contents array) (ar_count array) (Some (CFArrayGetCallBacks array)) =
        Some copy \<and> array_ok copy \<and> array_contents copy = map (array_stored array) (array_contents array) \<and>
      ar_trace copy = retain_events array (array_contents array)) \<and>
    (\<exists>a. CFArrayAppendArray garbage dest array (CFRangeMake i n) = Some a \<and>
      appended dest (take n (drop i (array_contents array))) a)"
proof (intro conjI)
  show "\<exists>a. CFArrayAppendArray garbage dest array (CFRangeMake i n) = Some a \<and>
      appended dest (take n (drop i (array_contents array))) a"
    using append_loop_correct [OF assms(4,1,6,5)] by (simp add: CFArrayAppendArray_def segment_def)
  obtain copy where "CFArrayCreate cftype garbage (array_contents array) (ar_count array)
      (Some (CFArrayGetCallBacks array)) = Some copy" "array_ok copy"
    "CFArrayGetCallBacks copy = given_callbacks (Some (CFArrayGetCallBacks array))"
    "array_contents copy = map (array_stored copy) (take (ar_count array) (array_contents array))"
    "ar_trace copy = retain_events copy (take (ar_count array) (array_contents array))"
    using Create_correct [of cftype "Some (CFArrayGetCallBacks array)" "ar_count array" "array_contents array" garbage]
      assms(1,2) by (auto simp: given_callbacks_def)
  then show "\<exists>copy. CFArrayCreate cftype garbage (array_contents array) (ar_count array)
      (Some (CFArrayGetCallBacks array)) = Some copy \<and> array_ok copy \<and>
      array_contents copy = map (array_stored array) (array_contents array) \<and>
      ar_trace copy = retain_events array (array_contents array)"
    using assms(1) by (auto simp: given_callbacks_def array_stored_def [abs_def] retain_events_def)
qed (rule CreateCopy_correct [OF assms(1,2)], rule MutableCopy_correct [OF assms(1-3)])

lemma array_copies_witness:
  "\<exists>copy. CFArrayCreateMutableCopy cf_type_callbacks (\<lambda>i. i) 0 (sample_array [11, 12]) = Some copy \<and>
     array_list copy = [1011, 1012]"
proof -
  have "consistent_callbacks cf_type_callbacks (CFArrayGetCallBacks (sample_array [11, 12]))"
    by (simp add: sample_array_facts consistent_callbacks_def addrs_def tag_callbacks_def cf_type_callbacks_def)
  moreover have "array_ok (sample_array [11, 12])" "array_wf (sample_array [])" "array_room (sample_array []) 2"
    "0 + 2 \<le> ar_count (sample_array [11, 12])" "ar_count (sample_array [11, 12]) + 2 ^ 13 < 2 ^ 30"
    by (simp_all add: sample_array_facts array_room_def)
  ultimately show ?thesis
    using array_copies [of "sample_array [11, 12]" cf_type_callbacks "sample_array []" 2 0 "\<lambda>i. i" 0]
    by (auto simp: sample_array_facts sample_array_stored)
qed

text \<open>C33: CFArraySortValues on a range of a mutable array leaves a stable sort of the range, by either
  of its two algorithms: the bubble sort that exchanges in place, for arrays that only retain or only
  release (no callback is called), or the merge sort whose result replaces the range.\<close>

theorem array_sort_values:
  assumes "comparator cmp" "array_wf array" "location r + range_length r \<le> ar_count array"
    and "array_room array (range_length r)"
  shows "\<exists>array'. CFArraySortValues garbage array r cmp = Some array' \<and> array_sorted cmp array r array'"
  by (rule SortValues_correct [OF assms])

lemma array_sort_values_witness:
  "\<exists>array' ys. CFArraySortValues (\<lambda>i. i) (sample_array [30, 20, 10]) (CFRangeMake 0 3) compare_numbers = Some array' \<and>
     mset ys = {#10, 20, 30#} \<and> sorted_wrt (\<lambda>a b. compare_numbers a b \<le> 0) ys \<and>
     replaced (sample_array [30, 20, 10]) 0 3 ys array'"
proof -
  have "\<not> one_sided (sample_array [30, 20, 10])"
    by (simp add: one_sided_def sample_array_facts tag_callbacks_def)
  then show ?thesis
    using array_sort_values [OF numbers.comparator_axioms, of "sample_array [30, 20, 10]" "CFRangeMake 0 3" "\<lambda>i. i"]
    by (auto simp: array_sorted_def sample_array_facts array_room_def segment_def stable_sort_of_def add_mset_commute)
qed

text \<open>CFArrayBSearchValues on a sorted range of fewer than \<open>2 ^ 30\<close> values reads only values of the
  range and returns the index of the first value that is not less than the one searched for, or the
  end of the range.\<close>

theorem array_bsearch:
  assumes "comparator cmp" "array_ok array" "loc + n \<le> ar_count array" "n < 2 ^ 30"
    and "sorted_wrt (\<lambda>a b. cmp a b \<le> 0) (take n (drop loc (array_contents array)))"
  shows "CFArrayBSearchValues array (CFRangeMake loc n) v cmp =
    Some (int loc + int (length (takeWhile (\<lambda>x. cmp x v < 0) (take n (drop loc (array_contents array))))))"
  using BSearch_correct [OF assms(1-4)] assms(5) by (simp add: segment_def lower_bound_def)

lemma array_bsearch_witness:
  "CFArrayBSearchValues (sample_array [10, 20, 20, 30]) (CFRangeMake 0 4) 20 compare_numbers = Some 1"
  using array_bsearch [OF numbers.comparator_axioms, of "sample_array [10, 20, 20, 30]" 0 4 20]
  by (simp add: sample_array_facts compare_numbers_def)

text \<open>_CFArraySetCapacity keeps the values when the capacity does not shrink; when the new capacity is
  below the one the deque has, it copies all the old buckets into the smaller block: the call writes
  outside the block even though the array's count fits the capacity asked for.\<close>

theorem array_set_capacity:
  assumes "array_wf array" "ar_store array = Some d" "cap < 2 ^ 30"
  shows "CFArraySetCapacity garbage array cap = None \<longleftrightarrow> CFArrayDequeRoundUpCapacity cap < int (dq_capacity d)"
proof -
  note b = RoundUp_bounds [OF assms(3)]
  have len: "length (dq_buckets d) = dq_capacity d" using assms(1,2) by (simp add: array_wf_def deque_wf_def)
  have type: "CFArrayGetType array = kCFArrayDeque" using assms(1) by (simp add: array_wf_def)
  have iff: "CFArrayDequeRoundUpCapacity cap < int (dq_capacity d) \<longleftrightarrow>
      nat (CFArrayDequeRoundUpCapacity cap) < dq_capacity d" using b(3) by (simp add: nat_less_iff)
  have "\<not> CFArrayDequeRoundUpCapacity cap \<le> 0" using b(3) by simp
  then show ?thesis
    unfolding iff using assms(2) len type
    by (simp add: CFArraySetCapacity_def Let_def memmove_def mem_read_def mem_write_def not_less)
qed

lemma array_set_capacity_witness:
  "CFArraySetCapacity (\<lambda>i. i) ((sample_array [1, 2, 3])\<lparr>ar_store :=
     Some \<lparr>dq_leftIdx = 1, dq_capacity = 8, dq_buckets = [0, 1, 2, 3, 0, 0, 0, 0]\<rparr>\<rparr>) 3 = None"
proof -
  let ?d = "\<lparr>dq_leftIdx = 1, dq_capacity = 8, dq_buckets = [0, 1, 2, 3, 0, 0, 0, 0]\<rparr>"
  have "CFArrayDequeRoundUpCapacity 3 = 4" by (simp add: CFArrayDequeRoundUpCapacity_def)
  moreover have "array_wf ((sample_array [1, 2, 3])\<lparr>ar_store := Some ?d\<rparr>)"
    by (simp add: array_wf_def deque_wf_def sample_array_facts)
  ultimately show ?thesis
    using array_set_capacity [of "(sample_array [1, 2, 3])\<lparr>ar_store := Some ?d\<rparr>" ?d 3 "\<lambda>i. i"] by simp
qed

end
