(* ===== verification/CF_Data.thy ===== *)
theory CF_Data
  imports CF_Sort
begin

text \<open>
  CFData.c: a byte buffer with a length, a capacity and a mutable variety (immutable, fixed capacity,
  growable), for the 64-bit build and allocators that are not garbage collected; and CFHashBytes of
  CFUtilities.c.  Lengths are \<open>CFIndex\<close>, signed.  \<open>None\<close> is HALT, an access outside the buffer, or an
  undefined shift.  The search functions of CFData.c are in CF_DataSearch.
\<close>

subsection \<open>CFUtilities.c: CFHashBytes\<close>

type_synonym byte = "8 word"

definition ELF_STEP :: "32 word \<Rightarrow> byte \<Rightarrow> 32 word" where
  "ELF_STEP H B =
     (let T1 = push_bit 4 H + ucast B;
          T2 = T1 AND 0xF0000000;
          T1 = (if T2 \<noteq> 0 then T1 XOR drop_bit 24 T2 else T1)
      in T1 AND NOT T2)"

definition hash_at :: "byte list \<Rightarrow> int \<Rightarrow> 32 word \<Rightarrow> 32 word option" where
  "hash_at bytes i H = (if i < 0 then None else do { B \<leftarrow> rd bytes (nat i); Some (ELF_STEP H B) })"

function hash_loop :: "byte list \<Rightarrow> int \<Rightarrow> int \<Rightarrow> 32 word \<Rightarrow> (int \<times> 32 word) option" where
  "hash_loop bytes len rem H =
     (if 3 < rem
      then do { H \<leftarrow> hash_at bytes (len - rem) H;
                H \<leftarrow> hash_at bytes (len - rem + 1) H;
                H \<leftarrow> hash_at bytes (len - rem + 2) H;
                H \<leftarrow> hash_at bytes (len - rem + 3) H;
                hash_loop bytes len (rem - 4) H }
      else Some (rem, H))"
  by pat_completeness auto
termination by (relation "measure (\<lambda>(_, _, rem, _). nat rem)") auto

declare hash_loop.simps [simp del]

text \<open>\<open>SInt32 rem = length\<close> keeps the low 32 bits; the \<open>switch\<close> falls through.\<close>

definition CFHashBytes :: "byte list \<Rightarrow> int \<Rightarrow> 32 word option" where
  "CFHashBytes bytes len =
     do { (rem, H) \<leftarrow> hash_loop bytes len (sint (word_of_int len :: 32 word)) 0;
          H \<leftarrow> (if rem = 3 then hash_at bytes (len - 3) H else Some H);
          H \<leftarrow> (if rem = 3 \<or> rem = 2 then hash_at bytes (len - 2) H else Some H);
          (if rem = 3 \<or> rem = 2 \<or> rem = 1 then hash_at bytes (len - 1) H else Some H) }"

subsection \<open>State\<close>

text \<open>
  \<open>dt_bytes\<close> is the block the bytes are in, inline behind the header or allocated; \<open>None\<close> for NULL.
  \<open>dt_deallocator\<close> says that the block belongs to the creator (no-copy data).
\<close>

record CFData =
  dt_cfinfo :: byte
  dt_length :: int
  dt_capacity :: int
  dt_deallocator :: bool
  dt_bytes :: "byte list option"

definition CFDATA_MAX_SIZE :: int where "CFDATA_MAX_SIZE = 2 ^ 42 - 1"

definition kCFImmutable :: "32 word" where "kCFImmutable = 0"
definition kCFFixedMutable :: "32 word" where "kCFFixedMutable = 1"
definition kCFMutable :: "32 word" where "kCFMutable = 3"

definition CFDataGetInfoBit :: "CFData \<Rightarrow> 32 word \<Rightarrow> bool" where
  "CFDataGetInfoBit data b \<longleftrightarrow> ucast (dt_cfinfo data) AND b \<noteq> 0"

definition CFDataIsMutable :: "CFData \<Rightarrow> bool" where "CFDataIsMutable data = CFDataGetInfoBit data 1"
definition CFDataIsGrowable :: "CFData \<Rightarrow> bool" where "CFDataIsGrowable data = CFDataGetInfoBit data 2"
definition CFDataBytesInline :: "CFData \<Rightarrow> bool" where "CFDataBytesInline data = CFDataGetInfoBit data 4"
definition CFDataUseAllocator :: "CFData \<Rightarrow> bool" where "CFDataUseAllocator data = CFDataGetInfoBit data 8"

definition CFDataSetInfoBits :: "CFData \<Rightarrow> 32 word \<Rightarrow> CFData" where
  "CFDataSetInfoBits data v = data\<lparr>dt_cfinfo := CFBitfieldSetValue (dt_cfinfo data) 5 0 v\<rparr>"

definition CFMutableVariety :: "CFData \<Rightarrow> 32 word" where
  "CFMutableVariety data = CFBitfieldGetValue (dt_cfinfo data) 1 0"

definition CFSetMutableVariety :: "CFData \<Rightarrow> 32 word \<Rightarrow> CFData" where
  "CFSetMutableVariety data v = data\<lparr>dt_cfinfo := CFBitfieldSetValue (dt_cfinfo data) 1 0 v\<rparr>"

definition CFMutableVarietyFromFlags :: "32 word \<Rightarrow> 32 word" where
  "CFMutableVarietyFromFlags flags = flags AND 3"

definition CFDataSetInline :: "CFData \<Rightarrow> bool \<Rightarrow> CFData" where
  "CFDataSetInline data flag = data\<lparr>dt_cfinfo := CFBitfieldSetValue (dt_cfinfo data) 2 2 (if flag then 1 else 0)\<rparr>"

definition CFDataNeedsToZero :: "CFData \<Rightarrow> bool" where
  "CFDataNeedsToZero data \<longleftrightarrow> CFBitfieldGetValue (dt_cfinfo data) 6 6 \<noteq> 0"

definition CFDataSetNeedsToZero :: "CFData \<Rightarrow> bool \<Rightarrow> CFData" where
  "CFDataSetNeedsToZero data zero = data\<lparr>dt_cfinfo := CFBitfieldSetValue (dt_cfinfo data) 6 6 (if zero then 1 else 0)\<rparr>"

subsection \<open>Capacity\<close>

text \<open>\<open>1 << n\<close>, a shift of an \<open>int\<close>: undefined from 32 on, negative for 31.\<close>

definition int_bit :: "nat \<Rightarrow> int option" where
  "int_bit n = (if n < 32 then Some (sint (push_bit n (1 :: 32 word))) else None)"

definition CHUNK_SIZE :: int where "CHUNK_SIZE = 2 ^ 29"
definition LOW_THRESHOLD :: int where "LOW_THRESHOLD = 2 ^ 20"
definition HIGH_THRESHOLD :: int where "HIGH_THRESHOLD = 2 ^ 32"

definition CFDataRoundUpCapacity :: "int \<Rightarrow> int option" where
  "CFDataRoundUpCapacity capacity =
     (if capacity < 16 then Some 16
      else if capacity < LOW_THRESHOLD
      then (let idx = flsl (nat capacity) in int_bit (idx + (if idx mod 2 = 0 then 0 else 1)))
      else if capacity < HIGH_THRESHOLD then int_bit (flsl (nat capacity))
      else (let newCapacity = CHUNK_SIZE * (1 + capacity div 2 ^ (flsl (nat CHUNK_SIZE) - 1))
            in Some (min newCapacity CFDATA_MAX_SIZE)))"

definition CFDataShouldAllocateCleared :: "CFData \<Rightarrow> int \<Rightarrow> bool" where
  "CFDataShouldAllocateCleared data numBytes =
     (if CFDataUseAllocator data then False else numBytes > 128 * 1024)"

text \<open>A new block: cleared, or with the content \<open>garbage\<close>.  A negative size is never granted.\<close>

definition CFDataAllocate :: "(nat \<Rightarrow> byte) \<Rightarrow> int \<Rightarrow> bool \<Rightarrow> byte list option" where
  "CFDataAllocate garbage numBytes clear =
     (if numBytes < 0 then None
      else Some (if clear then replicate (nat numBytes) 0 else map garbage [0..<nat numBytes]))"

text \<open>\<open>realloc\<close>: the common prefix is kept.\<close>

definition reallocate :: "(nat \<Rightarrow> byte) \<Rightarrow> byte list \<Rightarrow> int \<Rightarrow> byte list option" where
  "reallocate garbage old numBytes =
     (if numBytes < 0 then None
      else Some (map (\<lambda>i. if i < length old then old ! i else garbage i) [0..<nat numBytes]))"

definition bytes_of :: "byte list option \<Rightarrow> byte list" where
  "bytes_of b = (case b of None \<Rightarrow> [] | Some b \<Rightarrow> b)"

definition CFDataGrow :: "(nat \<Rightarrow> byte) \<Rightarrow> CFData \<Rightarrow> int \<Rightarrow> bool \<Rightarrow> CFData option" where
  "CFDataGrow garbage data numNewValues clear =
     (let oldLength = dt_length data;
          newLength = oldLength + numNewValues;
          oldBytes = bytes_of (dt_bytes data)
      in if newLength > CFDATA_MAX_SIZE \<or> newLength < 0 then None
      else do {
        capacity \<leftarrow> CFDataRoundUpCapacity newLength;
        let allocateCleared = (clear \<and> CFDataShouldAllocateCleared data capacity);
        let moving = (allocateCleared \<and> \<not> CFDataUseAllocator data \<and>
                        (oldLength = 0 \<or> newLength div oldLength > 4));
        bytes \<leftarrow>
          (if moving
           then do { bytes \<leftarrow> CFDataAllocate garbage capacity True;
                     memmove bytes 0 oldBytes 0 (nat oldLength) }
           else reallocate garbage oldBytes capacity);
        let allocateCleared = moving;
        bytes \<leftarrow>
          (if clear \<and> \<not> allocateCleared \<and> oldLength < newLength
           then mem_write bytes (nat oldLength) (replicate (nat (newLength - oldLength)) 0)
           else Some bytes);
        let data = data\<lparr>dt_capacity := capacity\<rparr>;
        let data = CFDataSetNeedsToZero data (\<not> allocateCleared);
        Some (data\<lparr>dt_bytes := Some bytes\<rparr>) })"

subsection \<open>Changing the bytes\<close>

definition CFDataSetLength :: "(nat \<Rightarrow> byte) \<Rightarrow> CFData \<Rightarrow> int \<Rightarrow> CFData option" where
  "CFDataSetLength garbage data newLength =
     (let oldLength = dt_length data; capacity = dt_capacity data in
      do { data \<leftarrow>
             (if CFDataIsMutable data then
                (if newLength < 0 then None
                 else if capacity < newLength
                 then (if CFDataIsGrowable data then CFDataGrow garbage data (newLength - oldLength) True
                       else Some data)
                 else if oldLength < newLength \<and> CFDataNeedsToZero data
                 then do { bytes \<leftarrow> mem_write (bytes_of (dt_bytes data)) (nat oldLength)
                                      (replicate (nat (newLength - oldLength)) 0);
                           Some (data\<lparr>dt_bytes := Some bytes\<rparr>) }
                 else if newLength < oldLength then Some (CFDataSetNeedsToZero data True)
                 else Some data)
              else Some data);
           Some (data\<lparr>dt_length := newLength\<rparr>) })"

text \<open>\<open>extraLength\<close> is checked for its sign only; the sum is a signed addition.\<close>

definition CFDataIncreaseLength :: "(nat \<Rightarrow> byte) \<Rightarrow> CFData \<Rightarrow> int \<Rightarrow> CFData option" where
  "CFDataIncreaseLength garbage data extraLength =
     (if extraLength < 0 then None
      else if dt_length data + extraLength > 2 ^ 63 - 1 then None
      else CFDataSetLength garbage data (dt_length data + extraLength))"

text \<open>
  The source of a replacement: NULL, a buffer of the caller, or a position in the data's own bytes.
  \<open>src_bytes\<close> reads it at the time of the copy.
\<close>

datatype byte_source = NullBytes | Buffer "byte list" | OwnBytes nat

definition src_bytes :: "byte list \<Rightarrow> byte_source \<Rightarrow> nat \<Rightarrow> byte list option" where
  "src_bytes own src n =
     (case src of NullBytes \<Rightarrow> None | Buffer b \<Rightarrow> mem_read b 0 n | OwnBytes off \<Rightarrow> mem_read own off n)"

text \<open>\<open>if (bytePtr && newBytes && newBytes < bytePtr + capacity && bytePtr < newBytes + newLength)\<close>.\<close>

definition overlaps :: "CFData \<Rightarrow> byte_source \<Rightarrow> int \<Rightarrow> bool" where
  "overlaps data src newLength \<longleftrightarrow>
     (case src of OwnBytes off \<Rightarrow> dt_bytes data \<noteq> None \<and> int off < dt_capacity data \<and> 0 < int off + newLength
      | _ \<Rightarrow> False)"

definition CFDataReplaceBytes ::
  "(nat \<Rightarrow> byte) \<Rightarrow> CFData \<Rightarrow> int \<Rightarrow> int \<Rightarrow> byte_source \<Rightarrow> int \<Rightarrow> CFData option" where
  "CFDataReplaceBytes garbage data loc rlen newBytes newLength =
     (let len = dt_length data; newCount = len - rlen + newLength in
      if len < 0 \<or> rlen < 0 \<or> newLength < 0 \<or> newCount < 0 \<or> loc < 0 then None
      else do {
        (data, srcBuf) \<leftarrow>
          (if CFMutableVariety data = kCFMutable then
             (if dt_capacity data < newCount
              then do { srcBuf \<leftarrow> (if overlaps data newBytes newLength
                          then map_option Buffer (src_bytes (bytes_of (dt_bytes data)) newBytes (nat newLength))
                          else Some newBytes);
                        data \<leftarrow> CFDataGrow garbage data (newLength - rlen) False;
                        Some (data, srcBuf) }
              else Some (data, newBytes))
           else if CFMutableVariety data = kCFFixedMutable then
             (if newCount > dt_capacity data then None else Some (data, newBytes))
           else Some (data, newBytes));
        let b = bytes_of (dt_bytes data);
        b \<leftarrow> (if newLength \<noteq> rlen \<and> loc + rlen < len
              then memmove b (nat (loc + newLength)) b (nat (loc + rlen)) (nat (len - loc - rlen))
              else Some b);
        b \<leftarrow> (if 0 < newLength
              then do { block \<leftarrow> src_bytes b srcBuf (nat newLength); mem_write b (nat loc) block }
              else Some b);
        Some (data\<lparr>dt_bytes := (if dt_bytes data = None then None else Some b), dt_length := newCount\<rparr>) })"

definition CFDataAppendBytes :: "(nat \<Rightarrow> byte) \<Rightarrow> CFData \<Rightarrow> byte_source \<Rightarrow> int \<Rightarrow> CFData option" where
  "CFDataAppendBytes garbage data bytes len = CFDataReplaceBytes garbage data (dt_length data) 0 bytes len"

definition CFDataDeleteBytes :: "(nat \<Rightarrow> byte) \<Rightarrow> CFData \<Rightarrow> int \<Rightarrow> int \<Rightarrow> CFData option" where
  "CFDataDeleteBytes garbage data loc rlen = CFDataReplaceBytes garbage data loc rlen NullBytes 0"

subsection \<open>Creation and queries\<close>

text \<open>
  \<open>threshold\<close> is INLINE_BYTES_THRESHOLD, which depends on the page size; \<open>useAllocator\<close> says that the
  allocator is a custom one; \<open>snowLeopard\<close> is \<open>_CFExecutableLinkedOnOrAfter(CFSystemVersionSnowLeopard)\<close>.
  The instance is created with its memory cleared.
\<close>

definition CFDataInit ::
  "(nat \<Rightarrow> byte) \<Rightarrow> int \<Rightarrow> bool \<Rightarrow> bool \<Rightarrow> 32 word \<Rightarrow> int \<Rightarrow> byte_source \<Rightarrow> int \<Rightarrow> bool \<Rightarrow> CFData option" where
  "CFDataInit garbage threshold useAllocator snowLeopard flags capacity bytes len noCopy =
     (let isMutable = (flags AND 1 \<noteq> 0);
          isGrowable = (flags AND 2 \<noteq> 0);
          allocateInline = (\<not> isGrowable \<and> \<not> noCopy \<and> capacity < threshold);
          memory = \<lparr>dt_cfinfo = 0, dt_length = 0, dt_capacity = 0, dt_deallocator = False, dt_bytes = None\<rparr>;
          memory = CFDataSetInfoBits memory ((if allocateInline then 4 else 0) OR (if useAllocator then 8 else 0))
      in do {
        memory \<leftarrow>
          (if isMutable \<and> isGrowable
           then do { c \<leftarrow> CFDataRoundUpCapacity 1;
                     Some (CFSetMutableVariety (memory\<lparr>dt_capacity := c\<rparr>) kCFMutable) }
           else Some (CFSetMutableVariety (memory\<lparr>dt_capacity := capacity\<rparr>) kCFFixedMutable));
        memory \<leftarrow>
          (if noCopy
           then do { b \<leftarrow> src_bytes [] bytes (nat len);
                     Some (memory\<lparr>dt_bytes := Some b, dt_deallocator := True, dt_length := len\<rparr>) }
           else do {
             let cleared = (isMutable \<and> \<not> isGrowable \<and> \<not> snowLeopard);
             (memory, cleared) \<leftarrow>
               (if \<not> allocateInline
                then do { b \<leftarrow> CFDataAllocate garbage (dt_capacity memory) cleared;
                          Some (memory\<lparr>dt_bytes := Some b\<rparr>, cleared) }
                else Some (if len = 0 \<and> \<not> isMutable then CFDataSetInline memory False
                           else memory\<lparr>dt_bytes := Some (replicate (nat capacity) 0)\<rparr>, True));
             CFDataReplaceBytes garbage (CFDataSetNeedsToZero memory (\<not> cleared)) 0 0 bytes len });
        Some (CFSetMutableVariety memory (CFMutableVarietyFromFlags flags)) })"

definition CFDataCreate ::
  "(nat \<Rightarrow> byte) \<Rightarrow> int \<Rightarrow> bool \<Rightarrow> bool \<Rightarrow> byte_source \<Rightarrow> int \<Rightarrow> CFData option" where
  "CFDataCreate garbage threshold useAllocator snowLeopard bytes len =
     CFDataInit garbage threshold useAllocator snowLeopard kCFImmutable len bytes len False"

definition CFDataCreateWithBytesNoCopy ::
  "(nat \<Rightarrow> byte) \<Rightarrow> int \<Rightarrow> bool \<Rightarrow> bool \<Rightarrow> byte_source \<Rightarrow> int \<Rightarrow> CFData option" where
  "CFDataCreateWithBytesNoCopy garbage threshold useAllocator snowLeopard bytes len =
     CFDataInit garbage threshold useAllocator snowLeopard kCFImmutable len bytes len True"

definition CFDataGetLength :: "CFData \<Rightarrow> int" where "CFDataGetLength data = dt_length data"

definition CFDataGetBytePtr :: "CFData \<Rightarrow> byte list" where "CFDataGetBytePtr data = bytes_of (dt_bytes data)"

definition CFDataCreateCopy :: "(nat \<Rightarrow> byte) \<Rightarrow> int \<Rightarrow> bool \<Rightarrow> bool \<Rightarrow> CFData \<Rightarrow> CFData option" where
  "CFDataCreateCopy garbage threshold useAllocator snowLeopard data =
     CFDataInit garbage threshold useAllocator snowLeopard kCFImmutable (CFDataGetLength data)
       (Buffer (CFDataGetBytePtr data)) (CFDataGetLength data) False"

definition CFDataCreateMutable :: "(nat \<Rightarrow> byte) \<Rightarrow> int \<Rightarrow> bool \<Rightarrow> bool \<Rightarrow> int \<Rightarrow> CFData option" where
  "CFDataCreateMutable garbage threshold useAllocator snowLeopard capacity =
     CFDataInit garbage threshold useAllocator snowLeopard (if 0 = capacity then kCFMutable else kCFFixedMutable)
       capacity NullBytes 0 False"

definition CFDataCreateMutableCopy :: "(nat \<Rightarrow> byte) \<Rightarrow> int \<Rightarrow> bool \<Rightarrow> bool \<Rightarrow> int \<Rightarrow> CFData \<Rightarrow> CFData option" where
  "CFDataCreateMutableCopy garbage threshold useAllocator snowLeopard capacity data =
     CFDataInit garbage threshold useAllocator snowLeopard (if 0 = capacity then kCFMutable else kCFFixedMutable)
       capacity (Buffer (CFDataGetBytePtr data)) (CFDataGetLength data) False"

definition CFDataGetBytes :: "CFData \<Rightarrow> CFRange \<Rightarrow> byte list option" where
  "CFDataGetBytes data r = mem_read (CFDataGetBytePtr data) (location r) (range_length r)"

definition CFDataEqual :: "CFData \<Rightarrow> CFData \<Rightarrow> bool option" where
  "CFDataEqual data1 data2 =
     (let len = dt_length data1 in
      if len \<noteq> dt_length data2 then Some False
      else do { a \<leftarrow> mem_read (CFDataGetBytePtr data1) 0 (nat len);
                b \<leftarrow> mem_read (CFDataGetBytePtr data2) 0 (nat len);
                Some (a = b) })"

definition CFDataHash :: "CFData \<Rightarrow> 32 word option" where
  "CFDataHash data = CFHashBytes (CFDataGetBytePtr data) (min (dt_length data) 80)"

subsection \<open>The header byte\<close>

named_theorems cf_data "selectors of a data object after an update of its header"

lemma and_pow_neq_0: "(w :: 'a::len word) AND push_bit k 1 \<noteq> 0 \<longleftrightarrow> bit w k"
proof
  assume "w AND push_bit k 1 \<noteq> 0"
  then obtain i where "bit (w AND push_bit k 1) i" using bit_eqI [of "w AND push_bit k 1" 0] by auto
  then show "bit w k" by (auto simp: bit_simps le_less_Suc_eq)
next
  assume b: "bit w k"
  then have "bit (w AND push_bit k 1) k" by (auto simp: bit_simps dest: bit_imp_le_length)
  then show "w AND push_bit k 1 \<noteq> 0" by (metis bit_0_eq bot_apply bot_bool_def)
qed

lemma info_bits:
  "CFDataIsMutable d \<longleftrightarrow> bit (dt_cfinfo d) 0"
  "CFDataIsGrowable d \<longleftrightarrow> bit (dt_cfinfo d) 1"
  "CFDataBytesInline d \<longleftrightarrow> bit (dt_cfinfo d) 2"
  "CFDataUseAllocator d \<longleftrightarrow> bit (dt_cfinfo d) 3"
proof -
  have step: "CFDataGetInfoBit d (push_bit k 1) \<longleftrightarrow> bit (dt_cfinfo d) k" if "k < 8" for k
    unfolding CFDataGetInfoBit_def and_pow_neq_0 using that by (simp add: bit_simps)
  show "CFDataIsMutable d \<longleftrightarrow> bit (dt_cfinfo d) 0"
    "CFDataIsGrowable d \<longleftrightarrow> bit (dt_cfinfo d) 1"
    "CFDataBytesInline d \<longleftrightarrow> bit (dt_cfinfo d) 2"
    "CFDataUseAllocator d \<longleftrightarrow> bit (dt_cfinfo d) 3"
    using step [of 0] step [of 1] step [of 2] step [of 3]
    by (simp_all add: CFDataIsMutable_def CFDataIsGrowable_def CFDataBytesInline_def CFDataUseAllocator_def
        push_bit_eq_mult)
qed

lemma bit_of_get: "i \<le> n1 - n2 \<Longrightarrow> n2 \<le> n1 \<Longrightarrow> n1 \<le> 7 \<Longrightarrow>
    bit (CFBitfieldGetValue v n1 n2) i \<longleftrightarrow> bit v (n2 + i)"
  by (auto simp: CFBitfieldGetValue_def bit_simps bit_CFBitfieldMask)

lemma variety_bits:
  "bit (dt_cfinfo d) 0 = bit (CFMutableVariety d) 0"
  "bit (dt_cfinfo d) 1 = bit (CFMutableVariety d) 1"
  unfolding CFMutableVariety_def by (subst bit_of_get; simp)+

lemma variety_mutable [cf_data]:
  "CFMutableVariety d = kCFMutable \<Longrightarrow> CFDataIsMutable d \<and> CFDataIsGrowable d"
  "CFMutableVariety d = kCFFixedMutable \<Longrightarrow> CFDataIsMutable d \<and> \<not> CFDataIsGrowable d"
  "CFMutableVariety d = kCFImmutable \<Longrightarrow> \<not> CFDataIsMutable d \<and> \<not> CFDataIsGrowable d"
  unfolding info_bits variety_bits
  by (simp_all add: kCFMutable_def kCFFixedMutable_def kCFImmutable_def bit_0 bit_Suc bit_1_iff)

lemma needs_to_zero_set [simp]:
  "CFDataNeedsToZero (CFDataSetNeedsToZero d z) = z"
  by (simp add: CFDataNeedsToZero_def CFDataSetNeedsToZero_def CFBitfield_get_set)

lemma set_needs_to_zero_sel [simp]:
  "dt_length (CFDataSetNeedsToZero d z) = dt_length d"
  "dt_capacity (CFDataSetNeedsToZero d z) = dt_capacity d"
  "dt_deallocator (CFDataSetNeedsToZero d z) = dt_deallocator d"
  "dt_bytes (CFDataSetNeedsToZero d z) = dt_bytes d"
  "CFMutableVariety (CFDataSetNeedsToZero d z) = CFMutableVariety d"
  by (simp_all add: CFDataSetNeedsToZero_def CFMutableVariety_def CFBitfield_get_set_other)

lemma variety_upd [simp]:
  "CFMutableVariety (d\<lparr>dt_length := n\<rparr>) = CFMutableVariety d"
  "CFMutableVariety (d\<lparr>dt_bytes := b\<rparr>) = CFMutableVariety d"
  "CFMutableVariety (d\<lparr>dt_capacity := n\<rparr>) = CFMutableVariety d"
  by (simp_all add: CFMutableVariety_def)

lemma needs_to_zero_upd [simp]:
  "CFDataNeedsToZero (d\<lparr>dt_length := n\<rparr>) = CFDataNeedsToZero d"
  "CFDataNeedsToZero (d\<lparr>dt_bytes := b\<rparr>) = CFDataNeedsToZero d"
  "CFDataNeedsToZero (d\<lparr>dt_capacity := n\<rparr>) = CFDataNeedsToZero d"
  by (simp_all add: CFDataNeedsToZero_def)

subsection \<open>Rounding a capacity\<close>

lemma flsl_eq: "2 ^ k \<le> n \<Longrightarrow> n < 2 ^ Suc k \<Longrightarrow> flsl n = Suc k"
proof (rule antisym)
  assume "n < 2 ^ Suc k" then show "flsl n \<le> Suc k" by (rule flsl_le)
next
  assume le: "2 ^ k \<le> n"
  have "(2 :: nat) ^ k < 2 ^ flsl n" using le flsl_upper [of n] by linarith
  then show "Suc k \<le> flsl n" by simp
qed

lemma int_bit_small: "n \<le> 30 \<Longrightarrow> int_bit n = Some (2 ^ n)"
  using sint_shifted_one [of n] by (simp only: int_bit_def) simp

lemma flsl_int: "0 \<le> c \<Longrightarrow> c < 2 ^ flsl (nat c)"
proof -
  assume c: "0 \<le> c"
  have "int (nat c) < int (2 ^ flsl (nat c))" using flsl_upper [of "nat c"] by (simp only: of_nat_less_iff)
  with c show ?thesis by simp
qed

lemma flsl_int_lower: "0 < c \<Longrightarrow> 2 ^ flsl (nat c) \<le> 2 * c"
proof -
  assume c: "0 < c"
  have "int (2 ^ (flsl (nat c) - 1)) \<le> int (nat c)" using flsl_lower [of "nat c"] c by (simp only: of_nat_le_iff zero_less_nat_eq)
  moreover have "0 < flsl (nat c)" using c by (simp add: flsl.simps [of "nat c"])
  ultimately show ?thesis using c by (cases "flsl (nat c)") auto
qed

text \<open>The capacities for which the rounding is computed without leaving the range of an \<open>int\<close>.\<close>

definition roundable :: "int \<Rightarrow> bool" where
  "roundable c \<longleftrightarrow> c < 2 ^ 30 \<or> 2 ^ 32 \<le> c"

lemma flsl_int_le: "0 \<le> c \<Longrightarrow> c < 2 ^ k \<Longrightarrow> flsl (nat c) \<le> k"
proof (rule flsl_le)
  assume c: "0 \<le> c" "c < 2 ^ k"
  then have "int (nat c) < int (2 ^ k)" by simp
  then show "nat c < 2 ^ k" by (simp only: of_nat_less_iff)
qed

lemma round_up_low:
  assumes "16 \<le> c" "c < LOW_THRESHOLD"
  shows "\<exists>m. CFDataRoundUpCapacity c = Some m \<and> c < m \<and> m \<le> 4 * c"
proof -
  define k where "k = flsl (nat c)"
  have k20: "k \<le> 20" unfolding k_def
    by (rule flsl_int_le) (use assms in \<open>simp_all add: LOW_THRESHOLD_def\<close>)
  have up: "c < 2 ^ k" unfolding k_def using assms by (intro flsl_int) simp
  have low: "2 ^ k \<le> 2 * c" unfolding k_def using assms by (intro flsl_int_lower) simp
  define n where "n = k + (if k mod 2 = 0 then 0 else 1)"
  have n: "n = k \<or> n = Suc k" by (simp add: n_def)
  have eq: "CFDataRoundUpCapacity c = Some (2 ^ n)"
    unfolding CFDataRoundUpCapacity_def Let_def k_def [symmetric] n_def [symmetric]
    using assms n k20 by (auto simp: int_bit_small)
  have "(2::int) ^ n = 2 ^ k \<or> (2::int) ^ n = 2 * 2 ^ k" using n by auto
  moreover obtain P where P: "P = (2::int) ^ k" by simp
  ultimately have "c < 2 ^ n" "2 ^ n \<le> 4 * c" using up low assms(1) by auto
  with eq show ?thesis by blast
qed

lemma round_up_mid:
  assumes "LOW_THRESHOLD \<le> c" "c < 2 ^ 30"
  shows "\<exists>m. CFDataRoundUpCapacity c = Some m \<and> c < m \<and> m \<le> 2 * c"
proof -
  define k where "k = flsl (nat c)"
  have c: "1048576 \<le> c" using assms by (simp add: LOW_THRESHOLD_def)
  have k30: "k \<le> 30" unfolding k_def by (rule flsl_int_le) (use assms c in simp_all)
  have up: "c < 2 ^ k" unfolding k_def using c by (intro flsl_int) simp
  have low: "2 ^ k \<le> 2 * c" unfolding k_def using c by (intro flsl_int_lower) simp
  have "CFDataRoundUpCapacity c = Some (2 ^ k)"
    unfolding CFDataRoundUpCapacity_def Let_def k_def [symmetric]
    using assms c k30 by (simp add: LOW_THRESHOLD_def HIGH_THRESHOLD_def int_bit_small)
  with up low show ?thesis by blast
qed

lemma round_up_high:
  assumes "2 ^ 32 \<le> c" "c \<le> CFDATA_MAX_SIZE"
  shows "\<exists>m. CFDataRoundUpCapacity c = Some m \<and> c \<le> m \<and> m \<le> CFDATA_MAX_SIZE \<and> m \<le> c + CHUNK_SIZE"
proof -
  have f: "flsl (nat CHUNK_SIZE) - 1 = 29"
    using flsl_eq [of 29 "nat CHUNK_SIZE"] by (simp add: CHUNK_SIZE_def)
  have "CFDataRoundUpCapacity c = Some (min (CHUNK_SIZE * (1 + c div 2 ^ 29)) CFDATA_MAX_SIZE)"
    unfolding CFDataRoundUpCapacity_def Let_def f using assms
    by (simp add: LOW_THRESHOLD_def HIGH_THRESHOLD_def)
  moreover have "c \<le> CHUNK_SIZE * (1 + c div 2 ^ 29)" "CHUNK_SIZE * (1 + c div 2 ^ 29) \<le> c + CHUNK_SIZE"
    by (simp_all add: CHUNK_SIZE_def)
  ultimately show ?thesis using assms by auto
qed

lemma round_up_ok:
  assumes "roundable c" "c \<le> CFDATA_MAX_SIZE"
  shows "\<exists>m. CFDataRoundUpCapacity c = Some m \<and> c \<le> m \<and> 16 \<le> m"
proof -
  consider "c < 16" | "16 \<le> c" "c < LOW_THRESHOLD" | "LOW_THRESHOLD \<le> c" "c < 2 ^ 30" | "2 ^ 32 \<le> c"
    using assms(1) unfolding roundable_def by linarith
  then show ?thesis
  proof cases
    case 1
    then show ?thesis by (simp add: CFDataRoundUpCapacity_def)
  next
    case 2
    then show ?thesis using round_up_low [of c] by fastforce
  next
    case 3
    then show ?thesis using round_up_mid [of c] by (fastforce simp: LOW_THRESHOLD_def)
  next
    case 4
    then show ?thesis using round_up_high [of c] assms(2) by fastforce
  qed
qed

lemma round_up_gap:
  "2 ^ 30 \<le> c \<Longrightarrow> c < 2 ^ 31 \<Longrightarrow> CFDataRoundUpCapacity c = Some (- (2 ^ 31))"
  "2 ^ 31 \<le> c \<Longrightarrow> c < 2 ^ 32 \<Longrightarrow> CFDataRoundUpCapacity c = None"
proof -
  have int_bit_31: "int_bit 31 = Some (- (2 ^ 31))" and int_bit_32: "int_bit 32 = None" by code_simp+
  { assume c: "2 ^ 30 \<le> c" "c < 2 ^ 31"
    have "flsl (nat c) = Suc 30" by (rule flsl_eq) (use c in \<open>simp_all add: nat_less_iff\<close>)
    then show "CFDataRoundUpCapacity c = Some (- (2 ^ 31))"
      using c int_bit_31 by (simp add: CFDataRoundUpCapacity_def LOW_THRESHOLD_def HIGH_THRESHOLD_def) }
  { assume c: "2 ^ 31 \<le> c" "c < 2 ^ 32"
    have "flsl (nat c) = Suc 31" by (rule flsl_eq) (use c in \<open>simp_all add: nat_less_iff\<close>)
    then show "CFDataRoundUpCapacity c = None"
      using c int_bit_32 by (simp add: CFDataRoundUpCapacity_def LOW_THRESHOLD_def HIGH_THRESHOLD_def) }
qed

text \<open>\<open>__CFDataRoundUpCapacity\<close> returns at least what is asked for and at most four times as much, up
  to 2^30 bytes, and at most a chunk more from 2^32 bytes on.  In between it does not work: \<open>1 <<
  flsl(capacity)\<close> is a shift of an \<open>int\<close>, so the result is - 2^31 for 2^30 to 2^31 bytes, and the
  shift is undefined above.\<close>

theorem data_round_up:
  "case CFDataRoundUpCapacity c of
     None \<Rightarrow> 2 ^ 31 \<le> c \<and> c < 2 ^ 32
   | Some m \<Rightarrow> if 2 ^ 30 \<le> c \<and> c < 2 ^ 31 then m = - (2 ^ 31)
        else if c < 16 then m = 16
        else if c < 2 ^ 30 then c < m \<and> m \<le> 4 * c
        else if c \<le> CFDATA_MAX_SIZE then 2 ^ 32 \<le> c \<and> c \<le> m \<and> m \<le> c + 2 ^ 29 \<and> m \<le> CFDATA_MAX_SIZE
        else 2 ^ 32 \<le> c \<and> m = CFDATA_MAX_SIZE"
proof -
  consider "c < 16" | "16 \<le> c" "c < LOW_THRESHOLD" | "LOW_THRESHOLD \<le> c" "c < 2 ^ 30"
    | "2 ^ 30 \<le> c" "c < 2 ^ 31" | "2 ^ 31 \<le> c" "c < 2 ^ 32"
    | "2 ^ 32 \<le> c" "c \<le> CFDATA_MAX_SIZE" | "CFDATA_MAX_SIZE < c" "2 ^ 32 \<le> c"
    by fastforce
  then show ?thesis
  proof cases
    case 1
    then show ?thesis by (simp add: CFDataRoundUpCapacity_def)
  next
    case 2
    then show ?thesis using round_up_low [of c] by (auto simp: LOW_THRESHOLD_def)
  next
    case 3
    then show ?thesis using round_up_mid [of c] by (auto simp: LOW_THRESHOLD_def)
  next
    case 4
    then show ?thesis by (simp add: round_up_gap)
  next
    case 5
    then show ?thesis by (simp add: round_up_gap)
  next
    case 6
    then show ?thesis using round_up_high [of c] by (auto simp: CHUNK_SIZE_def)
  next
    case 7
    have f: "flsl (nat CHUNK_SIZE) - 1 = 29"
      using flsl_eq [of 29 "nat CHUNK_SIZE"] by (simp add: CHUNK_SIZE_def)
    have "CFDATA_MAX_SIZE \<le> CHUNK_SIZE * (1 + c div 2 ^ 29)" using 7 by (simp add: CHUNK_SIZE_def)
    then have "CFDataRoundUpCapacity c = Some CFDATA_MAX_SIZE"
      unfolding CFDataRoundUpCapacity_def Let_def f using 7 by (simp add: LOW_THRESHOLD_def HIGH_THRESHOLD_def)
    then show ?thesis using 7 by (simp add: CFDATA_MAX_SIZE_def)
  qed
qed

subsection \<open>Growing\<close>

text \<open>
  \<open>data_bytes\<close> is the value of a data object.  The invariant: the length is within the capacity, and the
  block has as many bytes as the capacity says.  \<open>data_zeroed\<close> is what the header bit "not all bytes have
  been zeroed yet" promises when it is off.
\<close>

definition data_bytes :: "CFData \<Rightarrow> byte list" where
  "data_bytes d = take (nat (dt_length d)) (bytes_of (dt_bytes d))"

definition data_wf :: "CFData \<Rightarrow> bool" where
  "data_wf d \<longleftrightarrow> 0 \<le> dt_length d \<and> dt_length d \<le> dt_capacity d \<and>
     length (bytes_of (dt_bytes d)) = nat (dt_capacity d) \<and> (dt_bytes d = None \<longrightarrow> dt_capacity d = 0)"

definition data_zeroed :: "CFData \<Rightarrow> bool" where
  "data_zeroed d \<longleftrightarrow>
     (\<not> CFDataNeedsToZero d \<longrightarrow> (\<forall>i < length (bytes_of (dt_bytes d)). nat (dt_length d) \<le> i \<longrightarrow> bytes_of (dt_bytes d) ! i = 0))"

lemma bytes_of_Some [simp]: "bytes_of (Some b) = b"
  by (simp add: bytes_of_def)

lemma bytes_of_None [simp]: "bytes_of None = []"
  by (simp add: bytes_of_def)

lemma data_wf_length [simp]: "data_wf d \<Longrightarrow> length (data_bytes d) = nat (dt_length d)"
  by (auto simp: data_wf_def data_bytes_def)

text \<open>The block that \<open>__CFDataGrow\<close> installs, by the three ways it is obtained.\<close>

lemma grow_block:
  assumes wf: "data_wf d" and n: "dt_length d \<le> newLength" "newLength \<le> m"
    and cap: "dt_capacity d \<le> m"
  shows "\<exists>b. (if moving then do { b \<leftarrow> CFDataAllocate garbage m True;
                 memmove b 0 (bytes_of (dt_bytes d)) 0 (nat (dt_length d)) }
              else reallocate garbage (bytes_of (dt_bytes d)) m) = Some b \<and>
             length b = nat m \<and> take (nat (dt_length d)) b = data_bytes d \<and>
             (moving \<longrightarrow> (\<forall>i < length b. nat (dt_length d) \<le> i \<longrightarrow> b ! i = 0))"
proof (cases moving)
  case True
  let ?b = "data_bytes d @ replicate (nat m - nat (dt_length d)) 0"
  have len: "nat (dt_length d) \<le> length (bytes_of (dt_bytes d))" "nat (dt_length d) \<le> nat m"
    using wf n by (auto simp: data_wf_def)
  have "memmove (replicate (nat m) 0) 0 (bytes_of (dt_bytes d)) 0 (nat (dt_length d)) = Some ?b"
    using len by (simp add: memmove_Some data_bytes_def)
  then show ?thesis
    using True wf n len
    by (auto simp: CFDataAllocate_def data_wf_def nth_append intro!: nth_replicate less_diff_iff [THEN iffD2])
next
  case False
  let ?old = "bytes_of (dt_bytes d)"
  let ?b = "map (\<lambda>i. if i < length ?old then ?old ! i else garbage i) [0..<nat m]"
  have len: "nat (dt_length d) \<le> length ?old" "nat (dt_length d) \<le> nat m"
    using wf n by (auto simp: data_wf_def)
  have "take (nat (dt_length d)) ?b = data_bytes d"
    using len by (intro nth_equalityI) (auto simp: data_bytes_def)
  then show ?thesis using False wf n by (auto simp: reallocate_def data_wf_def)
qed

lemma CFDataGrow_ok:
  assumes wf: "data_wf d" and newLength: "newLength = dt_length d + n"
    and n: "0 < n" "dt_capacity d < newLength" "newLength \<le> CFDATA_MAX_SIZE" "roundable newLength"
  shows "\<exists>d'. CFDataGrow garbage d n clear = Some d' \<and> data_wf d' \<and> newLength \<le> dt_capacity d' \<and>
    dt_length d' = dt_length d \<and> data_bytes d' = data_bytes d \<and> CFMutableVariety d' = CFMutableVariety d \<and>
    data_zeroed d' \<and> dt_bytes d' \<noteq> None \<and>
    (clear \<longrightarrow> take (nat n) (drop (nat (dt_length d)) (bytes_of (dt_bytes d'))) = replicate (nat n) 0)"
proof -
  obtain m where m: "CFDataRoundUpCapacity newLength = Some m" "newLength \<le> m" "16 \<le> m"
    using round_up_ok [OF n(4,3)] by blast
  have l: "0 \<le> dt_length d" "dt_length d \<le> dt_capacity d" using wf by (auto simp: data_wf_def)
  define moving where "moving \<longleftrightarrow> (clear \<and> CFDataShouldAllocateCleared d m) \<and> \<not> CFDataUseAllocator d \<and>
                        (dt_length d = 0 \<or> newLength div dt_length d > 4)"
  obtain b where b: "(if moving then do { b \<leftarrow> CFDataAllocate garbage m True;
                 memmove b 0 (bytes_of (dt_bytes d)) 0 (nat (dt_length d)) }
              else reallocate garbage (bytes_of (dt_bytes d)) m) = Some b"
    "length b = nat m" "take (nat (dt_length d)) b = data_bytes d"
    "moving \<longrightarrow> (\<forall>i < length b. nat (dt_length d) \<le> i \<longrightarrow> b ! i = 0)"
    using grow_block [OF wf, of newLength m moving garbage] n m newLength by auto
  define b2 where "b2 = (if clear \<and> \<not> moving
    then take (nat (dt_length d)) b @ replicate (nat n) 0 @ drop (nat newLength) b else b)"
  have nl: "nat (dt_length d) + nat n = nat newLength" "nat newLength \<le> nat m"
    using newLength l n m by (simp_all add: nat_add_distrib)
  have wrote: "(if clear \<and> \<not> moving \<and> dt_length d < newLength
     then mem_write b (nat (dt_length d)) (replicate (nat (newLength - dt_length d)) 0) else Some b) = Some b2"
    using n newLength b nl by (auto simp: b2_def mem_write_Some)
  have grow: "CFDataGrow garbage d n clear =
    Some ((CFDataSetNeedsToZero (d\<lparr>dt_capacity := m\<rparr>) (\<not> moving))\<lparr>dt_bytes := Some b2\<rparr>)"
    unfolding CFDataGrow_def Let_def newLength [symmetric] m(1) Option.bind.bind_lunit moving_def [symmetric] b(1) wrote
    using n newLength l by (simp add: not_less)
  have "nat (dt_length d) + (nat n + nat m) - nat newLength = nat m" by (metis nl(1) add.assoc diff_add_inverse)
  then have len2: "length b2 = nat m" using b nl wf by (auto simp: b2_def)
  have take2: "take (nat (dt_length d)) b2 = data_bytes d" using b nl wf by (auto simp: b2_def)
  have zero2: "clear \<longrightarrow> take (nat n) (drop (nat (dt_length d)) b2) = replicate (nat n) 0"
  proof (cases moving)
    case True
    then have "b2 = b" "\<forall>i < length b. nat (dt_length d) \<le> i \<longrightarrow> b ! i = 0" using b by (auto simp: b2_def)
    moreover have "nat n \<le> nat m - nat (dt_length d)"
      by (rule add_le_imp_le_diff) (use nl in \<open>metis add.commute\<close>)
    ultimately show ?thesis using b nl wf by (intro impI nth_equalityI) (auto simp: min_absorb2)
  next
    case False
    then show ?thesis using b nl wf by (auto simp: b2_def)
  qed
  have "moving \<longrightarrow> (\<forall>i < length b2. nat (dt_length d) \<le> i \<longrightarrow> b2 ! i = 0)"
    using b by (auto simp: b2_def)
  with grow len2 take2 zero2 show ?thesis
    using l m n newLength
    by (intro exI [of _ "(CFDataSetNeedsToZero (d\<lparr>dt_capacity := m\<rparr>) (\<not> moving))\<lparr>dt_bytes := Some b2\<rparr>"])
      (simp add: data_wf_def data_bytes_def data_zeroed_def)
qed

subsection \<open>Replacing bytes\<close>

definition src_block :: "byte_source \<Rightarrow> nat \<Rightarrow> byte list" where
  "src_block src n = (case src of Buffer b \<Rightarrow> take n b | _ \<Rightarrow> [])"

definition src_ok :: "byte_source \<Rightarrow> nat \<Rightarrow> bool" where
  "src_ok src n \<longleftrightarrow> n = 0 \<or> (\<exists>b. src = Buffer b \<and> n \<le> length b)"

lemma src_ok_block: "src_ok src n \<Longrightarrow> length (src_block src n) = n"
  by (auto simp: src_ok_def src_block_def split: byte_source.split)

lemma src_ok_bytes: "src_ok src n \<Longrightarrow> 0 < n \<Longrightarrow> src_bytes own src n = Some (src_block src n)"
  by (auto simp: src_ok_def src_bytes_def src_block_def mem_read_Some)

text \<open>Closing or opening the gap and writing the block, on a block of memory.\<close>

definition splice :: "'a list \<Rightarrow> nat \<Rightarrow> nat \<Rightarrow> 'a list \<Rightarrow> 'a list" where
  "splice xs loc rlen ys = take loc xs @ ys @ drop (loc + rlen) xs"

lemma splice_block:
  assumes "len \<le> length b" "loc + rlen \<le> len" "loc + length ys + (len - loc - rlen) \<le> length b"
  shows "\<exists>b'. do { b \<leftarrow> (if length ys \<noteq> rlen \<and> loc + rlen < len
                        then memmove b (loc + length ys) b (loc + rlen) (len - loc - rlen) else Some b);
                   (if 0 < length ys then mem_write b loc ys else Some b) } = Some b' \<and>
     length b' = length b \<and>
     take (len - rlen + length ys) b' = splice (take len b) loc rlen ys \<and>
     drop (max len (len - rlen + length ys)) b' = drop (max len (len - rlen + length ys)) b"
proof -
  define b1 where "b1 = (if length ys \<noteq> rlen \<and> loc + rlen < len
     then take (loc + length ys) b @ take (len - loc - rlen) (drop (loc + rlen) b) @
       drop (loc + length ys + (len - loc - rlen)) b else b)"
  have move: "(if length ys \<noteq> rlen \<and> loc + rlen < len
      then memmove b (loc + length ys) b (loc + rlen) (len - loc - rlen) else Some b) = Some b1"
    using assms by (auto simp: b1_def memmove_Some)
  have len1: "length b1 = length b" using assms by (auto simp: b1_def)
  let ?b2 = "take loc b1 @ ys @ drop (loc + length ys) b1"
  have wrote: "(if 0 < length ys then mem_write b1 loc ys else Some b1) = Some ?b2"
    using assms len1 by (auto simp: mem_write_Some)
  have t1: "take loc b1 = take loc b" using assms by (auto simp: b1_def)
  have t2: "take (len - loc - rlen) (drop (loc + length ys) b1) = take (len - loc - rlen) (drop (loc + rlen) b)"
    using assms by (cases "length ys = rlen") (auto simp: b1_def)
  have t3: "drop (max len (len - rlen + length ys)) b1 = drop (max len (len - rlen + length ys)) b"
    using assms by (auto simp: b1_def max_def add.commute)
  have n: "len - rlen + length ys = loc + (length ys + (len - loc - rlen))" using assms by simp
  have "take (len - rlen + length ys) ?b2 = take loc b @ ys @ take (len - loc - rlen) (drop (loc + rlen) b)"
    using assms len1 unfolding n t1 [symmetric] t2 [symmetric] by (simp add: min_absorb2 add.commute)
  moreover have "splice (take len b) loc rlen ys = take loc b @ ys @ take (len - loc - rlen) (drop (loc + rlen) b)"
    using assms by (simp add: splice_def min_absorb1 drop_take)
  moreover have "drop (max len (len - rlen + length ys)) ?b2 = drop (max len (len - rlen + length ys)) b1"
    using assms len1 by (auto simp: drop_append max_def)
  ultimately show ?thesis
    using move wrote len1 t3 assms
    by (intro exI [of _ ?b2]) simp
qed

text \<open>Whether a data object takes \<open>n\<close> bytes: without growing, or by growing to a capacity that can be rounded.\<close>

definition data_room :: "CFData \<Rightarrow> int \<Rightarrow> bool" where
  "data_room d n \<longleftrightarrow> n \<le> dt_capacity d \<or>
     CFMutableVariety d = kCFMutable \<and> n \<le> CFDATA_MAX_SIZE \<and> roundable n"

lemma replace_bytes_prepared:
  fixes d :: CFData
  assumes wf: "data_wf d" and src: "src_ok src n"
    and pos: "loc + rlen \<le> nat (dt_length d)"
    and room: "data_room d (dt_length d - int rlen + int n)"
  shows "\<exists>d1. (if CFMutableVariety d = kCFMutable then
             (if dt_capacity d < dt_length d - int rlen + int n
              then do { srcBuf \<leftarrow> (if overlaps d src (int n)
                          then map_option Buffer (src_bytes (bytes_of (dt_bytes d)) src (nat (int n)))
                          else Some src);
                        data \<leftarrow> CFDataGrow garbage d (int n - int rlen) False;
                        Some (data, srcBuf) }
              else Some (d, src))
           else if CFMutableVariety d = kCFFixedMutable then
             (if dt_length d - int rlen + int n > dt_capacity d then None else Some (d, src))
           else Some (d, src)) = Some (d1, src) \<and>
    data_wf d1 \<and> dt_length d1 = dt_length d \<and> data_bytes d1 = data_bytes d \<and>
    CFMutableVariety d1 = CFMutableVariety d \<and> dt_length d - int rlen + int n \<le> dt_capacity d1 \<and>
    (data_zeroed d \<longrightarrow> data_zeroed d1)"
proof (cases "dt_capacity d < dt_length d - int rlen + int n")
  case False
  then show ?thesis using wf by (intro exI [of _ d]) simp
next
  case True
  then have grow: "CFMutableVariety d = kCFMutable" "dt_length d - int rlen + int n \<le> CFDATA_MAX_SIZE"
    "roundable (dt_length d - int rlen + int n)"
    using room by (auto simp: data_room_def)
  have "0 < int n - int rlen" using True wf by (simp add: data_wf_def)
  from CFDataGrow_ok [OF wf _ this, of "dt_length d - int rlen + int n" garbage False] True grow
  obtain d1 where d1: "CFDataGrow garbage d (int n - int rlen) False = Some d1" "data_wf d1"
    "dt_length d - int rlen + int n \<le> dt_capacity d1" "dt_length d1 = dt_length d"
    "data_bytes d1 = data_bytes d" "CFMutableVariety d1 = CFMutableVariety d" "data_zeroed d1"
    by (auto simp: algebra_simps)
  have "\<not> overlaps d src (int n)"
    using src \<open>0 < int n - int rlen\<close> by (auto simp: overlaps_def src_ok_def)
  with d1 grow(1) True show ?thesis by (intro exI [of _ d1]) simp
qed

lemma replace_bytes_ok:
  fixes d :: CFData
  assumes wf: "data_wf d" and src: "src_ok src n"
    and pos: "loc + rlen \<le> nat (dt_length d)"
    and room: "data_room d (dt_length d - int rlen + int n)"
  shows "\<exists>d'. CFDataReplaceBytes garbage d (int loc) (int rlen) src (int n) = Some d' \<and> data_wf d' \<and>
    dt_length d' = dt_length d - int rlen + int n \<and>
    data_bytes d' = splice (data_bytes d) loc rlen (src_block src n) \<and>
    CFMutableVariety d' = CFMutableVariety d \<and> (data_zeroed d \<and> rlen \<le> n \<longrightarrow> data_zeroed d')"
proof -
  obtain d1 where d1: "(if CFMutableVariety d = kCFMutable then
             (if dt_capacity d < dt_length d - int rlen + int n
              then do { srcBuf \<leftarrow> (if overlaps d src (int n)
                          then map_option Buffer (src_bytes (bytes_of (dt_bytes d)) src (nat (int n)))
                          else Some src);
                        data \<leftarrow> CFDataGrow garbage d (int n - int rlen) False;
                        Some (data, srcBuf) }
              else Some (d, src))
           else if CFMutableVariety d = kCFFixedMutable then
             (if dt_length d - int rlen + int n > dt_capacity d then None else Some (d, src))
           else Some (d, src)) = Some (d1, src)"
    "data_wf d1" "dt_length d1 = dt_length d" "data_bytes d1 = data_bytes d"
    "CFMutableVariety d1 = CFMutableVariety d" "dt_length d - int rlen + int n \<le> dt_capacity d1"
    "data_zeroed d \<longrightarrow> data_zeroed d1"
    using replace_bytes_prepared [OF assms, of garbage] by blast
  let ?ys = "src_block src n"
  define len where "len = nat (dt_length d)"
  define b where "b = bytes_of (dt_bytes d1)"
  have l: "0 \<le> dt_length d" "int len = dt_length d" using wf by (simp_all add: data_wf_def len_def)
  have ys: "length ?ys = n" using src by (rule src_ok_block)
  have lenb: "length b = nat (dt_capacity d1)" using d1(2) by (simp add: data_wf_def b_def)
  have fits: "len \<le> length b" "loc + length ?ys + (len - loc - rlen) \<le> length b"
    using d1(2,3,6) pos lenb l ys unfolding data_wf_def len_def by linarith+
  obtain b' where b': "do { b \<leftarrow> (if length ?ys \<noteq> rlen \<and> loc + rlen < len
        then memmove b (loc + length ?ys) b (loc + rlen) (len - loc - rlen) else Some b);
        (if 0 < length ?ys then mem_write b loc ?ys else Some b) } = Some b'"
    "length b' = length b" "take (len - rlen + n) b' = splice (take len b) loc rlen ?ys"
    "drop (max len (len - rlen + n)) b' = drop (max len (len - rlen + n)) b"
    using splice_block [OF fits(1) _ fits(2)] pos ys len_def by auto
  have block: "(if 0 < int n then do { block \<leftarrow> src_bytes b src n; mem_write b loc block } else Some b) =
      (if 0 < length ?ys then mem_write b loc ?ys else Some b)" for b
    using src ys by (auto simp: src_ok_bytes)
  have conv: "nat (int loc + int n) = loc + n" "nat (int loc + int rlen) = loc + rlen"
    "nat (dt_length d - int loc - int rlen) = len - loc - rlen"
    "int loc + int rlen < dt_length d \<longleftrightarrow> loc + rlen < len" "int n \<noteq> int rlen \<longleftrightarrow> n \<noteq> rlen"
    "nat (dt_length d - int rlen + int n) = len - rlen + n"
    using l pos unfolding len_def by linarith+
  let ?d' = "d1\<lparr>dt_bytes := (if dt_bytes d1 = None then None else Some b'),
                dt_length := dt_length d - int rlen + int n\<rparr>"
  have run: "CFDataReplaceBytes garbage d (int loc) (int rlen) src (int n) = Some ?d'"
  proof -
    have guard: "\<not> (dt_length d < 0 \<or> int rlen < 0 \<or> int n < 0 \<or> dt_length d - int rlen + int n < 0 \<or> int loc < 0)"
      using l pos len_def by linarith
    obtain b1 where "(if n \<noteq> rlen \<and> loc + rlen < len
        then memmove b (loc + n) b (loc + rlen) (len - loc - rlen) else Some b) = Some b1"
      "(if 0 < length ?ys then mem_write b1 loc ?ys else Some b1) = Some b'"
      using b'(1) unfolding option_bind_eq_Some ys by blast
    then show ?thesis
      unfolding CFDataReplaceBytes_def Let_def if_not_P [OF guard] d1(1) Option.bind.bind_lunit prod.case
      unfolding b_def [symmetric] conv nat_int block d1(3) by simp
  qed
  have none: "dt_bytes d1 = None \<Longrightarrow> b' = []"
    using b'(2) by (simp add: b_def)
  then have bytes: "bytes_of (dt_bytes ?d') = b'" by simp
  have "data_bytes ?d' = splice (data_bytes d) loc rlen ?ys"
    using b'(3) d1(4) unfolding data_bytes_def bytes by (simp add: conv b_def d1(3) len_def)
  moreover have nn: "0 \<le> dt_length d - int rlen + int n" using l pos len_def by linarith
  have "data_wf ?d'"
    unfolding data_wf_def bytes using d1(2,6) b'(2) lenb nn by (simp add: data_wf_def)
  moreover have "data_zeroed ?d'" if z: "data_zeroed d" "rlen \<le> n"
    unfolding data_zeroed_def bytes
  proof (intro impI allI)
    fix i
    assume nz: "\<not> CFDataNeedsToZero ?d'" and i: "i < length b'" "nat (dt_length ?d') \<le> i"
    have m: "max len (len - rlen + n) = len - rlen + n" using z(2) by simp
    have i2: "len - rlen + n \<le> i" using i(2) by (simp add: conv)
    have "b' ! i = b ! i"
      using arg_cong [OF b'(4), of "\<lambda>l. l ! (i - (len - rlen + n))"] i(1) i2 b'(2) unfolding m by simp
    moreover have "b ! i = 0"
      using d1(7) z(1) nz i i2 b'(2) \<open>rlen \<le> n\<close> unfolding data_zeroed_def
      by (auto simp: b_def d1(3) len_def)
    ultimately show "b' ! i = 0" by simp
  qed
  ultimately show ?thesis using run d1(5) by (intro exI [of _ ?d']) simp
qed

lemma CFDataGrow_no_room:
  assumes "newLength = dt_length d + n" "newLength > CFDATA_MAX_SIZE \<or> \<not> roundable newLength"
  shows "CFDataGrow garbage d n clear = None"
proof (cases "newLength > CFDATA_MAX_SIZE")
  case True
  then show ?thesis using assms(1) by (simp add: CFDataGrow_def Let_def)
next
  case False
  with assms(2) have "2 ^ 30 \<le> newLength" "newLength < 2 ^ 32" by (auto simp: roundable_def)
  then have "CFDataRoundUpCapacity newLength = Some (- (2 ^ 31)) \<or> CFDataRoundUpCapacity newLength = None"
    using round_up_gap [of newLength] by linarith
  then show ?thesis
    unfolding CFDataGrow_def Let_def assms(1) [symmetric]
    by (auto simp: reallocate_def CFDataShouldAllocateCleared_def)
qed

lemma splice_no_room:
  assumes "loc + rlen \<le> len" "len \<le> length b" "length b < len - rlen + n" "length ys = n"
  shows "do { b \<leftarrow> (if n \<noteq> rlen \<and> loc + rlen < len
                        then memmove b (loc + n) b (loc + rlen) (len - loc - rlen) else Some b);
              (if 0 < n then mem_write b loc ys else Some b) } = None"
  using assms by (auto simp: memmove_def mem_read_def mem_write_def)

lemma replace_bytes_no_room:
  fixes d :: CFData
  assumes wf: "data_wf d" and src: "src_ok src n"
    and pos: "loc + rlen \<le> nat (dt_length d)"
    and room: "\<not> data_room d (dt_length d - int rlen + int n)"
  shows "CFDataReplaceBytes garbage d (int loc) (int rlen) src (int n) = None"
proof -
  define len where "len = nat (dt_length d)"
  define b where "b = bytes_of (dt_bytes d)"
  have l: "0 \<le> dt_length d" "int len = dt_length d" using wf by (simp_all add: data_wf_def len_def)
  have full: "dt_capacity d < dt_length d - int rlen + int n" using room by (simp add: data_room_def)
  have guard: "\<not> (dt_length d < 0 \<or> int rlen < 0 \<or> int n < 0 \<or> dt_length d - int rlen + int n < 0 \<or> int loc < 0)"
    using l pos len_def by linarith
  consider "CFMutableVariety d = kCFMutable" | "CFMutableVariety d = kCFFixedMutable"
    | "CFMutableVariety d \<noteq> kCFMutable" "CFMutableVariety d \<noteq> kCFFixedMutable" by blast
  then show ?thesis
  proof cases
    case 1
    have "CFDataGrow garbage d (int n - int rlen) False = None"
      by (rule CFDataGrow_no_room [where newLength = "dt_length d - int rlen + int n"])
        (use 1 room in \<open>auto simp: data_room_def\<close>)
    then show ?thesis
      unfolding CFDataReplaceBytes_def Let_def if_not_P [OF guard] using 1 full by simp
  next
    case 2
    then show ?thesis
      unfolding CFDataReplaceBytes_def Let_def if_not_P [OF guard] using full
      by (simp add: kCFMutable_def kCFFixedMutable_def)
  next
    case 3
    have conv: "nat (int loc + int n) = loc + n" "nat (int loc + int rlen) = loc + rlen"
      "nat (dt_length d - int loc - int rlen) = len - loc - rlen"
      "int loc + int rlen < dt_length d \<longleftrightarrow> loc + rlen < len" "int n \<noteq> int rlen \<longleftrightarrow> n \<noteq> rlen"
      using l pos unfolding len_def by linarith+
    have block: "(if 0 < int n then do { block \<leftarrow> src_bytes b src n; mem_write b loc block } else Some b) =
        (if 0 < n then mem_write b loc (src_block src n) else Some b)" for b
      using src by (auto simp: src_ok_bytes)
    have lens: "len \<le> length b" "length b < len - rlen + n"
      using wf full pos l unfolding data_wf_def b_def len_def by linarith+
    have none: "do { b \<leftarrow> (if n \<noteq> rlen \<and> loc + rlen < len
                  then memmove b (loc + n) b (loc + rlen) (len - loc - rlen) else Some b);
                (if 0 < n then mem_write b loc (src_block src n) else Some b) } = None"
      by (rule splice_no_room) (use pos lens src_ok_block [OF src] in \<open>simp_all add: len_def\<close>)
    show ?thesis
      unfolding CFDataReplaceBytes_def Let_def if_not_P [OF guard] if_not_P [OF 3(1)] if_not_P [OF 3(2)]
        Option.bind.bind_lunit prod.case
      unfolding b_def [symmetric] conv nat_int block
      using none by (auto simp: bind_eq_None_conv split: option.splits)
  qed
qed

text \<open>C18: \<open>CFDataReplaceBytes\<close> implements a splice of byte strings: when the new length fits the capacity,
  or the data can grow to it, the range is replaced by the given bytes, the rest of the value and the
  variety are kept and every access is inside a block; the object stays well formed, and the promise of
  its "needs to zero" bit is kept unless bytes were removed.  Otherwise the call halts (or, for
  immutable data, leaves the block).  Appending and deleting are instances.\<close>

theorem data_replace_bytes:
  assumes "data_wf d" "src_ok src n" "loc + rlen \<le> nat (dt_length d)"
  shows "case CFDataReplaceBytes garbage d (int loc) (int rlen) src (int n) of
      None \<Rightarrow> \<not> data_room d (dt_length d - int rlen + int n)
    | Some d' \<Rightarrow> data_room d (dt_length d - int rlen + int n) \<and> data_wf d' \<and>
        dt_length d' = dt_length d - int rlen + int n \<and>
        data_bytes d' = splice (data_bytes d) loc rlen (src_block src n) \<and>
        CFMutableVariety d' = CFMutableVariety d \<and> (data_zeroed d \<and> rlen \<le> n \<longrightarrow> data_zeroed d')"
proof (cases "data_room d (dt_length d - int rlen + int n)")
  case True
  then show ?thesis using replace_bytes_ok [OF assms True, of garbage] by auto
next
  case False
  then show ?thesis using replace_bytes_no_room [OF assms False, of garbage] by simp
qed

text \<open>A growable object that holds four bytes in a block of 16.\<close>

definition data_example :: CFData where
  "data_example = \<lparr>dt_cfinfo = 0x43, dt_length = 4, dt_capacity = 16, dt_deallocator = False,
     dt_bytes = Some ([10, 20, 30, 40] @ replicate 12 7)\<rparr>"

lemma data_example_wf: "data_wf data_example" "CFMutableVariety data_example = kCFMutable"
  "data_bytes data_example = [10, 20, 30, 40]" "dt_length data_example = 4"
  by code_simp+

theorem data_replace_bytes_witness:
  "data_bytes (the (CFDataReplaceBytes (\<lambda>_. 0) data_example 1 2 (Buffer [1, 2, 3]) 3)) = [10, 1, 2, 3, 40]"
proof -
  have room: "data_room data_example 5" by (simp add: data_room_def data_example_def)
  have "src_ok (Buffer [1, 2, 3]) 3" by (simp add: src_ok_def)
  from data_replace_bytes [OF data_example_wf(1) this, of 1 2 "\<lambda>_. 0"] room show ?thesis
    by (auto simp: data_example_wf splice_def src_block_def split: option.splits)
qed

subsection \<open>Setting the length\<close>

lemma set_length_grows:
  assumes wf: "data_wf d" and n: "0 \<le> n" "dt_capacity d < n"
    and mut: "CFMutableVariety d = kCFMutable" "n \<le> CFDATA_MAX_SIZE" "roundable n"
  shows "\<exists>d'. CFDataSetLength garbage d n = Some d' \<and> data_wf d' \<and> data_zeroed d' \<and> dt_length d' = n \<and>
    data_bytes d' = data_bytes d @ replicate (nat n - nat (dt_length d)) 0 \<and>
    CFMutableVariety d' = CFMutableVariety d"
proof -
  have l: "0 \<le> dt_length d" "dt_length d \<le> dt_capacity d" using wf by (simp_all add: data_wf_def)
  have "0 < n - dt_length d" using l n by linarith
  from CFDataGrow_ok [OF wf _ this _ mut(2,3), of garbage True] n
  obtain d1 where d1: "CFDataGrow garbage d (n - dt_length d) True = Some d1" "data_wf d1" "n \<le> dt_capacity d1"
    "dt_length d1 = dt_length d" "data_bytes d1 = data_bytes d" "CFMutableVariety d1 = CFMutableVariety d"
    "data_zeroed d1"
    "take (nat (n - dt_length d)) (drop (nat (dt_length d)) (bytes_of (dt_bytes d1))) = replicate (nat (n - dt_length d)) 0"
    by (auto simp: algebra_simps)
  have run: "CFDataSetLength garbage d n = Some (d1\<lparr>dt_length := n\<rparr>)"
    unfolding CFDataSetLength_def Let_def using variety_mutable(1) [OF mut(1)] n d1(1) by simp
  have nats: "nat n = nat (dt_length d) + nat (n - dt_length d)" using l n by linarith
  have "data_bytes (d1\<lparr>dt_length := n\<rparr>) = data_bytes d @ replicate (nat (n - dt_length d)) 0"
    using d1(5) unfolding data_bytes_def d1(8) [symmetric] by (simp add: nats take_add d1(4))
  moreover have "nat (n - dt_length d) = nat n - nat (dt_length d)" using l by linarith
  moreover have "data_wf (d1\<lparr>dt_length := n\<rparr>)" using d1(2,3) n by (simp add: data_wf_def)
  moreover have "data_zeroed (d1\<lparr>dt_length := n\<rparr>)"
    using d1(4,7) l n unfolding data_zeroed_def by auto
  ultimately show ?thesis using run d1(6) by (intro exI [of _ "d1\<lparr>dt_length := n\<rparr>"]) simp
qed

lemma set_length_fits:
  assumes wf: "data_wf d" and z: "data_zeroed d" and n: "0 \<le> n" "n \<le> dt_capacity d"
    and mut: "CFDataIsMutable d"
  shows "\<exists>d'. CFDataSetLength garbage d n = Some d' \<and> data_wf d' \<and> data_zeroed d' \<and> dt_length d' = n \<and>
    data_bytes d' = take (nat n) (data_bytes d) @ replicate (nat n - nat (dt_length d)) 0 \<and>
    CFMutableVariety d' = CFMutableVariety d"
proof -
  have l: "0 \<le> dt_length d" "dt_length d \<le> dt_capacity d" using wf by (simp_all add: data_wf_def)
  define b where "b = bytes_of (dt_bytes d)"
  have lenb: "length b = nat (dt_capacity d)" using wf by (simp add: data_wf_def b_def)
  consider (shrink) "n < dt_length d" | (clear) "dt_length d < n" "CFDataNeedsToZero d"
    | (zeros) "dt_length d \<le> n" "\<not> CFDataNeedsToZero d" | (same) "n = dt_length d" by linarith
  then show ?thesis
  proof cases
    case shrink
    have "CFDataSetLength garbage d n = Some ((CFDataSetNeedsToZero d True)\<lparr>dt_length := n\<rparr>)"
      unfolding CFDataSetLength_def Let_def using shrink n mut by simp
    then show ?thesis
      using shrink n l wf lenb
      by (intro exI [of _ "(CFDataSetNeedsToZero d True)\<lparr>dt_length := n\<rparr>"])
        (auto simp: data_wf_def data_zeroed_def data_bytes_def min_def)
  next
    case clear
    define b2 where "b2 = take (nat (dt_length d)) b @ replicate (nat n - nat (dt_length d)) 0 @ drop (nat n) b"
    have nn: "nat (dt_length d) \<le> nat n" "nat n \<le> length b" "nat (n - dt_length d) = nat n - nat (dt_length d)"
      using clear n l lenb by linarith+
    have "mem_write b (nat (dt_length d)) (replicate (nat (n - dt_length d)) 0) = Some b2"
      using nn by (simp add: mem_write_Some b2_def)
    then have run: "CFDataSetLength garbage d n = Some (d\<lparr>dt_bytes := Some b2, dt_length := n\<rparr>)"
      unfolding CFDataSetLength_def Let_def b_def [symmetric] using clear n mut by simp
    have "length b2 = nat (dt_capacity d)" unfolding b2_def length_append using nn lenb by simp
    moreover have "take (nat n) b2 = take (nat n) (data_bytes d) @ replicate (nat n - nat (dt_length d)) 0"
      using nn by (simp add: data_bytes_def b_def b2_def)
    then have "data_bytes (d\<lparr>dt_bytes := Some b2, dt_length := n\<rparr>) =
        take (nat n) (data_bytes d) @ replicate (nat n - nat (dt_length d)) 0"
      by (simp add: data_bytes_def)
    moreover note run
    ultimately show ?thesis
      using n clear wf
      by (intro exI [of _ "d\<lparr>dt_bytes := Some b2, dt_length := n\<rparr>"])
        (simp add: data_wf_def data_zeroed_def)
  next
    case zeros
    have run: "CFDataSetLength garbage d n = Some (d\<lparr>dt_length := n\<rparr>)"
      unfolding CFDataSetLength_def Let_def using zeros n mut by simp
    have "take (nat n) b = take (nat (dt_length d)) b @ replicate (nat n - nat (dt_length d)) 0"
      using zeros z n l lenb unfolding data_zeroed_def b_def [symmetric]
      by (intro nth_equalityI) (auto simp: nth_append not_less)
    then show ?thesis
      using run n l wf z zeros
      by (intro exI [of _ "d\<lparr>dt_length := n\<rparr>"])
        (auto simp: data_wf_def data_zeroed_def data_bytes_def b_def [symmetric])
  next
    case same
    have "CFDataSetLength garbage d n = Some (d\<lparr>dt_length := n\<rparr>)"
      unfolding CFDataSetLength_def Let_def using same n mut by simp
    then show ?thesis using same wf z by (intro exI [of _ "d"]) (simp add: data_bytes_def)
  qed
qed

text \<open>C34: \<open>CFDataSetLength\<close> truncates the value or extends it with zero bytes, and re-establishes the
  promise of the "needs to zero" bit.  A length that does not fit halts for growable data, but fixed
  capacity data accept it: the length then exceeds the capacity, and the block is not as long as the
  object says.\<close>

theorem data_set_length:
  assumes "data_wf d" "data_zeroed d" "0 \<le> n"
    and "CFMutableVariety d = kCFMutable \<or> CFMutableVariety d = kCFFixedMutable"
  shows "if data_room d n
    then \<exists>d'. CFDataSetLength garbage d n = Some d' \<and> data_wf d' \<and> data_zeroed d' \<and> dt_length d' = n \<and>
           data_bytes d' = take (nat n) (data_bytes d) @ replicate (nat n - nat (dt_length d)) 0 \<and>
           CFMutableVariety d' = CFMutableVariety d
    else if CFMutableVariety d = kCFMutable then CFDataSetLength garbage d n = None
    else CFDataSetLength garbage d n = Some (d\<lparr>dt_length := n\<rparr>) \<and> dt_capacity d < n"
proof -
  have l: "0 \<le> dt_length d" "dt_length d \<le> dt_capacity d" using assms(1) by (simp_all add: data_wf_def)
  have mut: "CFDataIsMutable d" using assms(4) variety_mutable by auto
  show ?thesis
  proof (cases "n \<le> dt_capacity d")
    case True
    then show ?thesis using set_length_fits [OF assms(1-3) _ mut, of garbage] by (simp add: data_room_def)
  next
    case big: False
    show ?thesis
    proof (cases "CFMutableVariety d = kCFMutable")
      case True
      then have grow: "CFDataIsGrowable d" using variety_mutable by auto
      have len: "length (data_bytes d) \<le> nat n" using assms(1) big l by simp
      show ?thesis
      proof (cases "data_room d n")
        case room: True
        then show ?thesis
          using set_length_grows [OF assms(1,3) _ True, of garbage] big len by (simp add: data_room_def)
      next
        case False
        have "CFDataGrow garbage d (n - dt_length d) True = None"
          by (rule CFDataGrow_no_room [where newLength = n]) (use False big True in \<open>auto simp: data_room_def\<close>)
        then show ?thesis
          unfolding CFDataSetLength_def Let_def using False True big mut grow assms(3) by simp
      qed
    next
      case False
      then have "\<not> CFDataIsGrowable d" "\<not> data_room d n"
        using assms(4) variety_mutable big by (auto simp: data_room_def)
      then show ?thesis
        unfolding CFDataSetLength_def Let_def using False big mut assms(3) by simp
    qed
  qed
qed

theorem data_set_length_witness:
  "map_option data_bytes (CFDataSetLength (\<lambda>_. 9) data_example 6) = Some [10, 20, 30, 40, 0, 0]"
proof -
  have "data_room data_example 6" by (simp add: data_room_def data_example_def)
  moreover have "data_zeroed data_example"
  proof -
    have "CFDataNeedsToZero data_example" by code_simp
    then show ?thesis by (simp add: data_zeroed_def)
  qed
  ultimately show ?thesis
    using data_set_length [OF data_example_wf(1), of 6 "\<lambda>_. 9"] data_example_wf by (auto simp: numeral_2_eq_2)
qed

text \<open>removing bytes at the end with \<open>CFDataDeleteBytes\<close> and then restoring the length gives the
  removed bytes back, where \<open>CFDataSetLength\<close> has to supply zeros: only \<open>CFDataSetLength\<close> itself notes
  that the bytes behind the length are not zero any more.  This is so for every object whose "needs to
  zero" bit is off, as \<open>CFDataCreateMutable\<close> creates it for small fixed capacities.\<close>

theorem data_stale_bytes:
  assumes "data_wf d" "\<not> CFDataNeedsToZero d" "int k \<le> dt_length d" "CFDataIsMutable d"
  shows "do { d' \<leftarrow> CFDataDeleteBytes garbage d (int k) (dt_length d - int k);
              CFDataSetLength garbage d' (dt_length d) } = Some d"
proof -
  have l: "0 \<le> dt_length d" "dt_length d \<le> dt_capacity d" using assms(1) by (simp_all add: data_wf_def)
  have "dt_bytes d = None \<Longrightarrow> dt_bytes d = None \<and> dt_length d = 0" using assms(1) l by (simp add: data_wf_def)
  then have del: "CFDataDeleteBytes garbage d (int k) (dt_length d - int k) = Some (d\<lparr>dt_length := int k\<rparr>)"
    unfolding CFDataDeleteBytes_def CFDataReplaceBytes_def Let_def using assms(3) l
    by (cases "dt_bytes d") simp_all
  have "CFDataIsMutable (d\<lparr>dt_length := int k\<rparr>)" using assms(4) by (simp add: info_bits)
  then have "CFDataSetLength garbage (d\<lparr>dt_length := int k\<rparr>) (dt_length d) = Some d"
    unfolding CFDataSetLength_def Let_def using assms(2,3) l by simp
  then show ?thesis by (simp add: del)
qed

theorem data_stale_bytes_witness:
  "do { d \<leftarrow> CFDataCreateMutable (\<lambda>_. 9) 16000 False True 4;
        d \<leftarrow> CFDataAppendBytes (\<lambda>_. 9) d (Buffer [1, 2, 3, 4]) 4;
        d \<leftarrow> CFDataDeleteBytes (\<lambda>_. 9) d 2 2;
        d \<leftarrow> CFDataSetLength (\<lambda>_. 9) d 4;
        Some (data_bytes d) } = Some [1, 2, 3, 4]"
proof -
  let ?d = "\<lparr>dt_cfinfo = 5, dt_length = 4, dt_capacity = 4, dt_deallocator = False, dt_bytes = Some [1, 2, 3, 4]\<rparr>"
  have filled: "do { d \<leftarrow> CFDataCreateMutable (\<lambda>_. 9) 16000 False True 4;
                   CFDataAppendBytes (\<lambda>_. 9) d (Buffer [1, 2, 3, 4]) 4 } = Some ?d" by code_simp
  have "data_wf ?d" by code_simp
  moreover have "\<not> CFDataNeedsToZero ?d" by code_simp
  moreover have "CFDataIsMutable ?d" by code_simp
  ultimately have "do { d' \<leftarrow> CFDataDeleteBytes (\<lambda>_. 9) ?d 2 2; CFDataSetLength (\<lambda>_. 9) d' 4 } = Some ?d"
    using data_stale_bytes [of ?d 2 "\<lambda>_. 9"] by simp
  with filled show ?thesis
    by (auto simp: option_bind_eq_Some data_bytes_def numeral_nat)
qed

subsection \<open>Creation\<close>

lemma take_bit_2_and_3: "take_bit 2 (w :: 32 word) = w AND 3"
  by (simp add: take_bit_eq_mask mask_eq_exp_minus_1)

lemma set_variety [simp]:
  "CFMutableVariety (CFSetMutableVariety d v) = v AND 3"
proof -
  have eq: "CFSetMutableVariety d v = CFSetMutableVariety d (v AND 3)"
    unfolding CFSetMutableVariety_def CFBitfieldSetValue_def
    by (intro arg_cong [where f = "\<lambda>x. d\<lparr>dt_cfinfo := x\<rparr>"] arg_cong [where f = ucast] arg_cong2 [where f = "(OR)"] refl)
      (rule bit_word_eqI, auto simp: bit_simps bit_CFBitfieldMask simp flip: take_bit_2_and_3)
  show ?thesis
    unfolding eq using CFBitfield_get_set [of 0 1 "take_bit 2 v" "dt_cfinfo d"]
    by (simp add: CFMutableVariety_def CFSetMutableVariety_def numeral_2_eq_2 flip: take_bit_2_and_3)
qed

lemma set_variety_sel [simp]:
  "dt_length (CFSetMutableVariety d v) = dt_length d"
  "dt_capacity (CFSetMutableVariety d v) = dt_capacity d"
  "dt_bytes (CFSetMutableVariety d v) = dt_bytes d"
  "CFDataNeedsToZero (CFSetMutableVariety d v) = CFDataNeedsToZero d"
  "dt_length (CFDataSetInline d f) = dt_length d"
  "dt_capacity (CFDataSetInline d f) = dt_capacity d"
  "dt_bytes (CFDataSetInline d f) = dt_bytes d"
  "CFMutableVariety (CFDataSetInline d f) = CFMutableVariety d"
  "dt_length (CFDataSetInfoBits d v) = dt_length d"
  "dt_capacity (CFDataSetInfoBits d v) = dt_capacity d"
  "dt_bytes (CFDataSetInfoBits d v) = dt_bytes d"
  by (simp_all add: CFSetMutableVariety_def CFDataSetInline_def CFDataSetInfoBits_def CFDataNeedsToZero_def
      CFMutableVariety_def CFBitfield_get_set_other)

lemma variety_consts:
  "(kCFMutable AND 3 = kCFMutable)" "(kCFFixedMutable AND 3 = kCFFixedMutable)" "(kCFImmutable AND 3 = kCFImmutable)"
  "(kCFMutable AND 1 \<noteq> 0)" "(kCFFixedMutable AND 1 \<noteq> 0)" "(kCFImmutable AND 1 = 0)"
  "(kCFMutable AND 2 \<noteq> 0)" "(kCFFixedMutable AND 2 = 0)" "(kCFImmutable AND 2 = 0)"
  "kCFMutable \<noteq> kCFFixedMutable" "kCFImmutable \<noteq> kCFFixedMutable" "kCFImmutable \<noteq> kCFMutable"
  by code_simp+

text \<open>The object that \<open>__CFDataInit\<close> hands to \<open>CFDataReplaceBytes\<close>.\<close>

lemma init_prepared:
  assumes flags: "flags = kCFImmutable \<or> flags = kCFFixedMutable \<or> flags = kCFMutable"
    and cap: "0 \<le> capacity" "flags = kCFImmutable \<longrightarrow> capacity = len" and len: "0 \<le> len"
  shows "\<exists>memory. CFDataInit garbage threshold useAllocator snowLeopard flags capacity bytes len False =
      map_option (\<lambda>d. CFSetMutableVariety d flags) (CFDataReplaceBytes garbage memory 0 0 bytes len) \<and>
    data_wf memory \<and> data_zeroed memory \<and> dt_length memory = 0 \<and>
    dt_capacity memory = (if flags = kCFMutable then 16 else capacity) \<and>
    CFMutableVariety memory = (if flags = kCFMutable then kCFMutable else kCFFixedMutable)"
proof -
  define info where "info = CFDataSetInfoBits
    \<lparr>dt_cfinfo = 0, dt_length = 0, dt_capacity = 0, dt_deallocator = False, dt_bytes = None\<rparr>
    ((if flags AND 2 = 0 \<and> capacity < threshold then 4 else 0) OR (if useAllocator then 8 else 0))"
  have info: "dt_length info = 0" "dt_bytes info = None" by (simp_all add: info_def)
  have round: "CFDataRoundUpCapacity 1 = Some 16" by (simp add: CFDataRoundUpCapacity_def)
  have map: "do { m \<leftarrow> x; Some (CFSetMutableVariety m v) } = map_option (\<lambda>d. CFSetMutableVariety d v) x" for x v
    by (cases x) simp_all
  define base where "base = (if flags = kCFMutable then CFSetMutableVariety (info\<lparr>dt_capacity := 16\<rparr>) kCFMutable
     else CFSetMutableVariety (info\<lparr>dt_capacity := capacity\<rparr>) kCFFixedMutable)"
  have base: "dt_length base = 0" "dt_bytes base = None" "dt_capacity base = (if flags = kCFMutable then 16 else capacity)"
    "CFMutableVariety base = (if flags = kCFMutable then kCFMutable else kCFFixedMutable)"
    by (simp_all add: base_def info variety_consts)
  define store where "store = (if flags AND 2 = 0 \<and> capacity < threshold
     then (if len = 0 \<and> flags AND 1 = 0 then CFDataSetInline base False
           else base\<lparr>dt_bytes := Some (replicate (nat capacity) 0)\<rparr>, True)
     else (base\<lparr>dt_bytes := CFDataAllocate garbage (dt_capacity base)
             (flags AND 1 \<noteq> 0 \<and> flags AND 2 = 0 \<and> \<not> snowLeopard)\<rparr>,
           flags AND 1 \<noteq> 0 \<and> flags AND 2 = 0 \<and> \<not> snowLeopard))"
  let ?m = "CFDataSetNeedsToZero (fst store) (\<not> snd store)"
  define blk where "blk n c = the (CFDataAllocate garbage n c)" for n c
  have alloc: "0 \<le> n \<Longrightarrow> CFDataAllocate garbage n c = Some (blk n c)" for n c
    by (simp add: CFDataAllocate_def blk_def)
  have "CFDataInit garbage threshold useAllocator snowLeopard flags capacity bytes len False =
      map_option (\<lambda>d. CFSetMutableVariety d flags) (CFDataReplaceBytes garbage ?m 0 0 bytes len)"
    unfolding CFDataInit_def Let_def CFMutableVarietyFromFlags_def
    using flags cap(1)
    by (auto simp: round map variety_consts alloc store_def base_def info_def simp del: word_and_1_eq)
  moreover have "data_wf ?m \<and> data_zeroed ?m"
    using flags cap len base
    by (auto simp: data_wf_def data_zeroed_def store_def CFDataAllocate_def variety_consts bytes_of_def
        simp del: word_and_1_eq)
  moreover have "dt_length ?m = 0 \<and> dt_capacity ?m = dt_capacity base \<and> CFMutableVariety ?m = CFMutableVariety base"
    using base by (auto simp: store_def)
  ultimately show ?thesis using base by (intro exI [of _ ?m]) simp
qed

lemma set_variety_state:
  "data_wf (CFSetMutableVariety d v) = data_wf d"
  "data_zeroed (CFSetMutableVariety d v) = data_zeroed d"
  "data_bytes (CFSetMutableVariety d v) = data_bytes d"
  by (simp_all add: data_wf_def data_zeroed_def data_bytes_def)

text \<open>creating a data object.  For each variety, from NULL or a buffer with at least \<open>n\<close> bytes: the new
  object is well formed, holds the first \<open>n\<close> bytes and has the variety of the flags, whether the bytes
  are stored inline or in a block of their own and whatever the allocator hands out, and the promise
  of its "needs to zero" bit is true.\<close>

theorem data_create:
  assumes "flags = kCFImmutable \<or> flags = kCFFixedMutable \<or> flags = kCFMutable"
    and "src_ok bytes n" "0 \<le> capacity" "flags = kCFImmutable \<longrightarrow> capacity = int n"
    and "flags = kCFFixedMutable \<longrightarrow> int n \<le> capacity"
    and "flags = kCFMutable \<longrightarrow> int n \<le> CFDATA_MAX_SIZE \<and> roundable (int n)"
  shows "\<exists>d. CFDataInit garbage threshold useAllocator snowLeopard flags capacity bytes (int n) False = Some d \<and>
    data_wf d \<and> data_zeroed d \<and> dt_length d = int n \<and> data_bytes d = src_block bytes n \<and> CFMutableVariety d = flags"
proof -
  obtain m where m: "CFDataInit garbage threshold useAllocator snowLeopard flags capacity bytes (int n) False =
      map_option (\<lambda>d. CFSetMutableVariety d flags) (CFDataReplaceBytes garbage m 0 0 bytes (int n))"
    "data_wf m" "data_zeroed m" "dt_length m = 0" "dt_capacity m = (if flags = kCFMutable then 16 else capacity)"
    "CFMutableVariety m = (if flags = kCFMutable then kCFMutable else kCFFixedMutable)"
    using init_prepared [OF assms(1,3,4), of garbage threshold useAllocator snowLeopard bytes] by auto
  have "data_room m (dt_length m - int 0 + int n)"
    using assms m by (auto simp: data_room_def variety_consts)
  with replace_bytes_ok [OF m(2) assms(2), of 0 0 garbage] m(3,4)
  obtain d where d: "CFDataReplaceBytes garbage m 0 0 bytes (int n) = Some d" "data_wf d" "dt_length d = int n"
    "data_bytes d = splice (data_bytes m) 0 0 (src_block bytes n)" "data_zeroed d"
    by auto
  have "data_bytes m = []" by (simp add: data_bytes_def m(4))
  moreover have "flags AND 3 = flags" using assms(1) variety_consts by auto
  ultimately show ?thesis
    using d by (simp add: m(1) set_variety_state splice_def)
qed

theorem data_create_witness:
  "\<exists>d. CFDataCreate (\<lambda>_. 7) 16000 False True (Buffer [5, 6, 7, 8]) 3 = Some d \<and> data_bytes d = [5, 6, 7]"
proof -
  have "\<exists>d. CFDataInit (\<lambda>_. 7) 16000 False True kCFImmutable 3 (Buffer [5, 6, 7, 8]) (int 3) False = Some d \<and>
      data_wf d \<and> data_zeroed d \<and> dt_length d = int 3 \<and> data_bytes d = src_block (Buffer [5, 6, 7, 8]) 3 \<and>
      CFMutableVariety d = kCFImmutable"
    by (rule data_create) (simp_all add: variety_consts src_ok_def)
  then show ?thesis by (auto simp: CFDataCreate_def src_block_def)
qed

subsection \<open>Equality and hash\<close>

lemma ELF_STEP_bound: "drop_bit 28 (ELF_STEP H B) = 0"
proof (rule bit_word_eqI)
  fix i
  have eq: "(0xF0000000 :: 32 word) = push_bit 28 (mask 4)" by code_simp
  show "bit (drop_bit 28 (ELF_STEP H B)) i = bit 0 i"
    unfolding ELF_STEP_def Let_def eq by (auto simp: bit_simps)
qed

text \<open>The reference definition: one step per byte, in order.\<close>

definition elf_hash :: "byte list \<Rightarrow> 32 word \<Rightarrow> 32 word" where
  "elf_hash bs H = fold (\<lambda>B H. ELF_STEP H B) bs H"

lemma elf_hash_append: "elf_hash (xs @ ys) H = elf_hash ys (elf_hash xs H)"
  by (simp add: elf_hash_def)

lemma elf_hash_Suc:
  "i < length bs \<Longrightarrow> elf_hash (take (Suc i) bs) H = ELF_STEP (elf_hash (take i bs) H) (bs ! i)"
  by (simp add: elf_hash_def take_Suc_conv_app_nth)

lemma hash_at_ok:
  "0 \<le> i \<Longrightarrow> i < int (length bytes) \<Longrightarrow>
    hash_at bytes i (elf_hash (take (nat i) bytes) 0) = Some (elf_hash (take (nat (i + 1)) bytes) 0)"
  by (simp add: hash_at_def rd_Some elf_hash_Suc Suc_nat_eq_nat_zadd1 [symmetric] nat_less_iff algebra_simps)

lemma hash_loop_ok:
  "0 \<le> rem \<Longrightarrow> rem \<le> len \<Longrightarrow> len \<le> int (length bytes) \<Longrightarrow>
    \<exists>r. hash_loop bytes len rem (elf_hash (take (nat (len - rem)) bytes) 0) =
          Some (r, elf_hash (take (nat (len - r)) bytes) 0) \<and> 0 \<le> r \<and> r \<le> 3 \<and> r \<le> rem"
proof (induction "nat rem" arbitrary: rem rule: less_induct)
  case less
  show ?case
  proof (cases "3 < rem")
    case False
    then show ?thesis using less.prems by (simp add: hash_loop.simps)
  next
    case True
    have next4: "len - rem + 1 + 1 = len - rem + 2" "len - rem + 2 + 1 = len - rem + 3"
      "len - rem + 3 + 1 = len - (rem - 4)" by simp_all
    have step: "hash_loop bytes len rem (elf_hash (take (nat (len - rem)) bytes) 0) =
        hash_loop bytes len (rem - 4) (elf_hash (take (nat (len - (rem - 4))) bytes) 0)"
      using True less.prems hash_at_ok [of "len - rem" bytes] hash_at_ok [of "len - rem + 1" bytes]
        hash_at_ok [of "len - rem + 2" bytes] hash_at_ok [of "len - rem + 3" bytes]
      by (subst hash_loop.simps) (simp add: next4)
    obtain r where "hash_loop bytes len (rem - 4) (elf_hash (take (nat (len - (rem - 4))) bytes) 0) =
        Some (r, elf_hash (take (nat (len - r)) bytes) 0)" "0 \<le> r" "r \<le> 3" "r \<le> rem - 4"
      using less.hyps [of "rem - 4"] less.prems True by auto
    then show ?thesis unfolding step by auto
  qed
qed

lemma CFHashBytes_elf:
  assumes "0 \<le> len" "len \<le> int (length bytes)" "len < 2 ^ 31"
  shows "CFHashBytes bytes len = Some (elf_hash (take (nat len) bytes) 0)"
proof -
  have rem: "sint (word_of_int len :: 32 word) = len"
    using assms by (simp add: signed_of_int signed_take_bit_int_eq_self)
  obtain r where loop: "hash_loop bytes len len 0 = Some (r, elf_hash (take (nat (len - r)) bytes) 0)"
    "0 \<le> r" "r \<le> 3" "r \<le> len"
    using hash_loop_ok [of len len bytes] assms by (auto simp: elf_hash_def)
  have prev: "len - 3 + 1 = len - 2" "len - 2 + 1 = len - 1" "len - 1 + 1 = len" by simp_all
  consider "r = 0" | "r = 1" | "r = 2" | "r = 3" using loop by linarith
  then show ?thesis
    using loop assms hash_at_ok [of "len - 3" bytes] hash_at_ok [of "len - 2" bytes] hash_at_ok [of "len - 1" bytes]
    by cases (simp_all add: CFHashBytes_def rem prev)
qed

text \<open>\<open>CFHashBytes\<close>, unrolled four bytes at a time with a fall-through \<open>switch\<close> for the rest, computes
  the ELF hash of the bytes, one step per byte, for every length that fits an \<open>SInt32\<close>; it reads no byte
  behind the length, and the result of a non-empty hash has its top four bits clear.\<close>

theorem hash_bytes:
  assumes "0 \<le> len" "len \<le> int (length bytes)" "len < 2 ^ 31"
  shows "\<exists>h. CFHashBytes bytes len = Some h \<and> h = fold (\<lambda>B H. ELF_STEP H B) (take (nat len) bytes) 0 \<and> uint h < 2 ^ 28"
proof -
  let ?bs = "take (nat len) bytes"
  have "drop_bit 28 (elf_hash ?bs 0) = 0"
    by (cases ?bs rule: rev_cases) (auto simp: elf_hash_def ELF_STEP_bound)
  then have "uint (elf_hash ?bs 0 div 2 ^ 28) = 0" by (simp add: drop_bit_eq_div)
  then have "uint (elf_hash ?bs 0) div 2 ^ 28 = 0" by (simp add: uint_div)
  then have "uint (elf_hash ?bs 0) < 2 ^ 28" using zdiv_eq_0_iff [of "uint (elf_hash ?bs 0)" "2 ^ 28"] by simp
  then show ?thesis using CFHashBytes_elf [OF assms] by (simp add: elf_hash_def)
qed

theorem hash_bytes_witness: "\<exists>h. CFHashBytes [1, 2, 3, 4, 5, 6, 7] 6 = Some h \<and> uint h < 2 ^ 28"
  using hash_bytes [of 6 "[1, 2, 3, 4, 5, 6, 7]"] by auto

text \<open>\<open>__CFDataEqual\<close> compares the values, and objects with equal values have the same hash: the two
  functions of the class satisfy the contract that hashed collections rely on.\<close>

theorem data_equal_hash:
  assumes "data_wf d1" "data_wf d2"
  shows "CFDataEqual d1 d2 = Some (data_bytes d1 = data_bytes d2) \<and>
    (data_bytes d1 = data_bytes d2 \<longrightarrow> CFDataHash d1 = CFDataHash d2 \<and> CFDataHash d1 \<noteq> None)"
proof
  have l: "nat (dt_length d) \<le> length (bytes_of (dt_bytes d))" "0 \<le> dt_length d" if "data_wf d" for d
    using that by (auto simp: data_wf_def)
  show "CFDataEqual d1 d2 = Some (data_bytes d1 = data_bytes d2)"
  proof (cases "dt_length d1 = dt_length d2")
    case True
    then show ?thesis
      using l [OF assms(1)] l [OF assms(2)]
      by (simp add: CFDataEqual_def Let_def CFDataGetBytePtr_def mem_read_Some data_bytes_def)
  next
    case False
    then have "nat (dt_length d1) \<noteq> nat (dt_length d2)" using l(2) [OF assms(1)] l(2) [OF assms(2)] by linarith
    then have "length (data_bytes d1) \<noteq> length (data_bytes d2)" using assms by simp
    then show ?thesis using False by (auto simp: CFDataEqual_def)
  qed
  have hash: "CFDataHash d = Some (elf_hash (take 80 (data_bytes d)) 0)" if "data_wf d" for d
  proof -
    have "min (dt_length d) 80 \<le> int (length (bytes_of (dt_bytes d)))" using l [OF that] by linarith
    then have "CFDataHash d = Some (elf_hash (take (nat (min (dt_length d) 80)) (bytes_of (dt_bytes d))) 0)"
      unfolding CFDataHash_def CFDataGetBytePtr_def using l [OF that] by (intro CFHashBytes_elf) auto
    moreover have "nat (min (dt_length d) 80) = min 80 (nat (dt_length d))" by linarith
    ultimately show ?thesis by (simp add: data_bytes_def)
  qed
  show "data_bytes d1 = data_bytes d2 \<longrightarrow> CFDataHash d1 = CFDataHash d2 \<and> CFDataHash d1 \<noteq> None"
    using hash assms by simp
qed

theorem data_equal_hash_witness: "CFDataEqual data_example data_example = Some True"
  using data_equal_hash [OF data_example_wf(1) data_example_wf(1)] by simp

end
