(* ===== verification/CF_DataSearch.thy ===== *)
theory CF_DataSearch
  imports CF_Data
begin

text \<open>
  The searches of CFData.c: Boyer-Moore in both directions, its tables, and \<open>CFDataFind\<close>.  Array
  indices and pointer offsets are integers; an access outside an array is \<open>None\<close>, and so is a search
  loop that does not end.  The counters of the loops, and all of \<open>_computeGoodSubstringShift\<close> with the
  length it is passed, are of type \<open>int\<close>: the length is truncated there, and an overflow is \<open>None\<close>.
\<close>

subsection \<open>The tables\<close>

text \<open>\<open>for (; i < n; i++)\<close> with a counter of type \<open>int\<close>, whatever the type of \<open>n\<close>.\<close>

function for_int :: "int \<Rightarrow> int \<Rightarrow> (int \<Rightarrow> 's \<Rightarrow> 's option) \<Rightarrow> 's \<Rightarrow> 's option" where
  "for_int i n body s =
     (if i < n then do { s \<leftarrow> body i s; i' \<leftarrow> c_int (i + 1); for_int i' n body s } else Some s)"
  by pat_completeness auto
termination by (relation "measure (\<lambda>(i, n, _, _). nat (n - i))") (auto simp: c_int_eq_Some_iff)

declare for_int.simps [simp del]

definition REVERSE_BUFFER :: "'a list \<Rightarrow> int \<Rightarrow> 'a list option" where
  "REVERSE_BUFFER buf len =
     for_int 0 (len div 2)
       (\<lambda>i buf. do { tmp \<leftarrow> rdi buf i; b \<leftarrow> rdi buf (len - i - 1);
                     buf \<leftarrow> wri buf i b; wri buf (len - i - 1) tmp }) buf"

text \<open>\<open>while (g >= 0 && needle[g] == needle[g + needleLength - 1 - f]) --g;\<close>\<close>

function match_back :: "byte list \<Rightarrow> int \<Rightarrow> int \<Rightarrow> int \<Rightarrow> int option" where
  "match_back needle m f g =
     (if 0 \<le> g
      then do { a \<leftarrow> rdi needle g;
                k \<leftarrow> c_int (g + m); b \<leftarrow> rdi needle (k - 1 - f);
                (if a = b then match_back needle m f (g - 1) else Some g) }
      else Some g)"
  by pat_completeness auto
termination by (relation "measure (\<lambda>(_, _, _, g). nat (g + 1))") auto

function suffix_loop :: "byte list \<Rightarrow> int \<Rightarrow> int list \<Rightarrow> int \<Rightarrow> int \<Rightarrow> int \<Rightarrow> int list option" where
  "suffix_loop needle m suff f g i =
     (if i < 0 then Some suff
      else do {
        s \<leftarrow> (if i > g then do { k \<leftarrow> c_int (i + m); map_option Some (rdi suff (k - 1 - f)) } else Some None);
        (if (case s of None \<Rightarrow> False | Some s \<Rightarrow> s < i - g)
         then do { k \<leftarrow> c_int (i + m); s \<leftarrow> rdi suff (k - 1 - f);
                   suff \<leftarrow> wri suff i s;
                   suffix_loop needle m suff f g (i - 1) }
         else do { let g = (if i < g then i else g);
                   let f = i;
                   g \<leftarrow> match_back needle m f g;
                   suff \<leftarrow> wri suff i (f - g);
                   suffix_loop needle m suff f g (i - 1) }) })"
  by pat_completeness auto
termination by (relation "measure (\<lambda>(_, _, _, _, _, i). nat (i + 1))") auto

declare match_back.simps [simp del] suffix_loop.simps [simp del]

text \<open>\<open>for (; j < needleLength - 1 - i; ++j) if (shift[j] == needleLength) shift[j] = needleLength - 1 - i;\<close>\<close>

function prefix_fill :: "int \<Rightarrow> int \<Rightarrow> int list \<Rightarrow> int \<Rightarrow> (int list \<times> int) option" where
  "prefix_fill m v shift j =
     (if j < v
      then do { x \<leftarrow> rdi shift j;
                shift \<leftarrow> (if x = m then wri shift j v else Some shift);
                prefix_fill m v shift (j + 1) }
      else Some (shift, j))"
  by pat_completeness auto
termination by (relation "measure (\<lambda>(_, v, _, j). nat (v - j))") auto

declare prefix_fill.simps [simp del]

definition computeGoodSubstringShift :: "byte list \<Rightarrow> int \<Rightarrow> int list \<Rightarrow> int list \<Rightarrow> (int list \<times> int list) option" where
  "computeGoodSubstringShift needle m shift suff =
     do { suff \<leftarrow> wri suff (m - 1) m;
          suff \<leftarrow> suffix_loop needle m suff (m - 1) (m - 1) (m - 2);
          shift \<leftarrow> for_int 0 m (\<lambda>i shift. wri shift i m) shift;
          (shift, j) \<leftarrow> for_each (rev [0..<nat m])
            (\<lambda>i (shift, j). do { s \<leftarrow> rdi suff (int i);
                                (if s = int i + 1 then prefix_fill m (m - 1 - int i) shift j else Some (shift, j)) })
            (shift, 0);
          shift \<leftarrow> for_int 0 (m - 1)
            (\<lambda>i shift. do { s \<leftarrow> rdi suff i; wri shift (m - 1 - s) (m - 1 - i) }) shift;
          shift \<leftarrow> for_int 0 (m - 1)
            (\<lambda>i shift. do { s \<leftarrow> rdi shift i; wri shift i (s + (m - 1 - i)) }) shift;
          Some (shift, suff) }"

subsection \<open>The search\<close>

partial_function (option) search_forward ::
  "byte list \<Rightarrow> int \<Rightarrow> byte list \<Rightarrow> int \<Rightarrow> int list \<Rightarrow> int list \<Rightarrow> int \<Rightarrow> int \<Rightarrow> (int \<times> int) option" where
  "search_forward haystack n needle m bad good scan_haystack scan_needle =
     (if scan_haystack < n \<and> 0 \<le> scan_needle
      then do {
        h \<leftarrow> rdi haystack scan_haystack;
        c \<leftarrow> rdi needle scan_needle;
        (if h = c then search_forward haystack n needle m bad good (scan_haystack - 1) (scan_needle - 1)
         else do { b \<leftarrow> rdi bad (uint h);
                   g \<leftarrow> rdi good scan_needle;
                   search_forward haystack n needle m bad good (scan_haystack + max b g) (m - 1) }) }
      else Some (scan_haystack, scan_needle))"

partial_function (option) search_backward ::
  "byte list \<Rightarrow> byte list \<Rightarrow> int \<Rightarrow> int list \<Rightarrow> int list \<Rightarrow> int \<Rightarrow> int \<Rightarrow> (int \<times> int) option" where
  "search_backward haystack needle m bad good scan_haystack scan_needle =
     (if 0 \<le> scan_haystack \<and> scan_needle < m
      then do {
        h \<leftarrow> rdi haystack scan_haystack;
        c \<leftarrow> rdi needle scan_needle;
        (if h = c then search_backward haystack needle m bad good (scan_haystack + 1) (scan_needle + 1)
         else do { b \<leftarrow> rdi bad (uint h);
                   g \<leftarrow> rdi good scan_needle;
                   search_backward haystack needle m bad good (scan_haystack - max b g) 0 }) }
      else Some (scan_haystack, scan_needle))"

text \<open>
  \<open>shift0\<close> and \<open>suff0\<close> are the two tables as \<open>malloc\<close> returns them, \<open>m\<close> is the \<open>unsigned long\<close> length of the
  needle, which the counters and the argument of \<open>_computeGoodSubstringShift\<close> truncate.  The result is the offset of the match
  in the haystack, the inner \<open>None\<close> for NULL.
\<close>

definition CFDataSearchBoyerMoore ::
  "int list \<Rightarrow> int list \<Rightarrow> byte list \<Rightarrow> int \<Rightarrow> byte list \<Rightarrow> int \<Rightarrow> bool \<Rightarrow> int option option" where
  "CFDataSearchBoyerMoore shift0 suff0 haystack n needle m backwards =
     do {
       (bad, good) \<leftarrow>
         (if backwards then do {
            bad \<leftarrow> for_int 0 256 (\<lambda>i bad. wri bad i m) (replicate 256 0);
            bad \<leftarrow> for_each (rev [0..<nat (SInt32_of (m - 1) + 1)])
              (\<lambda>i bad. do { c \<leftarrow> rdi needle (int i); wri bad (uint c) (int i) }) bad;
            needleCopy \<leftarrow> mem_read needle 0 (nat m);
            needleCopy \<leftarrow> REVERSE_BUFFER needleCopy m;
            (good, suff) \<leftarrow> computeGoodSubstringShift needleCopy (SInt32_of m) shift0 suff0;
            good \<leftarrow> REVERSE_BUFFER good m;
            Some (bad, good) }
          else do {
            bad \<leftarrow> for_int 0 256 (\<lambda>i bad. wri bad i m) (replicate 256 0);
            bad \<leftarrow> for_int 0 m
              (\<lambda>i bad. do { c \<leftarrow> rdi needle i; wri bad (uint c) (m - i - 1) }) bad;
            (good, suff) \<leftarrow> computeGoodSubstringShift needle (SInt32_of m) shift0 suff0;
            Some (bad, good) });
       (if backwards then do {
          (scan_haystack, scan_needle) \<leftarrow> search_backward haystack needle m bad good (n - m) 0;
          Some (if scan_needle = m then Some (scan_haystack - m) else None) }
        else do {
          (scan_haystack, scan_needle) \<leftarrow> search_forward haystack n needle m bad good (m - 1) (m - 1);
          Some (if scan_needle < 0 then Some (scan_haystack + 1) else None) }) }"

definition kCFDataSearchBackwards :: "64 word" where "kCFDataSearchBackwards = 1"
definition kCFDataSearchAnchored :: "64 word" where "kCFDataSearchAnchored = 2"

text \<open>The search gets the two blocks of bytes it is given, and may read nothing else.\<close>

definition CFDataFindBytes ::
  "int list \<Rightarrow> int list \<Rightarrow> CFData \<Rightarrow> CFData \<Rightarrow> int \<Rightarrow> int \<Rightarrow> 64 word \<Rightarrow> (int \<times> int) option" where
  "CFDataFindBytes shift0 suff0 data dataToFind loc len compareOptions =
     (let fullHaystack = CFDataGetBytePtr data;
          needle = CFDataGetBytePtr dataToFind;
          fullHaystackLength = CFDataGetLength data;
          needleLength = CFDataGetLength dataToFind;
          anchored = (compareOptions AND kCFDataSearchAnchored \<noteq> 0 \<and> len > needleLength);
          loc = (if anchored \<and> compareOptions AND kCFDataSearchBackwards \<noteq> 0 then loc + (len - needleLength) else loc);
          len = (if anchored then needleLength else len);
          len = (if len > (fullHaystackLength - loc) mod 2 ^ 64 then (fullHaystackLength - loc) mod 2 ^ 64 else len)
      in if len < needleLength \<or> fullHaystackLength = 0 \<or> needleLength = 0 then Some (kCFNotFound, 0)
      else do {
        haystack \<leftarrow> (if loc < 0 then None else mem_read fullHaystack (nat loc) (nat len));
        needle \<leftarrow> mem_read needle 0 (nat needleLength);
        searchResult \<leftarrow> CFDataSearchBoyerMoore shift0 suff0 haystack len needle needleLength
          (compareOptions AND kCFDataSearchBackwards \<noteq> 0);
        let resultLocation = (case searchResult of None \<Rightarrow> kCFNotFound | Some r \<Rightarrow> loc + r);
        Some (resultLocation, if resultLocation = kCFNotFound then 0 else needleLength) })"

definition CFDataFind ::
  "int list \<Rightarrow> int list \<Rightarrow> CFData \<Rightarrow> CFData \<Rightarrow> int \<Rightarrow> int \<Rightarrow> 64 word \<Rightarrow> (int \<times> int) option" where
  "CFDataFind shift0 suff0 data dataToFind loc len compareOptions =
     CFDataFindBytes shift0 suff0 data dataToFind loc len compareOptions"

subsection \<open>Loops with an int counter, and lengths that an int holds\<close>

lemma for_int_each_from:
  "n \<le> INT_MAX \<Longrightarrow> for_int (int k) n body s = for_each [k..<nat n] (\<lambda>i. body (int i)) s"
proof (induction "nat n - k" arbitrary: k s)
  case 0
  then have "\<not> int k < n" by linarith
  then show ?case using 0 by (subst for_int.simps) simp
next
  case (Suc d)
  then have k: "int k < n" "k < nat n" by linarith+
  then have "c_int (int k + 1) = Some (int (Suc k))" using Suc.prems by (simp add: c_int_nonneg)
  moreover have "for_int (int (Suc k)) n body s' = for_each [Suc k..<nat n] (\<lambda>i. body (int i)) s'" for s'
    using Suc.hyps(2) by (intro Suc.hyps(1) Suc.prems) simp
  ultimately show ?case using k by (subst for_int.simps) (simp add: upt_conv_Cons)
qed

lemma for_int_each: "n \<le> INT_MAX \<Longrightarrow> for_int 0 n body s = for_each [0..<nat n] (\<lambda>i. body (int i)) s"
  using for_int_each_from [of n 0 body s] by simp

lemma int_length:
  assumes "int n \<le> 2 ^ 30"
  shows "int n \<le> INT_MAX" "int n - 1 \<le> INT_MAX" "int n div 2 \<le> INT_MAX"
    and "SInt32_of (int n) = int n" "1 \<le> int n \<Longrightarrow> SInt32_of (int n - 1) + 1 = int n"
    and "0 \<le> i \<Longrightarrow> i < int n - 1 \<Longrightarrow> c_int (i + int n) = Some (i + int n)"
proof -
  have le: "int n \<le> INT_MAX" using assms by (simp add: INT_MAX_def)
  then show "int n \<le> INT_MAX" "int n - 1 \<le> INT_MAX" "int n div 2 \<le> INT_MAX" by simp_all
  show "SInt32_of (int n) = int n" "1 \<le> int n \<Longrightarrow> SInt32_of (int n - 1) + 1 = int n"
    using le by (simp_all add: SInt32_of_nonneg)
  show "0 \<le> i \<Longrightarrow> i < int n - 1 \<Longrightarrow> c_int (i + int n) = Some (i + int n)"
    using assms by (intro c_int_nonneg) (auto simp: INT_MAX_def)
qed

text \<open>The bound is sharp: the first comparison of a longer needle already overflows.\<close>

lemma long_needle_overflows:
  assumes "2 ^ 30 < m" "m \<le> INT_MAX"
  shows "computeGoodSubstringShift needle m shift suff = None"
proof -
  have "c_int (m - 2 + m) = None" using assms(1) by (simp add: c_int_def INT_MAX_def)
  then have "match_back needle m (m - 2) (m - 2) = None"
    using assms(1) by (subst match_back.simps) (simp del: diff_add_eq split: Option.bind_split)
  then have "suffix_loop needle m suff' (m - 1) (m - 1) (m - 2) = None" for suff'
    using assms(1) by (subst suffix_loop.simps) simp
  then show ?thesis by (simp add: computeGoodSubstringShift_def split: Option.bind_split)
qed

subsection \<open>Suffix lengths\<close>

text \<open>
  Positions are integers; \<open>at xs\<close> reads a list at such a position.  \<open>is_suff x m i L\<close>: the part of the
  needle that ends at \<open>i\<close> has with the whole needle a longest common suffix of length \<open>L\<close>.
\<close>

definition at :: "'a list \<Rightarrow> int \<Rightarrow> 'a" where
  "at xs i = xs ! nat i"

definition is_suff :: "(int \<Rightarrow> 'a) \<Rightarrow> int \<Rightarrow> int \<Rightarrow> int \<Rightarrow> bool" where
  "is_suff x m i L \<longleftrightarrow> 0 \<le> L \<and> L \<le> i + 1 \<and> (\<forall>t. 0 \<le> t \<and> t < L \<longrightarrow> x (i - t) = x (m - 1 - t)) \<and>
     (L \<le> i \<longrightarrow> x (i - L) \<noteq> x (m - 1 - L))"

lemma rdi_at [cf_mem]: "0 \<le> i \<Longrightarrow> i < int (length xs) \<Longrightarrow> rdi xs i = Some (at xs i)"
  by (simp add: rdi_Some at_def)

lemma at_update: "0 \<le> i \<Longrightarrow> i < int (length xs) \<Longrightarrow> 0 \<le> k \<Longrightarrow> at (xs[nat i := v]) k = (if k = i then v else at xs k)"
  by (auto simp: at_def nth_list_update nat_eq_iff)

lemma is_suff_unique: "is_suff x m i L \<Longrightarrow> is_suff x m i L' \<Longrightarrow> L = L'"
proof -
  have "\<not> L < L'" if "is_suff x m i L" "is_suff x m i L'" for L L'
    using that unfolding is_suff_def by (metis add1_zle_eq zle_add1_eq_le order.strict_trans1 order.trans)
  then show "is_suff x m i L \<Longrightarrow> is_suff x m i L' \<Longrightarrow> L = L'" by (meson linorder_neq_iff)
qed

lemma match_back_ok:
  assumes "g \<le> f" "f < int (length needle) - 1" "- 1 \<le> g" "int (length needle) \<le> 2 ^ 30"
  shows "\<exists>g'. match_back needle (int (length needle)) f g = Some g' \<and> - 1 \<le> g' \<and> g' \<le> g \<and>
    (\<forall>t. g' < t \<and> t \<le> g \<longrightarrow> at needle t = at needle (t + int (length needle) - 1 - f)) \<and>
    (0 \<le> g' \<longrightarrow> at needle g' \<noteq> at needle (g' + int (length needle) - 1 - f))"
  using assms
proof (induction "nat (g + 1)" arbitrary: g rule: less_induct)
  case less
  let ?m = "int (length needle)"
  show ?case
  proof (cases "0 \<le> g")
    case False
    then show ?thesis using less.prems by (auto simp: match_back.simps)
  next
    case True
    have r: "rdi needle g = Some (at needle g)" "rdi needle (g + ?m - 1 - f) = Some (at needle (g + ?m - 1 - f))"
      using True less.prems by (auto intro!: rdi_at)
    have k: "c_int (g + ?m) = Some (g + ?m)" using True less.prems int_length(6) [of "length needle" g] by simp
    show ?thesis
    proof (cases "at needle g = at needle (g + ?m - 1 - f)")
      case False
      then show ?thesis using True less.prems r k
        by (intro exI [of _ g]) (auto simp: match_back.simps [of needle ?m f g])
    next
      case eq: True
      obtain g' where g': "match_back needle ?m f (g - 1) = Some g'" "- 1 \<le> g'" "g' \<le> g - 1"
        "\<forall>t. g' < t \<and> t \<le> g - 1 \<longrightarrow> at needle t = at needle (t + ?m - 1 - f)"
        "0 \<le> g' \<longrightarrow> at needle g' \<noteq> at needle (g' + ?m - 1 - f)"
        using less.hyps [of "g - 1"] less.prems True by auto
      have "match_back needle ?m f g = Some g'"
        using True r k eq g'(1) by (simp add: match_back.simps [of needle ?m f g])
      moreover have "\<forall>t. g' < t \<and> t \<le> g \<longrightarrow> at needle t = at needle (t + ?m - 1 - f)"
        using g'(4) eq by (metis zle_diff1_eq order_le_less)
      ultimately show ?thesis using g' by auto
    qed
  qed
qed

text \<open>What the loop knows before it computes the entry \<open>i\<close>.\<close>

definition suffix_inv :: "byte list \<Rightarrow> int list \<Rightarrow> int \<Rightarrow> int \<Rightarrow> int \<Rightarrow> bool" where
  "suffix_inv needle suff f g i \<longleftrightarrow>
     (let m = int (length needle); x = at needle in
       length suff = length needle \<and> (\<forall>k. i < k \<and> k < m \<longrightarrow> is_suff x m k (at suff k)) \<and>
       - 1 \<le> i \<and> - 1 \<le> g \<and> i < f \<and> f \<le> m - 1 \<and> g \<le> f \<and> (g < i \<longrightarrow> f < m - 1) \<and>
       (\<forall>t. g < t \<and> t \<le> f \<longrightarrow> x t = x (t + m - 1 - f)) \<and>
       (0 \<le> g \<and> g < i \<longrightarrow> x g \<noteq> x (g + m - 1 - f)))"

lemma suffix_inv_update:
  assumes inv: "suffix_inv needle suff f g i" and i: "0 \<le> i"
    and L: "is_suff (at needle) (int (length needle)) i L"
    and new: "- 1 \<le> g'" "i \<le> f'" "f' \<le> int (length needle) - 1" "g' \<le> f'" "g' < i - 1 \<longrightarrow> f' < int (length needle) - 1"
      "\<forall>t. g' < t \<and> t \<le> f' \<longrightarrow> at needle t = at needle (t + int (length needle) - 1 - f')"
      "0 \<le> g' \<and> g' < i - 1 \<longrightarrow> at needle g' \<noteq> at needle (g' + int (length needle) - 1 - f')"
  shows "suffix_inv needle (suff[nat i := L]) f' g' (i - 1)"
proof -
  have "0 \<le> i" "i < int (length suff)" using inv i by (auto simp: suffix_inv_def Let_def)
  then have "\<forall>k. i - 1 < k \<and> k < int (length needle) \<longrightarrow>
      is_suff (at needle) (int (length needle)) k (at (suff[nat i := L]) k)"
    using inv L by (auto simp: suffix_inv_def Let_def at_update)
  then show ?thesis using inv i new by (auto simp: suffix_inv_def Let_def)
qed

text \<open>The entry that is copied, and the entry that is computed by comparing.\<close>

lemma suffix_copied:
  assumes inv: "suffix_inv needle suff f g i" and i: "g < i"
    and k: "k = i + int (length needle) - 1 - f" and s: "at suff k < i - g"
  shows "is_suff (at needle) (int (length needle)) i (at suff k)"
proof -
  let ?m = "int (length needle)" and ?x = "at needle"
  have f: "i < f" "f < ?m - 1" "- 1 \<le> g" using inv i by (auto simp: suffix_inv_def Let_def)
  have suff: "is_suff ?x ?m k (at suff k)" using inv f k i by (auto simp: suffix_inv_def Let_def)
  have shifted: "?x (i - t) = ?x (k - t)" if "0 \<le> t" "t < i - g" for t
  proof -
    have "?x (i - t) = ?x (i - t + ?m - 1 - f)"
      using inv that f by (auto simp: suffix_inv_def Let_def)
    moreover have "i - t + ?m - 1 - f = k - t" by (simp add: k)
    ultimately show ?thesis by simp
  qed
  have "at suff k \<le> k" using s i f k by linarith
  then show ?thesis using suff shifted s f unfolding is_suff_def by auto
qed

lemma suffix_compared:
  assumes inv: "suffix_inv needle suff f g i" and i: "0 \<le> i"
    and k: "k = i + int (length needle) - 1 - f" and s: "g < i \<Longrightarrow> i - g \<le> at suff k"
    and h: "h = (if i < g then i else g)"
  shows "- 1 \<le> h" "h \<le> i" "\<forall>t. h < t \<and> t \<le> i \<longrightarrow> at needle t = at needle (t + int (length needle) - 1 - i)"
proof -
  let ?m = "int (length needle)" and ?x = "at needle"
  show h': "- 1 \<le> h" "h \<le> i" using inv i h by (auto simp: suffix_inv_def Let_def)
  show "\<forall>t. h < t \<and> t \<le> i \<longrightarrow> ?x t = ?x (t + ?m - 1 - i)"
  proof (intro allI impI)
    fix t assume t: "h < t \<and> t \<le> i"
    then have g: "g < i" "g < t" using h by (auto split: if_splits)
    have f: "i < f" "f < ?m - 1" using inv g by (auto simp: suffix_inv_def Let_def)
    have suff: "is_suff ?x ?m k (at suff k)" using inv f k i by (auto simp: suffix_inv_def Let_def)
    have "?x t = ?x (t + ?m - 1 - f)" using inv g t f by (auto simp: suffix_inv_def Let_def)
    also have "t + ?m - 1 - f = k - (i - t)" by (simp add: k)
    also have "?x (k - (i - t)) = ?x (?m - 1 - (i - t))"
      using suff s g t unfolding is_suff_def by auto
    finally show "?x t = ?x (t + ?m - 1 - i)" by (simp add: algebra_simps)
  qed
qed

lemma suffix_loop_ok:
  "suffix_inv needle suff f g i \<Longrightarrow> int (length needle) \<le> 2 ^ 30 \<Longrightarrow> i < int (length needle) - 1 \<Longrightarrow>
    \<exists>suff'. suffix_loop needle (int (length needle)) suff f g i = Some suff' \<and> length suff' = length needle \<and>
      (\<forall>k. 0 \<le> k \<and> k < int (length needle) \<longrightarrow> is_suff (at needle) (int (length needle)) k (at suff' k))"
proof (induction "nat (i + 1)" arbitrary: suff f g i rule: less_induct)
  case less
  let ?m = "int (length needle)" and ?x = "at needle"
  let ?k = "i + ?m - 1 - f"
  show ?case
  proof (cases "0 \<le> i")
    case False
    then show ?thesis using less.prems by (simp add: suffix_loop.simps suffix_inv_def Let_def)
  next
    case True
    have inv: "length suff = length needle" "i < f" "f \<le> ?m - 1" "g < i \<longrightarrow> f < ?m - 1" "- 1 \<le> g" "g \<le> f"
      using less.prems by (auto simp: suffix_inv_def Let_def)
    have rd_k: "g < i \<Longrightarrow> rdi suff ?k = Some (at suff ?k)" using inv True by (intro rdi_at) auto
    have idx: "c_int (i + ?m) = Some (i + ?m)" using True less.prems int_length(6) [of "length needle" i] by simp
    have wr_i: "wri suff i L = Some (suff[nat i := L])" for L using inv True by (intro wri_Some) auto
    show ?thesis
    proof (cases "g < i \<and> at suff ?k < i - g")
      case copy: True
      have step: "suffix_loop needle ?m suff f g i = suffix_loop needle ?m (suff[nat i := at suff ?k]) f g (i - 1)"
        using True copy rd_k wr_i idx by (subst suffix_loop.simps) simp
      have "suffix_inv needle (suff[nat i := at suff ?k]) f g (i - 1)"
        by (rule suffix_inv_update [OF less.prems(1) True suffix_copied [OF less.prems(1) _ refl]])
          (use less.prems copy in \<open>auto simp: suffix_inv_def Let_def\<close>)
      then show ?thesis unfolding step by (rule less.hyps [rotated]) (use True less.prems in simp_all)
    next
      case False
      define h where "h = (if i < g then i else g)"
      have cmp: "- 1 \<le> h" "h \<le> i" "\<forall>t. h < t \<and> t \<le> i \<longrightarrow> ?x t = ?x (t + ?m - 1 - i)"
        using suffix_compared [OF less.prems(1) True refl _ h_def] False by auto
      obtain g' where g': "match_back needle ?m i h = Some g'" "- 1 \<le> g'" "g' \<le> h"
        "\<forall>t. g' < t \<and> t \<le> h \<longrightarrow> ?x t = ?x (t + ?m - 1 - i)"
        "0 \<le> g' \<longrightarrow> ?x g' \<noteq> ?x (g' + ?m - 1 - i)"
        using match_back_ok [of h i needle] cmp less.prems(2,3) by auto
      have all: "\<forall>t. g' < t \<and> t \<le> i \<longrightarrow> ?x t = ?x (t + ?m - 1 - i)" using g'(4) cmp(3) by (meson not_le)
      have step: "suffix_loop needle ?m suff f g i = suffix_loop needle ?m (suff[nat i := i - g']) i g' (i - 1)"
        using True False rd_k wr_i idx g'(1) h_def by (subst suffix_loop.simps) (auto simp: Let_def)
      have "?x (i - t) = ?x (?m - 1 - t)" if "0 \<le> t" "t < i - g'" for t
        using all [rule_format, of "i - t"] that by (simp add: algebra_simps)
      moreover have "?x g' \<noteq> ?x (?m - 1 - (i - g'))" if "0 \<le> g'"
        using g'(5) that by (simp add: algebra_simps)
      ultimately have "is_suff ?x ?m i (i - g')"
        using g' cmp by (auto simp: is_suff_def)
      then have "suffix_inv needle (suff[nat i := i - g']) i g' (i - 1)"
        by (rule suffix_inv_update [OF less.prems(1) True]) (use g' cmp all inv in auto)
      then show ?thesis unfolding step by (rule less.hyps [rotated]) (use True less.prems in simp_all)
    qed
  qed
qed

lemma suffix_lengths_ok:
  assumes "needle \<noteq> []" "length suff = length needle" "int (length needle) \<le> 2 ^ 30"
  shows "\<exists>suff'. do { suff \<leftarrow> wri suff (int (length needle) - 1) (int (length needle));
      suffix_loop needle (int (length needle)) suff (int (length needle) - 1) (int (length needle) - 1) (int (length needle) - 2) } =
    Some suff' \<and> length suff' = length needle \<and>
    (\<forall>k. 0 \<le> k \<and> k < int (length needle) \<longrightarrow> is_suff (at needle) (int (length needle)) k (at suff' k))"
proof -
  let ?m = "int (length needle)"
  have m: "1 \<le> ?m" using assms(1) by (cases needle) auto
  have w: "wri suff (?m - 1) ?m = Some (suff[nat (?m - 1) := ?m])" using m assms(2) by (intro wri_Some) auto
  have "is_suff (at needle) ?m (?m - 1) ?m" using m by (auto simp: is_suff_def)
  moreover have "at (suff[nat (?m - 1) := ?m]) (?m - 1) = ?m" using m assms(2) by (subst at_update) auto
  moreover have "k = ?m - 1" if "?m - 2 < k" "k < ?m" for k using that by linarith
  ultimately have "\<forall>k. ?m - 2 < k \<and> k < ?m \<longrightarrow> is_suff (at needle) ?m k (at (suff[nat (?m - 1) := ?m]) k)"
    by metis
  then have "suffix_inv needle (suff[nat (?m - 1) := ?m]) (?m - 1) (?m - 1) (?m - 2)"
    using m assms(2) by (auto simp: suffix_inv_def Let_def)
  from suffix_loop_ok [OF this assms(3)] w show ?thesis by simp
qed

subsection \<open>The table of good substring shifts\<close>

text \<open>
  \<open>consistent x m j s\<close>: after a mismatch at position \<open>j\<close> of the needle, with everything behind it matched,
  shifting the needle by \<open>s\<close> is not already refuted.  A shift entry must not exceed any such \<open>s\<close>.
\<close>

definition consistent :: "(int \<Rightarrow> 'a) \<Rightarrow> int \<Rightarrow> int \<Rightarrow> int \<Rightarrow> bool" where
  "consistent x m j s \<longleftrightarrow> 1 \<le> s \<and> (\<forall>k. j < k \<and> k < m \<and> s \<le> k \<longrightarrow> x (k - s) = x k) \<and>
     (s \<le> j \<longrightarrow> x (j - s) \<noteq> x j)"

lemma consistent_suff_inner:
  assumes c: "consistent x m j s" and "0 \<le> j" "j < m" "s \<le> j" "is_suff x m (m - 1 - s) L"
  shows "L = m - 1 - j"
proof (rule is_suff_unique [OF assms(5)])
  have "x (m - 1 - s - t) = x (m - 1 - t)" if "0 \<le> t" "t < m - 1 - j" for t
  proof -
    have "x (m - 1 - t - s) = x (m - 1 - t)" using c that assms by (auto simp: consistent_def)
    then show ?thesis by (simp add: algebra_simps)
  qed
  moreover have "x (j - s) \<noteq> x j" using c assms by (auto simp: consistent_def)
  ultimately show "is_suff x m (m - 1 - s) (m - 1 - j)"
    using assms by (auto simp: is_suff_def)
qed

lemma consistent_suff_border:
  assumes c: "consistent x m j s" and "0 \<le> j" "j < s" "s < m" "is_suff x m (m - 1 - s) L"
  shows "L = m - s"
proof (rule is_suff_unique [OF assms(5)])
  have "x (m - 1 - s - t) = x (m - 1 - t)" if "0 \<le> t" "t < m - s" for t
  proof -
    have "x (m - 1 - t - s) = x (m - 1 - t)" using c that assms by (auto simp: consistent_def)
    then show ?thesis by (simp add: algebra_simps)
  qed
  then show "is_suff x m (m - 1 - s) (m - s)" using assms by (auto simp: is_suff_def)
qed

lemma at_upd_list: "i < length xs \<Longrightarrow> 0 \<le> k \<Longrightarrow> at (xs[i := v]) k = (if k = int i then v else at xs k)"
  using at_update [of "int i" xs k v] by simp

lemma fill_ok:
  assumes "length xs = n"
  shows "for_each [0..<n] (\<lambda>i s. wri s (int i) v) xs = Some (replicate n v)"
proof -
  have "\<exists>s'. for_each [0..<n] (\<lambda>i s. wri s (int i) v) xs = Some s' \<and>
      s' = replicate (length [0..<n]) v @ drop (length [0..<n]) xs"
  proof (rule for_each_inv [where P = "\<lambda>k s. s = replicate k v @ drop k xs"])
    fix k s
    assume k: "k < length [0..<n]" and s: "s = replicate k v @ drop k xs"
    then have "wri s (int k) v = Some (s[k := v])" using assms by (subst wri_Some) auto
    moreover have "s[k := v] = replicate (Suc k) v @ drop (Suc k) xs"
      using k s assms by (simp add: list_update_append Cons_nth_drop_Suc [symmetric] replicate_app_Cons_same)
    ultimately show "\<exists>s'. wri s (int ([0..<n] ! k)) v = Some s' \<and> s' = replicate (Suc k) v @ drop (Suc k) xs"
      using k by auto
  qed simp
  then show ?thesis using assms by simp
qed

lemma prefix_fill_ok:
  "0 \<le> j \<Longrightarrow> v \<le> int (length shift) \<Longrightarrow> (\<And>t. j \<le> t \<Longrightarrow> t < v \<Longrightarrow> at shift t = m) \<Longrightarrow>
    \<exists>shift'. prefix_fill m v shift j = Some (shift', max j v) \<and> length shift' = length shift \<and>
      (\<forall>t. 0 \<le> t \<longrightarrow> at shift' t = (if j \<le> t \<and> t < v then v else at shift t))"
proof (induction "nat (v - j)" arbitrary: j shift rule: less_induct)
  case less
  show ?case
  proof (cases "j < v")
    case False
    then show ?thesis using less.prems by (auto simp: prefix_fill.simps [of m v shift j] max_def)
  next
    case True
    let ?s = "shift[nat j := v]"
    have step: "prefix_fill m v shift j = prefix_fill m v ?s (j + 1)"
      using True less.prems by (subst prefix_fill.simps) (simp add: rdi_at wri_Some)
    have upd: "at ?s t = (if t = j then v else at shift t)" if "0 \<le> t" for t
      using at_update [of j shift t v] True less.prems that by auto
    have "\<exists>shift'. prefix_fill m v ?s (j + 1) = Some (shift', max (j + 1) v) \<and> length shift' = length ?s \<and>
        (\<forall>t. 0 \<le> t \<longrightarrow> at shift' t = (if j + 1 \<le> t \<and> t < v then v else at ?s t))"
      using True less.prems upd by (intro less.hyps) auto
    then obtain shift' where s': "prefix_fill m v ?s (j + 1) = Some (shift', max (j + 1) v)"
      "length shift' = length shift"
      "\<And>t. 0 \<le> t \<Longrightarrow> at shift' t = (if j + 1 \<le> t \<and> t < v then v else at ?s t)" by auto
    then show ?thesis using True upd unfolding step
      by (intro exI [of _ shift']) (auto simp: max_def)
  qed
qed

text \<open>The entries for the needle's borders.\<close>

definition border_inv :: "nat \<Rightarrow> (int \<Rightarrow> int) \<Rightarrow> nat \<Rightarrow> int list \<times> int \<Rightarrow> bool" where
  "border_inv n S k st \<longleftrightarrow> (case st of (shift, j) \<Rightarrow>
     length shift = n \<and> 0 \<le> j \<and> j \<le> int k \<and>
     (\<forall>t. 0 \<le> t \<and> t < j \<longrightarrow> 1 \<le> at shift t \<and> at shift t < int k) \<and>
     (\<forall>t. j \<le> t \<and> t < int n \<longrightarrow> at shift t = int n) \<and>
     (\<forall>b. 0 \<le> b \<and> b < int k \<and> S (int n - 1 - b) = int n - b \<longrightarrow> b \<le> j \<and> (\<forall>t. 0 \<le> t \<and> t < b \<longrightarrow> at shift t \<le> b)))"

lemma border_step:
  assumes inv: "border_inv n S k (shift, j)" and k: "k < n"
    and border: "S (int n - 1 - int k) = int n - int k"
  shows "\<exists>shift' j'. prefix_fill (int n) (int k) shift j = Some (shift', j') \<and> border_inv n S (Suc k) (shift', j')"
proof -
  have j: "0 \<le> j" "j \<le> int k" "length shift = n" using inv by (auto simp: border_inv_def)
  obtain shift' where s': "prefix_fill (int n) (int k) shift j = Some (shift', max j (int k))"
    "length shift' = length shift" "\<And>t. 0 \<le> t \<Longrightarrow> at shift' t = (if j \<le> t \<and> t < int k then int k else at shift t)"
    using prefix_fill_ok [of j "int k" shift "int n"] inv k by (auto simp: border_inv_def)
  have "border_inv n S (Suc k) (shift', int k)"
    unfolding border_inv_def prod.case
  proof (intro conjI allI impI)
    show "length shift' = n" "0 \<le> int k" "int k \<le> int (Suc k)" using s' j by auto
    fix t assume t: "0 \<le> t \<and> t < int k"
    show "1 \<le> at shift' t" "at shift' t < int (Suc k)"
      using inv t s'(3) [of t] j by (force simp: border_inv_def)+
  next
    fix t assume t: "int k \<le> t \<and> t < int n"
    then show "at shift' t = int n" using inv s'(3) [of t] j by (auto simp: border_inv_def)
  next
    fix b assume b: "0 \<le> b \<and> b < int (Suc k) \<and> S (int n - 1 - b) = int n - b"
    then show "b \<le> int k" by simp
    fix t assume t: "0 \<le> t \<and> t < b"
    show "at shift' t \<le> b"
    proof (cases "b = int k")
      case True
      then show ?thesis using inv t s'(3) [of t] by (force simp: border_inv_def)
    next
      case False
      then have "b \<le> j" "at shift t \<le> b" using inv b t by (auto simp: border_inv_def)
      then show ?thesis using t s'(3) [of t] by simp
    qed
  qed
  with s' j show ?thesis by (simp add: max_def)
qed

lemma border_skip:
  assumes inv: "border_inv n S k (shift, j)" and border: "S (int n - 1 - int k) \<noteq> int n - int k"
  shows "border_inv n S (Suc k) (shift, j)"
proof -
  have "b < int k" if "b < int (Suc k)" "S (int n - 1 - b) = int n - b" for b
    using that border by (metis int_ops(4) order_le_less zle_add1_eq_le)
  then show ?thesis using inv unfolding border_inv_def by fastforce
qed

lemma borders_ok:
  assumes n: "0 < n" and suff: "length suff = n" "\<And>i. 0 \<le> i \<Longrightarrow> i < int n \<Longrightarrow> at suff i = S i"
  shows "\<exists>shift j. for_each (rev [0..<n])
      (\<lambda>i (shift, j). do { s \<leftarrow> rdi suff (int i);
         (if s = int i + 1 then prefix_fill (int n) (int n - 1 - int i) shift j else Some (shift, j)) })
      (replicate n (int n), 0) = Some (shift, j) \<and> border_inv n S n (shift, j)"
proof -
  let ?body = "\<lambda>i (shift, j). do { s \<leftarrow> rdi suff (int i);
         (if s = int i + 1 then prefix_fill (int n) (int n - 1 - int i) shift j else Some (shift, j)) }"
  have "\<exists>st'. for_each (rev [0..<n]) ?body (replicate n (int n), 0) = Some st' \<and> border_inv n S (length (rev [0..<n])) st'"
  proof (rule for_each_inv)
    have "at (replicate n (int n)) t = int n" if "0 \<le> t" "t < int n" for t
      using that by (simp add: at_def nat_less_iff)
    then show "border_inv n S 0 (replicate n (int n), 0)" by (auto simp: border_inv_def)
    fix k and st :: "int list \<times> int"
    assume k: "k < length (rev [0..<n])" and inv: "border_inv n S k st"
    obtain shift j where st: "st = (shift, j)" by (cases st)
    have idx: "int (rev [0..<n] ! k) = int n - 1 - int k" using k by (simp add: rev_nth of_nat_diff)
    have rd: "rdi suff (int n - 1 - int k) = Some (S (int n - 1 - int k))"
      using k suff by (subst rdi_at) auto
    show "\<exists>st'. ?body (rev [0..<n] ! k) st = Some st' \<and> border_inv n S (Suc k) st'"
    proof (cases "S (int n - 1 - int k) = int n - int k")
      case True
      then show ?thesis using border_step [of n S k shift j] inv k rd unfolding st prod.case idx by simp
    next
      case False
      then show ?thesis using border_skip [of n S k shift j] inv rd unfolding st prod.case idx by simp
    qed
  qed
  then show ?thesis by (simp add: split_paired_Ex)
qed

text \<open>The entries for the inner matches: the last one written wins, and it is the smallest shift.\<close>

definition inner_inv :: "nat \<Rightarrow> (int \<Rightarrow> int) \<Rightarrow> int list \<Rightarrow> nat \<Rightarrow> int list \<Rightarrow> bool" where
  "inner_inv n S base k shift \<longleftrightarrow> length shift = n \<and>
     (\<forall>t. 0 \<le> t \<and> t < int n \<longrightarrow>
        (\<exists>i. 0 \<le> i \<and> i < int k \<and> S i = int n - 1 - t \<and> at shift t = int n - 1 - i \<and>
             (\<forall>i'. 0 \<le> i' \<and> i' < int k \<and> S i' = int n - 1 - t \<longrightarrow> i' \<le> i)) \<or>
        at shift t = at base t \<and> (\<forall>i. 0 \<le> i \<and> i < int k \<longrightarrow> S i \<noteq> int n - 1 - t))"

lemma inner_step:
  assumes inv: "inner_inv n S base k shift" and S: "0 \<le> S (int k)" "S (int k) \<le> int k + 1" and k: "k < n - 1"
  shows "\<exists>shift'. wri shift (int n - 1 - S (int k)) (int n - 1 - int k) = Some shift' \<and> inner_inv n S base (Suc k) shift'"
proof -
  let ?j = "int n - 1 - S (int k)"
  have j: "0 \<le> ?j" "?j < int n" using S k by auto
  have len: "length shift = n" using inv by (simp add: inner_inv_def)
  let ?s = "shift[nat ?j := int n - 1 - int k]"
  have upd: "at ?s t = (if t = ?j then int n - 1 - int k else at shift t)" if "0 \<le> t" for t
    using at_update [of ?j shift t] j len that by simp
  have less: "i < int (Suc k) \<longleftrightarrow> i < int k \<or> i = int k" for i by auto
  have "inner_inv n S base (Suc k) ?s"
    unfolding inner_inv_def
  proof (intro conjI allI impI)
    show "length ?s = n" using len by simp
    fix t assume t: "0 \<le> t \<and> t < int n"
    show "(\<exists>i. 0 \<le> i \<and> i < int (Suc k) \<and> S i = int n - 1 - t \<and> at ?s t = int n - 1 - i \<and>
             (\<forall>i'. 0 \<le> i' \<and> i' < int (Suc k) \<and> S i' = int n - 1 - t \<longrightarrow> i' \<le> i)) \<or>
        at ?s t = at base t \<and> (\<forall>i. 0 \<le> i \<and> i < int (Suc k) \<longrightarrow> S i \<noteq> int n - 1 - t)"
    proof (cases "t = ?j")
      case True
      then have "S (int k) = int n - 1 - t" by simp
      then show ?thesis using upd [of t] t True
        by (intro disjI1 exI [of _ "int k"]) auto
    next
      case False
      then have neq: "S (int k) \<noteq> int n - 1 - t" by auto
      show ?thesis
        using inv [unfolded inner_inv_def, THEN conjunct2, rule_format, OF t] upd [of t] t False neq
        unfolding less by auto
    qed
  qed
  then show ?thesis using j len by (simp add: wri_Some)
qed

lemma inner_ok:
  assumes suff: "length suff = n" "\<And>i. 0 \<le> i \<Longrightarrow> i < int n \<Longrightarrow> at suff i = S i"
    and S: "\<And>i. 0 \<le> i \<Longrightarrow> i < int n \<Longrightarrow> 0 \<le> S i \<and> S i \<le> i + 1" and base: "length base = n"
  shows "\<exists>shift. for_each [0..<n - 1]
      (\<lambda>i shift. do { s \<leftarrow> rdi suff (int i); wri shift (int n - 1 - s) (int n - 1 - int i) }) base = Some shift \<and>
    inner_inv n S base (n - 1) shift"
proof -
  have "\<exists>shift. for_each [0..<n - 1]
      (\<lambda>i shift. do { s \<leftarrow> rdi suff (int i); wri shift (int n - 1 - s) (int n - 1 - int i) }) base = Some shift \<and>
    inner_inv n S base (length [0..<n - 1]) shift"
  proof (rule for_each_inv)
    show "inner_inv n S base 0 base" using base by (simp add: inner_inv_def)
    fix k shift assume k: "k < length [0..<n - 1]" and inv: "inner_inv n S base k shift"
    have "rdi suff (int k) = Some (S (int k))" using k suff by (subst rdi_at) auto
    then show "\<exists>s'. do { s \<leftarrow> rdi suff (int ([0..<n - 1] ! k));
        wri shift (int n - 1 - s) (int n - 1 - int ([0..<n - 1] ! k)) } = Some s' \<and> inner_inv n S base (Suc k) s'"
      using inner_step [OF inv, of] S [of "int k"] k by simp
  qed
  then show ?thesis by simp
qed

lemma add_distance_ok:
  assumes "length shift = n"
  shows "\<exists>good. for_each [0..<n - 1]
      (\<lambda>i shift. do { s \<leftarrow> rdi shift (int i); wri shift (int i) (s + (int n - 1 - int i)) }) shift = Some good \<and>
    length good = n \<and> (\<forall>t. 0 \<le> t \<and> t < int n \<longrightarrow> at good t = at shift t + (int n - 1 - t))"
proof -
  have "\<exists>good. for_each [0..<n - 1]
      (\<lambda>i shift. do { s \<leftarrow> rdi shift (int i); wri shift (int i) (s + (int n - 1 - int i)) }) shift = Some good \<and>
    (length good = n \<and> (\<forall>t. 0 \<le> t \<and> t < int n \<longrightarrow>
      at good t = (if t < int (length [0..<n - 1]) then at shift t + (int n - 1 - t) else at shift t)))"
  proof (rule for_each_inv [where P = "\<lambda>k good. length good = n \<and> (\<forall>t. 0 \<le> t \<and> t < int n \<longrightarrow>
      at good t = (if t < int k then at shift t + (int n - 1 - t) else at shift t))"])
    fix k good
    assume k: "k < length [0..<n - 1]" and inv: "length good = n \<and> (\<forall>t. 0 \<le> t \<and> t < int n \<longrightarrow>
      at good t = (if t < int k then at shift t + (int n - 1 - t) else at shift t))"
    have rd: "rdi good (int k) = Some (at good (int k))" "wri good (int k) v = Some (good[k := v])" for v
      using k inv by (auto simp: rdi_at wri_Some)
    let ?g = "good[k := at good (int k) + (int n - 1 - int k)]"
    have "length ?g = n \<and> (\<forall>t. 0 \<le> t \<and> t < int n \<longrightarrow>
      at ?g t = (if t < int (Suc k) then at shift t + (int n - 1 - t) else at shift t))"
      using inv k by (auto simp: at_upd_list)
    then show "\<exists>s'. do { s \<leftarrow> rdi good (int ([0..<n - 1] ! k));
        wri good (int ([0..<n - 1] ! k)) (s + (int n - 1 - int ([0..<n - 1] ! k))) } = Some s' \<and>
      (length s' = n \<and> (\<forall>t. 0 \<le> t \<and> t < int n \<longrightarrow>
        at s' t = (if t < int (Suc k) then at shift t + (int n - 1 - t) else at shift t)))"
      using k rd by simp
  qed (use assms in simp)
  then show ?thesis by fastforce
qed

text \<open>What the tables mean for the search.\<close>

definition good_table :: "byte list \<Rightarrow> int list \<Rightarrow> bool" where
  "good_table needle good \<longleftrightarrow> length good = length needle \<and>
     (\<forall>j. 0 \<le> j \<and> j < int (length needle) \<longrightarrow>
        int (length needle) - j \<le> at good j \<and>
        (\<forall>s. consistent (at needle) (int (length needle)) j s \<longrightarrow> at good j - (int (length needle) - 1 - j) \<le> s))"

lemma shift_bound:
  assumes S: "\<And>i. 0 \<le> i \<Longrightarrow> i < int n \<Longrightarrow> is_suff x (int n) i (S i)"
    and border: "border_inv n S n (base, j0)" and inner: "inner_inv n S base (n - 1) shift"
    and j: "0 \<le> j" "j < int n"
  shows "1 \<le> at shift j \<and> (\<forall>s. consistent x (int n) j s \<longrightarrow> at shift j \<le> s)"
proof -
  have cases: "(\<exists>i. 0 \<le> i \<and> i < int (n - 1) \<and> S i = int n - 1 - j \<and> at shift j = int n - 1 - i \<and>
             (\<forall>i'. 0 \<le> i' \<and> i' < int (n - 1) \<and> S i' = int n - 1 - j \<longrightarrow> i' \<le> i)) \<or>
        at shift j = at base j \<and> (\<forall>i. 0 \<le> i \<and> i < int (n - 1) \<longrightarrow> S i \<noteq> int n - 1 - j)"
    using inner j by (auto simp: inner_inv_def)
  have base: "1 \<le> at base j" "at base j \<le> int n"
  proof -
    have "j < j0 \<longrightarrow> 1 \<le> at base j \<and> at base j < int n" "j0 \<le> j \<longrightarrow> at base j = int n"
      using border j by (auto simp: border_inv_def)
    then show "1 \<le> at base j" "at base j \<le> int n" using j by linarith+
  qed
  have le: "at shift j \<le> int n" "1 \<le> at shift j" using cases base j by auto
  moreover have "at shift j \<le> s" if c: "consistent x (int n) j s" for s
  proof -
    have s: "1 \<le> s" using c by (simp add: consistent_def)
    consider "int n \<le> s" | (inner) "s \<le> j" | (border) "j < s" "s < int n" by linarith
    then show ?thesis
    proof cases
      case 1
      then show ?thesis using le by simp
    next
      case inner
      have "S (int n - 1 - s) = int n - 1 - j"
        by (rule consistent_suff_inner [OF c j inner]) (use S s j inner in simp)
      moreover have "0 \<le> int n - 1 - s" "int n - 1 - s < int (n - 1)" using s inner j by auto
      ultimately obtain i where "at shift j = int n - 1 - i" "int n - 1 - s \<le> i" using cases by blast
      then show ?thesis by simp
    next
      case border
      have b: "S (int n - 1 - s) = int n - s"
        by (rule consistent_suff_border [OF c j(1) border]) (use S s border in simp)
      then have "at base j \<le> s"
        using \<open>border_inv n S n (base, j0)\<close> border j s by (auto simp: border_inv_def)
      moreover have "int n - 1 - i \<le> s" if "0 \<le> i" "i < int (n - 1)" "S i = int n - 1 - j" for i
      proof -
        have "is_suff x (int n) i (S i)" using S [of i] that by simp
        then show ?thesis using that border by (simp add: is_suff_def)
      qed
      ultimately show ?thesis using cases by auto
    qed
  qed
  ultimately show ?thesis by blast
qed

lemma computeGoodSubstringShift_ok:
  assumes "needle \<noteq> []" "length shift0 = length needle" "length suff0 = length needle"
    and short: "int (length needle) \<le> 2 ^ 30"
  shows "\<exists>good suff. computeGoodSubstringShift needle (int (length needle)) shift0 suff0 = Some (good, suff) \<and>
    good_table needle good"
proof -
  let ?n = "length needle"
  let ?m = "int ?n"
  obtain suff where suff: "do { suff \<leftarrow> wri suff0 (?m - 1) ?m; suffix_loop needle ?m suff (?m - 1) (?m - 1) (?m - 2) } = Some suff"
    "length suff = ?n" "\<And>k. 0 \<le> k \<Longrightarrow> k < ?m \<Longrightarrow> is_suff (at needle) ?m k (at suff k)"
    using suffix_lengths_ok [OF assms(1,3) short] by blast
  then obtain suff1 where suff1: "wri suff0 (?m - 1) ?m = Some suff1"
    "suffix_loop needle ?m suff1 (?m - 1) (?m - 1) (?m - 2) = Some suff"
    by (auto simp: option_bind_eq_Some)
  have S: "0 \<le> at suff i \<and> at suff i \<le> i + 1" if "0 \<le> i" "i < ?m" for i
    using suff(3) [OF that] by (simp add: is_suff_def)
  obtain base j where base: "for_each (rev [0..<?n])
      (\<lambda>i (shift, j). do { s \<leftarrow> rdi suff (int i);
         (if s = int i + 1 then prefix_fill ?m (?m - 1 - int i) shift j else Some (shift, j)) })
      (replicate ?n ?m, 0) = Some (base, j)" "border_inv ?n (at suff) ?n (base, j)"
    using borders_ok [of ?n suff "at suff"] suff(2) assms(1) by auto
  have "length base = ?n" using base(2) by (simp add: border_inv_def)
  then obtain shift where shift: "for_each [0..<?n - 1]
      (\<lambda>i shift. do { s \<leftarrow> rdi suff (int i); wri shift (?m - 1 - s) (?m - 1 - int i) }) base = Some shift"
    "inner_inv ?n (at suff) base (?n - 1) shift"
    using inner_ok [of suff ?n "at suff" base] suff(2) S by blast
  have "length shift = ?n" using shift(2) by (simp add: inner_inv_def)
  then obtain good where good: "for_each [0..<?n - 1]
      (\<lambda>i shift. do { s \<leftarrow> rdi shift (int i); wri shift (int i) (s + (?m - 1 - int i)) }) shift = Some good"
    "length good = ?n" "\<And>t. 0 \<le> t \<Longrightarrow> t < ?m \<Longrightarrow> at good t = at shift t + (?m - 1 - t)"
    using add_distance_ok [of shift ?n] by blast
  have nats: "nat (?m - 1) = ?n - 1" by simp
  have run: "computeGoodSubstringShift needle ?m shift0 suff0 = Some (good, suff)"
    unfolding computeGoodSubstringShift_def suff1 for_int_each [OF int_length(1) [OF short]]
      for_int_each [OF int_length(2) [OF short]] nat_int nats Option.bind.bind_lunit
      fill_ok [OF assms(2)] base(1) prod.case shift(1) good(1) by simp
  have "good_table needle good"
    unfolding good_table_def using shift_bound [of ?n "at needle" "at suff" base j shift] suff(3) base(2) shift(2) good
    by fastforce
  with run show ?thesis by blast
qed

subsection \<open>Reversal and the bad character table\<close>

lemma REVERSE_BUFFER_ok:
  assumes short: "int (length buf) \<le> 2 ^ 30"
  shows "REVERSE_BUFFER buf (int (length buf)) = Some (rev buf)"
proof -
  let ?n = "length buf"
  let ?body = "\<lambda>i buf. do { tmp \<leftarrow> rdi buf (int i); b \<leftarrow> rdi buf (int ?n - int i - 1);
                     buf \<leftarrow> wri buf (int i) b; wri buf (int ?n - int i - 1) tmp }"
  have half: "nat (int ?n div 2) = ?n div 2" by (simp add: nat_div_distrib)
  have "\<exists>s'. for_each [0..<?n div 2] ?body buf = Some s' \<and> (length s' = ?n \<and>
      (\<forall>t < ?n. s' ! t = (if t < length [0..<?n div 2] \<or> ?n - length [0..<?n div 2] \<le> t then buf ! (?n - 1 - t) else buf ! t)))"
  proof (rule for_each_inv [where P = "\<lambda>k s. length s = ?n \<and>
      (\<forall>t < ?n. s ! t = (if t < k \<or> ?n - k \<le> t then buf ! (?n - 1 - t) else buf ! t))"])
    fix k s
    assume k: "k < length [0..<?n div 2]" and s: "length s = ?n \<and>
      (\<forall>t < ?n. s ! t = (if t < k \<or> ?n - k \<le> t then buf ! (?n - 1 - t) else buf ! t))"
    then have k2: "k < ?n" "?n - k - 1 < ?n" "int ?n - int k - 1 = int (?n - k - 1)" "k < ?n - k"
      "k \<noteq> ?n - k - 1" "\<not> ?n - k - 1 < k" "\<not> ?n - k \<le> ?n - k - 1"
      by auto
    let ?s = "s[k := buf ! (?n - k - 1), ?n - k - 1 := buf ! k]"
    have last: "rdi s (int ?n - int k - 1) = Some (buf ! (?n - k - 1))"
      "wri (s[k := v]) (int ?n - int k - 1) w = Some (s[k := v, ?n - k - 1 := w])" for v w
    proof -
      define r where "r = ?n - k - 1"
      have r: "r < ?n" "\<not> r < k" "\<not> ?n - k \<le> r" "?n - k - 1 = r" using k2 by (simp_all add: r_def)
      show "rdi s (int ?n - int k - 1) = Some (buf ! (?n - k - 1))"
        "wri (s[k := v]) (int ?n - int k - 1) w = Some (s[k := v, ?n - k - 1 := w])" for v w
        unfolding k2(3) r(4) using r s by (simp_all add: rdi_int wri_Some)
    qed
    have first: "rdi s (int k) = Some (buf ! k)" "wri s (int k) v = Some (s[k := v])" for v
      using k2 s by (simp_all add: rdi_int wri_Some)
    have "?body k s = Some ?s"
      unfolding first last Option.bind.bind_lunit by (rule refl)
    moreover have "?s ! t = (if t < Suc k \<or> ?n - Suc k \<le> t then buf ! (?n - 1 - t) else buf ! t)" if "t < ?n" for t
    proof -
      have backw: "?n - 1 - (?n - k - 1) = k" "?n - 1 - k = ?n - k - 1" using k2 by auto
      consider "t = k" | "t = ?n - k - 1" | "t < k \<or> ?n - k \<le> t" "t \<noteq> k" "t \<noteq> ?n - k - 1"
        | "k < t" "t < ?n - k - 1" by linarith
      then show ?thesis using k2 s that backw by cases auto
    qed
    ultimately show "\<exists>s'. ?body ([0..<?n div 2] ! k) s = Some s' \<and> (length s' = ?n \<and>
      (\<forall>t < ?n. s' ! t = (if t < Suc k \<or> ?n - Suc k \<le> t then buf ! (?n - 1 - t) else buf ! t)))"
      using k s by (intro exI [of _ ?s]) simp
  qed auto
  then obtain s' where s': "for_each [0..<?n div 2] ?body buf = Some s'" "length s' = ?n"
    "\<And>t. t < ?n \<Longrightarrow> s' ! t = (if t < ?n div 2 \<or> ?n - ?n div 2 \<le> t then buf ! (?n - 1 - t) else buf ! t)" by auto
  have "s' ! t = buf ! (?n - 1 - t)" if "t < ?n" for t
  proof (cases "t < ?n div 2 \<or> ?n - ?n div 2 \<le> t")
    case False
    then have "t = ?n - 1 - t" using that by linarith
    then show ?thesis using s'(3) [OF that] False by metis
  qed (use s'(3) [OF that] in simp)
  then have "s' = rev buf" using s'(2) by (intro nth_equalityI) (auto simp: rev_nth)
  then show ?thesis using s'(1) by (simp add: REVERSE_BUFFER_def half for_int_each [OF int_length(3) [OF short]])
qed

definition bad_table :: "byte list \<Rightarrow> int list \<Rightarrow> bool" where
  "bad_table needle bad \<longleftrightarrow> length bad = 256 \<and>
     (\<forall>c :: byte. at bad (uint c) \<le> int (length needle)) \<and>
     (\<forall>k. 0 \<le> k \<and> k < int (length needle) \<longrightarrow> at bad (uint (at needle k)) \<le> int (length needle) - 1 - k)"

lemma uint_byte: "0 \<le> uint (c :: byte)" "uint (c :: byte) < 256"
  using uint_lt2p [of c] by simp_all

lemma bad_entries:
  fixes needle :: "byte list" and v :: "nat \<Rightarrow> int"
  assumes "length bad = 256" "\<forall>i \<in> set is. i < length needle" "sorted_wrt (\<lambda>i k. v k \<le> v i) is"
  shows "\<exists>bad'. for_each is (\<lambda>i bad. do { c \<leftarrow> rdi needle (int i); wri bad (uint c) (v i) }) bad = Some bad' \<and>
    length bad' = 256 \<and>
    (\<forall>(c :: byte) u. at bad (uint c) \<le> u \<and> (\<forall>i \<in> set is. v i \<le> u) \<longrightarrow> at bad' (uint c) \<le> u) \<and>
    (\<forall>i \<in> set is. at bad' (uint (needle ! i)) \<le> v i)"
  using assms
proof (induction "is" arbitrary: bad)
  case Nil
  then show ?case by simp
next
  case (Cons i "is")
  let ?b = "bad[nat (uint (needle ! i)) := v i]"
  have r: "rdi needle (int i) = Some (needle ! i)" "wri bad (uint (needle ! i)) (v i) = Some ?b"
    using Cons.prems uint_byte [of "needle ! i"] by (simp_all add: rdi_int wri_Some)
  have upd: "at ?b (uint c) = (if uint c = uint (needle ! i) then v i else at bad (uint c))" for c :: byte
    using Cons.prems(1) uint_byte [of c] uint_byte [of "needle ! i"] by (intro at_update) auto
  have "\<exists>bad'. for_each is (\<lambda>i bad. do { c \<leftarrow> rdi needle (int i); wri bad (uint c) (v i) }) ?b = Some bad' \<and>
    length bad' = 256 \<and>
    (\<forall>(c :: byte) u. at ?b (uint c) \<le> u \<and> (\<forall>i \<in> set is. v i \<le> u) \<longrightarrow> at bad' (uint c) \<le> u) \<and>
    (\<forall>i \<in> set is. at bad' (uint (needle ! i)) \<le> v i)"
    by (rule Cons.IH) (use Cons.prems in auto)
  then obtain bad' where b': "for_each is (\<lambda>i bad. do { c \<leftarrow> rdi needle (int i); wri bad (uint c) (v i) }) ?b = Some bad'"
    "length bad' = 256"
    "\<And>(c :: byte) u. at ?b (uint c) \<le> u \<Longrightarrow> \<forall>i \<in> set is. v i \<le> u \<Longrightarrow> at bad' (uint c) \<le> u"
    "\<forall>i \<in> set is. at bad' (uint (needle ! i)) \<le> v i"
    by blast
  have "at bad' (uint (needle ! i)) \<le> v i"
    by (rule b'(3)) (use Cons.prems(3) upd in auto)
  moreover have "at bad' (uint c) \<le> u" if "at bad (uint c) \<le> u" "\<forall>i \<in> set (i # is). v i \<le> u" for c :: byte and u
    by (rule b'(3)) (use that upd in auto)
  ultimately show ?case using r b' by (intro exI [of _ bad']) simp
qed

lemma bad_initial: "for_int 0 256 (\<lambda>i bad. wri bad i (m :: int)) (replicate 256 0) = Some (replicate 256 m)"
  using fill_ok [of "replicate 256 0" 256 m] by (simp add: for_int_each INT_MAX_def)

lemma at_replicate: "0 \<le> i \<Longrightarrow> i < int n \<Longrightarrow> at (replicate n v) i = v"
  by (simp add: at_def nat_less_iff)

lemma bad_forward_ok:
  "\<exists>bad. for_each [0..<length needle]
     (\<lambda>i bad. do { c \<leftarrow> rdi needle (int i); wri bad (uint c) (int (length needle) - int i - 1) })
     (replicate 256 (int (length needle))) = Some bad \<and> bad_table needle bad"
proof -
  have sorted: "sorted_wrt (\<lambda>i k. int (length needle) - int k - 1 \<le> int (length needle) - int i - 1) [0..<n]" for n
    by (induction n) (auto simp: sorted_wrt_append)
  obtain bad where bad: "for_each [0..<length needle]
     (\<lambda>i bad. do { c \<leftarrow> rdi needle (int i); wri bad (uint c) (int (length needle) - int i - 1) })
     (replicate 256 (int (length needle))) = Some bad" "length bad = 256"
    "\<forall>(c :: byte) u. at (replicate 256 (int (length needle))) (uint c) \<le> u \<and>
       (\<forall>i \<in> set [0..<length needle]. int (length needle) - int i - 1 \<le> u) \<longrightarrow> at bad (uint c) \<le> u"
    "\<forall>i \<in> set [0..<length needle]. at bad (uint (needle ! i)) \<le> int (length needle) - int i - 1"
    using bad_entries [of "replicate 256 (int (length needle))" "[0..<length needle]" needle
        "\<lambda>i. int (length needle) - int i - 1"] sorted by auto
  have "at bad (uint (at needle k)) \<le> int (length needle) - 1 - k" if "0 \<le> k" "k < int (length needle)" for k
    using bad(4) [rule_format, of "nat k"] that by (simp add: at_def nat_less_iff)
  moreover have "at bad (uint c) \<le> int (length needle)" for c :: byte
    using bad(3) [rule_format, of c "int (length needle)"] uint_byte [of c] by (simp add: at_replicate)
  ultimately show ?thesis using bad(1,2) by (auto simp: bad_table_def)
qed

lemma bad_backward_ok:
  "\<exists>bad. for_each (rev [0..<length needle])
     (\<lambda>i bad. do { c \<leftarrow> rdi needle (int i); wri bad (uint c) (int i) })
     (replicate 256 (int (length needle))) = Some bad \<and> bad_table (rev needle) bad"
proof -
  have sorted: "sorted_wrt (\<lambda>i k. int k \<le> int i) (rev [0..<n])" for n
    by (induction n) auto
  obtain bad where bad: "for_each (rev [0..<length needle])
     (\<lambda>i bad. do { c \<leftarrow> rdi needle (int i); wri bad (uint c) (int i) })
     (replicate 256 (int (length needle))) = Some bad" "length bad = 256"
    "\<forall>(c :: byte) u. at (replicate 256 (int (length needle))) (uint c) \<le> u \<and>
       (\<forall>i \<in> set (rev [0..<length needle]). int i \<le> u) \<longrightarrow> at bad (uint c) \<le> u"
    "\<forall>i \<in> set (rev [0..<length needle]). at bad (uint (needle ! i)) \<le> int i"
    using bad_entries [of "replicate 256 (int (length needle))" "rev [0..<length needle]" needle int] sorted by auto
  have "at bad (uint (at (rev needle) k)) \<le> int (length needle) - 1 - k" if "0 \<le> k" "k < int (length needle)" for k
  proof -
    have "length needle - 1 - nat k < length needle" "int (length needle - 1 - nat k) = int (length needle) - 1 - k"
      "at (rev needle) k = needle ! (length needle - 1 - nat k)"
      using that by (auto simp: at_def nat_less_iff rev_nth)
    then show ?thesis using bad(4) [rule_format, of "length needle - 1 - nat k"] by simp
  qed
  moreover have "at bad (uint c) \<le> int (length needle)" for c :: byte
    using bad(3) [rule_format, of c "int (length needle)"] uint_byte [of c] by (simp add: at_replicate)
  ultimately show ?thesis using bad(1,2) by (auto simp: bad_table_def)
qed

subsection \<open>Correctness of the search\<close>

definition occurs :: "byte list \<Rightarrow> int \<Rightarrow> byte list \<Rightarrow> int \<Rightarrow> bool" where
  "occurs haystack n needle w \<longleftrightarrow> 0 \<le> w \<and> w + int (length needle) \<le> n \<and>
     (\<forall>k. 0 \<le> k \<and> k < int (length needle) \<longrightarrow> at haystack (w + k) = at needle k)"

definition search_inv :: "byte list \<Rightarrow> int \<Rightarrow> byte list \<Rightarrow> int \<Rightarrow> int \<Rightarrow> bool" where
  "search_inv haystack n needle p j \<longleftrightarrow>
     (let m = int (length needle) in
       - 1 \<le> j \<and> j \<le> m - 1 \<and> 0 \<le> p - j \<and> (j < m - 1 \<longrightarrow> p - j + m \<le> n) \<and>
       (\<forall>k. j < k \<and> k < m \<longrightarrow> at haystack (p - j + k) = at needle k) \<and>
       (\<forall>w. w < p - j \<longrightarrow> \<not> occurs haystack n needle w))"

text \<open>A shift by the larger table entry moves the window forward and skips no occurrence.\<close>

lemma search_skip:
  assumes inv: "search_inv haystack n needle p j" and run: "p < n" "0 \<le> j"
    and mismatch: "at haystack p \<noteq> at needle j"
    and good: "good_table needle good" and bad: "bad_table needle bad"
  shows "search_inv haystack n needle (p + max (at bad (uint (at haystack p))) (at good j)) (int (length needle) - 1)"
    "p - j + 1 \<le> p + max (at bad (uint (at haystack p))) (at good j) - (int (length needle) - 1)"
proof -
  let ?m = "int (length needle)" and ?x = "at needle" and ?h = "at haystack"
  define w where "w = p - j"
  define d where "d = max (at bad (uint (?h p))) (at good j) - (?m - 1 - j)"
  have j: "0 \<le> j" "j < ?m" "0 \<le> w" using inv run by (auto simp: search_inv_def Let_def w_def)
  have matched: "?h (w + k) = ?x k" if "j < k" "k < ?m" for k
    using inv that by (auto simp: search_inv_def Let_def w_def)
  have before: "\<not> occurs haystack n needle u" if "u < w" for u
    using inv that by (auto simp: search_inv_def Let_def w_def)
  have g: "?m - j \<le> at good j" using good j by (auto simp: good_table_def)
  then show "p - j + 1 \<le> p + max (at bad (uint (?h p))) (at good j) - (?m - 1)" by linarith
  have "\<not> occurs haystack n needle u" if u: "u < w + d" for u
  proof
    assume occ: "occurs haystack n needle u"
    have at_u: "?h (u + k) = ?x k" if "0 \<le> k" "k < ?m" for k using occ that by (auto simp: occurs_def)
    consider "u < w" | "u = w" | "w < u" by linarith
    then show False
    proof cases
      case 1
      then show ?thesis using before occ by blast
    next
      case 2
      then show ?thesis using at_u [of j] j mismatch by (simp add: w_def)
    next
      case 3
      define s where "s = u - w"
      have s: "1 \<le> s" "u = w + s" using 3 by (auto simp: s_def)
      have backw: "?x (k - s) = ?h (w + k)" if "s \<le> k" "k < ?m" for k
        using at_u [of "k - s"] that s by (simp add: algebra_simps)
      have "consistent ?x ?m j s"
        unfolding consistent_def using s backw matched j mismatch by (auto simp: w_def)
      then have "at good j - (?m - 1 - j) \<le> s" using good j by (auto simp: good_table_def)
      moreover have "at bad (uint (?h p)) - (?m - 1 - j) \<le> s"
      proof (cases "s \<le> j")
        case True
        then have "?x (j - s) = ?h p" using backw [of j] j by (simp add: w_def)
        moreover have "0 \<le> j - s" "j - s < ?m" using True s j by auto
        then have "at bad (uint (?x (j - s))) \<le> ?m - 1 - (j - s)"
          using bad by (simp add: bad_table_def)
        ultimately show ?thesis by simp
      next
        case False
        have "at bad (uint (?h p)) \<le> ?m" using bad by (simp add: bad_table_def)
        then show ?thesis using False by linarith
      qed
      ultimately show ?thesis using u s by (simp add: d_def)
    qed
  qed
  moreover have "p + max (at bad (uint (?h p))) (at good j) - (?m - 1) = w + d" by (simp add: d_def w_def)
  ultimately show "search_inv haystack n needle (p + max (at bad (uint (?h p))) (at good j)) (?m - 1)"
    using j g by (auto simp: search_inv_def Let_def d_def w_def)
qed

lemma search_match:
  assumes inv: "search_inv haystack n needle p j" and run: "p < n" "0 \<le> j"
    and eq: "at haystack p = at needle j"
  shows "search_inv haystack n needle (p - 1) (j - 1)"
proof -
  have "at haystack (p - j + k) = at needle k" if "j - 1 < k" "k < int (length needle)" for k
    using inv that eq by (cases "k = j") (auto simp: search_inv_def Let_def)
  then show ?thesis using inv run by (auto simp: search_inv_def Let_def)
qed

lemma search_end:
  assumes inv: "search_inv haystack n needle p j" and stop: "\<not> (p < n \<and> 0 \<le> j)" and "needle \<noteq> []"
  shows "if j < 0 then j = - 1 \<and> occurs haystack n needle (p + 1) \<and> (\<forall>w. w < p + 1 \<longrightarrow> \<not> occurs haystack n needle w)
         else \<forall>w. \<not> occurs haystack n needle w"
proof -
  have m: "1 \<le> int (length needle)" using \<open>needle \<noteq> []\<close> by (cases needle) auto
  have j: "- 1 \<le> j" "j \<le> int (length needle) - 1" "0 \<le> p - j" using inv by (auto simp: search_inv_def Let_def)
  show ?thesis
  proof (cases "j < 0")
    case True
    then have "j = - 1" using j by simp
    then show ?thesis using inv m by (auto simp: search_inv_def Let_def occurs_def)
  next
    case False
    then have "n \<le> p" using stop by simp
    then have "j = int (length needle) - 1" using inv j False by (auto simp: search_inv_def Let_def)
    then have "\<not> occurs haystack n needle w" for w
      using inv \<open>n \<le> p\<close> by (cases "w < p - j") (auto simp: search_inv_def Let_def occurs_def)
    then show ?thesis using False by simp
  qed
qed

text \<open>
  The forward search ends with the answer, and the backward search on the reversed haystack and needle
  with the reversed table runs in step with it.
\<close>

lemma search_forward_ok:
  assumes good: "good_table needle good" and bad: "bad_table needle bad" and needle: "needle \<noteq> []"
    and inv: "search_inv haystack n needle p j" and n: "n \<le> int (length haystack)"
  shows "\<exists>p' j'. search_forward haystack n needle (int (length needle)) bad good p j = Some (p', j') \<and>
    (if j' < 0 then j' = - 1 \<and> occurs haystack n needle (p' + 1) \<and> (\<forall>w. w < p' + 1 \<longrightarrow> \<not> occurs haystack n needle w)
     else \<forall>w. \<not> occurs haystack n needle w) \<and>
    (\<forall>H. n \<le> int (length H) \<and> (\<forall>i. 0 \<le> i \<and> i < n \<longrightarrow> at H (n - 1 - i) = at haystack i) \<longrightarrow>
      search_backward H (rev needle) (int (length needle)) bad (rev good) (n - 1 - p) (int (length needle) - 1 - j) =
        Some (n - 1 - p', int (length needle) - 1 - j'))"
  using inv
proof (induction "nat (n - (p - j)) * (length needle + 1) + nat (j + 1)" arbitrary: p j rule: less_induct)
  case less
  let ?m = "int (length needle)"
  have inv: "- 1 \<le> j" "j \<le> ?m - 1" "0 \<le> p - j" using less.prems by (auto simp: search_inv_def Let_def)
  show ?case
  proof (cases "p < n \<and> 0 \<le> j")
    case False
    then show ?thesis
      using search_end [OF less.prems False needle] inv
      by (intro exI [of _ p] exI [of _ j])
        (auto simp: search_forward.simps [of _ _ _ _ _ _ p] search_backward.simps [of _ _ _ _ _ "n - 1 - p"])
  next
    case True
    have p: "0 \<le> p" using inv True by linarith
    have r: "rdi haystack p = Some (at haystack p)" "rdi needle j = Some (at needle j)"
      using True p inv n by (auto simp: rdi_at)
    have rb: "rdi H (n - 1 - p) = Some (at haystack p)"
      if "n \<le> int (length H) \<and> (\<forall>i. 0 \<le> i \<and> i < n \<longrightarrow> at H (n - 1 - i) = at haystack i)" for H
      using that p True by (subst rdi_at) auto
    have rev_at: "at (rev xs) (?m - 1 - j) = at xs j" if "length xs = length needle" for xs :: "'c list"
    proof -
      obtain a where j: "j = int a" using True nonneg_int_cases by blast
      then have a: "j = int a" "a < length xs" using inv that by simp_all
      then have "nat (?m - 1 - j) = length xs - Suc a" using that by linarith
      then show ?thesis using a by (simp add: at_def rev_nth)
    qed
    have rn: "rdi (rev needle) (?m - 1 - j) = Some (at needle j)"
      using inv True by (subst rdi_at) (auto simp: rev_at)
    show ?thesis
    proof (cases "at haystack p = at needle j")
      case eq: True
      have "nat (j - 1 + 1) < nat (j + 1)" using True by simp
      then have "nat (n - (p - 1 - (j - 1))) * (length needle + 1) + nat (j - 1 + 1) <
          nat (n - (p - j)) * (length needle + 1) + nat (j + 1)" by simp
      from less.hyps [OF this search_match [OF less.prems _ _ eq]] True
      obtain p' j' where IH: "search_forward haystack n needle ?m bad good (p - 1) (j - 1) = Some (p', j')"
        "if j' < 0 then j' = - 1 \<and> occurs haystack n needle (p' + 1) \<and> (\<forall>w. w < p' + 1 \<longrightarrow> \<not> occurs haystack n needle w)
         else \<forall>w. \<not> occurs haystack n needle w"
        "\<And>H. n \<le> int (length H) \<and> (\<forall>i. 0 \<le> i \<and> i < n \<longrightarrow> at H (n - 1 - i) = at haystack i) \<Longrightarrow>
          search_backward H (rev needle) ?m bad (rev good) (n - 1 - (p - 1)) (?m - 1 - (j - 1)) = Some (n - 1 - p', ?m - 1 - j')"
        by blast
      have "search_backward H (rev needle) ?m bad (rev good) (n - 1 - p) (?m - 1 - j) = Some (n - 1 - p', ?m - 1 - j')"
        if "n \<le> int (length H) \<and> (\<forall>i. 0 \<le> i \<and> i < n \<longrightarrow> at H (n - 1 - i) = at haystack i)" for H
        using IH(3) [OF that] rb [OF that] rn eq True inv
        by (subst search_backward.simps) (simp add: algebra_simps)
      moreover have "search_forward haystack n needle ?m bad good p j = Some (p', j')"
        using IH(1) r eq True by (subst search_forward.simps) simp
      ultimately show ?thesis using IH(2) by blast
    next
      case neq: False
      define q where "q = p + max (at bad (uint (at haystack p))) (at good j)"
      have skip: "search_inv haystack n needle q (?m - 1)" "p - j + 1 \<le> q - (?m - 1)"
        using search_skip [OF less.prems _ _ neq good bad] True by (simp_all add: q_def)
      have tables: "rdi bad (uint (at haystack p)) = Some (at bad (uint (at haystack p)))"
        "rdi good j = Some (at good j)" "rdi (rev good) (?m - 1 - j) = Some (at good j)"
        using good bad inv True uint_byte [of "at haystack p"]
        by (auto simp: rdi_at good_table_def bad_table_def rev_at)
      have "nat (n - (q - (?m - 1))) < nat (n - (p - j))" using skip(2) True inv by linarith
      then have "Suc (nat (n - (q - (?m - 1)))) * (length needle + 1) \<le> nat (n - (p - j)) * (length needle + 1)"
        by (rule mult_le_mono1 [OF Suc_leI])
      then have "nat (n - (q - (?m - 1))) * (length needle + 1) + nat (?m - 1 + 1) <
          nat (n - (p - j)) * (length needle + 1) + nat (j + 1)" using True by simp
      from less.hyps [OF this skip(1)]
      obtain p' j' where IH: "search_forward haystack n needle ?m bad good q (?m - 1) = Some (p', j')"
        "if j' < 0 then j' = - 1 \<and> occurs haystack n needle (p' + 1) \<and> (\<forall>w. w < p' + 1 \<longrightarrow> \<not> occurs haystack n needle w)
         else \<forall>w. \<not> occurs haystack n needle w"
        "\<And>H. n \<le> int (length H) \<and> (\<forall>i. 0 \<le> i \<and> i < n \<longrightarrow> at H (n - 1 - i) = at haystack i) \<Longrightarrow>
          search_backward H (rev needle) ?m bad (rev good) (n - 1 - q) (?m - 1 - (?m - 1)) = Some (n - 1 - p', ?m - 1 - j')"
        by blast
      have "search_backward H (rev needle) ?m bad (rev good) (n - 1 - p) (?m - 1 - j) = Some (n - 1 - p', ?m - 1 - j')"
        if "n \<le> int (length H) \<and> (\<forall>i. 0 \<le> i \<and> i < n \<longrightarrow> at H (n - 1 - i) = at haystack i)" for H
        using IH(3) [OF that] rb [OF that] rn neq True inv tables
        by (subst search_backward.simps) (simp add: q_def algebra_simps)
      moreover have "search_forward haystack n needle ?m bad good p j = Some (p', j')"
        using IH(1) r neq True tables by (subst search_forward.simps) (simp add: q_def)
      ultimately show ?thesis using IH(2) by blast
    qed
  qed
qed

subsection \<open>The search function\<close>

lemma initial_inv:
  assumes "needle \<noteq> []"
  shows "search_inv haystack n needle (int (length needle) - 1) (int (length needle) - 1)"
  using assms by (cases needle) (auto simp: search_inv_def Let_def occurs_def)

lemma boyer_moore_forward:
  assumes needle: "needle \<noteq> []" and n: "n \<le> int (length haystack)"
    and tables: "length shift0 = length needle" "length suff0 = length needle"
    and short: "int (length needle) \<le> 2 ^ 30"
  shows "\<exists>r. CFDataSearchBoyerMoore shift0 suff0 haystack n needle (int (length needle)) False = Some r \<and>
    (case r of None \<Rightarrow> \<forall>w. \<not> occurs haystack n needle w
     | Some w \<Rightarrow> occurs haystack n needle w \<and> (\<forall>u < w. \<not> occurs haystack n needle u))"
proof -
  let ?m = "int (length needle)"
  obtain bad where bad: "for_each [0..<length needle]
     (\<lambda>i bad. do { c \<leftarrow> rdi needle (int i); wri bad (uint c) (?m - int i - 1) }) (replicate 256 ?m) = Some bad"
    "bad_table needle bad" using bad_forward_ok by blast
  obtain good suff where good: "computeGoodSubstringShift needle ?m shift0 suff0 = Some (good, suff)" "good_table needle good"
    using computeGoodSubstringShift_ok [OF needle tables short] by blast
  obtain p' j' where run: "search_forward haystack n needle ?m bad good (?m - 1) (?m - 1) = Some (p', j')"
    "if j' < 0 then j' = - 1 \<and> occurs haystack n needle (p' + 1) \<and> (\<forall>w. w < p' + 1 \<longrightarrow> \<not> occurs haystack n needle w)
     else \<forall>w. \<not> occurs haystack n needle w"
    using search_forward_ok [OF good(2) bad(2) needle initial_inv [OF needle] n] by blast
  have "CFDataSearchBoyerMoore shift0 suff0 haystack n needle ?m False = Some (if j' < 0 then Some (p' + 1) else None)"
    unfolding CFDataSearchBoyerMoore_def if_False bad_initial for_int_each [OF int_length(1) [OF short]] nat_int
      int_length(4) [OF short] Option.bind.bind_lunit bad(1) good(1) prod.case run(1)
    by (rule refl)
  then show ?thesis using run(2) by (auto split: if_splits)
qed

lemma rev_occurs:
  assumes H: "n \<le> int (length H)" and w: "0 \<le> n"
  shows "occurs (rev (take (nat n) H)) n (rev needle) w \<longleftrightarrow> occurs H n needle (n - int (length needle) - w)"
proof -
  let ?m = "int (length needle)" and ?h = "rev (take (nat n) H)"
  have rev_at: "at (rev xs) i = at xs (int (length xs) - 1 - i)" if i: "0 \<le> i" "i < int (length xs)" for i and xs :: "'c list"
  proof -
    obtain a where a: "i = int a" using i(1) by (rule nonneg_int_cases)
    then have "nat (int (length xs) - 1 - i) = length xs - Suc a" "a < length xs" using i by linarith+
    then show ?thesis using a by (simp add: at_def rev_nth)
  qed
  have len: "int (length (take (nat n) H)) = n" using H w by simp
  have h: "at ?h i = at H (n - 1 - i)" if "0 \<le> i" "i < n" for i
  proof -
    have "at ?h i = at (take (nat n) H) (n - 1 - i)" using rev_at [of i "take (nat n) H"] that unfolding len by simp
    also have "\<dots> = at H (n - 1 - i)" using that by (simp add: at_def nat_less_iff)
    finally show ?thesis .
  qed
  show ?thesis
  proof
    assume o: "occurs ?h n (rev needle) w"
    have "at H (n - ?m - w + k) = at needle k" if k: "0 \<le> k" "k < ?m" for k
    proof -
      have "at ?h (w + (?m - 1 - k)) = at (rev needle) (?m - 1 - k)" using o k by (auto simp: occurs_def)
      then show ?thesis using h [of "w + (?m - 1 - k)"] rev_at [of "?m - 1 - k" needle] o k
        by (simp add: occurs_def algebra_simps)
    qed
    then show "occurs H n needle (n - ?m - w)" using o by (auto simp: occurs_def)
  next
    assume o: "occurs H n needle (n - ?m - w)"
    have "at ?h (w + k) = at (rev needle) k" if k: "0 \<le> k" "k < ?m" for k
    proof -
      have "at H (n - ?m - w + (?m - 1 - k)) = at needle (?m - 1 - k)"
        using o [unfolded occurs_def, THEN conjunct2, THEN conjunct2, rule_format, of "?m - 1 - k"] k by simp
      moreover have "n - ?m - w + (?m - 1 - k) = n - 1 - (w + k)" by simp
      ultimately have "at H (n - 1 - (w + k)) = at needle (?m - 1 - k)" by metis
      then show ?thesis using h [of "w + k"] rev_at [of k needle] o k
        by (simp add: occurs_def)
    qed
    then show "occurs ?h n (rev needle) w" using o by (auto simp: occurs_def)
  qed
qed

lemma boyer_moore_backward:
  assumes needle: "needle \<noteq> []" and n: "int (length needle) \<le> n" "n \<le> int (length haystack)"
    and tables: "length shift0 = length needle" "length suff0 = length needle"
    and short: "int (length needle) \<le> 2 ^ 30"
  shows "\<exists>r. CFDataSearchBoyerMoore shift0 suff0 haystack n needle (int (length needle)) True = Some r \<and>
    (case r of None \<Rightarrow> \<forall>w. \<not> occurs haystack n needle w
     | Some w \<Rightarrow> occurs haystack n needle w \<and> (\<forall>u > w. \<not> occurs haystack n needle u))"
proof -
  let ?m = "int (length needle)" and ?h = "rev (take (nat n) haystack)"
  have n0: "0 \<le> n" using n by linarith
  obtain bad where bad: "for_each (rev [0..<length needle])
     (\<lambda>i bad. do { c \<leftarrow> rdi needle (int i); wri bad (uint c) (int i) }) (replicate 256 ?m) = Some bad"
    "bad_table (rev needle) bad" using bad_backward_ok by blast
  obtain good suff where good: "computeGoodSubstringShift (rev needle) ?m shift0 suff0 = Some (good, suff)"
    "good_table (rev needle) good"
    using computeGoodSubstringShift_ok [of "rev needle" shift0 suff0] needle tables short by auto
  have reversed: "REVERSE_BUFFER needle ?m = Some (rev needle)" "REVERSE_BUFFER good ?m = Some (rev good)"
    using REVERSE_BUFFER_ok [of needle] REVERSE_BUFFER_ok [of good] good(2) short by (simp_all add: good_table_def)
  have len: "n \<le> int (length ?h)" using n n0 by simp
  have H: "n \<le> int (length haystack) \<and> (\<forall>i. 0 \<le> i \<and> i < n \<longrightarrow> at haystack (n - 1 - i) = at ?h i)"
  proof (intro conjI allI impI)
    fix i assume i: "0 \<le> i \<and> i < n"
    then obtain a where a: "i = int a" using nonneg_int_cases by blast
    then have "a < nat n" "nat (n - 1 - i) = nat n - Suc a" "length (take (nat n) haystack) = nat n" using i n by auto
    then show "at haystack (n - 1 - i) = at ?h i" using a by (simp add: at_def rev_nth)
  qed (use n in simp)
  obtain p' j' where run:
    "search_backward haystack needle ?m bad (rev good) (n - 1 - (?m - 1)) (?m - 1 - (?m - 1)) = Some (n - 1 - p', ?m - 1 - j')"
    "if j' < 0 then j' = - 1 \<and> occurs ?h n (rev needle) (p' + 1) \<and> (\<forall>w. w < p' + 1 \<longrightarrow> \<not> occurs ?h n (rev needle) w)
     else \<forall>w. \<not> occurs ?h n (rev needle) w"
    using search_forward_ok [OF good(2) bad(2) _ initial_inv len] needle H by fastforce
  have "CFDataSearchBoyerMoore shift0 suff0 haystack n needle ?m True =
      Some (if ?m - 1 - j' = ?m then Some (n - 1 - p' - ?m) else None)"
  proof -
    have start: "n - 1 - (?m - 1) = n - ?m" "?m - 1 - (?m - 1) = 0" by simp_all
    have one: "1 \<le> ?m" using needle by (cases needle) auto
    have copy: "mem_read needle 0 (length needle) = Some needle" by (simp add: mem_read_Some)
    show ?thesis
      unfolding CFDataSearchBoyerMoore_def if_True bad_initial int_length(5) [OF short one] nat_int
        int_length(4) [OF short] Option.bind.bind_lunit bad(1) copy reversed
        good(1) prod.case run(1) [unfolded start] by (rule refl)
  qed
  moreover have "occurs haystack n needle w \<longleftrightarrow> occurs ?h n (rev needle) (n - ?m - w)" for w
    using rev_occurs [OF n(2) n0, of needle "n - ?m - w"] by simp
  ultimately show ?thesis using run(2) by (auto simp: add.commute split: if_splits)
qed

lemma occurs_iff:
  assumes "0 \<le> w"
  shows "occurs h (int (length h)) y w \<longleftrightarrow> nat w + length y \<le> length h \<and> take (length y) (drop (nat w) h) = y"
proof (cases "nat w + length y \<le> length h")
  case True
  obtain a where a: "w = int a" using assms by (rule nonneg_int_cases)
  have "take (length y) (drop a h) = y \<longleftrightarrow> (\<forall>k < length y. h ! (a + k) = y ! k)"
    using True a by (simp add: list_eq_iff_nth_eq)
  also have "\<dots> \<longleftrightarrow> (\<forall>k. 0 \<le> k \<and> k < int (length y) \<longrightarrow> at h (w + k) = at y k)"
  proof
    assume all: "\<forall>k < length y. h ! (a + k) = y ! k"
    show "\<forall>k. 0 \<le> k \<and> k < int (length y) \<longrightarrow> at h (w + k) = at y k"
    proof (intro allI impI)
      fix k assume k: "0 \<le> k \<and> k < int (length y)"
      then obtain b where "k = int b" using nonneg_int_cases by blast
      then show "at h (w + k) = at y k" using all k a by (simp add: at_def nat_add_distrib)
    qed
  next
    assume all: "\<forall>k. 0 \<le> k \<and> k < int (length y) \<longrightarrow> at h (w + k) = at y k"
    show "\<forall>k < length y. h ! (a + k) = y ! k"
      using all [rule_format, of "int _"] a by (simp add: at_def nat_add_distrib)
  qed
  finally show ?thesis using True a by (auto simp: occurs_def)
next
  case False
  then show ?thesis using assms by (auto simp: occurs_def)
qed

text \<open>
  The specification: the positions in the range at which the bytes \<open>y\<close> occur in \<open>x\<close>; with the anchored
  option only the first, or, backwards, the last position of the range counts.
\<close>

definition hits :: "byte list \<Rightarrow> byte list \<Rightarrow> int \<Rightarrow> int \<Rightarrow> bool \<Rightarrow> bool \<Rightarrow> int set" where
  "hits x y loc len anchored backwards =
     {w. loc \<le> w \<and> w + int (length y) \<le> loc + len \<and> take (length y) (drop (nat w) x) = y \<and>
         (anchored \<longrightarrow> w = (if backwards then loc + len - int (length y) else loc))}"

definition find_spec :: "byte list \<Rightarrow> byte list \<Rightarrow> int \<Rightarrow> int \<Rightarrow> bool \<Rightarrow> bool \<Rightarrow> int \<times> int" where
  "find_spec x y loc len anchored backwards =
     (let H = hits x y loc len anchored backwards in
      if y = [] \<or> H = {} then (kCFNotFound, 0)
      else (if backwards then Max H else Min H, int (length y)))"

lemma finite_hits: "finite (hits x y loc len anchored backwards)"
  by (rule finite_subset [of _ "{loc..loc + len}"]) (auto simp: hits_def)

text \<open>The search in the block of the range, against the specification without the anchor.\<close>

lemma search_block:
  assumes y: "y \<noteq> []" and range: "0 \<le> loc" "int (length y) \<le> len" "loc + len \<le> int (length x)"
    and tables: "length shift0 = length y" "length suff0 = length y"
    and short: "int (length y) \<le> 2 ^ 30" and h: "h = take (nat len) (drop (nat loc) x)"
  shows "\<exists>r. CFDataSearchBoyerMoore shift0 suff0 h len y (int (length y)) backwards = Some r \<and>
    (case r of None \<Rightarrow> hits x y loc len False b = {}
     | Some w \<Rightarrow> 0 \<le> w \<and> hits x y loc len False b \<noteq> {} \<and>
         loc + w = (if backwards then Max (hits x y loc len False b) else Min (hits x y loc len False b)))"
proof -
  have len: "int (length h) = len" using range h by simp
  let ?H = "hits x y loc len False b"
  have H: "w \<in> ?H \<longleftrightarrow> occurs h len y (w - loc)" for w
  proof (cases "loc \<le> w")
    case True
    have w: "nat (w - loc) = nat w - nat loc" "nat loc \<le> nat w" "0 \<le> w - loc" using True range by auto
    have iff: "occurs h len y (w - loc) \<longleftrightarrow>
        nat (w - loc) + length y \<le> length h \<and> take (length y) (drop (nat (w - loc)) h) = y"
      using occurs_iff [OF w(3), of h y] len by simp
    have fits: "nat (w - loc) + length y \<le> length h \<longleftrightarrow> w + int (length y) \<le> loc + len"
      using len True by linarith
    have "take (length y) (drop (nat (w - loc)) h) = take (length y) (drop (nat w) x)"
      if "nat (w - loc) + length y \<le> length h"
    proof -
      have "length h = nat len" using len by (metis nat_int)
      then have m: "length y \<le> nat len - nat (w - loc)" using that by linarith
      have "nat (w - loc) + nat loc = nat w" using w by linarith
      then show ?thesis unfolding h by (simp add: drop_take min_absorb1 [OF m])
    qed
    then show ?thesis using True iff fits by (auto simp: hits_def)
  next
    case False
    then show ?thesis by (auto simp: hits_def occurs_def)
  qed
  have fin: "finite ?H" by (rule finite_hits)
  show ?thesis
  proof (cases backwards)
    case False
    obtain r where r: "CFDataSearchBoyerMoore shift0 suff0 h len y (int (length y)) False = Some r"
      "case r of None \<Rightarrow> \<forall>w. \<not> occurs h len y w
       | Some w \<Rightarrow> occurs h len y w \<and> (\<forall>u < w. \<not> occurs h len y u)"
      using boyer_moore_forward [OF y _ tables short, of len h] len by auto
    show ?thesis
    proof (cases r)
      case None
      then show ?thesis using r False H by auto
    next
      case (Some w)
      then have "loc + w \<in> ?H" "\<And>u. u \<in> ?H \<Longrightarrow> loc + w \<le> u" using r(2) H by force+
      then have "Min ?H = loc + w" by (intro Min_eqI fin) auto
      then show ?thesis using r False Some \<open>loc + w \<in> ?H\<close> by (auto simp: occurs_def)
    qed
  next
    case True
    obtain r where r: "CFDataSearchBoyerMoore shift0 suff0 h len y (int (length y)) True = Some r"
      "case r of None \<Rightarrow> \<forall>w. \<not> occurs h len y w
       | Some w \<Rightarrow> occurs h len y w \<and> (\<forall>u > w. \<not> occurs h len y u)"
      using boyer_moore_backward [OF y _ _ tables short, of len h] len range by auto
    show ?thesis
    proof (cases r)
      case None
      then show ?thesis using r True H by auto
    next
      case (Some w)
      then have "loc + w \<in> ?H" "\<And>u. u \<in> ?H \<Longrightarrow> u \<le> loc + w" using r(2) H by force+
      then have "Max ?H = loc + w" by (intro Max_eqI fin) auto
      then show ?thesis using r True Some \<open>loc + w \<in> ?H\<close> by (auto simp: occurs_def)
    qed
  qed
qed

text \<open>The range that an anchored search is restricted to.\<close>

definition clip_loc :: "bool \<Rightarrow> bool \<Rightarrow> int \<Rightarrow> int \<Rightarrow> int \<Rightarrow> int" where
  "clip_loc anchored backwards m loc len = (if anchored \<and> len > m \<and> backwards then loc + (len - m) else loc)"

definition clip_len :: "bool \<Rightarrow> int \<Rightarrow> int \<Rightarrow> int" where
  "clip_len anchored m len = (if anchored \<and> len > m then m else len)"

lemma clip_range:
  "0 \<le> m \<Longrightarrow> 0 \<le> loc \<Longrightarrow> 0 \<le> len \<Longrightarrow> loc + len \<le> n \<Longrightarrow>
    0 \<le> clip_loc a b m loc len \<and> 0 \<le> clip_len a m len \<and> clip_loc a b m loc len + clip_len a m len \<le> n"
  by (auto simp: clip_loc_def clip_len_def)

lemma clip_hits:
  assumes "int (length y) = m" "m \<le> len"
  shows "hits x y loc len anchored backwards =
    hits x y (clip_loc anchored backwards m loc len) (clip_len anchored m len) False backwards"
  using assms by (auto simp: hits_def clip_loc_def clip_len_def)

lemma clip_none: "int (length y) = m \<Longrightarrow> clip_len anchored m len < m \<Longrightarrow> hits x y loc len anchored backwards = {}"
  by (auto simp: hits_def clip_len_def split: if_splits)

lemma find_clipped:
  assumes range: "0 \<le> loc" "0 \<le> len" "loc + len \<le> dt_length data" "dt_length data < 2 ^ 63"
    and m: "m = dt_length dataToFind" "0 \<le> m"
    and a: "anchored \<longleftrightarrow> compareOptions AND kCFDataSearchAnchored \<noteq> 0"
    and b: "backwards \<longleftrightarrow> compareOptions AND kCFDataSearchBackwards \<noteq> 0"
    and loc2: "loc2 = clip_loc anchored backwards m loc len" and len2: "len2 = clip_len anchored m len"
  shows "CFDataFind shift0 suff0 data dataToFind loc len compareOptions =
     (if len2 < m \<or> dt_length data = 0 \<or> m = 0 then Some (kCFNotFound, 0)
      else do {
        haystack \<leftarrow> (if loc2 < 0 then None else mem_read (bytes_of (dt_bytes data)) (nat loc2) (nat len2));
        needle \<leftarrow> mem_read (bytes_of (dt_bytes dataToFind)) 0 (nat m);
        searchResult \<leftarrow> CFDataSearchBoyerMoore shift0 suff0 haystack len2 needle m backwards;
        let resultLocation = (case searchResult of None \<Rightarrow> kCFNotFound | Some r \<Rightarrow> loc2 + r);
        Some (resultLocation, if resultLocation = kCFNotFound then 0 else m) })"
proof -
  have range2: "0 \<le> loc2" "0 \<le> len2" "loc2 + len2 \<le> dt_length data"
    using clip_range [OF m(2) range(1-3), of anchored backwards] by (simp_all add: loc2 len2)
  have clamp: "(if len2 > (dt_length data - loc2) mod 2 ^ 64 then (dt_length data - loc2) mod 2 ^ 64 else len2) = len2"
  proof -
    have "(dt_length data - loc2) mod 2 ^ 64 = dt_length data - loc2"
      using range2 range(4) by (intro mod_pos_pos_trivial) auto
    then show ?thesis using range2 by auto
  qed
  define short where "short \<longleftrightarrow> anchored \<and> len > m"
  have loc2': "(if short \<and> backwards then loc + (len - m) else loc) = loc2" and len2': "(if short then m else len) = len2"
    by (auto simp: loc2 len2 clip_loc_def clip_len_def short_def)
  show ?thesis
    unfolding CFDataFind_def CFDataFindBytes_def Let_def CFDataGetLength_def CFDataGetBytePtr_def
      a [symmetric] b [symmetric] m(1) [symmetric] short_def [symmetric] loc2' len2' clamp
    by (rule refl)
qed

lemma data_block:
  assumes "data_wf d" "0 \<le> loc" "0 \<le> len" "loc + len \<le> dt_length d"
  shows "mem_read (bytes_of (dt_bytes d)) (nat loc) (nat len) = Some (take (nat len) (drop (nat loc) (data_bytes d)))"
proof -
  have b: "length (bytes_of (dt_bytes d)) = nat (dt_capacity d)" "dt_length d \<le> dt_capacity d"
    using assms(1) by (simp_all add: data_wf_def)
  have fits: "nat loc + nat len \<le> length (bytes_of (dt_bytes d))" "nat len \<le> nat (dt_length d) - nat loc"
    using assms(2-4) b by linarith+
  then show ?thesis by (simp add: mem_read_Some data_bytes_def drop_take min_absorb1 [OF fits(2)])
qed

text \<open>C1: \<open>CFDataFind\<close>.  For a range inside the data and at most 2^30 bytes to search for (with more,
  the \<open>int\<close> sums of \<open>_computeGoodSubstringShift\<close> overflow), the Boyer-Moore search with its bad character and good
  suffix tables returns the first, or backwards the last, position in the range at which the bytes occur
  (anchored: only the position at the start, or at the end, of the range), and not found otherwise or
  for empty bytes.  It ends, reads and writes nothing outside the range, the bytes searched for and its tables,
  and none of its \<open>int\<close> computations overflows.\<close>

theorem data_find:
  assumes wf: "data_wf data" "data_wf dataToFind"
    and range: "0 \<le> loc" "0 \<le> len" "loc + len \<le> dt_length data" "dt_length data < 2 ^ 63"
    and short: "dt_length dataToFind \<le> 2 ^ 30"
    and tables: "length shift0 = nat (dt_length dataToFind)" "length suff0 = nat (dt_length dataToFind)"
  shows "CFDataFind shift0 suff0 data dataToFind loc len compareOptions =
    Some (find_spec (data_bytes data) (data_bytes dataToFind) loc len
      (compareOptions AND kCFDataSearchAnchored \<noteq> 0) (compareOptions AND kCFDataSearchBackwards \<noteq> 0))"
proof -
  define anchored where "anchored \<longleftrightarrow> compareOptions AND kCFDataSearchAnchored \<noteq> 0"
  define backwards where "backwards \<longleftrightarrow> compareOptions AND kCFDataSearchBackwards \<noteq> 0"
  define x where "x = data_bytes data"
  define y where "y = data_bytes dataToFind"
  define m where "m = int (length y)"
  define loc2 where "loc2 = clip_loc anchored backwards m loc len"
  define len2 where "len2 = clip_len anchored m len"
  have lens: "int (length x) = dt_length data" "m = dt_length dataToFind" "0 \<le> m"
    using wf by (simp_all add: x_def y_def m_def data_wf_def)
  note find = find_clipped [OF range lens(2,3) anchored_def backwards_def loc2_def len2_def, of shift0 suff0]
  have range2: "0 \<le> loc2" "0 \<le> len2" "loc2 + len2 \<le> dt_length data"
    using clip_range [OF lens(3) range(1-3), of anchored backwards] by (simp_all add: loc2_def len2_def)
  have "CFDataFind shift0 suff0 data dataToFind loc len compareOptions = Some (find_spec x y loc len anchored backwards)"
  proof (cases "len2 < m \<or> dt_length data = 0 \<or> m = 0")
    case True
    have "len2 < m" if "y \<noteq> []"
    proof -
      have "0 < m" using that by (simp add: m_def)
      then show ?thesis using True range2 by linarith
    qed
    then have "y = [] \<or> hits x y loc len anchored backwards = {}"
      using clip_none [OF m_def [symmetric], of anchored len x loc backwards] by (auto simp: len2_def)
    then show ?thesis using True by (simp add: find find_spec_def Let_def)
  next
    case False
    then have y: "y \<noteq> []" "m \<le> len2" "m \<le> len" by (auto simp: m_def len2_def clip_len_def split: if_splits)
    have blocks: "mem_read (bytes_of (dt_bytes data)) (nat loc2) (nat len2) = Some (take (nat len2) (drop (nat loc2) x))"
      "mem_read (bytes_of (dt_bytes dataToFind)) 0 (nat m) = Some y"
    proof -
      have "nat m = length y" by (simp add: m_def)
      then show "mem_read (bytes_of (dt_bytes dataToFind)) 0 (nat m) = Some y"
        using data_block [OF wf(2), of 0 m] lens(2,3) by (simp add: y_def [symmetric])
    qed (use data_block [OF wf(1) range2] in \<open>simp add: x_def\<close>)
    have t: "length shift0 = length y" "length suff0 = length y" using tables lens by (metis m_def nat_int)+
    have inside: "loc2 + len2 \<le> int (length x)" using range2 lens by simp
    have y30: "int (length y) \<le> 2 ^ 30" using short lens(2) by (simp add: m_def)
    obtain r where r: "CFDataSearchBoyerMoore shift0 suff0 (take (nat len2) (drop (nat loc2) x)) len2 y m backwards = Some r"
      "case r of None \<Rightarrow> hits x y loc2 len2 False backwards = {}
       | Some w \<Rightarrow> 0 \<le> w \<and> hits x y loc2 len2 False backwards \<noteq> {} \<and>
         loc2 + w = (if backwards then Max (hits x y loc2 len2 False backwards) else Min (hits x y loc2 len2 False backwards))"
      using search_block [OF y(1) range2(1) y(2) [unfolded m_def] inside t y30 refl, of backwards backwards]
      unfolding m_def by blast
    have nonneg: "\<not> loc2 < 0" using range2 by simp
    have "CFDataFind shift0 suff0 data dataToFind loc len compareOptions =
       Some (let resultLocation = (case r of None \<Rightarrow> kCFNotFound | Some r \<Rightarrow> loc2 + r)
             in (resultLocation, if resultLocation = kCFNotFound then 0 else m))"
      unfolding find if_not_P [OF False] if_not_P [OF nonneg] blocks Option.bind.bind_lunit r(1) Let_def by (rule refl)
    then show ?thesis
      using range2(1) r(2) y(1) clip_hits [OF m_def [symmetric] y(3), of x loc anchored backwards]
      unfolding find_spec_def Let_def loc2_def [symmetric] len2_def [symmetric]
      by (auto simp: m_def kCFNotFound_def split: option.splits)
  qed
  then show ?thesis by (simp add: x_def y_def anchored_def backwards_def)
qed

definition find_text :: CFData where
  "find_text = \<lparr>dt_cfinfo = 0, dt_length = 8, dt_capacity = 8, dt_deallocator = False,
     dt_bytes = Some [1, 2, 1, 2, 3, 1, 2, 3]\<rparr>"

definition find_pattern :: CFData where
  "find_pattern = \<lparr>dt_cfinfo = 0, dt_length = 3, dt_capacity = 4, dt_deallocator = False, dt_bytes = Some [1, 2, 3, 9]\<rparr>"

theorem data_find_witness:
  "CFDataFind [0, 0, 0] [0, 0, 0] find_text find_pattern 0 8 0 = Some (2, 3)"
proof -
  have wf: "data_wf find_text" "data_wf find_pattern" by code_simp+
  have bytes: "data_bytes find_text = [1, 2, 1, 2, 3, 1, 2, 3]" "data_bytes find_pattern = [1, 2, 3]" by code_simp+
  have lens: "dt_length find_text = 8" "dt_length find_pattern = 3" by code_simp+
  have at: "take 3 (drop (nat w) [1, 2, 1, 2, 3, 1, 2, 3 :: byte]) = [1, 2, 3] \<longleftrightarrow> w = 2 \<or> w = 5"
    if "0 \<le> w" "w \<le> 5" for w
  proof -
    have "w \<in> {0, 1, 2, 3, 4, 5}" using that by auto
    then show ?thesis by auto
  qed
  have "hits [1, 2, 1, 2, 3, 1, 2, 3] [1, 2, 3] 0 8 False False = {2, 5}"
    using at [unfolded numeral_3_eq_3] by (auto simp: hits_def)
  then have "find_spec [1, 2, 1, 2, 3, 1, 2, 3] [1, 2, 3] 0 8 False False = (2, 3)"
    by (simp add: find_spec_def)
  then show ?thesis
    using data_find [OF wf, of 0 8 "[0, 0, 0]" "[0, 0, 0]" 0] lens bytes by simp
qed

end
