(* ===== verification/CF_Date.thy ===== *)
theory CF_Date
  imports CF_Prelude Complex_Main "HOL-Library.Signed_Division"
begin

text \<open>
  CFDate.c: the proleptic Gregorian calendar.  Days and years are counted from the first of January 2001,
  day 0 of year 0.  A \<open>CFTimeInterval\<close> is a real number, that is, the rounding of \<open>double\<close> arithmetic is
  not modelled; integers of a fixed width are written with their range where the code can leave it.
  A time zone is NULL, or its function \<open>CFTimeZoneGetSecondsFromGMT\<close>.  C division rounds towards zero
  (\<open>sdiv\<close>, \<open>smod\<close>).  Accesses outside a table and signed overflow are \<open>None\<close>.
\<close>

subsection \<open>Date objects\<close>

type_synonym CFAbsoluteTime = real

record CFDate =
  date_time :: CFAbsoluteTime

definition CFDateCreate :: "CFAbsoluteTime \<Rightarrow> CFDate" where
  "CFDateCreate time = \<lparr>date_time = time\<rparr>"

definition CFDateGetAbsoluteTime :: "CFDate \<Rightarrow> real" where
  "CFDateGetAbsoluteTime date = date_time date"

definition CFDateGetTimeIntervalSinceDate :: "CFDate \<Rightarrow> CFDate \<Rightarrow> real" where
  "CFDateGetTimeIntervalSinceDate date otherDate = date_time date - date_time otherDate"

definition CFDateEqual :: "CFDate \<Rightarrow> CFDate \<Rightarrow> bool" where
  "CFDateEqual date1 date2 = (if date_time date1 \<noteq> date_time date2 then False else True)"

definition CFDateCompare :: "CFDate \<Rightarrow> CFDate \<Rightarrow> CFComparisonResult" where
  "CFDateCompare date otherDate =
     (if date_time date < date_time otherDate then kCFCompareLessThan
      else if date_time date > date_time otherDate then kCFCompareGreaterThan
      else kCFCompareEqualTo)"

subsection \<open>Calendar tables\<close>

definition CFDoubleModToInt :: "real \<Rightarrow> int \<Rightarrow> int" where
  "CFDoubleModToInt d modulus =
     (let r = \<lfloor>d - real_of_int \<lfloor>d / real_of_int modulus\<rfloor> * real_of_int modulus\<rfloor>
      in if r < 0 then r + modulus else r)"

definition CFDoubleMod :: "real \<Rightarrow> int \<Rightarrow> real" where
  "CFDoubleMod d modulus =
     (let r = d - real_of_int \<lfloor>d / real_of_int modulus\<rfloor> * real_of_int modulus
      in if r < 0 then r + real_of_int modulus else r)"

definition daysInMonth :: "int list" where
  "daysInMonth = [0, 31, 28, 31, 30, 31, 30, 31, 31, 30, 31, 30, 31, 0, 0, 0]"

definition daysBeforeMonth :: "int list" where
  "daysBeforeMonth = [0, 0, 31, 59, 90, 120, 151, 181, 212, 243, 273, 304, 334, 365, 0, 0]"

definition daysAfterMonth :: "int list" where
  "daysAfterMonth = [365, 334, 306, 275, 245, 214, 184, 153, 122, 92, 61, 31, 0, 0, 0, 0]"

definition isleap :: "int \<Rightarrow> bool" where
  "isleap year =
     (let y = (year + 1) smod 400;
          y = (if y < 0 then - y else y)
      in 0 = y AND 3 \<and> 100 \<noteq> y \<and> 200 \<noteq> y \<and> 300 \<noteq> y)"

definition CFDaysInMonth :: "int \<Rightarrow> int \<Rightarrow> bool \<Rightarrow> int option" where
  "CFDaysInMonth month year leap = do { d \<leftarrow> rdi daysInMonth month; Some (d + of_bool (2 = month \<and> leap)) }"

definition CFDaysBeforeMonth :: "int \<Rightarrow> int \<Rightarrow> bool \<Rightarrow> int option" where
  "CFDaysBeforeMonth month year leap = do { d \<leftarrow> rdi daysBeforeMonth month; Some (d + of_bool (2 < month \<and> leap)) }"

definition CFDaysAfterMonth :: "int \<Rightarrow> int \<Rightarrow> bool \<Rightarrow> int option" where
  "CFDaysAfterMonth month year leap = do { d \<leftarrow> rdi daysAfterMonth month; Some (d + of_bool (month < 2 \<and> leap)) }"

lemma year_days: "CFDaysAfterMonth 0 y l = Some (365 + of_bool l)"
  by (simp add: CFDaysAfterMonth_def daysAfterMonth_def rdi_def rd_def)

subsection \<open>Days and dates\<close>

function year_down :: "int \<Rightarrow> int \<Rightarrow> (int \<times> int) option" where
  "year_down y absolute =
     (if absolute < 0
      then do { let y = y - 1;
                d \<leftarrow> CFDaysAfterMonth 0 y (isleap y);
                year_down y (absolute + d) }
      else Some (y, absolute))"
  by pat_completeness auto
termination
  by (relation "measure (\<lambda>(_, absolute). nat (- absolute))") (auto simp: year_days)

text \<open>The length of a year is never 0; saying so makes the function total.\<close>

function year_up :: "int \<Rightarrow> int \<Rightarrow> int \<Rightarrow> (int \<times> int) option" where
  "year_up y absolute ydays =
     (if ydays \<le> absolute \<and> 0 < ydays
      then do { let y = y + 1;
                let absolute = absolute - ydays;
                ydays \<leftarrow> CFDaysAfterMonth 0 y (isleap y);
                year_up y absolute ydays }
      else Some (y, absolute))"
  by pat_completeness auto
termination
  by (relation "measure (\<lambda>(_, absolute, _). nat absolute)") auto

text \<open>The table has an entry for the months up to 15.\<close>

function month_up :: "int \<Rightarrow> int \<Rightarrow> bool \<Rightarrow> int \<Rightarrow> int option" where
  "month_up absolute y leap m =
     (if m < 15
      then do { d \<leftarrow> CFDaysBeforeMonth (m + 1) y leap;
                (if d \<le> absolute then month_up absolute y leap (m + 1) else Some m) }
      else None)"
  by pat_completeness auto
termination by (relation "measure (\<lambda>(_, _, _, m). nat (16 - m))") auto

declare year_down.simps [simp del] year_up.simps [simp del] month_up.simps [simp del]

definition CFYMDFromAbsolute :: "int \<Rightarrow> (int \<times> int \<times> int) option" where
  "CFYMDFromAbsolute absolute =
     (let b = absolute sdiv 146097; y = b * 400; absolute = absolute - b * 146097 in
      do { (y, absolute) \<leftarrow> year_down y absolute;
           ydays \<leftarrow> CFDaysAfterMonth 0 y (isleap y);
           (y, absolute) \<leftarrow> year_up y absolute ydays;
           let leap = isleap y;
           m \<leftarrow> month_up absolute y leap (absolute sdiv 33 + 1);
           d \<leftarrow> CFDaysBeforeMonth m y leap;
           Some (y, m, absolute - d + 1) })"

text \<open>The sums of days are exact in a \<open>double\<close>; the day number is an integer.\<close>

function years_before :: "int \<Rightarrow> int \<Rightarrow> int option" where
  "years_before idx absolute =
     (if idx < 0
      then do { d \<leftarrow> CFDaysAfterMonth 0 idx (isleap idx); years_before (idx + 1) (absolute - d) }
      else Some absolute)"
  by pat_completeness auto
termination by (relation "measure (\<lambda>(idx, _). nat (- idx))") auto

function years_after :: "int \<Rightarrow> int \<Rightarrow> int \<Rightarrow> int option" where
  "years_after idx year absolute =
     (if idx < year
      then do { d \<leftarrow> CFDaysAfterMonth 0 idx (isleap idx); years_after (idx + 1) year (absolute + d) }
      else Some absolute)"
  by pat_completeness auto
termination by (relation "measure (\<lambda>(idx, year, _). nat (year - idx))") auto

declare years_before.simps [simp del] years_after.simps [simp del]

definition CFAbsoluteFromYMD :: "int \<Rightarrow> int \<Rightarrow> int \<Rightarrow> int option" where
  "CFAbsoluteFromYMD year month day =
     (let b = year sdiv 400; absolute = b * 146097; year = year - b * 400 in
      do { absolute \<leftarrow> (if year < 0 then years_before year absolute else years_after 0 year absolute);
           d \<leftarrow> CFDaysBeforeMonth month year (isleap year);
           Some (absolute + d + day - 1) })"

subsection \<open>The calendar in closed form\<close>

text \<open>The first day of a year, the first day of a month in its year, and the length of a month.\<close>

definition year_start :: "int \<Rightarrow> int" where
  "year_start y = 365 * y + y div 4 - y div 100 + y div 400"

definition month_start :: "int \<Rightarrow> bool \<Rightarrow> int" where
  "month_start m l = daysBeforeMonth ! nat m + of_bool (2 < m \<and> l)"

definition month_days :: "int \<Rightarrow> bool \<Rightarrow> int" where
  "month_days m l = daysInMonth ! nat m + of_bool (2 = m \<and> l)"

definition valid_ymd :: "int \<Rightarrow> int \<Rightarrow> int \<Rightarrow> bool" where
  "valid_ymd y m d \<longleftrightarrow> 1 \<le> m \<and> m \<le> 12 \<and> 1 \<le> d \<and> d \<le> month_days m (isleap y)"

definition day_number :: "int \<Rightarrow> int \<Rightarrow> int \<Rightarrow> int" where
  "day_number y m d = year_start y + month_start m (isleap y) + d - 1"

lemma month_tables:
  "0 \<le> m \<Longrightarrow> m < 16 \<Longrightarrow> CFDaysBeforeMonth m y l = Some (month_start m l)"
  "0 \<le> m \<Longrightarrow> m < 16 \<Longrightarrow> CFDaysInMonth m y l = Some (month_days m l)"
  by (simp_all add: CFDaysBeforeMonth_def CFDaysInMonth_def month_start_def month_days_def rdi_Some
      daysBeforeMonth_def daysInMonth_def)

lemma int_and_3: "(y :: int) AND 3 = y mod 4"
proof -
  have "y AND 3 = y AND mask 2" by (simp add: mask_eq_exp_minus_1)
  then show ?thesis by (simp add: take_bit_eq_mask [symmetric] take_bit_eq_mod)
qed

lemma isleap_iff: "isleap y \<longleftrightarrow> 4 dvd (y + 1) \<and> (\<not> 100 dvd (y + 1) \<or> 400 dvd (y + 1))"
proof -
  define a where "a = \<bar>y + 1\<bar>"
  define r where "r = a mod 400"
  have r: "0 \<le> r" "r < 400" by (simp_all add: r_def)
  have abs: "(if (y + 1) smod 400 < 0 then - ((y + 1) smod 400) else (y + 1) smod 400) = r"
    by (auto simp: signed_modulo_int_def r_def a_def sgn_if)
  have d: "4 dvd a \<longleftrightarrow> 4 dvd r" "100 dvd a \<longleftrightarrow> 100 dvd r" "400 dvd a \<longleftrightarrow> r = 0"
    unfolding r_def using dvd_mod_iff [of 4 400 a] dvd_mod_iff [of 100 400 a] dvd_eq_mod_eq_0 [of 400 a] by simp_all
  have "100 dvd r \<longleftrightarrow> r = 0 \<or> r = 100 \<or> r = 200 \<or> r = 300"
  proof
    assume "100 dvd r"
    then obtain k where "r = 100 * k" by blast
    then show "r = 0 \<or> r = 100 \<or> r = 200 \<or> r = 300" using r by presburger
  qed auto
  moreover have "isleap y \<longleftrightarrow> 4 dvd r \<and> r \<noteq> 100 \<and> r \<noteq> 200 \<and> r \<noteq> 300"
    unfolding isleap_def Let_def abs int_and_3 by (auto simp: dvd_eq_mod_eq_0)
  ultimately have "isleap y \<longleftrightarrow> 4 dvd a \<and> (\<not> 100 dvd a \<or> 400 dvd a)"
    unfolding d by auto
  then show ?thesis by (simp add: a_def)
qed

lemma div_add_one:
  assumes "0 < (n :: int)"
  shows "(y + 1) div n = y div n + of_bool (n dvd y + 1)"
proof (cases "n dvd y + 1")
  case True
  then obtain k where k: "y + 1 = n * k" by blast
  then have "y = n * (k - 1) + (n - 1)" by (simp add: algebra_simps)
  then have "y div n = k - 1" using assms by (intro int_div_pos_eq [where r = "n - 1"]) auto
  then show ?thesis using k True assms by simp
next
  case False
  have "y mod n \<noteq> n - 1"
  proof
    assume "y mod n = n - 1"
    then have "y + 1 = n * (y div n) + n" using mult_div_mod_eq [of n y] by linarith
    then have "y + 1 = n * (y div n + 1)" by (simp add: distrib_left)
    then show False using False by simp
  qed
  then have "y mod n + 1 < n" using pos_mod_bound [OF assms, of y] by linarith
  then have "(y + 1) div n = y div n"
    using mult_div_mod_eq [of n y] pos_mod_sign [OF assms, of y] by (intro int_div_pos_eq) auto
  then show ?thesis using False by simp
qed

lemma year_start_next: "year_start (y + 1) = year_start y + 365 + of_bool (isleap y)"
proof -
  have "of_bool (isleap y) = of_bool (4 dvd y + 1) - of_bool (100 dvd y + 1) + (of_bool (400 dvd y + 1) :: int)"
    unfolding isleap_iff by (auto intro: dvd_trans [of _ 100] dvd_trans [of _ 400] simp: dvd_trans [of 4 100])
  then show ?thesis
    using div_add_one [of 4 y] div_add_one [of 100 y] div_add_one [of 400 y] unfolding year_start_def by simp
qed

lemma year_start_prev: "year_start (y - 1) = year_start y - 365 - of_bool (isleap (y - 1))"
  using year_start_next [of "y - 1"] by simp

lemma year_start_0 [simp]: "year_start 0 = 0"
  by (simp add: year_start_def)

lemma year_start_400: "year_start (y - b * 400) = year_start y - b * 146097"
proof -
  have step: "(y - b * (k * n)) div n = y div n - b * k" if "n \<noteq> 0" for k n :: int
  proof -
    have "y - b * (k * n) = y + (- (b * k)) * n" by (simp add: algebra_simps)
    then show ?thesis using div_mult_self1 [OF that, of y "- (b * k)"] by (simp add: mult.assoc)
  qed
  have "(y - b * 400) div 4 = y div 4 - b * 100" "(y - b * 400) div 100 = y div 100 - b * 4"
    "(y - b * 400) div 400 = y div 400 - b"
    using step [of 4 100] step [of 100 4] step [of 400 1] by simp_all
  then show ?thesis by (simp add: year_start_def algebra_simps)
qed

lemma isleap_400: "isleap (y - b * 400) = isleap y"
proof -
  have "n dvd y - b * 400 + 1 \<longleftrightarrow> n dvd y + 1" if "n dvd 400" for n :: int
  proof -
    have "n dvd b * 400" using that by simp
    then show ?thesis by (metis diff_add_eq dvd_diff_left_iff)
  qed
  then show ?thesis by (simp add: isleap_iff)
qed

lemma year_start_mono: "y < y' \<Longrightarrow> year_start (y + 1) \<le> year_start y'"
proof (induction "nat (y' - y - 1)" arbitrary: y')
  case 0
  then have "y' = y + 1" by simp
  then show ?case by simp
next
  case (Suc n)
  then have "year_start (y + 1) \<le> year_start (y' - 1)" by (intro Suc.hyps) auto
  then show ?case using year_start_prev [of y'] by (cases "isleap (y' - 1)") simp_all
qed

subsection \<open>From days to dates and back\<close>

lemma year_down_ok:
  "\<exists>y' a'. year_down y a = Some (y', a') \<and> 0 \<le> a' \<and> year_start y' + a' = year_start y + a"
proof (induction y a rule: year_down.induct)
  case (1 y a)
  show ?case
  proof (cases "a < 0")
    case False
    then show ?thesis by (simp add: year_down.simps [of y a])
  next
    case True
    have "\<exists>y' a'. year_down (y - 1) (a + (365 + of_bool (isleap (y - 1)))) = Some (y', a') \<and> 0 \<le> a' \<and>
        year_start y' + a' = year_start (y - 1) + (a + (365 + of_bool (isleap (y - 1))))"
      by (rule "1.IH" [OF True refl]) (simp add: year_days)
    then show ?thesis using True by (simp add: year_down.simps [of y a] year_days year_start_prev Let_def)
  qed
qed

lemma year_up_ok:
  "0 \<le> a \<Longrightarrow> ydays = 365 + of_bool (isleap y) \<Longrightarrow>
    \<exists>y' a'. year_up y a ydays = Some (y', a') \<and> 0 \<le> a' \<and> a' < 365 + of_bool (isleap y') \<and>
      year_start y' + a' = year_start y + a"
proof (induction y a ydays rule: year_up.induct)
  case (1 y a ydays)
  show ?case
  proof (cases "ydays \<le> a")
    case False
    then show ?thesis using "1.prems" by (simp add: year_up.simps [of y a])
  next
    case True
    have pos: "0 < ydays" using "1.prems" by simp
    have "\<exists>y' a'. year_up (y + 1) (a - ydays) (365 + of_bool (isleap (y + 1))) = Some (y', a') \<and> 0 \<le> a' \<and>
        a' < 365 + of_bool (isleap y') \<and> year_start y' + a' = year_start (y + 1) + (a - ydays)"
      by (rule "1.IH" [OF conjI [OF True pos] refl refl]) (use True in \<open>simp_all add: year_days\<close>)
    then show ?thesis
      using True pos "1.prems" by (simp add: year_up.simps [of y a] year_days year_start_next Let_def)
  qed
qed

lemma month_cases:
  assumes "1 \<le> (m :: int)" "m \<le> 12"
  shows "m \<in> {1, 2, 3, 4, 5, 6, 7, 8, 9, 10, 11, 12}"
  using assms by (simp, presburger)

lemma month_start_next: "1 \<le> m \<Longrightarrow> m \<le> 12 \<Longrightarrow> month_start (m + 1) l = month_start m l + month_days m l"
  using month_cases [of m]
  by (auto simp: month_start_def month_days_def daysBeforeMonth_def daysInMonth_def)

lemma month_start_guess: "1 \<le> m \<Longrightarrow> m \<le> 12 \<Longrightarrow> month_start m l \<le> 33 * (m - 1)"
  using month_cases [of m]
  by (auto simp: month_start_def daysBeforeMonth_def)

lemma month_start_13: "month_start 13 l = 365 + of_bool l"
  by (simp add: month_start_def daysBeforeMonth_def)

lemma month_start_1: "month_start 1 l = 0"
  by (simp add: month_start_def daysBeforeMonth_def)

lemma month_days_bounds: "1 \<le> m \<Longrightarrow> m \<le> 12 \<Longrightarrow> 28 \<le> month_days m l \<and> month_days m l \<le> 31"
  using month_cases [of m] by (auto simp: month_days_def daysInMonth_def)

lemma month_start_mono: "1 \<le> m \<Longrightarrow> m < m' \<Longrightarrow> m' \<le> 13 \<Longrightarrow> month_start m l + month_days m l \<le> month_start m' l"
proof (induction "nat (m' - m - 1)" arbitrary: m')
  case 0
  then have "m' = m + 1" by simp
  then show ?case using 0 month_start_next [of m l] by simp
next
  case (Suc n)
  then have "month_start m l + month_days m l \<le> month_start (m' - 1) l" by (intro Suc.hyps) auto
  then show ?case using Suc.prems Suc.hyps(2) month_start_next [of "m' - 1" l] month_days_bounds [of "m' - 1" l] by simp
qed

lemma month_up_ok:
  "1 \<le> m \<Longrightarrow> m \<le> 12 \<Longrightarrow> month_start m l \<le> a \<Longrightarrow> a < 365 + of_bool l \<Longrightarrow>
    \<exists>m'. month_up a y l m = Some m' \<and> 1 \<le> m' \<and> m' \<le> 12 \<and> month_start m' l \<le> a \<and> a < month_start m' l + month_days m' l"
proof (induction "nat (13 - m)" arbitrary: m rule: less_induct)
  case less
  have tab: "CFDaysBeforeMonth (m + 1) y l = Some (month_start (m + 1) l)" using less.prems by (intro month_tables) auto
  show ?case
  proof (cases "month_start (m + 1) l \<le> a")
    case False
    then show ?thesis using less.prems month_start_next [of m l] by (simp add: month_up.simps [of a y l m] tab)
  next
    case True
    have "m \<noteq> 12" using True less.prems month_start_13 [of l] by auto
    then have "\<exists>m'. month_up a y l (m + 1) = Some m' \<and> 1 \<le> m' \<and> m' \<le> 12 \<and> month_start m' l \<le> a \<and>
        a < month_start m' l + month_days m' l"
      using less.prems True by (intro less.hyps) auto
    then show ?thesis using True less.prems by (simp add: month_up.simps [of a y l m] tab)
  qed
qed

text \<open>Every day number is the number of exactly one valid date.\<close>

lemma valid_ymd_year:
  assumes "valid_ymd y m d"
  shows "year_start y \<le> day_number y m d" "day_number y m d < year_start (y + 1)"
proof -
  have m: "1 \<le> m" "m \<le> 12" "1 \<le> d" "d \<le> month_days m (isleap y)" using assms by (auto simp: valid_ymd_def)
  have "0 \<le> month_start m (isleap y)"
    using month_start_mono [of 1 m "isleap y"] month_start_1 [of "isleap y"] month_days_bounds [of 1 "isleap y"] m
    by (cases "m = 1") simp_all
  then show "year_start y \<le> day_number y m d" using m by (simp add: day_number_def)
  have "month_start m (isleap y) + month_days m (isleap y) \<le> 365 + of_bool (isleap y)"
    using month_start_mono [of m 13] m month_start_13 by simp
  then show "day_number y m d < year_start (y + 1)" using m by (simp add: day_number_def year_start_next)
qed

lemma day_number_inj:
  assumes "valid_ymd y m d" "valid_ymd y' m' d'" "day_number y m d = day_number y' m' d'"
  shows "y = y' \<and> m = m' \<and> d = d'"
proof -
  have "\<not> u < u'" if "valid_ymd u n e" "valid_ymd u' n' e'" "day_number u n e = day_number u' n' e'" for u n e u' n' e'
    using valid_ymd_year(2) [OF that(1)] valid_ymd_year(1) [OF that(2)] year_start_mono [of u u'] that(3) by fastforce
  from this [OF assms] this [OF assms(2,1) assms(3) [symmetric]] have y: "y = y'" by simp
  have "\<not> n < n'" if "valid_ymd y n e" "valid_ymd y n' e'" "day_number y n e = day_number y n' e'" for n e n' e'
    using that month_start_mono [of n n' "isleap y"] by (auto simp: valid_ymd_def day_number_def)
  from this [OF assms [folded y]] this [OF assms(2,1) [folded y] assms(3) [folded y, symmetric]] have "m = m'" by simp
  then show ?thesis using y assms(3) by (simp add: day_number_def)
qed

lemma CFYMDFromAbsolute_ok:
  "\<exists>y m d. CFYMDFromAbsolute a = Some (y, m, d) \<and> valid_ymd y m d \<and> day_number y m d = a"
proof -
  define b where "b = a sdiv 146097"
  obtain y1 a1 where down: "year_down (b * 400) (a - b * 146097) = Some (y1, a1)" "0 \<le> a1"
    "year_start y1 + a1 = year_start (b * 400) + (a - b * 146097)"
    using year_down_ok by blast
  obtain y2 a2 where up: "year_up y1 a1 (365 + of_bool (isleap y1)) = Some (y2, a2)" "0 \<le> a2"
    "a2 < 365 + of_bool (isleap y2)" "year_start y2 + a2 = year_start y1 + a1"
    using year_up_ok [OF down(2) refl] by blast
  have "year_start (b * 400) = b * 146097" using year_start_400 [of 0 "- b"] by simp
  then have sum: "year_start y2 + a2 = a" using down up by simp
  have q: "a2 sdiv 33 = a2 div 33" using up(2) by (simp add: signed_divide_int_eq_divide_int sgn_if)
  have guess: "1 \<le> a2 div 33 + 1" "a2 div 33 + 1 \<le> 12" "33 * (a2 div 33 + 1 - 1) \<le> a2"
    using up(2,3) by (cases "isleap y2"; simp)+
  then obtain m where m: "month_up a2 y2 (isleap y2) (a2 div 33 + 1) = Some m" "1 \<le> m" "m \<le> 12"
    "month_start m (isleap y2) \<le> a2" "a2 < month_start m (isleap y2) + month_days m (isleap y2)"
    using month_up_ok [of "a2 div 33 + 1" "isleap y2" a2 y2] month_start_guess [of "a2 div 33 + 1" "isleap y2"] up(3) by auto
  have tab: "CFDaysBeforeMonth m y2 (isleap y2) = Some (month_start m (isleap y2))" using m by (intro month_tables) auto
  have "CFYMDFromAbsolute a = Some (y2, m, a2 - month_start m (isleap y2) + 1)"
    unfolding CFYMDFromAbsolute_def Let_def b_def [symmetric] using down(1) up(1) m(1) tab by (simp add: year_days q)
  then show ?thesis using m sum by (intro exI conjI) (auto simp: valid_ymd_def day_number_def)
qed

lemma years_before_ok: "year \<le> 0 \<Longrightarrow> years_before year acc = Some (acc + year_start year)"
proof (induction year acc rule: years_before.induct)
  case (1 year acc)
  show ?case
  proof (cases "year < 0")
    case True
    have "years_before (year + 1) (acc - (365 + of_bool (isleap year))) =
        Some (acc - (365 + of_bool (isleap year)) + year_start (year + 1))"
      by (rule "1.IH" [OF True]) (use True in \<open>simp_all add: year_days\<close>)
    then show ?thesis using True by (simp add: years_before.simps [of year acc] year_days year_start_next)
  next
    case False
    then have "year = 0" using "1.prems" by simp
    then show ?thesis by (simp add: years_before.simps [of 0 acc])
  qed
qed

lemma years_after_ok: "idx \<le> year \<Longrightarrow> years_after idx year acc = Some (acc + year_start year - year_start idx)"
proof (induction idx year acc rule: years_after.induct)
  case (1 idx year acc)
  show ?case
  proof (cases "idx < year")
    case True
    have "years_after (idx + 1) year (acc + (365 + of_bool (isleap idx))) =
        Some (acc + (365 + of_bool (isleap idx)) + year_start year - year_start (idx + 1))"
      by (rule "1.IH" [OF True]) (use True in \<open>simp_all add: year_days\<close>)
    then show ?thesis using True by (simp add: years_after.simps [of idx year acc] year_days year_start_next)
  next
    case False
    then have "idx = year" using "1.prems" by simp
    then show ?thesis by (simp add: years_after.simps [of year year acc])
  qed
qed

lemma CFAbsoluteFromYMD_ok:
  assumes "0 \<le> m" "m < 16"
  shows "CFAbsoluteFromYMD y m d = Some (day_number y m d)"
proof -
  define b where "b = y sdiv 400"
  have "(if y - b * 400 < 0 then years_before (y - b * 400) (b * 146097) else years_after 0 (y - b * 400) (b * 146097)) =
      Some (year_start y)"
    using years_before_ok [of "y - b * 400"] years_after_ok [of 0 "y - b * 400"] by (simp add: year_start_400)
  then show ?thesis
    unfolding CFAbsoluteFromYMD_def Let_def b_def [symmetric] using month_tables(1) [OF assms]
    by (simp add: isleap_400 day_number_def)
qed

text \<open>C16: the conversions between day numbers and dates are inverse to each other: each day number has a
  valid date, from which the day number is computed back, and each valid date is found again from its
  day number.  The day number is the one of the proleptic Gregorian calendar: 365 days per year, and
  one more for the years divisible by 4, except those divisible by 100 but not by 400.\<close>

theorem date_round_trip:
  "(case CFYMDFromAbsolute a of
      None \<Rightarrow> False
    | Some (y, m, d) \<Rightarrow> valid_ymd y m d \<and> CFAbsoluteFromYMD y m d = Some a \<and>
        365 * y + y div 4 - y div 100 + y div 400 + month_start m (4 dvd y + 1 \<and> (100 dvd y + 1 \<longrightarrow> 400 dvd y + 1)) + d - 1 = a) \<and>
    (valid_ymd year month day \<longrightarrow>
      do { a \<leftarrow> CFAbsoluteFromYMD year month day; CFYMDFromAbsolute a } = Some (year, month, day))"
proof
  obtain y m d where r: "CFYMDFromAbsolute a = Some (y, m, d)" "valid_ymd y m d" "day_number y m d = a"
    using CFYMDFromAbsolute_ok by blast
  moreover have "CFAbsoluteFromYMD y m d = Some a" using r CFAbsoluteFromYMD_ok [of m y d] by (simp add: valid_ymd_def)
  moreover have "isleap y \<longleftrightarrow> 4 dvd y + 1 \<and> (100 dvd y + 1 \<longrightarrow> 400 dvd y + 1)" using isleap_iff by blast
  ultimately show "case CFYMDFromAbsolute a of
      None \<Rightarrow> False
    | Some (y, m, d) \<Rightarrow> valid_ymd y m d \<and> CFAbsoluteFromYMD y m d = Some a \<and>
        365 * y + y div 4 - y div 100 + y div 400 + month_start m (4 dvd y + 1 \<and> (100 dvd y + 1 \<longrightarrow> 400 dvd y + 1)) + d - 1 = a"
    by (simp add: day_number_def year_start_def)
  show "valid_ymd year month day \<longrightarrow>
      do { a \<leftarrow> CFAbsoluteFromYMD year month day; CFYMDFromAbsolute a } = Some (year, month, day)"
  proof
    assume v: "valid_ymd year month day"
    then have "CFAbsoluteFromYMD year month day = Some (day_number year month day)"
      by (intro CFAbsoluteFromYMD_ok) (auto simp: valid_ymd_def)
    moreover obtain y m d where r: "CFYMDFromAbsolute (day_number year month day) = Some (y, m, d)" "valid_ymd y m d"
      "day_number y m d = day_number year month day"
      using CFYMDFromAbsolute_ok by blast
    ultimately show "do { a \<leftarrow> CFAbsoluteFromYMD year month day; CFYMDFromAbsolute a } = Some (year, month, day)"
      using day_number_inj [OF r(2) v r(3)] by simp
  qed
qed

subsection \<open>Gregorian dates and units\<close>

record CFGregorianDate =
  gd_year :: int
  gd_month :: int
  gd_day :: int
  gd_hour :: int
  gd_minute :: int
  gd_second :: real

record CFGregorianUnits =
  gu_years :: int
  gu_months :: int
  gu_days :: int
  gu_hours :: int
  gu_minutes :: int
  gu_seconds :: real

definition kCFGregorianUnitsYears :: "64 word" where "kCFGregorianUnitsYears = 1"
definition kCFGregorianUnitsMonths :: "64 word" where "kCFGregorianUnitsMonths = 2"
definition kCFGregorianUnitsDays :: "64 word" where "kCFGregorianUnitsDays = 4"
definition kCFGregorianUnitsHours :: "64 word" where "kCFGregorianUnitsHours = 8"
definition kCFGregorianUnitsMinutes :: "64 word" where "kCFGregorianUnitsMinutes = 16"
definition kCFGregorianUnitsSeconds :: "64 word" where "kCFGregorianUnitsSeconds = 32"

definition CFGregorianDateIsValid :: "CFGregorianDate \<Rightarrow> 64 word \<Rightarrow> bool option" where
  "CFGregorianDateIsValid gdate unitFlags =
     (let has = (\<lambda>u. unitFlags AND u \<noteq> 0) in
      if has kCFGregorianUnitsYears \<and> gd_year gdate \<le> 0 then Some False
      else if has kCFGregorianUnitsMonths \<and> (gd_month gdate < 1 \<or> 12 < gd_month gdate) then Some False
      else if has kCFGregorianUnitsDays \<and> (gd_day gdate < 1 \<or> 31 < gd_day gdate) then Some False
      else if has kCFGregorianUnitsHours \<and> (gd_hour gdate < 0 \<or> 23 < gd_hour gdate) then Some False
      else if has kCFGregorianUnitsMinutes \<and> (gd_minute gdate < 0 \<or> 59 < gd_minute gdate) then Some False
      else if has kCFGregorianUnitsSeconds \<and> (gd_second gdate < 0 \<or> 60 \<le> gd_second gdate) then Some False
      else if has kCFGregorianUnitsDays \<and> has kCFGregorianUnitsMonths \<and> has kCFGregorianUnitsYears
      then do { n \<leftarrow> CFDaysInMonth (gd_month gdate) (gd_year gdate - 2001) (isleap (gd_year gdate - 2001));
                Some (\<not> n < gd_day gdate) }
      else Some True)"

text \<open>A signed addition or subtraction of 32 bits, and the length of a month of a year of the common era.\<close>

definition s32 :: "int \<Rightarrow> int option" where
  "s32 n = (if - (2 ^ 31) \<le> n \<and> n < 2 ^ 31 then Some n else None)"

definition monthdays_of :: "int \<Rightarrow> int \<Rightarrow> int option" where
  "monthdays_of years months =
     do { year \<leftarrow> s32 (years - 2001); CFDaysInMonth months year (isleap year) }"

text \<open>The offset of a time zone; NULL has none.\<close>

type_synonym time_zone = "(CFAbsoluteTime \<Rightarrow> real) option"

definition tz_offset :: "time_zone \<Rightarrow> CFAbsoluteTime \<Rightarrow> real" where
  "tz_offset tz t = (case tz of None \<Rightarrow> 0 | Some offset \<Rightarrow> offset t)"

definition CFGregorianDateGetAbsoluteTime :: "CFGregorianDate \<Rightarrow> time_zone \<Rightarrow> CFAbsoluteTime option" where
  "CFGregorianDateGetAbsoluteTime gdate tz =
     do { year \<leftarrow> s32 (gd_year gdate - 2001);
          days \<leftarrow> CFAbsoluteFromYMD year (gd_month gdate) (gd_day gdate);
          let t = 86400 * real_of_int days;
          let t = t + (3600 * real_of_int (gd_hour gdate) + 60 * real_of_int (gd_minute gdate) + gd_second gdate);
          (case tz of None \<Rightarrow> Some t
           | Some offset \<Rightarrow> let offset0 = offset t; offset1 = offset (t - offset0) in Some (t - offset1)) }"

definition CFAbsoluteTimeGetGregorianDate :: "CFAbsoluteTime \<Rightarrow> time_zone \<Rightarrow> CFGregorianDate option" where
  "CFAbsoluteTimeGetGregorianDate t tz =
     (let fixedat = t + tz_offset tz t; absolute = \<lfloor>fixedat / 86400\<rfloor> in
      do { (year, month, day) \<leftarrow> CFYMDFromAbsolute absolute;
           let year = (if 2 ^ 31 - 1 - 2001 < year then 2 ^ 31 - 1 - 2001 else year);
           Some \<lparr>gd_year = SInt32_of (year + 2001), gd_month = month, gd_day = day,
                 gd_hour = CFDoubleModToInt (real_of_int \<lfloor>fixedat / 3600\<rfloor>) 24,
                 gd_minute = CFDoubleModToInt (real_of_int \<lfloor>fixedat / 60\<rfloor>) 60,
                 gd_second = CFDoubleMod fixedat 60\<rparr> })"

function months_over :: "int \<Rightarrow> int \<Rightarrow> (int \<times> int) option" where
  "months_over years months =
     (if 12 < months then do { years \<leftarrow> s32 (years + 1); months_over years (months - 12) } else Some (years, months))"
  by pat_completeness auto
termination by (relation "measure (\<lambda>(_, months). nat months)") auto

function months_under :: "int \<Rightarrow> int \<Rightarrow> (int \<times> int) option" where
  "months_under years months =
     (if months < 1 then do { years \<leftarrow> s32 (years - 1); months_under years (months + 12) } else Some (years, months))"
  by pat_completeness auto
termination by (relation "measure (\<lambda>(_, months). nat (1 - months))") auto

text \<open>
  The loop over the days that are too many.  The length of a month with a valid number is never 0; saying
  so makes the function total.
\<close>

function days_over :: "int \<Rightarrow> int \<Rightarrow> int \<Rightarrow> int \<Rightarrow> (int \<times> int \<times> int) option" where
  "days_over years months days monthdays =
     (if monthdays < days \<and> 0 < monthdays
      then do {
        let months = months + 1;
        (years, months) \<leftarrow> (if 12 < months then do { years \<leftarrow> s32 (years + 1); Some (years, months - 12) }
                             else Some (years, months));
        let days = days - monthdays;
        monthdays \<leftarrow> monthdays_of years months;
        days_over years months days monthdays }
      else Some (years, months, days))"
  by pat_completeness auto
termination by (relation "measure (\<lambda>(_, _, days, _). nat days)") auto

function days_under :: "int \<Rightarrow> int \<Rightarrow> int \<Rightarrow> (int \<times> int \<times> int) option" where
  "days_under years months days =
     (if days < 1
      then do {
        let months = months - 1;
        (years, months) \<leftarrow> (if months < 1 then do { years \<leftarrow> s32 (years - 1); Some (years, months + 12) }
                             else Some (years, months));
        monthdays \<leftarrow> monthdays_of years months;
        (if 0 < monthdays then days_under years months (days + monthdays) else None) }
      else Some (years, months, days))"
  by pat_completeness auto
termination by (relation "measure (\<lambda>(_, _, days). nat (1 - days))") auto

declare months_over.simps [simp del] months_under.simps [simp del] days_over.simps [simp del] days_under.simps [simp del]

definition CFAbsoluteTimeAddGregorianUnits ::
  "CFAbsoluteTime \<Rightarrow> time_zone \<Rightarrow> CFGregorianUnits \<Rightarrow> CFAbsoluteTime option" where
  "CFAbsoluteTimeAddGregorianUnits t tz units =
     do { gdate \<leftarrow> CFAbsoluteTimeGetGregorianDate t tz;
          years \<leftarrow> s32 (gd_year gdate + gu_years units);
          months \<leftarrow> s32 (gd_month gdate + gu_months units);
          let days = gd_day gdate;
          (years, months) \<leftarrow> months_over years months;
          (years, months) \<leftarrow> months_under years months;
          monthdays \<leftarrow> monthdays_of years months;
          let days = (if monthdays < days then monthdays else days);
          days \<leftarrow> s32 (days + gu_days units);
          (years, months, days) \<leftarrow> days_over years months days monthdays;
          (years, months, days) \<leftarrow> days_under years months days;
          candidate_at0 \<leftarrow> CFGregorianDateGetAbsoluteTime (gdate\<lparr>gd_year := years, gd_month := months, gd_day := days\<rparr>) tz;
          Some (candidate_at0 + 3600 * real_of_int (gu_hours units) + 60 * real_of_int (gu_minutes units) + gu_seconds units) }"

definition CFAbsoluteTimeGetDayOfWeek :: "CFAbsoluteTime \<Rightarrow> time_zone \<Rightarrow> int" where
  "CFAbsoluteTimeGetDayOfWeek t tz =
     (let fixedat = t + tz_offset tz t; absolute = \<lfloor>fixedat / 86400\<rfloor>
      in if absolute < 0 then (absolute + 1) smod 7 + 7 else absolute smod 7 + 1)"

definition CFAbsoluteTimeGetDayOfYear :: "CFAbsoluteTime \<Rightarrow> time_zone \<Rightarrow> int option" where
  "CFAbsoluteTimeGetDayOfYear t tz =
     (let fixedat = t + tz_offset tz t; absolute = \<lfloor>fixedat / 86400\<rfloor> in
      do { (year, month, day) \<leftarrow> CFYMDFromAbsolute absolute;
           before \<leftarrow> CFDaysBeforeMonth month year (isleap year);
           Some (before + day) })"

definition CFAbsoluteTimeGetWeekOfYear :: "CFAbsoluteTime \<Rightarrow> time_zone \<Rightarrow> int option" where
  "CFAbsoluteTimeGetWeekOfYear t tz =
     (let fixedat = t + tz_offset tz t; absolute = \<lfloor>fixedat / 86400\<rfloor> in
      do { (year, month, day) \<leftarrow> CFYMDFromAbsolute absolute;
           absolute0101 \<leftarrow> CFAbsoluteFromYMD year 1 1;
           let dow0101 = CFDoubleModToInt (real_of_int absolute0101) 7 + 1;
           (if 1 = month \<and> day < 4 \<and>
               (day < 4 \<and> 5 = dow0101 \<or> day < 3 \<and> 6 = dow0101 \<or> day < 2 \<and> 7 = dow0101)
            then Some 53
            else do {
              next_week \<leftarrow>
                (if 12 = month \<and> 28 < day
                 then do { absolute20101 \<leftarrow> CFAbsoluteFromYMD (year + 1) 1 1;
                           let dow20101 = CFDoubleModToInt (real_of_int absolute20101) 7 + 1;
                           Some (28 < day \<and> 4 = dow20101 \<or> 29 < day \<and> 3 = dow20101 \<or> 30 < day \<and> 2 = dow20101) }
                 else Some False);
              (if next_week then Some 1
               else do { before \<leftarrow> CFDaysBeforeMonth month year (isleap year);
                         Some ((before + day + (dow0101 - 11) smod 7 + 2) sdiv 7 + 1) }) }) })"

subsection \<open>Adding units\<close>

lemma s32_Some: "- (2 ^ 31) \<le> n \<Longrightarrow> n < 2 ^ 31 \<Longrightarrow> s32 n = Some n"
  by (simp add: s32_def)

lemma months_over_ok:
  "years + months < 2 ^ 31 \<Longrightarrow> - (2 ^ 31) \<le> years \<Longrightarrow>
    \<exists>k. months_over years months = Some (years + k, months - 12 * k) \<and> 0 \<le> k \<and>
      months - 12 * k \<le> 12 \<and> (0 < k \<longrightarrow> 1 \<le> months - 12 * k)"
proof (induction "nat months" arbitrary: years months rule: less_induct)
  case less
  show ?case
  proof (cases "12 < months")
    case False
    then show ?thesis by (intro exI [of _ 0]) (simp add: months_over.simps [of years months])
  next
    case True
    then have s: "s32 (years + 1) = Some (years + 1)" using less.prems by (intro s32_Some) auto
    obtain k where k: "months_over (years + 1) (months - 12) = Some (years + 1 + k, months - 12 - 12 * k)" "0 \<le> k"
      "months - 12 - 12 * k \<le> 12" "0 < k \<longrightarrow> 1 \<le> months - 12 - 12 * k"
      using less.hyps [of "months - 12" "years + 1"] less.prems True by auto
    show ?thesis
      using k True s by (intro exI [of _ "k + 1"]) (auto simp: months_over.simps [of years months] algebra_simps)
  qed
qed

lemma months_under_ok:
  "- (2 ^ 31) < years + months \<Longrightarrow> years < 2 ^ 31 \<Longrightarrow> months \<le> 12 \<Longrightarrow>
    \<exists>k. months_under years months = Some (years - k, months + 12 * k) \<and> 0 \<le> k \<and>
      1 \<le> months + 12 * k \<and> months + 12 * k \<le> 12"
proof (induction "nat (1 - months)" arbitrary: years months rule: less_induct)
  case less
  show ?case
  proof (cases "months < 1")
    case False
    then show ?thesis using less.prems by (intro exI [of _ 0]) (simp add: months_under.simps [of years months])
  next
    case True
    then have s: "s32 (years - 1) = Some (years - 1)" using less.prems by (intro s32_Some) auto
    obtain k where k: "months_under (years - 1) (months + 12) = Some (years - 1 - k, months + 12 + 12 * k)" "0 \<le> k"
      "1 \<le> months + 12 + 12 * k" "months + 12 + 12 * k \<le> 12"
      using less.hyps [of "months + 12" "years - 1"] less.prems True by auto
    show ?thesis
      using k True s by (intro exI [of _ "k + 1"]) (auto simp: months_under.simps [of years months] algebra_simps)
  qed
qed

lemma month_of_total: "1 \<le> M - 12 * k \<Longrightarrow> M - 12 * k \<le> 12 \<Longrightarrow> k = (M - 1) div 12 \<and> M - 12 * k = (M - 1) mod 12 + 1" for M :: int
proof -
  assume m: "1 \<le> M - 12 * k" "M - 12 * k \<le> 12"
  then have "(M - 1) div 12 = k" by (intro int_div_pos_eq [where r = "M - 12 * k - 1"]) auto
  then show "k = (M - 1) div 12 \<and> M - 12 * k = (M - 1) mod 12 + 1"
    using minus_mult_div_eq_mod [of "M - 1" 12] by simp
qed

text \<open>The two loops over the months normalise a pair of a year and a month number.\<close>

lemma months_ok:
  assumes "\<bar>years\<bar> \<le> 2 ^ 30" "\<bar>months\<bar> \<le> 2 ^ 29 + 12"
  shows "do { (years, months) \<leftarrow> months_over years months; months_under years months } =
    Some (years + (months - 1) div 12, (months - 1) mod 12 + 1)"
proof -
  have b: "years + months < 2 ^ 31" "- (2 ^ 31) \<le> years" using assms by auto
  obtain k where k: "months_over years months = Some (years + k, months - 12 * k)" "0 \<le> k"
    "months - 12 * k \<le> 12" "0 < k \<longrightarrow> 1 \<le> months - 12 * k"
    using months_over_ok [OF b] by blast
  have k_le: "k \<le> 2 ^ 29" using k assms by (cases "0 < k") auto
  have bounds: "- (2 ^ 31) < years + k + (months - 12 * k)" "years + k < 2 ^ 31"
  proof -
    have y: "- (2 ^ 30) \<le> years" "years \<le> 2 ^ 30" using assms(1) by (simp_all add: abs_le_iff)
    have "- (2 ^ 29) - 12 \<le> months - 12 * k" using k(2,4) assms(2) by (cases "k = 0") (simp_all add: abs_le_iff)
    then show "- (2 ^ 31) < years + k + (months - 12 * k)" using y k(2) by simp
    show "years + k < 2 ^ 31" using y k_le by simp
  qed
  obtain j where j: "months_under (years + k) (months - 12 * k) = Some (years + k - j, months - 12 * k + 12 * j)"
    "1 \<le> months - 12 * k + 12 * j" "months - 12 * k + 12 * j \<le> 12"
    using months_under_ok [OF bounds k(3)] by auto
  have e: "months - 12 * (k - j) = months - 12 * k + 12 * j" by simp
  have "k - j = (months - 1) div 12 \<and> months - 12 * (k - j) = (months - 1) mod 12 + 1"
    by (rule month_of_total) (use j in \<open>simp_all only: e\<close>)
  then have "years + k - j = years + (months - 1) div 12" "months - 12 * k + 12 * j = (months - 1) mod 12 + 1"
    unfolding e by linarith+
  then show ?thesis unfolding k(1) Option.bind.bind_lunit prod.case j(1) by simp
qed

lemma next_month:
  "1 \<le> m \<Longrightarrow> m \<le> 12 \<Longrightarrow>
    (if 12 < m + 1 then day_number (y + 1) (m + 1 - 12) d else day_number y (m + 1) d) = day_number y m d + month_days m (isleap y)"
  using month_start_next [of m "isleap y"] month_start_13 [of "isleap y"] month_start_1
  by (cases "m = 12") (auto simp: day_number_def year_start_next)

lemma prev_month:
  "1 \<le> m \<Longrightarrow> m \<le> 12 \<Longrightarrow>
    (if m - 1 < 1 then day_number (y - 1) 12 (d + month_days 12 (isleap (y - 1)))
     else day_number y (m - 1) (d + month_days (m - 1) (isleap y))) = day_number y m d"
  using month_start_next [of "m - 1" "isleap y"] month_start_next [of 12 "isleap (y - 1)"]
    month_start_13 [of "isleap (y - 1)"] month_start_1
  by (cases "m = 1") (auto simp: day_number_def year_start_prev)

lemma monthdays_ok:
  "1 \<le> m \<Longrightarrow> m \<le> 12 \<Longrightarrow> - (2 ^ 31) + 2001 \<le> y \<Longrightarrow> y < 2 ^ 31 \<Longrightarrow> monthdays_of y m = Some (month_days m (isleap (y - 2001)))"
  by (simp add: monthdays_of_def s32_def month_tables)

lemma days_over_ok:
  "1 \<le> m \<Longrightarrow> m \<le> 12 \<Longrightarrow> years + days < 2 ^ 31 \<Longrightarrow> - (2 ^ 31) + 2001 \<le> years \<Longrightarrow> years < 2 ^ 31 \<Longrightarrow>
    monthdays = month_days m (isleap (years - 2001)) \<Longrightarrow>
    \<exists>ys ms ds. days_over years m days monthdays = Some (ys, ms, ds) \<and> 1 \<le> ms \<and> ms \<le> 12 \<and>
      ds \<le> month_days ms (isleap (ys - 2001)) \<and> years \<le> ys \<and> ys < 2 ^ 31 \<and>
      day_number (ys - 2001) ms ds = day_number (years - 2001) m days \<and> (1 \<le> ds \<or> (ys = years \<and> ds = days))"
proof (induction "nat days" arbitrary: years m days monthdays rule: less_induct)
  case less
  have md: "28 \<le> monthdays" using less.prems month_days_bounds by auto
  show ?case
  proof (cases "monthdays < days")
    case False
    then have "days_over years m days monthdays = Some (years, m, days)"
      by (simp add: days_over.simps [of years m days monthdays])
    then show ?thesis using less.prems False by auto
  next
    case True
    define y2 where "y2 = (if 12 < m + 1 then years + 1 else years)"
    define m2 where "m2 = (if 12 < m + 1 then m + 1 - 12 else m + 1)"
    have y2: "years \<le> y2" "y2 \<le> years + 1" by (auto simp: y2_def)
    have bounds: "1 \<le> m2" "m2 \<le> 12" "y2 + (days - monthdays) < 2 ^ 31" "- (2 ^ 31) + 2001 \<le> y2" "y2 < 2 ^ 31"
      using less.prems md True y2 by (auto simp: m2_def)
    have s: "(if 12 < m + 1 then do { years \<leftarrow> s32 (years + 1); Some (years, m + 1 - 12) } else Some (years, m + 1)) = Some (y2, m2)"
      using bounds by (auto simp: y2_def m2_def s32_Some)
    have step: "days_over years m days monthdays = days_over y2 m2 (days - monthdays) (month_days m2 (isleap (y2 - 2001)))"
      using True md bounds s monthdays_ok [of m2 y2] by (subst days_over.simps) (simp add: Let_def)
    have "day_number (y2 - 2001) m2 (days - monthdays) = day_number (years - 2001) m (days - monthdays) + monthdays"
      using next_month [of m "years - 2001" "days - monthdays"] less.prems
      by (auto simp: y2_def m2_def algebra_simps split: if_splits)
    then have num: "day_number (y2 - 2001) m2 (days - monthdays) = day_number (years - 2001) m days"
      by (simp add: day_number_def)
    obtain ys ms ds where r: "days_over y2 m2 (days - monthdays) (month_days m2 (isleap (y2 - 2001))) = Some (ys, ms, ds)"
      "1 \<le> ms" "ms \<le> 12" "ds \<le> month_days ms (isleap (ys - 2001))" "y2 \<le> ys" "ys < 2 ^ 31"
      "day_number (ys - 2001) ms ds = day_number (y2 - 2001) m2 (days - monthdays)" "1 \<le> ds \<or> (ys = y2 \<and> ds = days - monthdays)"
      using less.hyps [of "days - monthdays" m2 y2, OF _ bounds refl] md True by auto
    moreover have "1 \<le> ds" using r(8) True by auto
    ultimately show ?thesis using num y2 unfolding step by (intro exI [of _ ys] exI [of _ ms] exI [of _ ds]) auto
  qed
qed

lemma days_under_ok:
  "1 \<le> m \<Longrightarrow> m \<le> 12 \<Longrightarrow> - (2 ^ 31) + 2002 \<le> years + days \<or> 1 \<le> days \<Longrightarrow> years < 2 ^ 31 \<Longrightarrow>
    days \<le> month_days m (isleap (years - 2001)) \<Longrightarrow>
    \<exists>ys ms ds. days_under years m days = Some (ys, ms, ds) \<and> valid_ymd (ys - 2001) ms ds \<and>
      day_number (ys - 2001) ms ds = day_number (years - 2001) m days \<and> ys \<le> years \<and>
      (ys = years \<or> - (2 ^ 31) + 2001 \<le> ys)"
proof (induction "nat (1 - days)" arbitrary: years m days rule: less_induct)
  case less
  show ?case
  proof (cases "days < 1")
    case False
    then show ?thesis using less.prems by (simp add: days_under.simps [of years m days] valid_ymd_def)
  next
    case True
    define y2 where "y2 = (if m - 1 < 1 then years - 1 else years)"
    define m2 where "m2 = (if m - 1 < 1 then m - 1 + 12 else m - 1)"
    define md where "md = month_days m2 (isleap (y2 - 2001))"
    have y2: "y2 \<le> years" "years - 1 \<le> y2" by (auto simp: y2_def)
    have bounds: "1 \<le> m2" "m2 \<le> 12" "- (2 ^ 31) + 2001 \<le> y2" "y2 < 2 ^ 31"
      using less.prems True y2 by (auto simp: m2_def)
    have md: "28 \<le> md" using bounds month_days_bounds unfolding md_def by blast
    have s: "(if m - 1 < 1 then do { years \<leftarrow> s32 (years - 1); Some (years, m - 1 + 12) } else Some (years, m - 1)) = Some (y2, m2)"
      using bounds by (auto simp: y2_def m2_def s32_Some)
    have step: "days_under years m days = days_under y2 m2 (days + md)"
      using True md bounds s monthdays_ok [of m2 y2]
      by (subst days_under.simps) (simp add: Let_def md_def [symmetric])
    have num: "day_number (y2 - 2001) m2 (days + md) = day_number (years - 2001) m days"
    proof (cases "m = 1")
      case True
      then show ?thesis using prev_month [of m "years - 2001" days] by (simp add: y2_def m2_def md_def)
    next
      case False
      then have "\<not> m - 1 < 1" using less.prems by simp
      then show ?thesis using prev_month [of m "years - 2001" days] less.prems by (simp add: y2_def m2_def md_def)
    qed
    have "nat (1 - (days + md)) < nat (1 - days)" using md True by simp
    moreover have "- (2 ^ 31) + 2002 \<le> y2 + (days + md) \<or> 1 \<le> days + md" using less.prems(3) md y2 True by auto
    moreover have "days + md \<le> month_days m2 (isleap (y2 - 2001))" using True unfolding md_def by simp
    ultimately obtain ys ms ds where r: "days_under y2 m2 (days + md) = Some (ys, ms, ds)" "valid_ymd (ys - 2001) ms ds"
      "day_number (ys - 2001) ms ds = day_number (y2 - 2001) m2 (days + md)" "ys \<le> y2" "ys = y2 \<or> - (2 ^ 31) + 2001 \<le> ys"
      using less.hyps [of "days + md" m2 y2] bounds by auto
    then show ?thesis using num y2 bounds unfolding step by (intro exI [of _ ys] exI [of _ ms] exI [of _ ds]) auto
  qed
qed

lemma mod_of_floor: "CFDoubleModToInt (real_of_int n) m = n mod m" if "0 < m"
proof -
  have "\<lfloor>real_of_int n - real_of_int \<lfloor>real_of_int n / real_of_int m\<rfloor> * real_of_int m\<rfloor> = n - n div m * m"
    using that by (simp add: floor_divide_of_int_eq flip: of_int_mult of_int_diff)
  then show ?thesis
    using that by (simp add: CFDoubleModToInt_def Let_def minus_div_mult_eq_mod not_less)
qed

text \<open>The fields of the time of day, and their sum.\<close>

lemma time_of_day:
  fixes x :: real
  shows "3600 * real_of_int (CFDoubleModToInt (real_of_int \<lfloor>x / 3600\<rfloor>) 24) +
    60 * real_of_int (CFDoubleModToInt (real_of_int \<lfloor>x / 60\<rfloor>) 60) + CFDoubleMod x 60 = x - 86400 * real_of_int \<lfloor>x / 86400\<rfloor>"
    "0 \<le> CFDoubleMod x 60" "CFDoubleMod x 60 < 60"
proof -
  define mi where "mi = \<lfloor>x / 60\<rfloor>"
  have h: "\<lfloor>x / 3600\<rfloor> = mi div 60" "\<lfloor>x / 86400\<rfloor> = mi div 60 div 24"
    using floor_divide_real_eq_div [of 60 "x / 60"] floor_divide_real_eq_div [of 24 "x / 3600"]
    by (simp_all add: mi_def)
  have sec: "0 \<le> x - real_of_int mi * 60" "x - real_of_int mi * 60 < 60"
    using floor_divide_lower [of 60 x] floor_divide_upper [of 60 x] by (simp_all add: mi_def algebra_simps)
  then have s: "CFDoubleMod x 60 = x - real_of_int mi * 60" by (simp add: CFDoubleMod_def Let_def mi_def)
  then show "0 \<le> CFDoubleMod x 60" "CFDoubleMod x 60 < 60" using sec by simp_all
  have "real_of_int (mi div 60 mod 24) = real_of_int (mi div 60) - 24 * real_of_int (mi div 60 div 24)"
    "real_of_int (mi mod 60) = real_of_int mi - 60 * real_of_int (mi div 60)"
    by (simp_all flip: minus_mult_div_eq_mod)
  then show "3600 * real_of_int (CFDoubleModToInt (real_of_int \<lfloor>x / 3600\<rfloor>) 24) +
    60 * real_of_int (CFDoubleModToInt (real_of_int \<lfloor>x / 60\<rfloor>) 60) + CFDoubleMod x 60 = x - 86400 * real_of_int \<lfloor>x / 86400\<rfloor>"
    by (simp add: mod_of_floor s h mi_def [symmetric])
qed

text \<open>The date of a time whose year fits the field.\<close>

lemma get_gregorian_ok:
  assumes "CFYMDFromAbsolute \<lfloor>(t + tz_offset tz t) / 86400\<rfloor> = Some (y, m, d)" "- (2 ^ 31) \<le> y + 2001" "y + 2001 < 2 ^ 31"
  shows "CFAbsoluteTimeGetGregorianDate t tz =
    Some \<lparr>gd_year = y + 2001, gd_month = m, gd_day = d,
          gd_hour = CFDoubleModToInt (real_of_int \<lfloor>(t + tz_offset tz t) / 3600\<rfloor>) 24,
          gd_minute = CFDoubleModToInt (real_of_int \<lfloor>(t + tz_offset tz t) / 60\<rfloor>) 60,
          gd_second = CFDoubleMod (t + tz_offset tz t) 60\<rparr>"
  using assms by (simp add: CFAbsoluteTimeGetGregorianDate_def Let_def SInt32_of_id)

lemma get_absolute_ok:
  assumes "valid_ymd (gd_year g - 2001) (gd_month g) (gd_day g)" "- (2 ^ 31) \<le> gd_year g - 2001" "gd_year g < 2 ^ 31"
  shows "CFGregorianDateGetAbsoluteTime g tz =
    (let t = 86400 * real_of_int (day_number (gd_year g - 2001) (gd_month g) (gd_day g)) +
         (3600 * real_of_int (gd_hour g) + 60 * real_of_int (gd_minute g) + gd_second g)
     in Some (t - tz_offset tz (t - tz_offset tz t)))"
  using assms by (auto simp: CFGregorianDateGetAbsoluteTime_def Let_def s32_Some CFAbsoluteFromYMD_ok valid_ymd_def
      tz_offset_def split: option.split)

text \<open>C31: from times to dates and back.  For a time whose date has a year of 32 bits, the date is valid as
  \<open>CFGregorianDateIsValid\<close> checks it (years of the common era), and \<open>CFGregorianDateGetAbsoluteTime\<close> gives
  the time back without a time zone, and with one when the offset at the local time taken as a first
  guess leads to the offset at the time.\<close>

theorem date_time_round_trip:
  assumes "CFYMDFromAbsolute \<lfloor>(t + tz_offset tz t) / 86400\<rfloor> = Some (y, m, d)" "- (2 ^ 31) + 2001 \<le> y + 2001" "y + 2001 < 2 ^ 31"
    and "tz_offset tz (t + tz_offset tz t - tz_offset tz (t + tz_offset tz t)) = tz_offset tz t"
  shows "\<exists>g. CFAbsoluteTimeGetGregorianDate t tz = Some g \<and> gd_year g = y + 2001 \<and> gd_month g = m \<and> gd_day g = d \<and>
    (0 < gd_year g \<longrightarrow> CFGregorianDateIsValid g flags = Some True) \<and> CFGregorianDateGetAbsoluteTime g tz = Some t"
proof -
  let ?x = "t + tz_offset tz t"
  have v: "valid_ymd y m d" "day_number y m d = \<lfloor>?x / 86400\<rfloor>"
    using CFYMDFromAbsolute_ok [of "\<lfloor>?x / 86400\<rfloor>"] assms(1) by auto
  obtain g where g: "CFAbsoluteTimeGetGregorianDate t tz = Some g"
    "g = \<lparr>gd_year = y + 2001, gd_month = m, gd_day = d, gd_hour = CFDoubleModToInt (real_of_int \<lfloor>?x / 3600\<rfloor>) 24,
          gd_minute = CFDoubleModToInt (real_of_int \<lfloor>?x / 60\<rfloor>) 60, gd_second = CFDoubleMod ?x 60\<rparr>"
    using get_gregorian_ok [OF assms(1)] assms(2,3) by auto
  have "CFGregorianDateGetAbsoluteTime g tz = Some t"
    using get_absolute_ok [of g tz] v assms(2-4) time_of_day(1) [of ?x] by (simp add: g(2) Let_def)
  moreover have "CFGregorianDateIsValid g flags = Some True" if "0 < gd_year g"
  proof -
    have "0 \<le> gd_hour g" "gd_hour g \<le> 23" "0 \<le> gd_minute g" "gd_minute g \<le> 59"
      using pos_mod_bound [of 24 "\<lfloor>?x / 3600\<rfloor>"] pos_mod_bound [of 60 "\<lfloor>?x / 60\<rfloor>"] by (simp_all add: g(2) mod_of_floor)
    moreover have "d \<le> 31" using v(1) month_days_bounds [of m "isleap y"] by (simp add: valid_ymd_def)
    ultimately show ?thesis
      using v(1) that time_of_day(2,3) [of ?x]
      by (auto simp: CFGregorianDateIsValid_def Let_def g(2) valid_ymd_def month_tables)
  qed
  ultimately show ?thesis using g by (intro exI [of _ g]) simp
qed

lemma month_carry:
  fixes n :: int
  assumes "\<bar>n\<bar> \<le> 2 ^ 29 + 11"
  shows "\<bar>n div 12\<bar> \<le> 2 ^ 26" "1 \<le> n mod 12 + 1" "n mod 12 + 1 \<le> 12"
proof -
  obtain r where r: "n = 12 * (n div 12) + r" "r = n mod 12" by simp
  then have "0 \<le> r" "r < 12" by simp_all
  with r(1) show "\<bar>n div 12\<bar> \<le> 2 ^ 26" using assms by (simp add: abs_le_iff)
  show "1 \<le> n mod 12 + 1" "n mod 12 + 1 \<le> 12" by (auto intro: zless_imp_add1_zle)
qed

text \<open>The stage of \<open>CFAbsoluteTimeAddGregorianUnits\<close> that adds years and months, and the one that adds days.\<close>

lemma add_months_ok:
  assumes "1 \<le> m" "m \<le> 12" "\<bar>y + 2001\<bar> \<le> 2 ^ 29" "\<bar>dy\<bar> \<le> 2 ^ 29" "\<bar>dm\<bar> \<le> 2 ^ 29"
    and y2: "y2 = y + dy + (m + dm - 1) div 12" and m2: "m2 = (m + dm - 1) mod 12 + 1"
  shows "\<exists>yo mo. s32 (y + 2001 + dy) = Some (y + 2001 + dy) \<and> s32 (m + dm) = Some (m + dm) \<and>
      months_over (y + 2001 + dy) (m + dm) = Some (yo, mo) \<and> months_under yo mo = Some (y2 + 2001, m2)"
    and "monthdays_of (y2 + 2001) m2 = Some (month_days m2 (isleap y2))" "1 \<le> m2" "m2 \<le> 12"
    and "\<bar>y2 + 2001\<bar> \<le> 2 ^ 30 + 2 ^ 26"
proof -
  have n: "\<bar>m + dm - 1\<bar> \<le> 2 ^ 29 + 11" using assms(1,2,5) by (simp add: abs_le_iff)
  note c = month_carry [OF n]
  show m: "1 \<le> m2" "m2 \<le> 12" using c(2,3) by (simp_all add: m2)
  show y: "\<bar>y2 + 2001\<bar> \<le> 2 ^ 30 + 2 ^ 26" using assms(3,4) c(1) unfolding y2 by (simp add: abs_le_iff)
  show "monthdays_of (y2 + 2001) m2 = Some (month_days m2 (isleap y2))"
    using monthdays_ok [of m2 "y2 + 2001"] m y by (simp add: abs_le_iff)
  show "\<exists>yo mo. s32 (y + 2001 + dy) = Some (y + 2001 + dy) \<and> s32 (m + dm) = Some (m + dm) \<and>
      months_over (y + 2001 + dy) (m + dm) = Some (yo, mo) \<and> months_under yo mo = Some (y2 + 2001, m2)"
    using months_ok [of "y + 2001 + dy" "m + dm"] assms(1-5)
    by (auto intro!: s32_Some simp: abs_le_iff option_bind_eq_Some y2 m2 algebra_simps)
qed

lemma add_days_ok:
  assumes m2: "1 \<le> m2" "m2 \<le> 12" and y2: "\<bar>y2 + 2001\<bar> \<le> 2 ^ 30 + 2 ^ 26" and d2: "\<bar>d2\<bar> \<le> 2 ^ 28 + 31"
  shows "\<exists>ys ms ds yr mr dr. days_over (y2 + 2001) m2 d2 (month_days m2 (isleap y2)) = Some (ys, ms, ds) \<and>
    days_under ys ms ds = Some (yr, mr, dr) \<and> valid_ymd (yr - 2001) mr dr \<and>
    day_number (yr - 2001) mr dr = day_number y2 m2 d2 \<and> - (2 ^ 31) + 2001 \<le> yr \<and> yr < 2 ^ 31"
proof -
  obtain ys ms ds where over: "days_over (y2 + 2001) m2 d2 (month_days m2 (isleap y2)) = Some (ys, ms, ds)" "1 \<le> ms" "ms \<le> 12"
    "ds \<le> month_days ms (isleap (ys - 2001))" "y2 + 2001 \<le> ys" "ys < 2 ^ 31" "day_number (ys - 2001) ms ds = day_number y2 m2 d2"
    "1 \<le> ds \<or> (ys = y2 + 2001 \<and> ds = d2)"
    using days_over_ok [of m2 "y2 + 2001" d2 "month_days m2 (isleap y2)"] m2 y2 d2 by (auto simp: abs_le_iff)
  have "- (2 ^ 31) + 2002 \<le> ys + ds \<or> 1 \<le> ds" using over(8) y2 d2 by (auto simp: abs_le_iff)
  then obtain yr mr dr where under: "days_under ys ms ds = Some (yr, mr, dr)" "valid_ymd (yr - 2001) mr dr"
    "day_number (yr - 2001) mr dr = day_number y2 m2 d2" "yr \<le> ys" "yr = ys \<or> - (2 ^ 31) + 2001 \<le> yr"
    using days_under_ok [OF over(2,3) _ over(6,4)] over(7) by auto
  have "- (2 ^ 31) + 2001 \<le> yr \<and> yr < 2 ^ 31" using under(4,5) over(5,6) y2 by (auto simp: abs_le_iff)
  then show ?thesis using over(1) under(1-3) by blast
qed

text \<open>C17: \<open>CFAbsoluteTimeAddGregorianUnits\<close> without a time zone: years and months are added first, to the year
  and month of the date, with the day clamped to the length of the new month; then the days, as days;
  then the time of day is put back and the rest added as seconds.  This holds for dates and units
  within 2^29, far from the limits of the 32 bit fields, where no addition overflows.\<close>

theorem date_add_units:
  assumes "CFYMDFromAbsolute \<lfloor>t / 86400\<rfloor> = Some (y, m, d)"
    and "\<bar>y + 2001\<bar> \<le> 2 ^ 29" "\<bar>gu_years units\<bar> \<le> 2 ^ 29" "\<bar>gu_months units\<bar> \<le> 2 ^ 29" "\<bar>gu_days units\<bar> \<le> 2 ^ 28"
  shows "CFAbsoluteTimeAddGregorianUnits t None units =
    (let total = m + gu_months units - 1;
         y' = y + gu_years units + total div 12;
         m' = total mod 12 + 1;
         d' = min d (month_days m' (isleap y'))
     in Some (86400 * real_of_int (day_number y' m' d' + gu_days units) + (t - 86400 * real_of_int \<lfloor>t / 86400\<rfloor>) +
         3600 * real_of_int (gu_hours units) + 60 * real_of_int (gu_minutes units) + gu_seconds units))"
proof -
  define m2 where "m2 = (m + gu_months units - 1) mod 12 + 1"
  define y2 where "y2 = y + gu_years units + (m + gu_months units - 1) div 12"
  define md where "md = month_days m2 (isleap y2)"
  define d2 where "d2 = min d md + gu_days units"
  have "valid_ymd y m d" using CFYMDFromAbsolute_ok [of "\<lfloor>t / 86400\<rfloor>"] assms(1) by auto
  then have md1: "1 \<le> m" "m \<le> 12" "1 \<le> d" "d \<le> 31" using month_days_bounds [of m "isleap y"] by (auto simp: valid_ymd_def)
  note months = add_months_ok [OF md1(1,2) assms(2-4) y2_def m2_def]
  have d2: "\<bar>d2\<bar> \<le> 2 ^ 28 + 31" using assms(5) md1 month_days_bounds [OF months(3,4), of "isleap y2"]
    unfolding d2_def md_def [symmetric] by (simp add: abs_le_iff min_def)
  obtain yo mo where sums: "s32 (y + 2001 + gu_years units) = Some (y + 2001 + gu_years units)"
    "s32 (m + gu_months units) = Some (m + gu_months units)"
    "months_over (y + 2001 + gu_years units) (m + gu_months units) = Some (yo, mo)"
    "months_under yo mo = Some (y2 + 2001, m2)" using months(1) by blast
  obtain ys ms ds yr mr dr where days: "days_over (y2 + 2001) m2 d2 md = Some (ys, ms, ds)"
    "days_under ys ms ds = Some (yr, mr, dr)" "valid_ymd (yr - 2001) mr dr"
    "day_number (yr - 2001) mr dr = day_number y2 m2 d2" "- (2 ^ 31) + 2001 \<le> yr" "yr < 2 ^ 31"
    using add_days_ok [OF months(3,4,5) d2] unfolding md_def by blast
  obtain g where g: "CFAbsoluteTimeGetGregorianDate t None = Some g"
    "g = \<lparr>gd_year = y + 2001, gd_month = m, gd_day = d, gd_hour = CFDoubleModToInt (real_of_int \<lfloor>t / 3600\<rfloor>) 24,
          gd_minute = CFDoubleModToInt (real_of_int \<lfloor>t / 60\<rfloor>) 60, gd_second = CFDoubleMod t 60\<rparr>"
    using get_gregorian_ok [of t None y m d] assms(1,2) by (auto simp: tz_offset_def abs_le_iff)
  let ?g = "g\<lparr>gd_year := yr, gd_month := mr, gd_day := dr\<rparr>"
  have again: "CFGregorianDateGetAbsoluteTime ?g None =
      Some (86400 * real_of_int (day_number y2 m2 d2) + (t - 86400 * real_of_int \<lfloor>t / 86400\<rfloor>))"
    using get_absolute_ok [of ?g None] days time_of_day(1) [of t]
    by (auto simp: g(2) tz_offset_def Let_def)
  have gd: "gd_year g = y + 2001" "gd_month g = m" "gd_day g = d" by (simp_all add: g(2))
  have clamp: "(if md < d then md else d) = min d md" and small: "s32 d2 = Some d2"
    using d2 by (auto intro!: s32_Some simp: min_def abs_le_iff)
  have "CFAbsoluteTimeAddGregorianUnits t None units =
      Some (86400 * real_of_int (day_number y2 m2 d2) + (t - 86400 * real_of_int \<lfloor>t / 86400\<rfloor>) +
         3600 * real_of_int (gu_hours units) + 60 * real_of_int (gu_minutes units) + gu_seconds units)"
    unfolding CFAbsoluteTimeAddGregorianUnits_def g(1) Option.bind.bind_lunit Let_def gd sums prod.case
      months(2) [folded md_def] clamp d2_def [symmetric] small days(1,2) again by (rule refl)
  moreover have "day_number y2 m2 d2 = day_number y2 m2 (min d md) + gu_days units" by (simp add: day_number_def d2_def)
  ultimately show ?thesis
    by (simp add: Let_def m2_def [symmetric] y2_def [symmetric] md_def [symmetric])
qed

lemma ymd_example: "CFYMDFromAbsolute 1826 = Some (5, 1, 1)"
proof -
  have v: "valid_ymd 5 1 1" by (simp add: valid_ymd_def month_days_def daysInMonth_def)
  have "day_number 5 1 1 = 1826" by (simp add: day_number_def year_start_def month_start_def daysBeforeMonth_def)
  with CFYMDFromAbsolute_ok [of 1826] day_number_inj [OF _ v] show ?thesis by fastforce
qed

theorem date_round_trip_witness:
  "valid_ymd 5 1 1 \<and> do { a \<leftarrow> CFAbsoluteFromYMD 5 1 1; CFYMDFromAbsolute a } = Some (5, 1, 1) \<and>
    CFAbsoluteFromYMD 5 1 1 = Some 1826"
proof -
  have "valid_ymd 5 1 1" by (simp add: valid_ymd_def month_days_def daysInMonth_def)
  then show ?thesis using date_round_trip [of 1826 5 1 1] ymd_example by simp
qed

theorem date_time_round_trip_witness:
  "\<exists>g. CFAbsoluteTimeGetGregorianDate (86400 * 1826 - 3600) (Some (\<lambda>_. 3600)) = Some g \<and> gd_year g = 2006 \<and>
    CFGregorianDateGetAbsoluteTime g (Some (\<lambda>_. 3600)) = Some (86400 * 1826 - 3600)"
  using date_time_round_trip [of "86400 * 1826 - 3600" "Some (\<lambda>_. 3600)" 5 1 1] ymd_example
  by (auto simp: tz_offset_def)

theorem date_add_units_witness:
  "CFAbsoluteTimeAddGregorianUnits (86400 * 1826) None
     \<lparr>gu_years = 0, gu_months = 1, gu_days = 3, gu_hours = 0, gu_minutes = 0, gu_seconds = 5\<rparr> =
   Some (86400 * (1826 + 31 + 3) + 5)"
  using date_add_units [of "86400 * 1826" 5 1 1
      "\<lparr>gu_years = 0, gu_months = 1, gu_days = 3, gu_hours = 0, gu_minutes = 0, gu_seconds = 5\<rparr>"] ymd_example
  by (simp add: Let_def day_number_def year_start_def month_start_def daysBeforeMonth_def month_days_def daysInMonth_def)

subsection \<open>Weekdays and weeks\<close>

text \<open>
  The ISO 8601 week of a day: the week runs from Monday to Sunday, and belongs to the year its Thursday
  is in; \<open>iso_week a y w\<close>: day \<open>a\<close> is in week \<open>w\<close> of the year \<open>y\<close>.
\<close>

definition iso_week :: "int \<Rightarrow> int \<Rightarrow> int \<Rightarrow> bool" where
  "iso_week a y w \<longleftrightarrow>
     (let thursday = a - a mod 7 + 3 in
      year_start y \<le> thursday \<and> thursday < year_start (y + 1) \<and> w = (thursday - year_start y) div 7 + 1)"

lemma smod_7: "- 10 \<le> x \<Longrightarrow> x \<le> - 4 \<Longrightarrow> x smod 7 = (if x < - 6 then x + 7 else x)" for x :: int
proof -
  assume "- 10 \<le> x" "x \<le> - 4"
  then have "x \<in> {- 10, - 9, - 8, - 7, - 6, - 5, - 4}" by (simp, presburger)
  then show ?thesis by (auto simp: signed_modulo_int_def)
qed

lemma day_of_week_mod: "(if a < 0 then (a + 1) smod 7 + 7 else a smod 7 + 1) = a mod 7 + 1" for a :: int
proof (cases "a < 0")
  case False
  then show ?thesis by (auto simp: signed_modulo_int_def sgn_if)
next
  case True
  have "- (a + 1) = - a - 1" by simp
  then have "(a + 1) smod 7 = - ((- a - 1) mod 7)" using True by (auto simp: signed_modulo_int_def sgn_if)
  moreover have "a mod 7 = 6 - (- a - 1) mod 7" by presburger
  ultimately show ?thesis using True by simp
qed

text \<open>The three cases of the code in terms of the position \<open>k\<close> in the year and of the weekday \<open>s\<close> of its first day.\<close>

lemma week_before: "0 \<le> k \<Longrightarrow> 0 \<le> s \<Longrightarrow> s < 7 \<Longrightarrow>
    (k < 3 \<and> (5 = s + 1 \<or> k < 2 \<and> 6 = s + 1 \<or> k < 1 \<and> 7 = s + 1)) \<longleftrightarrow> k - (s + k) mod 7 + 3 < (0 :: int)"
  by presburger

lemma week_after: "0 \<le> j \<Longrightarrow> 0 \<le> s \<Longrightarrow> s < 7 \<Longrightarrow>
    (j < 3 \<and> (4 = s + 1 \<or> j < 2 \<and> 3 = s + 1 \<or> j < 1 \<and> 2 = s + 1)) \<longleftrightarrow> - 1 - j - (s - 1 - j) mod 7 + 3 \<ge> (0 :: int)"
proof -
  assume a: "0 \<le> j" "0 \<le> s" "s < 7"
  show ?thesis
  proof (cases "j < 3")
    case True
    then have "j \<in> {0, 1, 2}" "s \<in> {0, 1, 2, 3, 4, 5, 6}" using a by (simp, presburger)+
    then show ?thesis by auto
  next
    case False
    moreover have "0 \<le> (s - 1 - j) mod 7" by simp
    ultimately show ?thesis by linarith
  qed
qed

lemma week_inside:
  assumes "0 \<le> k" "0 \<le> s" "s < 7" "0 \<le> k - (s + k) mod 7 + 3"
  shows "(k + 1 + (s + 1 - 11) smod 7 + 2) sdiv 7 + 1 = (k - (s + k) mod 7 + 3) div 7 + (1 :: int)"
proof -
  define v where "v = (s - 10) smod 7"
  have v: "v = (if s < 4 then s - 3 else s - 10)" using smod_7 [of "s - 10"] assms by (simp add: v_def)
  define q where "q = (s + k) div 7"
  define r where "r = (s + k) mod 7"
  have qr: "k = 7 * q + r - s" "0 \<le> r" "r < 7" by (simp_all add: q_def r_def)
  have nonneg: "0 \<le> k + 3 + v"
  proof (cases "s < 4")
    case False
    then have "0 < 7 * q" using assms(4) qr unfolding r_def [symmetric] by linarith
    then have "1 \<le> q" by simp
    then show ?thesis using False qr v by simp
  qed (use assms v in simp)
  then have "(k + 1 + (s + 1 - 11) smod 7 + 2) sdiv 7 = (k + 3 + v) div 7"
    by (simp add: signed_divide_int_eq_divide_int sgn_if v_def algebra_simps)
  also have "\<dots> = (if s < 4 then q else q - 1)"
    using qr v by (intro int_div_pos_eq [where r = r]) (auto simp: algebra_simps)
  also have "\<dots> = (k - r + 3) div 7"
    using qr assms by (intro int_div_pos_eq [where r = "if s < 4 then 3 - s else 10 - s", symmetric]) (auto simp: algebra_simps)
  finally show ?thesis by (simp add: r_def)
qed

lemma last_days_of_december: "month_start 12 l = 334 + of_bool l" "month_days 12 l = 31"
  "month_start 1 l = 0" "month_days 1 l = 31"
  by (simp_all add: month_start_def month_days_def daysBeforeMonth_def daysInMonth_def)

lemma january_days:
  assumes "1 \<le> m" "m \<le> 12" "1 \<le> d" "d \<le> month_days m l"
  shows "(1 = m \<and> d < 4) \<longleftrightarrow> month_start m l + d - 1 < 3"
proof (cases "m = 1")
  case False
  then have "31 \<le> month_start m l" using month_start_mono [of 1 m l] assms last_days_of_december by simp
  then show ?thesis using False assms by simp
qed (simp add: last_days_of_december)

lemma december_days:
  assumes "1 \<le> m" "m \<le> 12" "1 \<le> d" "d \<le> month_days m l"
  shows "(12 = m \<and> 28 < d) \<longleftrightarrow> 365 + of_bool l - 1 - (month_start m l + d - 1) < 3"
proof (cases "m = 12")
  case False
  then have "month_start m l + month_days m l \<le> 334 + of_bool l"
    using month_start_mono [of m 12 l] assms last_days_of_december by simp
  then show ?thesis using False assms by simp
qed (simp add: last_days_of_december)

lemma week_of_year_ok:
  assumes ymd: "CFYMDFromAbsolute \<lfloor>(t + tz_offset tz t) / 86400\<rfloor> = Some (y, m, d)"
    and a: "a = \<lfloor>(t + tz_offset tz t) / 86400\<rfloor>"
  shows "\<exists>y' w. iso_week a y' w \<and> CFAbsoluteTimeGetWeekOfYear t tz = Some (if y' < y then 53 else w) \<and>
    (y' < y \<longrightarrow> w = 52 \<or> w = 53)"
proof -
  have v: "1 \<le> m" "m \<le> 12" "1 \<le> d" "d \<le> month_days m (isleap y)" "day_number y m d = a"
    using CFYMDFromAbsolute_ok [of a] ymd a by (auto simp: valid_ymd_def)
  define s where "s = year_start y mod 7"
  define k where "k = month_start m (isleap y) + d - 1"
  define len where "len = 365 + (of_bool (isleap y) :: int)"
  define j where "j = len - 1 - k"
  define s2 where "s2 = year_start (y + 1) mod 7"
  have s: "0 \<le> s" "s < 7" "0 \<le> s2" "s2 < 7" by (simp_all add: s_def s2_def)
  have next_year: "year_start (y + 1) = year_start y + len" by (simp add: year_start_next len_def)
  have ak: "a = year_start y + k" using v(5) by (simp add: day_number_def k_def)
  have k: "0 \<le> k" "0 \<le> j"
    using valid_ymd_year [of y m d] v next_year by (auto simp: valid_ymd_def ak j_def)
  have amod: "a mod 7 = (s + k) mod 7" "a mod 7 = (s2 - 1 - j) mod 7"
  proof -
    show "a mod 7 = (s + k) mod 7" by (simp add: ak s_def mod_simps)
    have "a = year_start (y + 1) + (- 1 - j)" by (simp add: ak next_year j_def)
    then have "a mod 7 = (s2 + (- 1 - j)) mod 7" unfolding s2_def by (simp only: mod_add_left_eq)
    then show "a mod 7 = (s2 - 1 - j) mod 7" by (simp add: algebra_simps)
  qed
  define th where "th = a - a mod 7 + 3"
  have th: "th - year_start y = k - (s + k) mod 7 + 3"
    "th - year_start (y + 1) = - 1 - j - (s2 - 1 - j) mod 7 + 3"
    unfolding amod(1) [symmetric] amod(2) [symmetric] by (simp_all add: th_def j_def next_year) (simp_all add: ak)
  have firsts: "CFAbsoluteFromYMD y 1 1 = Some (year_start y)" for y
    by (simp add: CFAbsoluteFromYMD_ok day_number_def last_days_of_december)
  have tab: "CFDaysBeforeMonth m y (isleap y) = Some (month_start m (isleap y))" using v by (intro month_tables) auto
  have first: "(1 = m \<and> d < 4 \<and> (d < 4 \<and> 5 = s + 1 \<or> d < 3 \<and> 6 = s + 1 \<or> d < 2 \<and> 7 = s + 1)) \<longleftrightarrow> th < year_start y"
  proof -
    have "(1 = m \<and> d < 4 \<and> (d < 4 \<and> 5 = s + 1 \<or> d < 3 \<and> 6 = s + 1 \<or> d < 2 \<and> 7 = s + 1)) \<longleftrightarrow>
        k < 3 \<and> (5 = s + 1 \<or> k < 2 \<and> 6 = s + 1 \<or> k < 1 \<and> 7 = s + 1)"
    proof (cases "m = 1")
      case True
      then have "d = k + 1" by (simp add: k_def last_days_of_december)
      then show ?thesis unfolding True by auto
    next
      case False
      then have "\<not> k < 3" using january_days [OF v(1-4)] unfolding k_def [symmetric] by simp
      then show ?thesis using False by simp
    qed
    moreover have "k - (s + k) mod 7 + 3 < 0 \<longleftrightarrow> th < year_start y" using th(1) by linarith
    ultimately show ?thesis by (rule trans [OF _ trans [OF week_before [OF k(1) s(1,2)]]])
  qed
  have last: "(12 = m \<and> 28 < d \<and> (28 < d \<and> 4 = s2 + 1 \<or> 29 < d \<and> 3 = s2 + 1 \<or> 30 < d \<and> 2 = s2 + 1)) \<longleftrightarrow> year_start (y + 1) \<le> th"
  proof -
    have "(12 = m \<and> 28 < d \<and> (28 < d \<and> 4 = s2 + 1 \<or> 29 < d \<and> 3 = s2 + 1 \<or> 30 < d \<and> 2 = s2 + 1)) \<longleftrightarrow>
        j < 3 \<and> (4 = s2 + 1 \<or> j < 2 \<and> 3 = s2 + 1 \<or> j < 1 \<and> 2 = s2 + 1)"
    proof (cases "m = 12")
      case True
      then have "d = 31 - j" by (simp add: j_def k_def len_def last_days_of_december)
      then show ?thesis unfolding True by auto
    next
      case False
      then have "\<not> j < 3" using december_days [OF v(1-4)] unfolding k_def [symmetric] len_def [symmetric] j_def [symmetric] by simp
      then show ?thesis using False by simp
    qed
    moreover have "- 1 - j - (s2 - 1 - j) mod 7 + 3 \<ge> 0 \<longleftrightarrow> year_start (y + 1) \<le> th" using th(2) by linarith
    ultimately show ?thesis by (rule trans [OF _ trans [OF week_after [OF k(2) s(3,4)]]])
  qed
  have iso: "iso_week a y' w \<longleftrightarrow> year_start y' \<le> th \<and> th < year_start (y' + 1) \<and> w = (th - year_start y') div 7 + 1" for y' w
    by (simp add: iso_week_def th_def Let_def)
  have code: "CFAbsoluteTimeGetWeekOfYear t tz =
     Some (if th < year_start y then 53 else if year_start (y + 1) \<le> th then 1 else (th - year_start y) div 7 + 1)"
  proof -
    have mods: "CFDoubleModToInt (real_of_int (year_start y)) 7 + 1 = s + 1"
      "CFDoubleModToInt (real_of_int (year_start (y + 1))) 7 + 1 = s2 + 1"
      by (simp_all add: mod_of_floor s_def s2_def)
    have inside: "(month_start m (isleap y) + d + (s + 1 - 11) smod 7 + 2) sdiv 7 + 1 = (th - year_start y) div 7 + 1"
      if "year_start y \<le> th"
    proof -
      have "month_start m (isleap y) + d = k + 1" by (simp add: k_def)
      then show ?thesis using week_inside [OF k(1) s(1,2)] that th(1) by simp
    qed
    have next_week: "(if 12 = m \<and> 28 < d then do { absolute20101 \<leftarrow> CFAbsoluteFromYMD (y + 1) 1 1;
          Some (28 < d \<and> 4 = CFDoubleModToInt (real_of_int absolute20101) 7 + 1 \<or>
                29 < d \<and> 3 = CFDoubleModToInt (real_of_int absolute20101) 7 + 1 \<or>
                30 < d \<and> 2 = CFDoubleModToInt (real_of_int absolute20101) 7 + 1) }
        else Some False) = Some (year_start (y + 1) \<le> th)"
      unfolding firsts Option.bind.bind_lunit mods using last by auto
    show ?thesis
      unfolding CFAbsoluteTimeGetWeekOfYear_def Let_def ymd Option.bind.bind_lunit prod.case firsts [of y] mods first
        next_week tab
      using inside by auto
  qed
  show ?thesis
  proof -
    have near: "- 3 \<le> th - a" "th - a \<le> 3"
      using pos_mod_bound [of 7 a] pos_mod_sign [of 7 a] by (simp_all add: th_def del: pos_mod_sign pos_mod_bound)
    consider "th < year_start y" | "year_start (y + 1) \<le> th" | "year_start y \<le> th" "th < year_start (y + 1)" by linarith
    then show ?thesis
    proof cases
      case 1
      then have "iso_week a (y - 1) ((th - year_start (y - 1)) div 7 + 1)"
        unfolding iso using near k ak year_start_prev [of y] by (cases "isleap (y - 1)") auto
      moreover have "(th - year_start (y - 1)) div 7 + 1 = 52 \<or> (th - year_start (y - 1)) div 7 + 1 = 53"
      proof -
        have "362 \<le> th - year_start (y - 1)" "th - year_start (y - 1) < 366"
          using 1 near k ak year_start_prev [of y] by (cases "isleap (y - 1)", auto)
        then show ?thesis by presburger
      qed
      moreover have "CFAbsoluteTimeGetWeekOfYear t tz = Some 53" using code 1 by simp
      ultimately show ?thesis
        by - (rule exI [of _ "y - 1"], rule exI [of _ "(th - year_start (y - 1)) div 7 + 1"], auto)
    next
      case 2
      have "(th - year_start (y + 1)) div 7 = 0" using 2 near k ak by (simp add: j_def next_year)
      then have "iso_week a (y + 1) 1"
        unfolding iso using 2 near k ak year_start_next [of "y + 1"] by (simp add: j_def next_year)
      moreover have "CFAbsoluteTimeGetWeekOfYear t tz = Some (if y + 1 < y then 53 else 1)"
        using code 2 by (cases "isleap y") (simp_all add: next_year len_def)
      ultimately show ?thesis by - (rule exI [of _ "y + 1"], rule exI [of _ 1], auto)
    next
      case 3
      then have "iso_week a y ((th - year_start y) div 7 + 1)" by (simp add: iso)
      moreover have "CFAbsoluteTimeGetWeekOfYear t tz = Some (if y < y then 53 else (th - year_start y) div 7 + 1)"
        using code 3 by simp
      ultimately show ?thesis by - (rule exI [of _ y], rule exI [of _ "(th - year_start y) div 7 + 1"], auto)
    qed
  qed
qed

text \<open>the day of the week counts from 1 for Monday, also for days before 2001, and the day of the year from
  1 for the first of January; the month and day of the date determine it.\<close>

theorem date_day_fields:
  "(let a = \<lfloor>(t + tz_offset tz t) / 86400\<rfloor> in
     CFAbsoluteTimeGetDayOfWeek t tz = a mod 7 + 1 \<and>
     (case CFYMDFromAbsolute a of None \<Rightarrow> False
      | Some (y, m, d) \<Rightarrow> CFAbsoluteTimeGetDayOfYear t tz = Some (a - year_start y + 1) \<and>
          0 \<le> a - year_start y \<and> a - year_start y < 365 + of_bool (isleap y)))"
proof -
  define a where "a = \<lfloor>(t + tz_offset tz t) / 86400\<rfloor>"
  obtain y m d where ymd: "CFYMDFromAbsolute a = Some (y, m, d)" "valid_ymd y m d" "day_number y m d = a"
    using CFYMDFromAbsolute_ok by blast
  have tab: "CFDaysBeforeMonth m y (isleap y) = Some (month_start m (isleap y))"
    using ymd(2) by (intro month_tables) (auto simp: valid_ymd_def)
  have "CFAbsoluteTimeGetDayOfYear t tz = Some (a - year_start y + 1)"
    using ymd tab by (simp add: CFAbsoluteTimeGetDayOfYear_def Let_def a_def [symmetric]) (simp add: day_number_def)
  moreover have "0 \<le> a - year_start y" "a - year_start y < 365 + of_bool (isleap y)"
    using valid_ymd_year [OF ymd(2)] ymd(3) year_start_next [of y] by simp_all
  moreover have "CFAbsoluteTimeGetDayOfWeek t tz = a mod 7 + 1"
    using day_of_week_mod [of a] by (simp only: CFAbsoluteTimeGetDayOfWeek_def Let_def a_def [symmetric])
  ultimately show ?thesis using ymd(1) by (simp only: Let_def a_def [symmetric] option.case prod.case)
qed

text \<open>the week of the year is the one of ISO 8601, for every day but those of January that belong to the
  last week of the year before.  For these the code always answers 53, although that week is the 52nd
  for many years: the first of January 2006 is in week 52 of 2005.\<close>

theorem week_of_year:
  "case CFYMDFromAbsolute \<lfloor>(t + tz_offset tz t) / 86400\<rfloor> of None \<Rightarrow> False
    | Some (y, m, d) \<Rightarrow> \<exists>y' w. iso_week \<lfloor>(t + tz_offset tz t) / 86400\<rfloor> y' w \<and>
        CFAbsoluteTimeGetWeekOfYear t tz = Some (if y' < y then 53 else w) \<and> (y' < y \<longrightarrow> w = 52 \<or> w = 53)"
proof -
  obtain y m d where ymd: "CFYMDFromAbsolute \<lfloor>(t + tz_offset tz t) / 86400\<rfloor> = Some (y, m, d)"
    using CFYMDFromAbsolute_ok by blast
  then show ?thesis using week_of_year_ok [OF ymd refl] by simp
qed

theorem week_of_year_witness:
  "CFAbsoluteTimeGetWeekOfYear (86400 * 1826) None = Some 53 \<and> iso_week 1826 4 52"
proof
  show iso: "iso_week 1826 4 52" by (simp add: iso_week_def year_start_def)
  have "CFYMDFromAbsolute \<lfloor>(86400 * 1826 + tz_offset None (86400 * 1826)) / 86400\<rfloor> = Some (5, 1, 1)"
    "\<lfloor>(86400 * 1826 + tz_offset None (86400 * 1826)) / 86400\<rfloor> = 1826"
    by (simp_all add: tz_offset_def ymd_example)
  then obtain y' w where w: "iso_week 1826 y' w"
    "CFAbsoluteTimeGetWeekOfYear (86400 * 1826) None = Some (if y' < 5 then 53 else w)"
    using week_of_year [of "86400 * 1826" None] by auto
  have "y' < 5"
  proof (rule ccontr)
    assume "\<not> y' < 5"
    then have "year_start 5 \<le> year_start y'" using year_start_mono [of 4 y'] by simp
    then show False using w(1) by (simp add: iso_week_def year_start_def)
  qed
  then show "CFAbsoluteTimeGetWeekOfYear (86400 * 1826) None = Some 53" using w(2) by simp
qed

text \<open>comparing dates.  Equality and the order of \<open>CFDateCompare\<close> agree with the sign of the interval between
  the dates.\<close>

theorem date_compare:
  "CFDateCompare d1 d2 = (if CFDateGetTimeIntervalSinceDate d1 d2 < 0 then kCFCompareLessThan
     else if CFDateGetTimeIntervalSinceDate d1 d2 > 0 then kCFCompareGreaterThan else kCFCompareEqualTo) \<and>
   CFDateCompare d2 d1 = - CFDateCompare d1 d2 \<and> (CFDateEqual d1 d2 \<longleftrightarrow> CFDateCompare d1 d2 = kCFCompareEqualTo)"
  by (simp add: CFDateCompare_def CFDateGetTimeIntervalSinceDate_def CFDateEqual_def)

end
