(* ===== verification/CF_DateOrder.thy ===== *)
theory CF_DateOrder
  imports CF_Date CF_Sort CF_BinaryHeap
begin

text \<open>
  Dates as values that the other components order: \<open>CFDateCompare\<close> is a comparator for the sorting
  functions (CFSortFunctions.c) and the \<open>compare\<close> callback of a heap (CFBinaryHeap.c), and it decides
  the linear order of dates by their times, so that both give what \<open>sort\<close> of the library gives.
\<close>

subsection \<open>The linear order of dates\<close>

instantiation CFDate_ext :: (linorder) linorder
begin

definition less_eq_CFDate_ext :: "'a CFDate_ext \<Rightarrow> 'a CFDate_ext \<Rightarrow> bool" where
  "less_eq_CFDate_ext d e \<longleftrightarrow>
     date_time d < date_time e \<or> date_time d = date_time e \<and> CFDate.more d \<le> CFDate.more e"

definition less_CFDate_ext :: "'a CFDate_ext \<Rightarrow> 'a CFDate_ext \<Rightarrow> bool" where
  "less_CFDate_ext d e \<longleftrightarrow>
     date_time d < date_time e \<or> date_time d = date_time e \<and> CFDate.more d < CFDate.more e"

instance
proof
  fix x y z :: "'a CFDate_ext"
  show "x < y \<longleftrightarrow> x \<le> y \<and> \<not> y \<le> x" by (auto simp: less_eq_CFDate_ext_def less_CFDate_ext_def)
  show "x \<le> x" by (simp add: less_eq_CFDate_ext_def)
  show "x \<le> y \<Longrightarrow> y \<le> z \<Longrightarrow> x \<le> z" by (auto simp: less_eq_CFDate_ext_def)
  show "x \<le> y \<Longrightarrow> y \<le> x \<Longrightarrow> x = y" by (cases x; cases y) (auto simp: less_eq_CFDate_ext_def)
  show "x \<le> y \<or> y \<le> x" by (auto simp: less_eq_CFDate_ext_def)
qed

end

lemma date_le_iff: "d \<le> e \<longleftrightarrow> date_time d \<le> date_time e" for d e :: CFDate
  by (auto simp: less_eq_CFDate_ext_def)

lemma date_less_iff: "d < e \<longleftrightarrow> date_time d < date_time e" for d e :: CFDate
  by (auto simp: less_CFDate_ext_def)

lemma date_eq_iff: "d = e \<longleftrightarrow> date_time d = date_time e" for d e :: CFDate
  by (cases d; cases e) simp

lemma CFDateCompare_order:
  "CFDateCompare d e = (if d < e then kCFCompareLessThan else if e < d then kCFCompareGreaterThan else kCFCompareEqualTo)"
  by (simp add: CFDateCompare_def date_less_iff)

interpretation dates: strict_comparator CFDateCompare
  by unfold_locales (auto simp: CFDateCompare_order split: if_splits)

lemma dates_le: "CFDateCompare d e \<le> 0 \<longleftrightarrow> d \<le> e"
  by (auto simp: CFDateCompare_order)

lemma stable_sort_dates: "stable_sort_of CFDateCompare ds es \<Longrightarrow> es = sort ds"
  using properties_for_sort [of es ds] by (simp add: stable_sort_of_def dates_le)

subsection \<open>Sorting and heaps of dates\<close>

definition date_callback :: "(CFDate \<Rightarrow> CFDate \<Rightarrow> unit \<Rightarrow> CFComparisonResult) callback" where
  "date_callback = \<lparr>cb_addr = 1, cb_fun = (\<lambda>d e _. CFDateCompare d e)\<rparr>"

definition two_dates :: "CFDate list" where
  "two_dates = [CFDateCreate 5, CFDateCreate (- 1)]"

lemma two_dates: "length two_dates = 2" "sort two_dates = [CFDateCreate (- 1), CFDateCreate 5]"
  by (simp_all add: two_dates_def CFDateCreate_def date_le_iff)

lemma date_heap:
  assumes "length ds < 2 ^ 30"
  shows "\<exists>h. CFBinaryHeapInit fresh ds (length ds) None None (Some date_callback) () = Some h \<and> heap_inv h \<and>
    heap_gt h = (\<lambda>d e. e < d) \<and> heap_mset h = mset ds \<and> hp_retain h = None"
proof -
  let ?e = "empty_heap fresh None None (Some date_callback) ()"
  have gt: "heap_gt ?e = (\<lambda>d e. e < d)"
    by (auto simp: heap_gt_def empty_heap_def date_callback_def CFDateCompare_order fun_eq_iff split: if_splits)
  have order: "heap_order (heap_gt ?e)" unfolding gt by unfold_locales auto
  have retain: "retain_compatible ?e" by (simp add: retain_compatible_def empty_heap_def)
  obtain h where h: "CFBinaryHeapInit fresh ds (length ds) None None (Some date_callback) () = Some h" "heap_inv h"
    "same_callbacks ?e h" "heap_mset h = image_mset (stored_value h) (mset (take (length ds) ds))"
    using Init_inv [OF order retain le_refl assms] by blast
  have none: "hp_retain h = None" using h(3) by (simp add: same_callbacks_def empty_heap_def)
  have "heap_gt h = (\<lambda>d e. e < d)" using heap_gt_cong [OF h(3)] gt by simp
  then show ?thesis using h none by (simp add: stored_value_none)
qed

text \<open>sorting dates.  \<open>CFQSortArray\<close> on an array of pointers, with \<open>CFDateCompare\<close> as the comparator leaves the dates in the order of their times.\<close>

theorem date_sort:
  assumes "2 \<le> length ds" "length ds \<le> INTPTR_MAX div 8"
  shows "CFQSortPointers fresh freshp ds (length ds) CFDateCompare = Some (sort ds)"
proof -
  obtain es where "CFQSortPointers fresh freshp ds (length ds) CFDateCompare = Some es" "stable_sort_of CFDateCompare ds es"
    using QSortPointers_correct [OF dates.comparator_axioms assms] by blast
  then show ?thesis using stable_sort_dates by blast
qed

theorem date_sort_witness:
  "CFQSortPointers (\<lambda>_. 0) (\<lambda>_. CFDateCreate 0) two_dates 2 CFDateCompare = Some [CFDateCreate (- 1), CFDateCreate 5]"
  using date_sort [of two_dates "\<lambda>_. 0" "\<lambda>_. CFDateCreate 0", unfolded two_dates] by (simp add: INTPTR_MAX_def)

text \<open>C27: a heap of dates.  Putting dates into a heap that compares with \<open>CFDateCompare\<close> and getting its values
  gives the dates in the order of their times.\<close>

theorem date_heap_sorts:
  assumes "length ds < 2 ^ 30"
  shows "do { h \<leftarrow> CFBinaryHeapInit fresh ds (length ds) None None (Some date_callback) ();
              CFBinaryHeapGetValues fresh h } = Some (sort ds)"
proof -
  obtain h where h: "CFBinaryHeapInit fresh ds (length ds) None None (Some date_callback) () = Some h" "heap_inv h"
    "heap_gt h = (\<lambda>d e. e < d)" "heap_mset h = mset ds" "hp_retain h = None"
    using date_heap [OF assms] by blast
  have "hp_count h = length ds" using heap_inv_count [OF h(2)] h(4) by simp
  then obtain es where es: "CFBinaryHeapGetValues fresh h = Some es" "mset es = image_mset (stored_value h) (heap_mset h)"
    "sorted_wrt (\<lambda>a b. \<not> heap_gt h a b) es"
    using GetValues_drain [OF h(2), of fresh] assms
    by (auto simp: CFBinaryHeapGetValues_def)
  have "es = sort ds"
    using es(2,3) h(3,4) by (intro properties_for_sort [symmetric]) (simp_all add: stored_value_none [OF h(5)] not_less)
  then show ?thesis using h(1) es(1) by simp
qed

theorem date_heap_sorts_witness:
  "do { h \<leftarrow> CFBinaryHeapInit (\<lambda>_. CFDateCreate 0) two_dates 2 None None (Some date_callback) ();
        CFBinaryHeapGetValues (\<lambda>_. CFDateCreate 0) h } = Some [CFDateCreate (- 1), CFDateCreate 5]"
  using date_heap_sorts [of two_dates "\<lambda>_. CFDateCreate 0", unfolded two_dates] by simp

end
