(* ===== verification/CF_Runtime.thy ===== *)
theory CF_Runtime
  imports CF_Prelude
begin

text \<open>
  CFRuntime.c: the table of classes, the header of an instance, and the polymorphic functions that
  dispatch through the class of their argument.  The build modelled is the one of the portable
  sources: no garbage collector, no Objective-C bridge, 32-bit words (\<open>__LP64__\<close> not set), on which
  the reference count lives in the top byte of the header word \<open>_cfinfo\<close>.

  A record \<open>runtime\<close> is the state of the file: the class table, the number of registered classes and
  the default allocator of the thread.  Class callbacks are functions or absent; what they compute is
  a parameter.  The log messages of failed calls and the spin lock around the table (its
  operations are modelled as atomic) are left out.
\<close>

subsection \<open>Classes and their table\<close>

datatype CFAllocatorRef = NULL_allocator | SystemDefault | AllocatorNull | OtherAllocator nat

record CFRuntimeClass =
  cls_version :: "32 word"
  cls_init :: bool
  cls_equal :: "(nat \<Rightarrow> nat \<Rightarrow> bool) option"
  cls_hash :: "(nat \<Rightarrow> nat) option"
  cls_refcount :: bool

record runtime =
  rt_table :: "CFRuntimeClass option list"
  rt_count :: int
  rt_default :: CFAllocatorRef

definition kCFRuntimeNotATypeID :: nat where
  "kCFRuntimeNotATypeID = 0"

definition kCFRuntimeCustomRefCount :: "32 word" where
  "kCFRuntimeCustomRefCount = push_bit 3 1"

definition CFMaxRuntimeTypes :: int where
  "CFMaxRuntimeTypes = 65535"

definition CFRuntimeClassTableSize :: nat where
  "CFRuntimeClassTableSize = 1024"

lemmas runtime_consts = kCFRuntimeNotATypeID_def CFMaxRuntimeTypes_def CFRuntimeClassTableSize_def

definition custom_ref_count :: "CFRuntimeClass \<Rightarrow> bool" where
  "custom_ref_count cls \<longleftrightarrow> cls_version cls AND kCFRuntimeCustomRefCount \<noteq> 0"

definition CFRuntimeRegisterClass :: "CFRuntimeClass \<Rightarrow> runtime \<Rightarrow> (nat \<times> runtime) option" where
  "CFRuntimeRegisterClass cls rt =
     (if custom_ref_count cls \<and> \<not> cls_refcount cls then Some (kCFRuntimeNotATypeID, rt)
      else if CFMaxRuntimeTypes \<le> rt_count rt then Some (kCFRuntimeNotATypeID, rt)
      else if int CFRuntimeClassTableSize \<le> rt_count rt then Some (kCFRuntimeNotATypeID, rt)
      else do {
        table \<leftarrow> wri (rt_table rt) (rt_count rt) (Some cls);
        let rt = rt\<lparr>rt_table := table, rt_count := rt_count rt + 1\<rparr>;
        Some (nat (rt_count rt - 1), rt) })"

definition CFRuntimeGetClassWithTypeID :: "nat \<Rightarrow> runtime \<Rightarrow> CFRuntimeClass option option" where
  "CFRuntimeGetClassWithTypeID typeID rt = rd (rt_table rt) typeID"

definition CFRuntimeUnregisterClassWithTypeID :: "nat \<Rightarrow> runtime \<Rightarrow> runtime option" where
  "CFRuntimeUnregisterClassWithTypeID typeID rt = do {
     table \<leftarrow> wr (rt_table rt) typeID None;
     Some (rt\<lparr>rt_table := table\<rparr>) }"

subsection \<open>Instances\<close>

text \<open>
  The header word: the reference count in bits 24 to 31, the mark of a custom reference count in
  bit 23, the type in bits 8 to 17, the mark of the system default allocator in bit 7, and seven bits
  for the class.
\<close>

definition header_word :: "32 word \<Rightarrow> bool \<Rightarrow> nat \<Rightarrow> bool \<Rightarrow> 32 word" where
  "header_word rc customRC typeID usesSystemDefaultAllocator =
     push_bit 24 rc OR (if customRC then 0x800000 else 0) OR push_bit 8 (word_of_nat typeID) OR
     (if usesSystemDefaultAllocator then 0x80 else 0)"

definition CFGenericTypeID :: "32 word \<Rightarrow> nat" where
  "CFGenericTypeID cfinfo = unat (drop_bit 8 cfinfo AND 0x03FF)"

record instance_block =
  ib_size :: int
  ib_offset :: int
  ib_allocator :: "CFAllocatorRef option"
  ib_cfinfo :: "32 word"
  ib_inited :: bool

definition CFAllocatorIsSystemDefault :: "CFAllocatorRef \<Rightarrow> runtime \<Rightarrow> bool" where
  "CFAllocatorIsSystemDefault allocator rt =
     (if allocator = SystemDefault then True
      else if allocator = NULL_allocator then SystemDefault = rt_default rt
      else False)"

text \<open>
  \<open>CFRetain\<close> of an allocator, of which only the check is of interest here: it halts on \<open>NULL\<close>.
\<close>

definition retain_allocator :: "CFAllocatorRef \<Rightarrow> CFAllocatorRef option" where
  "retain_allocator allocator = (if allocator = NULL_allocator then None else Some allocator)"

text \<open>
  \<open>_CFRuntimeCreateInstance\<close>.  \<open>alloc\<close> says for which allocators and sizes \<open>CFAllocatorAllocate\<close>
  returns memory; the result \<open>Some None\<close> is the null pointer, and \<open>None\<close> a halt.
\<close>

definition CFRuntimeCreateInstance ::
    "(CFAllocatorRef \<Rightarrow> int \<Rightarrow> bool) \<Rightarrow> runtime \<Rightarrow> CFAllocatorRef \<Rightarrow> nat \<Rightarrow> int \<Rightarrow> instance_block option option" where
  "CFRuntimeCreateInstance alloc rt allocator typeID extraBytes =
     (if CFRuntimeClassTableSize \<le> typeID then None
      else do {
        cls \<leftarrow> rd (rt_table rt) typeID;
        case cls of
          None \<Rightarrow> Some None
        | Some cls \<Rightarrow>
           (let customRC = custom_ref_count cls in
            if customRC \<and> \<not> cls_refcount cls then Some None
            else
              let realAllocator = allocator in
              if realAllocator = AllocatorNull then Some None
              else
                let usesSystemDefaultAllocator = CFAllocatorIsSystemDefault realAllocator rt;
                    size = 8 + extraBytes + (if usesSystemDefaultAllocator then 0 else 4);
                    size = (size + 0xF) AND NOT 0xF
                in
                if \<not> alloc allocator size then Some None
                else do {
                  stored \<leftarrow> (if usesSystemDefaultAllocator then Some None
                             else do { a \<leftarrow> retain_allocator realAllocator; Some (Some a) });
                  let rc = (if customRC then 0xFF else 1);
                  Some (Some \<lparr>ib_size = size, ib_offset = (if usesSystemDefaultAllocator then 0 else 4),
                    ib_allocator = stored,
                    ib_cfinfo = header_word rc customRC typeID usesSystemDefaultAllocator,
                    ib_inited = cls_init cls\<rparr>) }) })"

text \<open>\<open>_CFRuntimeInitStaticInstance\<close>: the new header word and whether \<open>init\<close> was called.\<close>

definition CFRuntimeInitStaticInstance :: "runtime \<Rightarrow> nat \<Rightarrow> 32 word \<Rightarrow> (32 word \<times> bool) option" where
  "CFRuntimeInitStaticInstance rt typeID cfinfo =
     (if CFRuntimeClassTableSize \<le> typeID then None
      else do {
        cls \<leftarrow> rd (rt_table rt) typeID;
        cls \<leftarrow> cls;
        let customRC = custom_ref_count cls;
        if customRC then Some (cfinfo, False)
        else Some (header_word (if customRC then 0xFF else 0) customRC typeID True, cls_init cls) })"

definition CFRuntimeSetInstanceTypeID :: "runtime \<Rightarrow> nat \<Rightarrow> 32 word \<Rightarrow> 32 word option" where
  "CFRuntimeSetInstanceTypeID rt newTypeID cfinfo =
     (if CFRuntimeClassTableSize \<le> newTypeID then None
      else do {
        let currTypeID = CFGenericTypeID cfinfo;
        newcfClass \<leftarrow> rd (rt_table rt) newTypeID;
        newcfClass \<leftarrow> newcfClass;
        let newCustomRC = custom_ref_count newcfClass;
        currcfClass \<leftarrow> rd (rt_table rt) currTypeID;
        currcfClass \<leftarrow> currcfClass;
        let currCustomRC = custom_ref_count currcfClass;
        if currCustomRC \<or> (0 \<noteq> currTypeID \<and> newCustomRC) then Some cfinfo
        else Some ((cfinfo AND 0xFFF000FF) OR push_bit 8 (word_of_nat newTypeID)) })"

definition CFGetAllocator :: "instance_block \<Rightarrow> CFAllocatorRef option" where
  "CFGetAllocator b = (if drop_bit 7 (ib_cfinfo b) AND 1 \<noteq> 0 then Some SystemDefault else ib_allocator b)"

subsection \<open>Polymorphic functions\<close>

text \<open>
  \<open>CFEqual\<close> and \<open>CFHash\<close> on addresses (0 is \<open>NULL\<close>); \<open>info\<close> gives the header word at an address.
\<close>

definition CFEqual :: "runtime \<Rightarrow> (nat \<Rightarrow> 32 word) \<Rightarrow> nat \<Rightarrow> nat \<Rightarrow> bool option" where
  "CFEqual rt info cf1 cf2 =
     (if cf1 = 0 then None
      else if cf2 = 0 then None
      else if cf1 = cf2 then Some True
      else if CFGenericTypeID (info cf1) \<noteq> CFGenericTypeID (info cf2) then Some False
      else do {
        cls \<leftarrow> rd (rt_table rt) (CFGenericTypeID (info cf1));
        cls \<leftarrow> cls;
        case cls_equal cls of
          Some equal \<Rightarrow> Some (equal cf1 cf2)
        | None \<Rightarrow> Some False })"

definition CFHash :: "runtime \<Rightarrow> (nat \<Rightarrow> 32 word) \<Rightarrow> nat \<Rightarrow> nat option" where
  "CFHash rt info cf =
     (if cf = 0 then None
      else do {
        cls \<leftarrow> rd (rt_table rt) (CFGenericTypeID (info cf));
        cls \<leftarrow> cls;
        case cls_hash cls of
          Some hash \<Rightarrow> Some (hash cf)
        | None \<Rightarrow> Some cf })"

subsection \<open>Well-formed tables\<close>

text \<open>
  The table has its fixed size, the count of registered classes lies in it, and no class was stored
  above the count or was inconsistent when it was registered.
\<close>

definition consistent_class :: "CFRuntimeClass \<Rightarrow> bool" where
  "consistent_class cls \<longleftrightarrow> (custom_ref_count cls \<longrightarrow> cls_refcount cls)"

definition runtime_wf :: "runtime \<Rightarrow> bool" where
  "runtime_wf rt \<longleftrightarrow> length (rt_table rt) = CFRuntimeClassTableSize \<and> 0 \<le> rt_count rt \<and>
     rt_count rt \<le> int CFRuntimeClassTableSize \<and>
     (\<forall>i < CFRuntimeClassTableSize. case rt_table rt ! i of None \<Rightarrow> True
        | Some cls \<Rightarrow> int i < rt_count rt \<and> consistent_class cls)"

definition registered :: "runtime \<Rightarrow> nat \<Rightarrow> CFRuntimeClass option" where
  "registered rt i = (if i < CFRuntimeClassTableSize then rt_table rt ! i else None)"

lemma registered_wf:
  "runtime_wf rt \<Longrightarrow> i < CFRuntimeClassTableSize \<Longrightarrow> rd (rt_table rt) i = Some (registered rt i)"
  by (simp add: runtime_wf_def registered_def rd_def)

lemma registered_consistent: "runtime_wf rt \<Longrightarrow> registered rt i = Some cls \<Longrightarrow> consistent_class cls \<and> int i < rt_count rt"
  by (auto simp: runtime_wf_def registered_def split: if_splits option.splits)

subsection \<open>Fields of the header\<close>

lemma bit_lt: "n < 2 ^ k \<Longrightarrow> bit n i \<Longrightarrow> i < k" for n :: nat
  using take_bit_nat_eq_self [of n k] bit_take_bit_iff [of k n i] by simp

lemma bit_word_of_nat_lt: "n < 2 ^ k \<Longrightarrow> k \<le> LENGTH('a) \<Longrightarrow> bit (word_of_nat n :: 'a::len word) i \<longleftrightarrow> bit n i"
  using bit_lt [of n k i] by (auto simp: bit_simps)

lemma header_numerals: "(0x800000 :: 32 word) = push_bit 23 1" "(0x80 :: 32 word) = push_bit 7 1"
  "(0x3FF :: 32 word) = mask 10" "(0xFFF000FF :: 32 word) = NOT (push_bit 8 (mask 12))"
  by (simp_all add: push_bit_eq_mult mask_eq_exp_minus_1)

lemma bit_flags:
  "bit (0x800000 :: 32 word) i \<longleftrightarrow> i = 23" "bit (0x80 :: 32 word) i \<longleftrightarrow> i = 7"
  "bit (0xFFF000FF :: 32 word) i \<longleftrightarrow> i < 32 \<and> (i < 8 \<or> 20 \<le> i)"
  unfolding header_numerals(1,2,4) by (simp only: bit_push_bit_iff bit_not_iff bit_mask_iff bit_1_iff possible_bit_word; auto)+

lemma CFGenericTypeID_less: "CFGenericTypeID w < CFRuntimeClassTableSize"
proof -
  have "drop_bit 8 w AND 0x3FF \<le> (0x3FF :: 32 word)" by (rule word_and_le1)
  then show ?thesis by (simp add: CFGenericTypeID_def runtime_consts word_le_nat_alt)
qed

lemma type_of_bits:
  assumes n: "n < 1024" and bits: "\<And>i. i < 10 \<Longrightarrow> bit w (8 + i) \<longleftrightarrow> bit n i"
  shows "CFGenericTypeID w = n"
proof -
  have n10: "n < 2 ^ 10" using n by simp
  have "drop_bit 8 w AND 0x3FF = (word_of_nat n :: 32 word)"
    unfolding header_numerals
  proof (rule bit_word_eqI)
    fix i assume "i < LENGTH(32)"
    then show "bit (drop_bit 8 w AND mask 10) i = bit (word_of_nat n :: 32 word) i"
      using bits [of i] bit_lt [OF n10, of i] bit_word_of_nat_lt [OF n10, where 'a=32, of i]
      by (auto simp: bit_simps)
  qed
  then show ?thesis using n by (simp add: CFGenericTypeID_def unat_of_nat)
qed

lemma header_word_fields:
  assumes "typeID < CFRuntimeClassTableSize"
  shows "CFGenericTypeID (header_word rc customRC typeID sys) = typeID"
    and "bit (header_word rc customRC typeID sys) 23 \<longleftrightarrow> customRC"
    and "bit (header_word rc customRC typeID sys) 7 \<longleftrightarrow> sys"
    and "rc < 256 \<Longrightarrow> drop_bit 24 (header_word rc customRC typeID sys) = rc"
proof -
  have n10: "typeID < 2 ^ 10" using assms by (simp add: runtime_consts)
  note high = bit_lt [OF n10] and word = bit_word_of_nat_lt [OF n10, where 'a=32, simplified]
  have bits: "bit (header_word rc customRC typeID sys) i \<longleftrightarrow>
      24 \<le> i \<and> bit rc (i - 24) \<or> customRC \<and> i = 23 \<or> 8 \<le> i \<and> bit typeID (i - 8) \<or> sys \<and> i = 7" if "i < 32" for i
    using that unfolding header_word_def
    by (cases customRC; cases sys)
      (simp_all only: if_True if_False bit_or_iff bit_flags bit_push_bit_iff possible_bit_word bit_0_eq bot_apply bot_bool_def word, auto)
  show "CFGenericTypeID (header_word rc customRC typeID sys) = typeID"
    using assms by (intro type_of_bits) (auto simp: runtime_consts bits)
  show "bit (header_word rc customRC typeID sys) 23 \<longleftrightarrow> customRC" using high [of 15] by (auto simp: bits)
  show "bit (header_word rc customRC typeID sys) 7 \<longleftrightarrow> sys" by (simp add: bits)
  assume "rc < 256"
  then have rc: "take_bit 8 rc = rc" by (intro word_unat_eq_iff [THEN iffD2]) (simp add: unsigned_take_bit_eq take_bit_nat_eq_self word_less_nat_alt)
  show "drop_bit 24 (header_word rc customRC typeID sys) = rc"
  proof (rule bit_word_eqI)
    fix i
    have "bit rc i \<longrightarrow> i < 8" using arg_cong [OF rc, of "\<lambda>w. bit w i"] by (simp add: bit_simps) blast
    moreover have "\<not> bit typeID (16 + i)" using high [of "16 + i"] by auto
    moreover have "bit (drop_bit 24 (header_word rc customRC typeID sys)) i \<longleftrightarrow>
        i < 8 \<and> bit (header_word rc customRC typeID sys) (24 + i)"
      by (auto simp: bit_simps dest: bit_imp_le_length)
    ultimately show "bit (drop_bit 24 (header_word rc customRC typeID sys)) i = bit rc i"
      by (cases "i < 8") (simp_all add: bits)
  qed
qed

lemma bit_7_test: "drop_bit 7 w AND 1 \<noteq> 0 \<longleftrightarrow> bit w 7" for w :: "32 word"
  by (simp add: bit_simps)

lemma round_16:
  fixes n :: int
  shows "(n + 0xF) AND NOT 0xF = (n + 15) div 16 * 16"
proof -
  have "(n + 15) AND NOT (mask 4) = push_bit 4 (drop_bit 4 (n + 15))"
    by (rule bit_eqI) (auto simp: bit_simps)
  then show ?thesis by (simp add: mask_eq_exp_minus_1 push_bit_eq_mult drop_bit_eq_div)
qed

subsection \<open>Properties\<close>

text \<open>registration.  In a well-formed table a consistent class gets the next free number, from which it is
  found again, and no other entry changes; an inconsistent class (custom counting without a callback)
  and a class that no longer fits are refused with the number 0 and nothing changes.  Never is a
  class written outside the table.\<close>

theorem runtime_register:
  assumes "runtime_wf rt"
  shows "if consistent_class cls \<and> rt_count rt < int CFRuntimeClassTableSize
    then \<exists>rt'. CFRuntimeRegisterClass cls rt = Some (nat (rt_count rt), rt') \<and> runtime_wf rt' \<and>
           rt_count rt' = rt_count rt + 1 \<and> registered rt (nat (rt_count rt)) = None \<and>
           registered rt' = (registered rt) (nat (rt_count rt) := Some cls)
    else CFRuntimeRegisterClass cls rt = Some (kCFRuntimeNotATypeID, rt)"
proof (cases "consistent_class cls \<and> rt_count rt < int CFRuntimeClassTableSize")
  case True
  define k where "k = nat (rt_count rt)"
  have k: "rt_count rt = int k" "k < CFRuntimeClassTableSize" "length (rt_table rt) = CFRuntimeClassTableSize"
    using assms True by (auto simp: k_def runtime_wf_def)
  define rt' where "rt' = rt\<lparr>rt_table := (rt_table rt)[k := Some cls], rt_count := int k + 1\<rparr>"
  have "CFRuntimeRegisterClass cls rt = Some (k, rt')"
    using True k by (auto simp: CFRuntimeRegisterClass_def consistent_class_def wri_Some rt'_def runtime_consts)
  moreover have "runtime_wf rt'"
    using assms True k by (fastforce simp: runtime_wf_def rt'_def nth_list_update split: option.splits)
  moreover have "registered rt k = None"
  proof (cases "registered rt k")
    case (Some c)
    then show ?thesis using registered_consistent [OF assms Some] k by simp
  qed
  moreover have "registered rt' = (registered rt) (k := Some cls)"
    using k by (auto simp: registered_def rt'_def nth_list_update)
  ultimately show ?thesis using True k by (auto simp: rt'_def)
next
  case False
  then have "(custom_ref_count cls \<and> \<not> cls_refcount cls) \<or> int CFRuntimeClassTableSize \<le> rt_count rt"
    by (auto simp: consistent_class_def)
  then have "CFRuntimeRegisterClass cls rt = Some (kCFRuntimeNotATypeID, rt)"
    by (auto simp: CFRuntimeRegisterClass_def)
  then show ?thesis unfolding if_not_P [OF False] .
qed

text \<open>C28: creating an instance.  With a class in the table and memory to be had, the block is a multiple of 16
  bytes that holds the header, the extra bytes and, for an allocator other than the system's, the
  reference to it in front; the header word gives back the type, the allocator, and the mark and count
  of the class's reference counting.\<close>

theorem runtime_create_instance:
  assumes wf: "runtime_wf rt" and cls: "registered rt typeID = Some cls"
    and allocator: "allocator = SystemDefault \<or> (\<exists>n. allocator = OtherAllocator n) \<or>
      allocator = NULL_allocator \<and> rt_default rt = SystemDefault"
    and memory: "\<And>size. alloc allocator size" and extra: "0 \<le> extraBytes"
  shows "\<exists>b. CFRuntimeCreateInstance alloc rt allocator typeID extraBytes = Some (Some b) \<and>
    16 dvd ib_size b \<and> ib_offset b + 8 + extraBytes \<le> ib_size b \<and> ib_size b < ib_offset b + 8 + extraBytes + 16 \<and>
    CFGenericTypeID (ib_cfinfo b) = typeID \<and> (bit (ib_cfinfo b) 23 \<longleftrightarrow> custom_ref_count cls) \<and>
    drop_bit 24 (ib_cfinfo b) = (if custom_ref_count cls then 0xFF else 1) \<and>
    CFGetAllocator b = Some (if CFAllocatorIsSystemDefault allocator rt then SystemDefault else allocator)"
proof -
  have id: "typeID < CFRuntimeClassTableSize" using cls by (auto simp: registered_def split: if_splits)
  have cons: "\<not> (custom_ref_count cls \<and> \<not> cls_refcount cls)"
    using registered_consistent [OF wf cls] by (auto simp: consistent_class_def)
  define sys where "sys = CFAllocatorIsSystemDefault allocator rt"
  define rc :: "32 word" where "rc = (if custom_ref_count cls then 0xFF else 1)"
  define k :: int where "k = (if sys then 0 else 4)"
  define b where "b = \<lparr>ib_size = ((8 + extraBytes + k) + 0xF) AND NOT 0xF, ib_offset = k,
    ib_allocator = (if sys then None else Some allocator),
    ib_cfinfo = header_word rc (custom_ref_count cls) typeID sys, ib_inited = cls_init cls\<rparr>"
  have null: "\<not> (allocator = AllocatorNull)" using allocator by auto
  have "\<not> sys \<Longrightarrow> allocator \<noteq> NULL_allocator"
    using allocator by (auto simp: sys_def CFAllocatorIsSystemDefault_def)
  then have create: "CFRuntimeCreateInstance alloc rt allocator typeID extraBytes = Some (Some b)"
    using id cons null memory registered_wf [OF wf id] cls
    unfolding CFRuntimeCreateInstance_def Let_def sys_def [symmetric]
    by (auto simp: b_def k_def rc_def retain_allocator_def)
  note fields = header_word_fields [OF id, of rc "custom_ref_count cls" sys]
  have info: "ib_cfinfo b = header_word rc (custom_ref_count cls) typeID sys" by (simp add: b_def)
  have "rc < 256" by (simp add: rc_def)
  moreover have "CFGetAllocator b = Some (if sys then SystemDefault else allocator)"
    unfolding CFGetAllocator_def bit_7_test by (simp add: b_def fields)
  moreover have "16 dvd ib_size b" "ib_offset b + 8 + extraBytes \<le> ib_size b"
    "ib_size b < ib_offset b + 8 + extraBytes + 16"
  proof -
    have "ib_size b = (8 + extraBytes + k + 15) div 16 * 16" "ib_offset b = k" unfolding b_def round_16 by simp_all
    then show "16 dvd ib_size b" "ib_offset b + 8 + extraBytes \<le> ib_size b"
      "ib_size b < ib_offset b + 8 + extraBytes + 16" by presburger+
  qed
  ultimately show ?thesis
    using create fields by (intro exI [of _ b]) (simp add: sys_def [symmetric] info del: word_less_nat_alt, simp add: rc_def)
qed

text \<open>without a garbage collector the macro that should replace the null allocator by the default one
  does nothing.  So when the thread's default allocator is not the system's, creating an instance with
  the null allocator, the usual argument, retains the null pointer and halts.\<close>

theorem runtime_create_null_halts:
  assumes wf: "runtime_wf rt" and cls: "registered rt typeID = Some cls"
    and "rt_default rt \<noteq> SystemDefault" and memory: "\<And>size. alloc NULL_allocator size"
  shows "CFRuntimeCreateInstance alloc rt NULL_allocator typeID extraBytes = None"
proof -
  have id: "typeID < CFRuntimeClassTableSize" using cls by (auto simp: registered_def split: if_splits)
  have cons: "\<not> (custom_ref_count cls \<and> \<not> cls_refcount cls)"
    using registered_consistent [OF wf cls] by (auto simp: consistent_class_def)
  show ?thesis
    using assms id cons registered_wf [OF wf id] by (simp add: CFRuntimeCreateInstance_def Let_def
      CFAllocatorIsSystemDefault_def retain_allocator_def)
qed

text \<open>changing the type of an instance sets the type and leaves the rest of the header word, the reference
  count included, as it was; it does nothing when either class counts references itself (unless the
  instance had no type yet).\<close>

theorem runtime_set_type:
  assumes wf: "runtime_wf rt" and new: "registered rt newTypeID = Some c2"
    and old: "registered rt (CFGenericTypeID cfinfo) = Some c1" and clear: "\<not> bit cfinfo 18" "\<not> bit cfinfo 19"
  shows "\<exists>w. CFRuntimeSetInstanceTypeID rt newTypeID cfinfo = Some w \<and>
    (if custom_ref_count c1 \<or> CFGenericTypeID cfinfo \<noteq> 0 \<and> custom_ref_count c2 then w = cfinfo
     else CFGenericTypeID w = newTypeID \<and> drop_bit 18 w = drop_bit 18 cfinfo \<and> take_bit 8 w = take_bit 8 cfinfo)"
proof -
  have id: "newTypeID < CFRuntimeClassTableSize" using new by (auto simp: registered_def split: if_splits)
  then have n10: "newTypeID < 2 ^ 10" by (simp add: runtime_consts)
  define w where "w = (cfinfo AND 0xFFF000FF) OR push_bit 8 (word_of_nat newTypeID)"
  have bits: "bit w i \<longleftrightarrow> bit cfinfo i \<and> (i < 8 \<or> 20 \<le> i) \<or> 8 \<le> i \<and> bit newTypeID (i - 8)" if "i < 32" for i
    using that bit_word_of_nat_lt [OF n10, where 'a=32, simplified]
    unfolding w_def
    by (simp only: bit_or_iff bit_and_iff bit_flags bit_push_bit_iff possible_bit_word) auto
  have type: "CFGenericTypeID w = newTypeID"
    using n10 by (intro type_of_bits) (auto simp: bits)
  have low: "take_bit 8 w = take_bit 8 cfinfo" by (rule bit_word_eqI) (auto simp: bit_simps bits)
  have high: "drop_bit 18 w = drop_bit 18 cfinfo"
  proof (rule bit_word_eqI)
    fix i assume "i < LENGTH(32)"
    moreover have "\<not> bit newTypeID (10 + i)" using bit_lt [OF n10, of "10 + i"] by auto
    moreover have "18 + i < 20 \<Longrightarrow> i = 0 \<or> i = 1" by auto
    ultimately show "bit (drop_bit 18 w) i = bit (drop_bit 18 cfinfo) i"
      using bits [of "18 + i"] clear by (cases "i < 14") (auto simp: bit_simps dest: bit_imp_le_length)
  qed
  have "CFRuntimeSetInstanceTypeID rt newTypeID cfinfo =
      Some (if custom_ref_count c1 \<or> CFGenericTypeID cfinfo \<noteq> 0 \<and> custom_ref_count c2 then cfinfo else w)"
    using id registered_wf [OF wf id] registered_wf [OF wf CFGenericTypeID_less] new old
    by (simp add: CFRuntimeSetInstanceTypeID_def w_def Let_def)
  then show ?thesis using type low high by simp
qed

text \<open>the contract of equality and hashing carries over from the classes.  If every class that has an
  equality callback has an equivalence relation there, and a hash callback that gives equal instances
  equal hashes, then \<open>CFEqual\<close> is defined on all instances, reflexive and symmetric, never true across
  types, and equal instances have the same \<open>CFHash\<close>.\<close>

theorem runtime_equal_hash:
  assumes wf: "runtime_wf rt" and instances: "\<And>x. x \<in> S \<Longrightarrow> x \<noteq> 0 \<and> registered rt (CFGenericTypeID (info x)) \<noteq> None"
    and sym: "\<And>i c eq x y. registered rt i = Some c \<Longrightarrow> cls_equal c = Some eq \<Longrightarrow> eq x y \<Longrightarrow> eq y x"
    and hash: "\<And>i c eq x y. registered rt i = Some c \<Longrightarrow> cls_equal c = Some eq \<Longrightarrow> eq x y \<Longrightarrow>
      (\<exists>h. cls_hash c = Some h \<and> h x = h y)"
    and xy: "x \<in> S" "y \<in> S"
  shows "CFEqual rt info x x = Some True \<and>
    (\<exists>r. CFEqual rt info x y = Some r \<and> CFEqual rt info y x = Some r \<and>
      (if r then CFGenericTypeID (info x) = CFGenericTypeID (info y) \<and> CFHash rt info x \<noteq> None \<and>
         CFHash rt info x = CFHash rt info y else x \<noteq> y))"
proof -
  obtain c where c: "registered rt (CFGenericTypeID (info x)) = Some c" using instances [OF xy(1)] by auto
  note table = registered_wf [OF wf CFGenericTypeID_less [of "info x"]]
  have nz: "x \<noteq> 0" "y \<noteq> 0" using instances xy by auto
  show ?thesis
  proof (cases "x = y \<or> CFGenericTypeID (info x) \<noteq> CFGenericTypeID (info y)")
    case True
    have "CFHash rt info x \<noteq> None" using nz table c by (simp add: CFHash_def split: option.split)
    then show ?thesis using nz True by (intro conjI exI [of _ "x = y"]) (auto simp: CFEqual_def)
  next
    case False
    then have same: "CFGenericTypeID (info y) = CFGenericTypeID (info x)" by simp
    show ?thesis
    proof (cases "cls_equal c")
      case None
      then show ?thesis using nz table c same False
        by (intro conjI exI [of _ False]) (simp_all add: CFEqual_def)
    next
      case (Some eq)
      have "eq x y = eq y x" using sym [OF c Some] by blast
      then show ?thesis
        using nz table c same False Some hash [OF c Some, of x y] by (auto simp: CFEqual_def CFHash_def)
    qed
  qed
qed

subsection \<open>Witnesses\<close>

text \<open>The two classes that initialisation registers first, and one with equality and hashing by parity.\<close>

definition plain_class :: CFRuntimeClass where
  "plain_class = \<lparr>cls_version = 0, cls_init = False, cls_equal = None, cls_hash = None, cls_refcount = False\<rparr>"

definition parity_class :: CFRuntimeClass where
  "parity_class = \<lparr>cls_version = 0, cls_init = True, cls_equal = Some (\<lambda>x y. x mod 2 = y mod 2),
     cls_hash = Some (\<lambda>x. x mod 2), cls_refcount = False\<rparr>"

definition sample_runtime :: "CFAllocatorRef \<Rightarrow> runtime" where
  "sample_runtime dflt =
     \<lparr>rt_table = [Some plain_class, Some plain_class, Some parity_class] @ replicate 1021 None,
      rt_count = 3, rt_default = dflt\<rparr>"

lemma registered_sample: "registered (sample_runtime dflt) i =
    (if i = 0 \<or> i = 1 then Some plain_class else if i = 2 then Some parity_class else None)"
proof -
  consider "i = 0" | "i = 1" | "i = 2" | k where "i = Suc (Suc (Suc k))"
    by (metis One_nat_def Suc_1 not0_implies_Suc)
  then show ?thesis
    by cases (simp_all add: registered_def sample_runtime_def runtime_consts)
qed

lemma plain_consistent: "consistent_class plain_class" "consistent_class parity_class"
  "\<not> custom_ref_count plain_class" "\<not> custom_ref_count parity_class"
  by (simp_all add: consistent_class_def custom_ref_count_def plain_class_def parity_class_def)

lemma sample_runtime_wf: "runtime_wf (sample_runtime dflt)"
  unfolding runtime_wf_def
proof (intro conjI allI impI)
  fix i assume "i < CFRuntimeClassTableSize"
  then show "case rt_table (sample_runtime dflt) ! i of None \<Rightarrow> True
    | Some cls \<Rightarrow> int i < rt_count (sample_runtime dflt) \<and> consistent_class cls"
    using registered_sample [of dflt i] plain_consistent
    by (auto simp: registered_def sample_runtime_def split: if_splits option.splits)
qed (simp_all add: sample_runtime_def runtime_consts)

theorem runtime_register_witness:
  "\<exists>rt'. CFRuntimeRegisterClass plain_class (sample_runtime SystemDefault) = Some (3, rt') \<and> rt_count rt' = 4"
  using runtime_register [OF sample_runtime_wf, of plain_class SystemDefault] plain_consistent(1)
  by (auto simp: runtime_consts) (auto simp: sample_runtime_def)

theorem runtime_create_instance_witness:
  "\<exists>b. CFRuntimeCreateInstance (\<lambda>_ _. True) (sample_runtime SystemDefault) (OtherAllocator 5) 2 20 = Some (Some b) \<and>
    CFGenericTypeID (ib_cfinfo b) = 2 \<and> CFGetAllocator b = Some (OtherAllocator 5)"
  using runtime_create_instance [OF sample_runtime_wf, of SystemDefault 2 parity_class "OtherAllocator 5" "\<lambda>_ _. True" 20]
  by (auto simp: registered_sample CFAllocatorIsSystemDefault_def)

theorem runtime_create_null_halts_witness:
  "CFRuntimeCreateInstance (\<lambda>_ _. True) (sample_runtime (OtherAllocator 5)) NULL_allocator 2 20 = None"
  by (rule runtime_create_null_halts [OF sample_runtime_wf, where cls = parity_class])
    (simp_all add: registered_sample, simp add: sample_runtime_def)

theorem runtime_set_type_witness:
  "\<exists>w. CFRuntimeSetInstanceTypeID (sample_runtime SystemDefault) 2 0x01000080 = Some w \<and> CFGenericTypeID w = 2"
proof -
  have type: "CFGenericTypeID 0x01000080 = 0" by code_simp
  have bits: "\<not> bit (0x01000080 :: 32 word) 18" "\<not> bit (0x01000080 :: 32 word) 19" by code_simp+
  show ?thesis
    using runtime_set_type [OF sample_runtime_wf, of SystemDefault 2 parity_class "0x01000080" plain_class]
      plain_consistent by (auto simp: registered_sample type bits)
qed

theorem runtime_equal_hash_witness:
  "CFEqual (sample_runtime SystemDefault) (\<lambda>_. 0x01000280) 4 6 = Some True \<and>
    CFHash (sample_runtime SystemDefault) (\<lambda>_. 0x01000280) 4 = CFHash (sample_runtime SystemDefault) (\<lambda>_. 0x01000280) 6"
proof -
  have type: "CFGenericTypeID 0x01000280 = 2" by code_simp
  have "rd (rt_table (sample_runtime SystemDefault)) 2 = Some (Some parity_class)"
    using registered_wf [OF sample_runtime_wf, of 2] by (simp add: registered_sample runtime_consts)
  then have "CFEqual (sample_runtime SystemDefault) (\<lambda>_. 0x01000280) 4 6 = Some True"
    by (simp add: CFEqual_def type parity_class_def)
  moreover have "CFEqual (sample_runtime SystemDefault) (\<lambda>_. 0x01000280) 4 4 = Some True \<and>
    (\<exists>r. CFEqual (sample_runtime SystemDefault) (\<lambda>_. 0x01000280) 4 6 = Some r \<and>
      CFEqual (sample_runtime SystemDefault) (\<lambda>_. 0x01000280) 6 4 = Some r \<and>
      (if r then CFGenericTypeID 0x01000280 = CFGenericTypeID 0x01000280 \<and>
         CFHash (sample_runtime SystemDefault) (\<lambda>_. 0x01000280) 4 \<noteq> None \<and>
         CFHash (sample_runtime SystemDefault) (\<lambda>_. 0x01000280) 4 =
         CFHash (sample_runtime SystemDefault) (\<lambda>_. 0x01000280) 6 else (4 :: nat) \<noteq> 6))"
    by (rule runtime_equal_hash [OF sample_runtime_wf, where S = "{4, 6}"])
      (auto simp: registered_sample type plain_class_def parity_class_def split: if_splits)
  ultimately show ?thesis by auto
qed

end
