(* ===== verification/CF_RefCount.thy ===== *)
theory CF_RefCount
  imports CF_Runtime
begin

text \<open>
  CFRuntime.c: \<open>CFRetain\<close>, \<open>CFRelease\<close> and \<open>CFGetRetainCount\<close> as several threads run them at once, in
  the build for 32-bit words (\<open>__LP64__\<close> and \<open>COCOA_ARR1\<close> not set).  The count of an object is kept in
  the top byte of its header word and, from 128 on, partly in a table of external counts: bit 7 of the
  byte says that the table is in use, the count is the low seven bits plus 64 times the
  external count.  The word is changed by compare-and-swap; when the byte overflows or
  underflows, the table is changed as well, under a spin lock.

  A thread is a stack of frames, a frame being a call of \<open>CFRetain\<close> or \<open>CFRelease\<close> at one of the points
  between its accesses to shared memory.  \<open>frame_step\<close> runs the frame on top of a stack up to its
  next access and is a function, as the code is deterministic; the relation \<open>cf_step\<close> lets any
  thread take its next step and adds what the clients do.  Below the top there can only be calls of
  \<open>CFRelease\<close> whose finalizer is running, during which the thread makes calls of its own.

  \<open>CFGetRetainCount\<close> changes nothing, but it reads the word twice and the table once, without the spin
  lock.  A call of it is a frame of its own, \<open>count_frame\<close>, and the relation \<open>count_run\<close> interleaves its
  reads with the steps of the threads in any way.

  Objects and threads are numbers.  The table of external counts (a \<open>CFBasicHash\<close> with counts) appears as
  the function from objects to counts that it stores, its operations being atomic by its own lock.
  Classes with custom reference counting, which leave everything to their callback, are not covered.
  The field \<open>owns\<close> is a ghost: the multiset of references that each thread holds.
\<close>

subsection \<open>The count in the header word\<close>

definition RC_START :: nat where
  "RC_START = 24"

definition RC_END :: nat where
  "RC_END = 31"

text \<open>The bit field macros on a header word.\<close>

definition get_bits :: "32 word \<Rightarrow> nat \<Rightarrow> nat \<Rightarrow> 32 word" where
  "get_bits v n1 n2 = drop_bit n2 (v AND CFBitfieldMask n1 n2)"

definition set_bits :: "32 word \<Rightarrow> nat \<Rightarrow> nat \<Rightarrow> 32 word \<Rightarrow> 32 word" where
  "set_bits v n1 n2 x = (v AND NOT (CFBitfieldMask n1 n2)) OR (push_bit n2 x AND CFBitfieldMask n1 n2)"

definition rc_of :: "32 word \<Rightarrow> nat" where
  "rc_of w = unat (get_bits w RC_END RC_START)"

text \<open>
  The next word of a retain, and whether an external reference is to be added; the next word of a
  release, given the external count, and whether an external reference is to be removed.
\<close>

definition retain_carries :: "32 word \<Rightarrow> bool" where
  "retain_carries cfinfo \<longleftrightarrow> get_bits (cfinfo + push_bit RC_START 1) RC_END RC_START AND 0x7f = 0"

definition retain_info :: "32 word \<Rightarrow> 32 word" where
  "retain_info cfinfo =
     (if retain_carries cfinfo then set_bits cfinfo RC_END RC_START (push_bit 7 1 OR push_bit 6 1)
      else cfinfo + push_bit RC_START 1)"

definition release_borrows :: "32 word \<Rightarrow> bool" where
  "release_borrows cfinfo \<longleftrightarrow> push_bit 7 1 = get_bits cfinfo RC_END RC_START"

definition release_info :: "32 word \<Rightarrow> nat \<Rightarrow> 32 word" where
  "release_info cfinfo rcHighBitsCnt =
     (if release_borrows cfinfo then
        if 1 = rcHighBitsCnt then set_bits cfinfo RC_END RC_START (push_bit 6 1 - 1)
        else set_bits cfinfo RC_END RC_START ((push_bit 6 1 OR push_bit 7 1) - 1)
      else cfinfo - push_bit RC_START 1)"

subsection \<open>Threads\<close>

type_synonym object = nat
type_synonym thread = nat

datatype frame =
    Retain_enter object
  | Retain_load object
  | Retain_try object "32 word"
  | Retain_locked object "32 word"
  | Retain_carry object
  | Retain_unlock object bool
  | Release_enter object
  | Release_load object
  | Release_try object "32 word"
  | Release_final object
  | Release_recheck object
  | Release_locked object "32 word"
  | Release_counted object "32 word" nat
  | Release_carry object
  | Release_unlock object bool
  | Release_free object

record cf_state =
  info :: "object \<Rightarrow> 32 word"
  alive :: "object \<Rightarrow> bool"
  extern :: "object \<Rightarrow> nat"
  lock :: "thread option"
  stack :: "thread \<Rightarrow> frame list"
  owns :: "(thread \<times> object) multiset"

definition set_stack :: "thread \<Rightarrow> frame list \<Rightarrow> cf_state \<Rightarrow> cf_state" where
  "set_stack t fs s = s\<lparr>stack := (stack s)(t := fs)\<rparr>"

text \<open>\<open>OSAtomicCompareAndSwap32Barrier\<close>\<close>

definition CAS32 :: "32 word \<Rightarrow> 32 word \<Rightarrow> object \<Rightarrow> cf_state \<Rightarrow> bool \<times> cf_state" where
  "CAS32 oldValue newValue cf s =
     (if info s cf = oldValue then (True, s\<lparr>info := (info s)(cf := newValue)\<rparr>) else (False, s))"

text \<open>\<open>__CFDoExternRefOperation\<close>: 350 adds an external reference, 450 removes one, 500 counts.\<close>

definition CFDoExternRefOperation :: "nat \<Rightarrow> object \<Rightarrow> cf_state \<Rightarrow> nat \<times> cf_state" where
  "CFDoExternRefOperation oper obj s =
     (if oper = 350 then (obj, s\<lparr>extern := (extern s)(obj := extern s obj + 1)\<rparr>)
      else if oper = 450 then
        (of_bool (extern s obj = 0), s\<lparr>extern := (extern s)(obj := extern s obj - 1)\<rparr>)
      else if oper = 500 then (extern s obj, s)
      else (0, s))"

definition acquire :: "thread \<Rightarrow> cf_state \<Rightarrow> cf_state option" where
  "acquire t s = (if lock s = None then Some (s\<lparr>lock := Some t\<rparr>) else None)"

definition kCFAllocatorTypeID :: nat where
  "kCFAllocatorTypeID = 2"

text \<open>The ghost: a successful retain adds a reference to the thread's, a release takes one away.\<close>

definition gain :: "thread \<Rightarrow> object \<Rightarrow> cf_state \<Rightarrow> cf_state" where
  "gain t cf s = s\<lparr>owns := owns s + {#(t, cf)#}\<rparr>"

definition lose :: "thread \<Rightarrow> object \<Rightarrow> cf_state \<Rightarrow> cf_state" where
  "lose t cf s = s\<lparr>owns := owns s - {#(t, cf)#}\<rparr>"

text \<open>
  \<open>_CFRetain\<close>: the first check for a constant object (count 0), then the loop, which loads the word and
  tries to replace it; if the low seven bits would overflow, under the lock and with an
  increment of the external count after it.
\<close>

fun retain_step :: "thread \<Rightarrow> frame \<Rightarrow> frame list \<Rightarrow> cf_state \<Rightarrow> cf_state option" where
  "retain_step t (Retain_enter cf) fs s =
     (if rc_of (info s cf) = 0 then Some (set_stack t fs s) else Some (set_stack t (Retain_load cf # fs) s))"
| "retain_step t (Retain_load cf) fs s = Some (set_stack t (Retain_try cf (info s cf) # fs) s)"
| "retain_step t (Retain_try cf cfinfo) fs s =
     (if retain_carries cfinfo then do { s \<leftarrow> acquire t s; Some (set_stack t (Retain_locked cf cfinfo # fs) s) }
      else
        let (success, s) = CAS32 cfinfo (retain_info cfinfo) cf s in
        if success then Some (set_stack t fs (gain t cf s)) else Some (set_stack t (Retain_load cf # fs) s))"
| "retain_step t (Retain_locked cf cfinfo) fs s =
     (let (success, s) = CAS32 cfinfo (retain_info cfinfo) cf s in
      if success then Some (set_stack t (Retain_carry cf # fs) (gain t cf s))
      else Some (set_stack t (Retain_unlock cf False # fs) s))"
| "retain_step t (Retain_carry cf) fs s =
     (let (_, s) = CFDoExternRefOperation 350 cf s in Some (set_stack t (Retain_unlock cf True # fs) s))"
| "retain_step t (Retain_unlock cf success) fs s =
     (let s = s\<lparr>lock := None\<rparr> in
      if success then Some (set_stack t fs s) else Some (set_stack t (Retain_load cf # fs) s))"
| "retain_step t f fs s = None"

text \<open>
  \<open>_CFRelease\<close>: the last reference runs the finalizer, after which the count is read again: if it
  is still 1, the object is freed.  Otherwise the count goes down, by way of the external count when
  the low seven bits are 0.  The finalizer returns when the client says so, so the frame
  \<open>Release_final\<close> has no step here.
\<close>

fun release_step :: "thread \<Rightarrow> frame \<Rightarrow> frame list \<Rightarrow> cf_state \<Rightarrow> cf_state option" where
  "release_step t (Release_enter cf) fs s =
     (if rc_of (info s cf) = 0 then Some (set_stack t fs s) else Some (set_stack t (Release_load cf # fs) s))"
| "release_step t (Release_load cf) fs s = Some (set_stack t (Release_try cf (info s cf) # fs) s)"
| "release_step t (Release_try cf cfinfo) fs s =
     (if 1 = rc_of cfinfo then
        if CFGenericTypeID cfinfo = kCFAllocatorTypeID then Some (set_stack t (Release_free cf # fs) s)
        else Some (set_stack t (Release_final cf # fs) s)
      else if release_borrows cfinfo then
        do { s \<leftarrow> acquire t s; Some (set_stack t (Release_locked cf cfinfo # fs) s) }
      else
        let (success, s) = CAS32 cfinfo (release_info cfinfo 0) cf s in
        if success then Some (set_stack t fs (lose t cf s)) else Some (set_stack t (Release_load cf # fs) s))"
| "release_step t (Release_recheck cf) fs s =
     (if 1 = rc_of (info s cf) then Some (set_stack t (Release_free cf # fs) s)
      else Some (set_stack t (Release_load cf # fs) s))"
| "release_step t (Release_locked cf cfinfo) fs s =
     (let (rcHighBitsCnt, s) = CFDoExternRefOperation 500 cf s
      in Some (set_stack t (Release_counted cf cfinfo rcHighBitsCnt # fs) s))"
| "release_step t (Release_counted cf cfinfo rcHighBitsCnt) fs s =
     (let (success, s) = CAS32 cfinfo (release_info cfinfo rcHighBitsCnt) cf s in
      if success then Some (set_stack t (Release_carry cf # fs) (lose t cf s))
      else Some (set_stack t (Release_unlock cf False # fs) s))"
| "release_step t (Release_carry cf) fs s =
     (let (_, s) = CFDoExternRefOperation 450 cf s in Some (set_stack t (Release_unlock cf True # fs) s))"
| "release_step t (Release_unlock cf success) fs s =
     (let s = s\<lparr>lock := None\<rparr> in
      if success then Some (set_stack t fs s) else Some (set_stack t (Release_load cf # fs) s))"
| "release_step t (Release_free cf) fs s =
     Some (set_stack t fs (lose t cf (s\<lparr>alive := (alive s)(cf := False)\<rparr>)))"
| "release_step t f fs s = None"

text \<open>The step of a frame, and what clients may do between their calls and in finalizers.\<close>

definition frame_step :: "thread \<Rightarrow> frame \<Rightarrow> frame list \<Rightarrow> cf_state \<Rightarrow> cf_state option" where
  "frame_step t f fs s = (case retain_step t f fs s of Some s' \<Rightarrow> Some s' | None \<Rightarrow> release_step t f fs s)"

definition is_constant :: "cf_state \<Rightarrow> object \<Rightarrow> bool" where
  "is_constant s cf \<longleftrightarrow> alive s cf \<and> rc_of (info s cf) = 0"

text \<open>The calls of \<open>CFRelease\<close> on a stack that have not yet given up the reference they were called with.\<close>

fun releasing :: "frame \<Rightarrow> object \<Rightarrow> bool" where
  "releasing (Release_enter cf) x = (cf = x)"
| "releasing (Release_load cf) x = (cf = x)"
| "releasing (Release_try cf _) x = (cf = x)"
| "releasing (Release_final cf) x = (cf = x)"
| "releasing (Release_recheck cf) x = (cf = x)"
| "releasing (Release_locked cf _) x = (cf = x)"
| "releasing (Release_counted cf _ _) x = (cf = x)"
| "releasing (Release_unlock cf success) x = (cf = x \<and> \<not> success)"
| "releasing (Release_free cf) x = (cf = x)"
| "releasing _ x = False"

fun in_flight :: "frame list \<Rightarrow> object \<Rightarrow> nat" where
  "in_flight [] x = 0"
| "in_flight (f # fs) x = of_bool (releasing f x) + in_flight fs x"

text \<open>A thread makes calls when it runs no function of the runtime, or a finalizer called by it.\<close>

fun free_to_call :: "frame list \<Rightarrow> bool" where
  "free_to_call [] = True"
| "free_to_call (Release_final _ # fs) = True"
| "free_to_call (_ # fs) = False"

text \<open>
  The rules for clients: retain what you have a reference to, release each reference once.  They may
  also hand a reference to another thread, create objects, and write the low byte of a header, as
  the classes do with their flags.
\<close>

inductive cf_step :: "cf_state \<Rightarrow> cf_state \<Rightarrow> bool" where
  run: "stack s t = f # fs \<Longrightarrow> frame_step t f fs s = Some s' \<Longrightarrow> cf_step s s'"
| finalized: "stack s t = Release_final cf # fs \<Longrightarrow> cf_step s (set_stack t (Release_recheck cf # fs) s)"
| call_retain: "free_to_call (stack s t) \<Longrightarrow> is_constant s cf \<or> (t, cf) \<in># owns s \<Longrightarrow>
    cf_step s (set_stack t (Retain_enter cf # stack s t) s)"
| call_release: "free_to_call (stack s t) \<Longrightarrow>
    is_constant s cf \<or> in_flight (stack s t) cf < count (owns s) (t, cf) \<Longrightarrow>
    cf_step s (set_stack t (Release_enter cf # stack s t) s)"
| hand_over: "free_to_call (stack s t) \<Longrightarrow> in_flight (stack s t) cf < count (owns s) (t, cf) \<Longrightarrow>
    cf_step s (gain u cf (lose t cf s))"
| create: "free_to_call (stack s t) \<Longrightarrow> \<not> alive s cf \<Longrightarrow> typeID < CFRuntimeClassTableSize \<Longrightarrow>
    cf_step s (gain t cf (s\<lparr>alive := (alive s)(cf := True),
      info := (info s)(cf := header_word 1 False typeID usesSystemDefault)\<rparr>))"
| write_flags: "free_to_call (stack s t) \<Longrightarrow> is_constant s cf \<or> (t, cf) \<in># owns s \<Longrightarrow>
    cf_step s (s\<lparr>info := (info s)(cf := (info s cf AND NOT 0xFF) OR ucast (flags :: 8 word))\<rparr>)"

text \<open>
  At the start no thread runs, nobody holds a reference, and only constant objects exist.
\<close>

definition cf_initial :: "cf_state \<Rightarrow> bool" where
  "cf_initial s \<longleftrightarrow> (\<forall>cf. alive s cf \<longrightarrow> rc_of (info s cf) = 0) \<and> (\<forall>cf. extern s cf = 0) \<and> lock s = None \<and>
     (\<forall>t. stack s t = []) \<and> owns s = {#}"

inductive cf_reachable :: "cf_state \<Rightarrow> bool" where
  start: "cf_initial s \<Longrightarrow> cf_reachable s"
| step: "cf_reachable s \<Longrightarrow> cf_step s s' \<Longrightarrow> cf_reachable s'"

subsection \<open>Reading the count\<close>


definition composite_count :: "nat \<Rightarrow> nat \<Rightarrow> nat" where
  "composite_count lowBits highBits = (lowBits AND 0x7f) + push_bit 6 highBits"






subsection \<open>The count byte\<close>

lemma get_rc: "get_bits w RC_END RC_START = drop_bit 24 w"
proof -
  have "CFBitfieldMask 31 24 = push_bit 24 (mask 8)"
    by (rule bit_word_eqI) (auto simp: bit_CFBitfieldMask bit_simps)
  then show ?thesis
    unfolding get_bits_def RC_END_def RC_START_def
    by (intro bit_word_eqI) (auto simp: bit_simps dest: bit_imp_le_length)
qed

lemma rc_of_div: "rc_of w = unat w div 2 ^ 24"
  unfolding rc_of_def get_rc drop_bit_eq_div by (simp add: unat_div)

lemma rc_of_less: "rc_of w < 256"
  using unsigned_less [of w, where 'a = nat] by (simp add: rc_of_div less_mult_imp_div_less)

lemma rc_of_set: "x < 256 \<Longrightarrow> rc_of (set_bits w RC_END RC_START x) = unat x"
proof -
  assume x: "x < 256"
  have "take_bit 8 x = x"
    using x by (intro word_unat_eq_iff [THEN iffD2]) (simp add: unsigned_take_bit_eq take_bit_nat_eq_self word_less_nat_alt)
  then have small: "bit x i \<longrightarrow> i < 8" for i by (metis bit_take_bit_iff)
  have "drop_bit 24 (set_bits w 31 24 x) = x"
  proof (rule bit_word_eqI)
    fix i
    show "bit (drop_bit 24 (set_bits w 31 24 x)) i = bit x i"
      using small [of i] unfolding set_bits_def
      by (auto simp: bit_simps bit_CFBitfieldMask dest: bit_imp_le_length)
  qed
  then show ?thesis unfolding rc_of_def get_rc by (simp add: RC_END_def RC_START_def)
qed

lemma rc_of_plus: "rc_of (w + push_bit RC_START 1) = (rc_of w + 1) mod 256"
proof -
  have "unat (w + push_bit RC_START 1) = (unat w + 2 ^ 24) mod 2 ^ 32"
    by (simp add: RC_START_def push_bit_eq_mult unat_word_ariths)
  then have "rc_of (w + push_bit RC_START 1) = ((unat w + 2 ^ 24) div 2 ^ 24) mod 2 ^ 8"
    using mod_mult2_eq [of "unat w + 2 ^ 24" "2 ^ 24" "2 ^ 8"] unfolding rc_of_div by simp
  moreover have "(unat w + 2 ^ 24) div 2 ^ 24 = unat w div 2 ^ 24 + 1" by simp
  ultimately show ?thesis unfolding rc_of_div by simp
qed

lemma rc_of_minus: "0 < rc_of w \<Longrightarrow> rc_of (w - push_bit RC_START 1) = rc_of w - 1"
proof -
  assume "0 < rc_of w"
  then have le: "2 ^ 24 \<le> unat w" by (simp add: rc_of_div div_greater_zero_iff)
  then have "unat (w - push_bit RC_START 1) = unat w - 2 ^ 24"
    by (simp add: RC_START_def push_bit_eq_mult unat_sub word_le_nat_alt)
  then show ?thesis using le by (simp add: rc_of_div)
qed

lemmas rc_of_shifted = rc_of_plus [unfolded push_bit_of_1] rc_of_minus [unfolded push_bit_of_1]

lemma and_127: "n AND 127 = n mod 128" for n :: nat
proof -
  have "n AND 127 = n AND mask 7" by (simp add: mask_eq_exp_minus_1)
  then show ?thesis by (simp add: take_bit_eq_mask [symmetric] take_bit_eq_mod)
qed

lemma retain_carries_iff: "retain_carries w \<longleftrightarrow> (rc_of w + 1) mod 128 = 0"
proof -
  have "unat (get_bits (w + push_bit RC_START 1) RC_END RC_START AND 0x7F) = (rc_of w + 1) mod 256 AND 127"
    by (simp add: unsigned_and_eq rc_of_shifted flip: rc_of_def)
  also have "\<dots> = (rc_of w + 1) mod 128" by (simp add: and_127 mod_mod_cancel)
  finally show ?thesis unfolding retain_carries_def by (metis unat_0 word_unat_eq_iff)
qed

lemma release_borrows_iff: "release_borrows w \<longleftrightarrow> rc_of w = 128"
  unfolding release_borrows_def rc_of_def by (simp add: word_unat_eq_iff eq_commute push_bit_eq_mult)

lemma rc_of_retain_info: "rc_of (retain_info w) = (if (rc_of w + 1) mod 128 = 0 then 192 else rc_of w + 1)"
proof -
  have k: "(push_bit 7 1 OR push_bit 6 1 :: 32 word) = 192" by code_simp
  have "(rc_of w + 1) mod 256 = rc_of w + 1" if "(rc_of w + 1) mod 128 \<noteq> 0"
    using that rc_of_less [of w] by (cases "rc_of w = 255") auto
  then show ?thesis by (simp add: retain_info_def retain_carries_iff rc_of_set rc_of_shifted k)
qed

lemma rc_of_release_info:
  "0 < rc_of w \<Longrightarrow> rc_of (release_info w n) = (if rc_of w = 128 then (if n = 1 then 63 else 191) else rc_of w - 1)"
proof -
  have k: "(push_bit 6 1 - 1 :: 32 word) = 63" "((push_bit 6 1 OR push_bit 7 1) - 1 :: 32 word) = 191" by code_simp+
  show "0 < rc_of w \<Longrightarrow> ?thesis"
    by (simp add: release_info_def release_borrows_iff rc_of_set rc_of_shifted k)
qed

lemma rc_of_header: "typeID < CFRuntimeClassTableSize \<Longrightarrow> rc_of (header_word 1 False typeID sys) = 1"
  using header_word_fields(4) [of typeID 1 False sys] by (simp add: rc_of_def get_rc)

lemma rc_of_flags: "rc_of ((w AND NOT 0xFF) OR ucast (flags :: 8 word)) = rc_of w"
proof -
  have ff: "(0xFF :: 32 word) = mask 8" by (simp add: mask_eq_exp_minus_1)
  have "drop_bit 24 ((w AND NOT (mask 8)) OR ucast flags) = drop_bit 24 w"
    by (rule bit_word_eqI) (auto simp: bit_simps dest: bit_imp_le_length)
  then show ?thesis by (simp add: rc_of_def get_rc ff)
qed

subsection \<open>The invariant\<close>

definition tokens :: "cf_state \<Rightarrow> object \<Rightarrow> nat" where
  "tokens s x = size (filter_mset (\<lambda>p. snd p = x) (owns s))"

text \<open>
  Between the change of a word with a carry and that of the external count the count read off an
  object is out by 64; this is what the holder of the lock still owes.
\<close>

fun carry_of :: "frame list \<Rightarrow> object \<Rightarrow> int" where
  "carry_of (Retain_carry cf # fs) x = (if cf = x then 64 else 0)"
| "carry_of (Release_carry cf # fs) x = (if cf = x then - 64 else 0)"
| "carry_of fs x = 0"

definition pending :: "cf_state \<Rightarrow> object \<Rightarrow> int" where
  "pending s x = (case lock s of None \<Rightarrow> 0 | Some t \<Rightarrow> carry_of (stack s t) x)"

definition high :: "cf_state \<Rightarrow> object \<Rightarrow> int" where
  "high s x = 64 * int (extern s x) + pending s x"

definition counted :: "cf_state \<Rightarrow> object \<Rightarrow> bool" where
  "counted s x \<longleftrightarrow> alive s x \<and> rc_of (info s x) \<noteq> 0"

definition count_ok :: "cf_state \<Rightarrow> object \<Rightarrow> bool" where
  "count_ok s x \<longleftrightarrow>
     (if counted s x then int (rc_of (info s x) mod 128) + high s x = int (tokens s x) \<and> 0 \<le> high s x \<and>
        (128 \<le> rc_of (info s x) \<longleftrightarrow> 0 < high s x)
      else high s x = 0 \<and> tokens s x = 0)"

fun holds :: "frame list \<Rightarrow> bool" where
  "holds (Retain_locked _ _ # fs) = True"
| "holds (Retain_carry _ # fs) = True"
| "holds (Retain_unlock _ _ # fs) = True"
| "holds (Release_locked _ _ # fs) = True"
| "holds (Release_counted _ _ _ # fs) = True"
| "holds (Release_carry _ # fs) = True"
| "holds (Release_unlock _ _ # fs) = True"
| "holds fs = False"

fun top_ok :: "cf_state \<Rightarrow> thread \<Rightarrow> frame list \<Rightarrow> bool" where
  "top_ok s t (Retain_enter cf # fs) \<longleftrightarrow> is_constant s cf \<or> (t, cf) \<in># owns s"
| "top_ok s t (Retain_load cf # fs) \<longleftrightarrow> (t, cf) \<in># owns s"
| "top_ok s t (Retain_try cf _ # fs) \<longleftrightarrow> (t, cf) \<in># owns s"
| "top_ok s t (Retain_locked cf cfinfo # fs) \<longleftrightarrow> (t, cf) \<in># owns s \<and> retain_carries cfinfo"
| "top_ok s t (Retain_unlock cf success # fs) \<longleftrightarrow> success \<or> (t, cf) \<in># owns s"
| "top_ok s t (Release_try cf cfinfo # fs) \<longleftrightarrow> rc_of cfinfo \<noteq> 0 \<and> (rc_of cfinfo = 1 \<longrightarrow> tokens s cf = 1)"
| "top_ok s t (Release_locked cf cfinfo # fs) \<longleftrightarrow> release_borrows cfinfo"
| "top_ok s t (Release_counted cf cfinfo n # fs) \<longleftrightarrow> release_borrows cfinfo \<and> n = extern s cf"
| "top_ok s t (Release_free cf # fs) \<longleftrightarrow> tokens s cf = 1"
| "top_ok s t fs \<longleftrightarrow> True"

definition thread_ok :: "cf_state \<Rightarrow> thread \<Rightarrow> bool" where
  "thread_ok s t \<longleftrightarrow>
     (\<forall>f \<in> set (tl (stack s t)). \<exists>cf. f = Release_final cf) \<and>
     (lock s = Some t \<longleftrightarrow> holds (stack s t)) \<and>
     (\<forall>f \<in> set (stack s t). \<forall>x. releasing f x \<and> f \<noteq> Release_enter x \<longrightarrow> \<not> is_constant s x) \<and>
     (\<forall>x. \<not> is_constant s x \<longrightarrow> in_flight (stack s t) x \<le> count (owns s) (t, x)) \<and>
     top_ok s t (stack s t)"

definition cf_inv :: "cf_state \<Rightarrow> bool" where
  "cf_inv s \<longleftrightarrow> (\<forall>t. thread_ok s t) \<and> (\<forall>x. count_ok s x)"

lemma state_sel [simp]:
  "info (set_stack t fs s) = info s" "alive (set_stack t fs s) = alive s" "extern (set_stack t fs s) = extern s"
  "lock (set_stack t fs s) = lock s" "owns (set_stack t fs s) = owns s" "stack (set_stack t fs s) = (stack s)(t := fs)"
  "info (gain t cf s) = info s" "alive (gain t cf s) = alive s" "extern (gain t cf s) = extern s"
  "lock (gain t cf s) = lock s" "owns (gain t cf s) = owns s + {#(t, cf)#}" "stack (gain t cf s) = stack s"
  "info (lose t cf s) = info s" "alive (lose t cf s) = alive s" "extern (lose t cf s) = extern s"
  "lock (lose t cf s) = lock s" "owns (lose t cf s) = owns s - {#(t, cf)#}" "stack (lose t cf s) = stack s"
  by (simp_all add: set_stack_def gain_def lose_def)

lemma tokens_pos: "(t, x) \<in># owns s \<Longrightarrow> 0 < tokens s x"
  using multi_member_split [of "(t, x)" "owns s"] by (auto simp: tokens_def)

lemma tokens_gain: "owns s' = owns s + {#(t, cf)#} \<Longrightarrow> tokens s' x = tokens s x + of_bool (x = cf)"
  by (auto simp: tokens_def)

lemma tokens_lose:
  "owns s' = owns s - {#(t, cf)#} \<Longrightarrow> (t, cf) \<in># owns s \<Longrightarrow> tokens s x = tokens s' x + of_bool (x = cf)"
  using multi_member_split [of "(t, cf)" "owns s"] by (auto simp: tokens_def)

lemma tokens_cong: "owns s' = owns s \<Longrightarrow> tokens s' x = tokens s x"
  by (simp add: tokens_def)

lemma only_token:
  assumes "tokens s x = 1" "(t, x) \<in># owns s"
  shows "(u, x) \<in># owns s \<Longrightarrow> u = t" "count (owns s) (t, x) = 1"
proof -
  obtain M where M: "owns s = add_mset (t, x) M" using multi_member_split [OF assms(2)] by blast
  then have "size (filter_mset (\<lambda>p. snd p = x) M) = 0" using assms(1) by (simp add: tokens_def)
  then have "(v, x) \<notin># M" for v using multi_member_split [of "(v, x)" M] by auto
  then show "(u, x) \<in># owns s \<Longrightarrow> u = t" "count (owns s) (t, x) = 1" by (auto simp: M not_in_iff)
qed

lemma thread_okD:
  assumes "thread_ok s t" "stack s t = f # fs"
  shows "lock s = Some t \<longleftrightarrow> holds (f # fs)" "top_ok s t (f # fs)"
    and "releasing f x \<Longrightarrow> f \<noteq> Release_enter x \<Longrightarrow> \<not> is_constant s x \<and> (t, x) \<in># owns s"
proof -
  show "lock s = Some t \<longleftrightarrow> holds (f # fs)" "top_ok s t (f # fs)" using assms by (auto simp: thread_ok_def)
  assume r: "releasing f x" "f \<noteq> Release_enter x"
  then have c: "\<not> is_constant s x" using assms by (auto simp: thread_ok_def)
  then have "in_flight (f # fs) x \<le> count (owns s) (t, x)" using assms by (auto simp: thread_ok_def)
  then have "count (owns s) (t, x) \<noteq> 0" using r(1) by (intro notI) simp
  then show "\<not> is_constant s x \<and> (t, x) \<in># owns s" using c by simp
qed

lemma others_ok:
  assumes ok: "thread_ok s u" and same: "stack s' u = stack s u" "lock s' = Some u \<longleftrightarrow> lock s = Some u"
    and const: "\<And>x. is_constant s' x \<longleftrightarrow> is_constant s x"
    and more: "\<And>x. count (owns s) (u, x) \<le> count (owns s') (u, x)"
    and ext: "lock s = Some u \<Longrightarrow> extern s' = extern s"
    and one: "\<And>x. (u, x) \<in># owns s \<Longrightarrow> tokens s x = 1 \<Longrightarrow> tokens s' x = 1"
  shows "thread_ok s' u"
proof -
  have mem: "(u, x) \<in># owns s \<Longrightarrow> (u, x) \<in># owns s'" for x
    using more [of x] by (metis count_greater_zero_iff less_le_trans)
  have "top_ok s' u (stack s u)"
  proof (cases "stack s u")
    case (Cons f fs)
    note top = thread_okD [OF ok Cons]
    show ?thesis
      using top(1,2) top(3) [of "case f of Release_try cf _ \<Rightarrow> cf | Release_free cf \<Rightarrow> cf | _ \<Rightarrow> 0"] mem const one ext
      unfolding Cons by (cases f) auto
  qed simp
  moreover have "in_flight (stack s u) x \<le> count (owns s') (u, x)" if "\<not> is_constant s x" for x
    using ok that more [of x] by (auto simp: thread_ok_def intro: le_trans)
  ultimately show ?thesis using ok by (simp add: thread_ok_def same const)
qed

lemma count_ok_cong:
  assumes "count_ok s x" "info s' x = info s x" "alive s' x = alive s x" "high s' x = high s x" "tokens s' x = tokens s x"
  shows "count_ok s' x"
  using assms by (simp add: count_ok_def counted_def)

lemma pending_other:
  assumes "\<And>u. u \<noteq> t \<Longrightarrow> stack s' u = stack s u" "\<And>u. u \<noteq> t \<Longrightarrow> lock s' = Some u \<longleftrightarrow> lock s = Some u"
    and "(if lock s' = Some t then carry_of (stack s' t) x else 0) = (if lock s = Some t then carry_of (stack s t) x else 0)"
  shows "pending s' x = pending s x"
  using assms by (cases "lock s"; cases "lock s'") (auto simp: pending_def split: if_splits)

text \<open>A step that changes only the stack of one thread, and perhaps the lock.\<close>

lemma quiet_step:
  assumes inv: "cf_inv s" and stack: "stack s' = (stack s)(t := fs')"
    and same: "info s' = info s" "alive s' = alive s" "extern s' = extern s" "owns s' = owns s"
    and lock: "\<And>u. u \<noteq> t \<Longrightarrow> lock s' = Some u \<longleftrightarrow> lock s = Some u"
    and carry: "\<And>x. carry_of fs' x = 0" "\<And>x. carry_of (stack s t) x = 0"
    and ok: "thread_ok s' t"
  shows "cf_inv s'"
proof -
  have "pending s' x = pending s x" for x
    by (rule pending_other [of t]) (simp_all add: stack lock carry)
  then have "count_ok s' x" for x
    using inv by - (rule count_ok_cong [of s x], simp_all add: cf_inv_def same high_def tokens_def)
  moreover have "thread_ok s' u" for u
  proof (cases "u = t")
    case False
    then show ?thesis
      using inv by - (rule others_ok [of s u], simp_all add: cf_inv_def stack lock same tokens_def is_constant_def)
  qed (simp add: ok)
  ultimately show ?thesis by (simp add: cf_inv_def)
qed

text \<open>A step of one thread that changes one object.\<close>

lemma object_step:
  assumes inv: "cf_inv s" and stack: "stack s' = (stack s)(t := fs')" and lock: "lock s' = lock s"
    and same: "\<And>x. x \<noteq> cf \<Longrightarrow> info s' x = info s x \<and> alive s' x = alive s x \<and> extern s' x = extern s x \<and> tokens s' x = tokens s x"
    and carry: "\<And>x. x \<noteq> cf \<Longrightarrow> lock s = Some t \<Longrightarrow> carry_of fs' x = carry_of (stack s t) x"
    and const: "is_constant s' cf \<longleftrightarrow> is_constant s cf"
    and more: "\<And>u x. u \<noteq> t \<Longrightarrow> count (owns s) (u, x) \<le> count (owns s') (u, x)"
    and ext: "\<And>u. u \<noteq> t \<Longrightarrow> lock s = Some u \<Longrightarrow> extern s' = extern s"
    and one: "\<And>u. u \<noteq> t \<Longrightarrow> (u, cf) \<in># owns s \<Longrightarrow> tokens s cf = 1 \<Longrightarrow> tokens s' cf = 1"
    and ok: "count_ok s' cf" "thread_ok s' t"
  shows "cf_inv s'"
proof -
  have "count_ok s' x" for x
  proof (cases "x = cf")
    case False
    have "pending s' x = pending s x"
      by (rule pending_other [of t]) (simp_all add: stack lock carry [OF False])
    then show ?thesis
      using inv same [OF False] by - (rule count_ok_cong [of s x], simp_all add: cf_inv_def high_def)
  qed (simp add: ok)
  moreover have "thread_ok s' u" for u
  proof (cases "u = t")
    case False
    have "is_constant s' x \<longleftrightarrow> is_constant s x" for x
      using const same [of x] by (cases "x = cf") (auto simp: is_constant_def)
    moreover have "(u, x) \<in># owns s \<Longrightarrow> tokens s x = 1 \<Longrightarrow> tokens s' x = 1" for x
      using one [OF False] same [of x] by (cases "x = cf") auto
    ultimately show ?thesis
      using inv False more [OF False] ext [OF False]
      by - (rule others_ok [of s u], simp_all add: cf_inv_def stack lock)
  qed (simp add: ok)
  ultimately show ?thesis by (simp add: cf_inv_def)
qed

definition finals :: "frame list \<Rightarrow> bool" where
  "finals fs \<longleftrightarrow> (\<forall>f \<in> set fs. \<exists>cf. f = Release_final cf)"

lemma finals_top: "finals fs \<Longrightarrow> \<not> holds fs \<and> top_ok s t fs \<and> carry_of fs x = 0 \<and> free_to_call fs"
  by (cases fs) (auto simp: finals_def)

lemma thread_ok_finals: "thread_ok s t \<Longrightarrow> stack s t = f # fs \<Longrightarrow> finals fs"
  by (auto simp: thread_ok_def finals_def)

lemma free_finals: "thread_ok s t \<Longrightarrow> free_to_call (stack s t) \<Longrightarrow> finals (stack s t)"
  by (cases "stack s t" rule: free_to_call.cases) (auto simp: thread_ok_def finals_def)

lemma token_counted:
  assumes "cf_inv s" "(t, x) \<in># owns s"
  shows "counted s x" "\<not> is_constant s x"
    "int (rc_of (info s x) mod 128) + high s x = int (tokens s x)" "0 \<le> high s x"
    "128 \<le> rc_of (info s x) \<longleftrightarrow> 0 < high s x" "rc_of (info s x) \<noteq> 0"
proof -
  have "count_ok s x" using assms by (simp add: cf_inv_def)
  then show "counted s x" "int (rc_of (info s x) mod 128) + high s x = int (tokens s x)" "0 \<le> high s x"
    "128 \<le> rc_of (info s x) \<longleftrightarrow> 0 < high s x"
    using tokens_pos [OF assms(2)] by (auto simp: count_ok_def split: if_splits)
  then show "\<not> is_constant s x" "rc_of (info s x) \<noteq> 0" by (auto simp: counted_def is_constant_def)
qed

lemma pending_holder: "lock s = Some t \<Longrightarrow> pending s x = carry_of (stack s t) x"
  by (simp add: pending_def)

lemma high_cong:
  assumes "stack s' = stack s" "lock s' = lock s" "extern s' x = extern s x"
  shows "high s' x = high s x"
  using assms by (cases "lock s") (simp_all add: high_def pending_def)

lemma pending_64: "64 dvd pending s x"
proof -
  have "64 dvd carry_of fs x" for fs by (induction fs x rule: carry_of.induct) auto
  then show ?thesis by (simp add: pending_def split: option.split)
qed

lemma high_64: "64 dvd high s x"
  using pending_64 [of s x] by (simp add: high_def)

lemma last_token:
  assumes "cf_inv s" "(t, x) \<in># owns s" "rc_of (info s x) = 1"
  shows "tokens s x = 1"
  using token_counted [OF assms(1,2)] assms(3) by simp

lemma mod_128: "r < 256 \<Longrightarrow> r mod 128 = (if r < 128 then r else r - 128)" for r :: nat
  by (simp add: mod_if [of r] mod_less)

lemma retain_arith:
  fixes r :: nat
  assumes "r < 256" "(r + 1) mod 128 \<noteq> 0"
  shows "(r + 1) mod 128 = r mod 128 + 1" "128 \<le> r + 1 \<longleftrightarrow> 128 \<le> r"
proof -
  have "r \<noteq> 127" "r \<noteq> 255" using assms(2) by auto
  then show "(r + 1) mod 128 = r mod 128 + 1" "128 \<le> r + 1 \<longleftrightarrow> 128 \<le> r"
    using assms(1) by (auto simp: mod_128)
qed

lemma release_arith:
  fixes r :: nat
  assumes "1 < r" "r < 256" "r \<noteq> 128"
  shows "r mod 128 = (r - 1) mod 128 + 1" "128 \<le> r - 1 \<longleftrightarrow> 128 \<le> r"
  using assms by (auto simp: mod_128)

subsection \<open>Every step keeps the invariant\<close>

lemma stepped:
  assumes old: "thread_ok s t" "stack s t = f # fs"
    and new: "stack s' t = g # fs" "lock s' = Some t \<longleftrightarrow> holds (g # fs)"
    and const: "\<And>x. is_constant s' x \<longleftrightarrow> is_constant s x"
    and owns: "\<And>x. of_bool (releasing g x) + count (owns s) (t, x) \<le> of_bool (releasing f x) + count (owns s') (t, x)"
    and entered: "\<And>x. releasing g x \<Longrightarrow> g \<noteq> Release_enter x \<Longrightarrow> \<not> is_constant s x"
    and top: "top_ok s' t (g # fs)"
  shows "thread_ok s' t"
proof -
  have "in_flight (g # fs) x \<le> count (owns s') (t, x)" if "\<not> is_constant s x" for x
  proof -
    have "in_flight (f # fs) x \<le> count (owns s) (t, x)" using old that by (auto simp: thread_ok_def)
    then show ?thesis using owns [of x] by simp
  qed
  then show ?thesis using old new entered top by (auto simp: thread_ok_def const)
qed

lemma popped:
  assumes old: "thread_ok s t" "stack s t = f # fs" and new: "stack s' t = fs" "lock s' \<noteq> Some t"
    and const: "\<And>x. is_constant s' x \<longleftrightarrow> is_constant s x"
    and owns: "\<And>x. count (owns s) (t, x) \<le> of_bool (releasing f x) + count (owns s') (t, x)"
  shows "thread_ok s' t"
proof -
  have "finals fs" using old by (rule thread_ok_finals)
  moreover have "in_flight fs x \<le> count (owns s') (t, x)" if "\<not> is_constant s x" for x
  proof -
    have "in_flight (f # fs) x \<le> count (owns s) (t, x)" using old that by (auto simp: thread_ok_def)
    then show ?thesis using owns [of x] by simp
  qed
  ultimately show ?thesis
    using old new finals_top [of fs s' t] by (cases fs) (auto simp: thread_ok_def const finals_def)
qed

lemma acquire_Some: "acquire t s = Some s' \<longleftrightarrow> lock s = None \<and> s' = s\<lparr>lock := Some t\<rparr>"
  by (auto simp: acquire_def)

lemma CAS32_cases:
  "CAS32 old new cf s = (if info s cf = old then (True, s\<lparr>info := (info s)(cf := new)\<rparr>) else (False, s))"
  by (simp add: CAS32_def)

lemma extern_operations [simp]:
  "CFDoExternRefOperation 350 cf s = (cf, s\<lparr>extern := (extern s)(cf := extern s cf + 1)\<rparr>)"
  "CFDoExternRefOperation 450 cf s = (of_bool (extern s cf = 0), s\<lparr>extern := (extern s)(cf := extern s cf - 1)\<rparr>)"
  "CFDoExternRefOperation 500 cf s = (extern s cf, s)"
  by (simp_all add: CFDoExternRefOperation_def)

text \<open>A retain that does not carry: the word goes up by one.\<close>

lemma retain_plain_inv:
  assumes inv: "cf_inv s" and top: "stack s t = Retain_try cf w # fs" and w: "info s cf = w" "\<not> retain_carries w"
    and s': "s' = set_stack t fs (gain t cf (s\<lparr>info := (info s)(cf := retain_info w)\<rparr>))"
  shows "cf_inv s'"
proof -
  have ok: "thread_ok s t" using inv by (simp add: cf_inv_def)
  have token: "(t, cf) \<in># owns s" and free: "lock s \<noteq> Some t" using thread_okD(1,2) [OF ok top] by simp_all
  note c = token_counted [OF inv token]
  have rc: "rc_of (retain_info w) = rc_of w + 1" "(rc_of w + 1) mod 128 \<noteq> 0"
    using w(2) by (simp_all add: rc_of_retain_info retain_carries_iff)
  have same: "owns s' = owns s + {#(t, cf)#}" "lock s' = lock s" "stack s' = (stack s)(t := fs)" "extern s' = extern s"
    "alive s' = alive s" "info s' = (info s)(cf := retain_info w)" by (simp_all add: s')
  have "pending s' cf = pending s cf"
    using free by (intro pending_other [of t]) (simp_all add: same)
  then have count: "count_ok s' cf"
    using c rc retain_arith [OF rc_of_less rc(2)] w(1)
    by (simp add: count_ok_def counted_def high_def same tokens_gain [OF same(1)])
  have const: "is_constant s' x \<longleftrightarrow> is_constant s x" for x
    using c(6) rc(1) w(1) by (simp add: is_constant_def same)
  show ?thesis
  proof (rule object_step [OF inv same(3,2) _ _ const _ _ _ count])
    show "thread_ok s' t"
      using free by (rule_tac popped [OF ok top]) (simp_all add: same const)
    show "\<And>u. u \<noteq> t \<Longrightarrow> (u, cf) \<in># owns s \<Longrightarrow> tokens s cf = 1 \<Longrightarrow> tokens s' cf = 1"
      using only_token(1) [OF _ token] by blast
  qed (use free in \<open>auto simp: same tokens_gain [OF same(1)]\<close>)
qed

text \<open>A retain that carries: the word goes from 127 in its low bits to 64, and 64 are owed.\<close>

lemma retain_carry_inv:
  assumes inv: "cf_inv s" and top: "stack s t = Retain_locked cf w # fs" and w: "info s cf = w"
    and s': "s' = set_stack t (Retain_carry cf # fs) (gain t cf (s\<lparr>info := (info s)(cf := retain_info w)\<rparr>))"
  shows "cf_inv s'"
proof -
  have ok: "thread_ok s t" using inv by (simp add: cf_inv_def)
  have token: "(t, cf) \<in># owns s" and mine: "lock s = Some t" and "retain_carries w"
    using thread_okD(1,2) [OF ok top] by simp_all
  note c = token_counted [OF inv token]
  have rc: "rc_of (retain_info w) = 192" "(rc_of w + 1) mod 128 = 0"
    using \<open>retain_carries w\<close> by (simp_all add: rc_of_retain_info retain_carries_iff)
  have low: "rc_of w mod 128 = 127"
    using rc(2) rc_of_less [of w] mod_128 [of "rc_of w"] by (cases "rc_of w = 255") (auto simp: mod_128 split: if_splits)
  have same: "owns s' = owns s + {#(t, cf)#}" "lock s' = lock s" "stack s' = (stack s)(t := Retain_carry cf # fs)"
    "extern s' = extern s" "alive s' = alive s" "info s' = (info s)(cf := retain_info w)" by (simp_all add: s')
  have "high s' cf = high s cf + 64"
    using mine top by (simp add: high_def pending_holder same)
  then have count: "count_ok s' cf"
    using c rc(1) low w by (simp add: count_ok_def counted_def same tokens_gain [OF same(1)])
  have const: "is_constant s' x \<longleftrightarrow> is_constant s x" for x
    using c(6) rc(1) w by (simp add: is_constant_def same)
  show ?thesis
  proof (rule object_step [OF inv same(3,2) _ _ const _ _ _ count])
    show "thread_ok s' t"
      using mine by (rule_tac stepped [where g = "Retain_carry cf", OF ok top]) (simp_all add: same const)
    show "\<And>u. u \<noteq> t \<Longrightarrow> (u, cf) \<in># owns s \<Longrightarrow> tokens s cf = 1 \<Longrightarrow> tokens s' cf = 1"
      using only_token(1) [OF _ token] by blast
  qed (use mine top in \<open>auto simp: same tokens_gain [OF same(1)]\<close>)
qed

text \<open>The external count takes over what is owed.\<close>

lemma carry_paid_inv:
  assumes inv: "cf_inv s" and top: "stack s t = f # fs"
    and f: "f = Retain_carry cf \<and> n = extern s cf + 1 \<and> g = Retain_unlock cf True \<or>
      f = Release_carry cf \<and> n = extern s cf - 1 \<and> g = Release_unlock cf True"
    and s': "s' = set_stack t (g # fs) (s\<lparr>extern := (extern s)(cf := n)\<rparr>)"
  shows "cf_inv s'"
proof -
  have ok: "thread_ok s t" "count_ok s cf" using inv by (simp_all add: cf_inv_def)
  have mine: "lock s = Some t" using thread_okD(1) [OF ok(1) top] f by auto
  have same: "owns s' = owns s" "lock s' = lock s" "stack s' = (stack s)(t := g # fs)"
    "extern s' = (extern s)(cf := n)" "alive s' = alive s" "info s' = info s" by (simp_all add: s')
  have "0 \<le> high s cf" using ok(2) by (auto simp: count_ok_def split: if_splits)
  then have high: "high s' cf = high s cf"
    using f mine top by (auto simp: high_def pending_holder same)
  have const: "is_constant s' x \<longleftrightarrow> is_constant s x" for x by (simp add: is_constant_def same)
  show ?thesis
  proof (rule object_step [OF inv same(3,2) _ _ const])
    show "count_ok s' cf"
      by (rule count_ok_cong [OF ok(2)]) (simp_all add: same high tokens_cong [OF same(1)])
    show "thread_ok s' t"
      using mine f by (rule_tac stepped [where g = g, OF ok(1) top]) (auto simp: same const)
  qed (use f mine top in \<open>auto simp: same tokens_cong [OF same(1)]\<close>)
qed

text \<open>A release that does not borrow: the word goes down by one, and a reference is given up.\<close>

lemma release_plain_inv:
  assumes inv: "cf_inv s" and top: "stack s t = Release_try cf w # fs" and w: "info s cf = w"
    and r: "rc_of w \<noteq> 1" "\<not> release_borrows w"
    and s': "s' = set_stack t fs (lose t cf (s\<lparr>info := (info s)(cf := release_info w n)\<rparr>))"
  shows "cf_inv s'"
proof -
  have ok: "thread_ok s t" using inv by (simp add: cf_inv_def)
  have free: "lock s \<noteq> Some t" and nz: "rc_of w \<noteq> 0" using thread_okD(1,2) [OF ok top] by simp_all
  have token: "(t, cf) \<in># owns s" using thread_okD(3) [OF ok top, of cf] by simp
  note c = token_counted [OF inv token]
  have two: "1 < rc_of w" "rc_of w \<noteq> 128" using r nz by (simp_all add: release_borrows_iff)
  then have rc: "rc_of (release_info w n) = rc_of w - 1" by (simp add: rc_of_release_info)
  have same: "owns s' = owns s - {#(t, cf)#}" "lock s' = lock s" "stack s' = (stack s)(t := fs)"
    "extern s' = extern s" "alive s' = alive s" "info s' = (info s)(cf := release_info w n)" by (simp_all add: s')
  note lost = tokens_lose [OF same(1) token]
  have "pending s' cf = pending s cf" using free by (intro pending_other [of t]) (simp_all add: same)
  then have count: "count_ok s' cf"
    using c(1,3-5) rc release_arith [OF two(1) rc_of_less two(2)] two w lost [of cf]
    by (simp add: count_ok_def counted_def high_def same)
  have const: "is_constant s' x \<longleftrightarrow> is_constant s x" for x
    using c(6) rc two w by (simp add: is_constant_def same)
  show ?thesis
  proof (rule object_step [OF inv same(3,2) _ _ const _ _ _ count])
    show "thread_ok s' t"
      using free token by (rule_tac popped [OF ok top]) (auto simp: same const)
    show "\<And>u. u \<noteq> t \<Longrightarrow> (u, cf) \<in># owns s \<Longrightarrow> tokens s cf = 1 \<Longrightarrow> tokens s' cf = 1"
      using only_token(1) [OF _ token] by blast
  qed (use free lost in \<open>auto simp: same\<close>)
qed

text \<open>A release that borrows: from 128 the word goes to 191, or to 63 with the last external reference.\<close>

lemma release_borrow_inv:
  assumes inv: "cf_inv s" and top: "stack s t = Release_counted cf w n # fs" and w: "info s cf = w"
    and s': "s' = set_stack t (Release_carry cf # fs) (lose t cf (s\<lparr>info := (info s)(cf := release_info w n)\<rparr>))"
  shows "cf_inv s'"
proof -
  have ok: "thread_ok s t" using inv by (simp add: cf_inv_def)
  have mine: "lock s = Some t" and b: "rc_of w = 128" "n = extern s cf"
    using thread_okD(1,2) [OF ok top] by (simp_all add: release_borrows_iff)
  have token: "(t, cf) \<in># owns s" using thread_okD(3) [OF ok top, of cf] by simp
  note c = token_counted [OF inv token]
  have rc: "rc_of (release_info w n) = (if n = 1 then 63 else 191)" using b by (simp add: rc_of_release_info)
  have same: "owns s' = owns s - {#(t, cf)#}" "lock s' = lock s" "stack s' = (stack s)(t := Release_carry cf # fs)"
    "extern s' = extern s" "alive s' = alive s" "info s' = (info s)(cf := release_info w n)" by (simp_all add: s')
  note lost = tokens_lose [OF same(1) token]
  have high: "high s cf = 64 * int n" "high s' cf = 64 * int n - 64"
    using mine top b by (simp_all add: high_def pending_holder same)
  then have "0 < n" using c(5) b w by simp
  then have count: "count_ok s' cf"
    using c(1,3) rc b w lost [of cf] high by (simp add: count_ok_def counted_def same)
  have const: "is_constant s' x \<longleftrightarrow> is_constant s x" for x
    using c(6) rc w by (simp add: is_constant_def same)
  show ?thesis
  proof (rule object_step [OF inv same(3,2) _ _ const _ _ _ count])
    show "thread_ok s' t"
      using mine token by (rule_tac stepped [where g = "Release_carry cf", OF ok top]) (auto simp: same const)
    show "\<And>u. u \<noteq> t \<Longrightarrow> (u, cf) \<in># owns s \<Longrightarrow> tokens s cf = 1 \<Longrightarrow> tokens s' cf = 1"
      using only_token(1) [OF _ token] by blast
  qed (use mine top lost in \<open>auto simp: same\<close>)
qed

text \<open>Freeing: the last reference goes with the object.\<close>

lemma release_free_inv:
  assumes inv: "cf_inv s" and top: "stack s t = Release_free cf # fs"
    and s': "s' = set_stack t fs (lose t cf (s\<lparr>alive := (alive s)(cf := False)\<rparr>))"
  shows "cf_inv s'"
proof -
  have ok: "thread_ok s t" using inv by (simp add: cf_inv_def)
  have free: "lock s \<noteq> Some t" and last: "tokens s cf = 1" using thread_okD(1,2) [OF ok top] by simp_all
  have token: "(t, cf) \<in># owns s" using thread_okD(3) [OF ok top, of cf] by simp
  note c = token_counted [OF inv token]
  have same: "owns s' = owns s - {#(t, cf)#}" "lock s' = lock s" "stack s' = (stack s)(t := fs)"
    "extern s' = extern s" "alive s' = (alive s)(cf := False)" "info s' = info s" by (simp_all add: s')
  note lost = tokens_lose [OF same(1) token]
  have "\<not> 0 < high s cf"
  proof
    assume "0 < high s cf"
    then have "64 \<le> high s cf" by (rule zdvd_imp_le [OF high_64])
    then show False using c(3) last by linarith
  qed
  then have "high s cf = 0" using c(4) by linarith
  moreover have "pending s' cf = pending s cf" using free by (intro pending_other [of t]) (simp_all add: same)
  ultimately have count: "count_ok s' cf"
    using last lost [of cf] by (simp add: count_ok_def counted_def high_def same)
  have const: "is_constant s' x \<longleftrightarrow> is_constant s x" for x
    using c(6) by (auto simp: is_constant_def same)
  show ?thesis
  proof (rule object_step [OF inv same(3,2) _ _ const _ _ _ count])
    show "thread_ok s' t"
      using free token by (rule_tac popped [OF ok top]) (auto simp: same const)
    show "\<And>u. u \<noteq> t \<Longrightarrow> (u, cf) \<in># owns s \<Longrightarrow> tokens s cf = 1 \<Longrightarrow> tokens s' cf = 1"
      using only_token(1) [OF _ token] by blast
  qed (use free lost in \<open>auto simp: same\<close>)
qed

text \<open>Steps that replace the top frame, or drop it, and change nothing else but the lock.\<close>

lemma replace_top:
  assumes inv: "cf_inv s" and top: "stack s t = f # fs"
    and s': "info s' = info s" "alive s' = alive s" "extern s' = extern s" "owns s' = owns s"
      "stack s' = (stack s)(t := g # fs)" "\<And>u. u \<noteq> t \<Longrightarrow> lock s' = Some u \<longleftrightarrow> lock s = Some u"
    and g: "\<And>x. carry_of (g # fs) x = 0" "\<And>x. carry_of (f # fs) x = 0" "lock s' = Some t \<longleftrightarrow> holds (g # fs)"
      "\<And>x. releasing g x \<longleftrightarrow> releasing f x"
      "\<And>x. releasing f x \<Longrightarrow> f \<noteq> Release_enter x \<or> \<not> is_constant s x" "top_ok s' t (g # fs)"
  shows "cf_inv s'"
proof -
  have ok: "thread_ok s t" using inv by (simp add: cf_inv_def)
  have const: "is_constant s' x \<longleftrightarrow> is_constant s x" for x by (simp add: is_constant_def s')
  have "thread_ok s' t"
  proof (rule stepped [where g = g, OF ok top])
    fix x assume "releasing g x"
    then show "\<not> is_constant s x" using thread_okD(3) [OF ok top, of x] g(4,5) by blast
  qed (use g s' const in auto)
  then show ?thesis
    using g top by (rule_tac quiet_step [OF inv s'(5,1-4,6)]) simp_all
qed

lemma drop_top:
  assumes inv: "cf_inv s" and top: "stack s t = f # fs"
    and s': "info s' = info s" "alive s' = alive s" "extern s' = extern s" "owns s' = owns s"
      "stack s' = (stack s)(t := fs)" "\<And>u. u \<noteq> t \<Longrightarrow> lock s' = Some u \<longleftrightarrow> lock s = Some u"
    and g: "\<And>x. carry_of (f # fs) x = 0" "lock s' \<noteq> Some t"
  shows "cf_inv s'"
proof -
  have ok: "thread_ok s t" using inv by (simp add: cf_inv_def)
  have const: "is_constant s' x \<longleftrightarrow> is_constant s x" for x by (simp add: is_constant_def s')
  have "thread_ok s' t" using g s' const by (rule_tac popped [OF ok top]) simp_all
  then show ?thesis
    using g top finals_top [OF thread_ok_finals [OF ok top]]
    by (rule_tac quiet_step [OF inv s'(5,1-4,6)]) simp_all
qed

lemma retain_step_inv:
  assumes inv: "cf_inv s" and top: "stack s t = f # fs" and step: "retain_step t f fs s = Some s'"
  shows "cf_inv s'"
proof -
  have ok: "thread_ok s t" using inv by (simp add: cf_inv_def)
  note replace = replace_top [OF inv top] and drop = drop_top [OF inv top] and t = thread_okD(1,2) [OF ok top]
  show ?thesis
  proof (cases f)
    case (Retain_enter cf)
    show ?thesis
    proof (cases "rc_of (info s cf) = 0")
      case True
      then have "s' = set_stack t fs s" using step Retain_enter by simp
      then show ?thesis using t Retain_enter by (rule_tac drop) simp_all
    next
      case False
      then have "s' = set_stack t (Retain_load cf # fs) s" using step Retain_enter by simp
      moreover have "(t, cf) \<in># owns s" using t(2) False Retain_enter by (auto simp: is_constant_def)
      ultimately show ?thesis using t Retain_enter by (rule_tac g = "Retain_load cf" in replace) simp_all
    qed
  next
    case (Retain_load cf)
    then have "s' = set_stack t (Retain_try cf (info s cf) # fs) s" using step by simp
    then show ?thesis using t Retain_load by (rule_tac g = "Retain_try cf (info s cf)" in replace) simp_all
  next
    case (Retain_try cf w)
    consider "retain_carries w" | "\<not> retain_carries w" "info s cf = w" | "\<not> retain_carries w" "info s cf \<noteq> w" by blast
    then show ?thesis
    proof cases
      case 1
      then have "lock s = None" "s' = set_stack t (Retain_locked cf w # fs) (s\<lparr>lock := Some t\<rparr>)"
        using step Retain_try by (auto simp: option_bind_eq_Some acquire_Some)
      then show ?thesis using t Retain_try 1 by (rule_tac g = "Retain_locked cf w" in replace) simp_all
    next
      case 2
      then show ?thesis
        using step Retain_try top by (intro retain_plain_inv [OF inv, of t cf w fs]) (simp_all add: CAS32_cases)
    next
      case 3
      then have "s' = set_stack t (Retain_load cf # fs) s" using step Retain_try by (simp add: CAS32_cases)
      then show ?thesis using t Retain_try by (rule_tac g = "Retain_load cf" in replace) simp_all
    qed
  next
    case (Retain_locked cf w)
    show ?thesis
    proof (cases "info s cf = w")
      case True
      then show ?thesis
        using step Retain_locked top by (intro retain_carry_inv [OF inv, of t cf w fs]) (simp_all add: CAS32_cases)
    next
      case False
      then have "s' = set_stack t (Retain_unlock cf False # fs) s" using step Retain_locked by (simp add: CAS32_cases)
      then show ?thesis using t Retain_locked by (rule_tac g = "Retain_unlock cf False" in replace) simp_all
    qed
  next
    case (Retain_carry cf)
    then show ?thesis
      using step top by (intro carry_paid_inv [OF inv, of t f fs cf _ "Retain_unlock cf True"]) auto
  next
    case (Retain_unlock cf success)
    show ?thesis
    proof (cases success)
      case True
      then have "s' = set_stack t fs (s\<lparr>lock := None\<rparr>)" using step Retain_unlock by simp
      then show ?thesis using t Retain_unlock by (rule_tac drop) simp_all
    next
      case False
      then have "s' = set_stack t (Retain_load cf # fs) (s\<lparr>lock := None\<rparr>)" using step Retain_unlock by simp
      then show ?thesis using t Retain_unlock False by (rule_tac g = "Retain_load cf" in replace) simp_all
    qed
  qed (use step in simp_all)
qed

lemma release_step_inv:
  assumes inv: "cf_inv s" and top: "stack s t = f # fs" and step: "release_step t f fs s = Some s'"
  shows "cf_inv s'"
proof -
  have ok: "thread_ok s t" using inv by (simp add: cf_inv_def)
  note replace = replace_top [OF inv top] and drop = drop_top [OF inv top] and t = thread_okD(1,2) [OF ok top]
  have token: "(t, x) \<in># owns s" if "releasing f x" "f \<noteq> Release_enter x" for x
    using thread_okD(3) [OF ok top] that by blast
  show ?thesis
  proof (cases f)
    case (Release_enter cf)
    show ?thesis
    proof (cases "rc_of (info s cf) = 0")
      case True
      then have "s' = set_stack t fs s" using step Release_enter by simp
      then show ?thesis using t Release_enter by (rule_tac drop) simp_all
    next
      case False
      then have "s' = set_stack t (Release_load cf # fs) s" using step Release_enter by simp
      then show ?thesis
        using t Release_enter False by (rule_tac g = "Release_load cf" in replace) (simp_all add: is_constant_def)
    qed
  next
    case (Release_load cf)
    then have "s' = set_stack t (Release_try cf (info s cf) # fs) s" using step by simp
    moreover have "rc_of (info s cf) \<noteq> 0" "rc_of (info s cf) = 1 \<Longrightarrow> tokens s cf = 1"
      using token_counted(6) [OF inv] last_token [OF inv] token [of cf] Release_load by auto
    ultimately show ?thesis
      using t Release_load
      by (rule_tac g = "Release_try cf (info s cf)" in replace) (simp_all add: tokens_def)
  next
    case (Release_try cf w)
    consider "rc_of w = 1" | "rc_of w \<noteq> 1" "release_borrows w" | "rc_of w \<noteq> 1" "\<not> release_borrows w" "info s cf = w"
      | "rc_of w \<noteq> 1" "\<not> release_borrows w" "info s cf \<noteq> w" by blast
    then show ?thesis
    proof cases
      case 1
      define g where "g = (if CFGenericTypeID w = kCFAllocatorTypeID then Release_free cf else Release_final cf)"
      have "s' = set_stack t (g # fs) s" using step Release_try 1 by (auto simp: g_def split: if_splits)
      then show ?thesis
        using t Release_try 1 by (rule_tac g = g in replace) (auto simp: g_def tokens_def)
    next
      case 2
      then have "lock s = None" "s' = set_stack t (Release_locked cf w # fs) (s\<lparr>lock := Some t\<rparr>)"
        using step Release_try by (auto simp: option_bind_eq_Some acquire_Some)
      then show ?thesis using t Release_try 2 by (rule_tac g = "Release_locked cf w" in replace) simp_all
    next
      case 3
      then show ?thesis
        using step Release_try top by (intro release_plain_inv [OF inv, of t cf w fs _ 0]) (simp_all add: CAS32_cases)
    next
      case 4
      then have "s' = set_stack t (Release_load cf # fs) s" using step Release_try by (simp add: CAS32_cases)
      then show ?thesis using t Release_try by (rule_tac g = "Release_load cf" in replace) simp_all
    qed
  next
    case (Release_recheck cf)
    define g where "g = (if 1 = rc_of (info s cf) then Release_free cf else Release_load cf)"
    have "s' = set_stack t (g # fs) s" using step Release_recheck by (auto simp: g_def split: if_splits)
    moreover have "rc_of (info s cf) = 1 \<Longrightarrow> tokens s cf = 1"
      using last_token [OF inv] token [of cf] Release_recheck by simp
    ultimately show ?thesis
      using t Release_recheck by (rule_tac g = g in replace) (auto simp: g_def tokens_def)
  next
    case (Release_locked cf w)
    then have "s' = set_stack t (Release_counted cf w (extern s cf) # fs) s" using step by simp
    then show ?thesis using t Release_locked by (rule_tac g = "Release_counted cf w (extern s cf)" in replace) simp_all
  next
    case (Release_counted cf w n)
    show ?thesis
    proof (cases "info s cf = w")
      case True
      then show ?thesis
        using step Release_counted top by (intro release_borrow_inv [OF inv, of t cf w n fs]) (simp_all add: CAS32_cases)
    next
      case False
      then have "s' = set_stack t (Release_unlock cf False # fs) s" using step Release_counted by (simp add: CAS32_cases)
      then show ?thesis using t Release_counted by (rule_tac g = "Release_unlock cf False" in replace) simp_all
    qed
  next
    case (Release_carry cf)
    then show ?thesis
      using step top by (intro carry_paid_inv [OF inv, of t f fs cf _ "Release_unlock cf True"]) auto
  next
    case (Release_unlock cf success)
    show ?thesis
    proof (cases success)
      case True
      then have "s' = set_stack t fs (s\<lparr>lock := None\<rparr>)" using step Release_unlock by simp
      then show ?thesis using t Release_unlock by (rule_tac drop) simp_all
    next
      case False
      then have "s' = set_stack t (Release_load cf # fs) (s\<lparr>lock := None\<rparr>)" using step Release_unlock by simp
      then show ?thesis using t Release_unlock False by (rule_tac g = "Release_load cf" in replace) simp_all
    qed
  next
    case (Release_free cf)
    then show ?thesis using step top by (intro release_free_inv [OF inv]) auto
  qed (use step in simp_all)
qed

text \<open>A call puts a frame on the stack of a thread that may make calls.\<close>

lemma call_inv:
  assumes inv: "cf_inv s" and free: "free_to_call (stack s t)"
    and g: "g = Retain_enter cf \<and> (is_constant s cf \<or> (t, cf) \<in># owns s) \<or>
      g = Release_enter cf \<and> (is_constant s cf \<or> in_flight (stack s t) cf < count (owns s) (t, cf))"
  shows "cf_inv (set_stack t (g # stack s t) s)"
proof -
  have ok: "thread_ok s t" using inv by (simp add: cf_inv_def)
  have fin: "finals (stack s t)" by (rule free_finals [OF ok free])
  note top = finals_top [OF fin, of s t]
  have flight: "in_flight (stack s t) x \<le> count (owns s) (t, x)" if "\<not> is_constant s x" for x
    using ok that by (auto simp: thread_ok_def)
  have "thread_ok (set_stack t (g # stack s t) s) t"
    using ok g fin top flight
    by (auto simp: thread_ok_def finals_def is_constant_def Suc_le_eq)
  then show ?thesis
    using g top by (rule_tac quiet_step [OF inv, of _ t "g # stack s t"]) auto
qed

lemma hand_over_inv:
  assumes inv: "cf_inv s" and free: "free_to_call (stack s t)"
    and more: "in_flight (stack s t) cf < count (owns s) (t, cf)"
  shows "cf_inv (gain u cf (lose t cf s))"
proof -
  let ?s = "gain u cf (lose t cf s)"
  have ok: "thread_ok s t" using inv by (simp add: cf_inv_def)
  have token: "(t, cf) \<in># owns s" using more by (metis count_inI not_less_zero)
  note top = finals_top [OF free_finals [OF ok free]]
  have tok: "tokens ?s x = tokens s x" for x
    using tokens_lose [of "lose t cf s" s t cf x] tokens_gain [of ?s "lose t cf s" u cf x] token by simp
  have "count (owns s) (v, x) \<le> count (owns ?s) (v, x)" if "v \<noteq> t" for v x using that by simp
  moreover have "high ?s x = high s x" for x by (rule high_cong) simp_all
  moreover have "thread_ok ?s t"
  proof -
    have "in_flight (stack s t) x \<le> count (owns ?s) (t, x)" if "\<not> is_constant s x" for x
    proof -
      have "in_flight (stack s t) x \<le> count (owns s) (t, x)" using ok that by (auto simp: thread_ok_def)
      then show ?thesis using more by auto
    qed
    then show ?thesis using ok top by (auto simp: thread_ok_def is_constant_def)
  qed
  moreover have "thread_ok ?s v" if "v \<noteq> t" for v
    using inv that by - (rule others_ok [of s v], simp_all add: cf_inv_def is_constant_def tok)
  ultimately have "thread_ok ?s v" "count_ok ?s x" for v x
    using inv tok by (cases "v = t"; auto simp: cf_inv_def count_ok_def counted_def)+
  then show ?thesis by (simp add: cf_inv_def)
qed

lemma create_inv:
  assumes inv: "cf_inv s" and free: "free_to_call (stack s t)" and dead: "\<not> alive s cf" and rc: "rc_of w = 1"
  shows "cf_inv (gain t cf (s\<lparr>alive := (alive s)(cf := True), info := (info s)(cf := w)\<rparr>))"
proof -
  let ?s = "gain t cf (s\<lparr>alive := (alive s)(cf := True), info := (info s)(cf := w)\<rparr>)"
  have ok: "thread_ok s t" "count_ok s cf" using inv by (simp_all add: cf_inv_def)
  then have none: "tokens s cf = 0" "high s cf = 0" using dead by (simp_all add: count_ok_def counted_def)
  note top = finals_top [OF free_finals [OF ok(1) free]]
  have tok: "tokens ?s x = tokens s x + of_bool (x = cf)" for x by (rule tokens_gain) simp
  have "high ?s cf = high s cf" by (rule high_cong) simp_all
  then have "count_ok ?s cf" using none rc tok by (simp add: count_ok_def counted_def)
  moreover have const: "is_constant ?s cf \<longleftrightarrow> is_constant s cf" using dead rc by (simp add: is_constant_def)
  moreover have "thread_ok ?s t"
  proof -
    have "is_constant ?s x \<longleftrightarrow> is_constant s x" for x
      using const by (cases "x = cf") (auto simp: is_constant_def)
    then show ?thesis using ok top by (auto simp: thread_ok_def intro: le_SucI)
  qed
  ultimately show ?thesis
    using none(1) by (intro object_step [OF inv, of _ t "stack s t" cf]) (auto simp: tok dest: tokens_pos)
qed

lemma write_flags_inv:
  assumes inv: "cf_inv s" and free: "free_to_call (stack s t)" and rc: "rc_of w = rc_of (info s cf)"
  shows "cf_inv (s\<lparr>info := (info s)(cf := w)\<rparr>)"
proof -
  let ?s = "s\<lparr>info := (info s)(cf := w)\<rparr>"
  have ok: "thread_ok s u" "count_ok s x" for u x using inv by (simp_all add: cf_inv_def)
  have const: "is_constant ?s x \<longleftrightarrow> is_constant s x" for x using rc by (simp add: is_constant_def)
  have "thread_ok ?s u" for u
    by (rule others_ok [OF ok(1) [of u]]) (simp_all add: const tokens_def)
  moreover have "high ?s x = high s x" for x by (rule high_cong) simp_all
  then have "count_ok ?s x" for x
    using ok(2) [of x] rc tokens_cong [of ?s s x] by (cases "x = cf") (simp_all add: count_ok_def counted_def)
  ultimately show ?thesis by (simp add: cf_inv_def)
qed

lemma frame_step_inv:
  assumes inv: "cf_inv s" and top: "stack s t = f # fs" and step: "frame_step t f fs s = Some s'"
  shows "cf_inv s'"
  using step retain_step_inv [OF inv top] release_step_inv [OF inv top]
  by (auto simp: frame_step_def split: option.splits)

lemma finalized_inv:
  assumes inv: "cf_inv s" and top: "stack s t = Release_final cf # fs"
  shows "cf_inv (set_stack t (Release_recheck cf # fs) s)"
proof -
  have "thread_ok s t" using inv by (simp add: cf_inv_def)
  then show ?thesis
    using thread_okD(1) [OF _ top] by (intro replace_top [OF inv top, of _ "Release_recheck cf"]) simp_all
qed

lemma cf_step_inv: "cf_step s s' \<Longrightarrow> cf_inv s \<Longrightarrow> cf_inv s'"
proof (induction rule: cf_step.induct)
  case (run s t f fs s')
  then show ?case using frame_step_inv by blast
next
  case (finalized s t cf fs)
  then show ?case using finalized_inv by blast
next
  case (create s t cf typeID usesSystemDefault)
  then show ?case using create_inv rc_of_header by blast
next
  case (write_flags s t cf flags)
  then show ?case using write_flags_inv rc_of_flags by blast
qed (blast intro: call_inv hand_over_inv)+

lemma cf_initial_inv: "cf_initial s \<Longrightarrow> cf_inv s"
  by (auto simp: cf_initial_def cf_inv_def thread_ok_def count_ok_def counted_def high_def pending_def tokens_def
    is_constant_def)

lemma reachable_inv: "cf_reachable s \<Longrightarrow> cf_inv s"
  by (induction rule: cf_reachable.induct) (auto intro: cf_initial_inv cf_step_inv)

subsection \<open>What the invariant gives\<close>

text \<open>The frames whose next step reads or writes the memory of an object.\<close>

fun touches :: "frame \<Rightarrow> object \<Rightarrow> bool" where
  "touches (Retain_enter cf) x = (cf = x)"
| "touches (Retain_load cf) x = (cf = x)"
| "touches (Retain_try cf _) x = (cf = x)"
| "touches (Retain_locked cf _) x = (cf = x)"
| "touches (Release_enter cf) x = (cf = x)"
| "touches (Release_load cf) x = (cf = x)"
| "touches (Release_try cf _) x = (cf = x)"
| "touches (Release_final cf) x = (cf = x)"
| "touches (Release_recheck cf) x = (cf = x)"
| "touches (Release_counted cf _ _) x = (cf = x)"
| "touches (Release_free cf) x = (cf = x)"
| "touches _ x = False"

lemma and_0x80: "r < 256 \<Longrightarrow> r AND 0x80 \<noteq> 0 \<longleftrightarrow> 128 \<le> r" for r :: nat
proof -
  assume "r < 256"
  then have "odd (r div 128) \<longleftrightarrow> 128 \<le> r" by (cases "r < 128") (simp_all add: div_if [of r])
  then show ?thesis using and_exp_eq_0_iff_not_bit [of r 7] by (simp add: bit_iff_odd)
qed

text \<open>The count that the word and the table hold at one moment, and by how much the composition of the low bits
  of one state with the external count of a later one misses the references of the first.\<close>

definition stored_count :: "cf_state \<Rightarrow> object \<Rightarrow> nat" where
  "stored_count s cf =
     composite_count (rc_of (info s cf)) (if rc_of (info s cf) AND 0x80 \<noteq> 0 then extern s cf else 0)"

definition count_error :: "cf_state \<Rightarrow> cf_state \<Rightarrow> object \<Rightarrow> int" where
  "count_error s1 s2 cf =
     (if rc_of (info s1 cf) AND 0x80 \<noteq> 0 then 64 * (int (extern s2 cf) - int (extern s1 cf)) - pending s1 cf else 0)"

lemma composite_count: "composite_count r e = r mod 128 + 64 * e"
  by (simp add: composite_count_def and_127 push_bit_eq_mult)

lemma composite_error:
  assumes "cf_inv s1" "(t, cf) \<in># owns s1"
  shows "int (composite_count (rc_of (info s1 cf)) (if rc_of (info s1 cf) AND 0x80 \<noteq> 0 then extern s2 cf else 0)) =
    int (tokens s1 cf) + count_error s1 s2 cf"
proof -
  note c = token_counted(3-5) [OF assms]
  have "rc_of (info s1 cf) AND 0x80 \<noteq> 0 \<longleftrightarrow> 128 \<le> rc_of (info s1 cf)" by (rule and_0x80 [OF rc_of_less])
  then show ?thesis using c by (auto simp: composite_count count_error_def high_def algebra_simps)
qed

lemma stored_count_tokens:
  assumes "cf_inv s" "(t, cf) \<in># owns s" "pending s cf = 0"
  shows "stored_count s cf = tokens s cf"
  using composite_error [OF assms(1,2), of s] assms(3)
  by (simp add: stored_count_def count_error_def split: if_splits)


















lemma constant_or_token:
  assumes inv: "cf_inv s" and top: "stack s t = f # fs" and f: "touches f cf"
  shows "is_constant s cf \<or> (t, cf) \<in># owns s"
proof -
  have ok: "thread_ok s t" using inv by (simp add: cf_inv_def)
  have "is_constant s cf \<or> (t, cf) \<in># owns s" if "f = Release_enter cf"
  proof (rule disjCI)
    assume "(t, cf) \<notin># owns s"
    then have "\<not> in_flight (stack s t) cf \<le> count (owns s) (t, cf)" using that top by (simp add: not_in_iff)
    then show "is_constant s cf" using ok by (auto simp: thread_ok_def)
  qed
  then show ?thesis
    using thread_okD(2,3) [OF ok top] f by (cases f) auto
qed

lemma alive_cases: "is_constant s cf \<or> counted s cf \<Longrightarrow> alive s cf"
  by (auto simp: is_constant_def counted_def)

lemma blocked:
  assumes "frame_step t f fs s = None" "stack s t = f # fs"
  shows "(\<exists>cf. f = Release_final cf) \<or> \<not> holds (f # fs) \<and> lock s \<noteq> None"
  using assms by (cases f)
    (auto simp: frame_step_def acquire_def CAS32_def Let_def split: option.splits prod.splits if_splits)

text \<open>A thread that runs alone for \<open>n\<close> steps.\<close>

fun solo :: "nat \<Rightarrow> thread \<Rightarrow> cf_state \<Rightarrow> cf_state option" where
  "solo 0 t s = Some s"
| "solo (Suc n) t s =
     (case stack s t of [] \<Rightarrow> None | f # fs \<Rightarrow> do { s' \<leftarrow> frame_step t f fs s; solo n t s' })"

lemma tokens_simps [simp]:
  "tokens (set_stack t fs s) x = tokens s x" "tokens (s\<lparr>info := i\<rparr>) x = tokens s x"
  "tokens (s\<lparr>lock := l\<rparr>) x = tokens s x" "tokens (s\<lparr>extern := e\<rparr>) x = tokens s x"
  "tokens (gain t cf s) x = tokens s x + of_bool (x = cf)"
  by (simp_all add: tokens_def gain_def set_stack_def)

lemma tokens_lose_simp [simp]: "(t, cf) \<in># owns s \<Longrightarrow> tokens (lose t cf s) x = tokens s x - of_bool (x = cf)"
  using tokens_lose [of "lose t cf s" s t cf x] by simp

lemmas step_simps = frame_step_def set_stack_def acquire_def CAS32_def gain_def lose_def

lemma solo_Suc: "stack s t = f # fs \<Longrightarrow> frame_step t f fs s = Some s' \<Longrightarrow> solo (Suc n) t s = solo n t s'"
  by simp

subsection \<open>Properties\<close>


text \<open>C19: an object that counts is alive exactly as long as a reference to it is held: it is freed with its
  last reference, not before, and not left behind.\<close>

theorem freed_with_last_reference:
  assumes "cf_reachable s"
  shows "0 < tokens s cf \<longleftrightarrow> alive s cf \<and> rc_of (info s cf) \<noteq> 0"
proof -
  have inv: "cf_inv s" and "count_ok s cf" using reachable_inv [OF assms] by (simp_all add: cf_inv_def)
  then show ?thesis
  proof (cases "counted s cf")
    case True
    then have c: "int (rc_of (info s cf) mod 128) + high s cf = int (tokens s cf)" "0 \<le> high s cf"
      "128 \<le> rc_of (info s cf) \<longleftrightarrow> 0 < high s cf" "rc_of (info s cf) \<noteq> 0"
      using \<open>count_ok s cf\<close> by (simp_all add: count_ok_def counted_def)
    have "0 < int (tokens s cf)"
    proof (cases "128 \<le> rc_of (info s cf)")
      case True
      then show ?thesis using c by linarith
    next
      case False
      then have "rc_of (info s cf) mod 128 = rc_of (info s cf)" by simp
      then show ?thesis using c(1,2,4) by linarith
    qed
    then show ?thesis using True by (simp add: counted_def)
  qed (auto simp: count_ok_def counted_def)
qed

text \<open>C4: no call touches the memory of an object that has been freed.\<close>

theorem no_use_after_free:
  assumes "cf_reachable s" "stack s t = f # fs" "touches f cf"
  shows "alive s cf"
proof -
  note inv = reachable_inv [OF assms(1)]
  show ?thesis
    using constant_or_token [OF inv assms(2,3)] token_counted(1) [OF inv, of t cf] by (blast intro: alive_cases)
qed

text \<open>a finalizer is started, and an object freed, only by the thread that holds the one reference left.\<close>

theorem finalize_last_reference:
  assumes "cf_reachable s" "stack s t = f # fs" "frame_step t f fs s = Some s'"
    and "stack s' t = g # fs" "g = Release_final cf \<or> g = Release_free cf"
  shows "tokens s cf = 1 \<and> (t, cf) \<in># owns s"
proof -
  note inv = reachable_inv [OF assms(1)]
  have ok: "thread_ok s t" using inv by (simp add: cf_inv_def)
  note top = thread_okD(2,3) [OF ok assms(2)]
  have f: "f = Release_recheck cf \<and> rc_of (info s cf) = 1 \<or> (\<exists>w. f = Release_try cf w \<and> rc_of w = 1)"
    using assms(3-5) assms(2)
    by (cases f) (auto simp: step_simps option_bind_eq_Some Let_def split: option.splits if_splits prod.splits)
  then have "(t, cf) \<in># owns s" using top(2) [of cf] by auto
  then show ?thesis using f top(1) last_token [OF inv] by auto
qed

text \<open>C22: no deadlock.  A call that cannot take its next step waits for the lock, and the thread that has it can
  take its own.\<close>

theorem no_deadlock:
  assumes "cf_reachable s" "stack s t = f # fs" "\<And>cf. f \<noteq> Release_final cf"
  shows "(\<exists>s'. frame_step t f fs s = Some s') \<or>
    (\<exists>u g gs s'. u \<noteq> t \<and> lock s = Some u \<and> stack s u = g # gs \<and> frame_step u g gs s = Some s')"
proof (cases "frame_step t f fs s")
  case None
  have ok: "thread_ok s u" for u using reachable_inv [OF assms(1)] by (simp add: cf_inv_def)
  obtain u where u: "lock s = Some u" "\<not> holds (f # fs)" using blocked [OF None assms(2)] assms(3) by auto
  then have held: "holds (stack s u)" using ok [of u] by (simp add: thread_ok_def)
  then obtain g gs where g: "stack s u = g # gs" "holds (g # gs)" by (cases "stack s u") auto
  have "frame_step u g gs s \<noteq> None" using blocked [OF _ g(1)] g(2) by (cases g) auto
  then show ?thesis using u g assms(2) by auto
qed simp

lemma solo_numeral: "solo (numeral k) t s =
    (case stack s t of [] \<Rightarrow> None | f # fs \<Rightarrow> do { s' \<leftarrow> frame_step t f fs s; solo (pred_numeral k) t s' })"
  by (simp add: numeral_eq_Suc)

lemma retain_solo_constant:
  "stack s t = Retain_enter cf # fs \<Longrightarrow> rc_of (info s cf) = 0 \<Longrightarrow> solo 1 t s = Some (set_stack t fs s)"
  by (simp add: frame_step_def)

lemma retain_solo_plain:
  "stack s t = Retain_enter cf # fs \<Longrightarrow> rc_of (info s cf) \<noteq> 0 \<Longrightarrow> \<not> retain_carries (info s cf) \<Longrightarrow>
    \<exists>s'. solo 3 t s = Some s' \<and> stack s' t = fs \<and> lock s' = lock s \<and> owns s' = owns s + {#(t, cf)#}"
  by (simp add: solo_numeral frame_step_def CAS32_def)

lemma retain_solo_carry:
  "stack s t = Retain_enter cf # fs \<Longrightarrow> rc_of (info s cf) \<noteq> 0 \<Longrightarrow> retain_carries (info s cf) \<Longrightarrow> lock s = None \<Longrightarrow>
    \<exists>s'. solo 6 t s = Some s' \<and> stack s' t = fs \<and> lock s' = None \<and> owns s' = owns s + {#(t, cf)#}"
  by (simp add: solo_numeral frame_step_def CAS32_def acquire_def)

lemma release_solo_constant:
  "stack s t = Release_enter cf # fs \<Longrightarrow> rc_of (info s cf) = 0 \<Longrightarrow> solo 1 t s = Some (set_stack t fs s)"
  by (simp add: frame_step_def)

lemma release_solo_last:
  "stack s t = Release_enter cf # fs \<Longrightarrow> rc_of (info s cf) = 1 \<Longrightarrow>
    \<exists>s'. solo 3 t s = Some s' \<and> lock s' = lock s \<and> owns s' = owns s \<and>
      stack s' t = (if CFGenericTypeID (info s cf) = kCFAllocatorTypeID then Release_free cf else Release_final cf) # fs"
  by (simp add: solo_numeral frame_step_def)

lemma release_solo_plain:
  "stack s t = Release_enter cf # fs \<Longrightarrow> rc_of (info s cf) \<noteq> 0 \<Longrightarrow> rc_of (info s cf) \<noteq> 1 \<Longrightarrow>
    \<not> release_borrows (info s cf) \<Longrightarrow>
    \<exists>s'. solo 3 t s = Some s' \<and> stack s' t = fs \<and> lock s' = lock s \<and> owns s' = owns s - {#(t, cf)#}"
  by (simp add: solo_numeral frame_step_def CAS32_def)

lemma release_solo_borrow:
  "stack s t = Release_enter cf # fs \<Longrightarrow> rc_of (info s cf) \<noteq> 0 \<Longrightarrow> rc_of (info s cf) \<noteq> 1 \<Longrightarrow>
    release_borrows (info s cf) \<Longrightarrow> lock s = None \<Longrightarrow>
    \<exists>s'. solo 7 t s = Some s' \<and> stack s' t = fs \<and> lock s' = None \<and> owns s' = owns s - {#(t, cf)#}"
  by (simp add: solo_numeral frame_step_def CAS32_def acquire_def)

lemma tokens_owns:
  "owns s' = owns s \<Longrightarrow> tokens s' x = tokens s x"
  "owns s' = owns s + {#(t, cf)#} \<Longrightarrow> tokens s' x = tokens s x + of_bool (x = cf)"
  "owns s' = owns s - {#(t, cf)#} \<Longrightarrow> (t, cf) \<in># owns s \<Longrightarrow> tokens s' x = tokens s x - of_bool (x = cf)"
  using tokens_cong [of s' s x] tokens_gain [of s' s t cf x] tokens_lose [of s' s t cf x] by simp_all

lemma solo_reachable: "solo n t s = Some s' \<Longrightarrow> cf_reachable s \<Longrightarrow> cf_reachable s'"
  by (induction n t s rule: solo.induct)
    (auto simp: option_bind_eq_Some split: list.splits dest: cf_reachable.step [OF _ cf_step.run])

text \<open>C20: \<open>CFRetain\<close> returns.  From any reachable state in which the lock is free a thread that is let run alone
  through a call comes back within six steps, with the lock free again.  A constant object is as it was; for an
  object that counts the thread has one reference more, and the count that the word and the table of external
  counts hold has gone up by one, across the overflow of the count byte as well.  Every retry is thus caused by
  another thread's progress.\<close>

theorem retain_returns:
  assumes "cf_reachable s" "stack s t = Retain_enter cf # fs" "lock s = None"
  shows "\<exists>n s'. n \<le> 6 \<and> solo n t s = Some s' \<and> stack s' t = fs \<and> lock s' = None \<and>
    (if rc_of (info s cf) = 0 then info s' = info s \<and> extern s' = extern s \<and> owns s' = owns s
     else owns s' = owns s + {#(t, cf)#} \<and> stored_count s' cf = stored_count s cf + 1)"
proof -
  note inv = reachable_inv [OF assms(1)]
  have counts: "stored_count s' cf = stored_count s cf + 1"
    if "rc_of (info s cf) \<noteq> 0" "solo n t s = Some s'" "lock s' = None" "owns s' = owns s + {#(t, cf)#}" for n s'
  proof -
    have "(t, cf) \<in># owns s"
      using constant_or_token [OF inv assms(2), of cf] that(1) by (simp add: is_constant_def)
    then have "stored_count s cf = tokens s cf"
      using stored_count_tokens [OF inv] assms(3) by (simp add: pending_def)
    moreover have "stored_count s' cf = tokens s' cf"
      using stored_count_tokens [OF reachable_inv [OF solo_reachable [OF that(2) assms(1)]], of t cf] that(3,4)
      by (simp add: pending_def)
    ultimately show ?thesis using tokens_owns(2) [OF that(4), of cf] by simp
  qed
  consider "rc_of (info s cf) = 0" | "rc_of (info s cf) \<noteq> 0" "\<not> retain_carries (info s cf)"
    | "rc_of (info s cf) \<noteq> 0" "retain_carries (info s cf)" by blast
  then show ?thesis
  proof cases
    case 1
    show ?thesis
      by (rule exI [of _ 1], rule exI [of _ "set_stack t fs s"])
        (use retain_solo_constant [OF assms(2) 1] assms(3) 1 in simp)
  next
    case 2
    obtain s' where s': "solo 3 t s = Some s'" "stack s' t = fs" "lock s' = lock s" "owns s' = owns s + {#(t, cf)#}"
      using retain_solo_plain [OF assms(2) 2] by blast
    show ?thesis
      by (rule exI [of _ 3], rule exI [of _ s']) (use s' assms(3) 2 counts [OF 2(1) s'(1) _ s'(4)] in simp)
  next
    case 3
    obtain s' where s': "solo 6 t s = Some s'" "stack s' t = fs" "lock s' = None" "owns s' = owns s + {#(t, cf)#}"
      using retain_solo_carry [OF assms(2) 3 assms(3)] by blast
    show ?thesis
      by (rule exI [of _ 6], rule exI [of _ s']) (use s' 3 counts [OF 3(1) s'(1) _ s'(4)] in simp)
  qed
qed

text \<open>C21: \<open>CFRelease\<close> returns as well.  From any reachable state in which the lock is free a thread that is let
  run alone through a call comes back within seven steps, with one reference less; or, when it has the last
  one, it comes within three steps to the finalizer (or, for an allocator, to freeing it).\<close>

theorem release_returns:
  assumes "cf_reachable s" "stack s t = Release_enter cf # fs" "lock s = None"
  shows "\<exists>n s'. n \<le> 7 \<and> solo n t s = Some s' \<and> lock s' = None \<and>
    (if rc_of (info s cf) = 0 then stack s' t = fs \<and> tokens s' cf = tokens s cf
     else if tokens s cf = 1 then stack s' t \<in> {Release_final cf # fs, Release_free cf # fs} \<and> tokens s' cf = 1
     else stack s' t = fs \<and> Suc (tokens s' cf) = tokens s cf)"
proof -
  note inv = reachable_inv [OF assms(1)]
  show ?thesis
  proof (cases "rc_of (info s cf) = 0")
    case True
    show ?thesis
      by (rule exI [of _ 1], rule exI [of _ "set_stack t fs s"])
        (use release_solo_constant [OF assms(2) True] assms(3) True in simp)
  next
    case nz: False
    have token: "(t, cf) \<in># owns s"
      using constant_or_token [OF inv assms(2), of cf] nz by (simp add: is_constant_def)
    note c = token_counted [OF inv token]
    have one: "tokens s cf = 1 \<longleftrightarrow> rc_of (info s cf) = 1"
      using c(3,4,5) last_token [OF inv token] rc_of_less [of "info s cf"] nz mod_128 [of "rc_of (info s cf)"]
        zdvd_imp_le [OF high_64 [of s cf]]
      by (cases "128 \<le> rc_of (info s cf)") auto
    have less: "Suc (tokens s' cf) = tokens s cf" if "owns s' = owns s - {#(t, cf)#}" for s'
      using tokens_lose [OF that token, of cf] by simp
    consider "rc_of (info s cf) = 1" | "rc_of (info s cf) \<noteq> 1" "\<not> release_borrows (info s cf)"
      | "rc_of (info s cf) \<noteq> 1" "release_borrows (info s cf)" by blast
    then show ?thesis
    proof cases
      case 1
      obtain s' where s': "solo 3 t s = Some s'" "lock s' = lock s" "owns s' = owns s"
        "stack s' t \<in> {Release_final cf # fs, Release_free cf # fs}"
        using release_solo_last [OF assms(2) 1] by (auto split: if_splits)
      show ?thesis
        by (rule exI [of _ 3], rule exI [of _ s'])
          (use s' assms(3) nz 1 one tokens_owns(1) [OF s'(3)] in simp)
    next
      case 2
      obtain s' where s': "solo 3 t s = Some s'" "stack s' t = fs" "lock s' = lock s" "owns s' = owns s - {#(t, cf)#}"
        using release_solo_plain [OF assms(2) nz 2] by blast
      show ?thesis
        by (rule exI [of _ 3], rule exI [of _ s']) (use s' assms(3) nz 2 one less [OF s'(4)] in simp)
    next
      case 3
      obtain s' where s': "solo 7 t s = Some s'" "stack s' t = fs" "lock s' = None" "owns s' = owns s - {#(t, cf)#}"
        using release_solo_borrow [OF assms(2) nz 3 assms(3)] by blast
      show ?thesis
        by (rule exI [of _ 7], rule exI [of _ s']) (use s' nz 3 one less [OF s'(4)] in simp)
    qed
  qed
qed

inductive_cases cf_stepE: "cf_step s s'"

lemma frame_step_changes:
  assumes "frame_step t f fs s = Some s'" "info s' x \<noteq> info s x \<or> alive s' x \<noteq> alive s x"
  shows "releasing f x \<and> f \<noteq> Release_enter x \<or> (\<exists>w. f = Retain_try x w \<or> f = Retain_locked x w)"
  using assms
  by (cases f) (auto simp: step_simps option_bind_eq_Some Let_def split: option.splits if_splits prod.splits)

text \<open>constant objects (those with count 0) are for ever: no step counts them or frees them, whoever calls
  \<open>CFRetain\<close> and \<open>CFRelease\<close> on them and how often.\<close>

theorem constants_stay:
  assumes "cf_reachable s" "is_constant s cf" "cf_step s s'"
  shows "is_constant s' cf"
  using assms(3)
proof (rule cf_stepE)
  note inv = reachable_inv [OF assms(1)]
  fix t f fs assume top: "stack s t = f # fs" and step: "frame_step t f fs s = Some s'"
  have ok: "thread_ok s t" using inv by (simp add: cf_inv_def)
  have "info s' cf = info s cf \<and> alive s' cf = alive s cf"
  proof (rule ccontr)
    assume "\<not> (info s' cf = info s cf \<and> alive s' cf = alive s cf)"
    then have "(t, cf) \<in># owns s"
      using frame_step_changes [OF step, of cf] thread_okD(2,3) [OF ok top] by auto
    then show False using token_counted(2) [OF inv] assms(2) by blast
  qed
  then show ?thesis using assms(2) by (simp add: is_constant_def)
qed (use assms(2) in \<open>auto simp: is_constant_def rc_of_flags [simplified]\<close>)

subsection \<open>Witnesses\<close>

text \<open>
  A run: the constant object 7 exists from the start; thread 0 creates object 3 of type 300, starts a
  retain or a release of it and takes some steps.
\<close>

definition empty_state :: cf_state where
  "empty_state = \<lparr>info = (\<lambda>_. 0), alive = (\<lambda>x. x = 7), extern = (\<lambda>_. 0), lock = None, stack = (\<lambda>_. []), owns = {#}\<rparr>"

definition one_object :: cf_state where
  "one_object = gain 0 3 (empty_state\<lparr>alive := (alive empty_state)(3 := True),
     info := (info empty_state)(3 := header_word 1 False 300 True)\<rparr>)"

definition calling :: "frame \<Rightarrow> cf_state" where
  "calling f = set_stack 0 [f] one_object"

lemma one_object_reachable: "cf_reachable empty_state" "cf_reachable one_object"
proof -
  show e: "cf_reachable empty_state"
    by (rule start) (simp add: cf_initial_def empty_state_def rc_of_div)
  show "cf_reachable one_object"
    unfolding one_object_def by (rule cf_reachable.step [OF e create]) (simp_all add: empty_state_def runtime_consts)
qed

lemma one_object_simps:
  "stack one_object t = []" "lock one_object = None" "owns one_object = {#(0, 3)#}" "alive one_object 3" "is_constant one_object 7"
  "info one_object 3 = header_word 1 False 300 True" "rc_of (header_word 1 False 300 True) = 1"
  "CFGenericTypeID (header_word 1 False 300 True) = 300" "extern one_object x = 0" "tokens one_object 3 = 1"
  using rc_of_header [of 300 True] header_word_fields(1) [of 300 1 False True]
  by (simp_all add: one_object_def empty_state_def is_constant_def runtime_consts rc_of_div [of 0] tokens_def)

lemma calling_simps:
  "stack (calling f) 0 = [f]" "lock (calling f) = None" "owns (calling f) = {#(0, 3)#}" "alive (calling f) 3"
  "info (calling f) 3 = header_word 1 False 300 True" "extern (calling f) x = 0" "tokens (calling f) 3 = 1"
  by (simp_all add: calling_def one_object_simps)

lemma calling_reachable:
  "cf_reachable (calling (Retain_enter 3))" "cf_reachable (calling (Release_enter 3))"
  "cf_reachable (calling (Release_load 3))" "cf_reachable (calling (Release_try 3 (header_word 1 False 300 True)))"
proof -
  note first = one_object_reachable(2)
  have "cf_step one_object (calling (Retain_enter 3))"
    using call_retain [of one_object 0 3] by (simp add: calling_def one_object_simps)
  then show "cf_reachable (calling (Retain_enter 3))" by (rule step [OF first])
  have "cf_step one_object (calling (Release_enter 3))"
    using call_release [of one_object 0 3] by (simp add: calling_def one_object_simps)
  then show enter: "cf_reachable (calling (Release_enter 3))" by (rule step [OF first])
  have "frame_step 0 (Release_enter 3) [] (calling (Release_enter 3)) = Some (calling (Release_load 3))"
    by (simp add: frame_step_def calling_simps one_object_simps) (simp add: calling_def set_stack_def)
  then show load: "cf_reachable (calling (Release_load 3))"
    using step [OF enter run] calling_simps(1) by blast
  have "frame_step 0 (Release_load 3) [] (calling (Release_load 3)) =
      Some (calling (Release_try 3 (header_word 1 False 300 True)))"
    by (simp add: frame_step_def calling_simps) (simp add: calling_def set_stack_def)
  then show "cf_reachable (calling (Release_try 3 (header_word 1 False 300 True)))"
    using step [OF load run] calling_simps(1) by blast
qed



theorem freed_with_last_reference_witness: "tokens empty_state 3 = 0 \<and> 0 < tokens one_object 3"
  using freed_with_last_reference [OF one_object_reachable(1), of 3] freed_with_last_reference [OF one_object_reachable(2), of 3]
  by (simp add: one_object_simps) (simp add: empty_state_def)

theorem no_use_after_free_witness: "alive (calling (Release_enter 3)) 3"
  by (rule no_use_after_free [OF calling_reachable(2) calling_simps(1)]) simp

theorem finalize_last_reference_witness:
  "tokens (calling (Release_try 3 (header_word 1 False 300 True))) 3 = 1 \<and>
    (0, 3) \<in># owns (calling (Release_try 3 (header_word 1 False 300 True)))"
  by (rule finalize_last_reference [OF calling_reachable(4) calling_simps(1), where g = "Release_final 3"])
    (auto simp: frame_step_def calling_simps one_object_simps kCFAllocatorTypeID_def)

theorem no_deadlock_witness:
  "\<exists>s'. frame_step 0 (Retain_enter 3) [] (calling (Retain_enter 3)) = Some s'"
  using no_deadlock [OF calling_reachable(1) calling_simps(1)] by (auto simp: calling_simps(2))

theorem retain_returns_witness:
  "\<exists>n s'. n \<le> 6 \<and> solo n 0 (calling (Retain_enter 3)) = Some s' \<and> stack s' 0 = [] \<and>
    owns s' = {#(0, 3), (0, 3)#} \<and> stored_count s' 3 = 2"
proof -
  have "stored_count (calling (Retain_enter 3)) 3 = 1"
    by (simp add: stored_count_def composite_count_def calling_simps one_object_simps)
  then show ?thesis
    using retain_returns [OF calling_reachable(1) calling_simps(1,2)]
    by (auto simp: calling_simps one_object_simps)
qed

theorem release_returns_witness:
  "\<exists>n s'. n \<le> 7 \<and> solo n 0 (calling (Release_enter 3)) = Some s' \<and> tokens s' 3 = 1 \<and>
    stack s' 0 \<in> {[Release_final 3], [Release_free 3]}"
  using release_returns [OF calling_reachable(2) calling_simps(1,2)]
  by (auto simp: calling_simps one_object_simps)

theorem constants_stay_witness: "is_constant (set_stack 0 [Retain_enter 7] one_object) 7"
  using constants_stay [OF one_object_reachable(2), of 7] call_retain [of one_object 0 7]
  by (simp add: one_object_simps)

end
